(* ===== verification/Prelude.thy ===== *)
theory Prelude
  imports Main "HOL-Library.Word" "HOL-Library.Multiset"
begin

text \<open>
  Shared vocabulary of the development: Rust's checked integer arithmetic on
  bounded naturals, \<open>Result\<close> as a sum with its \<open>?\<close> operator, the iterator
  idioms the tables use (\<open>position\<close>, \<open>filter().count()\<close>, \<open>min_by_key\<close>), and
  the list and word facts the component theories have in common.
\<close>

unbundle bit_operations_syntax

section \<open>Collections\<close>

named_theorems result_simps \<open>inversion of \<open>Result\<close> pipelines\<close>
named_theorems checked_simps \<open>inversion of checked arithmetic\<close>

section \<open>Results\<close>

text \<open>
  \<open>Result<T, E>\<close> is the sum \<open>'e + 'a\<close> with \<open>Inl\<close> for \<open>Err\<close>. An operation on
  \<open>&mut self\<close> that performs every check before its first write returns
  \<open>'e + ('a \<times> 'state)\<close>: on \<open>Inl\<close> the caller keeps its old state. An operation
  that can fail after a write returns \<open>('e + 'a) \<times> 'state\<close>.
\<close>

type_synonym ('e, 'a) result = "'e + 'a"

definition rbind :: "('e, 'a) result \<Rightarrow> ('a \<Rightarrow> ('e, 'b) result) \<Rightarrow> ('e, 'b) result" where
  "rbind m f = (case m of Inl e \<Rightarrow> Inl e | Inr x \<Rightarrow> f x)"

definition ok_or :: "'e \<Rightarrow> 'a option \<Rightarrow> ('e, 'a) result" where
  "ok_or e x = (case x of None \<Rightarrow> Inl e | Some y \<Rightarrow> Inr y)"

definition map_err :: "('e \<Rightarrow> 'f) \<Rightarrow> ('e, 'a) result \<Rightarrow> ('f, 'a) result" where
  "map_err f m = (case m of Inl e \<Rightarrow> Inl (f e) | Inr x \<Rightarrow> Inr x)"

section \<open>Bounded integers\<close>

text \<open>
  Unsigned integers of \<open>w\<close> bits are naturals below \<open>2 ^ w\<close>; the operations that
  the code calls carry the width as their first argument.
\<close>

definition checked_add :: "nat \<Rightarrow> nat \<Rightarrow> nat \<Rightarrow> nat option" where
  "checked_add w a b = (if a + b < 2 ^ w then Some (a + b) else None)"

definition checked_sub :: "nat \<Rightarrow> nat \<Rightarrow> nat option" where
  "checked_sub a b = (if b \<le> a then Some (a - b) else None)"

definition checked_mul :: "nat \<Rightarrow> nat \<Rightarrow> nat \<Rightarrow> nat option" where
  "checked_mul w a b = (if a * b < 2 ^ w then Some (a * b) else None)"

definition saturating_add :: "nat \<Rightarrow> nat \<Rightarrow> nat \<Rightarrow> nat" where
  "saturating_add w a b = min (a + b) (2 ^ w - 1)"

definition try_into :: "nat \<Rightarrow> nat \<Rightarrow> nat option" where
  "try_into w a = (if a < 2 ^ w then Some a else None)"

text \<open>\<open>u64::is_power_of_two\<close>: exactly one of the 64 bits is set.\<close>

definition is_power_of_two :: "nat \<Rightarrow> bool" where
  "is_power_of_two a = (a \<in> set (map (\<lambda>k. 2 ^ k) [0..<64]))"

section \<open>Iterator idioms\<close>

fun position :: "('a \<Rightarrow> bool) \<Rightarrow> 'a list \<Rightarrow> nat option" where
  "position P [] = None"
| "position P (x # xs) = (if P x then Some 0 else map_option Suc (position P xs))"

definition count_if :: "('a \<Rightarrow> bool) \<Rightarrow> 'a list \<Rightarrow> nat" where
  "count_if P xs = length (filter P xs)"

text \<open>
  \<open>iter().enumerate().filter(P).min_by_key(k)\<close>: the index of the first element of
  least key among those satisfying \<open>P\<close>.
\<close>

fun min_index_by :: "('a \<Rightarrow> bool) \<Rightarrow> ('a \<Rightarrow> 'k::linorder) \<Rightarrow> 'a list \<Rightarrow> nat option" where
  "min_index_by P k [] = None"
| "min_index_by P k (x # xs) =
     (case min_index_by P k xs of
        None \<Rightarrow> if P x then Some 0 else None
      | Some j \<Rightarrow> if P x \<and> k x \<le> k (xs ! j) then Some 0 else Some (Suc j))"

section \<open>Facts on results\<close>

lemma rbind_simps [simp]:
  "rbind (Inl e) f = Inl e"
  "rbind (Inr x) f = f x"
  by (simp_all add: rbind_def)

lemma rbind_Inr_iff [result_simps]:
  "rbind m f = Inr y \<longleftrightarrow> (\<exists>x. m = Inr x \<and> f x = Inr y)"
  by (cases m) auto

lemma rbind_Inl_iff [result_simps]:
  "rbind m f = Inl e \<longleftrightarrow> m = Inl e \<or> (\<exists>x. m = Inr x \<and> f x = Inl e)"
  by (cases m) auto

lemma ok_or_simps [simp]:
  "ok_or e None = Inl e"
  "ok_or e (Some x) = Inr x"
  by (simp_all add: ok_or_def)

lemma ok_or_Inr_iff [result_simps]: "ok_or e x = Inr y \<longleftrightarrow> x = Some y"
  by (cases x) auto

lemma ok_or_Inl_iff [result_simps]: "ok_or e x = Inl f \<longleftrightarrow> x = None \<and> f = e"
  by (cases x) auto

lemma map_err_simps [simp]:
  "map_err f (Inl e) = Inl (f e)"
  "map_err f (Inr x) = Inr x"
  by (simp_all add: map_err_def)

lemma map_err_Inr_iff [result_simps]: "map_err f m = Inr y \<longleftrightarrow> m = Inr y"
  by (cases m) auto

lemma map_err_Inl_iff [result_simps]:
  "map_err f m = Inl e \<longleftrightarrow> (\<exists>e'. m = Inl e' \<and> e = f e')"
  by (cases m) auto

lemma map_prod_result_Inr_iff [result_simps]:
  "map_sum id f m = Inr y \<longleftrightarrow> (\<exists>x. m = Inr x \<and> y = f x)"
  by (cases m) auto

section \<open>Facts on checked arithmetic\<close>

lemma checked_add_Some_iff [checked_simps]:
  "checked_add w a b = Some c \<longleftrightarrow> c = a + b \<and> a + b < 2 ^ w"
  by (auto simp: checked_add_def)

lemma checked_add_None_iff [checked_simps]:
  "checked_add w a b = None \<longleftrightarrow> 2 ^ w \<le> a + b"
  by (auto simp: checked_add_def)

lemma checked_sub_Some_iff [checked_simps]:
  "checked_sub a b = Some c \<longleftrightarrow> b \<le> a \<and> c = a - b"
  by (auto simp: checked_sub_def)

lemma checked_sub_None_iff [checked_simps]:
  "checked_sub a b = None \<longleftrightarrow> a < b"
  by (auto simp: checked_sub_def)

lemma checked_mul_Some_iff [checked_simps]:
  "checked_mul w a b = Some c \<longleftrightarrow> c = a * b \<and> a * b < 2 ^ w"
  by (auto simp: checked_mul_def)

lemma checked_mul_None_iff [checked_simps]:
  "checked_mul w a b = None \<longleftrightarrow> 2 ^ w \<le> a * b"
  by (auto simp: checked_mul_def)

lemma try_into_Some_iff [checked_simps]:
  "try_into w a = Some b \<longleftrightarrow> b = a \<and> a < 2 ^ w"
  by (auto simp: try_into_def)

lemma try_into_None_iff [checked_simps]:
  "try_into w a = None \<longleftrightarrow> 2 ^ w \<le> a"
  by (auto simp: try_into_def)

lemma is_power_of_two_iff: "is_power_of_two a \<longleftrightarrow> (\<exists>k<64. a = 2 ^ k)"
  by (auto simp: is_power_of_two_def)

section \<open>Facts on the iterator idioms\<close>

lemma position_SomeD:
  "position P xs = Some i \<Longrightarrow> i < length xs \<and> P (xs ! i) \<and> (\<forall>j<i. \<not> P (xs ! j))"
proof (induction xs arbitrary: i)
  case Nil
  then show ?case by simp
next
  case (Cons x xs)
  show ?case
  proof (cases "P x")
    case True
    with Cons.prems show ?thesis by simp
  next
    case False
    with Cons.prems obtain j where j: "position P xs = Some j" and i: "i = Suc j" by auto
    from Cons.IH [OF j] False i show ?thesis
      by (auto simp: less_Suc_eq_0_disj)
  qed
qed

lemma position_None_iff: "position P xs = None \<longleftrightarrow> (\<forall>x\<in>set xs. \<not> P x)"
  by (induction xs) auto

lemma position_unique:
  assumes "i < length xs" "P (xs ! i)" "\<And>j. j < i \<Longrightarrow> \<not> P (xs ! j)"
  shows "position P xs = Some i"
proof -
  from assms(1,2) have "position P xs \<noteq> None" by (auto simp: position_None_iff)
  then obtain k where k: "position P xs = Some k" by blast
  from position_SomeD [OF k] assms have "k = i" by (metis linorder_neqE_nat)
  with k show ?thesis by simp
qed

lemma count_if_simps [simp]:
  "count_if P [] = 0"
  "count_if P (x # xs) = (if P x then Suc (count_if P xs) else count_if P xs)"
  "count_if P (xs @ ys) = count_if P xs + count_if P ys"
  by (simp_all add: count_if_def)

lemma count_if_le_length: "count_if P xs \<le> length xs"
  by (simp add: count_if_def)

lemma count_if_replicate [simp]: "count_if P (replicate n x) = (if P x then n else 0)"
  by (induction n) auto

lemma count_if_pos_iff: "0 < count_if P xs \<longleftrightarrow> (\<exists>x\<in>set xs. P x)"
  by (induction xs) auto

lemma count_if_update:
  "i < length xs \<Longrightarrow>
   count_if P (xs[i := v]) + of_bool (P (xs ! i)) = count_if P xs + of_bool (P v)"
proof (induction xs arbitrary: i)
  case Nil
  then show ?case by simp
next
  case (Cons x xs)
  then show ?case
    by (cases i) (auto simp: algebra_simps)
qed

lemma count_if_pos_nth: "i < length xs \<Longrightarrow> P (xs ! i) \<Longrightarrow> 0 < count_if P xs"
  by (auto simp: count_if_pos_iff)

lemma count_if_mono: "(\<And>x. x \<in> set xs \<Longrightarrow> P x \<Longrightarrow> Q x) \<Longrightarrow> count_if P xs \<le> count_if Q xs"
  by (induction xs) (auto simp: le_SucI)

lemma count_if_less_length_nth:
  "i < length xs \<Longrightarrow> \<not> P (xs ! i) \<Longrightarrow> count_if P xs < length xs"
proof (induction xs arbitrary: i)
  case Nil
  then show ?case by simp
next
  case (Cons x xs)
  then show ?case
    by (cases i) (auto simp: less_Suc_eq_le count_if_le_length Suc_le_eq)
qed

lemma take_drop_upt: "k + c \<le> b - a \<Longrightarrow> take c (drop k [a..<b]) = [a + k ..< a + k + c]"
  by (intro nth_equalityI) auto

lemma count_if_mset: "count_if P xs = size (filter_mset P (mset xs))"
  by (induction xs) auto

lemma count_if_sort_key [simp]: "count_if P (sort_key f xs) = count_if P xs"
  by (simp add: count_if_mset)

lemma sum_list_update_nat:
  "i < length xs \<Longrightarrow>
   sum_list (map f (xs[i := v])) + f (xs ! i) = sum_list (map f xs) + (f v :: nat)"
proof (induction xs arbitrary: i)
  case Nil
  then show ?case by simp
next
  case (Cons x xs)
  then show ?case
    by (cases i) (auto simp: algebra_simps)
qed

lemma sum_list_le_length_mult:
  "(\<And>x. x \<in> set xs \<Longrightarrow> f x \<le> (B::nat)) \<Longrightarrow> sum_list (map f xs) \<le> length xs * B"
  by (induction xs) (auto simp: add_mono)

lemma min_index_by_None_iff:
  "min_index_by P k xs = None \<longleftrightarrow> (\<forall>x\<in>set xs. \<not> P x)"
  by (induction xs) (auto split: option.splits)

lemma min_index_by_SomeD:
  "min_index_by P k xs = Some i \<Longrightarrow>
   i < length xs \<and> P (xs ! i) \<and> (\<forall>j<length xs. P (xs ! j) \<longrightarrow> k (xs ! i) \<le> k (xs ! j))"
proof (induction xs arbitrary: i)
  case Nil
  then show ?case by simp
next
  case (Cons x xs)
  show ?case
  proof (cases "min_index_by P k xs")
    case None
    then have "\<forall>y\<in>set xs. \<not> P y" by (simp add: min_index_by_None_iff)
    with None Cons.prems show ?thesis
      by (auto simp: nth_Cons split: if_splits nat.splits)
  next
    case (Some j)
    from Cons.IH [OF this] Some Cons.prems show ?thesis
      by (auto simp: nth_Cons split: if_splits nat.splits)
  qed
qed

lemma count_if_map [simp]: "count_if P (map f xs) = count_if (\<lambda>x. P (f x)) xs"
  by (induction xs) auto

lemma count_if_split:
  "count_if P xs = count_if (\<lambda>x. P x \<and> Q x) xs + count_if (\<lambda>x. P x \<and> \<not> Q x) xs"
  by (induction xs) auto

lemma count_if_cong:
  "(\<And>x. x \<in> set xs \<Longrightarrow> P x = Q x) \<Longrightarrow> count_if P xs = count_if Q xs"
  by (induction xs) auto

lemma map_update_same: "f y = f (xs ! i) \<Longrightarrow> map f (xs[i := y]) = map f xs"
  by (cases "i < length xs") (auto simp: map_update list_update_same_conv list_update_beyond)

lemma filter_last_butlast: "distinct xs \<Longrightarrow> xs \<noteq> [] \<Longrightarrow> filter (\<lambda>x. x \<noteq> last xs) xs = butlast xs"
  by (induction xs rule: rev_induct) (auto simp: filter_id_conv)

lemma saturating_add_exact: "a + b < 2 ^ w \<Longrightarrow> saturating_add w a b = a + b"
  by (simp add: saturating_add_def)

lemma set_update_cases: "x \<in> set (xs[i := y]) \<Longrightarrow> x = y \<or> x \<in> set xs"
  using set_update_subset_insert [of xs i y] by auto

lemma rev_nth_Cons: "k < length xs \<Longrightarrow> rev (x # xs) ! k = rev xs ! k"
  by (simp add: nth_append)

end
