(* ===== verification/Physical_Range.thy ===== *)
theory Physical_Range
  imports Prelude
begin

text \<open>
  \<open>crates/runtime/troe-memory/src/range.rs\<close>: half-open, page-aligned physical
  ranges built from a base address and a page count with checked 64-bit
  arithmetic. The type invariant \<open>range_ok\<close> is what \<open>from_pages\<close> establishes.
\<close>

definition BASE_PAGE_SIZE :: nat where
  "BASE_PAGE_SIZE = 4096"

datatype memory_map_error =
    Map_Unaligned | Map_Empty | Map_Overflow | Map_FirmwareOverlap | Map_ReservationUnmapped
  | Map_TooManyRegions

record physical_range =
  pr_start :: nat
  pr_end :: nat

definition range_from_pages :: "nat \<Rightarrow> nat \<Rightarrow> (memory_map_error, physical_range) result" where
  "range_from_pages start page_count =
     (if start mod BASE_PAGE_SIZE \<noteq> 0 then Inl Map_Unaligned
      else if page_count = 0 then Inl Map_Empty
      else rbind (ok_or Map_Overflow (checked_mul 64 page_count BASE_PAGE_SIZE)) (\<lambda>byte_count.
           rbind (ok_or Map_Overflow (checked_add 64 start byte_count)) (\<lambda>end.
           Inr \<lparr>pr_start = start, pr_end = end\<rparr>)))"

definition range_byte_count :: "physical_range \<Rightarrow> nat" where
  "range_byte_count r = pr_end r - pr_start r"

definition range_page_count :: "physical_range \<Rightarrow> nat" where
  "range_page_count r = range_byte_count r div BASE_PAGE_SIZE"

definition range_contains :: "physical_range \<Rightarrow> nat \<Rightarrow> bool" where
  "range_contains r address = (pr_start r \<le> address \<and> address < pr_end r)"

text \<open>The type invariant, and the set of byte addresses a range denotes.\<close>

definition range_ok :: "physical_range \<Rightarrow> bool" where
  "range_ok r = (BASE_PAGE_SIZE dvd pr_start r \<and> BASE_PAGE_SIZE dvd pr_end r \<and>
     pr_start r < pr_end r \<and> pr_end r < 2 ^ 64)"

definition range_bytes :: "physical_range \<Rightarrow> nat set" where
  "range_bytes r = {pr_start r ..< pr_end r}"

lemma mem_range_bytes [simp]: "a \<in> range_bytes r \<longleftrightarrow> range_contains r a"
  by (auto simp: range_bytes_def range_contains_def)

lemma card_range_bytes [simp]: "card (range_bytes r) = range_byte_count r"
  by (simp add: range_bytes_def range_byte_count_def)

lemma finite_range_bytes [simp]: "finite (range_bytes r)"
  by (simp add: range_bytes_def)

lemma BASE_PAGE_SIZE_pos [simp]: "0 < BASE_PAGE_SIZE"
  by (simp add: BASE_PAGE_SIZE_def)

lemma range_page_count_mult:
  "range_ok r \<Longrightarrow> range_page_count r * BASE_PAGE_SIZE = pr_end r - pr_start r"
  by (simp add: range_ok_def range_page_count_def range_byte_count_def)

lemma range_ok_end:
  "range_ok r \<Longrightarrow> pr_end r = pr_start r + range_page_count r * BASE_PAGE_SIZE"
  using range_page_count_mult [of r] by (simp add: range_ok_def)

lemma range_ok_page_count_pos: "range_ok r \<Longrightarrow> 0 < range_page_count r"
  using range_page_count_mult [of r] by (cases "range_page_count r") (auto simp: range_ok_def)

lemma range_ok_page_count_bound: "range_ok r \<Longrightarrow> range_page_count r < 2 ^ 64"
  unfolding range_page_count_def range_byte_count_def range_ok_def
  by (meson div_le_dividend diff_le_self le_less_trans)

text \<open>What \<open>from_pages\<close> accepts, exactly, and what it returns.\<close>

lemma range_from_pages_Inr_iff [result_simps]:
  "range_from_pages start n = Inr r \<longleftrightarrow>
     BASE_PAGE_SIZE dvd start \<and> 0 < n \<and> start + n * BASE_PAGE_SIZE < 2 ^ 64 \<and>
     r = \<lparr>pr_start = start, pr_end = start + n * BASE_PAGE_SIZE\<rparr>"
  by (auto simp: range_from_pages_def result_simps checked_simps mod_eq_0_iff_dvd)

lemma range_from_pages_ok: "range_from_pages start n = Inr r \<Longrightarrow> range_ok r"
  by (auto simp: range_from_pages_Inr_iff range_ok_def)

lemma range_from_pages_page_count [simp]:
  "range_page_count \<lparr>pr_start = s, pr_end = s + n * BASE_PAGE_SIZE\<rparr> = n"
  by (simp add: range_page_count_def range_byte_count_def)

end
