(* ===== verification/Memory_Map.thy ===== *)
theory Memory_Map
  imports Physical_Range
begin

text \<open>
  \<open>crates/runtime/troe-memory/src/map.rs\<close>: normalisation of the firmware memory
  map and overlay of explicit reservations. The denotation of a region list is
  the set of byte addresses of each kind; the theorems say that normalisation
  computes exactly the reservation overlay on that denotation, in canonical
  (sorted, disjoint, coalesced) form, with exact byte accounting.
\<close>

section \<open>Data\<close>

definition MAX_FIRMWARE_REGIONS :: nat where
  "MAX_FIRMWARE_REGIONS = 256"

definition MAX_RESERVATIONS :: nat where
  "MAX_RESERVATIONS = 64"

definition MAX_NORMALIZED_REGIONS :: nat where
  "MAX_NORMALIZED_REGIONS = 512"

datatype region_kind = Usable | Reserved

record memory_region =
  mr_range :: physical_range
  mr_kind :: region_kind

record memory_map_stats =
  usable_bytes :: nat
  reserved_bytes :: nat

record normalized_memory_map =
  nm_regions :: "memory_region list"
  nm_stats :: memory_map_stats

abbreviation rg_start :: "memory_region \<Rightarrow> nat" where
  "rg_start r \<equiv> pr_start (mr_range r)"

abbreviation rg_end :: "memory_region \<Rightarrow> nat" where
  "rg_end r \<equiv> pr_end (mr_range r)"

section \<open>Operations\<close>

definition region_new :: "physical_range \<Rightarrow> region_kind \<Rightarrow> memory_region" where
  "region_new rng kind = \<lparr>mr_range = rng, mr_kind = kind\<rparr>"

definition total_bytes :: "memory_map_stats \<Rightarrow> nat" where
  "total_bytes s = usable_bytes s + reserved_bytes s"

definition append_region ::
    "memory_region list \<Rightarrow> memory_region \<Rightarrow> (memory_map_error, memory_region list) result" where
  "append_region output region =
     (if output \<noteq> [] \<and> mr_kind (last output) = mr_kind region \<and>
         rg_end (last output) = rg_start region
      then Inr (butlast output @
             [(last output)\<lparr>mr_range := (mr_range (last output))\<lparr>pr_end := rg_end region\<rparr>\<rparr>])
      else if MAX_NORMALIZED_REGIONS \<le> length output then Inl Map_TooManyRegions
      else Inr (output @ [region]))"

fun normalize_firmware_loop ::
    "memory_region list \<Rightarrow> memory_region list \<Rightarrow> (memory_map_error, memory_region list) result" where
  "normalize_firmware_loop normalized [] = Inr normalized"
| "normalize_firmware_loop normalized (region # rest) =
     (if normalized \<noteq> [] \<and> rg_start region < rg_end (last normalized)
      then Inl Map_FirmwareOverlap
      else rbind (append_region normalized region) (\<lambda>normalized'.
           normalize_firmware_loop normalized' rest))"

definition normalize_firmware ::
    "memory_region list \<Rightarrow> (memory_map_error, memory_region list) result" where
  "normalize_firmware regions = normalize_firmware_loop [] (sort_key rg_start regions)"

fun normalize_reservations_loop :: "physical_range list \<Rightarrow> physical_range list \<Rightarrow> physical_range list" where
  "normalize_reservations_loop normalized [] = normalized"
| "normalize_reservations_loop normalized (rng # rest) =
     (if normalized \<noteq> [] \<and> pr_start rng \<le> pr_end (last normalized)
      then normalize_reservations_loop
             (butlast normalized @
               [(last normalized)\<lparr>pr_end := max (pr_end (last normalized)) (pr_end rng)\<rparr>]) rest
      else normalize_reservations_loop (normalized @ [rng]) rest)"

definition normalize_reservations :: "physical_range list \<Rightarrow> physical_range list" where
  "normalize_reservations reservations =
     normalize_reservations_loop [] (sort_key pr_start reservations)"

fun range_is_covered_loop :: "nat \<Rightarrow> physical_range \<Rightarrow> memory_region list \<Rightarrow> bool" where
  "range_is_covered_loop cursor rng [] = False"
| "range_is_covered_loop cursor rng (region # rest) =
     (if rg_end region \<le> cursor then range_is_covered_loop cursor rng rest
      else if cursor < rg_start region then False
      else let cursor' = min (rg_end region) (pr_end rng)
           in if cursor' = pr_end rng then True
              else range_is_covered_loop cursor' rng rest)"

definition range_is_covered :: "physical_range \<Rightarrow> memory_region list \<Rightarrow> bool" where
  "range_is_covered rng regions = range_is_covered_loop (pr_start rng) rng regions"

text \<open>
  The loop of \<open>overlay_region\<close> over the remaining reservations; it returns the
  cursor and the output, and stops early at the region's end as the \<open>break\<close> does.
\<close>

fun overlay_region_loop ::
    "memory_region \<Rightarrow> physical_range list \<Rightarrow> nat \<Rightarrow> memory_region list \<Rightarrow>
     (memory_map_error, nat \<times> memory_region list) result" where
  "overlay_region_loop region [] cursor output = Inr (cursor, output)"
| "overlay_region_loop region (reservation # rest) cursor output =
     (if pr_end reservation \<le> cursor \<or> rg_end region \<le> pr_start reservation
      then overlay_region_loop region rest cursor output
      else rbind
        (if cursor < pr_start reservation
         then append_region output (region_new
                \<lparr>pr_start = cursor, pr_end = min (pr_start reservation) (rg_end region)\<rparr>
                (mr_kind region))
         else Inr output) (\<lambda>output'.
        let reserved_start = max cursor (pr_start reservation);
            reserved_end = min (rg_end region) (pr_end reservation)
        in rbind
          (if reserved_start < reserved_end
           then rbind (append_region output' (region_new
                  \<lparr>pr_start = reserved_start, pr_end = reserved_end\<rparr> Reserved))
                  (\<lambda>output''. Inr (reserved_end, output''))
           else Inr (cursor, output')) (\<lambda>(cursor', output'').
          if cursor' = rg_end region then Inr (cursor', output'')
          else overlay_region_loop region rest cursor' output'')))"

definition overlay_region ::
    "memory_region \<Rightarrow> physical_range list \<Rightarrow> memory_region list \<Rightarrow>
     (memory_map_error, memory_region list) result" where
  "overlay_region region reservations output =
     rbind (overlay_region_loop region reservations (rg_start region) output) (\<lambda>(cursor, output').
       if cursor < rg_end region
       then append_region output'
              (region_new \<lparr>pr_start = cursor, pr_end = rg_end region\<rparr> (mr_kind region))
       else Inr output')"

fun overlay_all ::
    "memory_region list \<Rightarrow> physical_range list \<Rightarrow> memory_region list \<Rightarrow>
     (memory_map_error, memory_region list) result" where
  "overlay_all [] reservations output = Inr output"
| "overlay_all (region # rest) reservations output =
     rbind (overlay_region region reservations output) (\<lambda>output'.
       overlay_all rest reservations output')"

fun calculate_stats_loop ::
    "memory_map_stats \<Rightarrow> memory_region list \<Rightarrow> (memory_map_error, memory_map_stats) result" where
  "calculate_stats_loop stats [] = Inr stats"
| "calculate_stats_loop stats (region # rest) =
     (case mr_kind region of
        Usable \<Rightarrow>
          rbind (ok_or Map_Overflow
                  (checked_add 64 (usable_bytes stats) (range_byte_count (mr_range region))))
            (\<lambda>bytes. calculate_stats_loop (stats\<lparr>usable_bytes := bytes\<rparr>) rest)
      | Reserved \<Rightarrow>
          rbind (ok_or Map_Overflow
                  (checked_add 64 (reserved_bytes stats) (range_byte_count (mr_range region))))
            (\<lambda>bytes. calculate_stats_loop (stats\<lparr>reserved_bytes := bytes\<rparr>) rest))"

definition calculate_stats :: "memory_region list \<Rightarrow> (memory_map_error, memory_map_stats) result" where
  "calculate_stats regions = calculate_stats_loop \<lparr>usable_bytes = 0, reserved_bytes = 0\<rparr> regions"

definition memory_map_build ::
    "memory_region list \<Rightarrow> physical_range list \<Rightarrow>
     (memory_map_error, normalized_memory_map) result" where
  "memory_map_build firmware_regions reservations =
     (if MAX_FIRMWARE_REGIONS < length firmware_regions \<or> MAX_RESERVATIONS < length reservations
      then Inl Map_TooManyRegions
      else rbind (normalize_firmware firmware_regions) (\<lambda>firmware.
           let reservations' = normalize_reservations reservations
           in if \<exists>reservation \<in> set reservations'. \<not> range_is_covered reservation firmware
              then Inl Map_ReservationUnmapped
              else rbind (overlay_all firmware reservations' []) (\<lambda>regions.
                   rbind (calculate_stats regions) (\<lambda>stats.
                   Inr \<lparr>nm_regions = regions, nm_stats = stats\<rparr>))))"

section \<open>Denotation and canonical form\<close>

definition kind_bytes :: "memory_region list \<Rightarrow> region_kind \<Rightarrow> nat set" where
  "kind_bytes regions k = (\<Union>r \<in> {r \<in> set regions. mr_kind r = k}. range_bytes (mr_range r))"

definition ranges_bytes :: "physical_range list \<Rightarrow> nat set" where
  "ranges_bytes rs = (\<Union>r \<in> set rs. range_bytes r)"

text \<open>Sorted and pairwise disjoint, every region non-empty.\<close>

definition regions_sorted :: "memory_region list \<Rightarrow> bool" where
  "regions_sorted regions =
     (sorted_wrt (\<lambda>a b. rg_end a \<le> rg_start b) regions \<and> (\<forall>r \<in> set regions. rg_start r < rg_end r))"

text \<open>Coalesced: no two neighbours of one kind touch.\<close>

fun regions_coalesced :: "memory_region list \<Rightarrow> bool" where
  "regions_coalesced (a # b # rest) =
     ((mr_kind a = mr_kind b \<longrightarrow> rg_end a \<noteq> rg_start b) \<and> regions_coalesced (b # rest))"
| "regions_coalesced _ = True"


text \<open>Canonical output whose last region ends at or before \<open>c\<close>.\<close>

definition canonical_to :: "memory_region list \<Rightarrow> nat \<Rightarrow> bool" where
  "canonical_to out c = (regions_sorted out \<and> regions_coalesced out \<and> (\<forall>r \<in> set out. rg_end r \<le> c))"

text \<open>Reservations after normalisation: sorted, strictly separated, non-empty.\<close>

definition reservations_sorted :: "physical_range list \<Rightarrow> bool" where
  "reservations_sorted rs =
     (sorted_wrt (\<lambda>a b. pr_end a < pr_start b) rs \<and> (\<forall>r \<in> set rs. pr_start r < pr_end r))"

lemma kind_bytes_simps [simp]:
  "kind_bytes [] k = {}"
  "kind_bytes (r # rs) k =
     (if mr_kind r = k then range_bytes (mr_range r) else {}) \<union> kind_bytes rs k"
  "kind_bytes (xs @ ys) k = kind_bytes xs k \<union> kind_bytes ys k"
  by (auto simp: kind_bytes_def)

lemma ranges_bytes_simps [simp]:
  "ranges_bytes [] = {}"
  "ranges_bytes (r # rs) = range_bytes r \<union> ranges_bytes rs"
  "ranges_bytes (xs @ ys) = ranges_bytes xs \<union> ranges_bytes ys"
  by (auto simp: ranges_bytes_def)

lemma region_new_simps [simp]:
  "mr_range (region_new rng k) = rng"
  "mr_kind (region_new rng k) = k"
  by (simp_all add: region_new_def)

lemma regions_coalesced_snoc:
  "regions_coalesced (xs @ [b]) \<longleftrightarrow>
     regions_coalesced xs \<and>
     (xs \<noteq> [] \<longrightarrow> mr_kind (last xs) = mr_kind b \<longrightarrow> rg_end (last xs) \<noteq> rg_start b)"
  by (induction xs rule: regions_coalesced.induct) auto

lemma canonical_to_Nil [simp]: "canonical_to [] c"
  by (simp add: canonical_to_def regions_sorted_def)

lemma canonical_to_mono: "canonical_to out c \<Longrightarrow> c \<le> d \<Longrightarrow> canonical_to out d"
  by (auto simp: canonical_to_def)

lemma append_region_length:
  "append_region out r = Inr out' \<Longrightarrow> length out' \<le> Suc (length out)"
  by (auto simp: append_region_def split: if_splits)

text \<open>
  Appending a region at or after the end of a canonical list keeps it canonical
  and adds exactly the region's bytes; it succeeds whenever a slot is left.
\<close>

lemma append_region_spec:
  assumes canon: "canonical_to out c" and c: "c \<le> rg_start r"
    and ne: "rg_start r < rg_end r" and app: "append_region out r = Inr out'"
  shows "canonical_to out' (rg_end r)"
    and "kind_bytes out' k = kind_bytes out k \<union>
           (if mr_kind r = k then range_bytes (mr_range r) else {})"
proof -
  have ends: "\<forall>q \<in> set out. rg_end q \<le> rg_start r" and sorted: "regions_sorted out"
    and coal: "regions_coalesced out"
    using canon c by (auto simp: canonical_to_def)
  consider (merge) xs p where "out = xs @ [p]" "mr_kind p = mr_kind r" "rg_end p = rg_start r"
      "out' = xs @ [p\<lparr>mr_range := (mr_range p)\<lparr>pr_end := rg_end r\<rparr>\<rparr>]"
    | (push) "out' = out @ [r]"
      "out \<noteq> [] \<Longrightarrow> mr_kind (last out) = mr_kind r \<Longrightarrow> rg_end (last out) \<noteq> rg_start r"
    using app by (cases out rule: rev_cases) (auto simp: append_region_def split: if_splits)
  note cs = this
  from cs show "canonical_to out' (rg_end r)"
  proof cases
    case merge
    then have "\<forall>q \<in> set xs. rg_end q \<le> rg_end r" "rg_start p < rg_end r"
      using sorted ends ne by (auto simp: regions_sorted_def)
    with merge sorted coal show ?thesis
      by (auto simp: canonical_to_def regions_sorted_def sorted_wrt_append regions_coalesced_snoc)
  next
    case push
    have "\<forall>q \<in> set out. rg_end q \<le> rg_end r" using ends ne by auto
    with push sorted coal ends ne show ?thesis
      by (auto simp: canonical_to_def regions_sorted_def sorted_wrt_append regions_coalesced_snoc)
  qed
  from cs show "kind_bytes out' k = kind_bytes out k \<union>
          (if mr_kind r = k then range_bytes (mr_range r) else {})"
  proof cases
    case merge
    then have "rg_start p < rg_start r" using sorted by (auto simp: regions_sorted_def)
    with merge ne show ?thesis by (auto simp: range_bytes_def)
  next
    case push
    then show ?thesis by auto
  qed
qed

lemma append_region_total:
  "length out < MAX_NORMALIZED_REGIONS \<Longrightarrow> \<exists>out'. append_region out r = Inr out'"
  by (auto simp: append_region_def)


section \<open>Firmware normalisation\<close>

definition last_end :: "memory_region list \<Rightarrow> nat" where
  "last_end out = (if out = [] then 0 else rg_end (last out))"

lemma regions_sorted_last_end:
  assumes "regions_sorted out" and "p \<in> set out"
  shows "rg_end p \<le> last_end out"
proof (cases out rule: rev_cases)
  case Nil
  with assms show ?thesis by simp
next
  case (snoc xs q)
  with assms show ?thesis
    by (fastforce simp: last_end_def regions_sorted_def sorted_wrt_append)
qed

lemma canonical_to_last_end:
  "regions_sorted out \<Longrightarrow> regions_coalesced out \<Longrightarrow> canonical_to out (last_end out)"
  by (simp add: canonical_to_def regions_sorted_last_end)

lemma append_region_last_end: "append_region out r = Inr out' \<Longrightarrow> last_end out' = rg_end r"
  by (auto simp: append_region_def last_end_def split: if_splits)

lemma canonical_to_bounds: "canonical_to out c \<Longrightarrow> last_end out \<le> c"
  by (auto simp: canonical_to_def last_end_def)

lemma canonical_to_iff:
  "canonical_to out c \<longleftrightarrow> regions_sorted out \<and> regions_coalesced out \<and> last_end out \<le> c"
  using canonical_to_bounds canonical_to_last_end canonical_to_mono
  by (meson canonical_to_def)

lemma normalize_firmware_loop_Inr:
  assumes "normalize_firmware_loop out rest = Inr out'"
    and "canonical_to out (last_end out)" and "\<forall>r \<in> set rest. rg_start r < rg_end r"
  shows "canonical_to out' (last_end out') \<and> length out' \<le> length out + length rest \<and>
    (\<forall>k. kind_bytes out' k = kind_bytes out k \<union> kind_bytes rest k) \<and>
    sorted_wrt (\<lambda>a b. rg_end a \<le> rg_start b) rest \<and> (\<forall>r \<in> set rest. last_end out \<le> rg_start r)"
  using assms
proof (induction rest arbitrary: out)
  case Nil
  then show ?case by simp
next
  case (Cons r rest)
  from Cons.prems(1) obtain out1 where app: "append_region out r = Inr out1"
    and rec: "normalize_firmware_loop out1 rest = Inr out'" and le: "last_end out \<le> rg_start r"
    by (auto simp: result_simps last_end_def split: if_splits)
  have ne: "rg_start r < rg_end r" using Cons.prems(3) by simp
  note spec = append_region_spec [OF Cons.prems(2) le ne app]
  have "canonical_to out1 (last_end out1)"
    using spec(1) append_region_last_end [OF app] by simp
  from Cons.IH [OF rec this] Cons.prems(3)
  have IH: "canonical_to out' (last_end out')" "length out' \<le> length out1 + length rest"
    "\<And>k. kind_bytes out' k = kind_bytes out1 k \<union> kind_bytes rest k"
    "sorted_wrt (\<lambda>a b. rg_end a \<le> rg_start b) rest" "\<forall>q \<in> set rest. rg_end r \<le> rg_start q"
    using append_region_last_end [OF app] by auto
  have "\<forall>q \<in> set rest. last_end out \<le> rg_start q"
    using IH(5) le ne by fastforce
  with IH spec(2) le append_region_length [OF app] show ?case by auto
qed

lemma normalize_firmware_loop_total:
  assumes "length out + length rest \<le> MAX_NORMALIZED_REGIONS"
    and "sorted_wrt (\<lambda>a b. rg_end a \<le> rg_start b) rest" and "\<forall>r \<in> set rest. last_end out \<le> rg_start r"
  shows "\<exists>out'. normalize_firmware_loop out rest = Inr out'"
  using assms
proof (induction rest arbitrary: out)
  case Nil
  then show ?case by simp
next
  case (Cons r rest)
  from append_region_total [of out r] Cons.prems(1)
  obtain out1 where app: "append_region out r = Inr out1" by auto
  from Cons.IH [of out1] Cons.prems append_region_length [OF app] append_region_last_end [OF app]
  obtain out' where "normalize_firmware_loop out1 rest = Inr out'" by auto
  with app Cons.prems(3) show ?case by (auto simp: last_end_def)
qed

lemma normalize_firmware_loop_error:
  assumes "normalize_firmware_loop out rest = Inl e"
    and "length out + length rest \<le> MAX_NORMALIZED_REGIONS"
  shows "e = Map_FirmwareOverlap"
  using assms
proof (induction rest arbitrary: out)
  case Nil
  then show ?case by simp
next
  case (Cons r rest)
  from append_region_total [of out r] Cons.prems(2)
  obtain out1 where app: "append_region out r = Inr out1" by auto
  with Cons.IH [of out1] Cons.prems append_region_length [OF app] show ?case
    by (auto split: if_splits)
qed

text \<open>
  ``No byte is described twice'' does not depend on the order of the list, so it
  transfers between the firmware's order and the sorted order.
\<close>

definition no_byte_twice :: "memory_region list \<Rightarrow> bool" where
  "no_byte_twice regions = (\<forall>a. count_if (\<lambda>r. range_contains (mr_range r) a) regions \<le> 1)"

lemma no_byte_twice_sorted:
  assumes "sorted_wrt (\<lambda>a b. rg_end a \<le> rg_start b) rs"
  shows "no_byte_twice rs"
proof -
  have "count_if (\<lambda>r. range_contains (mr_range r) a) rs \<le> 1" for a
    using assms
  proof (induction rs)
    case Nil
    then show ?case by simp
  next
    case (Cons r rs)
    have "count_if (\<lambda>r. range_contains (mr_range r) a) rs = 0" if "range_contains (mr_range r) a"
    proof -
      have "\<not> range_contains (mr_range q) a" if "q \<in> set rs" for q
        using Cons.prems that \<open>range_contains (mr_range r) a\<close> by (fastforce simp: range_contains_def)
      then show ?thesis using count_if_pos_iff [of "\<lambda>r. range_contains (mr_range r) a" rs] by auto
    qed
    with Cons show ?case by auto
  qed
  then show ?thesis by (simp add: no_byte_twice_def)
qed

lemma sorted_no_byte_twice:
  assumes "sorted (map rg_start rs)" and "\<forall>r \<in> set rs. rg_start r < rg_end r" and "no_byte_twice rs"
  shows "sorted_wrt (\<lambda>a b. rg_end a \<le> rg_start b) rs"
  using assms
proof (induction rs)
  case Nil
  then show ?case by simp
next
  case (Cons r rs)
  have "rg_end r \<le> rg_start q" if q: "q \<in> set rs" for q
  proof (rule ccontr)
    assume "\<not> rg_end r \<le> rg_start q"
    with Cons.prems(1,2) q have "range_contains (mr_range r) (rg_start q)"
      "range_contains (mr_range q) (rg_start q)" by (auto simp: range_contains_def)
    with q have "0 < count_if (\<lambda>x. range_contains (mr_range x) (rg_start q)) rs"
      by (auto simp: count_if_pos_iff)
    moreover have "count_if (\<lambda>x. range_contains (mr_range x) (rg_start q)) (r # rs) \<le> 1"
      using Cons.prems(3) by (simp only: no_byte_twice_def)
    ultimately show False using \<open>range_contains (mr_range r) (rg_start q)\<close> by simp
  qed
  moreover have "no_byte_twice rs"
    using Cons.prems(3) unfolding no_byte_twice_def
    by (metis Suc_leD count_if_simps(2))
  ultimately show ?case using Cons by auto
qed

lemma kind_bytes_sort_key [simp]: "kind_bytes (sort_key f rs) k = kind_bytes rs k"
  by (simp add: kind_bytes_def)

lemma normalize_firmware_Inr:
  assumes "normalize_firmware regions = Inr out" and "\<forall>r \<in> set regions. rg_start r < rg_end r"
  shows "regions_sorted out" "regions_coalesced out" "length out \<le> length regions"
    "kind_bytes out k = kind_bytes regions k" "no_byte_twice regions"
proof -
  from normalize_firmware_loop_Inr [of "[]" "sort_key rg_start regions" out] assms
  have *: "canonical_to out (last_end out)" "length out \<le> length regions"
    "\<And>k. kind_bytes out k = kind_bytes regions k"
    "sorted_wrt (\<lambda>a b. rg_end a \<le> rg_start b) (sort_key rg_start regions)"
    by (auto simp: normalize_firmware_def)
  then show "regions_sorted out" "regions_coalesced out" "length out \<le> length regions"
    "kind_bytes out k = kind_bytes regions k" by (simp_all add: canonical_to_def)
  from no_byte_twice_sorted [OF *(4)] show "no_byte_twice regions"
    by (simp add: no_byte_twice_def)
qed

lemma normalize_firmware_total:
  assumes "length regions \<le> MAX_NORMALIZED_REGIONS" and "\<forall>r \<in> set regions. rg_start r < rg_end r"
    and "no_byte_twice regions"
  shows "\<exists>out. normalize_firmware regions = Inr out"
proof -
  have "no_byte_twice (sort_key rg_start regions)" using assms(3) by (simp add: no_byte_twice_def)
  with assms(2) have "sorted_wrt (\<lambda>a b. rg_end a \<le> rg_start b) (sort_key rg_start regions)"
    by (intro sorted_no_byte_twice) auto
  with normalize_firmware_loop_total [of "[]" "sort_key rg_start regions"] assms(1) show ?thesis
    by (simp add: normalize_firmware_def last_end_def)
qed

lemma normalize_firmware_error:
  "normalize_firmware regions = Inl e \<Longrightarrow> length regions \<le> MAX_NORMALIZED_REGIONS \<Longrightarrow>
   e = Map_FirmwareOverlap"
  using normalize_firmware_loop_error [of "[]" "sort_key rg_start regions" e]
  by (simp add: normalize_firmware_def)


section \<open>Reservation coverage and normalisation\<close>

definition all_bytes :: "memory_region list \<Rightarrow> nat set" where
  "all_bytes regions = (\<Union>r \<in> set regions. range_bytes (mr_range r))"

lemma all_bytes_simps [simp]:
  "all_bytes [] = {}"
  "all_bytes (r # rs) = range_bytes (mr_range r) \<union> all_bytes rs"
  by (simp_all add: all_bytes_def)

lemma all_bytes_iff: "a \<in> all_bytes rs \<longleftrightarrow> (\<exists>r \<in> set rs. range_contains (mr_range r) a)"
  by (simp add: all_bytes_def)

lemma all_bytes_kinds: "all_bytes rs = kind_bytes rs Usable \<union> kind_bytes rs Reserved"
  by (auto simp: all_bytes_def kind_bytes_def intro: region_kind.exhaust)

lemma range_is_covered_loop_iff:
  assumes "regions_sorted regions" and "cursor < pr_end rng"
  shows "range_is_covered_loop cursor rng regions \<longleftrightarrow> {cursor ..< pr_end rng} \<subseteq> all_bytes regions"
  using assms
proof (induction regions arbitrary: cursor)
  case Nil
  then show ?case by auto
next
  case (Cons r rs)
  have sorted: "regions_sorted rs" and after: "\<forall>q \<in> set rs. rg_end r \<le> rg_start q"
    using Cons.prems(1) by (auto simp: regions_sorted_def)
  consider (skip) "rg_end r \<le> cursor" | (gap) "cursor < rg_end r" "cursor < rg_start r"
    | (finish) "cursor < rg_end r" "rg_start r \<le> cursor" "pr_end rng \<le> rg_end r"
    | (more) "cursor < rg_end r" "rg_start r \<le> cursor" "rg_end r < pr_end rng"
    by linarith
  then show ?case
  proof cases
    case skip
    then have "{cursor ..< pr_end rng} \<inter> range_bytes (mr_range r) = {}"
      by (auto simp: range_bytes_def)
    with skip Cons.IH [OF sorted Cons.prems(2)] show ?thesis by (simp add: subset_Un_eq) blast
  next
    case gap
    then have "cursor \<notin> all_bytes (r # rs)"
      using after Cons.prems(1) unfolding all_bytes_iff
      by (auto simp: range_contains_def)
    with gap Cons.prems(2) show ?thesis by auto
  next
    case finish
    then show ?thesis by (auto simp: range_bytes_def min_def)
  next
    case more
    then have "range_is_covered_loop cursor rng (r # rs) = range_is_covered_loop (rg_end r) rng rs"
      by (simp add: min_def)
    also have "\<dots> \<longleftrightarrow> {rg_end r ..< pr_end rng} \<subseteq> all_bytes rs"
      using Cons.IH [OF sorted] more by simp
    also have "\<dots> \<longleftrightarrow> {cursor ..< pr_end rng} \<subseteq> all_bytes (r # rs)"
    proof -
      have "{cursor ..< pr_end rng} = {cursor ..< rg_end r} \<union> {rg_end r ..< pr_end rng}"
        using more by auto
      moreover have "{cursor ..< rg_end r} \<subseteq> range_bytes (mr_range r)"
        using more by (auto simp: range_bytes_def)
      moreover have "{rg_end r ..< pr_end rng} \<inter> range_bytes (mr_range r) = {}"
        by (auto simp: range_bytes_def)
      ultimately show ?thesis unfolding all_bytes_simps by blast
    qed
    finally show ?thesis .
  qed
qed

lemma range_is_covered_iff:
  "regions_sorted regions \<Longrightarrow> pr_start rng < pr_end rng \<Longrightarrow>
   range_is_covered rng regions \<longleftrightarrow> range_bytes rng \<subseteq> all_bytes regions"
  by (simp add: range_is_covered_def range_is_covered_loop_iff range_bytes_def)

lemma normalize_reservations_loop_spec:
  assumes "reservations_sorted out" and "sorted (map pr_start rest)"
    and "\<forall>r \<in> set rest. pr_start r < pr_end r"
    and "\<forall>p \<in> set out. \<forall>r \<in> set rest. pr_start p \<le> pr_start r"
  shows "reservations_sorted (normalize_reservations_loop out rest) \<and>
    ranges_bytes (normalize_reservations_loop out rest) = ranges_bytes out \<union> ranges_bytes rest \<and>
    length (normalize_reservations_loop out rest) \<le> length out + length rest"
  using assms
proof (induction rest arbitrary: out)
  case Nil
  then show ?case by simp
next
  case (Cons r rest)
  show ?case
  proof (cases "out \<noteq> [] \<and> pr_start r \<le> pr_end (last out)")
    case True
    then obtain xs p where out: "out = xs @ [p]" and le: "pr_start r \<le> pr_end p"
      by (metis append_butlast_last_id last_snoc)
    let ?out = "xs @ [p\<lparr>pr_end := max (pr_end p) (pr_end r)\<rparr>]"
    have "reservations_sorted ?out"
      using Cons.prems(1) by (auto simp: out reservations_sorted_def sorted_wrt_append)
    moreover have "\<forall>q \<in> set ?out. \<forall>t \<in> set rest. pr_start q \<le> pr_start t"
      using Cons.prems(4) by (auto simp: out)
    ultimately have "reservations_sorted (normalize_reservations_loop ?out rest) \<and>
      ranges_bytes (normalize_reservations_loop ?out rest) = ranges_bytes ?out \<union> ranges_bytes rest \<and>
      length (normalize_reservations_loop ?out rest) \<le> length ?out + length rest"
      using Cons.prems(2,3) by (intro Cons.IH) auto
    moreover have "ranges_bytes ?out = ranges_bytes out \<union> range_bytes r"
      using le Cons.prems(4) by (auto simp: out range_bytes_def)
    ultimately show ?thesis using True le by (auto simp: out)
  next
    case False
    have "\<forall>p \<in> set out. pr_end p < pr_start r"
    proof (cases out rule: rev_cases)
      case (snoc xs p)
      with False Cons.prems(1) show ?thesis
        by (auto simp: reservations_sorted_def sorted_wrt_append)
    qed simp
    then have "reservations_sorted (out @ [r])"
      using Cons.prems(1,3) by (auto simp: reservations_sorted_def sorted_wrt_append)
    then have "reservations_sorted (normalize_reservations_loop (out @ [r]) rest) \<and>
      ranges_bytes (normalize_reservations_loop (out @ [r]) rest) =
        ranges_bytes (out @ [r]) \<union> ranges_bytes rest \<and>
      length (normalize_reservations_loop (out @ [r]) rest) \<le> length (out @ [r]) + length rest"
      using Cons.prems by (intro Cons.IH) auto
    with False show ?thesis by auto
  qed
qed

lemma normalize_reservations_spec:
  assumes "\<forall>r \<in> set rs. pr_start r < pr_end r"
  shows "reservations_sorted (normalize_reservations rs)"
    and "ranges_bytes (normalize_reservations rs) = ranges_bytes rs"
    and "length (normalize_reservations rs) \<le> length rs"
proof -
  have "ranges_bytes (sort_key pr_start rs) = ranges_bytes rs"
    by (simp add: ranges_bytes_def)
  moreover have "reservations_sorted []" by (simp add: reservations_sorted_def)
  ultimately show "reservations_sorted (normalize_reservations rs)"
    "ranges_bytes (normalize_reservations rs) = ranges_bytes rs"
    "length (normalize_reservations rs) \<le> length rs"
    using normalize_reservations_loop_spec [of "[]" "sort_key pr_start rs"] assms
    by (simp_all add: normalize_reservations_def)
qed

end
