(* ===== verification/Memory_Map_Correct.thy ===== *)
theory Memory_Map_Correct
  imports Memory_Map
begin

text \<open>
  Correctness of the reservation overlay and of \<open>NormalizedMemoryMap::build\<close>
  (\<open>crates/runtime/troe-memory/src/map.rs\<close>).
\<close>

section \<open>Overlay\<close>

text \<open>
  What one stretch \<open>B\<close> of a region of kind \<open>K\<close> contributes to kind \<open>k\<close> under the
  reserved set \<open>R\<close>, and how many cuts the reservations make strictly inside it.
\<close>

definition overlay_set :: "region_kind \<Rightarrow> region_kind \<Rightarrow> nat set \<Rightarrow> nat set \<Rightarrow> nat set" where
  "overlay_set K k B R = (if k = Reserved then B \<inter> R else {}) \<union> (if k = K then B - R else {})"

definition cuts :: "nat \<Rightarrow> nat \<Rightarrow> physical_range list \<Rightarrow> nat" where
  "cuts c e rs = count_if (\<lambda>r. c < pr_start r \<and> pr_start r < e) rs +
                 count_if (\<lambda>r. c < pr_end r \<and> pr_end r < e) rs"

lemma overlay_set_cong: "B \<inter> R = B \<inter> S \<Longrightarrow> overlay_set K k B R = overlay_set K k B S"
proof -
  assume *: "B \<inter> R = B \<inter> S"
  then have "B - R = B - S" by blast
  with * show ?thesis by (simp add: overlay_set_def)
qed

lemma overlay_set_Un: "overlay_set K k (A \<union> B) R = overlay_set K k A R \<union> overlay_set K k B R"
  by (auto simp: overlay_set_def)

lemma cuts_Cons [simp]:
  "cuts c e (r # rs) = of_bool (c < pr_start r \<and> pr_start r < e) +
     of_bool (c < pr_end r \<and> pr_end r < e) + cuts c e rs"
  by (simp add: cuts_def)

lemma cuts_antimono: "c \<le> d \<Longrightarrow> cuts d e rs \<le> cuts c e rs"
  unfolding cuts_def by (intro add_mono count_if_mono) auto

lemma append_piece:
  assumes "canonical_to out s" and "s \<le> e" and "s < e \<Longrightarrow> length out < MAX_NORMALIZED_REGIONS"
  shows "\<exists>out'. (if s < e then append_region out (region_new \<lparr>pr_start = s, pr_end = e\<rparr> K) else Inr out) = Inr out' \<and>
    canonical_to out' e \<and> (\<forall>k. kind_bytes out' k = kind_bytes out k \<union> (if k = K then {s..<e} else {})) \<and>
    length out' \<le> length out + of_bool (s < e)"
proof (cases "s < e")
  case True
  with assms(3) append_region_total obtain out' where
    app: "append_region out (region_new \<lparr>pr_start = s, pr_end = e\<rparr> K) = Inr out'" by blast
  have "s \<le> rg_start (region_new \<lparr>pr_start = s, pr_end = e\<rparr> K)"
    "rg_start (region_new \<lparr>pr_start = s, pr_end = e\<rparr> K) < rg_end (region_new \<lparr>pr_start = s, pr_end = e\<rparr> K)"
    using True by simp_all
  note spec = append_region_spec [OF assms(1) this app]
  from spec(1) have "canonical_to out' e" by simp
  moreover have "kind_bytes out' k = kind_bytes out k \<union> (if k = K then {s..<e} else {})" for k
    using spec(2) [of k] by (auto simp: range_bytes_def)
  ultimately show ?thesis
    using app True append_region_length [OF app] by simp
next
  case False
  with assms(1,2) show ?thesis by simp
qed

lemma overlay_region_loop_spec:
  assumes "canonical_to out cursor" and "cursor < rg_end region" and "reservations_sorted rs"
    and "length out + 1 + cuts cursor (rg_end region) rs \<le> MAX_NORMALIZED_REGIONS"
  shows "\<exists>c' out'. overlay_region_loop region rs cursor out = Inr (c', out') \<and>
    cursor \<le> c' \<and> c' \<le> rg_end region \<and> canonical_to out' c' \<and>
    length out' + of_bool (c' < rg_end region) \<le> length out + 1 + cuts cursor (rg_end region) rs \<and>
    (\<forall>k. kind_bytes out' k =
       kind_bytes out k \<union> overlay_set (mr_kind region) k {cursor..<c'} (ranges_bytes rs)) \<and>
    {c' ..< rg_end region} \<inter> ranges_bytes rs = {}"
  using assms
proof (induction rs arbitrary: cursor out)
  case Nil
  then show ?case by (auto simp: overlay_set_def)
next
  case (Cons r rs)
  let ?E = "rg_end region" and ?K = "mr_kind region"
  have sorted: "reservations_sorted rs" and ne: "pr_start r < pr_end r"
    and after: "\<forall>q \<in> set rs. pr_end r < pr_start q"
    using Cons.prems(3) by (auto simp: reservations_sorted_def)
  have rest: "ranges_bytes rs \<subseteq> {Suc (pr_end r) ..}"
  proof
    fix x assume "x \<in> ranges_bytes rs"
    then obtain q where "q \<in> set rs" "pr_start q \<le> x" by (auto simp: ranges_bytes_def range_contains_def)
    with after have "pr_end r < x" by fastforce
    then show "x \<in> {Suc (pr_end r) ..}" by simp
  qed
  show ?case
  proof (cases "pr_end r \<le> cursor \<or> ?E \<le> pr_start r")
    case True
    then have disj: "{cursor ..< ?E} \<inter> range_bytes r = {}" by (auto simp: range_bytes_def)
    from Cons.IH [OF Cons.prems(1,2) sorted] Cons.prems(4) obtain c' out' where
      IH: "overlay_region_loop region rs cursor out = Inr (c', out')" "cursor \<le> c'" "c' \<le> ?E"
        "canonical_to out' c'" "length out' + of_bool (c' < ?E) \<le> length out + 1 + cuts cursor ?E rs"
        "\<forall>k. kind_bytes out' k = kind_bytes out k \<union> overlay_set ?K k {cursor..<c'} (ranges_bytes rs)"
        "{c' ..< ?E} \<inter> ranges_bytes rs = {}" by auto
    have sub: "{cursor..<c'} \<subseteq> {cursor..<?E}" "{c'..<?E} \<subseteq> {cursor..<?E}" using IH(2,3) by auto
    have "overlay_set ?K k {cursor..<c'} (range_bytes r \<union> ranges_bytes rs) =
          overlay_set ?K k {cursor..<c'} (ranges_bytes rs)" for k
      by (rule overlay_set_cong) (use disj sub(1) in blast)
    moreover have "{c' ..< ?E} \<inter> (range_bytes r \<union> ranges_bytes rs) = {}"
      using disj sub(2) IH(7) by blast
    ultimately show ?thesis using IH True by auto
  next
    case False
    then have cur: "cursor < pr_end r" and st: "pr_start r < ?E" by auto
    let ?s = "max cursor (pr_start r)" and ?e = "min ?E (pr_end r)"
    have se: "?s < ?e" using cur st ne Cons.prems(2) by auto
    have "cursor \<le> ?s" "length out < MAX_NORMALIZED_REGIONS" using Cons.prems(4) by simp_all
    from append_piece [OF Cons.prems(1) this, of ?K] obtain out1 where o1:
      "(if cursor < ?s then append_region out (region_new \<lparr>pr_start = cursor, pr_end = ?s\<rparr> ?K)
        else Inr out) = Inr out1" "canonical_to out1 ?s"
      "\<And>k. kind_bytes out1 k = kind_bytes out k \<union> (if k = ?K then {cursor..<?s} else {})"
      "length out1 \<le> length out + of_bool (cursor < ?s)" by blast
    have first: "(if cursor < pr_start r
         then append_region out (region_new
                \<lparr>pr_start = cursor, pr_end = min (pr_start r) ?E\<rparr> ?K)
         else Inr out) = Inr out1"
      using o1(1) st by (auto simp: max_def min_def split: if_splits)
    have "length out1 < MAX_NORMALIZED_REGIONS"
      using o1(4) Cons.prems(4) st by (auto simp: max_def split: if_splits)
    from append_piece [OF o1(2) less_imp_le [OF se] this, of Reserved] obtain out2 where o2:
      "(if ?s < ?e then append_region out1 (region_new \<lparr>pr_start = ?s, pr_end = ?e\<rparr> Reserved)
        else Inr out1) = Inr out2" "canonical_to out2 ?e"
      "\<And>k. kind_bytes out2 k = kind_bytes out1 k \<union> (if k = Reserved then {?s..<?e} else {})"
      "length out2 \<le> length out1 + of_bool (?s < ?e)" by blast
    have step: "overlay_region_loop region (r # rs) cursor out =
      (if ?e = ?E then Inr (?e, out2) else overlay_region_loop region rs ?e out2)"
      using False first o2(1) se by (auto simp: Let_def)
    have piece: "kind_bytes out2 k = kind_bytes out k \<union> overlay_set ?K k {cursor..<?e} (range_bytes r)" for k
    proof -
      have "{cursor..<?e} \<inter> range_bytes r = {?s..<?e}" "{cursor..<?e} - range_bytes r = {cursor..<?s}"
        using cur st ne Cons.prems(2) by (auto simp: range_contains_def)
      then show ?thesis using o1(3) o2(3) by (simp add: overlay_set_def Un_ac)
    qed
    have local: "{cursor..<?e} \<inter> ranges_bytes rs = {}" using rest by auto
    have len2: "length out2 \<le> length out + of_bool (cursor < pr_start r \<and> pr_start r < ?E) + 1"
      using o2(4) o1(4) st se by (auto simp: max_def split: if_splits)
    show ?thesis
    proof (cases "?e = ?E")
      case True
      have "overlay_set ?K k {cursor..<?e} (range_bytes r) =
            overlay_set ?K k {cursor..<?e} (range_bytes r \<union> ranges_bytes rs)" for k
        by (rule overlay_set_cong) (use local in blast)
      with True step o2(2) piece len2 Cons.prems(2) show ?thesis by auto
    next
      case e: False
      then have pe: "?e = pr_end r" "pr_end r < ?E" by auto
      have budget: "length out2 + 1 + cuts (pr_end r) ?E rs \<le> length out + 1 + cuts cursor ?E (r # rs)"
        using len2 pe cur cuts_antimono [of cursor "pr_end r" ?E rs] by auto
      from Cons.IH [of out2 "pr_end r"] o2(2) pe sorted budget Cons.prems(4) obtain c' out' where
        IH: "overlay_region_loop region rs (pr_end r) out2 = Inr (c', out')" "pr_end r \<le> c'" "c' \<le> ?E"
          "canonical_to out' c'"
          "length out' + of_bool (c' < ?E) \<le> length out2 + 1 + cuts (pr_end r) ?E rs"
          "\<forall>k. kind_bytes out' k =
             kind_bytes out2 k \<union> overlay_set ?K k {pr_end r..<c'} (ranges_bytes rs)"
          "{c' ..< ?E} \<inter> ranges_bytes rs = {}" by auto
      have split: "{cursor..<c'} = {cursor..<pr_end r} \<union> {pr_end r..<c'}" using cur IH(2) by auto
      have r: "range_bytes r \<inter> {pr_end r..<c'} = {}" "range_bytes r \<inter> {c' ..< ?E} = {}"
        using IH(2) by (auto simp: range_contains_def)
      have "kind_bytes out' k =
          kind_bytes out k \<union> overlay_set ?K k {cursor..<c'} (range_bytes r \<union> ranges_bytes rs)" for k
      proof -
        have "overlay_set ?K k {cursor..<pr_end r} (range_bytes r) =
              overlay_set ?K k {cursor..<pr_end r} (range_bytes r \<union> ranges_bytes rs)"
          by (rule overlay_set_cong) (use local pe(1) in auto)
        moreover have "overlay_set ?K k {pr_end r..<c'} (ranges_bytes rs) =
              overlay_set ?K k {pr_end r..<c'} (range_bytes r \<union> ranges_bytes rs)"
          by (rule overlay_set_cong) (use r(1) in blast)
        ultimately show ?thesis
          using IH(6) piece [of k] unfolding split overlay_set_Un pe(1) by (simp add: Un_assoc)
      qed
      moreover have "{c' ..< ?E} \<inter> (range_bytes r \<union> ranges_bytes rs) = {}" using IH(7) r by blast
      moreover have "length out' + of_bool (c' < ?E) \<le> length out + 1 + cuts cursor ?E (r # rs)"
        using IH(5) budget by linarith
      moreover have "cursor \<le> c'" using cur IH(2) by simp
      ultimately show ?thesis using IH(1,3,4) step e pe(1) by auto
    qed
  qed
qed


lemma overlay_region_spec:
  assumes "canonical_to out (rg_start region)" and "rg_start region < rg_end region"
    and "reservations_sorted rs"
    and "length out + 1 + cuts (rg_start region) (rg_end region) rs \<le> MAX_NORMALIZED_REGIONS"
  shows "\<exists>out'. overlay_region region rs out = Inr out' \<and> canonical_to out' (rg_end region) \<and>
    length out' \<le> length out + 1 + cuts (rg_start region) (rg_end region) rs \<and>
    (\<forall>k. kind_bytes out' k = kind_bytes out k \<union>
       overlay_set (mr_kind region) k (range_bytes (mr_range region)) (ranges_bytes rs))"
proof -
  let ?S = "rg_start region" and ?E = "rg_end region" and ?K = "mr_kind region" and ?R = "ranges_bytes rs"
  from overlay_region_loop_spec [OF assms] obtain c out1 where loop:
    "overlay_region_loop region rs ?S out = Inr (c, out1)" "?S \<le> c" "c \<le> ?E" "canonical_to out1 c"
    "length out1 + of_bool (c < ?E) \<le> length out + 1 + cuts ?S ?E rs"
    "\<forall>k. kind_bytes out1 k = kind_bytes out k \<union> overlay_set ?K k {?S..<c} ?R"
    "{c ..< ?E} \<inter> ?R = {}" by auto
  have "length out1 < MAX_NORMALIZED_REGIONS" if "c < ?E"
    using loop(5) assms(4) that by simp
  from append_piece [OF loop(4,3) this, of ?K] obtain out2 where tail:
    "(if c < ?E then append_region out1 (region_new \<lparr>pr_start = c, pr_end = ?E\<rparr> ?K)
      else Inr out1) = Inr out2" "canonical_to out2 ?E"
    "\<forall>k. kind_bytes out2 k = kind_bytes out1 k \<union> (if k = ?K then {c..<?E} else {})"
    "length out2 \<le> length out1 + of_bool (c < ?E)" by blast
  have split: "range_bytes (mr_range region) = {?S..<c} \<union> {c..<?E}"
    using loop(2,3) by (auto simp: range_bytes_def)
  have "overlay_set ?K k {c..<?E} ?R = (if k = ?K then {c..<?E} else {})" for k
    using loop(7) by (auto simp: overlay_set_def)
  then have "kind_bytes out2 k = kind_bytes out k \<union>
      overlay_set ?K k (range_bytes (mr_range region)) ?R" for k
    using loop(6) tail(3) unfolding split overlay_set_Un by (simp add: Un_assoc)
  moreover have "overlay_region region rs out = Inr out2"
    using loop(1) tail(1) by (simp add: overlay_region_def)
  ultimately show ?thesis using tail(2,4) loop(5) by auto
qed

text \<open>The overlay of a whole region list, on denotations.\<close>

definition overlay_kind :: "memory_region list \<Rightarrow> region_kind \<Rightarrow> nat set \<Rightarrow> nat set" where
  "overlay_kind regions k R =
     (if k = Reserved then all_bytes regions \<inter> R else {}) \<union> (kind_bytes regions k - R)"

lemma overlay_kind_Cons:
  "overlay_kind (r # rs) k R =
     overlay_set (mr_kind r) k (range_bytes (mr_range r)) R \<union> overlay_kind rs k R"
  unfolding overlay_kind_def overlay_set_def by (cases "k = Reserved"; cases "k = mr_kind r") auto

lemma overlay_all_spec:
  assumes "regions_sorted regions" and "canonical_to out c" and "\<forall>r \<in> set regions. c \<le> rg_start r"
    and "reservations_sorted rs"
    and "length out + (\<Sum>r\<leftarrow>regions. 1 + cuts (rg_start r) (rg_end r) rs) \<le> MAX_NORMALIZED_REGIONS"
  shows "\<exists>out'. overlay_all regions rs out = Inr out' \<and> regions_sorted out' \<and> regions_coalesced out' \<and>
    length out' \<le> length out + (\<Sum>r\<leftarrow>regions. 1 + cuts (rg_start r) (rg_end r) rs) \<and>
    (\<forall>k. kind_bytes out' k = kind_bytes out k \<union> overlay_kind regions k (ranges_bytes rs))"
  using assms
proof (induction regions arbitrary: out c)
  case Nil
  then show ?case by (auto simp: canonical_to_def overlay_kind_def)
next
  case (Cons r regions)
  have r: "rg_start r < rg_end r" "c \<le> rg_start r" and sorted: "regions_sorted regions"
    and after: "\<forall>q \<in> set regions. rg_end r \<le> rg_start q"
    using Cons.prems(1,3) by (auto simp: regions_sorted_def)
  have "canonical_to out (rg_start r)" using Cons.prems(2) r(2) by (rule canonical_to_mono)
  moreover have "length out + 1 + cuts (rg_start r) (rg_end r) rs \<le> MAX_NORMALIZED_REGIONS"
    using Cons.prems(5) by simp
  ultimately obtain out1 where o1: "overlay_region r rs out = Inr out1" "canonical_to out1 (rg_end r)"
    "length out1 \<le> length out + 1 + cuts (rg_start r) (rg_end r) rs"
    "\<forall>k. kind_bytes out1 k = kind_bytes out k \<union>
       overlay_set (mr_kind r) k (range_bytes (mr_range r)) (ranges_bytes rs)"
    using overlay_region_spec [of out r rs] r(1) Cons.prems(4) by blast
  from Cons.IH [OF sorted o1(2) after Cons.prems(4)] o1(3) Cons.prems(5)
  obtain out' where "overlay_all regions rs out1 = Inr out'" "regions_sorted out'"
    "regions_coalesced out'"
    "length out' \<le> length out1 + (\<Sum>r\<leftarrow>regions. 1 + cuts (rg_start r) (rg_end r) rs)"
    "\<forall>k. kind_bytes out' k = kind_bytes out1 k \<union> overlay_kind regions k (ranges_bytes rs)" by auto
  with o1 show ?case by (auto simp: overlay_kind_Cons)
qed

text \<open>
  Each reservation endpoint lies strictly inside at most one firmware region, so
  the overlay makes at most two cuts per reservation in total.
\<close>

lemma sum_count_if_swap:
  "(\<Sum>x\<leftarrow>xs. count_if (P x) ys) = (\<Sum>y\<leftarrow>ys. count_if (\<lambda>x. P x y) xs)"
proof (induction xs)
  case Nil
  then show ?case by (induction ys) auto
next
  case (Cons x xs)
  have "(\<Sum>y\<leftarrow>ys. count_if (\<lambda>x. P x y) (x # xs)) =
        count_if (P x) ys + (\<Sum>y\<leftarrow>ys. count_if (\<lambda>x. P x y) xs)"
    by (induction ys) auto
  with Cons show ?case by simp
qed

lemma sum_inside_le:
  assumes "regions_sorted regions"
  shows "(\<Sum>r\<leftarrow>regions. count_if (\<lambda>q. rg_start r < f q \<and> f q < rg_end r) rs) \<le> length rs"
proof -
  have once: "count_if (\<lambda>r. rg_start r < a \<and> a < rg_end r) regions \<le> 1" for a
  proof -
    have "no_byte_twice regions" using assms by (auto simp: regions_sorted_def intro: no_byte_twice_sorted)
    then have "count_if (\<lambda>r. range_contains (mr_range r) a) regions \<le> 1" by (simp add: no_byte_twice_def)
    moreover have "count_if (\<lambda>r. rg_start r < a \<and> a < rg_end r) regions \<le>
        count_if (\<lambda>r. range_contains (mr_range r) a) regions"
      by (intro count_if_mono) (auto simp: range_contains_def)
    ultimately show ?thesis by linarith
  qed
  have "(\<Sum>y\<leftarrow>rs. count_if (\<lambda>r. rg_start r < f y \<and> f y < rg_end r) regions) \<le> (\<Sum>y\<leftarrow>rs. 1)"
    by (intro sum_list_mono once)
  then show ?thesis unfolding sum_count_if_swap [of _ regions] by (simp add: sum_list_triv)
qed

lemma sum_cuts_le:
  assumes "regions_sorted regions"
  shows "(\<Sum>r\<leftarrow>regions. 1 + cuts (rg_start r) (rg_end r) rs) \<le> length regions + 2 * length rs"
proof -
  have "(\<Sum>r\<leftarrow>regions. 1 + cuts (rg_start r) (rg_end r) rs) = length regions +
      ((\<Sum>r\<leftarrow>regions. count_if (\<lambda>q. rg_start r < pr_start q \<and> pr_start q < rg_end r) rs) +
       (\<Sum>r\<leftarrow>regions. count_if (\<lambda>q. rg_start r < pr_end q \<and> pr_end q < rg_end r) rs))"
    unfolding cuts_def by (induction regions) auto
  with sum_inside_le [OF assms, of pr_start rs] sum_inside_le [OF assms, of pr_end rs]
  show ?thesis by linarith
qed


section \<open>Page alignment of the output\<close>

definition page_bounds :: "physical_range \<Rightarrow> bool" where
  "page_bounds r = (BASE_PAGE_SIZE dvd pr_start r \<and> BASE_PAGE_SIZE dvd pr_end r \<and> pr_end r < 2 ^ 64)"

abbreviation regions_page_bounds :: "memory_region list \<Rightarrow> bool" where
  "regions_page_bounds out \<equiv> \<forall>r \<in> set out. page_bounds (mr_range r)"

lemma range_ok_page_bounds: "range_ok r \<longleftrightarrow> page_bounds r \<and> pr_start r < pr_end r"
  by (auto simp: range_ok_def page_bounds_def)

lemma append_region_page_bounds:
  "append_region out r = Inr out' \<Longrightarrow> regions_page_bounds out \<Longrightarrow> page_bounds (mr_range r) \<Longrightarrow>
   regions_page_bounds out'"
  by (cases out rule: rev_cases) (auto simp: append_region_def page_bounds_def split: if_splits)

lemma normalize_firmware_loop_page_bounds:
  "normalize_firmware_loop out rest = Inr out' \<Longrightarrow> regions_page_bounds out \<Longrightarrow>
   regions_page_bounds rest \<Longrightarrow> regions_page_bounds out'"
  by (induction rest arbitrary: out)
     (auto simp: result_simps dest: append_region_page_bounds split: if_splits)

lemma normalize_reservations_loop_page_bounds:
  "\<forall>r \<in> set out. page_bounds r \<Longrightarrow> \<forall>r \<in> set rest. page_bounds r \<Longrightarrow>
   \<forall>r \<in> set (normalize_reservations_loop out rest). page_bounds r"
proof (induction rest arbitrary: out)
  case Nil
  then show ?case by simp
next
  case (Cons r rest)
  show ?case
  proof (cases "out \<noteq> [] \<and> pr_start r \<le> pr_end (last out)")
    case True
    then obtain xs p where out: "out = xs @ [p]" by (metis append_butlast_last_id)
    have "\<forall>q \<in> set (xs @ [p\<lparr>pr_end := max (pr_end p) (pr_end r)\<rparr>]). page_bounds q"
      using Cons.prems by (auto simp: out page_bounds_def max_def)
    with Cons.IH [OF this] Cons.prems True show ?thesis by (simp add: out)
  next
    case False
    with Cons.IH [of "out @ [r]"] Cons.prems show ?thesis by auto
  qed
qed

lemma append_piece_page_bounds:
  assumes "(if c then append_region out (region_new \<lparr>pr_start = s, pr_end = e\<rparr> k) else Inr out) = Inr out'"
    and "regions_page_bounds out" and "BASE_PAGE_SIZE dvd s" and "BASE_PAGE_SIZE dvd e" and "e < 2 ^ 64"
  shows "regions_page_bounds out'"
  using assms append_region_page_bounds [of out "region_new \<lparr>pr_start = s, pr_end = e\<rparr> k" out']
  by (auto simp: page_bounds_def split: if_splits)

lemma overlay_region_loop_page_bounds:
  assumes "overlay_region_loop region rs cursor out = Inr (c', out')"
    and "regions_page_bounds out" and "page_bounds (mr_range region)"
    and "\<forall>r \<in> set rs. page_bounds r" and "BASE_PAGE_SIZE dvd cursor"
  shows "regions_page_bounds out' \<and> BASE_PAGE_SIZE dvd c'"
  using assms
proof (induction rs arbitrary: cursor out)
  case Nil
  then show ?case by simp
next
  case (Cons r rs)
  let ?E = "rg_end region" and ?s = "max cursor (pr_start r)" and ?e = "min (rg_end region) (pr_end r)"
  have pb: "BASE_PAGE_SIZE dvd ?E" "?E < 2 ^ 64" "BASE_PAGE_SIZE dvd pr_start r"
    "BASE_PAGE_SIZE dvd pr_end r" using Cons.prems(3,4) by (auto simp: page_bounds_def)
  show ?case
  proof (cases "pr_end r \<le> cursor \<or> ?E \<le> pr_start r")
    case True
    with Cons show ?thesis by auto
  next
    case False
    with Cons.prems(1) obtain out1 cursor' out2 where
      o1: "(if cursor < pr_start r then append_region out (region_new
             \<lparr>pr_start = cursor, pr_end = min (pr_start r) ?E\<rparr> (mr_kind region)) else Inr out) = Inr out1"
      and o2: "(if ?s < ?e then rbind (append_region out1 (region_new
             \<lparr>pr_start = ?s, pr_end = ?e\<rparr> Reserved)) (\<lambda>o2. Inr (?e, o2)) else Inr (cursor, out1)) =
             Inr (cursor', out2)"
      and rec: "(if cursor' = ?E then Inr (cursor', out2)
             else overlay_region_loop region rs cursor' out2) = Inr (c', out')"
      by (auto simp: result_simps Let_def)
    have "BASE_PAGE_SIZE dvd min (pr_start r) ?E" "min (pr_start r) ?E < 2 ^ 64"
      using pb by (simp_all add: min_def)
    with append_piece_page_bounds [OF o1 Cons.prems(2,5)] have b1: "regions_page_bounds out1" by blast
    have e: "BASE_PAGE_SIZE dvd ?s" "BASE_PAGE_SIZE dvd ?e" "?e < 2 ^ 64"
      using pb Cons.prems(5) by (simp_all add: max_def min_def)
    have "(if ?s < ?e then append_region out1 (region_new \<lparr>pr_start = ?s, pr_end = ?e\<rparr> Reserved)
        else Inr out1) = Inr out2" and "BASE_PAGE_SIZE dvd cursor'"
      using o2 e(2) Cons.prems(5) by (auto simp: result_simps split: if_splits)
    from append_piece_page_bounds [OF this(1) b1 e] this(2)
    have b2: "regions_page_bounds out2" "BASE_PAGE_SIZE dvd cursor'" by blast+
    show ?thesis
    proof (cases "cursor' = ?E")
      case True
      with rec b2 show ?thesis by simp
    next
      case False
      with rec have "overlay_region_loop region rs cursor' out2 = Inr (c', out')" by simp
      moreover have "\<forall>r \<in> set rs. page_bounds r" using Cons.prems(4) by simp
      ultimately show ?thesis using Cons.IH b2 Cons.prems(3) by blast
    qed
  qed
qed

lemma overlay_region_page_bounds:
  assumes "overlay_region region rs out = Inr out'" and "regions_page_bounds out"
    and "page_bounds (mr_range region)" and "\<forall>r \<in> set rs. page_bounds r"
  shows "regions_page_bounds out'"
proof -
  let ?E = "rg_end region"
  from assms(1) obtain c out1 where loop: "overlay_region_loop region rs (rg_start region) out = Inr (c, out1)"
    and tail: "(if c < ?E then append_region out1 (region_new \<lparr>pr_start = c, pr_end = ?E\<rparr> (mr_kind region))
      else Inr out1) = Inr out'"
    by (auto simp: overlay_region_def result_simps)
  have rb: "BASE_PAGE_SIZE dvd rg_start region" "BASE_PAGE_SIZE dvd ?E" "?E < 2 ^ 64"
    using assms(3) by (simp_all add: page_bounds_def)
  from overlay_region_loop_page_bounds [OF loop assms(2-4) rb(1)]
  have "regions_page_bounds out1" "BASE_PAGE_SIZE dvd c" by blast+
  then show ?thesis using append_piece_page_bounds [OF tail] rb(2,3) by blast
qed

lemma overlay_all_page_bounds:
  "overlay_all regions rs out = Inr out' \<Longrightarrow> regions_page_bounds out \<Longrightarrow> regions_page_bounds regions \<Longrightarrow>
   \<forall>r \<in> set rs. page_bounds r \<Longrightarrow> regions_page_bounds out'"
  by (induction regions arbitrary: out) (auto simp: result_simps dest: overlay_region_page_bounds)

section \<open>Accounting\<close>

definition kind_sum :: "memory_region list \<Rightarrow> region_kind \<Rightarrow> nat" where
  "kind_sum regions k = (\<Sum>r\<leftarrow>filter (\<lambda>r. mr_kind r = k) regions. range_byte_count (mr_range r))"

lemma finite_kind_bytes [simp]: "finite (kind_bytes regions k)"
  by (simp add: kind_bytes_def)

lemma kind_sum_card:
  "regions_sorted regions \<Longrightarrow> kind_sum regions k = card (kind_bytes regions k)"
proof (induction regions)
  case Nil
  then show ?case by (simp add: kind_sum_def)
next
  case (Cons r rs)
  have "range_bytes (mr_range r) \<inter> kind_bytes rs k = {}"
  proof -
    have "rg_end r \<le> x" if "x \<in> kind_bytes rs k" for x
      using that Cons.prems by (fastforce simp: kind_bytes_def regions_sorted_def range_contains_def)
    then show ?thesis by (fastforce simp: range_contains_def)
  qed
  then have "card (range_bytes (mr_range r) \<union> kind_bytes rs k) =
      range_byte_count (mr_range r) + card (kind_bytes rs k)"
    by (simp add: card_Un_disjoint)
  moreover have "regions_sorted rs" using Cons.prems by (auto simp: regions_sorted_def)
  ultimately show ?case using Cons.IH by (auto simp: kind_sum_def)
qed

lemma calculate_stats_loop_eq:
  assumes "usable_bytes s + kind_sum regions Usable < 2 ^ 64"
    and "reserved_bytes s + kind_sum regions Reserved < 2 ^ 64"
  shows "calculate_stats_loop s regions =
    Inr \<lparr>usable_bytes = usable_bytes s + kind_sum regions Usable,
         reserved_bytes = reserved_bytes s + kind_sum regions Reserved\<rparr>"
  using assms
proof (induction regions arbitrary: s)
  case Nil
  then show ?case by (simp add: kind_sum_def)
next
  case (Cons r rs)
  show ?case
  proof (cases "mr_kind r")
    case Usable
    with Cons.IH [of "s\<lparr>usable_bytes := usable_bytes s + range_byte_count (mr_range r)\<rparr>"] Cons.prems
    show ?thesis by (simp add: kind_sum_def checked_add_def)
  next
    case Reserved
    with Cons.IH [of "s\<lparr>reserved_bytes := reserved_bytes s + range_byte_count (mr_range r)\<rparr>"] Cons.prems
    show ?thesis by (simp add: kind_sum_def checked_add_def)
  qed
qed

lemma kind_bytes_card_bound:
  assumes "regions_page_bounds regions"
  shows "card (kind_bytes regions k) < 2 ^ 64"
proof -
  have "kind_bytes regions k \<subseteq> {..< 2 ^ 64 - 1}"
    using assms by (fastforce simp: kind_bytes_def page_bounds_def range_contains_def)
  then have "card (kind_bytes regions k) \<le> 2 ^ 64 - 1"
    using card_mono [of "{..< 2 ^ 64 - 1 :: nat}"] by (metis card_lessThan finite_lessThan)
  then show ?thesis by simp
qed

lemma calculate_stats_exact:
  assumes "regions_sorted regions" and "regions_page_bounds regions"
  shows "calculate_stats regions = Inr \<lparr>usable_bytes = card (kind_bytes regions Usable),
    reserved_bytes = card (kind_bytes regions Reserved)\<rparr>"
  using calculate_stats_loop_eq [of "\<lparr>usable_bytes = 0, reserved_bytes = 0\<rparr>" regions]
    kind_bytes_card_bound [OF assms(2)] kind_sum_card [OF assms(1)]
  by (simp add: calculate_stats_def)


section \<open>The whole build\<close>

definition map_inputs_ok :: "memory_region list \<Rightarrow> physical_range list \<Rightarrow> bool" where
  "map_inputs_ok firmware reservations =
     ((\<forall>r \<in> set firmware. range_ok (mr_range r)) \<and> (\<forall>r \<in> set reservations. range_ok r))"

definition map_within_bounds :: "memory_region list \<Rightarrow> physical_range list \<Rightarrow> bool" where
  "map_within_bounds firmware reservations =
     (length firmware \<le> MAX_FIRMWARE_REGIONS \<and> length reservations \<le> MAX_RESERVATIONS)"

lemma all_bytes_normalize_firmware:
  "normalize_firmware fw = Inr out \<Longrightarrow> \<forall>r \<in> set fw. rg_start r < rg_end r \<Longrightarrow> all_bytes out = all_bytes fw"
  using normalize_firmware_Inr(4) [of fw out] by (simp add: all_bytes_kinds)

lemma reservations_covered_iff:
  assumes "normalize_firmware fw = Inr out" and "\<forall>r \<in> set fw. rg_start r < rg_end r"
    and "\<forall>r \<in> set res. pr_start r < pr_end r"
  shows "(\<exists>r \<in> set (normalize_reservations res). \<not> range_is_covered r out) \<longleftrightarrow>
    \<not> ranges_bytes res \<subseteq> all_bytes fw"
proof -
  have "\<forall>r \<in> set (normalize_reservations res). pr_start r < pr_end r"
    using normalize_reservations_spec(1) [OF assms(3)] by (simp add: reservations_sorted_def)
  then have "(\<exists>r \<in> set (normalize_reservations res). \<not> range_is_covered r out) \<longleftrightarrow>
      \<not> ranges_bytes (normalize_reservations res) \<subseteq> all_bytes fw"
    using range_is_covered_iff [OF normalize_firmware_Inr(1) [OF assms(1,2)]]
    by (auto simp: all_bytes_normalize_firmware [OF assms(1,2)] ranges_bytes_def)
  then show ?thesis using normalize_reservations_spec(2) [OF assms(3)] by simp
qed

lemma overlay_kind_normalize_firmware:
  "normalize_firmware fw = Inr out \<Longrightarrow> \<forall>r \<in> set fw. rg_start r < rg_end r \<Longrightarrow>
   overlay_kind out k R = overlay_kind fw k R"
  by (simp add: overlay_kind_def all_bytes_normalize_firmware normalize_firmware_Inr(4))

lemma overlay_kind_covered:
  "R \<subseteq> all_bytes fw \<Longrightarrow> overlay_kind fw Usable R = kind_bytes fw Usable - R"
  "R \<subseteq> all_bytes fw \<Longrightarrow> overlay_kind fw Reserved R = kind_bytes fw Reserved \<union> R"
  by (auto simp: overlay_kind_def)

text \<open>
  After successful firmware normalisation of bounded inputs with every
  reservation covered, the overlay and the accounting cannot fail: 256 firmware
  regions and 64 reservations make at most 384 output regions, below the 512 limit.
\<close>

lemma memory_map_build_after_checks:
  assumes inputs: "map_inputs_ok fw res" and bounds: "map_within_bounds fw res"
    and nf: "normalize_firmware fw = Inr out" and cov: "ranges_bytes res \<subseteq> all_bytes fw"
  shows "\<exists>regions. memory_map_build fw res =
      Inr \<lparr>nm_regions = regions, nm_stats = \<lparr>usable_bytes = card (kind_bytes regions Usable),
        reserved_bytes = card (kind_bytes regions Reserved)\<rparr>\<rparr> \<and>
    regions_sorted regions \<and> regions_coalesced regions \<and> regions_page_bounds regions \<and>
    length regions \<le> length fw + 2 * length res \<and>
    (\<forall>k. kind_bytes regions k = overlay_kind fw k (ranges_bytes res))"
proof -
  have ne: "\<forall>r \<in> set fw. rg_start r < rg_end r" "\<forall>r \<in> set res. pr_start r < pr_end r"
    and pb: "regions_page_bounds (sort_key rg_start fw)" "\<forall>r \<in> set (sort_key pr_start res). page_bounds r"
    using inputs by (auto simp: map_inputs_ok_def range_ok_page_bounds)
  note nfw = normalize_firmware_Inr [OF nf ne(1)] and nres = normalize_reservations_spec [OF ne(2)]
  let ?rs = "normalize_reservations res"
  let ?cost = "\<Sum>r\<leftarrow>out. 1 + cuts (rg_start r) (rg_end r) ?rs"
  have cost: "?cost \<le> length fw + 2 * length res"
    using sum_cuts_le [OF nfw(1), of ?rs] nfw(3) nres(3) by linarith
  have budget: "length ([] :: memory_region list) + ?cost \<le> MAX_NORMALIZED_REGIONS"
    using cost bounds by (simp add: map_within_bounds_def MAX_FIRMWARE_REGIONS_def
        MAX_RESERVATIONS_def MAX_NORMALIZED_REGIONS_def)
  from overlay_all_spec [OF nfw(1) canonical_to_Nil [of 0] _ nres(1) budget] obtain regions where
    ov: "overlay_all out ?rs [] = Inr regions" "regions_sorted regions" "regions_coalesced regions"
      "length regions \<le> ?cost" "\<forall>k. kind_bytes regions k = overlay_kind out k (ranges_bytes ?rs)"
    by auto
  have pbo: "regions_page_bounds out"
    using normalize_firmware_loop_page_bounds [of "[]"] nf pb(1) by (simp add: normalize_firmware_def)
  have pbr: "\<forall>r \<in> set ?rs. page_bounds r"
    using normalize_reservations_loop_page_bounds [of "[]", OF _ pb(2)] by (simp add: normalize_reservations_def)
  have rp: "regions_page_bounds regions"
    by (rule overlay_all_page_bounds [OF ov(1) _ pbo pbr]) simp
  have "memory_map_build fw res = Inr \<lparr>nm_regions = regions, nm_stats =
      \<lparr>usable_bytes = card (kind_bytes regions Usable), reserved_bytes = card (kind_bytes regions Reserved)\<rparr>\<rparr>"
    using bounds nf ov(1) cov calculate_stats_exact [OF ov(2) rp] reservations_covered_iff [OF nf ne]
    by (simp add: memory_map_build_def map_within_bounds_def not_less [symmetric] Let_def)
  with ov rp cost show ?thesis
    by (auto simp: overlay_kind_normalize_firmware [OF nf ne(1)] nres(2))
qed

lemma no_byte_twice_kinds:
  assumes "no_byte_twice fw"
  shows "kind_bytes fw Usable \<inter> kind_bytes fw Reserved = {}"
proof -
  have "False" if r: "r \<in> set fw" "mr_kind r = Usable" "range_contains (mr_range r) a"
    and q: "q \<in> set fw" "mr_kind q = Reserved" "range_contains (mr_range q) a" for r q a
  proof -
    let ?P = "\<lambda>r. range_contains (mr_range r) a"
    have "0 < count_if (\<lambda>r. ?P r \<and> mr_kind r = Usable) fw" "0 < count_if (\<lambda>r. ?P r \<and> mr_kind r = Reserved) fw"
      using r q by (auto simp: count_if_pos_iff)
    moreover have "count_if (\<lambda>r. ?P r \<and> mr_kind r = Usable) fw +
        count_if (\<lambda>r. ?P r \<and> mr_kind r = Reserved) fw \<le> count_if ?P fw"
      by (induction fw) auto
    moreover have "count_if ?P fw \<le> 1" using assms by (simp add: no_byte_twice_def)
    ultimately show False by linarith
  qed
  then show ?thesis by (auto simp: kind_bytes_def)
qed

lemma memory_map_build_failures:
  assumes "map_inputs_ok fw res"
  shows "\<not> map_within_bounds fw res \<Longrightarrow> memory_map_build fw res = Inl Map_TooManyRegions"
    and "map_within_bounds fw res \<Longrightarrow> \<not> no_byte_twice fw \<Longrightarrow>
      memory_map_build fw res = Inl Map_FirmwareOverlap"
    and "map_within_bounds fw res \<Longrightarrow> no_byte_twice fw \<Longrightarrow> \<not> ranges_bytes res \<subseteq> all_bytes fw \<Longrightarrow>
      memory_map_build fw res = Inl Map_ReservationUnmapped"
proof -
  have ne: "\<forall>r \<in> set fw. rg_start r < rg_end r" "\<forall>r \<in> set res. pr_start r < pr_end r"
    using assms by (auto simp: map_inputs_ok_def range_ok_def)
  have len: "length fw \<le> MAX_NORMALIZED_REGIONS" if "map_within_bounds fw res"
    using that by (simp add: map_within_bounds_def MAX_FIRMWARE_REGIONS_def MAX_NORMALIZED_REGIONS_def)
  show "memory_map_build fw res = Inl Map_TooManyRegions" if "\<not> map_within_bounds fw res"
    using that by (auto simp: memory_map_build_def map_within_bounds_def not_le)
  show "memory_map_build fw res = Inl Map_FirmwareOverlap"
    if b: "map_within_bounds fw res" and "\<not> no_byte_twice fw"
  proof (cases "normalize_firmware fw")
    case (Inl e)
    with normalize_firmware_error [OF Inl len [OF b]] b show ?thesis
      by (auto simp: memory_map_build_def map_within_bounds_def not_le)
  next
    case (Inr out)
    with normalize_firmware_Inr(5) [OF Inr ne(1)] \<open>\<not> no_byte_twice fw\<close> show ?thesis by simp
  qed
  show "memory_map_build fw res = Inl Map_ReservationUnmapped"
    if b: "map_within_bounds fw res" and "no_byte_twice fw" and u: "\<not> ranges_bytes res \<subseteq> all_bytes fw"
  proof -
    obtain out where nf: "normalize_firmware fw = Inr out"
      using normalize_firmware_total [OF len [OF b] ne(1) \<open>no_byte_twice fw\<close>] by blast
    with reservations_covered_iff [OF nf ne] u b show ?thesis
      by (auto simp: memory_map_build_def map_within_bounds_def not_le Let_def)
  qed
qed

lemma memory_map_build_Inr:
  assumes inputs: "map_inputs_ok fw res" and ok: "memory_map_build fw res = Inr m"
  shows "map_within_bounds fw res \<and> no_byte_twice fw \<and> ranges_bytes res \<subseteq> all_bytes fw"
    and "regions_sorted (nm_regions m)" and "regions_coalesced (nm_regions m)"
    and "\<forall>r \<in> set (nm_regions m). range_ok (mr_range r)"
    and "length (nm_regions m) \<le> length fw + 2 * length res"
    and "kind_bytes (nm_regions m) k = overlay_kind fw k (ranges_bytes res)"
    and "usable_bytes (nm_stats m) = card (kind_bytes (nm_regions m) Usable)"
    and "reserved_bytes (nm_stats m) = card (kind_bytes (nm_regions m) Reserved)"
proof -
  show checks: "map_within_bounds fw res \<and> no_byte_twice fw \<and> ranges_bytes res \<subseteq> all_bytes fw"
    using memory_map_build_failures [OF inputs] ok by (metis sum.distinct(2))
  have ne: "\<forall>r \<in> set fw. rg_start r < rg_end r"
    using inputs by (auto simp: map_inputs_ok_def range_ok_def)
  obtain out where nf: "normalize_firmware fw = Inr out"
    using ok by (auto simp: memory_map_build_def result_simps split: if_splits)
  from memory_map_build_after_checks [OF inputs _ nf] checks ok
  have m: "regions_sorted (nm_regions m)" "regions_coalesced (nm_regions m)"
    "regions_page_bounds (nm_regions m)" "length (nm_regions m) \<le> length fw + 2 * length res"
    "\<forall>k. kind_bytes (nm_regions m) k = overlay_kind fw k (ranges_bytes res)"
    "nm_stats m = \<lparr>usable_bytes = card (kind_bytes (nm_regions m) Usable),
       reserved_bytes = card (kind_bytes (nm_regions m) Reserved)\<rparr>"
    by auto
  then show "regions_sorted (nm_regions m)" "regions_coalesced (nm_regions m)"
    "length (nm_regions m) \<le> length fw + 2 * length res"
    "kind_bytes (nm_regions m) k = overlay_kind fw k (ranges_bytes res)"
    "usable_bytes (nm_stats m) = card (kind_bytes (nm_regions m) Usable)"
    "reserved_bytes (nm_stats m) = card (kind_bytes (nm_regions m) Reserved)" by simp_all
  show "\<forall>r \<in> set (nm_regions m). range_ok (mr_range r)"
    using m(1,3) by (auto simp: regions_sorted_def range_ok_page_bounds)
qed


section \<open>Properties of the normalised map\<close>

definition sample_firmware :: "memory_region list" where
  "sample_firmware =
     [\<lparr>mr_range = \<lparr>pr_start = 16384, pr_end = 20480\<rparr>, mr_kind = Reserved\<rparr>,
      \<lparr>mr_range = \<lparr>pr_start = 0, pr_end = 16384\<rparr>, mr_kind = Usable\<rparr>]"

definition sample_reservations :: "physical_range list" where
  "sample_reservations = [\<lparr>pr_start = 4096, pr_end = 8192\<rparr>, \<lparr>pr_start = 8192, pr_end = 12288\<rparr>]"

definition sample_map :: normalized_memory_map where
  "sample_map =
     \<lparr>nm_regions =
        [\<lparr>mr_range = \<lparr>pr_start = 0, pr_end = 4096\<rparr>, mr_kind = Usable\<rparr>,
         \<lparr>mr_range = \<lparr>pr_start = 4096, pr_end = 12288\<rparr>, mr_kind = Reserved\<rparr>,
         \<lparr>mr_range = \<lparr>pr_start = 12288, pr_end = 16384\<rparr>, mr_kind = Usable\<rparr>,
         \<lparr>mr_range = \<lparr>pr_start = 16384, pr_end = 20480\<rparr>, mr_kind = Reserved\<rparr>],
      nm_stats = \<lparr>usable_bytes = 8192, reserved_bytes = 12288\<rparr>\<rparr>"

lemma sample_inputs_ok: "map_inputs_ok sample_firmware sample_reservations"
  by (simp add: map_inputs_ok_def sample_firmware_def sample_reservations_def range_ok_def
      BASE_PAGE_SIZE_def)

lemma sample_build: "memory_map_build sample_firmware sample_reservations = Inr sample_map"
  by (simp add: sample_map_def sample_firmware_def sample_reservations_def memory_map_build_def
      MAX_FIRMWARE_REGIONS_def MAX_RESERVATIONS_def normalize_firmware_def append_region_def
      MAX_NORMALIZED_REGIONS_def normalize_reservations_def range_is_covered_def Let_def
      overlay_region_def calculate_stats_def checked_add_def range_byte_count_def region_new_def)

text \<open>
  C2. The normalised map is exactly the reservation overlay of the firmware map:
  a byte is usable in the result iff firmware calls it usable and no reservation
  covers it, and reserved iff firmware calls it reserved or a reservation covers it.
\<close>

theorem memory_map_build_overlay:
  assumes "map_inputs_ok firmware reservations"
    and "memory_map_build firmware reservations = Inr m"
  shows "kind_bytes (nm_regions m) Usable = kind_bytes firmware Usable - ranges_bytes reservations \<and>
    kind_bytes (nm_regions m) Reserved = kind_bytes firmware Reserved \<union> ranges_bytes reservations"
  using memory_map_build_Inr(1,6) [OF assms] overlay_kind_covered by simp

theorem memory_map_build_overlay_witness:
  "kind_bytes (nm_regions sample_map) Usable =
     kind_bytes sample_firmware Usable - ranges_bytes sample_reservations"
  by (rule memory_map_build_overlay [OF sample_inputs_ok sample_build, THEN conjunct1])

text \<open>
  The result is in canonical form (sorted, pairwise disjoint, non-empty,
  page-aligned, neighbours of one kind coalesced), has at most 384 regions, and
  its accounting is exact: the recorded byte totals are the cardinalities of the
  usable and of the reserved address set.
\<close>

lemma memory_map_build_canonical:
  assumes "map_inputs_ok firmware reservations"
    and "memory_map_build firmware reservations = Inr m"
  shows "regions_sorted (nm_regions m) \<and> regions_coalesced (nm_regions m) \<and>
    (\<forall>r \<in> set (nm_regions m). range_ok (mr_range r)) \<and> length (nm_regions m) \<le> 384 \<and>
    usable_bytes (nm_stats m) = card (kind_bytes (nm_regions m) Usable) \<and>
    reserved_bytes (nm_stats m) = card (kind_bytes (nm_regions m) Reserved) \<and>
    total_bytes (nm_stats m) = card (all_bytes firmware)"
proof -
  note m = memory_map_build_Inr [OF assms]
  have "kind_bytes (nm_regions m) Usable \<inter> kind_bytes (nm_regions m) Reserved = {}"
    using no_byte_twice_kinds [of firmware] m(1) m(6) by (auto simp: overlay_kind_covered)
  then have "total_bytes (nm_stats m) = card (all_bytes (nm_regions m))"
    by (simp add: total_bytes_def m(7,8) all_bytes_kinds card_Un_disjoint)
  also have "all_bytes (nm_regions m) = all_bytes firmware"
    using m(1,6) by (auto simp: all_bytes_kinds overlay_kind_covered)
  finally show ?thesis
    using m by (auto simp: map_within_bounds_def MAX_FIRMWARE_REGIONS_def MAX_RESERVATIONS_def)
qed

text \<open>
  C25. The outcome of the build is determined exactly. It fails with
  \<open>TooManyRegions\<close> only when an input list exceeds its own bound, with
  \<open>FirmwareOverlap\<close> only when some byte is described twice, and with
  \<open>ReservationUnmapped\<close> only when a reserved byte is absent from the firmware
  map; in every other case it succeeds.
\<close>

theorem memory_map_build_outcome:
  assumes "map_inputs_ok firmware reservations"
  shows "(case memory_map_build firmware reservations of
     Inl e \<Rightarrow> e =
       (if \<not> map_within_bounds firmware reservations then Map_TooManyRegions
        else if \<not> no_byte_twice firmware then Map_FirmwareOverlap
        else Map_ReservationUnmapped) \<and>
       \<not> (map_within_bounds firmware reservations \<and> no_byte_twice firmware \<and>
          ranges_bytes reservations \<subseteq> all_bytes firmware)
   | Inr m \<Rightarrow> map_within_bounds firmware reservations \<and> no_byte_twice firmware \<and>
       ranges_bytes reservations \<subseteq> all_bytes firmware)"
proof (cases "memory_map_build firmware reservations")
  case (Inr m)
  with memory_map_build_Inr(1) [OF assms Inr] show ?thesis by simp
next
  case (Inl e)
  have "\<exists>m. memory_map_build firmware reservations = Inr m"
    if b: "map_within_bounds firmware reservations" and "no_byte_twice firmware"
      and cov: "ranges_bytes reservations \<subseteq> all_bytes firmware"
  proof -
    have "length firmware \<le> MAX_NORMALIZED_REGIONS" "\<forall>r \<in> set firmware. rg_start r < rg_end r"
      using b assms by (auto simp: map_within_bounds_def MAX_FIRMWARE_REGIONS_def
          MAX_NORMALIZED_REGIONS_def map_inputs_ok_def range_ok_def)
    from normalize_firmware_total [OF this \<open>no_byte_twice firmware\<close>] obtain out where
      "normalize_firmware firmware = Inr out" by blast
    from memory_map_build_after_checks [OF assms b this cov] show ?thesis by blast
  qed
  with Inl memory_map_build_failures [OF assms] show ?thesis by (auto split: if_splits)
qed

theorem memory_map_build_outcome_witness:
  "ranges_bytes sample_reservations \<subseteq> all_bytes sample_firmware"
  using memory_map_build_outcome [OF sample_inputs_ok] sample_build by simp

end
