(* ===== verification/Boot_Allocator.thy ===== *)
theory Boot_Allocator
  imports Physical_Range
begin

text \<open>
  The monotonic byte allocator over the reserved boot arena:
  \<open>crates/runtime/troe-memory/src/boot.rs\<close>. The alignment mask works on 64-bit
  words as in the code; the lemmas show that it rounds up.
\<close>

datatype boot_error = Boot_Empty | Boot_InvalidAlignment | Boot_Overflow | Boot_Exhausted | Boot_Sealed

record boot_allocation =
  ba_start :: nat
  ba_byte_count :: nat

definition boot_allocation_end :: "boot_allocation \<Rightarrow> nat" where
  "boot_allocation_end b = ba_start b + ba_byte_count b"

record boot_allocator =
  bo_arena :: physical_range
  bo_cursor :: nat
  bo_allocated_bytes :: nat
  bo_sealed :: bool

definition boot_new :: "physical_range \<Rightarrow> boot_allocator" where
  "boot_new arena = \<lparr>bo_arena = arena, bo_cursor = pr_start arena, bo_allocated_bytes = 0, bo_sealed = False\<rparr>"

definition boot_align :: "nat \<Rightarrow> nat \<Rightarrow> nat" where
  "boot_align address msk = unat ((of_nat address :: 64 word) AND NOT (of_nat msk))"

definition boot_allocate ::
    "boot_allocator \<Rightarrow> nat \<Rightarrow> nat \<Rightarrow> (boot_error, boot_allocation \<times> boot_allocator) result" where
  "boot_allocate bo byte_count alignment =
     (if bo_sealed bo then Inl Boot_Sealed
      else if byte_count = 0 then Inl Boot_Empty
      else if \<not> is_power_of_two alignment then Inl Boot_InvalidAlignment
      else
       let alignment_mask = alignment - 1
       in rbind (ok_or Boot_Overflow (checked_add 64 (bo_cursor bo) alignment_mask)) (\<lambda>bumped.
          let start = boot_align bumped alignment_mask
          in rbind (ok_or Boot_Overflow (checked_add 64 start byte_count)) (\<lambda>end.
             if pr_end (bo_arena bo) < end then Inl Boot_Exhausted
             else rbind (ok_or Boot_Overflow (checked_add 64 (bo_allocated_bytes bo) byte_count)) (\<lambda>allocated_bytes.
               Inr (\<lparr>ba_start = start, ba_byte_count = byte_count\<rparr>,
                    bo\<lparr>bo_cursor := end, bo_allocated_bytes := allocated_bytes\<rparr>)))))"

definition boot_seal :: "boot_allocator \<Rightarrow> boot_allocator" where
  "boot_seal bo = bo\<lparr>bo_sealed := True\<rparr>"

definition boot_consumed_bytes :: "boot_allocator \<Rightarrow> nat" where
  "boot_consumed_bytes bo = bo_cursor bo - pr_start (bo_arena bo)"

definition boot_remaining_bytes :: "boot_allocator \<Rightarrow> nat" where
  "boot_remaining_bytes bo = pr_end (bo_arena bo) - bo_cursor bo"

section \<open>Alignment\<close>

text \<open>The least multiple of \<open>al\<close> at or above \<open>a\<close>.\<close>

definition align_up :: "nat \<Rightarrow> nat \<Rightarrow> nat" where
  "align_up a al = (a + (al - 1)) div al * al"

lemma align_up_props:
  assumes "0 < al"
  shows "al dvd align_up a al" and "a \<le> align_up a al" and "align_up a al < a + al"
proof -
  show "al dvd align_up a al" by (simp add: align_up_def)
  have "align_up a al = a + (al - 1) - (a + (al - 1)) mod al"
    by (simp add: align_up_def minus_mod_eq_div_mult)
  moreover have "(a + (al - 1)) mod al \<le> al - 1" using assms by (simp add: Suc_leI flip: less_Suc_eq_le)
  ultimately show "a \<le> align_up a al" "align_up a al < a + al" using assms by linarith+
qed

lemma align_up_least: "0 < al \<Longrightarrow> al dvd b \<Longrightarrow> a \<le> b \<Longrightarrow> align_up a al \<le> b"
proof -
  assume al: "0 < al" and "al dvd b" and ab: "a \<le> b"
  then obtain q where q: "b = q * al" by (auto simp: dvd_def mult.commute)
  have "a + (al - 1) < (q + 1) * al" using ab al unfolding q by (simp add: add_mult_distrib)
  then have "(a + (al - 1)) div al < q + 1" by (simp add: less_mult_imp_div_less)
  then have "(a + (al - 1)) div al * al \<le> q * al" by (intro mult_le_mono1) simp
  then show ?thesis by (simp add: align_up_def q)
qed

lemma boot_align_eq:
  assumes "k < 64" and "a < 2 ^ 64"
  shows "boot_align a (2 ^ k - 1) = a div 2 ^ k * 2 ^ k"
proof -
  have "of_nat (2 ^ k - 1) = (mask k :: 64 word)" by (simp add: mask_eq_exp_minus_1 of_nat_diff)
  moreover have "(of_nat a :: 64 word) AND NOT (mask k) = push_bit k (drop_bit k (of_nat a))"
    by (rule bit_word_eqI) (auto simp: bit_simps)
  moreover have "a div 2 ^ k * 2 ^ k < 2 ^ 64" using assms(2) by (rule le_less_trans [OF div_times_less_eq_dividend])
  moreover have "unat (of_nat a :: 64 word) = a" using assms(2) by (simp add: unat_of_nat)
  moreover from calculation(3,4)
  have "unat (push_bit k (drop_bit k (of_nat a :: 64 word))) = a div 2 ^ k * 2 ^ k"
    unfolding unsigned_push_bit_eq unsigned_drop_bit_eq
    using assms(2) by (simp add: push_bit_eq_mult drop_bit_eq_div take_bit_eq_mod)
  ultimately show ?thesis unfolding boot_align_def by argo
qed

section \<open>Allocation\<close>

definition boot_ok :: "boot_allocator \<Rightarrow> bool" where
  "boot_ok bo = (range_ok (bo_arena bo) \<and> pr_start (bo_arena bo) \<le> bo_cursor bo \<and>
     bo_cursor bo \<le> pr_end (bo_arena bo) \<and> bo_allocated_bytes bo \<le> boot_consumed_bytes bo)"

lemma boot_new_ok: "range_ok arena \<Longrightarrow> boot_ok (boot_new arena)"
  by (simp add: boot_ok_def boot_new_def boot_consumed_bytes_def range_ok_def)

lemma boot_allocate_eq:
  assumes ok: "boot_ok bo" and live: "\<not> bo_sealed bo" and n: "0 < n" and al: "is_power_of_two al"
  shows "boot_allocate bo n al =
    (if 2 ^ 64 \<le> bo_cursor bo + (al - 1) \<or> 2 ^ 64 \<le> align_up (bo_cursor bo) al + n then Inl Boot_Overflow
     else if pr_end (bo_arena bo) < align_up (bo_cursor bo) al + n then Inl Boot_Exhausted
     else Inr (\<lparr>ba_start = align_up (bo_cursor bo) al, ba_byte_count = n\<rparr>,
       bo\<lparr>bo_cursor := align_up (bo_cursor bo) al + n, bo_allocated_bytes := bo_allocated_bytes bo + n\<rparr>))"
proof (cases "bo_cursor bo + (al - 1) < 2 ^ 64")
  case True
  obtain k where k: "k < 64" "al = 2 ^ k" using al by (auto simp: is_power_of_two_iff)
  have start: "boot_align (bo_cursor bo + (al - 1)) (al - 1) = align_up (bo_cursor bo) al"
    using boot_align_eq [OF k(1) True] by (simp add: align_up_def k(2))
  have "bo_cursor bo \<le> align_up (bo_cursor bo) al" using align_up_props(2) k by simp
  then have "bo_allocated_bytes bo + n < 2 ^ 64" if "align_up (bo_cursor bo) al + n < 2 ^ 64"
    using ok that unfolding boot_ok_def boot_consumed_bytes_def by linarith
  with True live n al show ?thesis
    by (auto simp: boot_allocate_def Let_def checked_add_def start simp del: One_nat_def)
next
  case False
  with live n al show ?thesis by (simp add: boot_allocate_def Let_def checked_add_def)
qed

lemma boot_allocate_Inr:
  assumes ok: "boot_ok bo" and out: "boot_allocate bo n al = Inr (b, bo')"
  shows "boot_ok bo'" and "\<not> bo_sealed bo" and "is_power_of_two al" and "0 < n"
    and "ba_start b = align_up (bo_cursor bo) al" and "ba_byte_count b = n"
    and "bo_cursor bo' = boot_allocation_end b" and "bo_arena bo' = bo_arena bo"
    and "bo_allocated_bytes bo' = bo_allocated_bytes bo + n" and "boot_allocation_end b \<le> pr_end (bo_arena bo)"
    and "bo_cursor bo \<le> ba_start b" and "al dvd ba_start b"
proof -
  show c: "\<not> bo_sealed bo" "is_power_of_two al" "0 < n"
    using out by (auto simp: boot_allocate_def split: if_splits)
  note eq = boot_allocate_eq [OF ok c(1,3,2), unfolded out]
  have pos: "0 < al" using c(2) by (auto simp: is_power_of_two_iff)
  show b: "ba_start b = align_up (bo_cursor bo) al" "ba_byte_count b = n" "bo_arena bo' = bo_arena bo"
    "bo_cursor bo' = boot_allocation_end b" "bo_allocated_bytes bo' = bo_allocated_bytes bo + n"
    "boot_allocation_end b \<le> pr_end (bo_arena bo)"
    using eq by (auto simp: boot_allocation_end_def split: if_splits)
  show le: "bo_cursor bo \<le> ba_start b" "al dvd ba_start b" using align_up_props [OF pos] by (simp_all add: b)
  show "boot_ok bo'"
    using ok b le by (auto simp: boot_ok_def boot_consumed_bytes_def boot_allocation_end_def)
qed

section \<open>Traces\<close>

datatype boot_op = Boot_alloc nat nat | Boot_seal

text \<open>The allocations a sequence of requests returned, oldest first, and the final allocator.\<close>

fun boot_run :: "boot_allocator \<Rightarrow> boot_op list \<Rightarrow> boot_allocation list \<times> boot_allocator" where
  "boot_run bo [] = ([], bo)"
| "boot_run bo (Boot_seal # ops) = boot_run (boot_seal bo) ops"
| "boot_run bo (Boot_alloc n al # ops) =
     (case boot_allocate bo n al of
        Inl _ \<Rightarrow> boot_run bo ops
      | Inr (b, bo') \<Rightarrow> (case boot_run bo' ops of (bs, final) \<Rightarrow> (b # bs, final)))"

lemma boot_run_spec:
  assumes "boot_ok bo" and "boot_run bo ops = (bs, final)"
  shows "boot_ok final \<and> bo_arena final = bo_arena bo \<and> bo_cursor bo \<le> bo_cursor final \<and>
    (\<forall>b \<in> set bs. bo_cursor bo \<le> ba_start b \<and> 0 < ba_byte_count b \<and> boot_allocation_end b \<le> bo_cursor final) \<and>
    sorted_wrt (\<lambda>a b. boot_allocation_end a \<le> ba_start b) bs \<and>
    bo_allocated_bytes final = bo_allocated_bytes bo + sum_list (map ba_byte_count bs)"
  using assms
proof (induction bo ops arbitrary: bs final rule: boot_run.induct)
  case (1 bo)
  then show ?case by simp
next
  case (2 bo ops)
  moreover have "boot_ok (boot_seal bo)" using 2(2) by (simp add: boot_ok_def boot_seal_def boot_consumed_bytes_def)
  ultimately show ?case by (simp add: boot_seal_def)
next
  case (3 bo n al ops)
  show ?case
  proof (cases "boot_allocate bo n al")
    case (Inl e)
    with 3 show ?thesis by simp
  next
    case (Inr out)
    obtain b bo' where out: "out = (b, bo')" by (cases out)
    obtain cs where cs: "boot_run bo' ops = (cs, final)" "bs = b # cs"
      using "3.prems"(2) Inr out by (auto split: prod.splits)
    note b = boot_allocate_Inr [OF "3.prems"(1) Inr [unfolded out]]
    from "3.IH"(2) [OF Inr out [symmetric] b(1) cs(1)] b cs(2) show ?thesis
      by (auto simp: boot_allocation_end_def intro: order_trans)
  qed
qed

section \<open>Properties\<close>

text \<open>
  A successful boot allocation starts at the lowest multiple of the alignment at
  or above the cursor, so padding is never larger than needed; the word-level mask
  computes exactly that. The request fails only when the arena is sealed, the request
  is malformed, or that placement does not fit into the arena or into 64 bits.
\<close>

lemma boot_allocate_least:
  assumes "boot_ok bo"
  shows "case boot_allocate bo n al of
      Inr (b, bo') \<Rightarrow> boot_ok bo' \<and> ba_byte_count b = n \<and> bo_cursor bo' = boot_allocation_end b \<and>
        ba_start b = (LEAST a. bo_cursor bo \<le> a \<and> al dvd a) \<and>
        boot_allocation_end b \<le> pr_end (bo_arena bo)
    | Inl e \<Rightarrow> e = Boot_Sealed \<and> bo_sealed bo \<or> e = Boot_Empty \<and> n = 0 \<or>
        e = Boot_InvalidAlignment \<and> \<not> is_power_of_two al \<or>
        (e = Boot_Overflow \<or> e = Boot_Exhausted) \<and>
          (\<forall>a. bo_cursor bo \<le> a \<and> al dvd a \<longrightarrow> pr_end (bo_arena bo) < a + n)"
proof (cases "boot_allocate bo n al")
  case (Inr out)
  obtain b bo' where out: "out = (b, bo')" by (cases out)
  note b = boot_allocate_Inr [OF assms Inr [unfolded out]]
  have pos: "0 < al" using b(3) by (auto simp: is_power_of_two_iff)
  have "(LEAST a. bo_cursor bo \<le> a \<and> al dvd a) = align_up (bo_cursor bo) al"
    using align_up_props [OF pos] align_up_least [OF pos] by (intro Least_equality) auto
  with b show ?thesis by (simp add: Inr out)
next
  case (Inl e)
  show ?thesis
  proof (cases "\<not> bo_sealed bo \<and> 0 < n \<and> is_power_of_two al")
    case True
    then have pos: "0 < al" by (auto simp: is_power_of_two_iff)
    have lt: "pr_end (bo_arena bo) < 2 ^ 64" "bo_cursor bo < 2 ^ 64"
      using assms by (auto simp: boot_ok_def range_ok_def)
    have "e = Boot_Overflow \<or> e = Boot_Exhausted"
      and big: "2 ^ 64 \<le> bo_cursor bo + (al - 1) \<or> pr_end (bo_arena bo) < align_up (bo_cursor bo) al + n"
      using boot_allocate_eq [OF assms, of n al] True Inl lt(1) by (auto split: if_splits)
    moreover have "pr_end (bo_arena bo) < a + n" if a: "bo_cursor bo \<le> a" "al dvd a" for a
    proof (cases "2 ^ 64 \<le> bo_cursor bo + (al - 1)")
      case True
      show ?thesis
      proof (rule ccontr)
        assume "\<not> ?thesis"
        then have "a < 2 ^ 64" using lt(1) by linarith
        obtain k where k: "k < 64" "al = 2 ^ k"
          using \<open>\<not> bo_sealed bo \<and> 0 < n \<and> is_power_of_two al\<close> by (auto simp: is_power_of_two_iff)
        have "al dvd 2 ^ 64" unfolding k(2) using k(1) by (intro le_imp_power_dvd) simp
        with a(2) have "al dvd 2 ^ 64 - a" by (simp add: dvd_diff_nat)
        with \<open>a < 2 ^ 64\<close> have "al \<le> 2 ^ 64 - a" by (intro dvd_imp_le) auto
        with True a(1) \<open>a < 2 ^ 64\<close> pos show False by linarith
      qed
    next
      case False
      with big align_up_least [OF pos a(2,1)] show ?thesis by linarith
    qed
    ultimately show ?thesis by (simp add: Inl)
  next
    case False
    with Inl show ?thesis by (auto simp: boot_allocate_def split: if_splits)
  qed
qed

definition sample_arena :: physical_range where
  "sample_arena = \<lparr>pr_start = 4096, pr_end = 12288\<rparr>"

lemma sample_arena_ok: "range_ok sample_arena" "boot_ok (boot_new sample_arena)"
proof -
  show r: "range_ok sample_arena" by (simp add: sample_arena_def range_ok_def BASE_PAGE_SIZE_def)
  then show "boot_ok (boot_new sample_arena)" by (rule boot_new_ok)
qed

text \<open>
  Over any sequence of boot requests the allocations handed out lie inside the
  arena, never overlap and ascend in address order, and the payload accounting is
  their exact sum, at most the consumed bytes; after a seal nothing more is granted.
\<close>

lemma boot_trace_disjoint:
  assumes "range_ok arena" and "boot_run (boot_new arena) ops = (granted, final)"
  shows "(\<forall>b \<in> set granted. pr_start arena \<le> ba_start b \<and> boot_allocation_end b \<le> pr_end arena) \<and>
    sorted_wrt (\<lambda>a b. boot_allocation_end a \<le> ba_start b) granted \<and>
    bo_allocated_bytes final = sum_list (map ba_byte_count granted) \<and>
    bo_allocated_bytes final \<le> boot_consumed_bytes final \<and>
    fst (boot_run (boot_seal final) later) = []"
proof -
  have sealed: "fst (boot_run bo ops) = []" if "bo_sealed bo" for bo ops
    using that by (induction bo ops rule: boot_run.induct) (simp_all add: boot_allocate_def boot_seal_def)
  from boot_run_spec [OF boot_new_ok [OF assms(1)] assms(2)]
  have "boot_ok final" "bo_arena final = arena" "bo_allocated_bytes final = sum_list (map ba_byte_count granted)"
    "\<forall>b \<in> set granted. pr_start arena \<le> ba_start b \<and> boot_allocation_end b \<le> bo_cursor final"
    "sorted_wrt (\<lambda>a b. boot_allocation_end a \<le> ba_start b) granted"
    by (auto simp: boot_new_def)
  moreover from this have "bo_cursor final \<le> pr_end arena" "bo_allocated_bytes final \<le> boot_consumed_bytes final"
    by (auto simp: boot_ok_def)
  moreover have "fst (boot_run (boot_seal final) later) = []" by (rule sealed) (simp add: boot_seal_def)
  ultimately show ?thesis by (auto intro: order_trans)
qed

end
