(* ===== verification/Extents.thy ===== *)
theory Extents
  imports Physical_Range
begin

text \<open>
  \<open>crates/runtime/troe-memory/src/extents.rs\<close>: an ordered run of physical
  extents addressed as one logical page sequence. The abstract view is the list
  of physical page addresses in logical order; \<open>push\<close> appends to it, and the two
  addressing operations return slices of it. The outcome of \<open>Vec::try_reserve\<close>
  is the parameter \<open>reserve_ok\<close>.
\<close>

section \<open>Model\<close>

datatype extent_error =
    Ext_TooManyExtents | Ext_OutOfRange | Ext_Empty | Ext_Overflow | Ext_AllocationFailed

record physical_extents =
  px_extents :: "physical_range list"
  px_page_count :: nat

definition extents_new :: physical_extents where
  "extents_new = \<lparr>px_extents = [], px_page_count = 0\<rparr>"

definition extents_first_start :: "physical_extents \<Rightarrow> (extent_error, nat) result" where
  "extents_first_start x =
     ok_or Ext_Empty (case px_extents x of [] \<Rightarrow> None | extent # _ \<Rightarrow> Some (pr_start extent))"

text \<open>Every check precedes the first write, so an error leaves the sequence as it was.\<close>

definition extents_push ::
    "bool \<Rightarrow> physical_extents \<Rightarrow> physical_range \<Rightarrow> nat \<Rightarrow> bool \<Rightarrow>
     (extent_error, physical_extents) result" where
  "extents_push reserve_ok x rng maximum coalesce =
     rbind (ok_or Ext_Overflow (checked_add 64 (px_page_count x) (range_page_count rng))) (\<lambda>page_count.
       if px_extents x \<noteq> [] \<and> coalesce \<and> pr_end (last (px_extents x)) = pr_start rng
       then rbind (ok_or Ext_Overflow (checked_add 64
                    (range_page_count (last (px_extents x))) (range_page_count rng))) (\<lambda>merged.
            rbind (map_err (\<lambda>_. Ext_Overflow)
                    (range_from_pages (pr_start (last (px_extents x))) merged)) (\<lambda>previous.
            Inr \<lparr>px_extents = butlast (px_extents x) @ [previous], px_page_count = page_count\<rparr>))
       else if maximum \<le> length (px_extents x) then Inl Ext_TooManyExtents
       else if \<not> reserve_ok then Inl Ext_AllocationFailed
       else Inr \<lparr>px_extents = px_extents x @ [rng], px_page_count = page_count\<rparr>)"

fun run_at_loop :: "nat \<Rightarrow> nat \<Rightarrow> nat \<Rightarrow> physical_range list \<Rightarrow> (extent_error, physical_range) result" where
  "run_at_loop start_page page_count logical [] = Inl Ext_OutOfRange"
| "run_at_loop start_page page_count logical (extent # rest) =
     rbind (ok_or Ext_Overflow (checked_add 64 logical (range_page_count extent))) (\<lambda>extent_end.
       if start_page < extent_end then
         rbind (ok_or Ext_OutOfRange (checked_sub start_page logical)) (\<lambda>skip.
         rbind (ok_or Ext_OutOfRange (checked_sub (range_page_count extent) skip)) (\<lambda>available.
         rbind (ok_or Ext_Overflow (Option.bind (checked_mul 64 skip BASE_PAGE_SIZE)
                  (\<lambda>bytes. checked_add 64 (pr_start extent) bytes))) (\<lambda>start.
         map_err (\<lambda>_. Ext_Overflow) (range_from_pages start (min available page_count)))))
       else run_at_loop start_page page_count extent_end rest)"

definition extents_run_at :: "physical_extents \<Rightarrow> nat \<Rightarrow> nat \<Rightarrow> (extent_error, physical_range) result" where
  "extents_run_at x start_page page_count =
     (if page_count = 0 then Inl Ext_Empty
      else rbind (ok_or Ext_Overflow (checked_add 64 start_page page_count)) (\<lambda>end_page.
           if px_page_count x < end_page then Inl Ext_OutOfRange
           else run_at_loop start_page page_count 0 (px_extents x)))"

fun byte_run_at_loop ::
    "nat \<Rightarrow> nat \<Rightarrow> nat \<Rightarrow> physical_range list \<Rightarrow> (extent_error, physical_range \<times> nat \<times> nat) result" where
  "byte_run_at_loop byte_offset byte_count logical [] = Inl Ext_OutOfRange"
| "byte_run_at_loop byte_offset byte_count logical (extent # rest) =
     rbind (ok_or Ext_Overflow (checked_add 64 logical (range_byte_count extent))) (\<lambda>extent_end.
       if byte_offset < extent_end then
         rbind (ok_or Ext_OutOfRange (checked_sub byte_offset logical)) (\<lambda>within.
         rbind (ok_or Ext_OutOfRange (checked_sub (range_byte_count extent) within)) (\<lambda>available.
         let count = min available byte_count
         in rbind (ok_or Ext_Overflow (try_into 64 within)) (\<lambda>within'.
            rbind (ok_or Ext_Overflow (try_into 64 count)) (\<lambda>count'.
            Inr (extent, within', count')))))
       else byte_run_at_loop byte_offset byte_count extent_end rest)"

definition extents_byte_run_at ::
    "physical_extents \<Rightarrow> nat \<Rightarrow> nat \<Rightarrow> (extent_error, physical_range \<times> nat \<times> nat) result" where
  "extents_byte_run_at x byte_offset byte_count =
     (if byte_count = 0 then Inl Ext_Empty
      else rbind (ok_or Ext_Overflow (checked_mul 64 (px_page_count x) BASE_PAGE_SIZE)) (\<lambda>total.
           rbind (ok_or Ext_Overflow (checked_add 64 byte_offset byte_count)) (\<lambda>end.
           if total < end then Inl Ext_OutOfRange
           else byte_run_at_loop byte_offset byte_count 0 (px_extents x))))"

section \<open>Abstract view\<close>

definition pages_from :: "nat \<Rightarrow> nat \<Rightarrow> nat list" where
  "pages_from start n = map (\<lambda>i. start + i * BASE_PAGE_SIZE) [0..<n]"

definition range_pages :: "physical_range \<Rightarrow> nat list" where
  "range_pages r = pages_from (pr_start r) (range_page_count r)"

definition extents_pages :: "physical_extents \<Rightarrow> nat list" where
  "extents_pages x = concat (map range_pages (px_extents x))"

definition range_addresses :: "physical_range \<Rightarrow> nat list" where
  "range_addresses r = [pr_start r..<pr_end r]"

definition extents_addresses :: "physical_extents \<Rightarrow> nat list" where
  "extents_addresses x = concat (map range_addresses (px_extents x))"

definition extents_ok :: "physical_extents \<Rightarrow> bool" where
  "extents_ok x = ((\<forall>r \<in> set (px_extents x). range_ok r) \<and>
     px_page_count x = length (extents_pages x) \<and> px_page_count x < 2 ^ 64)"

section \<open>Lemmas\<close>

lemma length_pages_from [simp]: "length (pages_from s n) = n"
  by (simp add: pages_from_def)

lemma nth_pages_from [simp]: "i < n \<Longrightarrow> pages_from s n ! i = s + i * BASE_PAGE_SIZE"
  by (simp add: pages_from_def)

lemma pages_from_append: "pages_from s (m + n) = pages_from s m @ pages_from (s + m * BASE_PAGE_SIZE) n"
proof (rule nth_equalityI)
  fix i assume i: "i < length (pages_from s (m + n))"
  show "pages_from s (m + n) ! i = (pages_from s m @ pages_from (s + m * BASE_PAGE_SIZE) n) ! i"
  proof (cases "i < m")
    case False
    then have "m * BASE_PAGE_SIZE + (i - m) * BASE_PAGE_SIZE = i * BASE_PAGE_SIZE"
      by (metis add_mult_distrib le_add_diff_inverse not_less)
    with False i show ?thesis by (simp add: nth_append)
  qed (use i in \<open>simp add: nth_append\<close>)
qed simp

lemma pages_from_slice:
  assumes "k + n \<le> m"
  shows "take n (drop k (pages_from s m)) = pages_from (s + k * BASE_PAGE_SIZE) n"
proof -
  have "pages_from s m = pages_from s (k + (n + (m - k - n)))" using assms by simp
  then show ?thesis unfolding pages_from_append by simp
qed

lemma length_range_pages [simp]: "length (range_pages r) = range_page_count r"
  by (simp add: range_pages_def)

lemma length_range_addresses [simp]: "length (range_addresses r) = range_byte_count r"
  by (simp add: range_addresses_def range_byte_count_def)

lemma range_pages_mk [simp]:
  "range_pages \<lparr>pr_start = s, pr_end = s + n * BASE_PAGE_SIZE\<rparr> = pages_from s n"
  by (simp add: range_pages_def)

lemma range_pages_append:
  assumes "range_ok a" and "pr_end a = pr_start b"
  shows "pages_from (pr_start a) (range_page_count a + range_page_count b) = range_pages a @ range_pages b"
  using range_ok_end [OF assms(1)] assms(2) by (simp add: range_pages_def pages_from_append)

text \<open>
  A successful \<open>push\<close> appends exactly the pages of the pushed range and keeps the
  invariant; whether the tail was coalesced or a new extent was added does not
  show in the abstract view.
\<close>

lemma extents_push_spec:
  assumes ok: "extents_ok x" and r: "range_ok r" and push: "extents_push reserve_ok x r maximum coalesce = Inr y"
  shows "extents_ok y" and "extents_pages y = extents_pages x @ range_pages r"
proof -
  let ?es = "px_extents x"
  from push have pc: "px_page_count x + range_page_count r < 2 ^ 64"
    by (auto simp: extents_push_def result_simps checked_simps)
  consider (merge) xs p where "?es = xs @ [p]" "pr_end p = pr_start r"
      "px_extents y = xs @ [\<lparr>pr_start = pr_start p,
         pr_end = pr_start p + (range_page_count p + range_page_count r) * BASE_PAGE_SIZE\<rparr>]"
      "range_from_pages (pr_start p) (range_page_count p + range_page_count r) = Inr (last (px_extents y))"
    | (append) "px_extents y = ?es @ [r]"
    using push by (cases ?es rule: rev_cases)
      (auto simp: extents_push_def result_simps checked_simps split: if_splits)
  then have pages: "extents_pages y = extents_pages x @ range_pages r \<and> (\<forall>e \<in> set (px_extents y). range_ok e)"
  proof cases
    case merge
    have "range_ok p" using ok merge(1) by (simp add: extents_ok_def)
    with merge range_pages_append [OF this merge(2)] range_from_pages_ok [OF merge(4)] ok
    show ?thesis by (auto simp: extents_pages_def extents_ok_def)
  next
    case append
    with ok r show ?thesis by (auto simp: extents_pages_def extents_ok_def)
  qed
  then show "extents_pages y = extents_pages x @ range_pages r" by blast
  have "px_page_count y = px_page_count x + range_page_count r"
    using push by (auto simp: extents_push_def result_simps checked_simps split: if_splits)
  with pages pc ok show "extents_ok y" by (auto simp: extents_ok_def)
qed

text \<open>The scan of \<open>run_at\<close> finds the extent of the start page and a non-empty slice of it.\<close>

lemma run_at_loop_spec:
  assumes "\<forall>e \<in> set es. range_ok e" and "logical \<le> start" and "0 < n"
    and "start + n \<le> logical + length (concat (map range_pages es))"
    and "logical + length (concat (map range_pages es)) < 2 ^ 64"
  shows "\<exists>r. run_at_loop start n logical es = Inr r \<and> range_ok r \<and> range_page_count r \<le> n \<and>
    range_pages r = take (range_page_count r) (drop (start - logical) (concat (map range_pages es)))"
  using assms
proof (induction es arbitrary: logical)
  case Nil
  then show ?case by simp
next
  case (Cons e es)
  let ?P = "range_page_count e"
  have e: "range_ok e" and es: "\<forall>q \<in> set es. range_ok q" using Cons.prems(1) by auto
  have bound: "logical + ?P < 2 ^ 64" using Cons.prems(5) by simp
  show ?case
  proof (cases "start < logical + ?P")
    case True
    let ?k = "start - logical" and ?m = "min (?P - (start - logical)) n"
    have k: "?k < ?P" and km: "?k + ?m \<le> ?P" using True Cons.prems(2) by auto
    have mpos: "0 < ?m" using k Cons.prems(3) by simp
    have "(?k + ?m) * BASE_PAGE_SIZE \<le> ?P * BASE_PAGE_SIZE" using km by (rule mult_le_mono1)
    then have fit: "pr_start e + ?k * BASE_PAGE_SIZE + ?m * BASE_PAGE_SIZE < 2 ^ 64"
      using range_ok_end [OF e] e unfolding range_ok_def add_mult_distrib by linarith
    have dvd: "BASE_PAGE_SIZE dvd pr_start e + ?k * BASE_PAGE_SIZE"
      using e by (simp add: range_ok_def)
    let ?r = "\<lparr>pr_start = pr_start e + ?k * BASE_PAGE_SIZE,
        pr_end = pr_start e + ?k * BASE_PAGE_SIZE + ?m * BASE_PAGE_SIZE\<rparr>"
    have fp: "range_from_pages (pr_start e + ?k * BASE_PAGE_SIZE) ?m = Inr ?r"
      using fit dvd mpos by (simp add: range_from_pages_Inr_iff)
    have "run_at_loop start n logical (e # es) = Inr ?r"
      using True bound Cons.prems(2) k fit fp
      by (simp add: checked_add_def checked_sub_def checked_mul_def)
    moreover have "range_pages ?r =
        take ?m (drop ?k (concat (map range_pages (e # es))))"
      using km pages_from_slice [OF km, of "pr_start e"] by (simp add: range_pages_def)
    ultimately show ?thesis using range_from_pages_ok [OF fp] by auto
  next
    case False
    with Cons.prems bound Cons.IH [OF es, of "logical + ?P"]
    obtain r where "run_at_loop start n (logical + ?P) es = Inr r" "range_ok r" "range_page_count r \<le> n"
      "range_pages r = take (range_page_count r) (drop (start - (logical + ?P)) (concat (map range_pages es)))"
      by auto
    with False bound show ?thesis by (auto simp: checked_add_def)
  qed
qed


lemma run_at_loop_progress: "run_at_loop start n logical es = Inr r \<Longrightarrow> 0 < range_page_count r"
proof (induction es arbitrary: logical)
  case Nil
  then show ?case by simp
next
  case (Cons e es)
  then show ?case
    by (auto simp: result_simps split: if_splits dest: range_from_pages_ok range_ok_page_count_pos)
qed

lemma run_at_loop_range_ok: "run_at_loop start n logical es = Inr r \<Longrightarrow> range_ok r"
proof (induction es arbitrary: logical)
  case (Cons e es)
  then show ?case
    by (auto simp: rbind_Inr_iff map_err_Inr_iff simp del: range_from_pages_Inr_iff split: if_splits
        dest: range_from_pages_ok)
qed simp

lemma extents_run_at_progress: "extents_run_at x start n = Inr r \<Longrightarrow> 0 < range_page_count r"
  by (auto simp: extents_run_at_def result_simps split: if_splits dest: run_at_loop_progress)

lemma byte_run_at_loop_progress:
  "byte_run_at_loop off n logical es = Inr (e, w, c) \<Longrightarrow> 0 < n \<Longrightarrow> 0 < c"
proof (induction es arbitrary: logical)
  case Nil
  then show ?case by simp
next
  case (Cons e es)
  then show ?case
    by (auto simp: result_simps checked_simps Let_def split: if_splits)
qed

lemma extents_byte_run_at_progress: "extents_byte_run_at x off n = Inr (e, w, c) \<Longrightarrow> 0 < c"
  by (auto simp: extents_byte_run_at_def result_simps split: if_splits dest: byte_run_at_loop_progress)

definition byte_run_pieces :: "physical_range \<times> nat \<times> nat \<Rightarrow> nat list" where
  "byte_run_pieces run = (case run of (e, within, n) \<Rightarrow> [pr_start e + within ..< pr_start e + within + n])"

lemma length_byte_run_pieces [simp]: "length (byte_run_pieces (e, w, c)) = c"
  by (simp add: byte_run_pieces_def)

lemma byte_run_at_loop_spec:
  assumes "\<forall>e \<in> set es. range_ok e" and "logical \<le> off" and "0 < n"
    and "off + n \<le> logical + length (concat (map range_addresses es))"
    and "logical + length (concat (map range_addresses es)) < 2 ^ 64"
  shows "\<exists>e w c. byte_run_at_loop off n logical es = Inr (e, w, c) \<and> e \<in> set es \<and> c \<le> n \<and>
    w + c \<le> range_byte_count e \<and>
    byte_run_pieces (e, w, c) = take c (drop (off - logical) (concat (map range_addresses es)))"
  using assms
proof (induction es arbitrary: logical)
  case Nil
  then show ?case by simp
next
  case (Cons e es)
  let ?B = "range_byte_count e"
  have e: "range_ok e" and es: "\<forall>q \<in> set es. range_ok q" using Cons.prems(1) by auto
  have bound: "logical + ?B < 2 ^ 64" using Cons.prems(5) by simp
  show ?case
  proof (cases "off < logical + ?B")
    case True
    let ?w = "off - logical" and ?c = "min (?B - (off - logical)) n"
    have w: "?w < ?B" "?w + ?c \<le> ?B" using True Cons.prems(2) by auto
    have le: "pr_start e \<le> pr_end e" using e by (simp add: range_ok_def)
    have "byte_run_pieces (e, ?w, ?c) = take ?c (drop ?w (range_addresses e))"
      using w(2) take_drop_upt [of ?w ?c "pr_end e" "pr_start e"]
      by (simp add: byte_run_pieces_def range_addresses_def range_byte_count_def add.assoc)
    also have "\<dots> = take ?c (drop ?w (concat (map range_addresses (e # es))))"
      using w by simp
    finally have "byte_run_pieces (e, ?w, ?c) = take ?c (drop ?w (concat (map range_addresses (e # es))))" .
    moreover have "byte_run_at_loop off n logical (e # es) = Inr (e, ?w, ?c)"
      using True bound Cons.prems(2) w
      by (simp add: checked_add_def checked_sub_def try_into_def Let_def)
    ultimately show ?thesis using w(2) by auto
  next
    case False
    with Cons.prems bound Cons.IH [OF es, of "logical + ?B"]
    obtain q w c where "byte_run_at_loop off n (logical + ?B) es = Inr (q, w, c)" "q \<in> set es" "c \<le> n"
      "w + c \<le> range_byte_count q"
      "byte_run_pieces (q, w, c) = take c (drop (off - (logical + ?B)) (concat (map range_addresses es)))"
      by auto
    with False bound show ?thesis by (auto simp: checked_add_def)
  qed
qed

text \<open>A sequence whose total byte length a 64-bit integer can represent.\<close>

definition extents_bytes_ok :: "physical_extents \<Rightarrow> bool" where
  "extents_bytes_ok x = (extents_ok x \<and> px_page_count x * BASE_PAGE_SIZE < 2 ^ 64)"

lemma length_extents_addresses:
  assumes "extents_ok x"
  shows "length (extents_addresses x) = px_page_count x * BASE_PAGE_SIZE"
proof -
  have "length (concat (map range_addresses es)) = length (concat (map range_pages es)) * BASE_PAGE_SIZE"
    if "\<forall>r \<in> set es. range_ok r" for es
    using that
    by (induction es) (simp_all add: range_page_count_mult range_byte_count_def add_mult_distrib)
  with assms show ?thesis by (simp add: extents_addresses_def extents_pages_def extents_ok_def)
qed

section \<open>The contract of run-by-run addressing\<close>

text \<open>
  A caller of \<open>run_at\<close> or \<open>byte_run_at\<close> relies on one law: every request inside
  the sequence returns a non-empty slice of it that starts where asked. From that
  law alone the callers' advance-until-consumed loops terminate and visit the
  requested slice exactly once, in order; \<open>run_loop_induct\<close> is the induction
  rule for such a loop.
\<close>

locale run_source =
  fixes run :: "'s \<Rightarrow> nat \<Rightarrow> nat \<Rightarrow> ('e, 'r) result"
    and pieces :: "'r \<Rightarrow> 'a list"
    and whole :: "'s \<Rightarrow> 'a list"
    and invar :: "'s \<Rightarrow> bool"
  assumes run_slice: "invar x \<Longrightarrow> 0 < n \<Longrightarrow> s + n \<le> length (whole x) \<Longrightarrow>
    \<exists>r. run x s n = Inr r \<and> 0 < length (pieces r) \<and> length (pieces r) \<le> n \<and>
        pieces r = take (length (pieces r)) (drop s (whole x))"
begin

lemma run_loop_induct:
  assumes "invar x" and "s + n \<le> length (whole x)" and "k \<le> n"
    and finish: "P n"
    and step: "\<And>k r. \<lbrakk>k < n; run x (s + k) (n - k) = Inr r; 0 < length (pieces r);
      k + length (pieces r) \<le> n; pieces r = take (length (pieces r)) (drop (s + k) (whole x));
      P (k + length (pieces r))\<rbrakk> \<Longrightarrow> P k"
  shows "P k"
  using assms(3)
proof (induction "n - k" arbitrary: k rule: less_induct)
  case less
  show ?case
  proof (cases "k = n")
    case True
    with finish show ?thesis by simp
  next
    case False
    with less.prems have k: "k < n" by simp
    with assms(1,2) run_slice [of x "n - k" "s + k"] obtain r where
      r: "run x (s + k) (n - k) = Inr r" "0 < length (pieces r)" "length (pieces r) \<le> n - k"
        "pieces r = take (length (pieces r)) (drop (s + k) (whole x))" by auto
    then have "n - (k + length (pieces r)) < n - k" and le: "k + length (pieces r) \<le> n"
      using k by linarith+
    then have "P (k + length (pieces r))" by (rule less.hyps)
    then show ?thesis by (rule step [OF k r(1,2) le r(4)])
  qed
qed

end

interpretation page_runs: run_source extents_run_at range_pages extents_pages extents_ok
proof unfold_locales
  fix x n s assume x: "extents_ok x" "0 < n" "s + n \<le> length (extents_pages x)"
  then have "s + n \<le> px_page_count x" "s + n < 2 ^ 64" by (simp_all add: extents_ok_def)
  moreover from x obtain r where r: "run_at_loop s n 0 (px_extents x) = Inr r" "range_ok r"
    "range_page_count r \<le> n" "range_pages r = take (range_page_count r) (drop s (extents_pages x))"
    using run_at_loop_spec [of "px_extents x" 0 s n] by (auto simp: extents_ok_def extents_pages_def)
  ultimately have "extents_run_at x s n = Inr r"
    using x(2) by (simp add: extents_run_at_def checked_add_def)
  with r range_ok_page_count_pos [OF r(2)]
  show "\<exists>r. extents_run_at x s n = Inr r \<and> 0 < length (range_pages r) \<and> length (range_pages r) \<le> n \<and>
      range_pages r = take (length (range_pages r)) (drop s (extents_pages x))" by auto
qed

interpretation byte_runs: run_source extents_byte_run_at byte_run_pieces extents_addresses extents_bytes_ok
proof unfold_locales
  fix x n s assume x: "extents_bytes_ok x" "0 < n" "s + n \<le> length (extents_addresses x)"
  then have ok: "extents_ok x" and len: "length (extents_addresses x) = px_page_count x * BASE_PAGE_SIZE"
    and small: "px_page_count x * BASE_PAGE_SIZE < 2 ^ 64"
    by (simp_all add: extents_bytes_ok_def length_extents_addresses)
  obtain e w c where r: "byte_run_at_loop s n 0 (px_extents x) = Inr (e, w, c)" "c \<le> n"
    "byte_run_pieces (e, w, c) = take c (drop s (extents_addresses x))"
    using byte_run_at_loop_spec [of "px_extents x" 0 s n] x ok len small
    by (auto simp: extents_ok_def extents_addresses_def)
  have "extents_byte_run_at x s n = Inr (e, w, c)"
    using x len small r(1) by (simp add: extents_byte_run_at_def checked_add_def checked_mul_def)
  with r byte_run_at_loop_progress [OF r(1) x(2)]
  show "\<exists>r. extents_byte_run_at x s n = Inr r \<and> 0 < length (byte_run_pieces r) \<and>
      length (byte_run_pieces r) \<le> n \<and>
      byte_run_pieces r = take (length (byte_run_pieces r)) (drop s (extents_addresses x))"
    by (metis length_byte_run_pieces)
qed

section \<open>Properties\<close>

text \<open>Two extents, pages 1 and 2 then page 8.\<close>

definition sample_extents :: physical_extents where
  "sample_extents = \<lparr>px_extents = [\<lparr>pr_start = 4096, pr_end = 12288\<rparr>, \<lparr>pr_start = 32768, pr_end = 36864\<rparr>],
     px_page_count = 3\<rparr>"

lemma sample_extents_ok: "extents_ok sample_extents" "extents_pages sample_extents = [4096, 8192, 32768]"
  by (simp_all add: sample_extents_def extents_ok_def extents_pages_def range_ok_def range_pages_def
      pages_from_def range_page_count_def range_byte_count_def BASE_PAGE_SIZE_def upt_conv_Cons)

text \<open>
  A successful \<open>push\<close> appends exactly the pages of the pushed range, keeps the
  invariant and never exceeds the extent bound it was given; whether it coalesced
  into the last extent does not show in the page sequence. It is refused only on
  overflow, at the bound, or when the record buffer cannot grow.
\<close>

lemma extents_push_appends:
  assumes "extents_ok x" and "range_ok r"
  shows "case extents_push reserve_ok x r maximum coalesce of
      Inr y \<Rightarrow> extents_ok y \<and> extents_pages y = extents_pages x @ range_pages r \<and>
        length (px_extents y) \<le> max (length (px_extents x)) maximum
    | Inl e \<Rightarrow> e = Ext_Overflow \<or> e = Ext_TooManyExtents \<and> maximum \<le> length (px_extents x) \<or>
        e = Ext_AllocationFailed \<and> \<not> reserve_ok"
proof (cases "extents_push reserve_ok x r maximum coalesce")
  case (Inr y)
  moreover from this have "length (px_extents y) \<le> max (length (px_extents x)) maximum"
    by (auto simp: extents_push_def result_simps split: if_splits)
  ultimately show ?thesis using extents_push_spec [OF assms Inr] by simp
next
  case (Inl e)
  then show ?thesis
    by (auto simp: extents_push_def rbind_def ok_or_def map_err_def split: if_splits option.splits sum.splits)
qed

text \<open>
  The two run lookups are exact. A page request inside the sequence returns a
  non-empty prefix of the requested pages, and a byte request a non-empty prefix of
  the requested addresses; an empty, overflowing or out-of-range request is refused
  with its own error.
\<close>

lemma extents_runs_exact:
  assumes "extents_bytes_ok x"
  shows "(case extents_run_at x s n of
      Inl e \<Rightarrow> e = (if n = 0 then Ext_Empty else if 2 ^ 64 \<le> s + n then Ext_Overflow else Ext_OutOfRange) \<and>
        (0 < n \<longrightarrow> length (extents_pages x) < s + n)
    | Inr r \<Rightarrow> range_pages r \<noteq> [] \<and> length (range_pages r) \<le> n \<and>
        range_pages r = take (length (range_pages r)) (drop s (extents_pages x))) \<and>
   (case extents_byte_run_at x s n of
      Inl e \<Rightarrow> e = (if n = 0 then Ext_Empty else if 2 ^ 64 \<le> s + n then Ext_Overflow else Ext_OutOfRange) \<and>
        (0 < n \<longrightarrow> length (extents_addresses x) < s + n)
    | Inr r \<Rightarrow> byte_run_pieces r \<noteq> [] \<and> length (byte_run_pieces r) \<le> n \<and>
        byte_run_pieces r = take (length (byte_run_pieces r)) (drop s (extents_addresses x)))"
proof -
  have ok: "extents_ok x" and small: "px_page_count x * BASE_PAGE_SIZE < 2 ^ 64"
    using assms by (simp_all add: extents_bytes_ok_def)
  have len: "length (extents_pages x) = px_page_count x" "px_page_count x < 2 ^ 64"
    "length (extents_addresses x) = px_page_count x * BASE_PAGE_SIZE"
    using ok length_extents_addresses [OF ok] by (simp_all add: extents_ok_def)
  have A if "A = (case extents_run_at x s n of
      Inl e \<Rightarrow> e = (if n = 0 then Ext_Empty else if 2 ^ 64 \<le> s + n then Ext_Overflow else Ext_OutOfRange) \<and>
        (0 < n \<longrightarrow> length (extents_pages x) < s + n)
    | Inr r \<Rightarrow> range_pages r \<noteq> [] \<and> length (range_pages r) \<le> n \<and>
        range_pages r = take (length (range_pages r)) (drop s (extents_pages x)))" for A
  proof (cases "0 < n \<and> s + n \<le> px_page_count x")
    case True
    with page_runs.run_slice [OF ok, of n s] len show ?thesis unfolding that by auto
  next
    case False
    then show ?thesis unfolding that using len by (auto simp: extents_run_at_def checked_add_def)
  qed
  moreover have B if "B = (case extents_byte_run_at x s n of
      Inl e \<Rightarrow> e = (if n = 0 then Ext_Empty else if 2 ^ 64 \<le> s + n then Ext_Overflow else Ext_OutOfRange) \<and>
        (0 < n \<longrightarrow> length (extents_addresses x) < s + n)
    | Inr r \<Rightarrow> byte_run_pieces r \<noteq> [] \<and> length (byte_run_pieces r) \<le> n \<and>
        byte_run_pieces r = take (length (byte_run_pieces r)) (drop s (extents_addresses x)))" for B
  proof (cases "0 < n \<and> s + n \<le> px_page_count x * BASE_PAGE_SIZE")
    case True
    with byte_runs.run_slice [OF assms, of n s] len show ?thesis unfolding that by auto
  next
    case False
    then show ?thesis unfolding that using len small
      by (auto simp: extents_byte_run_at_def checked_add_def checked_mul_def)
  qed
  ultimately show ?thesis by blast
qed

end
