(* ===== verification/Frames.thy ===== *)
theory Frames
  imports Memory_Map_Correct Extents
begin

text \<open>
  \<open>crates/runtime/troe-memory/src/frames.rs\<close>: the bitmap frame allocator over
  the usable spans of a normalised map. This theory holds the model and the
  facts at the level of frame indices; \<open>Frames_Correct\<close> lifts them to sets of
  physical addresses. The bitmaps are lists of 64-bit words. The three
  \<open>try_reserve_exact\<close> calls of \<open>from_map\<close> are boolean parameters.
\<close>

section \<open>Data\<close>

datatype frame_error =
    Frame_Overflow | Frame_MetadataExhausted | Frame_Exhausted | Frame_InvalidFrame | Frame_DoubleFree

record frame_span =
  sp_range :: physical_range
  sp_first :: nat

record frame_allocator =
  fa_spans :: "frame_span list"
  fa_allocated :: "64 word list"
  fa_reserved :: "64 word list"
  fa_total :: nat
  fa_free :: nat

section \<open>Bitmap access\<close>

definition bitmap_location :: "frame_allocator \<Rightarrow> nat \<Rightarrow> (frame_error, nat \<times> 64 word) result" where
  "bitmap_location fa frame_index =
     (if fa_total fa \<le> frame_index then Inl Frame_Overflow
      else rbind (ok_or Frame_Overflow (try_into 64 (frame_index div 64))) (\<lambda>w.
           Inr (w, push_bit (frame_index mod 64) 1)))"

definition is_allocated :: "frame_allocator \<Rightarrow> nat \<Rightarrow> (frame_error, bool) result" where
  "is_allocated fa frame_index =
     rbind (bitmap_location fa frame_index) (\<lambda>(w, msk). Inr (fa_allocated fa ! w AND msk \<noteq> 0))"

definition is_reserved :: "frame_allocator \<Rightarrow> nat \<Rightarrow> (frame_error, bool) result" where
  "is_reserved fa frame_index =
     rbind (bitmap_location fa frame_index) (\<lambda>(w, msk). Inr (fa_reserved fa ! w AND msk \<noteq> 0))"

definition is_unavailable :: "frame_allocator \<Rightarrow> nat \<Rightarrow> (frame_error, bool) result" where
  "is_unavailable fa frame_index =
     rbind (is_allocated fa frame_index) (\<lambda>a.
       if a then Inr True else is_reserved fa frame_index)"

definition set_allocated :: "frame_allocator \<Rightarrow> nat \<Rightarrow> bool \<Rightarrow> (frame_error, frame_allocator) result" where
  "set_allocated fa frame_index allocated =
     rbind (bitmap_location fa frame_index) (\<lambda>(w, msk).
       Inr (fa\<lparr>fa_allocated := (fa_allocated fa)[w :=
              (if allocated then fa_allocated fa ! w OR msk else fa_allocated fa ! w AND NOT msk)]\<rparr>))"

definition mark_reserved :: "frame_allocator \<Rightarrow> nat \<Rightarrow> (frame_error, frame_allocator) result" where
  "mark_reserved fa frame_index =
     rbind (bitmap_location fa frame_index) (\<lambda>(w, msk).
       Inr (fa\<lparr>fa_reserved := (fa_reserved fa)[w := fa_reserved fa ! w OR msk]\<rparr>))"

section \<open>Addresses\<close>

fun address_for_index_loop :: "frame_span list \<Rightarrow> nat \<Rightarrow> nat option" where
  "address_for_index_loop [] frame_index = None"
| "address_for_index_loop (span # rest) frame_index =
     (if sp_first span \<le> frame_index \<and> frame_index - sp_first span < range_page_count (sp_range span)
      then Option.bind (checked_mul 64 (frame_index - sp_first span) BASE_PAGE_SIZE)
             (\<lambda>offset. checked_add 64 (pr_start (sp_range span)) offset)
      else address_for_index_loop rest frame_index)"

definition address_for_index :: "frame_allocator \<Rightarrow> nat \<Rightarrow> nat option" where
  "address_for_index fa frame_index = address_for_index_loop (fa_spans fa) frame_index"

fun index_for_address_loop :: "frame_span list \<Rightarrow> nat \<Rightarrow> nat option" where
  "index_for_address_loop [] address = None"
| "index_for_address_loop (span # rest) address =
     (if pr_start (sp_range span) \<le> address \<and> address < pr_end (sp_range span)
      then checked_add 64 (sp_first span) ((address - pr_start (sp_range span)) div BASE_PAGE_SIZE)
      else index_for_address_loop rest address)"

definition index_for_address :: "frame_allocator \<Rightarrow> nat \<Rightarrow> nat option" where
  "index_for_address fa address =
     (if address mod BASE_PAGE_SIZE \<noteq> 0 then None else index_for_address_loop (fa_spans fa) address)"

section \<open>Construction\<close>

fun from_map_spans :: "nat \<Rightarrow> memory_region list \<Rightarrow> (frame_error, frame_span list \<times> nat) result" where
  "from_map_spans total_frames [] = Inr ([], total_frames)"
| "from_map_spans total_frames (region # rest) =
     (if mr_kind region \<noteq> Usable then from_map_spans total_frames rest
      else rbind (ok_or Frame_Overflow (checked_add 64 total_frames (range_page_count (mr_range region)))) (\<lambda>total_next.
           rbind (from_map_spans total_next rest) (\<lambda>(spans, final).
           Inr (\<lparr>sp_range = mr_range region, sp_first = total_frames\<rparr> # spans, final))))"

definition frames_from_map ::
    "bool \<Rightarrow> bool \<Rightarrow> bool \<Rightarrow> normalized_memory_map \<Rightarrow> (frame_error, frame_allocator) result" where
  "frames_from_map spans_ok allocated_ok reserved_ok m =
     (if \<not> spans_ok then Inl Frame_MetadataExhausted
      else rbind (from_map_spans 0 (nm_regions m)) (\<lambda>(spans, total_frames).
           rbind (ok_or Frame_Overflow (checked_add 64 total_frames 63)) (\<lambda>rounded.
           rbind (ok_or Frame_Overflow (try_into 64 (rounded div 64))) (\<lambda>word_count.
           if \<not> allocated_ok then Inl Frame_MetadataExhausted
           else if \<not> reserved_ok then Inl Frame_MetadataExhausted
           else Inr \<lparr>fa_spans = spans, fa_allocated = replicate word_count 0,
                  fa_reserved = replicate word_count 0, fa_total = total_frames,
                  fa_free = total_frames\<rparr>))))"

section \<open>Allocation\<close>

text \<open>These return the allocator beside the result: an error does not undo a write.\<close>

fun frame_allocate_loop :: "frame_allocator \<Rightarrow> nat list \<Rightarrow> (frame_error, nat) result \<times> frame_allocator" where
  "frame_allocate_loop fa [] = (Inl Frame_Exhausted, fa)"
| "frame_allocate_loop fa (frame_index # rest) =
     (case is_unavailable fa frame_index of
        Inl e \<Rightarrow> (Inl e, fa)
      | Inr True \<Rightarrow> frame_allocate_loop fa rest
      | Inr False \<Rightarrow>
          (case set_allocated fa frame_index True of
             Inl e \<Rightarrow> (Inl e, fa)
           | Inr fa' \<Rightarrow>
               let fa'' = fa'\<lparr>fa_free := fa_free fa' - 1\<rparr>
               in (ok_or Frame_Overflow (address_for_index fa'' frame_index), fa'')))"

definition frame_allocate :: "frame_allocator \<Rightarrow> (frame_error, nat) result \<times> frame_allocator" where
  "frame_allocate fa =
     (if fa_free fa = 0 then (Inl Frame_Exhausted, fa) else frame_allocate_loop fa [0..<fa_total fa])"

fun frames_all_free :: "frame_allocator \<Rightarrow> nat list \<Rightarrow> (frame_error, bool) result" where
  "frames_all_free fa [] = Inr True"
| "frames_all_free fa (frame # rest) =
     rbind (is_unavailable fa frame) (\<lambda>u. if u then Inr False else frames_all_free fa rest)"

fun set_all_allocated ::
    "frame_allocator \<Rightarrow> nat list \<Rightarrow> bool \<Rightarrow> (frame_error, unit) result \<times> frame_allocator" where
  "set_all_allocated fa [] v = (Inr (), fa)"
| "set_all_allocated fa (frame # rest) v =
     (case set_allocated fa frame v of
        Inl e \<Rightarrow> (Inl e, fa)
      | Inr fa' \<Rightarrow> set_all_allocated fa' rest v)"

text \<open>
  One candidate start inside a span: \<open>None\<close> is the loop's \<open>continue\<close>, \<open>Some\<close> the
  function's return.
\<close>

definition try_contiguous_at ::
    "frame_allocator \<Rightarrow> frame_span \<Rightarrow> nat \<Rightarrow> nat \<Rightarrow> nat \<Rightarrow>
     ((frame_error, physical_range) result \<times> frame_allocator) option" where
  "try_contiguous_at fa span page_count alignment_pages local_start =
     (case rbind (ok_or Frame_Overflow (checked_mul 64 local_start BASE_PAGE_SIZE)) (\<lambda>offset.
           rbind (ok_or Frame_Overflow (checked_add 64 (pr_start (sp_range span)) offset)) (\<lambda>address.
           rbind (ok_or Frame_Overflow (checked_mul 64 alignment_pages BASE_PAGE_SIZE)) (\<lambda>alignment_bytes.
           Inr (address, alignment_bytes)))) of
        Inl e \<Rightarrow> Some (Inl e, fa)
      | Inr (address, alignment_bytes) \<Rightarrow>
          if address mod alignment_bytes \<noteq> 0 then None
          else
           (case rbind (ok_or Frame_Overflow (checked_add 64 (sp_first span) local_start)) (\<lambda>first.
                 rbind (ok_or Frame_Overflow (checked_add 64 first page_count)) (\<lambda>end.
                 rbind (frames_all_free fa [first..<end]) (\<lambda>free. Inr (first, end, free)))) of
              Inl e \<Rightarrow> Some (Inl e, fa)
            | Inr (first, end, free) \<Rightarrow>
                if \<not> free then None
                else
                 (case checked_sub (fa_free fa) page_count of
                    None \<Rightarrow> Some (Inl Frame_Overflow, fa)
                  | Some next_free \<Rightarrow>
                     (case set_all_allocated fa [first..<end] True of
                        (Inl e, fa') \<Rightarrow> Some (Inl e, fa')
                      | (Inr _, fa') \<Rightarrow>
                          Some (map_err (\<lambda>_. Frame_Overflow) (range_from_pages address page_count),
                                fa'\<lparr>fa_free := next_free\<rparr>)))))"

fun contiguous_in_span ::
    "frame_allocator \<Rightarrow> frame_span \<Rightarrow> nat \<Rightarrow> nat \<Rightarrow> nat list \<Rightarrow>
     ((frame_error, physical_range) result \<times> frame_allocator) option" where
  "contiguous_in_span fa span page_count alignment_pages [] = None"
| "contiguous_in_span fa span page_count alignment_pages (local_start # rest) =
     (case try_contiguous_at fa span page_count alignment_pages local_start of
        None \<Rightarrow> contiguous_in_span fa span page_count alignment_pages rest
      | Some out \<Rightarrow> Some out)"

fun contiguous_in_spans ::
    "frame_allocator \<Rightarrow> nat \<Rightarrow> nat \<Rightarrow> frame_span list \<Rightarrow>
     (frame_error, physical_range) result \<times> frame_allocator" where
  "contiguous_in_spans fa page_count alignment_pages [] = (Inl Frame_Exhausted, fa)"
| "contiguous_in_spans fa page_count alignment_pages (span # rest) =
     (if range_page_count (sp_range span) < page_count
      then contiguous_in_spans fa page_count alignment_pages rest
      else case checked_sub (range_page_count (sp_range span)) page_count of
          None \<Rightarrow> (Inl Frame_Overflow, fa)
        | Some last_start \<Rightarrow>
           (case contiguous_in_span fa span page_count alignment_pages [0..<Suc last_start] of
              Some out \<Rightarrow> out
            | None \<Rightarrow> contiguous_in_spans fa page_count alignment_pages rest))"

definition frame_allocate_contiguous ::
    "frame_allocator \<Rightarrow> nat \<Rightarrow> nat \<Rightarrow> (frame_error, physical_range) result \<times> frame_allocator" where
  "frame_allocate_contiguous fa page_count alignment_pages =
     (if page_count = 0 \<or> alignment_pages = 0 \<or> \<not> is_power_of_two alignment_pages
      then (Inl Frame_InvalidFrame, fa)
      else if fa_free fa < page_count then (Inl Frame_Exhausted, fa)
      else contiguous_in_spans fa page_count alignment_pages (fa_spans fa))"

section \<open>Reservation\<close>

fun reserve_frames ::
    "frame_allocator \<Rightarrow> nat \<Rightarrow> nat list \<Rightarrow> (frame_error, nat) result \<times> frame_allocator" where
  "reserve_frames fa reserved [] = (Inr reserved, fa)"
| "reserve_frames fa reserved (frame_index # rest) =
     (case is_unavailable fa frame_index of
        Inl e \<Rightarrow> (Inl e, fa)
      | Inr True \<Rightarrow> reserve_frames fa reserved rest
      | Inr False \<Rightarrow>
         (case rbind (ok_or Frame_Overflow (checked_sub (fa_free fa) 1)) (\<lambda>next_free.
               rbind (ok_or Frame_Overflow (checked_add 64 reserved 1)) (\<lambda>next_reserved.
               rbind (mark_reserved fa frame_index) (\<lambda>fa'.
               Inr (next_reserved, fa'\<lparr>fa_free := next_free\<rparr>)))) of
            Inl e \<Rightarrow> (Inl e, fa)
          | Inr (next_reserved, fa'') \<Rightarrow> reserve_frames fa'' next_reserved rest))"

fun reserve_spans ::
    "frame_allocator \<Rightarrow> physical_range \<Rightarrow> nat \<Rightarrow> frame_span list \<Rightarrow>
     (frame_error, nat) result \<times> frame_allocator" where
  "reserve_spans fa rng reserved [] = (Inr reserved, fa)"
| "reserve_spans fa rng reserved (span # rest) =
     (let overlap_start = max (pr_start (sp_range span)) (pr_start rng);
          overlap_end = min (pr_end (sp_range span)) (pr_end rng)
      in if overlap_end \<le> overlap_start then reserve_spans fa rng reserved rest
         else
          (case rbind (ok_or Frame_Overflow (checked_add 64 (sp_first span)
                        ((overlap_start - pr_start (sp_range span)) div BASE_PAGE_SIZE))) (\<lambda>first.
                rbind (ok_or Frame_Overflow (checked_add 64 first
                        ((overlap_end - overlap_start) div BASE_PAGE_SIZE))) (\<lambda>end.
                Inr (first, end))) of
             Inl e \<Rightarrow> (Inl e, fa)
           | Inr (first, end) \<Rightarrow>
              (case reserve_frames fa reserved [first..<end] of
                 (Inl e, fa') \<Rightarrow> (Inl e, fa')
               | (Inr reserved', fa') \<Rightarrow> reserve_spans fa' rng reserved' rest)))"

definition frame_reserve_range ::
    "frame_allocator \<Rightarrow> physical_range \<Rightarrow> (frame_error, nat) result \<times> frame_allocator" where
  "frame_reserve_range fa rng = reserve_spans fa rng 0 (fa_spans fa)"

section \<open>Release\<close>

definition check_freeable :: "frame_allocator \<Rightarrow> nat \<Rightarrow> (frame_error, nat) result" where
  "check_freeable fa address =
     rbind (ok_or Frame_InvalidFrame (index_for_address fa address)) (\<lambda>frame_index.
     rbind (is_reserved fa frame_index) (\<lambda>r.
     if r then Inl Frame_InvalidFrame
     else rbind (is_allocated fa frame_index) (\<lambda>a.
          if \<not> a then Inl Frame_DoubleFree else Inr frame_index)))"

definition frame_free :: "frame_allocator \<Rightarrow> nat \<Rightarrow> (frame_error, unit) result \<times> frame_allocator" where
  "frame_free fa address =
     (case check_freeable fa address of
        Inl e \<Rightarrow> (Inl e, fa)
      | Inr frame_index \<Rightarrow>
         (case set_allocated fa frame_index False of
            Inl e \<Rightarrow> (Inl e, fa)
          | Inr fa' \<Rightarrow>
             (case checked_add 64 (fa_free fa') 1 of
                None \<Rightarrow> (Inl Frame_Overflow, fa')
              | Some n \<Rightarrow> (Inr (), fa'\<lparr>fa_free := n\<rparr>))))"

fun free_range_check :: "frame_allocator \<Rightarrow> nat \<Rightarrow> nat list \<Rightarrow> (frame_error, unit) result" where
  "free_range_check fa start [] = Inr ()"
| "free_range_check fa start (page # rest) =
     rbind (ok_or Frame_Overflow (checked_mul 64 page BASE_PAGE_SIZE)) (\<lambda>offset.
     rbind (ok_or Frame_Overflow (checked_add 64 start offset)) (\<lambda>address.
     rbind (check_freeable fa address) (\<lambda>_. free_range_check fa start rest)))"

fun free_range_clear ::
    "frame_allocator \<Rightarrow> nat \<Rightarrow> nat list \<Rightarrow> (frame_error, unit) result \<times> frame_allocator" where
  "free_range_clear fa start [] = (Inr (), fa)"
| "free_range_clear fa start (page # rest) =
     (case rbind (ok_or Frame_InvalidFrame (index_for_address fa (start + page * BASE_PAGE_SIZE)))
             (\<lambda>index. set_allocated fa index False) of
        Inl e \<Rightarrow> (Inl e, fa)
      | Inr fa' \<Rightarrow> free_range_clear fa' start rest)"

definition frame_free_range ::
    "frame_allocator \<Rightarrow> physical_range \<Rightarrow> (frame_error, unit) result \<times> frame_allocator" where
  "frame_free_range fa rng =
     (case rbind (free_range_check fa (pr_start rng) [0..<range_page_count rng]) (\<lambda>_.
           ok_or Frame_Overflow (checked_add 64 (fa_free fa) (range_page_count rng))) of
        Inl e \<Rightarrow> (Inl e, fa)
      | Inr next_free \<Rightarrow>
         (case free_range_clear fa (pr_start rng) [0..<range_page_count rng] of
            (Inl e, fa') \<Rightarrow> (Inl e, fa')
          | (Inr _, fa') \<Rightarrow> (Inr (), fa'\<lparr>fa_free := next_free\<rparr>)))"

end
