(* ===== verification/Frames_Correct.thy ===== *)
theory Frames_Correct
  imports Frames
begin

text \<open>
  Correctness of the frame allocator of
  \<open>crates/runtime/troe-memory/src/frames.rs\<close>: the invariant tying bitmaps, spans
  and counters together, every operation's effect on the sets of free, allocated
  and reserved frame addresses, and the contract \<open>frame_pool\<close> its clients use.
\<close>

section \<open>Bits\<close>

definition alloc_bit :: "frame_allocator \<Rightarrow> nat \<Rightarrow> bool" where
  "alloc_bit fa i = bit (fa_allocated fa ! (i div 64)) (i mod 64)"

definition res_bit :: "frame_allocator \<Rightarrow> nat \<Rightarrow> bool" where
  "res_bit fa i = bit (fa_reserved fa ! (i div 64)) (i mod 64)"

fun span_pages :: "frame_span list \<Rightarrow> nat list" where
  "span_pages [] = []"
| "span_pages (s # ss) = range_pages (sp_range s) @ span_pages ss"

definition frame_addrs :: "frame_allocator \<Rightarrow> nat list" where
  "frame_addrs fa = span_pages (fa_spans fa)"

fun spans_ok :: "nat \<Rightarrow> frame_span list \<Rightarrow> bool" where
  "spans_ok k [] = True"
| "spans_ok k (s # ss) =
     (range_ok (sp_range s) \<and> sp_first s = k \<and>
      (\<forall>q \<in> set ss. pr_end (sp_range s) < pr_start (sp_range q)) \<and>
      spans_ok (k + range_page_count (sp_range s)) ss)"

text \<open>The shape of an allocator: what no operation changes after construction.\<close>

definition frames_shape :: "frame_allocator \<Rightarrow> bool" where
  "frames_shape fa =
     (spans_ok 0 (fa_spans fa) \<and> fa_total fa = length (frame_addrs fa) \<and> fa_total fa + 63 < 2 ^ 64 \<and>
      length (fa_allocated fa) = (fa_total fa + 63) div 64 \<and>
      length (fa_reserved fa) = (fa_total fa + 63) div 64)"

definition free_indices :: "frame_allocator \<Rightarrow> nat set" where
  "free_indices fa = {i. i < fa_total fa \<and> \<not> alloc_bit fa i \<and> \<not> res_bit fa i}"

definition frames_ok :: "frame_allocator \<Rightarrow> bool" where
  "frames_ok fa = (frames_shape fa \<and> (\<forall>i<fa_total fa. \<not> (alloc_bit fa i \<and> res_bit fa i)) \<and>
     fa_free fa = card (free_indices fa))"

lemma and_mask_eq_bit: "n < 64 \<Longrightarrow> ((w :: 64 word) AND 2 ^ n = 0) \<longleftrightarrow> \<not> bit w n"
  by (simp add: and_exp_eq_0_iff_not_bit)

lemma bit_or_mask: "n < 64 \<Longrightarrow> m < 64 \<Longrightarrow> bit ((w :: 64 word) OR 2 ^ n) m = (bit w m \<or> m = n)"
  by (auto simp: bit_simps)

lemma bit_clear_mask: "n < 64 \<Longrightarrow> m < 64 \<Longrightarrow> bit ((w :: 64 word) AND NOT (2 ^ n)) m = (bit w m \<and> m \<noteq> n)"
  by (auto simp: bit_simps)

lemma index_eq_iff: "(j :: nat) = i \<longleftrightarrow> j div 64 = i div 64 \<and> j mod 64 = i mod 64"
  by (metis div_mult_mod_eq)

lemma bitmap_location_in_range:
  "frames_shape fa \<Longrightarrow> i < fa_total fa \<Longrightarrow>
   i div 64 < length (fa_allocated fa) \<and> i div 64 < length (fa_reserved fa)"
  by (simp add: frames_shape_def)

lemma bitmap_location_eq:
  assumes "frames_shape fa"
  shows "bitmap_location fa i =
    (if i < fa_total fa then Inr (i div 64, push_bit (i mod 64) 1) else Inl Frame_Overflow)"
proof -
  have "i div 64 < 2 ^ 64" if "i < fa_total fa"
    using that assms div_le_dividend [of i 64] unfolding frames_shape_def by linarith
  then show ?thesis by (simp add: bitmap_location_def try_into_def)
qed

lemma is_allocated_eq:
  "frames_shape fa \<Longrightarrow> i < fa_total fa \<Longrightarrow> is_allocated fa i = Inr (alloc_bit fa i)"
  by (simp add: is_allocated_def bitmap_location_eq alloc_bit_def and_mask_eq_bit)

lemma is_reserved_eq:
  "frames_shape fa \<Longrightarrow> i < fa_total fa \<Longrightarrow> is_reserved fa i = Inr (res_bit fa i)"
  by (simp add: is_reserved_def bitmap_location_eq res_bit_def and_mask_eq_bit)

lemma is_unavailable_eq:
  "frames_shape fa \<Longrightarrow> i < fa_total fa \<Longrightarrow> is_unavailable fa i = Inr (alloc_bit fa i \<or> res_bit fa i)"
  by (simp add: is_unavailable_def is_allocated_eq is_reserved_eq)

text \<open>
  The effect of a bitmap write, described by the bits: \<open>fb\<close> is \<open>fa\<close> with the
  allocation bits in \<open>A\<close> set to \<open>v\<close> (or the reservation bits in \<open>A\<close> set).
\<close>

definition sets_alloc :: "frame_allocator \<Rightarrow> nat set \<Rightarrow> bool \<Rightarrow> frame_allocator \<Rightarrow> bool" where
  "sets_alloc fa A v fb =
     (fa_spans fb = fa_spans fa \<and> fa_total fb = fa_total fa \<and> fa_free fb = fa_free fa \<and>
      fa_reserved fb = fa_reserved fa \<and> length (fa_allocated fb) = length (fa_allocated fa) \<and>
      (\<forall>i<fa_total fa. alloc_bit fb i = (if i \<in> A then v else alloc_bit fa i)))"

lemma sets_alloc_refl [simp]: "sets_alloc fa {} v fa"
  by (simp add: sets_alloc_def)

lemma sets_alloc_trans:
  "sets_alloc fa A v fb \<Longrightarrow> sets_alloc fb B v fc \<Longrightarrow> sets_alloc fa (A \<union> B) v fc"
  by (auto simp: sets_alloc_def)

lemma sets_alloc_shape: "sets_alloc fa A v fb \<Longrightarrow> frames_shape fa \<Longrightarrow> frames_shape fb"
  by (auto simp: sets_alloc_def frames_shape_def frame_addrs_def)

lemma sets_alloc_res_bit: "sets_alloc fa A v fb \<Longrightarrow> res_bit fb i = res_bit fa i"
  by (simp add: sets_alloc_def res_bit_def)

lemma set_allocated_spec:
  assumes "frames_shape fa" and "i < fa_total fa"
  shows "\<exists>fb. set_allocated fa i v = Inr fb \<and> sets_alloc fa {i} v fb"
proof -
  let ?w = "fa_allocated fa ! (i div 64)" and ?m = "push_bit (i mod 64) 1 :: 64 word"
  let ?x = "if v then ?w OR ?m else ?w AND NOT ?m"
  let ?fb = "fa\<lparr>fa_allocated := (fa_allocated fa)[i div 64 := ?x]\<rparr>"
  have "set_allocated fa i v = Inr ?fb"
    using assms by (simp add: set_allocated_def bitmap_location_eq)
  moreover have "alloc_bit ?fb j = (if j \<in> {i} then v else alloc_bit fa j)" if "j < fa_total fa" for j
  proof (cases "j div 64 = i div 64")
    case True
    have "bit ?x (j mod 64) = (if j mod 64 = i mod 64 then v else bit ?w (j mod 64))"
      by (auto simp: bit_or_mask bit_clear_mask)
    with True bitmap_location_in_range [OF assms] show ?thesis
      by (auto simp: alloc_bit_def index_eq_iff [of j i])
  next
    case False
    then show ?thesis by (auto simp: alloc_bit_def)
  qed
  ultimately show ?thesis by (auto simp: sets_alloc_def)
qed

lemma set_all_allocated_spec:
  assumes "frames_shape fa" and "\<forall>i \<in> set is. i < fa_total fa"
  shows "\<exists>fb. set_all_allocated fa is v = (Inr (), fb) \<and> sets_alloc fa (set is) v fb"
  using assms
proof (induction "is" arbitrary: fa)
  case Nil
  then show ?case by simp
next
  case (Cons i "is")
  from Cons.prems set_allocated_spec [of fa i v] obtain fb where
    fb: "set_allocated fa i v = Inr fb" "sets_alloc fa {i} v fb" by auto
  have "fa_total fb = fa_total fa" using fb(2) by (simp add: sets_alloc_def)
  with Cons.IH [of fb] Cons.prems sets_alloc_shape [OF fb(2)] obtain fc where
    fc: "set_all_allocated fb is v = (Inr (), fc)" "sets_alloc fb (set is) v fc" by auto
  from sets_alloc_trans [OF fb(2) fc(2)] fb(1) fc(1) show ?case by auto
qed

lemma frames_all_free_eq:
  "frames_shape fa \<Longrightarrow> \<forall>i \<in> set is. i < fa_total fa \<Longrightarrow>
   frames_all_free fa is = Inr (\<forall>i \<in> set is. \<not> alloc_bit fa i \<and> \<not> res_bit fa i)"
  by (induction "is") (auto simp: is_unavailable_eq)


section \<open>Frame numbers and addresses\<close>

lemma set_range_pages:
  assumes "range_ok r"
  shows "a \<in> set (range_pages r) \<longleftrightarrow> BASE_PAGE_SIZE dvd a \<and> range_contains r a"
proof
  assume "a \<in> set (range_pages r)"
  then obtain i where i: "i < range_page_count r" and a: "a = pr_start r + i * BASE_PAGE_SIZE"
    by (auto simp: range_pages_def pages_from_def)
  have "i * BASE_PAGE_SIZE < range_page_count r * BASE_PAGE_SIZE" using i by simp
  with a assms range_ok_end [OF assms] show "BASE_PAGE_SIZE dvd a \<and> range_contains r a"
    by (simp add: range_contains_def range_ok_def)
next
  assume a: "BASE_PAGE_SIZE dvd a \<and> range_contains r a"
  let ?i = "(a - pr_start r) div BASE_PAGE_SIZE"
  have "BASE_PAGE_SIZE dvd a - pr_start r" using a assms by (simp add: range_ok_def dvd_diff_nat)
  then have i: "?i * BASE_PAGE_SIZE = a - pr_start r" by simp
  then have "?i * BASE_PAGE_SIZE < range_page_count r * BASE_PAGE_SIZE"
    using a range_page_count_mult [OF assms] by (simp add: range_contains_def) linarith
  then have "?i < range_page_count r" by simp
  moreover have "a = pr_start r + ?i * BASE_PAGE_SIZE" using a i by (simp add: range_contains_def)
  ultimately show "a \<in> set (range_pages r)"
    unfolding range_pages_def pages_from_def by (auto intro!: image_eqI [of _ _ ?i])
qed

lemma nth_range_pages:
  "i < range_page_count r \<Longrightarrow> range_pages r ! i = pr_start r + i * BASE_PAGE_SIZE"
  by (simp add: range_pages_def)

lemma sorted_range_pages: "sorted_wrt (<) (range_pages r)"
  by (simp add: range_pages_def pages_from_def sorted_wrt_map)

lemma spans_ok_pages_ge:
  "spans_ok k ss \<Longrightarrow> (\<forall>s \<in> set ss. e \<le> pr_start (sp_range s)) \<Longrightarrow> a \<in> set (span_pages ss) \<Longrightarrow> e \<le> a"
proof (induction ss arbitrary: k)
  case (Cons s ss)
  then show ?case
    by (auto simp: set_range_pages range_contains_def intro: order_trans)
qed simp

lemma span_pages_sorted: "spans_ok k ss \<Longrightarrow> sorted_wrt (<) (span_pages ss)"
proof (induction ss arbitrary: k)
  case Nil
  then show ?case by simp
next
  case (Cons s ss)
  have "a < b" if a: "a \<in> set (range_pages (sp_range s))" and b: "b \<in> set (span_pages ss)" for a b
  proof -
    have "a < pr_end (sp_range s)" using a Cons.prems by (simp add: set_range_pages range_contains_def)
    also have "\<dots> \<le> b" using spans_ok_pages_ge [OF _ _ b] Cons.prems by (auto intro: less_imp_le)
    finally show ?thesis .
  qed
  with Cons sorted_range_pages show ?case by (auto simp: sorted_wrt_append)
qed

lemma address_for_index_loop_eq:
  assumes "spans_ok k ss" and "k \<le> i"
  shows "address_for_index_loop ss i =
    (if i - k < length (span_pages ss) then Some (span_pages ss ! (i - k)) else None)"
  using assms
proof (induction ss arbitrary: k)
  case Nil
  then show ?case by simp
next
  case (Cons s ss)
  let ?r = "sp_range s" and ?P = "range_page_count (sp_range s)"
  have r: "range_ok ?r" and k: "sp_first s = k" and ss: "spans_ok (k + ?P) ss" using Cons.prems by auto
  show ?case
  proof (cases "i - k < ?P")
    case True
    then have "(i - k) * BASE_PAGE_SIZE < ?P * BASE_PAGE_SIZE" by simp
    with range_ok_end [OF r] r have "pr_start ?r + (i - k) * BASE_PAGE_SIZE < 2 ^ 64"
      unfolding range_ok_def by linarith
    with True k Cons.prems(2) show ?thesis
      by (simp add: checked_mul_def checked_add_def nth_append nth_range_pages)
  next
    case False
    with Cons.IH [OF ss] Cons.prems(2) k show ?thesis by (auto simp: nth_append)
  qed
qed

lemma index_for_address_loop_iff:
  assumes "spans_ok k ss" and "k + length (span_pages ss) < 2 ^ 64" and "BASE_PAGE_SIZE dvd a"
  shows "index_for_address_loop ss a = Some j \<longleftrightarrow>
    k \<le> j \<and> j - k < length (span_pages ss) \<and> span_pages ss ! (j - k) = a"
  using assms
proof (induction ss arbitrary: k)
  case Nil
  then show ?case by simp
next
  case (Cons s ss)
  let ?r = "sp_range s" and ?P = "range_page_count (sp_range s)"
  have r: "range_ok ?r" and k: "sp_first s = k" and ss: "spans_ok (k + ?P) ss"
    using Cons.prems by auto
  show ?case
  proof (cases "range_contains ?r a")
    case True
    let ?i = "(a - pr_start ?r) div BASE_PAGE_SIZE"
    have "BASE_PAGE_SIZE dvd a - pr_start ?r"
      using Cons.prems(3) r by (simp add: range_ok_def dvd_diff_nat)
    then have i: "?i * BASE_PAGE_SIZE = a - pr_start ?r" by simp
    then have "?i * BASE_PAGE_SIZE < ?P * BASE_PAGE_SIZE"
      using True range_page_count_mult [OF r] by (simp add: range_contains_def) linarith
    then have iP: "?i < ?P" by simp
    have nth: "range_pages ?r ! ?i = a"
      using iP i True by (simp add: nth_range_pages range_contains_def)
    have sorted: "sorted_wrt (<) (span_pages (s # ss))" by (rule span_pages_sorted [OF Cons.prems(1)])
    then have dist: "distinct (span_pages (s # ss))" by (simp only: strict_sorted_iff)
    have "index_for_address_loop (s # ss) a = Some (k + ?i)"
      using True k iP Cons.prems(2) by (simp add: range_contains_def checked_add_def)
    moreover have "span_pages (s # ss) ! ?i = a" using iP nth by (simp add: nth_append)
    moreover have "?i < length (span_pages (s # ss))" using iP by simp
    ultimately show ?thesis
      using dist by (metis add_diff_cancel_left' le_add1 le_add_diff_inverse nth_eq_iff_index_eq option.inject)
  next
    case False
    have "a \<notin> set (range_pages ?r)" using False by (simp add: set_range_pages [OF r])
    then have ne: "i < ?P \<Longrightarrow> range_pages ?r ! i \<noteq> a" for i by (metis length_range_pages nth_mem)
    have "index_for_address_loop (s # ss) a = index_for_address_loop ss a"
      using False by (auto simp: range_contains_def)
    also have "\<dots> = Some j \<longleftrightarrow>
        k + ?P \<le> j \<and> j - (k + ?P) < length (span_pages ss) \<and> span_pages ss ! (j - (k + ?P)) = a"
      using Cons.IH [OF ss] Cons.prems(2,3) by simp
    also have "\<dots> \<longleftrightarrow>
        k \<le> j \<and> j - k < length (span_pages (s # ss)) \<and> span_pages (s # ss) ! (j - k) = a"
    proof (cases "j - k < ?P")
      case True
      then show ?thesis using ne [OF True] by (auto simp: nth_append)
    next
      case False
      then show ?thesis by (auto simp: nth_append)
    qed
    finally show ?thesis .
  qed
qed

lemma frames_shape_sorted: "frames_shape fa \<Longrightarrow> sorted_wrt (<) (frame_addrs fa)"
  by (auto simp: frames_shape_def frame_addrs_def intro: span_pages_sorted)

lemma frames_shape_distinct: "frames_shape fa \<Longrightarrow> distinct (frame_addrs fa)"
  using frames_shape_sorted by (simp add: strict_sorted_iff)

lemma frames_shape_length: "frames_shape fa \<Longrightarrow> length (frame_addrs fa) = fa_total fa"
  by (simp add: frames_shape_def)

lemma frame_addrs_aligned: "frames_shape fa \<Longrightarrow> a \<in> set (frame_addrs fa) \<Longrightarrow> BASE_PAGE_SIZE dvd a"
proof -
  have "BASE_PAGE_SIZE dvd a" if "spans_ok k ss" "a \<in> set (span_pages ss)" for k ss
    using that by (induction ss arbitrary: k) (auto simp: set_range_pages)
  then show "frames_shape fa \<Longrightarrow> a \<in> set (frame_addrs fa) \<Longrightarrow> BASE_PAGE_SIZE dvd a"
    by (auto simp: frames_shape_def frame_addrs_def)
qed

lemma address_for_index_eq:
  "frames_shape fa \<Longrightarrow> address_for_index fa i =
    (if i < fa_total fa then Some (frame_addrs fa ! i) else None)"
  using address_for_index_loop_eq [of 0 "fa_spans fa" i]
  by (simp add: address_for_index_def frames_shape_def frame_addrs_def)

lemma index_for_address_iff:
  assumes "frames_shape fa"
  shows "index_for_address fa a = Some i \<longleftrightarrow> i < fa_total fa \<and> frame_addrs fa ! i = a"
proof (cases "BASE_PAGE_SIZE dvd a")
  case True
  with assms index_for_address_loop_iff [of 0 "fa_spans fa" a i] show ?thesis
    by (simp add: index_for_address_def frames_shape_def frame_addrs_def)
next
  case False
  with assms frame_addrs_aligned [OF assms, of a] show ?thesis
    by (auto simp: index_for_address_def frames_shape_length mod_eq_0_iff_dvd)
qed

lemma index_for_address_None:
  assumes "frames_shape fa"
  shows "index_for_address fa a = None \<longleftrightarrow> a \<notin> set (frame_addrs fa)"
  using index_for_address_iff [OF assms, of a] frames_shape_length [OF assms]
  by (metis in_set_conv_nth not_Some_eq)


section \<open>Index-level effects\<close>

abbreviation used_indices :: "frame_allocator \<Rightarrow> nat set" where
  "used_indices fa \<equiv> {i. i < fa_total fa \<and> alloc_bit fa i}"

abbreviation reserved_indices :: "frame_allocator \<Rightarrow> nat set" where
  "reserved_indices fa \<equiv> {i. i < fa_total fa \<and> res_bit fa i}"

lemma finite_free_indices [simp]: "finite (free_indices fa)"
  by (simp add: free_indices_def)

lemma alloc_bit_free_update [simp]:
  "alloc_bit (fa\<lparr>fa_free := n\<rparr>) = alloc_bit fa" "res_bit (fa\<lparr>fa_free := n\<rparr>) = res_bit fa"
  "free_indices (fa\<lparr>fa_free := n\<rparr>) = free_indices fa" "frames_shape (fa\<lparr>fa_free := n\<rparr>) = frames_shape fa"
  "frame_addrs (fa\<lparr>fa_free := n\<rparr>) = frame_addrs fa"
  by (auto simp: alloc_bit_def res_bit_def free_indices_def frames_shape_def frame_addrs_def fun_eq_iff)

text \<open>
  One step between well-formed allocators over the same spans, described by its
  effect on the three index sets.
\<close>

definition frames_step ::
    "frame_allocator \<Rightarrow> frame_allocator \<Rightarrow> nat set \<Rightarrow> nat set \<Rightarrow> nat set \<Rightarrow> bool" where
  "frames_step fa fb F U R = (frames_ok fb \<and> fa_spans fb = fa_spans fa \<and> fa_total fb = fa_total fa \<and>
     free_indices fb = F \<and> used_indices fb = U \<and> reserved_indices fb = R)"

lemma alloc_effect:
  assumes ok: "frames_ok fa" and A: "A \<subseteq> free_indices fa" and s: "sets_alloc fa A True fb"
  shows "frames_step fa (fb\<lparr>fa_free := fa_free fa - card A\<rparr>)
    (free_indices fa - A) (used_indices fa \<union> A) (reserved_indices fa)"
proof -
  have shape: "frames_shape fb" using sets_alloc_shape [OF s] ok by (simp add: frames_ok_def)
  have bits: "\<And>i. i < fa_total fa \<Longrightarrow> alloc_bit fb i = (i \<in> A \<or> alloc_bit fa i)"
    "\<And>i. res_bit fb i = res_bit fa i" "fa_total fb = fa_total fa" "fa_spans fb = fa_spans fa"
    using s by (auto simp: sets_alloc_def res_bit_def)
  have sub: "\<And>i. i \<in> A \<Longrightarrow> i < fa_total fa \<and> \<not> alloc_bit fa i \<and> \<not> res_bit fa i"
    using A by (auto simp: free_indices_def)
  have free: "free_indices fb = free_indices fa - A"
    using bits by (auto simp: free_indices_def)
  moreover have "card (free_indices fa - A) = fa_free fa - card A"
    using ok A by (simp add: frames_ok_def card_Diff_subset finite_subset)
  moreover have "\<forall>i<fa_total fa. \<not> (alloc_bit fb i \<and> res_bit fb i)"
    using ok sub bits by (auto simp: frames_ok_def)
  ultimately show ?thesis
    using shape bits sub by (auto simp: frames_step_def frames_ok_def)
qed

lemma release_effect:
  assumes ok: "frames_ok fa" and A: "A \<subseteq> used_indices fa" and s: "sets_alloc fa A False fb"
  shows "frames_step fa (fb\<lparr>fa_free := fa_free fa + card A\<rparr>)
    (free_indices fa \<union> A) (used_indices fa - A) (reserved_indices fa)"
proof -
  have shape: "frames_shape fb" using sets_alloc_shape [OF s] ok by (simp add: frames_ok_def)
  have bits: "\<And>i. i < fa_total fa \<Longrightarrow> alloc_bit fb i = (i \<notin> A \<and> alloc_bit fa i)"
    "\<And>i. res_bit fb i = res_bit fa i" "fa_total fb = fa_total fa" "fa_spans fb = fa_spans fa"
    using s by (auto simp: sets_alloc_def res_bit_def)
  have sub: "\<And>i. i \<in> A \<Longrightarrow> i < fa_total fa \<and> alloc_bit fa i \<and> \<not> res_bit fa i"
    using A ok by (auto simp: frames_ok_def)
  have free: "free_indices fb = free_indices fa \<union> A"
    using bits sub by (auto simp: free_indices_def)
  moreover have "card (free_indices fa \<union> A) = fa_free fa + card A"
  proof -
    have "finite A" using A finite_subset [of A "{..<fa_total fa}"] by auto
    moreover have "free_indices fa \<inter> A = {}" using sub by (auto simp: free_indices_def)
    ultimately show ?thesis using ok by (simp add: card_Un_disjoint frames_ok_def)
  qed
  moreover have "\<forall>i<fa_total fa. \<not> (alloc_bit fb i \<and> res_bit fb i)"
    using ok sub bits by (auto simp: frames_ok_def)
  ultimately show ?thesis
    using shape bits sub by (auto simp: frames_step_def frames_ok_def)
qed

lemma mark_reserved_spec:
  assumes ok: "frames_ok fa" and i: "i \<in> free_indices fa"
  shows "\<exists>fb. mark_reserved fa i = Inr fb \<and>
    frames_step fa (fb\<lparr>fa_free := fa_free fa - 1\<rparr>)
      (free_indices fa - {i}) (used_indices fa) (reserved_indices fa \<union> {i})"
proof -
  have shape: "frames_shape fa" and lt: "i < fa_total fa" using ok i by (auto simp: frames_ok_def free_indices_def)
  let ?w = "fa_reserved fa ! (i div 64)" and ?m = "push_bit (i mod 64) 1 :: 64 word"
  let ?fb = "fa\<lparr>fa_reserved := (fa_reserved fa)[i div 64 := ?w OR ?m]\<rparr>"
  have "mark_reserved fa i = Inr ?fb"
    using shape lt by (simp add: mark_reserved_def bitmap_location_eq)
  moreover have rb: "res_bit ?fb j = (j = i \<or> res_bit fa j)" if "j < fa_total fa" for j
  proof (cases "j div 64 = i div 64")
    case True
    with bitmap_location_in_range [OF shape lt] show ?thesis
      by (auto simp: res_bit_def bit_or_mask index_eq_iff [of j i])
  next
    case False
    then show ?thesis by (auto simp: res_bit_def)
  qed
  have ab: "alloc_bit ?fb j = alloc_bit fa j" for j by (simp add: alloc_bit_def)
  have shapeb: "frames_shape ?fb" using shape by (simp add: frames_shape_def frame_addrs_def)
  have free: "free_indices ?fb = free_indices fa - {i}"
    using rb ab by (auto simp: free_indices_def)
  have "card (free_indices fa - {i}) = fa_free fa - 1"
    using ok i by (simp add: frames_ok_def)
  moreover have "\<forall>j<fa_total fa. \<not> (alloc_bit ?fb j \<and> res_bit ?fb j)"
    using ok i rb ab by (auto simp: frames_ok_def free_indices_def)
  ultimately have "frames_step fa (?fb\<lparr>fa_free := fa_free fa - 1\<rparr>)
      (free_indices fa - {i}) (used_indices fa) (reserved_indices fa \<union> {i})"
    using shapeb free rb ab lt by (auto simp: frames_step_def frames_ok_def)
  with \<open>mark_reserved fa i = Inr ?fb\<close> show ?thesis by blast
qed


section \<open>Operations on indices\<close>

lemma frame_allocate_loop_skip:
  "frames_shape fa \<Longrightarrow> \<forall>i \<in> set xs. i < fa_total fa \<and> i \<notin> free_indices fa \<Longrightarrow>
   frame_allocate_loop fa (xs @ ys) = frame_allocate_loop fa ys"
  by (induction xs) (auto simp: is_unavailable_eq free_indices_def)

lemma frame_allocate_index:
  assumes ok: "frames_ok fa"
  shows "free_indices fa = {} \<Longrightarrow> frame_allocate fa = (Inl Frame_Exhausted, fa)"
    and "i \<in> free_indices fa \<Longrightarrow> (\<forall>j \<in> free_indices fa. i \<le> j) \<Longrightarrow>
      \<exists>fb. frame_allocate fa = (Inr (frame_addrs fa ! i), fb) \<and>
        frames_step fa fb (free_indices fa - {i}) (used_indices fa \<union> {i}) (reserved_indices fa)"
proof -
  show "frame_allocate fa = (Inl Frame_Exhausted, fa)" if "free_indices fa = {}"
    using that ok by (simp add: frame_allocate_def frames_ok_def)
  show "\<exists>fb. frame_allocate fa = (Inr (frame_addrs fa ! i), fb) \<and>
      frames_step fa fb (free_indices fa - {i}) (used_indices fa \<union> {i}) (reserved_indices fa)"
    if i: "i \<in> free_indices fa" and least: "\<forall>j \<in> free_indices fa. i \<le> j"
  proof -
    have shape: "frames_shape fa" and lt: "i < fa_total fa" and avail: "\<not> alloc_bit fa i" "\<not> res_bit fa i"
      using ok i by (auto simp: frames_ok_def free_indices_def)
    have "fa_free fa \<noteq> 0" using ok i by (auto simp: frames_ok_def)
    moreover have "[0..<fa_total fa] = [0..<i] @ i # [Suc i..<fa_total fa]"
      using lt by (metis upt_conv_Cons upt_add_eq_append zero_le le_add_diff_inverse less_imp_le)
    ultimately have "frame_allocate fa = frame_allocate_loop fa (i # [Suc i..<fa_total fa])"
      using frame_allocate_loop_skip [OF shape, of "[0..<i]"] least lt
      by (fastforce simp: frame_allocate_def)
    moreover obtain fb where fb: "set_allocated fa i True = Inr fb" "sets_alloc fa {i} True fb"
      using set_allocated_spec [OF shape lt] by blast
    moreover have "address_for_index (fb\<lparr>fa_free := fa_free fb - 1\<rparr>) i = Some (frame_addrs fa ! i)"
      using sets_alloc_shape [OF fb(2) shape] lt fb(2) address_for_index_eq [of fb i]
      by (simp add: address_for_index_def sets_alloc_def frame_addrs_def)
    moreover have "fa_free fb = fa_free fa" using fb(2) by (simp add: sets_alloc_def)
    ultimately have "frame_allocate fa = (Inr (frame_addrs fa ! i), fb\<lparr>fa_free := fa_free fa - 1\<rparr>)"
      using avail by (simp add: is_unavailable_eq [OF shape lt] Let_def)
    with alloc_effect [OF ok _ fb(2)] i show ?thesis by auto
  qed
qed

lemma check_freeable_eq:
  assumes ok: "frames_ok fa"
  shows "check_freeable fa a =
    (case index_for_address fa a of
       None \<Rightarrow> Inl Frame_InvalidFrame
     | Some i \<Rightarrow> if res_bit fa i then Inl Frame_InvalidFrame
                else if \<not> alloc_bit fa i then Inl Frame_DoubleFree else Inr i)"
proof (cases "index_for_address fa a")
  case None
  then show ?thesis by (simp add: check_freeable_def)
next
  case (Some i)
  have shape: "frames_shape fa" using ok by (simp add: frames_ok_def)
  with Some have "i < fa_total fa" by (simp add: index_for_address_iff)
  with Some shape show ?thesis by (simp add: check_freeable_def is_reserved_eq is_allocated_eq)
qed

lemma frames_ok_free_bound: "frames_ok fa \<Longrightarrow> A \<subseteq> used_indices fa \<Longrightarrow> fa_free fa + card A \<le> fa_total fa"
proof -
  assume ok: "frames_ok fa" and A: "A \<subseteq> used_indices fa"
  then have fin: "finite A" using finite_subset [of A "{..<fa_total fa}"] by auto
  have "free_indices fa \<inter> A = {}" using A by (auto simp: free_indices_def)
  then have "fa_free fa + card A = card (free_indices fa \<union> A)"
    using ok fin by (simp add: card_Un_disjoint frames_ok_def)
  also have "\<dots> \<le> card {..<fa_total fa}"
    using A by (intro card_mono) (auto simp: free_indices_def)
  finally show ?thesis by simp
qed

lemma frames_ok_total_bound: "frames_ok fa \<Longrightarrow> fa_total fa < 2 ^ 64"
  unfolding frames_ok_def frames_shape_def by linarith

lemma frame_free_index:
  assumes ok: "frames_ok fa"
  shows "check_freeable fa a = Inl e \<Longrightarrow> frame_free fa a = (Inl e, fa)"
    and "check_freeable fa a = Inr i \<Longrightarrow> \<exists>fb. frame_free fa a = (Inr (), fb) \<and>
      frames_step fa fb (free_indices fa \<union> {i}) (used_indices fa - {i}) (reserved_indices fa)"
proof -
  show "frame_free fa a = (Inl e, fa)" if "check_freeable fa a = Inl e"
    using that by (simp add: frame_free_def)
  show "\<exists>fb. frame_free fa a = (Inr (), fb) \<and>
      frames_step fa fb (free_indices fa \<union> {i}) (used_indices fa - {i}) (reserved_indices fa)"
    if c: "check_freeable fa a = Inr i"
  proof -
    have shape: "frames_shape fa" using ok by (simp add: frames_ok_def)
    from c have i: "index_for_address fa a = Some i" "alloc_bit fa i"
      by (auto simp: check_freeable_eq [OF ok] split: option.splits if_splits)
    then have lt: "i < fa_total fa" using index_for_address_iff [OF shape] by blast
    with i(2) have used: "{i} \<subseteq> used_indices fa" by simp
    obtain fb where fb: "set_allocated fa i False = Inr fb" "sets_alloc fa {i} False fb"
      using set_allocated_spec [OF shape lt] by blast
    have "fa_free fa + 1 < 2 ^ 64"
      using frames_ok_free_bound [OF ok used] frames_ok_total_bound [OF ok] by simp
    moreover have "fa_free fb = fa_free fa" using fb(2) by (simp add: sets_alloc_def)
    ultimately have "frame_free fa a = (Inr (), fb\<lparr>fa_free := fa_free fa + 1\<rparr>)"
      using c fb(1) by (simp add: frame_free_def checked_add_def)
    with release_effect [OF ok used fb(2)] show ?thesis by auto
  qed
qed

end
