(* ===== verification/Frame_Pool.thy ===== *)
theory Frame_Pool
  imports Frames_Correct
begin

text \<open>
  The frame allocator as its clients see it: the sets of free, allocated and
  reserved frame addresses, and contiguous allocation as an exact first fit over
  them.
\<close>

section \<open>Spans\<close>

lemma spans_ok_index:
  assumes "spans_ok k ss" and "s \<in> set ss" and "j < range_page_count (sp_range s)"
  shows "k \<le> sp_first s \<and> sp_first s - k + j < length (span_pages ss) \<and>
    span_pages ss ! (sp_first s - k + j) = pr_start (sp_range s) + j * BASE_PAGE_SIZE"
  using assms
proof (induction ss arbitrary: k)
  case Nil
  then show ?case by simp
next
  case (Cons q ss)
  show ?case
  proof (cases "s = q")
    case True
    with Cons.prems show ?thesis by (simp add: nth_append nth_range_pages)
  next
    case False
    with Cons.prems Cons.IH [of "k + range_page_count (sp_range q)"] have
      IH: "k + range_page_count (sp_range q) \<le> sp_first s"
      "sp_first s - (k + range_page_count (sp_range q)) + j < length (span_pages ss)"
      "span_pages ss ! (sp_first s - (k + range_page_count (sp_range q)) + j) =
        pr_start (sp_range s) + j * BASE_PAGE_SIZE" by auto
    define m where "m = sp_first s - (k + range_page_count (sp_range q))"
    from IH(1) have "sp_first s - k + j = range_page_count (sp_range q) + (m + j)" by (simp add: m_def)
    moreover have "m + j < length (span_pages ss)"
      "span_pages ss ! (m + j) = pr_start (sp_range s) + j * BASE_PAGE_SIZE"
      using IH(2,3) by (simp_all only: m_def)
    ultimately show ?thesis using IH(1) by (simp add: nth_append del: add_diff_assoc2 Nat.add_diff_assoc2)
  qed
qed

lemma spans_ok_separated:
  "spans_ok k ss \<Longrightarrow> s \<in> set ss \<Longrightarrow> q \<in> set ss \<Longrightarrow>
   s = q \<or> pr_end (sp_range s) < pr_start (sp_range q) \<or> pr_end (sp_range q) < pr_start (sp_range s)"
  by (induction ss arbitrary: k) auto

lemma spans_ok_range: "spans_ok k ss \<Longrightarrow> s \<in> set ss \<Longrightarrow> range_ok (sp_range s)"
  by (induction ss arbitrary: k) auto

lemma set_span_pages: "set (span_pages ss) = (\<Union>s \<in> set ss. set (range_pages (sp_range s)))"
  by (induction ss) auto

lemma page_in_range:
  assumes "range_ok r" and "a \<in> set (range_pages r)"
  shows "\<exists>i<range_page_count r. a = pr_start r + i * BASE_PAGE_SIZE"
  using assms(2) length_range_pages [of r] by (metis in_set_conv_nth nth_range_pages)

text \<open>Spans never touch, so a run of consecutive frames lies inside one span.\<close>

lemma run_in_one_span:
  assumes ok: "spans_ok k ss" and "0 < n" and "\<forall>i<n. a + i * BASE_PAGE_SIZE \<in> set (span_pages ss)"
  shows "\<exists>s \<in> set ss. \<exists>j. a = pr_start (sp_range s) + j * BASE_PAGE_SIZE \<and> j + n \<le> range_page_count (sp_range s)"
  using assms(2,3)
proof (induction n rule: nat_induct_non_zero)
  case 1
  then obtain s where s: "s \<in> set ss" "a \<in> set (range_pages (sp_range s))" by (auto simp: set_span_pages)
  with page_in_range [OF spans_ok_range [OF ok s(1)] s(2)] show ?case by (auto simp: Suc_le_eq)
next
  case (Suc n)
  then obtain s j where s: "s \<in> set ss" and a: "a = pr_start (sp_range s) + j * BASE_PAGE_SIZE"
    and le: "j + n \<le> range_page_count (sp_range s)" by auto
  from Suc.prems have "a + n * BASE_PAGE_SIZE \<in> set (span_pages ss)" by blast
  then obtain q where q: "q \<in> set ss" and qa: "a + n * BASE_PAGE_SIZE \<in> set (range_pages (sp_range q))"
    by (auto simp: set_span_pages)
  have rs: "range_ok (sp_range s)" and rq: "range_ok (sp_range q)" using spans_ok_range [OF ok] s q by auto
  have inq: "pr_start (sp_range q) \<le> a + n * BASE_PAGE_SIZE" "a + n * BASE_PAGE_SIZE < pr_end (sp_range q)"
    using qa set_range_pages [OF rq] by (auto simp: range_contains_def)
  have "j + n \<noteq> range_page_count (sp_range s)"
  proof
    assume "j + n = range_page_count (sp_range s)"
    then have "a + n * BASE_PAGE_SIZE = pr_end (sp_range s)"
      using range_ok_end [OF rs] a by (metis add.assoc add_mult_distrib)
    with inq spans_ok_separated [OF ok s q] rs show False by (auto simp: range_ok_def)
  qed
  with le have "j + Suc n \<le> range_page_count (sp_range s)" by simp
  with s a show ?case by blast
qed

section \<open>Address sets\<close>

definition free_addrs :: "frame_allocator \<Rightarrow> nat set" where
  "free_addrs fa = (!) (frame_addrs fa) ` free_indices fa"

definition used_addrs :: "frame_allocator \<Rightarrow> nat set" where
  "used_addrs fa = (!) (frame_addrs fa) ` used_indices fa"

definition reserved_addrs :: "frame_allocator \<Rightarrow> nat set" where
  "reserved_addrs fa = (!) (frame_addrs fa) ` reserved_indices fa"

text \<open>The client's view of one step: the address sets afterwards, over the same frames.\<close>

definition pool_step ::
    "frame_allocator \<Rightarrow> frame_allocator \<Rightarrow> nat set \<Rightarrow> nat set \<Rightarrow> nat set \<Rightarrow> bool" where
  "pool_step fa fb F U R = (frames_ok fb \<and> fa_spans fb = fa_spans fa \<and>
     free_addrs fb = F \<and> used_addrs fb = U \<and> reserved_addrs fb = R)"

lemma frame_addrs_inj: "frames_shape fa \<Longrightarrow> inj_on ((!) (frame_addrs fa)) {..<fa_total fa}"
  by (intro inj_onI) (metis frames_shape_distinct frames_shape_length lessThan_iff nth_eq_iff_index_eq)

lemma frames_ok_shape: "frames_ok fa \<Longrightarrow> frames_shape fa"
  by (simp add: frames_ok_def)

lemma indices_bound:
  "free_indices fa \<subseteq> {..<fa_total fa}" "used_indices fa \<subseteq> {..<fa_total fa}"
  "reserved_indices fa \<subseteq> {..<fa_total fa}"
  by (auto simp: free_indices_def)

lemma indices_disjoint:
  assumes "frames_ok fa"
  shows "free_indices fa \<inter> used_indices fa = {}" "free_indices fa \<inter> reserved_indices fa = {}"
    "used_indices fa \<inter> reserved_indices fa = {}"
  using assms by (auto simp: free_indices_def frames_ok_def)

lemma addr_mem_iff:
  assumes "frames_ok fa" and "i < fa_total fa"
  shows "frame_addrs fa ! i \<in> free_addrs fa \<longleftrightarrow> i \<in> free_indices fa"
    "frame_addrs fa ! i \<in> used_addrs fa \<longleftrightarrow> i \<in> used_indices fa"
    "frame_addrs fa ! i \<in> reserved_addrs fa \<longleftrightarrow> i \<in> reserved_indices fa"
  unfolding free_addrs_def used_addrs_def reserved_addrs_def
  by (rule inj_on_image_mem_iff [OF frame_addrs_inj [OF frames_ok_shape [OF assms(1)]]];
      use assms(2) indices_bound in simp)+

lemma frames_step_pool:
  assumes ok: "frames_ok fa" and st: "frames_step fa fb F U R"
  shows "pool_step fa fb ((!) (frame_addrs fa) ` F) ((!) (frame_addrs fa) ` U) ((!) (frame_addrs fa) ` R)"
proof -
  from st have "frame_addrs fb = frame_addrs fa" by (simp add: frames_step_def frame_addrs_def)
  with st show ?thesis
    unfolding frames_step_def pool_step_def free_addrs_def used_addrs_def reserved_addrs_def by metis
qed

lemma pool_step_addrs: "pool_step fa fb F U R \<Longrightarrow> frame_addrs fb = frame_addrs fa"
  by (simp add: pool_step_def frame_addrs_def)

lemma pool_step_refl: "frames_ok fa \<Longrightarrow> pool_step fa fa (free_addrs fa) (used_addrs fa) (reserved_addrs fa)"
  by (simp add: pool_step_def)

lemma pool_step_trans: "pool_step fa fb F U R \<Longrightarrow> pool_step fb fc F' U' R' \<Longrightarrow> pool_step fa fc F' U' R'"
  by (simp add: pool_step_def)

lemma image_diff_indices:
  assumes "frames_ok fa" and "A \<subseteq> {..<fa_total fa}" and "B \<subseteq> {..<fa_total fa}"
  shows "(!) (frame_addrs fa) ` (A - B) = (!) (frame_addrs fa) ` A - (!) (frame_addrs fa) ` B"
  by (rule inj_on_image_set_diff [OF frame_addrs_inj [OF frames_ok_shape [OF assms(1)]] _ assms(3)])
    (use assms(2) in auto)

lemma alloc_step_pool:
  assumes "frames_ok fa" and "A \<subseteq> free_indices fa"
    and "frames_step fa fb (free_indices fa - A) (used_indices fa \<union> A) (reserved_indices fa)"
  shows "pool_step fa fb (free_addrs fa - (!) (frame_addrs fa) ` A)
    (used_addrs fa \<union> (!) (frame_addrs fa) ` A) (reserved_addrs fa)"
proof -
  have "free_indices fa \<subseteq> {..<fa_total fa}" by (auto simp: free_indices_def)
  then show ?thesis
    using frames_step_pool [OF assms(1,3)] image_diff_indices [OF assms(1), of "free_indices fa" A] assms(2)
    by (simp add: free_addrs_def used_addrs_def reserved_addrs_def image_Un subset_trans)
qed

lemma release_step_pool:
  assumes "frames_ok fa" and "A \<subseteq> used_indices fa"
    and "frames_step fa fb (free_indices fa \<union> A) (used_indices fa - A) (reserved_indices fa)"
  shows "pool_step fa fb (free_addrs fa \<union> (!) (frame_addrs fa) ` A)
    (used_addrs fa - (!) (frame_addrs fa) ` A) (reserved_addrs fa)"
proof -
  have "used_indices fa \<subseteq> {..<fa_total fa}" by auto
  moreover from this assms(2) have "A \<subseteq> {..<fa_total fa}" by (rule subset_trans [rotated])
  ultimately show ?thesis
    using frames_step_pool [OF assms(1,3)] image_diff_indices [OF assms(1), of "used_indices fa" A]
    by (simp add: free_addrs_def used_addrs_def reserved_addrs_def image_Un)
qed

lemma nth_image_lessThan: "(!) xs ` {..<length xs} = set xs"
  by (metis atLeast_upt list.set_map map_nth)

text \<open>The three sets partition the frames, and the counter counts the free ones.\<close>

lemma addrs_partition:
  assumes ok: "frames_ok fa"
  shows "free_addrs fa \<union> used_addrs fa \<union> reserved_addrs fa = set (frame_addrs fa)"
    and "free_addrs fa \<inter> used_addrs fa = {}" and "free_addrs fa \<inter> reserved_addrs fa = {}"
    and "used_addrs fa \<inter> reserved_addrs fa = {}" and "card (free_addrs fa) = fa_free fa"
    and "finite (free_addrs fa)"
proof -
  have len: "length (frame_addrs fa) = fa_total fa" by (rule frames_shape_length [OF frames_ok_shape [OF ok]])
  have inj: "inj_on ((!) (frame_addrs fa)) {..<fa_total fa}" by (rule frame_addrs_inj [OF frames_ok_shape [OF ok]])
  have "free_indices fa \<union> used_indices fa \<union> reserved_indices fa = {..<length (frame_addrs fa)}"
    by (auto simp: free_indices_def len)
  then show "free_addrs fa \<union> used_addrs fa \<union> reserved_addrs fa = set (frame_addrs fa)"
    unfolding free_addrs_def used_addrs_def reserved_addrs_def image_Un [symmetric]
    by (simp only: nth_image_lessThan)
  have disj: "(!) (frame_addrs fa) ` A \<inter> (!) (frame_addrs fa) ` B = {}"
    if "A \<subseteq> {..<fa_total fa}" "B \<subseteq> {..<fa_total fa}" "A \<inter> B = {}" for A B
    using inj_on_image_Int [OF inj that(1,2)] that(3) by simp
  show "free_addrs fa \<inter> used_addrs fa = {}" "free_addrs fa \<inter> reserved_addrs fa = {}"
    "used_addrs fa \<inter> reserved_addrs fa = {}"
    unfolding free_addrs_def used_addrs_def reserved_addrs_def
    by (rule disj [OF indices_bound(1,2) indices_disjoint(1) [OF ok]])
      (rule disj [OF indices_bound(1,3) indices_disjoint(2) [OF ok]],
       rule disj [OF indices_bound(2,3) indices_disjoint(3) [OF ok]])
  have "inj_on ((!) (frame_addrs fa)) (free_indices fa)"
    by (rule inj_on_subset [OF inj]) (auto simp: free_indices_def)
  then show "card (free_addrs fa) = fa_free fa"
    using ok by (simp add: free_addrs_def card_image frames_ok_def)
  show "finite (free_addrs fa)" by (simp add: free_addrs_def)
qed

section \<open>Contiguous allocation\<close>

definition run_candidate :: "frame_allocator \<Rightarrow> nat \<Rightarrow> nat \<Rightarrow> frame_span \<Rightarrow> nat \<Rightarrow> bool" where
  "run_candidate fa n align s j =
     ((pr_start (sp_range s) + j * BASE_PAGE_SIZE) mod (align * BASE_PAGE_SIZE) = 0 \<and>
      {sp_first s + j..<sp_first s + j + n} \<subseteq> free_indices fa)"

text \<open>What taking the run of \<open>n\<close> frames from address \<open>a\<close> returns and leaves behind.\<close>

definition run_taken ::
    "frame_allocator \<Rightarrow> nat \<Rightarrow> nat \<Rightarrow> (frame_error, physical_range) result \<times> frame_allocator \<Rightarrow> bool" where
  "run_taken fa n a out = (\<exists>rng fb. out = (Inr rng, fb) \<and> range_from_pages a n = Inr rng \<and>
     pool_step fa fb (free_addrs fa - set (range_pages rng)) (used_addrs fa \<union> set (range_pages rng))
       (reserved_addrs fa))"

lemma span_facts:
  assumes ok: "frames_ok fa" and s: "s \<in> set (fa_spans fa)" and j: "j < range_page_count (sp_range s)"
  shows "sp_first s + j < fa_total fa"
    and "frame_addrs fa ! (sp_first s + j) = pr_start (sp_range s) + j * BASE_PAGE_SIZE"
  using spans_ok_index [OF _ s j, of 0] frames_ok_shape [OF ok]
  by (simp_all add: frames_shape_def frame_addrs_def)

lemma span_run_from_pages:
  assumes r: "range_ok r" and "0 < n" and "j + n \<le> range_page_count r"
  shows "\<exists>rng. range_from_pages (pr_start r + j * BASE_PAGE_SIZE) n = Inr rng \<and> range_ok rng \<and>
    pr_start rng = pr_start r + j * BASE_PAGE_SIZE \<and> range_page_count rng = n"
proof -
  have "(j + n) * BASE_PAGE_SIZE \<le> range_page_count r * BASE_PAGE_SIZE"
    using assms(3) by (rule mult_le_mono1)
  then have le: "pr_start r + j * BASE_PAGE_SIZE + n * BASE_PAGE_SIZE \<le> pr_end r"
    using range_ok_end [OF r] by (simp add: add_mult_distrib)
  moreover have "BASE_PAGE_SIZE dvd pr_start r + j * BASE_PAGE_SIZE" using r by (simp add: range_ok_def)
  moreover have "pr_end r < 2 ^ 64" using r by (simp add: range_ok_def)
  ultimately obtain rng where rng: "range_from_pages (pr_start r + j * BASE_PAGE_SIZE) n = Inr rng"
    using range_from_pages_Inr_iff [of "pr_start r + j * BASE_PAGE_SIZE" n] assms(2) by fastforce
  then show ?thesis
    using range_from_pages_ok [OF rng]
      range_from_pages_Inr_iff [of "pr_start r + j * BASE_PAGE_SIZE" n rng] by auto
qed

lemma run_image:
  assumes ok: "frames_ok fa" and s: "s \<in> set (fa_spans fa)" and j: "j + n \<le> range_page_count (sp_range s)"
    and start: "pr_start rng = pr_start (sp_range s) + j * BASE_PAGE_SIZE" and n: "range_page_count rng = n"
  shows "(!) (frame_addrs fa) ` {sp_first s + j..<sp_first s + j + n} = set (range_pages rng)"
proof -
  have "frame_addrs fa ! (sp_first s + j + i) = range_pages rng ! i" if "i < n" for i
    using span_facts(2) [OF ok s, of "j + i"] j that start n
    by (simp add: nth_range_pages add.assoc add_mult_distrib)
  then have "(\<lambda>i. frame_addrs fa ! (sp_first s + j + i)) ` {..<n} = (\<lambda>i. range_pages rng ! i) ` {..<n}"
    by (intro image_cong) auto
  moreover have "{sp_first s + j..<sp_first s + j + n} = (\<lambda>i. sp_first s + j + i) ` {..<n}"
    by (simp add: lessThan_atLeast0 add.commute)
  ultimately show ?thesis
    using nth_image_lessThan [of "range_pages rng"] n by (simp add: image_image)
qed

lemma try_contiguous_at_spec:
  assumes ok: "frames_ok fa" and s: "s \<in> set (fa_spans fa)" and n: "0 < n"
    and j: "j + n \<le> range_page_count (sp_range s)" and al: "align * BASE_PAGE_SIZE < 2 ^ 64"
  shows "if run_candidate fa n align s j
     then \<exists>out. try_contiguous_at fa s n align j = Some out \<and>
       run_taken fa n (pr_start (sp_range s) + j * BASE_PAGE_SIZE) out
     else try_contiguous_at fa s n align j = None"
proof -
  let ?r = "sp_range s" and ?a = "pr_start (sp_range s) + j * BASE_PAGE_SIZE" and ?f = "sp_first s + j"
  have shape: "frames_shape fa" using ok by (rule frames_ok_shape)
  have r: "range_ok ?r" using spans_ok_range s shape by (auto simp: frames_shape_def)
  obtain rng where rng: "range_from_pages ?a n = Inr rng" "pr_start rng = ?a" "range_page_count rng = n"
    "range_ok rng" using span_run_from_pages [OF r n j] by blast
  have a: "?a < 2 ^ 64" using rng(2,4) unfolding range_ok_def by linarith
  have lt: "\<forall>i \<in> set [?f..<?f + n]. i < fa_total fa"
  proof
    fix i assume "i \<in> set [?f..<?f + n]"
    then show "i < fa_total fa" using span_facts(1) [OF ok s, of "i - sp_first s"] j by auto
  qed
  have last: "?f + n \<le> fa_total fa" using lt n by (metis Suc_pred add_Suc_right atLeastLessThan_iff
    atLeastLessThan_upt le_add1 lessI Suc_leI)
  then have bnd: "?f + n < 2 ^ 64" using shape unfolding frames_shape_def by linarith
  have free: "frames_all_free fa [?f..<?f + n] = Inr ({?f..<?f + n} \<subseteq> free_indices fa)"
    using frames_all_free_eq [OF shape lt] lt by (auto simp: free_indices_def)
  have head: "checked_mul 64 j BASE_PAGE_SIZE = Some (j * BASE_PAGE_SIZE)"
    "checked_add 64 (pr_start ?r) (j * BASE_PAGE_SIZE) = Some ?a"
    "checked_mul 64 align BASE_PAGE_SIZE = Some (align * BASE_PAGE_SIZE)"
    "checked_add 64 (sp_first s) j = Some ?f" "checked_add 64 ?f n = Some (?f + n)"
    using a al bnd by (auto simp: checked_mul_def checked_add_def)
  show ?thesis
  proof (cases "run_candidate fa n align s j")
    case False
    then show ?thesis
      by (auto simp: run_candidate_def try_contiguous_at_def head free)
  next
    case True
    let ?I = "{?f..<?f + n}"
    have sub: "?I \<subseteq> free_indices fa" using True by (simp add: run_candidate_def)
    have le: "n \<le> fa_free fa" using card_mono [OF _ sub] ok by (simp add: frames_ok_def)
    obtain fb where fb: "set_all_allocated fa [?f..<?f + n] True = (Inr (), fb)" "sets_alloc fa ?I True fb"
      using set_all_allocated_spec [OF shape lt, of True] by auto
    have "try_contiguous_at fa s n align j = Some (Inr rng, fb\<lparr>fa_free := fa_free fa - n\<rparr>)"
      using True sub le by (simp add: run_candidate_def try_contiguous_at_def head free checked_sub_def fb(1) rng(1))
    moreover have "pool_step fa (fb\<lparr>fa_free := fa_free fa - n\<rparr>)
        (free_addrs fa - set (range_pages rng)) (used_addrs fa \<union> set (range_pages rng)) (reserved_addrs fa)"
      using alloc_step_pool [OF ok sub] alloc_effect [OF ok sub fb(2)] run_image [OF ok s j rng(2,3)] by simp
    ultimately show ?thesis using True rng(1) by (auto simp: run_taken_def)
  qed
qed

lemma contiguous_in_span_spec:
  assumes ok: "frames_ok fa" and s: "s \<in> set (fa_spans fa)" and n: "0 < n"
    and al: "align * BASE_PAGE_SIZE < 2 ^ 64"
    and js: "\<forall>j \<in> set js. j + n \<le> range_page_count (sp_range s)" and "sorted js"
  shows "case contiguous_in_span fa s n align js of
      None \<Rightarrow> \<forall>j \<in> set js. \<not> run_candidate fa n align s j
    | Some out \<Rightarrow> \<exists>j \<in> set js. run_candidate fa n align s j \<and>
        (\<forall>i \<in> set js. run_candidate fa n align s i \<longrightarrow> j \<le> i) \<and>
        run_taken fa n (pr_start (sp_range s) + j * BASE_PAGE_SIZE) out"
  using js \<open>sorted js\<close>
proof (induction js)
  case Nil
  then show ?case by simp
next
  case (Cons j js)
  from Cons.prems have "j + n \<le> range_page_count (sp_range s)" by simp
  note spec = try_contiguous_at_spec [OF ok s n this al]
  show ?case
  proof (cases "run_candidate fa n align s j")
    case True
    with spec obtain out where "try_contiguous_at fa s n align j = Some out"
      "run_taken fa n (pr_start (sp_range s) + j * BASE_PAGE_SIZE) out" by auto
    with True Cons.prems show ?thesis by auto
  next
    case False
    with spec Cons show ?thesis by (auto split: option.splits)
  qed
qed

lemma contiguous_in_spans_spec:
  assumes ok: "frames_ok fa" and n: "0 < n" and al: "align * BASE_PAGE_SIZE < 2 ^ 64"
    and "set ss \<subseteq> set (fa_spans fa)" and "spans_ok k ss"
  shows "contiguous_in_spans fa n align ss = (Inl Frame_Exhausted, fa) \<and>
      (\<forall>s \<in> set ss. \<forall>j. j + n \<le> range_page_count (sp_range s) \<longrightarrow> \<not> run_candidate fa n align s j) \<or>
    (\<exists>s \<in> set ss. \<exists>j. j + n \<le> range_page_count (sp_range s) \<and> run_candidate fa n align s j \<and>
      (\<forall>q \<in> set ss. \<forall>i. i + n \<le> range_page_count (sp_range q) \<longrightarrow> run_candidate fa n align q i \<longrightarrow>
        pr_start (sp_range s) + j * BASE_PAGE_SIZE \<le> pr_start (sp_range q) + i * BASE_PAGE_SIZE) \<and>
      run_taken fa n (pr_start (sp_range s) + j * BASE_PAGE_SIZE) (contiguous_in_spans fa n align ss))"
  using assms(4,5)
proof (induction ss arbitrary: k)
  case Nil
  then show ?case by simp
next
  case (Cons s ss)
  let ?P = "range_page_count (sp_range s)"
  have s: "s \<in> set (fa_spans fa)" and sub: "set ss \<subseteq> set (fa_spans fa)" and ss: "spans_ok (k + ?P) ss"
    and r: "range_ok (sp_range s)" and after: "\<forall>q \<in> set ss. pr_end (sp_range s) < pr_start (sp_range q)"
    using Cons.prems by auto
  note IH = Cons.IH [OF sub ss]
  show ?case
  proof (cases "?P < n")
    case True
    then have eq: "contiguous_in_spans fa n align (s # ss) = contiguous_in_spans fa n align ss"
      and none: "\<And>j. \<not> j + n \<le> ?P" by auto
    from IH show ?thesis unfolding eq by (simp add: none)
  next
    case False
    have mem: "j \<in> set [0..<Suc (?P - n)] \<longleftrightarrow> j + n \<le> ?P" for j using False by auto
    note spec = contiguous_in_span_spec [OF ok s n al, of "[0..<Suc (?P - n)]"]
    show ?thesis
    proof (cases "contiguous_in_span fa s n align [0..<Suc (?P - n)]")
      case None
      then have "contiguous_in_spans fa n align (s # ss) = contiguous_in_spans fa n align ss"
        using False by (simp add: checked_sub_def)
      moreover have "\<not> run_candidate fa n align s j" if "j + n \<le> ?P" for j
        using spec None mem that sorted_upt by (simp del: upt_Suc)
      ultimately show ?thesis using IH by auto
    next
      case (Some out)
      then have eq: "contiguous_in_spans fa n align (s # ss) = out"
        using False by (simp add: checked_sub_def)
      obtain j where j: "j + n \<le> ?P" "run_candidate fa n align s j"
        "\<And>i. i + n \<le> ?P \<Longrightarrow> run_candidate fa n align s i \<Longrightarrow> j \<le> i"
        "run_taken fa n (pr_start (sp_range s) + j * BASE_PAGE_SIZE) out"
        using spec Some mem sorted_upt by (auto simp del: upt_Suc)
      have "j * BASE_PAGE_SIZE \<le> ?P * BASE_PAGE_SIZE" using j(1) by (intro mult_le_mono1) simp
      then have "pr_start (sp_range s) + j * BASE_PAGE_SIZE \<le> pr_end (sp_range s)"
        using range_ok_end [OF r] by simp
      with after have "\<And>q i. q \<in> set ss \<Longrightarrow>
          pr_start (sp_range s) + j * BASE_PAGE_SIZE \<le> pr_start (sp_range q) + i * BASE_PAGE_SIZE"
        by (meson le_add1 less_imp_le order_trans)
      with j show ?thesis unfolding eq by (intro disjI2 bexI [of _ s] exI [of _ j]) auto
    qed
  qed
qed

definition free_run :: "frame_allocator \<Rightarrow> nat \<Rightarrow> nat \<Rightarrow> nat \<Rightarrow> bool" where
  "free_run fa n align a =
     (a mod (align * BASE_PAGE_SIZE) = 0 \<and> (\<forall>i<n. a + i * BASE_PAGE_SIZE \<in> free_addrs fa))"

lemma run_candidate_free_run:
  assumes ok: "frames_ok fa" and s: "s \<in> set (fa_spans fa)" and j: "j + n \<le> range_page_count (sp_range s)"
  shows "run_candidate fa n align s j \<longleftrightarrow> free_run fa n align (pr_start (sp_range s) + j * BASE_PAGE_SIZE)"
proof -
  have "pr_start (sp_range s) + j * BASE_PAGE_SIZE + i * BASE_PAGE_SIZE \<in> free_addrs fa \<longleftrightarrow>
      sp_first s + j + i \<in> free_indices fa" if "i < n" for i
    using span_facts [OF ok s, of "j + i"] addr_mem_iff(1) [OF ok, of "sp_first s + (j + i)"] j that
    by (simp add: add_mult_distrib add.assoc)
  moreover have "{sp_first s + j..<sp_first s + j + n} \<subseteq> free_indices fa \<longleftrightarrow>
      (\<forall>i<n. sp_first s + j + i \<in> free_indices fa)"
    by (auto simp: subset_iff) (metis add_less_cancel_left le_iff_add)
  ultimately show ?thesis by (simp add: run_candidate_def free_run_def)
qed

lemma free_run_candidate:
  assumes ok: "frames_ok fa" and n: "0 < n" and run: "free_run fa n align a"
  shows "\<exists>s \<in> set (fa_spans fa). \<exists>j. a = pr_start (sp_range s) + j * BASE_PAGE_SIZE \<and>
    j + n \<le> range_page_count (sp_range s) \<and> run_candidate fa n align s j"
proof -
  have "\<forall>i<n. a + i * BASE_PAGE_SIZE \<in> set (frame_addrs fa)"
    using run addrs_partition(1) [OF ok] by (auto simp: free_run_def)
  with run_in_one_span [OF _ n, of 0 "fa_spans fa" a] frames_ok_shape [OF ok]
  obtain s j where "s \<in> set (fa_spans fa)" "a = pr_start (sp_range s) + j * BASE_PAGE_SIZE"
    "j + n \<le> range_page_count (sp_range s)" by (auto simp: frames_shape_def frame_addrs_def)
  with run run_candidate_free_run [OF ok] show ?thesis by blast
qed

lemma free_run_count:
  assumes ok: "frames_ok fa" and n: "0 < n" and run: "free_run fa n align a"
  shows "n \<le> fa_free fa"
proof -
  have "inj_on (\<lambda>i. a + i * BASE_PAGE_SIZE) {..<n}" by (auto simp: inj_on_def BASE_PAGE_SIZE_def)
  then have "n = card ((\<lambda>i. a + i * BASE_PAGE_SIZE) ` {..<n})" by (simp add: card_image)
  also have "\<dots> \<le> card (free_addrs fa)"
    using run addrs_partition(6) [OF ok] by (intro card_mono) (auto simp: free_run_def)
  finally show ?thesis using addrs_partition(5) [OF ok] by simp
qed

lemma contiguous_search:
  assumes "frames_ok fa" and "0 < n" and "is_power_of_two align" and "align * BASE_PAGE_SIZE < 2 ^ 64"
  shows "frame_allocate_contiguous fa n align = (Inl Frame_Exhausted, fa) \<and> (\<nexists>a. free_run fa n align a) \<or>
    (\<exists>a. free_run fa n align a \<and> (\<forall>b. free_run fa n align b \<longrightarrow> a \<le> b) \<and>
      run_taken fa n a (frame_allocate_contiguous fa n align))"
proof -
  note ok = assms(1) and n = assms(2)
  have al0: "align \<noteq> 0" using assms(3) by (auto simp: is_power_of_two_def)
  have spans: "spans_ok 0 (fa_spans fa)" using frames_ok_shape [OF ok] by (simp add: frames_shape_def)
  consider (few) "fa_free fa < n" | (search) "\<not> fa_free fa < n" by blast
  then show ?thesis
  proof cases
    case few
    then have "frame_allocate_contiguous fa n align = (Inl Frame_Exhausted, fa)"
      using n al0 assms(3) by (simp add: frame_allocate_contiguous_def)
    moreover have "\<nexists>a. free_run fa n align a" using few free_run_count [OF ok n] leD by blast
    ultimately show ?thesis by simp
  next
    case search
    then have eq: "frame_allocate_contiguous fa n align = contiguous_in_spans fa n align (fa_spans fa)"
      using n al0 assms(3) by (simp add: frame_allocate_contiguous_def)
    from contiguous_in_spans_spec [OF ok n assms(4) subset_refl spans] show ?thesis
    proof (elim disjE bexE exE conjE)
      assume "\<forall>s \<in> set (fa_spans fa). \<forall>j. j + n \<le> range_page_count (sp_range s) \<longrightarrow> \<not> run_candidate fa n align s j"
        and "contiguous_in_spans fa n align (fa_spans fa) = (Inl Frame_Exhausted, fa)"
      moreover from this have "\<nexists>a. free_run fa n align a" using free_run_candidate [OF ok n] by blast
      ultimately show ?thesis by (simp add: eq)
    next
      fix s :: frame_span and j
      let ?a = "pr_start (sp_range s) + j * BASE_PAGE_SIZE"
      assume s: "s \<in> set (fa_spans fa)" "j + n \<le> range_page_count (sp_range s)" "run_candidate fa n align s j"
        and least: "\<forall>q \<in> set (fa_spans fa). \<forall>i. i + n \<le> range_page_count (sp_range q) \<longrightarrow>
          run_candidate fa n align q i \<longrightarrow> ?a \<le> pr_start (sp_range q) + i * BASE_PAGE_SIZE"
        and out: "run_taken fa n ?a (contiguous_in_spans fa n align (fa_spans fa))"
      have run: "free_run fa n align ?a" using run_candidate_free_run [OF ok s(1,2)] s(3) by simp
      moreover have "?a \<le> b" if "free_run fa n align b" for b
        using free_run_candidate [OF ok n that] least by fastforce
      ultimately show ?thesis using out by (auto simp: eq)
    qed
  qed
qed

text \<open>
  C4. \<open>allocate_contiguous\<close> is exact first fit: when some aligned run of free frames
  exists it takes the one with the lowest address, returns precisely that range and
  moves precisely its pages from free to allocated; otherwise it reports exhaustion
  and changes nothing.
\<close>

theorem frame_allocate_contiguous_first_fit:
  assumes "frames_ok fa" and "0 < n" and "is_power_of_two align" and "align * BASE_PAGE_SIZE < 2 ^ 64"
  shows "if \<exists>a. free_run fa n align a
     then run_taken fa n (LEAST a. free_run fa n align a) (frame_allocate_contiguous fa n align)
     else frame_allocate_contiguous fa n align = (Inl Frame_Exhausted, fa)"
  using contiguous_search [OF assms]
proof (elim disjE exE conjE)
  fix a assume run: "free_run fa n align a" "\<forall>b. free_run fa n align b \<longrightarrow> a \<le> b"
    and out: "run_taken fa n a (frame_allocate_contiguous fa n align)"
  then have "(LEAST a. free_run fa n align a) = a" by (intro Least_equality) auto
  with run out show ?thesis by auto
qed auto

end
