(* ===== verification/Frame_Contract.thy ===== *)
theory Frame_Contract
  imports Frame_Pool
begin

text \<open>
  The remaining operations of the frame allocator over its address sets, its
  construction from a normalized memory map, and the contract \<open>page_ledger\<close> with the
  proof that no frame is ever live twice.
\<close>

section \<open>Single frames\<close>

lemma frame_allocate_pool:
  assumes ok: "frames_ok fa"
  shows "if free_addrs fa = {} then frame_allocate fa = (Inl Frame_Exhausted, fa)
     else \<exists>fb. frame_allocate fa = (Inr (Min (free_addrs fa)), fb) \<and>
       pool_step fa fb (free_addrs fa - {Min (free_addrs fa)})
         (used_addrs fa \<union> {Min (free_addrs fa)}) (reserved_addrs fa)"
proof (cases "free_indices fa = {}")
  case True
  then show ?thesis using frame_allocate_index(1) [OF ok] by (simp add: free_addrs_def)
next
  case False
  define i where "i = Min (free_indices fa)"
  have i: "i \<in> free_indices fa" "\<forall>j \<in> free_indices fa. i \<le> j" using False by (auto simp: i_def)
  have "frame_addrs fa ! i \<le> frame_addrs fa ! j" if "j \<in> free_indices fa" for j
  proof -
    have "j < length (frame_addrs fa)" "i \<le> j"
      using that i(2) frames_shape_length [OF frames_ok_shape [OF ok]] by (auto simp: free_indices_def)
    then show ?thesis
      using frames_shape_sorted [OF frames_ok_shape [OF ok]]
      by (cases "i = j") (auto simp: sorted_wrt_iff_nth_less intro!: less_imp_le)
  qed
  then have min: "Min (free_addrs fa) = frame_addrs fa ! i"
    using i(1) by (intro Min_eqI) (auto simp: free_addrs_def)
  from frame_allocate_index(2) [OF ok i] obtain fb where
    fb: "frame_allocate fa = (Inr (frame_addrs fa ! i), fb)"
      "frames_step fa fb (free_indices fa - {i}) (used_indices fa \<union> {i}) (reserved_indices fa)" by blast
  from alloc_step_pool [OF ok _ fb(2)] i(1) fb(1) have
    "frame_allocate fa = (Inr (Min (free_addrs fa)), fb) \<and>
     pool_step fa fb (free_addrs fa - {Min (free_addrs fa)})
       (used_addrs fa \<union> {Min (free_addrs fa)}) (reserved_addrs fa)" by (simp add: min)
  moreover have "free_addrs fa \<noteq> {}" using False by (simp add: free_addrs_def)
  ultimately show ?thesis by simp
qed

lemma frame_free_pool:
  assumes ok: "frames_ok fa"
  shows "if a \<in> used_addrs fa
     then \<exists>fb. frame_free fa a = (Inr (), fb) \<and>
       pool_step fa fb (free_addrs fa \<union> {a}) (used_addrs fa - {a}) (reserved_addrs fa)
     else frame_free fa a = (Inl (if a \<in> free_addrs fa then Frame_DoubleFree else Frame_InvalidFrame), fa)"
proof (cases "index_for_address fa a")
  case None
  then have "a \<notin> set (frame_addrs fa)" using index_for_address_None [OF frames_ok_shape [OF ok]] by blast
  then have "a \<notin> used_addrs fa" "a \<notin> free_addrs fa" using addrs_partition(1) [OF ok] by blast+
  with None show ?thesis using frame_free_index(1) [OF ok] check_freeable_eq [OF ok, of a] by simp
next
  case (Some i)
  then have i: "i < fa_total fa" "frame_addrs fa ! i = a"
    using index_for_address_iff [OF frames_ok_shape [OF ok]] by blast+
  note mem = addr_mem_iff [OF ok i(1), unfolded i(2)]
  show ?thesis
  proof (cases "a \<in> used_addrs fa")
    case True
    then have used: "alloc_bit fa i" "\<not> res_bit fa i" using mem(2) ok i by (auto simp: frames_ok_def)
    then have "check_freeable fa a = Inr i" using Some by (simp add: check_freeable_eq [OF ok])
    from frame_free_index(2) [OF ok this] obtain fb where fb: "frame_free fa a = (Inr (), fb)"
      "frames_step fa fb (free_indices fa \<union> {i}) (used_indices fa - {i}) (reserved_indices fa)" by blast
    from release_step_pool [OF ok _ fb(2)] used i fb(1) True show ?thesis by simp
  next
    case False
    with mem have "check_freeable fa a = Inl (if a \<in> free_addrs fa then Frame_DoubleFree else Frame_InvalidFrame)"
      using Some i by (auto simp: check_freeable_eq [OF ok] free_indices_def)
    from frame_free_index(1) [OF ok this] False show ?thesis by simp
  qed
qed

section \<open>Reservation\<close>

lemma frames_step_trans:
  "frames_step fa fb F U R \<Longrightarrow> frames_step fb fc F' U' R' \<Longrightarrow> frames_step fa fc F' U' R'"
  unfolding frames_step_def by metis

lemma reserve_frames_index:
  assumes "frames_ok fa" and "\<forall>i \<in> set xs. i < fa_total fa" and "acc + fa_free fa < 2 ^ 64"
  shows "\<exists>fb. reserve_frames fa acc xs = (Inr (acc + card (free_indices fa \<inter> set xs)), fb) \<and>
    frames_step fa fb (free_indices fa - set xs) (used_indices fa)
      (reserved_indices fa \<union> (free_indices fa \<inter> set xs))"
  using assms
proof (induction xs arbitrary: fa acc)
  case Nil
  then show ?case by (simp add: frames_step_def)
next
  case (Cons i xs)
  note ok = Cons.prems(1)
  have lt: "i < fa_total fa" using Cons.prems(2) by simp
  note un = is_unavailable_eq [OF frames_ok_shape [OF ok] lt]
  show ?case
  proof (cases "i \<in> free_indices fa")
    case False
    then have "is_unavailable fa i = Inr True" using un lt by (auto simp: free_indices_def)
    moreover have "free_indices fa \<inter> set (i # xs) = free_indices fa \<inter> set xs"
      "free_indices fa - set (i # xs) = free_indices fa - set xs" using False by auto
    ultimately show ?thesis using Cons.IH [OF ok _ Cons.prems(3)] Cons.prems(2) by simp
  next
    case True
    then have av: "is_unavailable fa i = Inr False" using un by (simp add: free_indices_def)
    have pos: "1 \<le> fa_free fa"
      using ok True card_gt_0_iff [of "free_indices fa"] by (auto simp: frames_ok_def Suc_le_eq)
    obtain fb where fb: "mark_reserved fa i = Inr fb"
      "frames_step fa (fb\<lparr>fa_free := fa_free fa - 1\<rparr>)
        (free_indices fa - {i}) (used_indices fa) (reserved_indices fa \<union> {i})"
      using mark_reserved_spec [OF ok True] by blast
    define fc where "fc = fb\<lparr>fa_free := fa_free fa - 1\<rparr>"
    have fc: "frames_ok fc" "fa_total fc = fa_total fa" "free_indices fc = free_indices fa - {i}"
      "used_indices fc = used_indices fa" "reserved_indices fc = reserved_indices fa \<union> {i}"
      "fa_spans fc = fa_spans fa"
      using fb(2) unfolding fc_def [symmetric] frames_step_def by blast+
    have free: "fa_free fc = fa_free fa - 1" by (simp add: fc_def)
    have step: "reserve_frames fa acc (i # xs) = reserve_frames fc (acc + 1) xs"
      using av fb(1) pos Cons.prems(3) by (simp add: checked_sub_def checked_add_def fc_def)
    obtain fd where fd: "reserve_frames fc (acc + 1) xs = (Inr (acc + 1 + card (free_indices fc \<inter> set xs)), fd)"
      "frames_step fc fd (free_indices fc - set xs) (used_indices fc)
        (reserved_indices fc \<union> (free_indices fc \<inter> set xs))"
      using Cons.IH [OF fc(1), of "acc + 1"] Cons.prems(2,3) fc(2) free pos by auto
    have sets: "free_indices fa \<inter> set (i # xs) = insert i (free_indices fc \<inter> set xs)"
      "free_indices fa - set (i # xs) = free_indices fc - set xs"
      "reserved_indices fa \<union> (free_indices fa \<inter> set (i # xs)) =
        reserved_indices fc \<union> (free_indices fc \<inter> set xs)"
      unfolding fc(3,5) using True by auto
    have "card (insert i (free_indices fc \<inter> set xs)) = Suc (card (free_indices fc \<inter> set xs))"
      by (rule card_insert_disjoint) (auto simp: fc(3))
    then have "reserve_frames fa acc (i # xs) = (Inr (acc + card (free_indices fa \<inter> set (i # xs))), fd)"
      using fd(1) step sets(1) by simp
    moreover have "frames_step fa fd (free_indices fa - set (i # xs)) (used_indices fa)
        (reserved_indices fa \<union> (free_indices fa \<inter> set (i # xs)))"
      using frames_step_trans [OF fb(2) [folded fc_def] fd(2)] fc(4) sets(2,3) by metis
    ultimately show ?thesis by blast
  qed
qed

lemma reserve_frames_pool:
  assumes ok: "frames_ok fa" and lt: "\<forall>i \<in> set xs. i < fa_total fa" and b: "acc + fa_free fa < 2 ^ 64"
    and A: "A = (!) (frame_addrs fa) ` set xs"
  shows "\<exists>fb. reserve_frames fa acc xs = (Inr (acc + card (free_addrs fa \<inter> A)), fb) \<and>
    pool_step fa fb (free_addrs fa - A) (used_addrs fa) (reserved_addrs fa \<union> (free_addrs fa \<inter> A))"
proof -
  obtain fb where fb: "reserve_frames fa acc xs = (Inr (acc + card (free_indices fa \<inter> set xs)), fb)"
    "frames_step fa fb (free_indices fa - set xs) (used_indices fa)
      (reserved_indices fa \<union> (free_indices fa \<inter> set xs))"
    using reserve_frames_index [OF ok lt b] by blast
  have xs: "set xs \<subseteq> {..<fa_total fa}" using lt by auto
  note inj = frame_addrs_inj [OF frames_ok_shape [OF ok]]
  have int: "(!) (frame_addrs fa) ` (free_indices fa \<inter> set xs) = free_addrs fa \<inter> A"
    using inj_on_image_Int [OF inj indices_bound(1) xs] by (simp add: A free_addrs_def)
  have "inj_on ((!) (frame_addrs fa)) (free_indices fa \<inter> set xs)"
    by (rule inj_on_subset [OF inj]) (use xs in auto)
  then have "card (free_indices fa \<inter> set xs) = card (free_addrs fa \<inter> A)"
    using card_image int by metis
  moreover have "(!) (frame_addrs fa) ` (free_indices fa - set xs) = free_addrs fa - A"
    using image_diff_indices [OF ok indices_bound(1) xs] by (simp add: A free_addrs_def)
  ultimately show ?thesis
    using fb frames_step_pool [OF ok fb(2)] int by (simp add: image_Un used_addrs_def reserved_addrs_def)
qed

text \<open>The frames of one span that a range covers are one interval of frame numbers.\<close>

lemma span_overlap:
  assumes ok: "frames_ok fa" and s: "s \<in> set (fa_spans fa)" and rng: "range_ok rng"
    and os: "os = max (pr_start (sp_range s)) (pr_start rng)"
    and oe: "oe = min (pr_end (sp_range s)) (pr_end rng)" and ne: "os < oe"
  shows "sp_first s + (os - pr_start (sp_range s)) div BASE_PAGE_SIZE + (oe - os) div BASE_PAGE_SIZE \<le> fa_total fa"
    and "(!) (frame_addrs fa) ` {sp_first s + (os - pr_start (sp_range s)) div BASE_PAGE_SIZE..<
        sp_first s + (os - pr_start (sp_range s)) div BASE_PAGE_SIZE + (oe - os) div BASE_PAGE_SIZE} =
      {a \<in> set (range_pages (sp_range s)). range_contains rng a}"
proof -
  let ?s = "sp_range s" and ?o = "\<lparr>pr_start = os, pr_end = oe\<rparr>"
  define j n where "j = (os - pr_start ?s) div BASE_PAGE_SIZE" and "n = (oe - os) div BASE_PAGE_SIZE"
  have rs: "range_ok ?s" using spans_ok_range s frames_ok_shape [OF ok] by (auto simp: frames_shape_def)
  have dvd: "BASE_PAGE_SIZE dvd os" "BASE_PAGE_SIZE dvd oe" "BASE_PAGE_SIZE dvd pr_start ?s"
    using rs rng os oe by (auto simp: range_ok_def max_def min_def)
  then have j: "j * BASE_PAGE_SIZE = os - pr_start ?s" and n: "n * BASE_PAGE_SIZE = oe - os"
    by (simp_all add: j_def n_def dvd_diff_nat)
  have ro: "range_ok ?o" using dvd ne oe rs by (auto simp: range_ok_def)
  have pc: "range_page_count ?o = n" by (simp add: range_page_count_def range_byte_count_def n_def)
  have start: "pr_start ?o = pr_start ?s + j * BASE_PAGE_SIZE" using j os by simp
  have "(j + n) * BASE_PAGE_SIZE \<le> range_page_count ?s * BASE_PAGE_SIZE"
    using j n ne range_page_count_mult [OF rs] oe min.cobounded1 [of "pr_end ?s" "pr_end rng"]
      max.cobounded1 [of "pr_start ?s" "pr_start rng"] unfolding os [symmetric] oe [symmetric]
    by (simp add: add_mult_distrib diff_le_mono)
  then have le: "j + n \<le> range_page_count ?s" by (simp add: BASE_PAGE_SIZE_def)
  have "0 < n" using n ne by (cases n) auto
  then have "sp_first s + (j + n - 1) < fa_total fa" using span_facts(1) [OF ok s, of "j + n - 1"] le by auto
  then show "sp_first s + (os - pr_start ?s) div BASE_PAGE_SIZE + (oe - os) div BASE_PAGE_SIZE \<le> fa_total fa"
    unfolding j_def [symmetric] n_def [symmetric] using \<open>0 < n\<close> by linarith
  have "a \<in> set (range_pages ?o) \<longleftrightarrow> a \<in> set (range_pages ?s) \<and> range_contains rng a" for a
    using set_range_pages [OF ro] set_range_pages [OF rs] by (auto simp: range_contains_def os oe)
  then show "(!) (frame_addrs fa) ` {sp_first s + (os - pr_start ?s) div BASE_PAGE_SIZE..<
        sp_first s + (os - pr_start ?s) div BASE_PAGE_SIZE + (oe - os) div BASE_PAGE_SIZE} =
      {a \<in> set (range_pages ?s). range_contains rng a}"
    unfolding j_def [symmetric] n_def [symmetric] using run_image [OF ok s le start pc] by blast
qed

lemma upt_bound: "e \<le> n \<Longrightarrow> \<forall>i \<in> set [f..<e]. i < n"
  by auto

lemma reserve_spans_pool:
  assumes "frames_ok fa" and "range_ok rng" and "set ss \<subseteq> set (fa_spans fa)" and "spans_ok k ss"
    and "acc + fa_free fa < 2 ^ 64" and "A = {a \<in> set (span_pages ss). range_contains rng a}"
  shows "\<exists>fb. reserve_spans fa rng acc ss = (Inr (acc + card (free_addrs fa \<inter> A)), fb) \<and>
    pool_step fa fb (free_addrs fa - A) (used_addrs fa) (reserved_addrs fa \<union> (free_addrs fa \<inter> A))"
  using assms(1,3-6)
proof (induction ss arbitrary: fa acc k A)
  case Nil
  then show ?case using pool_step_refl by simp
next
  case (Cons s ss)
  note ok = Cons.prems(1) and rng = assms(2)
  let ?os = "max (pr_start (sp_range s)) (pr_start rng)" and ?oe = "min (pr_end (sp_range s)) (pr_end rng)"
  let ?f = "sp_first s + (?os - pr_start (sp_range s)) div BASE_PAGE_SIZE"
  let ?e = "?f + (?oe - ?os) div BASE_PAGE_SIZE"
  define B C where "B = {a \<in> set (range_pages (sp_range s)). range_contains rng a}"
    and "C = {a \<in> set (span_pages ss). range_contains rng a}"
  have s: "s \<in> set (fa_spans fa)" and rs: "range_ok (sp_range s)" and ss: "set ss \<subseteq> set (fa_spans fa)"
    "spans_ok (k + range_page_count (sp_range s)) ss" using Cons.prems by auto
  have A: "A = B \<union> C" using Cons.prems(5) by (auto simp: B_def C_def)
  have BC: "B \<inter> C = {}"
    using span_pages_sorted [OF Cons.prems(3)] by (auto simp: B_def C_def strict_sorted_iff)
  show ?case
  proof (cases "?oe \<le> ?os")
    case True
    then have "B = {}" by (auto simp: B_def set_range_pages [OF rs] range_contains_def)
    with True show ?thesis using Cons.IH [OF ok ss Cons.prems(4) C_def] by (simp add: A Let_def)
  next
    case False
    then have ne: "?os < ?oe" by (rule not_le_imp_less)
    note ov = span_overlap [OF ok s rng refl refl ne, folded B_def]
    have tot: "fa_total fa < 2 ^ 64" by (rule frames_ok_total_bound [OF ok])
    have f: "checked_add 64 (sp_first s) ((?os - pr_start (sp_range s)) div BASE_PAGE_SIZE) = Some ?f"
      "checked_add 64 ?f ((?oe - ?os) div BASE_PAGE_SIZE) = Some ?e"
      using order.strict_trans1 [OF ov(1) tot] by (simp_all add: checked_add_def)
    obtain fb where fb: "reserve_frames fa acc [?f..<?e] = (Inr (acc + card (free_addrs fa \<inter> B)), fb)"
      "pool_step fa fb (free_addrs fa - B) (used_addrs fa) (reserved_addrs fa \<union> (free_addrs fa \<inter> B))"
    proof -
      have B: "B = (!) (frame_addrs fa) ` set [?f..<?e]" unfolding set_upt by (rule ov(2) [symmetric])
      show thesis
        by (rule exE [OF reserve_frames_pool [OF ok upt_bound [OF ov(1)] Cons.prems(4) B]], elim conjE, rule that)
    qed
    have fb': "frames_ok fb" "fa_spans fb = fa_spans fa" "free_addrs fb = free_addrs fa - B"
      "used_addrs fb = used_addrs fa" "reserved_addrs fb = reserved_addrs fa \<union> (free_addrs fa \<inter> B)"
      using fb(2) by (auto simp: pool_step_def)
    have cards: "fa_free fb = fa_free fa - card (free_addrs fa \<inter> B)" "card (free_addrs fa \<inter> B) \<le> fa_free fa"
      using addrs_partition(5) [OF fb'(1)] addrs_partition(5,6) [OF ok]
        card_mono [of "free_addrs fa" "free_addrs fa \<inter> B"]
      by (auto simp: fb'(3) card_Diff_subset_Int)
    obtain fc where fc: "reserve_spans fb rng (acc + card (free_addrs fa \<inter> B)) ss =
        (Inr (acc + card (free_addrs fa \<inter> B) + card (free_addrs fb \<inter> C)), fc)"
      "pool_step fb fc (free_addrs fb - C) (used_addrs fb) (reserved_addrs fb \<union> (free_addrs fb \<inter> C))"
      using Cons.IH [OF fb'(1) ss(1) [folded fb'(2)] ss(2) _ C_def, of "acc + card (free_addrs fa \<inter> B)"]
        Cons.prems(4) cards by auto
    have C: "free_addrs fb \<inter> C = free_addrs fa \<inter> C" using BC by (auto simp: fb'(3))
    have "card (free_addrs fa \<inter> A) = card (free_addrs fa \<inter> B) + card (free_addrs fa \<inter> C)"
      unfolding A Int_Un_distrib using BC addrs_partition(6) [OF ok] by (intro card_Un_disjoint) auto
    moreover have "free_addrs fa - A = free_addrs fb - C"
      "reserved_addrs fa \<union> (free_addrs fa \<inter> A) = reserved_addrs fb \<union> (free_addrs fb \<inter> C)"
      unfolding C unfolding fb'(3,5) A by auto
    moreover have "reserve_spans fa rng acc (s # ss) =
        (Inr (acc + card (free_addrs fa \<inter> B) + card (free_addrs fb \<inter> C)), fc)"
      using False f fb(1) fc(1) by (simp add: Let_def)
    ultimately show ?thesis using pool_step_trans [OF fb(2) fc(2)] fb'(4) C by simp
  qed
qed

section \<open>Range release\<close>

lemma check_freeable_used:
  assumes ok: "frames_ok fa"
  shows "(if a \<in> used_addrs fa then \<exists>i \<in> used_indices fa. frame_addrs fa ! i = a \<and> check_freeable fa a = Inr i
    else \<exists>e. check_freeable fa a = Inl e)"
proof (cases "index_for_address fa a")
  case None
  then have "a \<notin> set (frame_addrs fa)" using index_for_address_None [OF frames_ok_shape [OF ok]] by blast
  then have "a \<notin> used_addrs fa" using addrs_partition(1) [OF ok] by blast
  with None show ?thesis by (simp add: check_freeable_eq [OF ok])
next
  case (Some i)
  then have i: "i < fa_total fa" "frame_addrs fa ! i = a"
    using index_for_address_iff [OF frames_ok_shape [OF ok]] by blast+
  with addr_mem_iff(2) [OF ok i(1)] Some ok show ?thesis
    by (auto simp: check_freeable_eq [OF ok] frames_ok_def)
qed

lemma free_range_check_spec:
  assumes ok: "frames_ok fa" and b: "\<forall>p \<in> set ps. start + p * BASE_PAGE_SIZE < 2 ^ 64"
  shows "(if \<forall>p \<in> set ps. start + p * BASE_PAGE_SIZE \<in> used_addrs fa
     then free_range_check fa start ps = Inr () else \<exists>e. free_range_check fa start ps = Inl e)"
  using b
proof (induction ps)
  case Nil
  then show ?case by simp
next
  case (Cons p ps)
  then have "checked_mul 64 p BASE_PAGE_SIZE = Some (p * BASE_PAGE_SIZE)"
    "checked_add 64 start (p * BASE_PAGE_SIZE) = Some (start + p * BASE_PAGE_SIZE)"
    by (auto simp: checked_mul_def checked_add_def)
  with Cons check_freeable_used [OF ok, of "start + p * BASE_PAGE_SIZE"] show ?case
    by (auto split: if_splits)
qed

lemma free_range_clear_spec:
  assumes "frames_shape fa" and "\<forall>p \<in> set ps. start + p * BASE_PAGE_SIZE \<in> set (frame_addrs fa)"
  shows "\<exists>fb. free_range_clear fa start ps = (Inr (), fb) \<and>
    sets_alloc fa {i. i < fa_total fa \<and> frame_addrs fa ! i \<in> (\<lambda>p. start + p * BASE_PAGE_SIZE) ` set ps} False fb"
  using assms
proof (induction ps arbitrary: fa)
  case Nil
  then show ?case by simp
next
  case (Cons p ps)
  let ?a = "start + p * BASE_PAGE_SIZE"
  from Cons.prems obtain i where i: "index_for_address fa ?a = Some i"
    using index_for_address_None [OF Cons.prems(1), of ?a] by fastforce
  then have lt: "i < fa_total fa" and ai: "frame_addrs fa ! i = ?a"
    using index_for_address_iff [OF Cons.prems(1)] by blast+
  obtain fb where fb: "set_allocated fa i False = Inr fb" "sets_alloc fa {i} False fb"
    using set_allocated_spec [OF Cons.prems(1) lt] by blast
  have same: "frame_addrs fb = frame_addrs fa" "fa_total fb = fa_total fa"
    using fb(2) by (simp_all add: sets_alloc_def frame_addrs_def)
  obtain fc where fc: "free_range_clear fb start ps = (Inr (), fc)"
    "sets_alloc fb {i. i < fa_total fa \<and> frame_addrs fa ! i \<in> (\<lambda>p. start + p * BASE_PAGE_SIZE) ` set ps} False fc"
    using Cons.IH [OF sets_alloc_shape [OF fb(2) Cons.prems(1)]] Cons.prems(2) same by auto
  have "{i} \<union> {i. i < fa_total fa \<and> frame_addrs fa ! i \<in> (\<lambda>p. start + p * BASE_PAGE_SIZE) ` set ps} =
      {i. i < fa_total fa \<and> frame_addrs fa ! i \<in> (\<lambda>p. start + p * BASE_PAGE_SIZE) ` set (p # ps)}"
    using lt ai frames_shape_distinct [OF Cons.prems(1)] frames_shape_length [OF Cons.prems(1)]
    by (auto simp: nth_eq_iff_index_eq) (metis nth_eq_iff_index_eq)
  with sets_alloc_trans [OF fb(2) fc(2)] fb(1) fc(1) i show ?case by auto
qed

lemma frame_free_range_pool:
  assumes ok: "frames_ok fa" and rng: "range_ok rng"
  shows "if set (range_pages rng) \<subseteq> used_addrs fa
     then \<exists>fb. frame_free_range fa rng = (Inr (), fb) \<and>
       pool_step fa fb (free_addrs fa \<union> set (range_pages rng)) (used_addrs fa - set (range_pages rng))
         (reserved_addrs fa)
     else \<exists>e. frame_free_range fa rng = (Inl e, fa)"
proof -
  let ?ps = "[0..<range_page_count rng]" and ?A = "set (range_pages rng)"
  have pages: "(\<lambda>p. pr_start rng + p * BASE_PAGE_SIZE) ` set ?ps = ?A"
    by (auto simp: range_pages_def pages_from_def)
  have "\<forall>a \<in> ?A. a < 2 ^ 64"
    using set_range_pages [OF rng] rng by (auto simp: range_contains_def range_ok_def)
  then have b: "\<forall>p \<in> set ?ps. pr_start rng + p * BASE_PAGE_SIZE < 2 ^ 64" unfolding pages [symmetric] by blast
  have all: "(\<forall>p \<in> set ?ps. pr_start rng + p * BASE_PAGE_SIZE \<in> used_addrs fa) \<longleftrightarrow> ?A \<subseteq> used_addrs fa"
    unfolding pages [symmetric] by blast
  note check = free_range_check_spec [OF ok b, unfolded all]
  show ?thesis
  proof (cases "?A \<subseteq> used_addrs fa")
    case False
    with check show ?thesis by (auto simp: frame_free_range_def)
  next
    case True
    define I where "I = {i. i < fa_total fa \<and> frame_addrs fa ! i \<in> ?A}"
    have frames: "?A \<subseteq> set (frame_addrs fa)" using True addrs_partition(1) [OF ok] by blast
    have img: "(!) (frame_addrs fa) ` I = ?A"
    proof
      show "?A \<subseteq> (!) (frame_addrs fa) ` I"
      proof
        fix a assume a: "a \<in> ?A"
        then obtain i where "i < fa_total fa" "frame_addrs fa ! i = a"
          using frames frames_shape_length [OF frames_ok_shape [OF ok]] by (metis in_set_conv_nth subsetD)
        with a show "a \<in> (!) (frame_addrs fa) ` I" by (auto simp: I_def)
      qed
    qed (auto simp: I_def)
    have sub: "I \<subseteq> used_indices fa" using True addr_mem_iff(2) [OF ok] by (auto simp: I_def)
    have "inj_on ((!) (frame_addrs fa)) I"
      by (rule inj_on_subset [OF frame_addrs_inj [OF frames_ok_shape [OF ok]]]) (auto simp: I_def)
    then have "card I = card ?A" using card_image img by metis
    also have "\<dots> = range_page_count rng"
      using distinct_card [of "range_pages rng"] sorted_range_pages [of rng] by (simp add: strict_sorted_iff)
    finally have card: "card I = range_page_count rng" .
    then have add: "checked_add 64 (fa_free fa) (range_page_count rng) = Some (fa_free fa + card I)"
      using frames_ok_free_bound [OF ok sub] frames_ok_total_bound [OF ok] by (simp add: checked_add_def)
    obtain fb where fb: "free_range_clear fa (pr_start rng) ?ps = (Inr (), fb)" "sets_alloc fa I False fb"
      using free_range_clear_spec [OF frames_ok_shape [OF ok], of ?ps "pr_start rng"] frames
      unfolding pages I_def [symmetric] unfolding pages [symmetric] by blast
    have "frame_free_range fa rng = (Inr (), fb\<lparr>fa_free := fa_free fa + card I\<rparr>)"
      using check True add fb(1) by (simp add: frame_free_range_def)
    with release_step_pool [OF ok sub release_effect [OF ok sub fb(2)]] True show ?thesis
      by (simp add: img)
  qed
qed

section \<open>Construction\<close>

fun usable_regions :: "memory_region list \<Rightarrow> memory_region list" where
  "usable_regions [] = []"
| "usable_regions (r # rs) = (if mr_kind r = Usable then r # usable_regions rs else usable_regions rs)"

lemma coalesced_separated:
  "regions_sorted (r # rs) \<Longrightarrow> regions_coalesced (r # rs) \<Longrightarrow> q \<in> set rs \<Longrightarrow> mr_kind q = mr_kind r \<Longrightarrow>
   rg_end r < rg_start q"
proof (cases rs)
  case (Cons p ps)
  assume prems: "regions_sorted (r # rs)" "regions_coalesced (r # rs)" "q \<in> set rs" "mr_kind q = mr_kind r"
  then have p: "rg_end r \<le> rg_start p" "rg_start p < rg_end p"
    and q: "q = p \<or> rg_end p \<le> rg_start q" using Cons by (auto simp: regions_sorted_def)
  show ?thesis
  proof (cases "q = p")
    case True
    with prems Cons p show ?thesis by (auto simp: le_neq_implies_less)
  next
    case False
    with p q show ?thesis by linarith
  qed
qed simp

lemma canonical_tl:
  "regions_sorted (r # rs) \<Longrightarrow> regions_sorted rs" "regions_coalesced (r # rs) \<Longrightarrow> regions_coalesced rs"
  by (simp add: regions_sorted_def) (cases rs; simp)

lemma from_map_spans_spec:
  assumes "regions_sorted rs" and "regions_coalesced rs" and "\<forall>r \<in> set rs. range_ok (mr_range r)"
    and "\<forall>r \<in> set rs. k * BASE_PAGE_SIZE \<le> rg_start r" and "k * BASE_PAGE_SIZE < 2 ^ 64"
  shows "\<exists>ss. from_map_spans k rs = Inr (ss, k + length (span_pages ss)) \<and> spans_ok k ss \<and>
    map sp_range ss = map mr_range (usable_regions rs) \<and> (k + length (span_pages ss)) * BASE_PAGE_SIZE < 2 ^ 64"
  using assms
proof (induction rs arbitrary: k)
  case Nil
  then show ?case by simp
next
  case (Cons r rs)
  note tl = canonical_tl(1) [OF Cons.prems(1)] canonical_tl(2) [OF Cons.prems(2)]
  let ?P = "range_page_count (mr_range r)"
  have r: "range_ok (mr_range r)" using Cons.prems by simp
  have after: "\<forall>q \<in> set rs. rg_end r \<le> rg_start q" "rg_end r < 2 ^ 64"
    using Cons.prems(1) r by (auto simp: regions_sorted_def range_ok_def)
  have upto: "(k + ?P) * BASE_PAGE_SIZE \<le> rg_end r"
    using Cons.prems(4) range_ok_end [OF r] by (simp add: add_mult_distrib)
  show ?case
  proof (cases "mr_kind r = Usable")
    case False
    have "\<forall>q \<in> set rs. k * BASE_PAGE_SIZE \<le> rg_start q" using Cons.prems(4) by simp
    with False Cons.IH [OF tl _ this Cons.prems(5)] Cons.prems(3) show ?thesis by simp
  next
    case True
    have "\<forall>q \<in> set rs. (k + ?P) * BASE_PAGE_SIZE \<le> rg_start q" using upto after by (meson order_trans)
    moreover have lt: "(k + ?P) * BASE_PAGE_SIZE < 2 ^ 64" using upto after by linarith
    ultimately obtain ss where ss: "from_map_spans (k + ?P) rs = Inr (ss, k + ?P + length (span_pages ss))"
      "spans_ok (k + ?P) ss" "map sp_range ss = map mr_range (usable_regions rs)"
      "(k + ?P + length (span_pages ss)) * BASE_PAGE_SIZE < 2 ^ 64"
      using Cons.IH [OF tl, of "k + ?P"] Cons.prems(3) by auto
    have "k + ?P < 2 ^ 64" using lt by (simp add: BASE_PAGE_SIZE_def)
    moreover have "pr_end (mr_range r) < pr_start (sp_range q)" if q: "q \<in> set ss" for q
    proof -
      have "sp_range q \<in> set (map mr_range (usable_regions rs))" using q ss(3) by (metis image_eqI set_map)
      moreover have "u \<in> set (usable_regions rs) \<Longrightarrow> u \<in> set rs \<and> mr_kind u = Usable" for u
        by (induction rs) (auto split: if_splits)
      ultimately show ?thesis using coalesced_separated [OF Cons.prems(1,2)] True by fastforce
    qed
    ultimately show ?thesis
      using True ss r by (intro exI [of _ "\<lparr>sp_range = mr_range r, sp_first = k\<rparr> # ss"])
        (simp add: checked_add_def add.assoc)
  qed
qed

lemma set_usable_regions: "set (usable_regions rs) = {r \<in> set rs. mr_kind r = Usable}"
  by (induction rs) auto

definition map_canonical :: "normalized_memory_map \<Rightarrow> bool" where
  "map_canonical m = (regions_sorted (nm_regions m) \<and> regions_coalesced (nm_regions m) \<and>
     (\<forall>r \<in> set (nm_regions m). range_ok (mr_range r)))"

lemma frames_from_map_ok:
  assumes "map_canonical m"
  shows "\<exists>fa. frames_from_map True True True m = Inr fa \<and> frames_ok fa \<and> used_addrs fa = {} \<and>
    reserved_addrs fa = {} \<and> free_addrs fa = {a \<in> kind_bytes (nm_regions m) Usable. BASE_PAGE_SIZE dvd a}"
proof -
  obtain ss where ss: "from_map_spans 0 (nm_regions m) = Inr (ss, length (span_pages ss))" "spans_ok 0 ss"
    "map sp_range ss = map mr_range (usable_regions (nm_regions m))"
    "length (span_pages ss) * BASE_PAGE_SIZE < 2 ^ 64"
    using from_map_spans_spec [of "nm_regions m" 0] assms by (auto simp: map_canonical_def)
  let ?n = "length (span_pages ss)"
  have n: "?n + 63 < 2 ^ 64" using ss(4) by (simp add: BASE_PAGE_SIZE_def)
  let ?fa = "\<lparr>fa_spans = ss, fa_allocated = replicate ((?n + 63) div 64) 0,
    fa_reserved = replicate ((?n + 63) div 64) 0, fa_total = ?n, fa_free = ?n\<rparr>"
  have "frames_from_map True True True m = Inr ?fa"
    using n by (simp add: frames_from_map_def ss(1) checked_add_def try_into_def)
  moreover have shape: "frames_shape ?fa" using ss(2) n by (simp add: frames_shape_def frame_addrs_def)
  moreover have bits: "\<not> alloc_bit ?fa i" "\<not> res_bit ?fa i" if "i < ?n" for i
    using bitmap_location_in_range [OF shape, of i] that by (simp_all add: alloc_bit_def res_bit_def)
  then have free: "free_indices ?fa = {..<?n}" by (auto simp: free_indices_def)
  then have "frames_ok ?fa" using shape bits by (simp add: frames_ok_def)
  moreover have "free_addrs ?fa = set (span_pages ss)"
    using nth_image_lessThan [of "span_pages ss"] by (simp add: free_addrs_def free frame_addrs_def)
  moreover have "set (span_pages ss) = (\<Union>r \<in> set (map sp_range ss). set (range_pages r))"
    by (simp add: set_span_pages)
  then have "set (span_pages ss) = {a \<in> kind_bytes (nm_regions m) Usable. BASE_PAGE_SIZE dvd a}"
    unfolding ss(3) using assms
    by (auto simp: set_usable_regions set_range_pages map_canonical_def kind_bytes_def range_contains_def range_bytes_def)
  moreover have "used_addrs ?fa = {}" "reserved_addrs ?fa = {}"
    using bits by (auto simp: used_addrs_def reserved_addrs_def)
  ultimately show ?thesis by blast
qed

section \<open>The ledger of granted pages\<close>

text \<open>
  The contract a page allocator gives its clients: a request grants pages that are
  not in use, and only returned pages leave use. \<open>ledger\<close> is a client's own book
  of what it was granted and has not given back.
\<close>

fun ledger :: "('op \<Rightarrow> 's \<Rightarrow> 's) \<Rightarrow> ('op \<Rightarrow> 's \<Rightarrow> nat list) \<Rightarrow> ('op \<Rightarrow> 's \<Rightarrow> nat list) \<Rightarrow>
    'op list \<Rightarrow> 's \<Rightarrow> nat list \<Rightarrow> nat list" where
  "ledger step granted returned [] s book = book"
| "ledger step granted returned (op # ops) s book =
     ledger step granted returned ops (step op s)
       (filter (\<lambda>a. a \<notin> set (returned op s)) book @ granted op s)"

fun run_ops :: "('op \<Rightarrow> 's \<Rightarrow> 's) \<Rightarrow> 'op list \<Rightarrow> 's \<Rightarrow> 's" where
  "run_ops step [] s = s"
| "run_ops step (op # ops) s = run_ops step ops (step op s)"

locale page_ledger =
  fixes wf :: "'s \<Rightarrow> bool"
    and in_use :: "'s \<Rightarrow> nat set"
    and step :: "'op \<Rightarrow> 's \<Rightarrow> 's"
    and granted :: "'op \<Rightarrow> 's \<Rightarrow> nat list"
    and returned :: "'op \<Rightarrow> 's \<Rightarrow> nat list"
    and valid :: "'op \<Rightarrow> bool"
  assumes step_wf: "wf s \<Longrightarrow> valid op \<Longrightarrow> wf (step op s)"
    and grant_distinct: "wf s \<Longrightarrow> valid op \<Longrightarrow> distinct (granted op s)"
    and grant_fresh: "wf s \<Longrightarrow> valid op \<Longrightarrow> set (granted op s) \<inter> in_use s = {}"
    and step_in_use: "wf s \<Longrightarrow> valid op \<Longrightarrow>
      in_use (step op s) = in_use s - set (returned op s) \<union> set (granted op s)"
begin

lemma run_wf: "wf s \<Longrightarrow> \<forall>op \<in> set ops. valid op \<Longrightarrow> wf (run_ops step ops s)"
  by (induction ops arbitrary: s) (auto simp: step_wf)

lemma ledger_exact:
  "wf s \<Longrightarrow> \<forall>op \<in> set ops. valid op \<Longrightarrow> distinct book \<Longrightarrow> set book = in_use s \<Longrightarrow>
   distinct (ledger step granted returned ops s book) \<and>
   set (ledger step granted returned ops s book) = in_use (run_ops step ops s)"
proof (induction ops arbitrary: s book)
  case Nil
  then show ?case by simp
next
  case (Cons op ops)
  let ?book = "filter (\<lambda>a. a \<notin> set (returned op s)) book @ granted op s"
  have v: "valid op" "\<forall>op \<in> set ops. valid op" using Cons.prems(2) by auto
  have "distinct ?book"
    using Cons.prems grant_distinct [OF Cons.prems(1) v(1)] grant_fresh [OF Cons.prems(1) v(1)] by auto
  moreover have "set ?book = in_use (step op s)"
    unfolding step_in_use [OF Cons.prems(1) v(1)] using Cons.prems(4) by auto
  ultimately show ?case using Cons.IH [OF step_wf [OF Cons.prems(1) v(1)] v(2)] by simp
qed

end

section \<open>The allocator keeps the contract\<close>

lemma contiguous_alignment_overflow:
  assumes "2 ^ 64 \<le> align * BASE_PAGE_SIZE"
  shows "\<exists>e. contiguous_in_spans fa n align ss = (Inl e, fa)"
proof (induction ss)
  case Nil
  then show ?case by simp
next
  case (Cons s ss)
  have "try_contiguous_at fa s n align j = Some (Inl Frame_Overflow, fa)" for j
    using assms by (auto simp: try_contiguous_at_def checked_mul_def checked_add_def)
  then have "contiguous_in_span fa s n align (j # js) = Some (Inl Frame_Overflow, fa)" for j js by simp
  moreover have "[0..<Suc l] = 0 # [Suc 0..<Suc l]" for l by (simp only: upt_conv_Cons zero_less_Suc)
  ultimately show ?case using Cons.IH by (auto simp: checked_sub_def simp del: upt_Suc)
qed

lemma frame_allocate_contiguous_cases:
  assumes ok: "frames_ok fa"
  shows "(\<exists>e. frame_allocate_contiguous fa n align = (Inl e, fa)) \<or>
    (\<exists>a. free_run fa n align a \<and> run_taken fa n a (frame_allocate_contiguous fa n align))"
proof (cases "n = 0 \<or> align = 0 \<or> \<not> is_power_of_two align \<or> fa_free fa < n")
  case True
  then show ?thesis by (auto simp: frame_allocate_contiguous_def)
next
  case False
  then have eq: "frame_allocate_contiguous fa n align = contiguous_in_spans fa n align (fa_spans fa)"
    and n: "0 < n" by (auto simp: frame_allocate_contiguous_def)
  have spans: "spans_ok 0 (fa_spans fa)" using frames_ok_shape [OF ok] by (simp add: frames_shape_def)
  show ?thesis
  proof (cases "align * BASE_PAGE_SIZE < 2 ^ 64")
    case True
    from contiguous_in_spans_spec [OF ok n True subset_refl spans] show ?thesis
      unfolding eq using run_candidate_free_run [OF ok] by blast
  next
    case False
    then show ?thesis using contiguous_alignment_overflow [of align] by (simp add: eq)
  qed
qed

lemma range_from_pages_pages:
  assumes "range_from_pages a n = Inr rng"
  shows "set (range_pages rng) = (\<lambda>i. a + i * BASE_PAGE_SIZE) ` {..<n}"
proof -
  have "rng = \<lparr>pr_start = a, pr_end = a + n * BASE_PAGE_SIZE\<rparr>"
    using assms range_from_pages_Inr_iff by blast
  then show ?thesis by (auto simp: range_pages_def pages_from_def)
qed

datatype pool_op =
    Op_allocate
  | Op_contiguous nat nat
  | Op_reserve physical_range
  | Op_free nat
  | Op_free_range physical_range

fun pool_exec :: "pool_op \<Rightarrow> frame_allocator \<Rightarrow> frame_allocator" where
  "pool_exec Op_allocate fa = snd (frame_allocate fa)"
| "pool_exec (Op_contiguous n align) fa = snd (frame_allocate_contiguous fa n align)"
| "pool_exec (Op_reserve rng) fa = snd (frame_reserve_range fa rng)"
| "pool_exec (Op_free a) fa = snd (frame_free fa a)"
| "pool_exec (Op_free_range rng) fa = snd (frame_free_range fa rng)"

fun pool_granted :: "pool_op \<Rightarrow> frame_allocator \<Rightarrow> nat list" where
  "pool_granted Op_allocate fa = (case fst (frame_allocate fa) of Inl _ \<Rightarrow> [] | Inr a \<Rightarrow> [a])"
| "pool_granted (Op_contiguous n align) fa =
     (case fst (frame_allocate_contiguous fa n align) of Inl _ \<Rightarrow> [] | Inr rng \<Rightarrow> range_pages rng)"
| "pool_granted _ fa = []"

fun pool_returned :: "pool_op \<Rightarrow> frame_allocator \<Rightarrow> nat list" where
  "pool_returned (Op_free a) fa = (case fst (frame_free fa a) of Inl _ \<Rightarrow> [] | Inr _ \<Rightarrow> [a])"
| "pool_returned (Op_free_range rng) fa =
     (case fst (frame_free_range fa rng) of Inl _ \<Rightarrow> [] | Inr _ \<Rightarrow> range_pages rng)"
| "pool_returned _ fa = []"

text \<open>Every range the code can hold comes from the checked constructor.\<close>

fun pool_op_valid :: "pool_op \<Rightarrow> bool" where
  "pool_op_valid (Op_reserve rng) = range_ok rng"
| "pool_op_valid (Op_free_range rng) = range_ok rng"
| "pool_op_valid _ = True"

lemma frame_reserve_range_pool:
  assumes ok: "frames_ok fa" and rng: "range_ok rng"
    and A: "A = {a \<in> set (frame_addrs fa). range_contains rng a}"
  shows "\<exists>fb. frame_reserve_range fa rng = (Inr (card (free_addrs fa \<inter> A)), fb) \<and>
    pool_step fa fb (free_addrs fa - A) (used_addrs fa) (reserved_addrs fa \<union> (free_addrs fa \<inter> A))"
proof -
  have spans: "spans_ok 0 (fa_spans fa)" using frames_ok_shape [OF ok] by (simp add: frames_shape_def)
  have "0 + fa_free fa < 2 ^ 64"
    using frames_ok_free_bound [OF ok, of "{}"] frames_ok_total_bound [OF ok] by simp
  from reserve_spans_pool [OF ok rng subset_refl spans this A [unfolded frame_addrs_def]] show ?thesis
    by (simp add: frame_reserve_range_def)
qed

text \<open>Everything the contract needs of one operation.\<close>

definition op_effect :: "pool_op \<Rightarrow> frame_allocator \<Rightarrow> bool" where
  "op_effect op fa = (frames_ok (pool_exec op fa) \<and> distinct (pool_granted op fa) \<and>
     set (pool_granted op fa) \<inter> used_addrs fa = {} \<and>
     used_addrs (pool_exec op fa) = used_addrs fa - set (pool_returned op fa) \<union> set (pool_granted op fa))"

lemma op_effect_contiguous: "frames_ok fa \<Longrightarrow> op_effect (Op_contiguous n align) fa"
proof -
  assume ok: "frames_ok fa"
  from frame_allocate_contiguous_cases [OF ok, of n align] show ?thesis
  proof (elim disjE exE conjE)
    fix e assume "frame_allocate_contiguous fa n align = (Inl e, fa)"
    with ok show ?thesis by (simp add: op_effect_def)
  next
    fix a assume run: "free_run fa n align a" and t: "run_taken fa n a (frame_allocate_contiguous fa n align)"
    from t obtain rng fb where out: "frame_allocate_contiguous fa n align = (Inr rng, fb)"
      "range_from_pages a n = Inr rng"
      "pool_step fa fb (free_addrs fa - set (range_pages rng)) (used_addrs fa \<union> set (range_pages rng))
        (reserved_addrs fa)" by (auto simp: run_taken_def)
    have "set (range_pages rng) \<subseteq> free_addrs fa"
      using run range_from_pages_pages [OF out(2)] by (auto simp: free_run_def)
    then have "set (range_pages rng) \<inter> used_addrs fa = {}" using addrs_partition(2) [OF ok] by blast
    moreover have "distinct (range_pages rng)" using sorted_range_pages [of rng] by (simp add: strict_sorted_iff)
    ultimately show ?thesis using out(1,3) by (simp add: op_effect_def pool_step_def)
  qed
qed

lemma op_effect_allocate: "frames_ok fa \<Longrightarrow> op_effect Op_allocate fa"
proof -
  assume ok: "frames_ok fa"
  note spec = frame_allocate_pool [OF ok]
  show ?thesis
  proof (cases "free_addrs fa = {}")
    case True
    with spec ok show ?thesis by (simp add: op_effect_def)
  next
    case False
    then have "Min (free_addrs fa) \<notin> used_addrs fa"
      using addrs_partition(2,6) [OF ok] Min_in [of "free_addrs fa"] by blast
    with spec False show ?thesis by (auto simp: op_effect_def pool_step_def)
  qed
qed

lemma op_effect_release:
  assumes ok: "frames_ok fa"
  shows "op_effect (Op_free a) fa" and "range_ok rng \<Longrightarrow> op_effect (Op_free_range rng) fa"
    and "range_ok rng \<Longrightarrow> op_effect (Op_reserve rng) fa"
proof -
  show "op_effect (Op_free a) fa"
  proof (cases "a \<in> used_addrs fa")
    case True
    with frame_free_pool [OF ok, of a] obtain fb where "frame_free fa a = (Inr (), fb)"
      "pool_step fa fb (free_addrs fa \<union> {a}) (used_addrs fa - {a}) (reserved_addrs fa)" by auto
    then show ?thesis by (simp add: op_effect_def pool_step_def)
  next
    case False
    with frame_free_pool [OF ok, of a] ok show ?thesis by (simp add: op_effect_def)
  qed
  show "op_effect (Op_free_range rng) fa" if "range_ok rng"
  proof (cases "set (range_pages rng) \<subseteq> used_addrs fa")
    case True
    with frame_free_range_pool [OF ok that] obtain fb where "frame_free_range fa rng = (Inr (), fb)"
      "pool_step fa fb (free_addrs fa \<union> set (range_pages rng)) (used_addrs fa - set (range_pages rng))
        (reserved_addrs fa)" by auto
    then show ?thesis by (simp add: op_effect_def pool_step_def)
  next
    case False
    with frame_free_range_pool [OF ok that] ok show ?thesis by (auto simp: op_effect_def)
  qed
  show "op_effect (Op_reserve rng) fa" if "range_ok rng"
    using frame_reserve_range_pool [OF ok that refl] by (auto simp: op_effect_def pool_step_def)
qed

lemma pool_op_effect: "frames_ok fa \<Longrightarrow> pool_op_valid op \<Longrightarrow> op_effect op fa"
  by (cases op) (simp_all add: op_effect_allocate op_effect_contiguous op_effect_release)

interpretation frame_ledger: page_ledger frames_ok used_addrs pool_exec pool_granted pool_returned pool_op_valid
  by unfold_locales (use pool_op_effect in \<open>auto simp: op_effect_def\<close>)

section \<open>Properties\<close>

text \<open>A small allocator: frames 8192, 12288, 16384 and 32768 to 45056, the first one taken.\<close>

definition sample_frames :: frame_allocator where
  "sample_frames =
     \<lparr>fa_spans = [\<lparr>sp_range = \<lparr>pr_start = 8192, pr_end = 20480\<rparr>, sp_first = 0\<rparr>,
                  \<lparr>sp_range = \<lparr>pr_start = 32768, pr_end = 49152\<rparr>, sp_first = 3\<rparr>],
      fa_allocated = [1], fa_reserved = [0], fa_total = 7, fa_free = 6\<rparr>"

lemma free_addrs_code:
  "free_addrs fa = set (map ((!) (frame_addrs fa))
     (filter (\<lambda>i. \<not> alloc_bit fa i \<and> \<not> res_bit fa i) [0..<fa_total fa]))"
  by (auto simp: free_addrs_def free_indices_def)

lemma used_addrs_code:
  "used_addrs fa = set (map ((!) (frame_addrs fa)) (filter (alloc_bit fa) [0..<fa_total fa]))"
  by (auto simp: used_addrs_def)

lemma free_indices_code:
  "free_indices fa = set (filter (\<lambda>i. \<not> alloc_bit fa i \<and> \<not> res_bit fa i) [0..<fa_total fa])"
  by (auto simp: free_indices_def)

lemma sample_frame_addrs:
  "frame_addrs sample_frames = [8192, 12288, 16384, 32768, 36864, 40960, 45056]"
  by (simp add: frame_addrs_def sample_frames_def range_pages_def pages_from_def range_page_count_def
      range_byte_count_def BASE_PAGE_SIZE_def upt_conv_Cons)

lemma sample_bits:
  "alloc_bit sample_frames 0" "i \<in> {1..6} \<Longrightarrow> \<not> alloc_bit sample_frames i"
  "i < 7 \<Longrightarrow> \<not> res_bit sample_frames i"
  by (auto simp: alloc_bit_def res_bit_def sample_frames_def bit_1_iff)

lemma sample_frames_ok: "frames_ok sample_frames"
proof -
  have "frames_shape sample_frames"
    unfolding frames_shape_def sample_frame_addrs
    by (simp add: sample_frames_def range_ok_def range_page_count_def range_byte_count_def BASE_PAGE_SIZE_def)
  moreover have "free_indices sample_frames = {1..6}"
    using sample_bits by (auto simp: free_indices_def sample_frames_def not_less_eq_eq Suc_le_eq
        intro!: Suc_leI gr0I)
  moreover have "fa_total sample_frames = 7" "fa_free sample_frames = 6" by (simp_all add: sample_frames_def)
  ultimately show ?thesis using sample_bits(3) by (auto simp: frames_ok_def)
qed

lemma sample_free: "free_addrs sample_frames = {12288, 16384, 32768, 36864, 40960, 45056}"
  "used_addrs sample_frames = {8192}"
proof -
  have tot: "[0..<fa_total sample_frames] = [0, 1, 2, 3, 4, 5, 6]"
    by (simp add: sample_frames_def upt_conv_Cons)
  show "free_addrs sample_frames = {12288, 16384, 32768, 36864, 40960, 45056}"
    "used_addrs sample_frames = {8192}"
    unfolding free_addrs_code used_addrs_code sample_frame_addrs tot using sample_bits by simp_all
qed

theorem frame_allocate_contiguous_first_fit_witness:
  "run_taken sample_frames 2 (LEAST a. free_run sample_frames 2 4 a)
     (frame_allocate_contiguous sample_frames 2 4)"
proof -
  have "free_run sample_frames 2 4 32768"
    unfolding free_run_def sample_free by (auto simp: BASE_PAGE_SIZE_def less_Suc_eq numeral_2_eq_2)
  then have "\<exists>a. free_run sample_frames 2 4 a" ..
  moreover have "is_power_of_two 4" by (simp add: is_power_of_two_iff) (rule exI [of _ 2], simp)
  moreover have "(4 :: nat) * BASE_PAGE_SIZE < 2 ^ 64" by (simp add: BASE_PAGE_SIZE_def)
  ultimately show ?thesis
    using frame_allocate_contiguous_first_fit [OF sample_frames_ok, of 2 4] by simp
qed

text \<open>
  The single-frame operations are exact. \<open>allocate\<close> returns the lowest free
  frame and moves only that frame to the allocated set, or reports exhaustion when
  nothing is free; \<open>free\<close> returns an allocated frame and only that one, reports a
  double free for a free frame and an invalid frame for everything else, reserved
  frames included, and changes nothing then.
\<close>

lemma frame_single_exact:
  assumes "frames_ok fa"
  shows "(if free_addrs fa = {} then frame_allocate fa = (Inl Frame_Exhausted, fa)
     else \<exists>fb. frame_allocate fa = (Inr (Min (free_addrs fa)), fb) \<and>
       pool_step fa fb (free_addrs fa - {Min (free_addrs fa)})
         (used_addrs fa \<union> {Min (free_addrs fa)}) (reserved_addrs fa)) \<and>
    (if a \<in> used_addrs fa
     then \<exists>fb. frame_free fa a = (Inr (), fb) \<and>
       pool_step fa fb (free_addrs fa \<union> {a}) (used_addrs fa - {a}) (reserved_addrs fa)
     else frame_free fa a = (Inl (if a \<in> free_addrs fa then Frame_DoubleFree else Frame_InvalidFrame), fa))"
  using frame_allocate_pool [OF assms] frame_free_pool [OF assms, of a] by (rule conjI)

text \<open>
  \<open>reserve_range\<close> withdraws exactly the frames of the range that are still free,
  returns their number and leaves allocated frames allocated; reserving the same
  range again finds nothing more to withdraw.
\<close>

lemma frame_reserve_range_exact:
  assumes "frames_ok fa" and "range_ok rng"
  shows "\<exists>fb fc. frame_reserve_range fa rng = (Inr (card {a \<in> free_addrs fa. range_contains rng a}), fb) \<and>
    pool_step fa fb {a \<in> free_addrs fa. \<not> range_contains rng a} (used_addrs fa)
      (reserved_addrs fa \<union> {a \<in> free_addrs fa. range_contains rng a}) \<and>
    frame_reserve_range fb rng = (Inr 0, fc) \<and>
    pool_step fb fc (free_addrs fb) (used_addrs fb) (reserved_addrs fb)"
proof -
  have cover: "free_addrs f \<inter> {a \<in> set (frame_addrs f). range_contains rng a} =
      {a \<in> free_addrs f. range_contains rng a}" "free_addrs f - {a \<in> set (frame_addrs f). range_contains rng a} =
      {a \<in> free_addrs f. \<not> range_contains rng a}" if "frames_ok f" for f
    using addrs_partition(1) [OF that] by auto
  obtain fb where fb: "frame_reserve_range fa rng = (Inr (card {a \<in> free_addrs fa. range_contains rng a}), fb)"
    "pool_step fa fb {a \<in> free_addrs fa. \<not> range_contains rng a} (used_addrs fa)
      (reserved_addrs fa \<union> {a \<in> free_addrs fa. range_contains rng a})"
    using frame_reserve_range_pool [OF assms refl] unfolding cover [OF assms(1)] by blast
  have okb: "frames_ok fb" and "free_addrs fb = {a \<in> free_addrs fa. \<not> range_contains rng a}"
    using fb(2) by (simp_all add: pool_step_def)
  then have none: "{a \<in> free_addrs fb. range_contains rng a} = {}"
    "{a \<in> free_addrs fb. \<not> range_contains rng a} = free_addrs fb" by auto
  from frame_reserve_range_pool [OF okb assms(2) refl] fb show ?thesis
    unfolding cover [OF okb] none by auto
qed

text \<open>
  \<open>free_range\<close> is all or nothing: when every page of the range is allocated it
  releases precisely those pages, and otherwise (one page free, reserved or not a
  frame) it fails and no frame changes state, so a range cannot be half released.
\<close>

lemma frame_free_range_all_or_nothing:
  assumes "frames_ok fa" and "range_ok rng"
  shows "case frame_free_range fa rng of
      (Inl e, fb) \<Rightarrow> fb = fa \<and> \<not> set (range_pages rng) \<subseteq> used_addrs fa
    | (Inr _, fb) \<Rightarrow> set (range_pages rng) \<subseteq> used_addrs fa \<and> fa_free fb = fa_free fa + range_page_count rng \<and>
        pool_step fa fb (free_addrs fa \<union> set (range_pages rng)) (used_addrs fa - set (range_pages rng))
          (reserved_addrs fa)"
proof (cases "set (range_pages rng) \<subseteq> used_addrs fa")
  case True
  with frame_free_range_pool [OF assms] obtain fb where fb: "frame_free_range fa rng = (Inr (), fb)"
    "pool_step fa fb (free_addrs fa \<union> set (range_pages rng)) (used_addrs fa - set (range_pages rng))
      (reserved_addrs fa)" by auto
  then have okb: "frames_ok fb" "free_addrs fb = free_addrs fa \<union> set (range_pages rng)"
    by (simp_all add: pool_step_def)
  have "card (free_addrs fa \<union> set (range_pages rng)) = card (free_addrs fa) + card (set (range_pages rng))"
    using True addrs_partition(2,6) [OF assms(1)] by (intro card_Un_disjoint) auto
  moreover have "card (set (range_pages rng)) = range_page_count rng"
    using distinct_card [of "range_pages rng"] sorted_range_pages [of rng] by (simp add: strict_sorted_iff)
  ultimately have "fa_free fb = fa_free fa + range_page_count rng"
    using addrs_partition(5) [OF okb(1)] addrs_partition(5) [OF assms(1)] okb(2) by simp
  with fb True show ?thesis by simp
next
  case False
  with frame_free_range_pool [OF assms] obtain e where "frame_free_range fa rng = (Inl e, fa)" by auto
  with False show ?thesis by simp
qed

text \<open>
  C3. No frame is live twice. Over any sequence of allocator operations, starting
  with nothing in use, the pages a client was granted and has not returned are
  pairwise distinct and are exactly the pages the allocator holds as allocated.
\<close>

theorem frame_ledger_exact:
  assumes "frames_ok fa" and "used_addrs fa = {}" and "\<forall>op \<in> set ops. pool_op_valid op"
  shows "distinct (ledger pool_exec pool_granted pool_returned ops fa []) \<and>
    set (ledger pool_exec pool_granted pool_returned ops fa []) = used_addrs (run_ops pool_exec ops fa) \<and>
    frames_ok (run_ops pool_exec ops fa)"
  using frame_ledger.ledger_exact [of fa ops "[]"] frame_ledger.run_wf [of fa ops] assms by simp

theorem frame_ledger_exact_witness:
  "distinct (ledger pool_exec pool_granted pool_returned [Op_allocate, Op_contiguous 2 2, Op_free 12288, Op_allocate]
     (snd (frame_free sample_frames 8192)) [])"
proof -
  have "frames_ok (snd (frame_free sample_frames 8192)) \<and> used_addrs (snd (frame_free sample_frames 8192)) = {}"
    using frame_free_pool [OF sample_frames_ok, of 8192] by (auto simp: sample_free pool_step_def)
  with frame_ledger_exact [of "snd (frame_free sample_frames 8192)"
      "[Op_allocate, Op_contiguous 2 2, Op_free 12288, Op_allocate]"] show ?thesis by simp
qed

end
