(* ===== verification/Mapping_Plan.thy ===== *)
theory Mapping_Plan
  imports Physical_Range
begin

text \<open>
  Virtual ranges, mapping records and the mapping plan of one address space:
  \<open>crates/runtime/troe-memory/src/mapping.rs\<close>. The plan invariant (sorted,
  virtually disjoint, no physical alias that joins write and execute) is kept by
  \<open>insert\<close>, which extends the address translation by exactly the new mapping.
\<close>

section \<open>Types\<close>

definition MAX_MAPPINGS :: nat where
  "MAX_MAPPINGS = 512"

datatype mapping_plan_error =
    Plan_Unaligned | Plan_Empty | Plan_Overflow | Plan_LengthMismatch | Plan_Unreadable
  | Plan_WritableExecutable | Plan_ExecutableDevice | Plan_InvalidUserOwner
  | Plan_VirtualOverlap | Plan_PhysicalOverlap | Plan_TooManyMappings

record virtual_range =
  vr_start :: nat
  vr_end :: nat

record mapping_permissions =
  mp_read :: bool
  mp_write :: bool
  mp_execute :: bool

definition READ_ONLY :: mapping_permissions where
  "READ_ONLY = \<lparr>mp_read = True, mp_write = False, mp_execute = False\<rparr>"

definition READ_WRITE :: mapping_permissions where
  "READ_WRITE = \<lparr>mp_read = True, mp_write = True, mp_execute = False\<rparr>"

definition READ_EXECUTE :: mapping_permissions where
  "READ_EXECUTE = \<lparr>mp_read = True, mp_write = False, mp_execute = True\<rparr>"

datatype mapping_memory_type = Mem_Normal | Mem_Device

datatype mapping_owner = Own_KernelImage | Own_KernelRuntime | Own_MachineDevice | Own_IsolatedTask

datatype mapping_lifetime = Life_Boot | Life_Kernel | Life_Task

datatype mapping_privilege = Priv_Kernel | Priv_User

record mapping =
  m_virtual :: virtual_range
  m_physical :: physical_range
  m_permissions :: mapping_permissions
  m_memory_type :: mapping_memory_type
  m_owner :: mapping_owner
  m_lifetime :: mapping_lifetime
  m_remappable :: bool
  m_privilege :: mapping_privilege

type_synonym mapping_plan = "mapping list"

section \<open>Operations\<close>

definition virtual_from_pages :: "nat \<Rightarrow> nat \<Rightarrow> (mapping_plan_error, virtual_range) result" where
  "virtual_from_pages start page_count =
     (if start mod BASE_PAGE_SIZE \<noteq> 0 then Inl Plan_Unaligned
      else if page_count = 0 then Inl Plan_Empty
      else rbind (ok_or Plan_Overflow (checked_mul 64 page_count BASE_PAGE_SIZE)) (\<lambda>byte_count.
           rbind (ok_or Plan_Overflow (checked_add 64 start byte_count)) (\<lambda>end.
           Inr \<lparr>vr_start = start, vr_end = end\<rparr>)))"

definition virtual_byte_count :: "virtual_range \<Rightarrow> nat" where
  "virtual_byte_count r = vr_end r - vr_start r"

definition virtual_page_count :: "virtual_range \<Rightarrow> nat" where
  "virtual_page_count r = virtual_byte_count r div BASE_PAGE_SIZE"

definition mapping_new ::
    "virtual_range \<Rightarrow> physical_range \<Rightarrow> mapping_permissions \<Rightarrow> mapping_memory_type \<Rightarrow> mapping_owner \<Rightarrow>
     mapping_lifetime \<Rightarrow> bool \<Rightarrow> (mapping_plan_error, mapping) result" where
  "mapping_new vr pr perms memory_type owner lifetime remappable =
     (if virtual_byte_count vr \<noteq> range_byte_count pr then Inl Plan_LengthMismatch
      else if \<not> mp_read perms then Inl Plan_Unreadable
      else if mp_write perms \<and> mp_execute perms then Inl Plan_WritableExecutable
      else if memory_type = Mem_Device \<and> mp_execute perms then Inl Plan_ExecutableDevice
      else Inr \<lparr>m_virtual = vr, m_physical = pr, m_permissions = perms, m_memory_type = memory_type,
             m_owner = owner, m_lifetime = lifetime, m_remappable = remappable,
             m_privilege = Priv_Kernel\<rparr>)"

definition mapping_user ::
    "virtual_range \<Rightarrow> physical_range \<Rightarrow> mapping_permissions \<Rightarrow> mapping_owner \<Rightarrow> mapping_lifetime \<Rightarrow>
     (mapping_plan_error, mapping) result" where
  "mapping_user vr pr perms owner lifetime =
     (if owner \<noteq> Own_IsolatedTask \<or> lifetime \<noteq> Life_Task then Inl Plan_InvalidUserOwner
      else rbind (mapping_new vr pr perms Mem_Normal owner lifetime False) (\<lambda>m.
           Inr (m\<lparr>m_privilege := Priv_User\<rparr>)))"

definition mapping_identity ::
    "physical_range \<Rightarrow> mapping_permissions \<Rightarrow> mapping_memory_type \<Rightarrow> mapping_owner \<Rightarrow> mapping_lifetime \<Rightarrow>
     bool \<Rightarrow> (mapping_plan_error, mapping) result" where
  "mapping_identity pr perms memory_type owner lifetime remappable =
     rbind (virtual_from_pages (pr_start pr) (range_page_count pr)) (\<lambda>vr.
       mapping_new vr pr perms memory_type owner lifetime remappable)"

definition plan_new :: mapping_plan where
  "plan_new = []"

definition physical_alias_is_safe :: "mapping \<Rightarrow> mapping \<Rightarrow> bool" where
  "physical_alias_is_safe left right =
     (if m_memory_type left \<noteq> m_memory_type right then False
      else let writable = mp_write (m_permissions left) \<or> mp_write (m_permissions right);
               executable = mp_execute (m_permissions left) \<or> mp_execute (m_permissions right)
           in \<not> (writable \<and> executable))"

definition ranges_overlap :: "physical_range \<Rightarrow> physical_range \<Rightarrow> bool" where
  "ranges_overlap left right = (pr_start left < pr_end right \<and> pr_start right < pr_end left)"

text \<open>
  \<open>partition_point\<close> on a slice that is sorted by the key returns the length of the
  longest prefix that satisfies the predicate.
\<close>

definition plan_insert :: "bool \<Rightarrow> mapping_plan \<Rightarrow> mapping \<Rightarrow> (mapping_plan_error, mapping_plan) result" where
  "plan_insert reserve_ok ms m =
     (if MAX_MAPPINGS \<le> length ms then Inl Plan_TooManyMappings
      else
       let start = vr_start (m_virtual m);
           index = length (takeWhile (\<lambda>existing. vr_start (m_virtual existing) < start) ms)
       in if 0 < index \<and> start < vr_end (m_virtual (ms ! (index - 1))) then Inl Plan_VirtualOverlap
          else if index < length ms \<and> vr_start (m_virtual (ms ! index)) < vr_end (m_virtual m)
          then Inl Plan_VirtualOverlap
          else if list_ex (\<lambda>existing. ranges_overlap (m_physical existing) (m_physical m) \<and>
                    \<not> physical_alias_is_safe existing m) ms
          then Inl Plan_PhysicalOverlap
          else if \<not> reserve_ok then Inl Plan_TooManyMappings
          else Inr (take index ms @ m # drop index ms))"

fun plan_page_count_loop :: "nat \<Rightarrow> mapping_plan \<Rightarrow> (mapping_plan_error, nat) result" where
  "plan_page_count_loop total_pages [] = Inr total_pages"
| "plan_page_count_loop total_pages (m # ms) =
     rbind (ok_or Plan_Overflow (checked_add 64 total_pages (virtual_page_count (m_virtual m))))
       (\<lambda>next. plan_page_count_loop next ms)"

definition plan_page_count :: "mapping_plan \<Rightarrow> (mapping_plan_error, nat) result" where
  "plan_page_count ms = plan_page_count_loop 0 ms"

fun enforces_global_w_xor_x :: "mapping_plan \<Rightarrow> bool" where
  "enforces_global_w_xor_x [] = True"
| "enforces_global_w_xor_x (m # ms) =
     (if mp_write (m_permissions m) \<and> mp_execute (m_permissions m) then False
      else if list_ex (\<lambda>other. ranges_overlap (m_physical m) (m_physical other) \<and>
                \<not> physical_alias_is_safe m other) ms then False
      else enforces_global_w_xor_x ms)"

section \<open>Invariant and abstract view\<close>

abbreviation m_start :: "mapping \<Rightarrow> nat" where
  "m_start m \<equiv> vr_start (m_virtual m)"

abbreviation m_end :: "mapping \<Rightarrow> nat" where
  "m_end m \<equiv> vr_end (m_virtual m)"

definition mapping_ok :: "mapping \<Rightarrow> bool" where
  "mapping_ok m =
     (BASE_PAGE_SIZE dvd m_start m \<and> BASE_PAGE_SIZE dvd m_end m \<and> m_start m < m_end m \<and> m_end m < 2 ^ 64 \<and>
      range_ok (m_physical m) \<and> virtual_byte_count (m_virtual m) = range_byte_count (m_physical m) \<and>
      mp_read (m_permissions m) \<and> \<not> (mp_write (m_permissions m) \<and> mp_execute (m_permissions m)) \<and>
      (m_memory_type m = Mem_Device \<longrightarrow> \<not> mp_execute (m_permissions m)) \<and>
      (m_privilege m = Priv_User \<longrightarrow>
        m_memory_type m = Mem_Normal \<and> m_owner m = Own_IsolatedTask \<and> m_lifetime m = Life_Task \<and>
        \<not> m_remappable m))"

definition alias_ok :: "mapping \<Rightarrow> mapping \<Rightarrow> bool" where
  "alias_ok a b = (ranges_overlap (m_physical a) (m_physical b) \<longrightarrow> physical_alias_is_safe a b)"

definition plan_ok :: "mapping_plan \<Rightarrow> bool" where
  "plan_ok ms = (sorted_wrt (\<lambda>a b. m_end a \<le> m_start b) ms \<and> (\<forall>m \<in> set ms. mapping_ok m) \<and>
     sorted_wrt alias_ok ms \<and> length ms \<le> MAX_MAPPINGS)"

definition maps_address :: "nat \<Rightarrow> mapping \<Rightarrow> bool" where
  "maps_address va m = (m_start m \<le> va \<and> va < m_end m)"

definition plan_translate :: "mapping_plan \<Rightarrow> nat \<Rightarrow> (nat \<times> mapping) option" where
  "plan_translate ms va =
     (case filter (maps_address va) ms of
        [] \<Rightarrow> None
      | m # _ \<Rightarrow> Some (pr_start (m_physical m) + (va - m_start m), m))"

lemma virtual_from_pages_Inr_iff:
  "virtual_from_pages start n = Inr r \<longleftrightarrow>
     BASE_PAGE_SIZE dvd start \<and> 0 < n \<and> start + n * BASE_PAGE_SIZE < 2 ^ 64 \<and>
     r = \<lparr>vr_start = start, vr_end = start + n * BASE_PAGE_SIZE\<rparr>"
  by (auto simp: virtual_from_pages_def result_simps checked_simps mod_eq_0_iff_dvd)

lemma alias_ok_sym: "alias_ok a b \<longleftrightarrow> alias_ok b a"
  by (auto simp: alias_ok_def ranges_overlap_def physical_alias_is_safe_def Let_def)

lemma ranges_overlap_iff:
  "pr_start a < pr_end a \<Longrightarrow> pr_start b < pr_end b \<Longrightarrow>
   ranges_overlap a b \<longleftrightarrow> range_bytes a \<inter> range_bytes b \<noteq> {}"
  unfolding ranges_overlap_def range_bytes_def by (auto simp: ex_in_conv [symmetric])

lemma plan_ok_nth_less: "plan_ok ms \<Longrightarrow> i < j \<Longrightarrow> j < length ms \<Longrightarrow> m_end (ms ! i) \<le> m_start (ms ! j)"
  by (simp add: plan_ok_def sorted_wrt_iff_nth_less)

section \<open>Insertion\<close>

definition virtual_overlap :: "mapping \<Rightarrow> mapping \<Rightarrow> bool" where
  "virtual_overlap a b = (m_start a < m_end b \<and> m_start b < m_end a)"

text \<open>
  The plan split at the insertion point. Only the two neighbours are inspected by
  the code; sortedness makes them decide for the whole plan.
\<close>

lemma insertion_point:
  assumes ok: "plan_ok (pre @ post)" and m: "m_start m < m_end m"
    and pre: "\<forall>e \<in> set pre. m_start e < m_start m" and post: "post \<noteq> [] \<longrightarrow> m_start m \<le> m_start (hd post)"
  shows "(\<exists>e \<in> set (pre @ post). virtual_overlap e m) \<longleftrightarrow>
    (pre \<noteq> [] \<and> m_start m < m_end (last pre)) \<or> (post \<noteq> [] \<and> m_start (hd post) < m_end m)"
proof -
  have wf: "m_start e < m_end e" if "e \<in> set (pre @ post)" for e
    using ok that by (auto simp: plan_ok_def mapping_ok_def)
  have sorted: "sorted_wrt (\<lambda>a b. m_end a \<le> m_start b) pre" "sorted_wrt (\<lambda>a b. m_end a \<le> m_start b) post"
    using ok by (auto simp: plan_ok_def sorted_wrt_append)
  have last: "m_end e \<le> m_end (last pre)" if "e \<in> set pre" for e
  proof (cases pre rule: rev_cases)
    case (snoc xs x)
    with sorted(1) that wf [of x] show ?thesis by (auto simp: sorted_wrt_append)
  qed (use that in simp)
  have hd: "m_start (hd post) \<le> m_start e" if "e \<in> set post" for e
  proof (cases post)
    case (Cons x xs)
    with sorted(2) that wf [of x] show ?thesis by auto
  qed (use that in simp)
  have A: "(\<exists>e \<in> set pre. virtual_overlap e m) \<longleftrightarrow> pre \<noteq> [] \<and> m_start m < m_end (last pre)"
  proof
    assume "\<exists>e \<in> set pre. virtual_overlap e m"
    then show "pre \<noteq> [] \<and> m_start m < m_end (last pre)"
      using last by (auto simp: virtual_overlap_def intro: less_le_trans)
  next
    assume "pre \<noteq> [] \<and> m_start m < m_end (last pre)"
    with pre m show "\<exists>e \<in> set pre. virtual_overlap e m"
      by (intro bexI [of _ "last pre"]) (auto simp: virtual_overlap_def intro: less_trans)
  qed
  have B: "(\<exists>e \<in> set post. virtual_overlap e m) \<longleftrightarrow> post \<noteq> [] \<and> m_start (hd post) < m_end m"
  proof
    assume "\<exists>e \<in> set post. virtual_overlap e m"
    then show "post \<noteq> [] \<and> m_start (hd post) < m_end m"
      using hd by (auto simp: virtual_overlap_def intro: le_less_trans)
  next
    assume "post \<noteq> [] \<and> m_start (hd post) < m_end m"
    with post wf [of "hd post"] show "\<exists>e \<in> set post. virtual_overlap e m"
      by (intro bexI [of _ "hd post"]) (auto simp: virtual_overlap_def intro: le_less_trans)
  qed
  from A B show ?thesis by auto
qed

lemma plan_insert_eq:
  assumes ok: "plan_ok ms" and m: "mapping_ok m"
  shows "plan_insert reserve_ok ms m =
    (if MAX_MAPPINGS \<le> length ms then Inl Plan_TooManyMappings
     else if \<exists>e \<in> set ms. virtual_overlap e m then Inl Plan_VirtualOverlap
     else if \<exists>e \<in> set ms. \<not> alias_ok e m then Inl Plan_PhysicalOverlap
     else if \<not> reserve_ok then Inl Plan_TooManyMappings
     else Inr (takeWhile (\<lambda>e. m_start e < m_start m) ms @ m # dropWhile (\<lambda>e. m_start e < m_start m) ms))"
proof -
  define pre post where "pre = takeWhile (\<lambda>e. m_start e < m_start m) ms"
    and "post = dropWhile (\<lambda>e. m_start e < m_start m) ms"
  have split: "ms = pre @ post" by (simp add: pre_def post_def)
  have ov: "(\<exists>e \<in> set ms. virtual_overlap e m) \<longleftrightarrow>
    (pre \<noteq> [] \<and> m_start m < m_end (last pre)) \<or> (post \<noteq> [] \<and> m_start (hd post) < m_end m)"
    unfolding split
  proof (rule insertion_point)
    show "plan_ok (pre @ post)" using ok split by simp
    show "m_start m < m_end m" using m by (simp add: mapping_ok_def)
    show "\<forall>e \<in> set pre. m_start e < m_start m" by (auto simp: pre_def dest: set_takeWhileD)
    show "post \<noteq> [] \<longrightarrow> m_start m \<le> m_start (hd post)"
      using hd_dropWhile [of "\<lambda>e. m_start e < m_start m" ms] by (simp add: post_def not_less [symmetric])
  qed
  have nb: "0 < length pre \<and> m_start m < m_end (ms ! (length pre - 1)) \<longleftrightarrow>
      pre \<noteq> [] \<and> m_start m < m_end (last pre)"
    "length pre < length ms \<and> m_start (ms ! length pre) < m_end m \<longleftrightarrow> post \<noteq> [] \<and> m_start (hd post) < m_end m"
    by (auto simp: split nth_append last_conv_nth hd_conv_nth)
  have al: "list_ex (\<lambda>existing. ranges_overlap (m_physical existing) (m_physical m) \<and>
      \<not> physical_alias_is_safe existing m) ms \<longleftrightarrow> (\<exists>e \<in> set ms. \<not> alias_ok e m)"
    by (auto simp: list_ex_iff alias_ok_def)
  have parts: "take (length pre) ms = pre" "drop (length pre) ms = post" by (simp_all add: split)
  show ?thesis
    unfolding plan_insert_def Let_def pre_def [symmetric] post_def [symmetric] nb al parts ov by simp
qed

lemma plan_insert_Inr:
  assumes ok: "plan_ok ms" and m: "mapping_ok m" and ins: "plan_insert reserve_ok ms m = Inr ms'"
  shows "plan_ok ms'" and "set ms' = insert m (set ms)"
proof -
  define pre post where "pre = takeWhile (\<lambda>e. m_start e < m_start m) ms"
    and "post = dropWhile (\<lambda>e. m_start e < m_start m) ms"
  have split: "ms = pre @ post" by (simp add: pre_def post_def)
  have ms': "ms' = pre @ m # post" and len: "length ms < MAX_MAPPINGS"
    and disj: "\<forall>e \<in> set ms. \<not> virtual_overlap e m" and al: "\<forall>e \<in> set ms. alias_ok e m"
    using ins unfolding plan_insert_eq [OF ok m] pre_def post_def by (auto split: if_splits)
  have sub: "set pre \<subseteq> set ms" "set post \<subseteq> set ms" by (auto simp: split)
  show "set ms' = insert m (set ms)"
    by (simp add: ms' split)
  have wf: "m_start m < m_end m" using m by (simp add: mapping_ok_def)
  have all: "sorted_wrt (\<lambda>a b. m_end a \<le> m_start b) (pre @ post)" "sorted_wrt alias_ok (pre @ post)"
    using ok by (simp_all add: plan_ok_def split)
  have before: "m_end e \<le> m_start m" if "e \<in> set pre" for e
    using disj sub(1) that wf set_takeWhileD [OF that [unfolded pre_def]] by (fastforce simp: virtual_overlap_def)
  have after: "m_end m \<le> m_start e" if e: "e \<in> set post" for e
  proof -
    obtain x xs where x: "post = x # xs" using e by (cases post) auto
    then have "m_start m \<le> m_start x"
      using hd_dropWhile [of "\<lambda>e. m_start e < m_start m" ms] by (simp add: post_def not_less [symmetric])
    moreover have "m_start x < m_end x" "m_start e < m_end e"
      using ok e sub(2) x by (auto simp: plan_ok_def mapping_ok_def)
    moreover from this have "m_start x \<le> m_start e"
      using all(1) e x by (auto simp: sorted_wrt_append intro: order_trans [OF less_imp_le])
    ultimately show ?thesis using disj sub(2) e by (fastforce simp: virtual_overlap_def)
  qed
  have "sorted_wrt (\<lambda>a b. m_end a \<le> m_start b) ms'"
    using all(1) before after by (auto simp: ms' sorted_wrt_append intro: order_trans)
  moreover have "sorted_wrt alias_ok ms'"
    using all(2) al sub alias_ok_sym by (auto simp: ms' sorted_wrt_append)
  moreover have "length ms' \<le> MAX_MAPPINGS"
    using len by (simp add: ms' split)
  ultimately show "plan_ok ms'" using ok m sub by (auto simp: plan_ok_def ms')
qed

section \<open>Translation\<close>

lemma plan_ok_unique:
  assumes "plan_ok ms" and "a \<in> set ms" and "b \<in> set ms" and "maps_address va a" and "maps_address va b"
  shows "a = b"
proof -
  obtain i j where ij: "i < length ms" "j < length ms" "ms ! i = a" "ms ! j = b"
    using assms(2,3) by (auto simp: in_set_conv_nth)
  show ?thesis
  proof (rule ccontr)
    assume "a \<noteq> b"
    with ij have "i < j \<or> j < i" by (metis nat_neq_iff)
    with plan_ok_nth_less [OF assms(1)] ij assms(4,5) show False
      by (fastforce simp: maps_address_def)
  qed
qed

lemma plan_translate_Some_iff:
  assumes "plan_ok ms"
  shows "plan_translate ms va = Some (pa, m) \<longleftrightarrow>
    m \<in> set ms \<and> maps_address va m \<and> pa = pr_start (m_physical m) + (va - m_start m)"
proof (cases "filter (maps_address va) ms")
  case Nil
  then show ?thesis by (auto simp: plan_translate_def filter_empty_conv)
next
  case (Cons x xs)
  then have "x \<in> set ms" "maps_address va x" by (metis filter_eq_Cons_iff in_set_conv_decomp)+
  with plan_ok_unique [OF assms] Cons show ?thesis by (auto simp: plan_translate_def)
qed

lemma plan_translate_None_iff: "plan_translate ms va = None \<longleftrightarrow> (\<forall>m \<in> set ms. \<not> maps_address va m)"
proof -
  have "plan_translate ms va = None \<longleftrightarrow> filter (maps_address va) ms = []"
    by (simp add: plan_translate_def split: list.splits)
  then show ?thesis by (simp add: filter_empty_conv)
qed

lemma plan_translate_insert:
  assumes ok: "plan_ok ms" and m: "mapping_ok m" and ins: "plan_insert reserve_ok ms m = Inr ms'"
  shows "plan_translate ms' va =
    (if maps_address va m then Some (pr_start (m_physical m) + (va - m_start m), m) else plan_translate ms va)"
proof -
  note ok' = plan_insert_Inr(1) [OF ok m ins] and set' = plan_insert_Inr(2) [OF ok m ins]
  show ?thesis
  proof (cases "maps_address va m")
    case True
    then show ?thesis by (simp add: plan_translate_Some_iff [OF ok'] set')
  next
    case False
    show ?thesis
    proof (cases "plan_translate ms va")
      case None
      then have "plan_translate ms' va = None" using False by (simp add: plan_translate_None_iff set')
      with None False show ?thesis by simp
    next
      case (Some pm)
      obtain pa q where "pm = (pa, q)" by (cases pm)
      with Some have "plan_translate ms' va = Some (pa, q)"
        by (simp add: plan_translate_Some_iff [OF ok'] plan_translate_Some_iff [OF ok] set')
      with Some False \<open>pm = (pa, q)\<close> show ?thesis by simp
    qed
  qed
qed

section \<open>Write xor execute\<close>

lemma enforces_iff:
  "enforces_global_w_xor_x ms \<longleftrightarrow>
    (\<forall>m \<in> set ms. \<not> (mp_write (m_permissions m) \<and> mp_execute (m_permissions m))) \<and> sorted_wrt alias_ok ms"
  by (induction ms) (auto simp: list_ex_iff alias_ok_def)

text \<open>Bytes reached through two mappings, on physical addresses.\<close>

lemma enforces_no_alias:
  assumes "enforces_global_w_xor_x ms" and "a \<in> set ms" and "b \<in> set ms"
    and "range_contains (m_physical a) pa" and "range_contains (m_physical b) pa"
    and "mp_write (m_permissions a)"
  shows "\<not> mp_execute (m_permissions b)"
proof -
  obtain i j where ij: "i < length ms" "j < length ms" "ms ! i = a" "ms ! j = b"
    using assms(2,3) by (auto simp: in_set_conv_nth)
  have ov: "ranges_overlap (m_physical a) (m_physical b)" "ranges_overlap (m_physical b) (m_physical a)"
    using assms(4,5) by (auto simp: range_contains_def ranges_overlap_def)
  consider "a = b" | "i < j" | "j < i" using ij by (metis nat_neq_iff)
  then have "a = b \<or> alias_ok a b \<or> alias_ok b a"
    using assms(1) ij by (auto simp: enforces_iff sorted_wrt_iff_nth_less)
  with assms(1,2,6) ov show ?thesis
    by (auto simp: enforces_iff alias_ok_def physical_alias_is_safe_def Let_def split: if_splits)
qed

lemma translate_in_physical:
  assumes "mapping_ok m" and "maps_address va m"
  shows "range_contains (m_physical m) (pr_start (m_physical m) + (va - m_start m))"
  using assms by (auto simp: mapping_ok_def maps_address_def range_contains_def virtual_byte_count_def
      range_byte_count_def range_ok_def)

fun plan_insert_all :: "mapping_plan \<Rightarrow> (bool \<times> mapping) list \<Rightarrow> mapping_plan" where
  "plan_insert_all ms [] = ms"
| "plan_insert_all ms ((reserve_ok, m) # rest) =
     plan_insert_all (case plan_insert reserve_ok ms m of Inl _ \<Rightarrow> ms | Inr ms' \<Rightarrow> ms') rest"

lemma plan_insert_all_ok:
  "plan_ok ms \<Longrightarrow> \<forall>(r, m) \<in> set ins. mapping_ok m \<Longrightarrow> plan_ok (plan_insert_all ms ins)"
proof (induction ins arbitrary: ms)
  case (Cons i ins)
  obtain r m where i: "i = (r, m)" by (cases i)
  with Cons.prems have "plan_ok (case plan_insert r ms m of Inl _ \<Rightarrow> ms | Inr ms' \<Rightarrow> ms')"
    using plan_insert_Inr(1) by (auto split: sum.splits)
  with Cons i show ?case by auto
qed simp

lemma plan_ok_new: "plan_ok plan_new"
  by (simp add: plan_ok_def plan_new_def)

lemma plan_ok_enforces: "plan_ok ms \<Longrightarrow> enforces_global_w_xor_x ms"
  by (auto simp: enforces_iff plan_ok_def mapping_ok_def)

section \<open>Page accounting\<close>

definition mapped_addresses :: "mapping_plan \<Rightarrow> nat set" where
  "mapped_addresses ms = {va. plan_translate ms va \<noteq> None}"

lemma mapped_addresses_eq: "mapped_addresses ms = (\<Union>m \<in> set ms. {m_start m..<m_end m})"
  by (auto simp: mapped_addresses_def plan_translate_None_iff maps_address_def)

lemma virtual_page_count_mult:
  assumes "mapping_ok m"
  shows "virtual_page_count (m_virtual m) * BASE_PAGE_SIZE = m_end m - m_start m"
proof -
  have "BASE_PAGE_SIZE dvd m_end m - m_start m" using assms by (simp add: mapping_ok_def dvd_diff_nat)
  then show ?thesis by (simp add: virtual_page_count_def virtual_byte_count_def)
qed

lemma plan_page_count_loop_spec:
  assumes "sorted_wrt (\<lambda>a b. m_end a \<le> m_start b) ms" and "\<forall>m \<in> set ms. mapping_ok m"
    and "\<forall>m \<in> set ms. acc * BASE_PAGE_SIZE \<le> m_start m" and "acc * BASE_PAGE_SIZE < 2 ^ 64"
  shows "\<exists>n. plan_page_count_loop acc ms = Inr (acc + n) \<and> n * BASE_PAGE_SIZE = card (mapped_addresses ms)"
  using assms
proof (induction ms arbitrary: acc)
  case Nil
  then show ?case by (simp add: mapped_addresses_eq)
next
  case (Cons m ms)
  let ?P = "virtual_page_count (m_virtual m)"
  have m: "mapping_ok m" and lt: "m_start m < m_end m" "m_end m < 2 ^ 64"
    using Cons.prems(2) by (auto simp: mapping_ok_def)
  have "acc * BASE_PAGE_SIZE \<le> m_start m" using Cons.prems(3) by simp
  then have upto: "(acc + ?P) * BASE_PAGE_SIZE \<le> m_end m"
    using virtual_page_count_mult [OF m] lt(1) unfolding add_mult_distrib by linarith
  then have lt64: "(acc + ?P) * BASE_PAGE_SIZE < 2 ^ 64" using lt(2) by linarith
  moreover have "\<forall>q \<in> set ms. (acc + ?P) * BASE_PAGE_SIZE \<le> m_start q"
    using upto Cons.prems(1) by (auto intro: order_trans)
  ultimately obtain n where n: "plan_page_count_loop (acc + ?P) ms = Inr (acc + ?P + n)"
    "n * BASE_PAGE_SIZE = card (mapped_addresses ms)"
    using Cons.IH [of "acc + ?P"] Cons.prems(1,2) by auto
  have "acc + ?P < 2 ^ 64" using lt64 by (simp add: BASE_PAGE_SIZE_def)
  then have "plan_page_count_loop acc (m # ms) = Inr (acc + (?P + n))"
    using n(1) by (simp add: checked_add_def add.assoc)
  moreover have "card (mapped_addresses (m # ms)) = (m_end m - m_start m) + card (mapped_addresses ms)"
  proof -
    have "{m_start m..<m_end m} \<inter> mapped_addresses ms = {}"
      using Cons.prems(1) by (fastforce simp: mapped_addresses_eq)
    moreover have "finite (mapped_addresses ms)" by (simp add: mapped_addresses_eq)
    ultimately have "card ({m_start m..<m_end m} \<union> mapped_addresses ms) =
        (m_end m - m_start m) + card (mapped_addresses ms)" by (simp add: card_Un_disjoint)
    then show ?thesis by (simp add: mapped_addresses_eq)
  qed
  ultimately show ?case
    using virtual_page_count_mult [OF m] n(2) by (intro exI [of _ "?P + n"]) (simp add: add_mult_distrib)
qed

section \<open>Properties\<close>

definition sample_mapping :: "nat \<Rightarrow> nat \<Rightarrow> mapping_permissions \<Rightarrow> mapping" where
  "sample_mapping va pa perms =
     \<lparr>m_virtual = \<lparr>vr_start = va, vr_end = va + 4096\<rparr>, m_physical = \<lparr>pr_start = pa, pr_end = pa + 4096\<rparr>,
      m_permissions = perms, m_memory_type = Mem_Normal, m_owner = Own_IsolatedTask,
      m_lifetime = Life_Task, m_remappable = False, m_privilege = Priv_User\<rparr>"

definition sample_plan :: mapping_plan where
  "sample_plan = [sample_mapping 4096 65536 READ_EXECUTE, sample_mapping 16384 69632 READ_WRITE]"

lemmas sample_plan_defs =
  sample_plan_def sample_mapping_def READ_ONLY_def READ_WRITE_def READ_EXECUTE_def BASE_PAGE_SIZE_def

lemma sample_mapping_ok:
  "4096 dvd va \<Longrightarrow> 4096 dvd pa \<Longrightarrow> va + 4096 < 2 ^ 64 \<Longrightarrow> pa + 4096 < 2 ^ 64 \<Longrightarrow>
   perms \<in> {READ_ONLY, READ_WRITE, READ_EXECUTE} \<Longrightarrow> mapping_ok (sample_mapping va pa perms)"
  by (auto simp: sample_plan_defs mapping_ok_def range_ok_def virtual_byte_count_def range_byte_count_def)

lemma sample_plan_ok: "plan_ok sample_plan"
  using sample_mapping_ok [of 4096 65536 READ_EXECUTE] sample_mapping_ok [of 16384 69632 READ_WRITE]
  by (simp add: plan_ok_def sample_plan_def MAX_MAPPINGS_def)
    (simp add: sample_plan_defs alias_ok_def ranges_overlap_def)

text \<open>
  The constructors only build well-formed mappings: equal virtual and physical
  lengths, readable, never writable and executable, never executable device memory;
  and a user mapping is always ordinary memory owned by an isolated task.
\<close>

lemma mapping_constructors_ok:
  assumes "virtual_from_pages start n = Inr vr" and "range_ok pr"
  shows "(case mapping_new vr pr perms ty owner lifetime remap of
       Inr m \<Rightarrow> mapping_ok m \<and> m_privilege m = Priv_Kernel
     | Inl e \<Rightarrow> n \<noteq> range_page_count pr \<or> \<not> mp_read perms \<or> mp_write perms \<and> mp_execute perms \<or>
         ty = Mem_Device \<and> mp_execute perms) \<and>
    (case mapping_user vr pr perms owner lifetime of
       Inr m \<Rightarrow> mapping_ok m \<and> m_privilege m = Priv_User \<and> m_memory_type m = Mem_Normal \<and>
         m_owner m = Own_IsolatedTask
     | Inl e \<Rightarrow> owner \<noteq> Own_IsolatedTask \<or> lifetime \<noteq> Life_Task \<or> n \<noteq> range_page_count pr \<or>
         \<not> mp_read perms \<or> mp_write perms \<and> mp_execute perms)"
proof -
  have vr: "BASE_PAGE_SIZE dvd vr_start vr" "vr_start vr < vr_end vr" "vr_end vr < 2 ^ 64"
    "BASE_PAGE_SIZE dvd vr_end vr" "virtual_byte_count vr = n * BASE_PAGE_SIZE"
    using assms(1) unfolding virtual_from_pages_Inr_iff
    by (auto simp: virtual_byte_count_def BASE_PAGE_SIZE_def)
  have "range_byte_count pr = range_page_count pr * BASE_PAGE_SIZE"
    using range_page_count_mult [OF assms(2)] by (simp add: range_byte_count_def)
  then have len: "virtual_byte_count vr = range_byte_count pr \<longleftrightarrow> n = range_page_count pr"
    using vr(5) by (simp add: BASE_PAGE_SIZE_def)
  have "case mapping_new vr pr perms ty owner lifetime remap of
       Inr m \<Rightarrow> mapping_ok m \<and> m_privilege m = Priv_Kernel
     | Inl e \<Rightarrow> n \<noteq> range_page_count pr \<or> \<not> mp_read perms \<or> mp_write perms \<and> mp_execute perms \<or>
         ty = Mem_Device \<and> mp_execute perms"
    using vr(1-4) assms(2) len by (auto simp: mapping_new_def mapping_ok_def)
  moreover have "case mapping_user vr pr perms owner lifetime of
       Inr m \<Rightarrow> mapping_ok m \<and> m_privilege m = Priv_User \<and> m_memory_type m = Mem_Normal \<and>
         m_owner m = Own_IsolatedTask
     | Inl e \<Rightarrow> owner \<noteq> Own_IsolatedTask \<or> lifetime \<noteq> Life_Task \<or> n \<noteq> range_page_count pr \<or>
         \<not> mp_read perms \<or> mp_write perms \<and> mp_execute perms"
    using vr(1-4) assms(2) len by (auto simp: mapping_user_def mapping_new_def mapping_ok_def)
  ultimately show ?thesis ..
qed

text \<open>
  C27. \<open>insert\<close> is decided by the whole plan although it inspects two neighbours: it
  is refused for virtual overlap iff some mapped address is already mapped, and for
  physical overlap iff some existing mapping aliases the bytes unsafely. On success
  the invariant holds and the address translation gains exactly the new mapping.
\<close>

theorem plan_insert_exact:
  assumes "plan_ok ms" and "mapping_ok m"
  shows "case plan_insert reserve_ok ms m of
      Inl e \<Rightarrow> e =
        (if MAX_MAPPINGS \<le> length ms then Plan_TooManyMappings
         else if \<exists>va. maps_address va m \<and> plan_translate ms va \<noteq> None then Plan_VirtualOverlap
         else if \<exists>q \<in> set ms. \<not> alias_ok q m then Plan_PhysicalOverlap
         else Plan_TooManyMappings)
    | Inr ms' \<Rightarrow> plan_ok ms' \<and> (\<forall>va. maps_address va m \<longrightarrow> plan_translate ms va = None) \<and>
        (\<forall>va. plan_translate ms' va =
          (if maps_address va m then Some (pr_start (m_physical m) + (va - m_start m), m)
           else plan_translate ms va))"
proof -
  have wf: "m_start m < m_end m" "\<forall>q \<in> set ms. m_start q < m_end q"
    using assms by (auto simp: plan_ok_def mapping_ok_def)
  have touch: "virtual_overlap q m \<longleftrightarrow> (\<exists>va. maps_address va m \<and> maps_address va q)" if "q \<in> set ms" for q
  proof
    assume "virtual_overlap q m"
    with wf that have "maps_address (max (m_start q) (m_start m)) m \<and> maps_address (max (m_start q) (m_start m)) q"
      by (auto simp: virtual_overlap_def maps_address_def)
    then show "\<exists>va. maps_address va m \<and> maps_address va q" ..
  qed (auto simp: virtual_overlap_def maps_address_def)
  have ov: "(\<exists>q \<in> set ms. virtual_overlap q m) \<longleftrightarrow> (\<exists>va. maps_address va m \<and> plan_translate ms va \<noteq> None)"
    using touch unfolding plan_translate_None_iff by blast
  show ?thesis
  proof (cases "plan_insert reserve_ok ms m")
    case (Inl e)
    then have "e = (if MAX_MAPPINGS \<le> length ms then Plan_TooManyMappings
         else if \<exists>q \<in> set ms. virtual_overlap q m then Plan_VirtualOverlap
         else if \<exists>q \<in> set ms. \<not> alias_ok q m then Plan_PhysicalOverlap
         else Plan_TooManyMappings)"
      unfolding plan_insert_eq [OF assms] by (simp split: if_splits)
    with Inl show ?thesis unfolding ov by simp
  next
    case (Inr ms')
    moreover from this have "\<not> (\<exists>va. maps_address va m \<and> plan_translate ms va \<noteq> None)"
      unfolding plan_insert_eq [OF assms] ov by (simp split: if_splits)
    then have "\<forall>va. maps_address va m \<longrightarrow> plan_translate ms va = None" by blast
    ultimately show ?thesis
      using plan_insert_Inr(1) [OF assms Inr] plan_translate_insert [OF assms Inr] by simp
  qed
qed

theorem plan_insert_exact_witness:
  "\<exists>ms'. plan_insert True sample_plan (sample_mapping 8192 73728 READ_ONLY) = Inr ms' \<and>
     plan_translate ms' 8200 = Some (73736, sample_mapping 8192 73728 READ_ONLY)"
proof -
  let ?m = "sample_mapping 8192 73728 READ_ONLY"
  have m: "mapping_ok ?m" by (rule sample_mapping_ok) auto
  have "\<exists>ms'. plan_insert True sample_plan ?m = Inr ms'"
    by (simp add: plan_insert_def sample_plan_defs MAX_MAPPINGS_def ranges_overlap_def Let_def)
  then obtain ms' where ms': "plan_insert True sample_plan ?m = Inr ms'" ..
  with plan_insert_exact [OF sample_plan_ok m, of True]
  have "plan_translate ms' 8200 = (if maps_address 8200 ?m then Some (pr_start (m_physical ?m) + (8200 - m_start ?m), ?m)
      else plan_translate sample_plan 8200)" by simp
  with ms' show ?thesis by (simp add: maps_address_def sample_mapping_def)
qed

text \<open>
  C8. Write xor execute holds globally, across aliases: whatever sequence of inserts
  built the plan, refused ones included, \<open>enforces_global_w_xor_x\<close> answers true and
  no physical byte is writable through one virtual address and executable through
  another.
\<close>

theorem plan_write_xor_execute:
  assumes "\<forall>(r, m) \<in> set inserts. mapping_ok m"
  shows "enforces_global_w_xor_x (plan_insert_all plan_new inserts) \<and>
    (\<forall>va vb pa a b. plan_translate (plan_insert_all plan_new inserts) va = Some (pa, a) \<longrightarrow>
       plan_translate (plan_insert_all plan_new inserts) vb = Some (pa, b) \<longrightarrow>
       mp_write (m_permissions a) \<longrightarrow> \<not> mp_execute (m_permissions b))"
proof -
  let ?ms = "plan_insert_all plan_new inserts"
  have ok: "plan_ok ?ms" by (rule plan_insert_all_ok [OF plan_ok_new assms])
  note wx = plan_ok_enforces [OF ok]
  have "\<not> mp_execute (m_permissions b)" if "plan_translate ?ms va = Some (pa, a)"
    "plan_translate ?ms vb = Some (pa, b)" "mp_write (m_permissions a)" for va vb pa a b
  proof -
    have a: "a \<in> set ?ms" "range_contains (m_physical a) pa" and b: "b \<in> set ?ms" "range_contains (m_physical b) pa"
      using that(1,2) ok translate_in_physical [of a va] translate_in_physical [of b vb]
      unfolding plan_translate_Some_iff [OF ok] plan_ok_def by simp_all
    from enforces_no_alias [OF wx a(1) b(1) a(2) b(2) that(3)] show ?thesis .
  qed
  with wx show ?thesis by blast
qed

theorem plan_write_xor_execute_witness:
  "enforces_global_w_xor_x (plan_insert_all plan_new
     [(True, sample_mapping 4096 65536 READ_EXECUTE), (True, sample_mapping 8192 65536 READ_WRITE)])"
  using plan_write_xor_execute [of "[(True, sample_mapping 4096 65536 READ_EXECUTE),
      (True, sample_mapping 8192 65536 READ_WRITE)]"]
    sample_mapping_ok [of 4096 65536 READ_EXECUTE] sample_mapping_ok [of 8192 65536 READ_WRITE] by simp

text \<open>
  \<open>page_count\<close> never overflows on a plan and is exact: it returns the number of
  pages whose bytes are precisely the mapped addresses.
\<close>

lemma plan_page_count_exact:
  assumes "plan_ok ms"
  shows "\<exists>n. plan_page_count ms = Inr n \<and> n * BASE_PAGE_SIZE = card (mapped_addresses ms)"
  using plan_page_count_loop_spec [of ms 0] assms by (simp add: plan_page_count_def plan_ok_def)

end
