(* ===== verification/Launch.thy ===== *)
theory Launch
  imports Frame_Contract Mapping_Plan
begin

text \<open>
  The launch reservation of \<open>kernel/src/memory/launch.rs\<close>: taking and zeroing the
  frames of one launch, releasing them, copying bytes across extent boundaries and
  mapping a region, together with the two physical-memory mechanisms they use from
  \<open>crates/runtime/troe-machine/src/mechanism.rs\<close>. Physical memory is a function
  from addresses to bytes.
\<close>

section \<open>Physical memory\<close>

type_synonym physical_memory = "nat \<Rightarrow> 8 word"

datatype physical_memory_error = Phys_AddressUnsupported | Phys_OutOfBounds

definition ISIZE_MAX :: nat where
  "ISIZE_MAX = 2 ^ 63 - 1"

definition write_span :: "physical_memory \<Rightarrow> nat \<Rightarrow> 8 word list \<Rightarrow> physical_memory" where
  "write_span mem start bytes = (\<lambda>a. if start \<le> a \<and> a < start + length bytes then bytes ! (a - start) else mem a)"

definition zero_physical_range :: "physical_range \<Rightarrow> physical_memory \<Rightarrow> (physical_memory_error, physical_memory) result" where
  "zero_physical_range rng mem =
     rbind (ok_or Phys_AddressUnsupported (try_into 64 (pr_start rng))) (\<lambda>start.
     rbind (ok_or Phys_AddressUnsupported (try_into 64 (range_byte_count rng))) (\<lambda>byte_count.
     if ISIZE_MAX < byte_count \<or> checked_add 64 start byte_count = None then Inl Phys_AddressUnsupported
     else Inr (\<lambda>a. if start \<le> a \<and> a < start + byte_count then 0 else mem a)))"

definition copy_to_physical ::
    "physical_range \<Rightarrow> nat \<Rightarrow> 8 word list \<Rightarrow> physical_memory \<Rightarrow> (physical_memory_error, physical_memory) result" where
  "copy_to_physical rng offset bytes mem =
     (if bytes = [] then Inr mem
      else
       rbind (ok_or Phys_AddressUnsupported (try_into 64 (pr_start rng))) (\<lambda>start.
       rbind (ok_or Phys_AddressUnsupported (try_into 64 (range_byte_count rng))) (\<lambda>range_bytes.
       rbind (ok_or Phys_OutOfBounds (checked_add 64 offset (length bytes))) (\<lambda>end.
       if range_bytes < end \<or> ISIZE_MAX < range_bytes then Inl Phys_OutOfBounds
       else rbind (ok_or Phys_AddressUnsupported (checked_add 64 start offset)) (\<lambda>destination.
            Inr (write_span mem destination bytes))))))"

section \<open>Reservation\<close>

definition MAX_APPLICATION_EXTENTS :: nat where
  "MAX_APPLICATION_EXTENTS = 256"

text \<open>The part of \<open>OwnedAccounting\<close> a reservation touches, and the memory it zeroes.\<close>

record launch_state =
  la_frames :: frame_allocator
  la_memory :: physical_memory

text \<open>The inner loop: halve the request until a run is found or a single page is refused.\<close>

fun reserve_run :: "frame_allocator \<Rightarrow> nat \<Rightarrow> physical_range option \<times> frame_allocator" where
  "reserve_run fa request =
     (case frame_allocate_contiguous fa request 1 of
        (Inr rng, fa') \<Rightarrow> (Some rng, fa')
      | (Inl _, fa') \<Rightarrow> if 1 < request then reserve_run fa' (request div 2) else (None, fa'))"

declare reserve_run.simps [simp del]

datatype reserve_outcome =
    Reserve_done physical_extents
  | Reserve_failed physical_extents
  | Reserve_error

lemma contiguous_Inr_page_count:
  "fst (frame_allocate_contiguous fa n align) = Inr rng \<Longrightarrow> range_page_count rng = n \<and> 0 < n"
proof -
  have at: "try_contiguous_at fa s n align j = Some (Inr rng, fb) \<Longrightarrow> range_page_count rng = n \<and> 0 < n" for s j fb
  proof -
    assume "try_contiguous_at fa s n align j = Some (Inr rng, fb)"
    then obtain a where "map_err (\<lambda>_. Frame_Overflow) (range_from_pages a n) = Inr rng"
      by (auto simp: try_contiguous_at_def split: sum.splits prod.splits if_splits option.splits)
    then have "range_from_pages a n = Inr rng" by (simp add: map_err_def split: sum.splits)
    then show ?thesis by (auto simp: range_from_pages_Inr_iff)
  qed
  have span: "contiguous_in_span fa s n align js = Some (Inr rng, fb) \<Longrightarrow> range_page_count rng = n \<and> 0 < n" for s js fb
    by (induction js) (auto split: option.splits dest: at)
  have "fst (contiguous_in_spans fa n align ss) = Inr rng \<Longrightarrow> range_page_count rng = n \<and> 0 < n" for ss
  proof (induction ss)
    case (Cons s ss)
    show ?case
    proof (cases "range_page_count (sp_range s) < n")
      case True
      with Cons show ?thesis by simp
    next
      case False
      show ?thesis
      proof (cases "contiguous_in_span fa s n align [0..<Suc (range_page_count (sp_range s) - n)]")
        case None
        with False Cons show ?thesis by (simp add: checked_sub_def)
      next
        case (Some out)
        with False Cons.prems have "fst out = Inr rng" by (simp add: checked_sub_def)
        with Some span [of s _ "snd out"] show ?thesis by (metis prod.collapse)
      qed
    qed
  qed simp
  then show "fst (frame_allocate_contiguous fa n align) = Inr rng \<Longrightarrow> range_page_count rng = n \<and> 0 < n"
    by (auto simp: frame_allocate_contiguous_def split: if_splits)
qed

lemma reserve_run_positive: "fst (reserve_run fa request) = Some rng \<Longrightarrow> 0 < range_page_count rng"
proof (induction fa request rule: reserve_run.induct)
  case (1 fa request)
  obtain res fa' where out: "frame_allocate_contiguous fa request 1 = (res, fa')" by force
  show ?case
  proof (cases res)
    case (Inl e)
    with 1 out show ?thesis
      by (simp add: reserve_run.simps [of fa request] split: if_splits)
  next
    case (Inr r)
    with "1.prems" out contiguous_Inr_page_count [of fa request 1 r] show ?thesis
      by (auto simp: reserve_run.simps [of fa request])
  qed
qed

text \<open>
  The outer loop. \<open>quantum\<close> is the configured operation quantum, \<open>coalesce\<close> the build
  constant, and \<open>push_ok\<close> says for which sequences the record buffer can grow.
\<close>

function reserve_loop ::
    "nat \<Rightarrow> bool \<Rightarrow> (physical_extents \<Rightarrow> bool) \<Rightarrow> nat \<Rightarrow> physical_extents \<Rightarrow> launch_state \<Rightarrow>
     reserve_outcome \<times> launch_state" where
  "reserve_loop quantum coalesce push_ok remaining extents st =
     (if remaining = 0 then (Reserve_done extents, st)
      else
       case reserve_run (la_frames st) (min remaining quantum) of
         (None, fa') \<Rightarrow> (Reserve_failed extents, st\<lparr>la_frames := fa'\<rparr>)
       | (Some rng, fa') \<Rightarrow>
           let taken = range_page_count rng;
               zeroed = zero_physical_range rng (la_memory st);
               mem' = (case zeroed of Inl _ \<Rightarrow> la_memory st | Inr mem \<Rightarrow> mem);
               pushed = (case zeroed of
                   Inl _ \<Rightarrow> None
                 | Inr _ \<Rightarrow> (case extents_push (push_ok extents) extents rng MAX_APPLICATION_EXTENTS coalesce of
                              Inl _ \<Rightarrow> None | Inr x \<Rightarrow> Some x))
           in case pushed of
                None \<Rightarrow>
                  (case frame_free_range fa' rng of
                     (Inl _, fa'') \<Rightarrow> (Reserve_error, st\<lparr>la_frames := fa'', la_memory := mem'\<rparr>)
                   | (Inr _, fa'') \<Rightarrow> (Reserve_failed extents, st\<lparr>la_frames := fa'', la_memory := mem'\<rparr>))
              | Some extents' \<Rightarrow>
                  (case checked_sub remaining taken of
                     None \<Rightarrow> (Reserve_error, st\<lparr>la_frames := fa', la_memory := mem'\<rparr>)
                   | Some remaining' \<Rightarrow>
                       reserve_loop quantum coalesce push_ok remaining' extents'
                         (st\<lparr>la_frames := fa', la_memory := mem'\<rparr>)))"
  by pat_completeness auto

termination
proof (relation "measure (\<lambda>(quantum, coalesce, push_ok, remaining, extents, st). remaining)")
qed (auto simp: checked_sub_def dest!: arg_cong [of _ _ fst] reserve_run_positive [OF sym] split: if_splits)

declare reserve_loop.simps [simp del]

fun release_extents_loop ::
    "frame_allocator \<Rightarrow> physical_range list \<Rightarrow> (unit, unit) result \<times> frame_allocator" where
  "release_extents_loop fa [] = (Inr (), fa)"
| "release_extents_loop fa (rng # rest) =
     (case frame_free_range fa rng of
        (Inl _, fa') \<Rightarrow> (Inl (), fa')
      | (Inr _, fa') \<Rightarrow> release_extents_loop fa' rest)"

definition release_launch_extents ::
    "launch_state \<Rightarrow> physical_extents \<Rightarrow> (unit, unit) result \<times> launch_state" where
  "release_launch_extents st extents =
     (case release_extents_loop (la_frames st) (px_extents extents) of
        (out, fa) \<Rightarrow> (out, st\<lparr>la_frames := fa\<rparr>))"

definition reserve_zeroed_private_extents ::
    "nat \<Rightarrow> bool \<Rightarrow> (physical_extents \<Rightarrow> bool) \<Rightarrow> launch_state \<Rightarrow> nat \<Rightarrow>
     (unit, physical_extents) result \<times> launch_state" where
  "reserve_zeroed_private_extents quantum coalesce push_ok st resource_pages =
     (if quantum = 0 \<or> resource_pages = 0 then (Inl (), st)
      else
       case reserve_loop quantum coalesce push_ok resource_pages extents_new st of
         (Reserve_error, st') \<Rightarrow> (Inl (), st')
       | (Reserve_failed extents, st') \<Rightarrow> (Inl (), snd (release_launch_extents st' extents))
       | (Reserve_done extents, st') \<Rightarrow>
           if px_page_count extents \<noteq> resource_pages
           then (Inl (), snd (release_launch_extents st' extents))
           else (Inr extents, st'))"

section \<open>Reservation lemmas\<close>

definition page_of :: "nat \<Rightarrow> nat" where
  "page_of a = a div BASE_PAGE_SIZE * BASE_PAGE_SIZE"

lemma page_of_range:
  assumes "range_ok r"
  shows "page_of a \<in> set (range_pages r) \<longleftrightarrow> range_contains r a"
proof -
  obtain s e where se: "pr_start r = s * BASE_PAGE_SIZE" "pr_end r = e * BASE_PAGE_SIZE"
    using assms by (auto simp: range_ok_def dvd_def mult.commute)
  have "s * BASE_PAGE_SIZE \<le> a div BASE_PAGE_SIZE * BASE_PAGE_SIZE \<longleftrightarrow> s * BASE_PAGE_SIZE \<le> a"
    "a div BASE_PAGE_SIZE * BASE_PAGE_SIZE < e * BASE_PAGE_SIZE \<longleftrightarrow> a < e * BASE_PAGE_SIZE"
    by (auto simp: BASE_PAGE_SIZE_def)
  then show ?thesis using set_range_pages [OF assms] by (simp add: page_of_def range_contains_def se)
qed

lemma reserve_run_spec:
  assumes "frames_ok fa" and "0 < request"
  shows "case reserve_run fa request of
      (None, fa') \<Rightarrow> fa' = fa \<and> free_addrs fa = {}
    | (Some rng, fa') \<Rightarrow> range_ok rng \<and> range_page_count rng \<le> request \<and>
        set (range_pages rng) \<subseteq> free_addrs fa \<and>
        pool_step fa fa' (free_addrs fa - set (range_pages rng)) (used_addrs fa \<union> set (range_pages rng))
          (reserved_addrs fa)"
  using assms
proof (induction fa request rule: reserve_run.induct)
  case (1 fa request)
  note ok = "1.prems"(1)
  have one: "is_power_of_two 1" "1 * BASE_PAGE_SIZE < 2 ^ 64"
    by (auto simp: is_power_of_two_iff BASE_PAGE_SIZE_def intro!: exI [of _ 0])
  from contiguous_search [OF ok "1.prems"(2) one] show ?case
  proof (elim disjE exE conjE)
    assume out: "frame_allocate_contiguous fa request 1 = (Inl Frame_Exhausted, fa)"
      and none: "\<nexists>a. free_run fa request 1 a"
    show ?thesis
    proof (cases "1 < request")
      case True
      then have "reserve_run fa request = reserve_run fa (request div 2)" and "0 < request div 2"
        using out by (simp_all add: reserve_run.simps [of fa request])
      then show ?thesis
        using "1.IH" [OF out [symmetric] refl True ok] by (auto split: prod.splits option.splits)
    next
      case False
      have "a \<in> free_addrs fa \<Longrightarrow> free_run fa request 1 a" for a
      proof -
        assume a: "a \<in> free_addrs fa"
        then have "a \<in> set (frame_addrs fa)" using addrs_partition(1) [OF ok] by blast
        then have "BASE_PAGE_SIZE dvd a" using frame_addrs_aligned [OF frames_ok_shape [OF ok]] by blast
        moreover have "request = 1" using False "1.prems"(2) by simp
        ultimately show "free_run fa request 1 a" using a by (simp add: free_run_def)
      qed
      with none have "free_addrs fa = {}" by blast
      with False out show ?thesis by (simp add: reserve_run.simps [of fa request])
    qed
  next
    fix a assume run: "free_run fa request 1 a"
      and "run_taken fa request a (frame_allocate_contiguous fa request 1)"
    then obtain rng fb where out: "frame_allocate_contiguous fa request 1 = (Inr rng, fb)"
      "range_from_pages a request = Inr rng"
      "pool_step fa fb (free_addrs fa - set (range_pages rng)) (used_addrs fa \<union> set (range_pages rng))
        (reserved_addrs fa)" by (auto simp: run_taken_def)
    have "range_ok rng" by (rule range_from_pages_ok [OF out(2)])
    moreover have "range_page_count rng = request" using out(2) by (auto simp: range_from_pages_Inr_iff)
    moreover have "set (range_pages rng) \<subseteq> free_addrs fa"
      using run range_from_pages_pages [OF out(2)] by (auto simp: free_run_def)
    ultimately show ?thesis using out(1,3) by (simp add: reserve_run.simps [of fa request])
  qed
qed

text \<open>
  The loop invariant, relative to the state at entry: the pages collected so far
  were free then and are allocated now, their bytes are zero, and nothing outside
  the frames that were free at entry was written.
\<close>

definition reserve_inv :: "launch_state \<Rightarrow> physical_extents \<Rightarrow> launch_state \<Rightarrow> bool" where
  "reserve_inv st0 x st =
     (extents_ok x \<and> length (px_extents x) \<le> MAX_APPLICATION_EXTENTS \<and>
      distinct (extents_pages x) \<and> set (extents_pages x) \<subseteq> free_addrs (la_frames st0) \<and>
      pool_step (la_frames st0) (la_frames st) (free_addrs (la_frames st0) - set (extents_pages x))
        (used_addrs (la_frames st0) \<union> set (extents_pages x)) (reserved_addrs (la_frames st0)) \<and>
      (\<forall>a. page_of a \<in> set (extents_pages x) \<longrightarrow> la_memory st a = 0) \<and>
      (\<forall>a. page_of a \<notin> free_addrs (la_frames st0) \<longrightarrow> la_memory st a = la_memory st0 a))"

lemma reserve_inv_init: "frames_ok (la_frames st) \<Longrightarrow> reserve_inv st extents_new st"
  by (simp add: reserve_inv_def extents_new_def extents_ok_def extents_pages_def pool_step_refl
      MAX_APPLICATION_EXTENTS_def)

lemma zero_physical_range_Inr:
  assumes "range_ok rng" and "zero_physical_range rng mem = Inr mem'"
  shows "mem' = (\<lambda>a. if page_of a \<in> set (range_pages rng) then 0 else mem a)"
proof -
  have "pr_start rng + range_byte_count rng = pr_end rng"
    using assms(1) by (simp add: range_ok_def range_byte_count_def)
  with assms(2) have "mem' = (\<lambda>a. if range_contains rng a then 0 else mem a)"
    by (auto simp: zero_physical_range_def result_simps try_into_def range_contains_def fun_eq_iff
        split: if_splits)
  then show ?thesis by (simp add: page_of_range [OF assms(1)])
qed

lemma reserve_inv_push:
  assumes inv: "reserve_inv st0 x st" and r: "range_ok rng" "set (range_pages rng) \<subseteq> free_addrs (la_frames st)"
    and fa: "pool_step (la_frames st) fa (free_addrs (la_frames st) - set (range_pages rng))
      (used_addrs (la_frames st) \<union> set (range_pages rng)) (reserved_addrs (la_frames st))"
    and mem: "zero_physical_range rng (la_memory st) = Inr mem"
    and push: "extents_push ok x rng MAX_APPLICATION_EXTENTS c = Inr y"
  shows "reserve_inv st0 y (st\<lparr>la_frames := fa, la_memory := mem\<rparr>)"
proof -
  let ?F = "free_addrs (la_frames st0)" and ?P = "set (extents_pages x)" and ?R = "set (range_pages rng)"
  have x: "extents_ok x" "distinct (extents_pages x)" "?P \<subseteq> ?F" and st: "free_addrs (la_frames st) = ?F - ?P"
    "used_addrs (la_frames st) = used_addrs (la_frames st0) \<union> ?P"
    "reserved_addrs (la_frames st) = reserved_addrs (la_frames st0)"
    "pool_step (la_frames st0) (la_frames st) (?F - ?P) (used_addrs (la_frames st0) \<union> ?P)
      (reserved_addrs (la_frames st0))"
    using inv by (auto simp: reserve_inv_def pool_step_def)
  note y = extents_push_spec [OF x(1) r(1) push]
  have dist: "distinct (range_pages rng)" using sorted_range_pages [of rng] by (simp add: strict_sorted_iff)
  have RF: "?R \<subseteq> ?F" "?R \<inter> ?P = {}" using r(2) st(1) by auto
  have m: "mem = (\<lambda>a. if page_of a \<in> ?R then 0 else la_memory st a)"
    by (rule zero_physical_range_Inr [OF r(1) mem])
  have "pool_step (la_frames st0) fa (?F - ?P - ?R) (used_addrs (la_frames st0) \<union> ?P \<union> ?R)
      (reserved_addrs (la_frames st0))"
    using pool_step_trans [OF st(4) fa [unfolded st(1-3)]] .
  moreover have "?F - ?P - ?R = ?F - set (extents_pages y)"
    "used_addrs (la_frames st0) \<union> ?P \<union> ?R = used_addrs (la_frames st0) \<union> set (extents_pages y)"
    by (auto simp: y(2))
  ultimately have "pool_step (la_frames st0) fa (?F - set (extents_pages y))
      (used_addrs (la_frames st0) \<union> set (extents_pages y)) (reserved_addrs (la_frames st0))" by simp
  moreover have "distinct (extents_pages y)" "set (extents_pages y) \<subseteq> ?F"
    using x(2,3) dist RF by (auto simp: y(2))
  moreover have "\<forall>a. page_of a \<in> set (extents_pages y) \<longrightarrow> mem a = 0"
    "\<forall>a. page_of a \<notin> ?F \<longrightarrow> mem a = la_memory st0 a"
    using inv RF(1) by (auto simp: m y(2) reserve_inv_def)
  moreover have "length (px_extents y) \<le> MAX_APPLICATION_EXTENTS"
  proof -
    have "length (px_extents x) \<le> MAX_APPLICATION_EXTENTS" using inv by (simp add: reserve_inv_def)
    with push show ?thesis
      by (auto simp: extents_push_def result_simps MAX_APPLICATION_EXTENTS_def split: if_splits)
  qed
  ultimately show ?thesis using y(1) by (simp add: reserve_inv_def)
qed

lemma reserve_inv_undo:
  assumes inv: "reserve_inv st0 x st" and r: "range_ok rng" "set (range_pages rng) \<subseteq> free_addrs (la_frames st)"
    and fa: "pool_step (la_frames st) fa (free_addrs (la_frames st) - set (range_pages rng))
      (used_addrs (la_frames st) \<union> set (range_pages rng)) (reserved_addrs (la_frames st))"
    and mem: "mem = la_memory st \<or> zero_physical_range rng (la_memory st) = Inr mem"
  shows "\<exists>fb. frame_free_range fa rng = (Inr (), fb) \<and>
    reserve_inv st0 x (st\<lparr>la_frames := fb, la_memory := mem\<rparr>)"
proof -
  let ?F = "free_addrs (la_frames st0)" and ?P = "set (extents_pages x)" and ?R = "set (range_pages rng)"
  have fa': "frames_ok fa" "free_addrs fa = free_addrs (la_frames st) - ?R"
    "used_addrs fa = used_addrs (la_frames st) \<union> ?R" "reserved_addrs fa = reserved_addrs (la_frames st)"
    using fa by (simp_all add: pool_step_def)
  have "?R \<subseteq> used_addrs fa" by (simp add: fa'(3))
  with frame_free_range_pool [OF fa'(1) r(1)] obtain fb where fb: "frame_free_range fa rng = (Inr (), fb)"
    "pool_step fa fb (free_addrs fa \<union> ?R) (used_addrs fa - ?R) (reserved_addrs fa)" by auto
  have st: "frames_ok (la_frames st)" "free_addrs (la_frames st) = ?F - ?P"
    "pool_step (la_frames st0) (la_frames st) (free_addrs (la_frames st)) (used_addrs (la_frames st))
      (reserved_addrs (la_frames st0))" "reserved_addrs (la_frames st) = reserved_addrs (la_frames st0)"
    "used_addrs (la_frames st) = used_addrs (la_frames st0) \<union> ?P"
    using inv by (simp_all add: reserve_inv_def pool_step_def)
  have "?R \<inter> used_addrs (la_frames st) = {}" using r(2) addrs_partition(2) [OF st(1)] by blast
  then have "free_addrs fa \<union> ?R = ?F - ?P" "used_addrs fa - ?R = used_addrs (la_frames st0) \<union> ?P"
    using r(2) unfolding fa'(2,3) st(5) [symmetric] st(2) [symmetric] by auto
  with pool_step_trans [OF st(3) pool_step_trans [OF fa fb(2)]]
  have step: "pool_step (la_frames st0) fb (?F - ?P) (used_addrs (la_frames st0) \<union> ?P)
      (reserved_addrs (la_frames st0))" by (simp add: fa'(4) st(4))
  have RF: "?R \<subseteq> ?F" "?R \<inter> ?P = {}" using r(2) st(2) by auto
  have "mem = la_memory st \<or> mem = (\<lambda>a. if page_of a \<in> ?R then 0 else la_memory st a)"
    using mem zero_physical_range_Inr [OF r(1)] by blast
  then have "\<forall>a. page_of a \<in> ?P \<longrightarrow> mem a = 0" "\<forall>a. page_of a \<notin> ?F \<longrightarrow> mem a = la_memory st0 a"
    using inv RF by (auto simp: reserve_inv_def)
  with step inv have "reserve_inv st0 x (st\<lparr>la_frames := fb, la_memory := mem\<rparr>)"
    by (simp add: reserve_inv_def)
  with fb(1) show ?thesis by blast
qed

lemma extents_ok_length: "extents_ok x \<Longrightarrow> length (px_extents x) \<le> px_page_count x"
proof -
  have "length es \<le> length (concat (map range_pages es))" if "\<forall>r \<in> set es. range_ok r" for es
    using that
  proof (induction es)
    case (Cons r es)
    then have "0 < range_page_count r" "length es \<le> length (concat (map range_pages es))"
      using range_ok_page_count_pos by auto
    then show ?case by simp
  qed simp
  then show "extents_ok x \<Longrightarrow> length (px_extents x) \<le> px_page_count x"
    by (simp add: extents_ok_def extents_pages_def)
qed

lemma extents_push_refused:
  assumes x: "extents_ok x" and r: "range_ok rng" and b: "px_page_count x + range_page_count rng < 2 ^ 64"
    and ref: "extents_push reserve_ok x rng maximum coalesce = Inl e"
  shows "maximum \<le> length (px_extents x) \<or> \<not> reserve_ok"
proof (rule ccontr)
  assume c: "\<not> ?thesis"
  show False
  proof (cases "px_extents x \<noteq> [] \<and> coalesce \<and> pr_end (last (px_extents x)) = pr_start rng")
    case True
    let ?p = "last (px_extents x)"
    have p: "range_ok ?p" using x True by (simp add: extents_ok_def)
    have "length (extents_pages x) =
        length (concat (map range_pages (butlast (px_extents x)))) + range_page_count ?p"
      using True by (cases "px_extents x" rule: rev_cases) (simp_all add: extents_pages_def)
    then have "range_page_count ?p + range_page_count rng < 2 ^ 64" using b x by (simp add: extents_ok_def)
    moreover have "pr_start ?p + (range_page_count ?p + range_page_count rng) * BASE_PAGE_SIZE < 2 ^ 64"
      using range_ok_end [OF p] range_ok_end [OF r] True r unfolding range_ok_def add_mult_distrib by linarith
    moreover have "0 < range_page_count ?p" "BASE_PAGE_SIZE dvd pr_start ?p"
      using range_ok_page_count_pos [OF p] p by (auto simp: range_ok_def)
    ultimately have "extents_push reserve_ok x rng maximum coalesce \<noteq> Inl e"
      using True b by (simp add: extents_push_def checked_add_def range_from_pages_Inr_iff [THEN iffD2])
    with ref show False by blast
  next
    case False
    with c b ref show False by (auto simp: extents_push_def checked_add_def)
  qed
qed

lemma reserve_refusal:
  assumes x: "extents_ok x" and r: "range_ok rng" and "range_page_count rng \<le> quantum"
    and b: "px_page_count x + range_page_count rng < 2 ^ 64"
    and none: "(case zero_physical_range rng mem of Inl _ \<Rightarrow> None
      | Inr _ \<Rightarrow> (case extents_push ok x rng m c of Inl _ \<Rightarrow> None | Inr y \<Rightarrow> Some y)) = None"
  shows "m \<le> length (px_extents x) \<or> \<not> ok \<or> ISIZE_MAX < quantum * BASE_PAGE_SIZE"
proof (cases "zero_physical_range rng mem")
  case (Inl e)
  have bounds: "pr_start rng + range_byte_count rng < 2 ^ 64" "pr_start rng < 2 ^ 64"
    using r by (auto simp: range_ok_def range_byte_count_def)
  then have "range_byte_count rng < 2 ^ 64" by linarith
  with Inl bounds have "ISIZE_MAX < range_byte_count rng"
    by (auto simp: zero_physical_range_def try_into_def checked_add_def split: if_splits)
  moreover have "range_byte_count rng = range_page_count rng * BASE_PAGE_SIZE"
    using range_page_count_mult [OF r] by (simp add: range_byte_count_def)
  moreover have "range_page_count rng * BASE_PAGE_SIZE \<le> quantum * BASE_PAGE_SIZE"
    using assms(3) by (rule mult_le_mono1)
  ultimately show ?thesis by linarith
next
  case (Inr mem')
  with none obtain e where "extents_push ok x rng m c = Inl e" by (auto split: sum.splits)
  from extents_push_refused [OF x r b this] show ?thesis by blast
qed

lemma reserve_loop_spec:
  assumes "0 < quantum" and "reserve_inv st0 x st"
    and "px_page_count x + remaining = n" and "n < 2 ^ 64"
  shows "case reserve_loop quantum coalesce push_ok remaining x st of
      (Reserve_done y, st') \<Rightarrow> reserve_inv st0 y st' \<and> px_page_count y = n
    | (Reserve_failed y, st') \<Rightarrow> reserve_inv st0 y st' \<and> px_page_count y < n \<and>
        (card (free_addrs (la_frames st0)) = px_page_count y \<or> MAX_APPLICATION_EXTENTS \<le> length (px_extents y) \<or>
         \<not> push_ok y \<or> ISIZE_MAX < quantum * BASE_PAGE_SIZE)
    | (Reserve_error, st') \<Rightarrow> False"
  using assms
proof (induction quantum coalesce push_ok remaining x st rule: reserve_loop.induct)
  case (1 quantum coalesce push_ok remaining x st)
  note inv = "1.prems"(2)
  have ok: "frames_ok (la_frames st)" and x: "extents_ok x" "distinct (extents_pages x)"
    and free: "free_addrs (la_frames st) = free_addrs (la_frames st0) - set (extents_pages x)"
    and sub: "set (extents_pages x) \<subseteq> free_addrs (la_frames st0)"
    using inv by (auto simp: reserve_inv_def pool_step_def)
  show ?case
  proof (cases "remaining = 0")
    case True
    with "1.prems" show ?thesis by (simp add: reserve_loop.simps [of quantum])
  next
    case False
    obtain out fa where run: "reserve_run (la_frames st) (min remaining quantum) = (out, fa)" by force
    have pos: "0 < min remaining quantum" using False "1.prems"(1) by simp
    note spec = reserve_run_spec [OF ok pos, unfolded run]
    show ?thesis
    proof (cases out)
      case None
      then have "fa = la_frames st" and "free_addrs (la_frames st0) - set (extents_pages x) = {}"
        using spec free by auto
      then have "free_addrs (la_frames st0) = set (extents_pages x)" using sub by blast
      then have "card (free_addrs (la_frames st0)) = px_page_count x"
        using distinct_card [OF x(2)] x(1) by (simp add: extents_ok_def)
      with None run False "1.prems"(3) inv \<open>fa = la_frames st\<close> show ?thesis
        by (simp add: reserve_loop.simps [of quantum])
    next
      case (Some rng)
      have r: "range_ok rng" "range_page_count rng \<le> min remaining quantum"
        "set (range_pages rng) \<subseteq> free_addrs (la_frames st)"
        "pool_step (la_frames st) fa (free_addrs (la_frames st) - set (range_pages rng))
          (used_addrs (la_frames st) \<union> set (range_pages rng)) (reserved_addrs (la_frames st))"
        using spec Some by auto
      define mem where "mem = (case zero_physical_range rng (la_memory st) of Inl _ \<Rightarrow> la_memory st | Inr mem \<Rightarrow> mem)"
      define pushed where "pushed = (case zero_physical_range rng (la_memory st) of Inl _ \<Rightarrow> None
        | Inr _ \<Rightarrow> (case extents_push (push_ok x) x rng MAX_APPLICATION_EXTENTS coalesce of
            Inl _ \<Rightarrow> None | Inr y \<Rightarrow> Some y))"
      have memc: "mem = la_memory st \<or> zero_physical_range rng (la_memory st) = Inr mem"
        by (auto simp: mem_def split: sum.splits)
      show ?thesis
      proof (cases pushed)
        case None
        obtain fb where fb: "frame_free_range fa rng = (Inr (), fb)"
          "reserve_inv st0 x (st\<lparr>la_frames := fb, la_memory := mem\<rparr>)"
          using reserve_inv_undo [OF inv r(1,3,4) memc] by blast
        have "reserve_loop quantum coalesce push_ok remaining x st =
            (Reserve_failed x, st\<lparr>la_frames := fb, la_memory := mem\<rparr>)"
          using False run Some None fb(1)
          by (simp add: reserve_loop.simps [of quantum] Let_def mem_def [symmetric] pushed_def [symmetric])
        moreover have "MAX_APPLICATION_EXTENTS \<le> length (px_extents x) \<or> \<not> push_ok x \<or>
            ISIZE_MAX < quantum * BASE_PAGE_SIZE"
          using None reserve_refusal [OF x(1) r(1)] r(2) "1.prems"(3,4) by (auto simp: pushed_def)
        ultimately show ?thesis using fb(2) False "1.prems"(3) by simp
      next
        case (Some y)
        then have z: "zero_physical_range rng (la_memory st) = Inr mem"
          and push: "extents_push (push_ok x) x rng MAX_APPLICATION_EXTENTS coalesce = Inr y"
          by (auto simp: pushed_def mem_def split: sum.splits)
        have inv': "reserve_inv st0 y (st\<lparr>la_frames := fa, la_memory := mem\<rparr>)"
          by (rule reserve_inv_push [OF inv r(1,3,4) z push])
        have pc: "px_page_count y = px_page_count x + range_page_count rng"
          using extents_push_spec [OF x(1) r(1) push] x(1) by (simp add: extents_ok_def)
        have sub': "checked_sub remaining (range_page_count rng) = Some (remaining - range_page_count rng)"
          using r(2) by (simp add: checked_sub_def)
        have step: "reserve_loop quantum coalesce push_ok remaining x st =
            reserve_loop quantum coalesce push_ok (remaining - range_page_count rng) y
              (st\<lparr>la_frames := fa, la_memory := mem\<rparr>)"
          using False run \<open>out = Some rng\<close> Some sub'
          by (simp add: reserve_loop.simps [of quantum coalesce push_ok remaining] Let_def
              mem_def [symmetric] pushed_def [symmetric])
        have "px_page_count y + (remaining - range_page_count rng) = n" using pc r(2) "1.prems"(3) by simp
        from "1.IH" [OF False run [symmetric] \<open>out = Some rng\<close> refl refl mem_def pushed_def Some sub'
            "1.prems"(1) inv' this "1.prems"(4)]
        show ?thesis unfolding step .
      qed
    qed
  qed
qed

section \<open>Release\<close>

lemma release_extents_loop_spec:
  assumes "frames_ok fa" and "\<forall>r \<in> set es. range_ok r" and "distinct (concat (map range_pages es))"
    and "set (concat (map range_pages es)) \<subseteq> used_addrs fa"
  shows "\<exists>fb. release_extents_loop fa es = (Inr (), fb) \<and>
    pool_step fa fb (free_addrs fa \<union> set (concat (map range_pages es)))
      (used_addrs fa - set (concat (map range_pages es))) (reserved_addrs fa)"
  using assms
proof (induction es arbitrary: fa)
  case Nil
  then show ?case using pool_step_refl by simp
next
  case (Cons r es)
  let ?R = "set (range_pages r)" and ?E = "set (concat (map range_pages es))"
  have r: "range_ok r" "?R \<subseteq> used_addrs fa" and dist: "distinct (concat (map range_pages es))" "?R \<inter> ?E = {}"
    using Cons.prems by auto
  from frame_free_range_pool [OF Cons.prems(1) r(1)] r(2) obtain fb where
    fb: "frame_free_range fa r = (Inr (), fb)"
      "pool_step fa fb (free_addrs fa \<union> ?R) (used_addrs fa - ?R) (reserved_addrs fa)" by auto
  have fb': "frames_ok fb" "free_addrs fb = free_addrs fa \<union> ?R" "used_addrs fb = used_addrs fa - ?R"
    "reserved_addrs fb = reserved_addrs fa" using fb(2) by (simp_all add: pool_step_def)
  have "?E \<subseteq> used_addrs fb" using Cons.prems(4) dist(2) unfolding fb'(3) by auto
  then obtain fc where fc: "release_extents_loop fb es = (Inr (), fc)"
    "pool_step fb fc (free_addrs fb \<union> ?E) (used_addrs fb - ?E) (reserved_addrs fb)"
    using Cons.IH [OF fb'(1) _ dist(1)] Cons.prems(2) by auto
  have "free_addrs fb \<union> ?E = free_addrs fa \<union> set (concat (map range_pages (r # es)))"
    "used_addrs fb - ?E = used_addrs fa - set (concat (map range_pages (r # es)))"
    unfolding fb'(2,3) by auto
  with pool_step_trans [OF fb(2) fc(2)] fb(1) fc(1) show ?case by (simp add: fb'(4))
qed

lemma release_launch_extents_inv:
  assumes inv: "reserve_inv st0 x st" and ok0: "frames_ok (la_frames st0)"
  shows "\<exists>fb. release_launch_extents st x = (Inr (), st\<lparr>la_frames := fb\<rparr>) \<and>
    pool_step (la_frames st0) fb (free_addrs (la_frames st0)) (used_addrs (la_frames st0))
      (reserved_addrs (la_frames st0))"
proof -
  let ?P = "set (extents_pages x)" and ?F = "free_addrs (la_frames st0)" and ?U = "used_addrs (la_frames st0)"
  have x: "\<forall>r \<in> set (px_extents x). range_ok r" "distinct (extents_pages x)" "?P \<subseteq> ?F"
    and st: "frames_ok (la_frames st)" "free_addrs (la_frames st) = ?F - ?P" "used_addrs (la_frames st) = ?U \<union> ?P"
      "reserved_addrs (la_frames st) = reserved_addrs (la_frames st0)"
    and step: "pool_step (la_frames st0) (la_frames st) (?F - ?P) (?U \<union> ?P) (reserved_addrs (la_frames st0))"
    using inv by (auto simp: reserve_inv_def pool_step_def extents_ok_def)
  obtain fb where fb: "release_extents_loop (la_frames st) (px_extents x) = (Inr (), fb)"
    "pool_step (la_frames st) fb (free_addrs (la_frames st) \<union> ?P) (used_addrs (la_frames st) - ?P)
      (reserved_addrs (la_frames st))"
    using release_extents_loop_spec [OF st(1) x(1)] x(2) st(3) by (auto simp: extents_pages_def)
  have "?F - ?P \<union> ?P = ?F" "?U \<union> ?P - ?P = ?U" using x(3) addrs_partition(2) [OF ok0] by auto
  with pool_step_trans [OF step fb(2)] have "pool_step (la_frames st0) fb ?F ?U (reserved_addrs (la_frames st0))"
    by (simp add: st(2-4))
  moreover have "release_launch_extents st x = (Inr (), st\<lparr>la_frames := fb\<rparr>)"
    using fb(1) by (simp add: release_launch_extents_def)
  ultimately show ?thesis by blast
qed

section \<open>Properties of the reservation\<close>

definition sample_launch :: launch_state where
  "sample_launch = \<lparr>la_frames = sample_frames, la_memory = (\<lambda>_. 255)\<rparr>"

text \<open>
  C7. A launch reservation is exact and confined. On success it holds exactly the
  requested number of distinct pages, all of them free before and allocated after,
  in at most 256 extents, and every byte of them is zero. On failure the allocator
  has the same free, allocated and reserved frames as before. Either way no byte of
  a frame that was in use is touched.
\<close>

theorem launch_reservation_exact:
  assumes "frames_ok (la_frames st)" and "pages < 2 ^ 64"
  shows "case reserve_zeroed_private_extents quantum coalesce push_ok st pages of (out, st') \<Rightarrow>
     (\<forall>a. page_of a \<notin> free_addrs (la_frames st) \<longrightarrow> la_memory st' a = la_memory st a) \<and>
     (case out of
        Inr x \<Rightarrow> extents_ok x \<and> length (px_extents x) \<le> 256 \<and>
          length (extents_pages x) = pages \<and> distinct (extents_pages x) \<and>
          set (extents_pages x) \<subseteq> free_addrs (la_frames st) \<and>
          pool_step (la_frames st) (la_frames st') (free_addrs (la_frames st) - set (extents_pages x))
            (used_addrs (la_frames st) \<union> set (extents_pages x)) (reserved_addrs (la_frames st)) \<and>
          (\<forall>a. page_of a \<in> set (extents_pages x) \<longrightarrow> la_memory st' a = 0)
      | Inl _ \<Rightarrow> pool_step (la_frames st) (la_frames st') (free_addrs (la_frames st))
          (used_addrs (la_frames st)) (reserved_addrs (la_frames st)))"
proof (cases "quantum = 0 \<or> pages = 0")
  case True
  with assms show ?thesis by (auto simp: reserve_zeroed_private_extents_def pool_step_refl)
next
  case False
  obtain res st' where loop: "reserve_loop quantum coalesce push_ok pages extents_new st = (res, st')" by force
  have "0 < quantum" "px_page_count extents_new + pages = pages" using False by (simp_all add: extents_new_def)
  note spec = reserve_loop_spec [OF this(1) reserve_inv_init [OF assms(1)] this(2) assms(2), where
      coalesce = coalesce and push_ok = push_ok, unfolded loop]
  show ?thesis
  proof (cases res)
    case (Reserve_done x)
    with spec have inv: "reserve_inv st x st'" "px_page_count x = pages" by auto
    with Reserve_done False loop show ?thesis
      by (auto simp: reserve_zeroed_private_extents_def reserve_inv_def extents_ok_def MAX_APPLICATION_EXTENTS_def)
  next
    case (Reserve_failed x)
    with spec have inv: "reserve_inv st x st'" by auto
    from release_launch_extents_inv [OF this assms(1)] inv Reserve_failed False loop show ?thesis
      by (auto simp: reserve_zeroed_private_extents_def reserve_inv_def)
  next
    case Reserve_error
    with spec show ?thesis by simp
  qed
qed

theorem launch_reservation_exact_witness:
  "case reserve_zeroed_private_extents 4 True (\<lambda>_. True) sample_launch 5 of (out, st') \<Rightarrow>
     la_memory st' 8192 = 255"
proof -
  have ok: "frames_ok (la_frames sample_launch)" using sample_frames_ok by (simp add: sample_launch_def)
  have "page_of 8192 \<notin> free_addrs (la_frames sample_launch)"
    unfolding sample_launch_def by (simp add: sample_free page_of_def BASE_PAGE_SIZE_def)
  with launch_reservation_exact [OF ok, where pages = 5 and quantum = 4 and coalesce = True and push_ok = "\<lambda>_. True"] show ?thesis
    by (auto simp: sample_launch_def split: prod.splits)
qed

text \<open>
  C26. Fragmentation never refuses a reservation. A request of at most 256 pages that is
  granted needed no more frames than were free; one that is refused either exceeded the free
  frames or met a failed reservation of the extent metadata before all its pages were found.
  So, when the metadata can be reserved, a request succeeds exactly when that many frames
  are free, however scattered, because it is halved down to single pages.
\<close>

theorem launch_reservation_complete:
  assumes "frames_ok (la_frames st)" and "0 < pages" and "pages \<le> MAX_APPLICATION_EXTENTS"
    and "0 < quantum" and "quantum * BASE_PAGE_SIZE \<le> ISIZE_MAX"
  shows "(case reserve_zeroed_private_extents quantum coalesce push_ok st pages of
      (Inr x, st') \<Rightarrow> pages \<le> fa_free (la_frames st)
    | (Inl _, st') \<Rightarrow> fa_free (la_frames st) < pages \<or> (\<exists>y. px_page_count y < pages \<and> \<not> push_ok y)) \<and>
    ((\<forall>y. px_page_count y < pages \<longrightarrow> push_ok y) \<longrightarrow>
      ((\<exists>x st'. reserve_zeroed_private_extents quantum coalesce push_ok st pages = (Inr x, st')) \<longleftrightarrow>
       pages \<le> fa_free (la_frames st)))"
    (is "?cases \<and> (?reserved \<longrightarrow> ?iff)")
proof -
  have lt: "pages < 2 ^ 64" using assms(3) by (simp add: MAX_APPLICATION_EXTENTS_def)
  obtain res st' where loop: "reserve_loop quantum coalesce push_ok pages extents_new st = (res, st')" by force
  note spec = reserve_loop_spec [OF assms(4) reserve_inv_init [OF assms(1)] _ lt, where remaining = pages and
      coalesce = coalesce and push_ok = push_ok, unfolded loop]
  note free = addrs_partition(5) [OF assms(1)]
  have ?cases
  proof (cases res)
    case (Reserve_done x)
    with spec have inv: "reserve_inv st x st'" and pc: "px_page_count x = pages" by (auto simp: extents_new_def)
    then have "card (set (extents_pages x)) = pages" "set (extents_pages x) \<subseteq> free_addrs (la_frames st)"
      by (auto simp: reserve_inv_def extents_ok_def distinct_card)
    then have "pages \<le> fa_free (la_frames st)"
      using card_mono [OF addrs_partition(6) [OF assms(1)]] free by metis
    with Reserve_done loop pc assms(2,4) show ?thesis by (simp add: reserve_zeroed_private_extents_def)
  next
    case (Reserve_failed x)
    with spec have inv: "reserve_inv st x st'" and pc: "px_page_count x < pages"
      and why: "card (free_addrs (la_frames st)) = px_page_count x \<or> MAX_APPLICATION_EXTENTS \<le> length (px_extents x) \<or> \<not> push_ok x"
      using assms(5) by (auto simp: extents_new_def)
    have "length (px_extents x) \<le> px_page_count x" using extents_ok_length inv by (simp add: reserve_inv_def)
    with why pc assms(3) free have "fa_free (la_frames st) < pages \<or> \<not> push_ok x" by auto
    with pc Reserve_failed loop assms(2,4) show ?thesis by (auto simp: reserve_zeroed_private_extents_def)
  next
    case Reserve_error
    with spec show ?thesis by (simp add: extents_new_def)
  qed
  then show ?thesis by (auto split: prod.splits sum.splits)
qed

theorem launch_reservation_complete_witness:
  "\<exists>x st'. reserve_zeroed_private_extents 4 False (\<lambda>_. True) sample_launch 5 = (Inr x, st')"
proof -
  have ok: "frames_ok (la_frames sample_launch)" using sample_frames_ok by (simp add: sample_launch_def)
  show ?thesis
    using launch_reservation_complete [OF ok, where pages = 5 and quantum = 4 and coalesce = False and push_ok = "\<lambda>_. True"]
    by (simp add: MAX_APPLICATION_EXTENTS_def ISIZE_MAX_def BASE_PAGE_SIZE_def sample_launch_def sample_frames_def)
qed

end
