(* ===== verification/Launch_Image.thy ===== *)
theory Launch_Image
  imports Launch
begin

text \<open>
  Writing an image into a launch reservation and mapping it, from
  \<open>kernel/src/memory/launch.rs\<close>: byte copies and relocations across extent
  boundaries, region mappings, and the mapping plan of one application.
\<close>

section \<open>Copying bytes\<close>

function write_launch_loop ::
    "physical_extents \<Rightarrow> nat \<Rightarrow> 8 word list \<Rightarrow> nat \<Rightarrow> physical_memory \<Rightarrow>
     (unit, unit) result \<times> physical_memory" where
  "write_launch_loop extents byte_offset bytes written mem =
     (if \<not> written < length bytes then (Inr (), mem)
      else
       case checked_add 64 byte_offset written of
         None \<Rightarrow> (Inl (), mem)
       | Some offset \<Rightarrow>
          (case extents_byte_run_at extents offset (length bytes - written) of
             Inl _ \<Rightarrow> (Inl (), mem)
           | Inr (extent, within, n) \<Rightarrow>
              (case checked_add 64 written n of
                 None \<Rightarrow> (Inl (), mem)
               | Some next \<Rightarrow>
                   if length bytes < next then (Inl (), mem)
                   else
                    (case copy_to_physical extent within (take n (drop written bytes)) mem of
                       Inl _ \<Rightarrow> (Inl (), mem)
                     | Inr mem' \<Rightarrow> write_launch_loop extents byte_offset bytes next mem'))))"
  by pat_completeness auto

termination
  by (relation "measure (\<lambda>(extents, byte_offset, bytes, written, mem). length bytes - written)")
    (auto simp: checked_add_def dest: extents_byte_run_at_progress split: if_splits)

declare write_launch_loop.simps [simp del]

definition write_launch_bytes ::
    "physical_extents \<Rightarrow> nat \<Rightarrow> 8 word list \<Rightarrow> physical_memory \<Rightarrow> (unit, unit) result \<times> physical_memory" where
  "write_launch_bytes extents byte_offset bytes mem = write_launch_loop extents byte_offset bytes 0 mem"

section \<open>The application plan\<close>

datatype segment_permissions = Seg_ReadOnly | Seg_ReadExecute | Seg_ReadWrite

record load_segment =
  sg_image_base :: nat
  sg_image_offset :: nat
  sg_memory_bytes :: nat
  sg_file_offset :: nat
  sg_file_byte_count :: nat
  sg_permissions :: segment_permissions

text \<open>
  \<open>virtual_address\<close> adds two \<open>u64\<close> fields without a check. The sum is exact here; the parser accepts a
  segment only when the base plus its end fits in 64 bits, where the two agree.
\<close>

definition sg_virtual_address :: "load_segment \<Rightarrow> nat" where
  "sg_virtual_address s = sg_image_base s + sg_image_offset s"

text \<open>What the launch path reads of a verified plan through \<open>NativeApplicationPlan\<close>.\<close>

record application_plan =
  ap_segments :: "load_segment list"
  ap_image_base :: nat
  ap_startup_address :: nat
  ap_heap_address :: nat
  ap_stack_bottom :: nat

record application_private_allocation =
  pa_extents :: physical_extents
  pa_image_pages :: nat
  pa_startup :: physical_range
  pa_heap_pages :: nat
  pa_stack_pages :: nat

definition APPLICATION_STARTUP_PAGES :: nat where
  "APPLICATION_STARTUP_PAGES = 1"

fun segment_offset_loop :: "load_segment list \<Rightarrow> nat \<Rightarrow> nat \<Rightarrow> nat \<Rightarrow> (unit, nat) result" where
  "segment_offset_loop [] index wanted_index offset = Inl ()"
| "segment_offset_loop (segment # rest) index wanted_index offset =
     (if index = wanted_index then Inr offset
      else rbind (ok_or () (checked_add 64 offset (sg_memory_bytes segment))) (\<lambda>offset'.
           segment_offset_loop rest (index + 1) wanted_index offset'))"

definition segment_logical_offset :: "application_plan \<Rightarrow> nat \<Rightarrow> (unit, nat) result" where
  "segment_logical_offset plan wanted_index = segment_offset_loop (ap_segments plan) 0 wanted_index 0"

definition write_segment_bytes ::
    "physical_extents \<Rightarrow> application_plan \<Rightarrow> nat \<Rightarrow> nat \<Rightarrow> 8 word list \<Rightarrow> physical_memory \<Rightarrow>
     (unit, unit) result \<times> physical_memory" where
  "write_segment_bytes extents plan segment_index offset_in_segment bytes mem =
     (if \<not> segment_index < length (ap_segments plan) then (Inl (), mem)
      else
       let segment = ap_segments plan ! segment_index in
       case rbind (ok_or () (checked_add 64 offset_in_segment (length bytes))) (\<lambda>end.
            if sg_memory_bytes segment < end then Inl ()
            else rbind (segment_logical_offset plan segment_index) (\<lambda>base.
                 ok_or () (checked_add 64 base offset_in_segment))) of
         Inl _ \<Rightarrow> (Inl (), mem)
       | Inr logical \<Rightarrow> write_launch_bytes extents logical bytes mem)"

record relative_relocation =
  rl_target_offset :: nat
  rl_value_offset :: nat

definition to_le_bytes :: "nat \<Rightarrow> 8 word list" where
  "to_le_bytes value = map (\<lambda>i. of_nat (value div 2 ^ (8 * i))) [0..<8]"

fun relocation_target_loop ::
    "application_plan \<Rightarrow> relative_relocation \<Rightarrow> nat \<Rightarrow> load_segment list \<Rightarrow> nat \<Rightarrow> (unit, nat option) result" where
  "relocation_target_loop plan reloc target_end [] index = Inr None"
| "relocation_target_loop plan reloc target_end (segment # rest) index =
     rbind (ok_or () (checked_add 64 (sg_image_offset segment) (sg_memory_bytes segment))) (\<lambda>segment_end.
       if sg_image_offset segment \<le> rl_target_offset reloc \<and> target_end \<le> segment_end
       then rbind (ok_or () (checked_sub (rl_target_offset reloc) (sg_image_offset segment))) (\<lambda>within.
            rbind (segment_logical_offset plan index) (\<lambda>base.
            rbind (ok_or () (checked_add 64 base within)) (\<lambda>logical.
            Inr (Some logical))))
       else relocation_target_loop plan reloc target_end rest (index + 1))"

definition apply_application_relocation ::
    "physical_extents \<Rightarrow> application_plan \<Rightarrow> relative_relocation \<Rightarrow> physical_memory \<Rightarrow>
     (unit, unit) result \<times> physical_memory" where
  "apply_application_relocation extents plan reloc mem =
     (case rbind (ok_or () (checked_add 64 (rl_target_offset reloc) 8)) (\<lambda>target_end.
           rbind (relocation_target_loop plan reloc target_end (ap_segments plan) 0) (\<lambda>target.
           rbind (ok_or () target) (\<lambda>logical.
           rbind (ok_or () (checked_add 64 (ap_image_base plan) (rl_value_offset reloc))) (\<lambda>value.
           Inr (logical, value))))) of
        Inl _ \<Rightarrow> (Inl (), mem)
      | Inr (logical, value) \<Rightarrow> write_launch_bytes extents logical (to_le_bytes value) mem)"

section \<open>Mapping\<close>

text \<open>\<open>grow\<close> says for which plans the record vector can grow by one.\<close>

definition insert_application_mapping ::
    "(mapping_plan \<Rightarrow> bool) \<Rightarrow> mapping_plan \<Rightarrow> nat \<Rightarrow> physical_range \<Rightarrow> mapping_permissions \<Rightarrow>
     (unit, mapping_plan) result" where
  "insert_application_mapping grow plan virtual_start physical permissions =
     rbind (map_err (\<lambda>_. ()) (virtual_from_pages virtual_start (range_page_count physical))) (\<lambda>vr.
     rbind (map_err (\<lambda>_. ()) (mapping_user vr physical permissions Own_IsolatedTask Life_Task)) (\<lambda>m.
     map_err (\<lambda>_. ()) (plan_insert (grow plan) plan m)))"

text \<open>A failure part way leaves the plan with the runs already inserted.\<close>

function map_region_loop ::
    "(mapping_plan \<Rightarrow> bool) \<Rightarrow> physical_extents \<Rightarrow> nat \<Rightarrow> nat \<Rightarrow> nat \<Rightarrow> mapping_permissions \<Rightarrow> nat \<Rightarrow>
     mapping_plan \<Rightarrow> (unit, unit) result \<times> mapping_plan" where
  "map_region_loop grow extents start_page page_count virtual_start permissions mapped plan =
     (if \<not> mapped < page_count then (Inr (), plan)
      else
       case checked_add 64 start_page mapped of
         None \<Rightarrow> (Inl (), plan)
       | Some page \<Rightarrow>
          (case extents_run_at extents page (page_count - mapped) of
             Inl _ \<Rightarrow> (Inl (), plan)
           | Inr run \<Rightarrow>
              (case Option.bind (checked_mul 64 mapped BASE_PAGE_SIZE) (\<lambda>bytes. checked_add 64 virtual_start bytes) of
                 None \<Rightarrow> (Inl (), plan)
               | Some address \<Rightarrow>
                  (case insert_application_mapping grow plan address run permissions of
                     Inl _ \<Rightarrow> (Inl (), plan)
                   | Inr plan' \<Rightarrow>
                      (case checked_add 64 mapped (range_page_count run) of
                         None \<Rightarrow> (Inl (), plan')
                       | Some mapped' \<Rightarrow>
                           map_region_loop grow extents start_page page_count virtual_start permissions mapped' plan')))))"
  by pat_completeness auto

termination
  by (relation "measure (\<lambda>(grow, extents, start_page, page_count, virtual_start, permissions, mapped, plan).
      page_count - mapped)")
    (auto simp: checked_add_def dest: extents_run_at_progress split: if_splits)

declare map_region_loop.simps [simp del]

definition map_launch_region ::
    "(mapping_plan \<Rightarrow> bool) \<Rightarrow> mapping_plan \<Rightarrow> physical_extents \<Rightarrow> nat \<Rightarrow> nat \<Rightarrow> nat \<Rightarrow> mapping_permissions \<Rightarrow>
     (unit, unit) result \<times> mapping_plan" where
  "map_launch_region grow plan extents start_page page_count virtual_start permissions =
     map_region_loop grow extents start_page page_count virtual_start permissions 0 plan"

definition run_region :: "(unit, unit) result \<times> mapping_plan \<Rightarrow> (unit, mapping_plan) result" where
  "run_region out = (case out of (Inl _, _) \<Rightarrow> Inl () | (Inr _, plan) \<Rightarrow> Inr plan)"

definition needed_while_isolated :: "physical_range \<Rightarrow> mapping \<Rightarrow> bool" where
  "needed_while_isolated kernel_runtime m =
     (m_owner m \<noteq> Own_KernelRuntime \<or>
      pr_start kernel_runtime \<le> pr_start (m_physical m) \<and> pr_end (m_physical m) \<le> pr_end kernel_runtime)"

fun kernel_mappings_loop ::
    "(mapping_plan \<Rightarrow> bool) \<Rightarrow> physical_range \<Rightarrow> mapping list \<Rightarrow> mapping_plan \<Rightarrow> (unit, mapping_plan) result" where
  "kernel_mappings_loop grow kernel_runtime [] plan = Inr plan"
| "kernel_mappings_loop grow kernel_runtime (m # rest) plan =
     (if needed_while_isolated kernel_runtime m
      then rbind (map_err (\<lambda>_. ()) (plan_insert (grow plan) plan m)) (\<lambda>plan'.
           kernel_mappings_loop grow kernel_runtime rest plan')
      else kernel_mappings_loop grow kernel_runtime rest plan)"

definition mapping_permissions_of :: "segment_permissions \<Rightarrow> mapping_permissions" where
  "mapping_permissions_of p =
     (case p of Seg_ReadOnly \<Rightarrow> READ_ONLY | Seg_ReadExecute \<Rightarrow> READ_EXECUTE | Seg_ReadWrite \<Rightarrow> READ_WRITE)"

fun segment_mappings_loop ::
    "(mapping_plan \<Rightarrow> bool) \<Rightarrow> application_plan \<Rightarrow> physical_extents \<Rightarrow> load_segment list \<Rightarrow> nat \<Rightarrow> mapping_plan \<Rightarrow>
     (unit, mapping_plan) result" where
  "segment_mappings_loop grow application extents [] index plan = Inr plan"
| "segment_mappings_loop grow application extents (segment # rest) index plan =
     rbind (segment_logical_offset application index) (\<lambda>base.
     rbind (run_region (map_launch_region grow plan extents (base div BASE_PAGE_SIZE)
              (sg_memory_bytes segment div BASE_PAGE_SIZE) (sg_virtual_address segment)
              (mapping_permissions_of (sg_permissions segment)))) (\<lambda>plan'.
     segment_mappings_loop grow application extents rest (index + 1) plan'))"

definition build_application_plan ::
    "(mapping_plan \<Rightarrow> bool) \<Rightarrow> mapping_plan \<Rightarrow> physical_range \<Rightarrow> application_private_allocation \<Rightarrow>
     application_plan \<Rightarrow> (unit, mapping_plan) result" where
  "build_application_plan grow kernel_plan kernel_runtime allocation application =
     rbind (kernel_mappings_loop grow kernel_runtime kernel_plan plan_new) (\<lambda>plan1.
     rbind (segment_mappings_loop grow application (pa_extents allocation) (ap_segments application) 0 plan1) (\<lambda>plan2.
     rbind (insert_application_mapping grow plan2 (ap_startup_address application) (pa_startup allocation) READ_ONLY)
       (\<lambda>plan3.
     rbind (ok_or () (checked_add 64 (pa_image_pages allocation) APPLICATION_STARTUP_PAGES)) (\<lambda>heap_start_page.
     rbind (if pa_heap_pages allocation \<noteq> 0
            then run_region (map_launch_region grow plan3 (pa_extents allocation) heap_start_page
                   (pa_heap_pages allocation) (ap_heap_address application) READ_WRITE)
            else Inr plan3) (\<lambda>plan4.
     rbind (ok_or () (checked_add 64 heap_start_page (pa_heap_pages allocation))) (\<lambda>stack_start_page.
     rbind (run_region (map_launch_region grow plan4 (pa_extents allocation) stack_start_page
              (pa_stack_pages allocation) (ap_stack_bottom application) READ_WRITE)) (\<lambda>plan5.
     if \<not> enforces_global_w_xor_x plan5 then Inl () else Inr plan5)))))))"

section \<open>Scattered writes\<close>

text \<open>The reference for a copy: byte \<open>i\<close> goes to address \<open>i\<close> of a list of addresses.\<close>

definition scatter :: "physical_memory \<Rightarrow> nat list \<Rightarrow> 8 word list \<Rightarrow> physical_memory" where
  "scatter mem addrs bytes = (\<lambda>a. case map_of (zip addrs bytes) a of None \<Rightarrow> mem a | Some b \<Rightarrow> b)"

lemma scatter_Nil [simp]: "scatter mem [] bytes = mem" "scatter mem addrs [] = mem"
  by (simp_all add: scatter_def)

lemma scatter_append:
  assumes "length as = length bs" and "set as \<inter> set cs = {}"
  shows "scatter (scatter mem as bs) cs ds = scatter mem (as @ cs) (bs @ ds)"
proof
  fix a
  show "scatter (scatter mem as bs) cs ds a = scatter mem (as @ cs) (bs @ ds) a"
  proof (cases "a \<in> set as")
    case True
    with assms(2) have "map_of (zip cs ds) a = None" by (auto simp: map_of_eq_None_iff dest: set_zip_leftD)
    moreover obtain b where "map_of (zip as bs) a = Some b" using True assms(1) by (metis map_of_zip_is_Some)
    ultimately show ?thesis using assms(1) by (simp add: scatter_def map_add_def)
  next
    case False
    with assms(1) have "map_of (zip as bs) a = None" by (metis map_of_zip_is_None)
    then show ?thesis
      using assms(1) by (simp add: scatter_def map_add_def del: map_of_zip_is_None split: option.splits)
  qed
qed

lemma map_of_zip_upt: "map_of (zip [s..<s + length bs] bs) a = (if s \<le> a \<and> a < s + length bs then Some (bs ! (a - s)) else None)"
proof (cases "s \<le> a \<and> a < s + length bs")
  case True
  then have "map_of (zip [s..<s + length bs] bs) ([s..<s + length bs] ! (a - s)) = Some (bs ! (a - s))"
    by (intro map_of_zip_nth) auto
  with True show ?thesis by simp
next
  case False
  then show ?thesis by (auto simp: map_of_eq_None_iff dest: set_zip_leftD)
qed

lemma write_span_scatter: "write_span mem s bs = scatter mem [s..<s + length bs] bs"
  by (auto simp: write_span_def scatter_def map_of_zip_upt fun_eq_iff)

lemma scatter_nth: "distinct as \<Longrightarrow> length as = length bs \<Longrightarrow> i < length bs \<Longrightarrow> scatter mem as bs (as ! i) = bs ! i"
  by (simp add: scatter_def map_of_zip_nth)

lemma scatter_other: "a \<notin> set as \<Longrightarrow> scatter mem as bs a = mem a"
proof -
  assume "a \<notin> set as"
  then have "map_of (zip as bs) a = None" by (auto simp: map_of_eq_None_iff dest: set_zip_leftD)
  then show ?thesis by (simp add: scatter_def)
qed

lemma byte_run_at_loop_within:
  "byte_run_at_loop off n logical es = Inr (e, w, c) \<Longrightarrow> e \<in> set es \<and> w + c \<le> range_byte_count e"
  by (induction es arbitrary: logical)
    (auto simp: result_simps checked_simps Let_def try_into_def split: if_splits)

lemma extents_byte_run_at_within:
  "extents_byte_run_at x off n = Inr (e, w, c) \<Longrightarrow> e \<in> set (px_extents x) \<and> w + c \<le> range_byte_count e"
  by (auto simp: extents_byte_run_at_def result_simps split: if_splits dest: byte_run_at_loop_within)

text \<open>Every extent small enough for one pointer-sized copy.\<close>

definition extents_copyable :: "physical_extents \<Rightarrow> bool" where
  "extents_copyable x = (extents_bytes_ok x \<and> distinct (extents_addresses x) \<and>
     (\<forall>e \<in> set (px_extents x). range_byte_count e \<le> ISIZE_MAX))"

lemma copy_to_physical_run:
  assumes x: "extents_copyable x" and run: "extents_byte_run_at x off n = Inr (e, w, length bytes)"
    and ne: "bytes \<noteq> []"
  shows "copy_to_physical e w bytes mem = Inr (scatter mem (byte_run_pieces (e, w, length bytes)) bytes)"
proof -
  note e = extents_byte_run_at_within [OF run]
  then have ok: "range_ok e" and small: "range_byte_count e \<le> ISIZE_MAX"
    using x by (auto simp: extents_copyable_def extents_bytes_ok_def extents_ok_def)
  have "pr_start e + range_byte_count e = pr_end e" "pr_end e < 2 ^ 64"
    using ok by (auto simp: range_ok_def range_byte_count_def)
  with e small have "pr_start e + w < 2 ^ 64" "w + length bytes < 2 ^ 64" "pr_start e < 2 ^ 64"
    "range_byte_count e < 2 ^ 64" by (auto simp: ISIZE_MAX_def)
  with e small ne show ?thesis
    by (simp add: copy_to_physical_def try_into_def checked_add_def write_span_scatter byte_run_pieces_def)
qed

lemma write_launch_loop_spec:
  assumes x: "extents_copyable x" and fit: "off + length bytes \<le> length (extents_addresses x)"
    and k: "k \<le> length bytes"
  shows "\<forall>mem. write_launch_loop x off bytes k mem =
    (Inr (), scatter mem (take (length bytes - k) (drop (off + k) (extents_addresses x))) (drop k bytes))"
proof (rule byte_runs.run_loop_induct [OF _ fit k])
  show "extents_bytes_ok x" using x by (simp add: extents_copyable_def)
  show "\<forall>mem. write_launch_loop x off bytes (length bytes) mem =
    (Inr (), scatter mem (take (length bytes - length bytes) (drop (off + length bytes) (extents_addresses x)))
      (drop (length bytes) bytes))"
    by (simp add: write_launch_loop.simps)
next
  fix k r
  let ?A = "extents_addresses x"
  assume lt: "k < length bytes" and run: "extents_byte_run_at x (off + k) (length bytes - k) = Inr r"
    and ne: "0 < length (byte_run_pieces r)" and le: "k + length (byte_run_pieces r) \<le> length bytes"
    and slice: "byte_run_pieces r = take (length (byte_run_pieces r)) (drop (off + k) ?A)"
    and IH: "\<forall>mem. write_launch_loop x off bytes (k + length (byte_run_pieces r)) mem =
      (Inr (), scatter mem (take (length bytes - (k + length (byte_run_pieces r)))
        (drop (off + (k + length (byte_run_pieces r))) ?A)) (drop (k + length (byte_run_pieces r)) bytes))"
  obtain e w c where r: "r = (e, w, c)" by (cases r)
  have c: "length (byte_run_pieces r) = c" "0 < c" "k + c \<le> length bytes" using ne le by (simp_all add: r)
  have total: "length ?A < 2 ^ 64" and dist: "distinct ?A"
    using x length_extents_addresses [of x] by (auto simp: extents_copyable_def extents_bytes_ok_def)
  have add: "checked_add 64 off k = Some (off + k)" "checked_add 64 k c = Some (k + c)"
    using fit lt c total by (auto simp: checked_add_def)
  let ?chunk = "take c (drop k bytes)"
  have chunk: "length ?chunk = c" using c by simp
  have copy: "copy_to_physical e w ?chunk mem = Inr (scatter mem (byte_run_pieces r) ?chunk)" for mem
    using copy_to_physical_run [OF x, of "off + k" "length bytes - k" e w ?chunk mem] run r chunk c(2) by fastforce
  have step: "write_launch_loop x off bytes k mem =
      write_launch_loop x off bytes (k + c) (scatter mem (byte_run_pieces r) ?chunk)" for mem
    using lt add run c(3) copy by (simp add: write_launch_loop.simps [of x off bytes k] r)
  let ?rest = "take (length bytes - (k + c)) (drop (off + (k + c)) ?A)"
  have split: "take (length bytes - k) (drop (off + k) ?A) = byte_run_pieces r @ ?rest"
  proof -
    have "length bytes - k = c + (length bytes - (k + c))" using c(3) by simp
    then show ?thesis unfolding slice [unfolded c(1)] by (simp add: take_add add.assoc add.commute add.left_commute)
  qed
  have "distinct (take (length bytes - k) (drop (off + k) ?A))" using dist by simp
  then have disj: "set (byte_run_pieces r) \<inter> set ?rest = {}" unfolding split by simp
  have "?chunk @ drop (k + c) bytes = drop k bytes" by (simp add: add.commute flip: drop_drop)
  with scatter_append [OF _ disj, of ?chunk] chunk c(1)
  have "scatter (scatter mem (byte_run_pieces r) ?chunk) ?rest (drop (k + c) bytes) =
      scatter mem (byte_run_pieces r @ ?rest) (drop k bytes)" for mem by metis
  with IH [unfolded c(1)] show "\<forall>mem. write_launch_loop x off bytes k mem =
      (Inr (), scatter mem (take (length bytes - k) (drop (off + k) ?A)) (drop k bytes))"
    unfolding step split by simp
qed

lemma write_launch_bytes_fit:
  "extents_copyable x \<Longrightarrow> off + length bytes \<le> length (extents_addresses x) \<Longrightarrow>
   write_launch_bytes x off bytes mem = (Inr (), scatter mem (take (length bytes) (drop off (extents_addresses x))) bytes)"
  using write_launch_loop_spec [of x off bytes 0] by (simp add: write_launch_bytes_def)

lemma write_launch_bytes_unfit:
  assumes x: "extents_copyable x" and ne: "bytes \<noteq> []" and big: "length (extents_addresses x) < off + length bytes"
  shows "write_launch_bytes x off bytes mem = (Inl (), mem)"
proof -
  have len: "length (extents_addresses x) = px_page_count x * BASE_PAGE_SIZE" "length (extents_addresses x) < 2 ^ 64"
    using x length_extents_addresses [of x] by (auto simp: extents_copyable_def extents_bytes_ok_def)
  have "extents_byte_run_at x off (length bytes) \<noteq> Inr r" for r
    using big len ne by (auto simp: extents_byte_run_at_def checked_mul_def checked_add_def)
  then obtain e where "extents_byte_run_at x off (length bytes) = Inl e" by (metis obj_sumE)
  then show ?thesis
    using ne by (simp add: write_launch_bytes_def write_launch_loop.simps checked_add_def)
qed

lemma write_launch_bytes_outside:
  assumes x: "extents_copyable x" and a: "a \<notin> set (take (length bytes) (drop off (extents_addresses x)))"
  shows "snd (write_launch_bytes x off bytes mem) a = mem a"
proof (cases "off + length bytes \<le> length (extents_addresses x) \<or> bytes = []")
  case True
  then show ?thesis
    using write_launch_bytes_fit [OF x, of off bytes mem] a scatter_other [of a]
    by (auto simp: write_launch_bytes_def write_launch_loop.simps)
next
  case False
  with write_launch_bytes_unfit [OF x, of bytes off mem] show ?thesis by auto
qed

section \<open>Segments\<close>

definition segment_base :: "application_plan \<Rightarrow> nat \<Rightarrow> nat" where
  "segment_base plan i = sum_list (map sg_memory_bytes (take i (ap_segments plan)))"

definition segment_addresses :: "physical_extents \<Rightarrow> application_plan \<Rightarrow> nat \<Rightarrow> nat list" where
  "segment_addresses x plan i =
     take (sg_memory_bytes (ap_segments plan ! i)) (drop (segment_base plan i) (extents_addresses x))"

lemma segment_offset_loop_Inr:
  "segment_offset_loop segs k wanted off = Inr base \<Longrightarrow> k \<le> wanted \<Longrightarrow>
   wanted - k < length segs \<and> base = off + sum_list (map sg_memory_bytes (take (wanted - k) segs))"
proof (induction segs k wanted off rule: segment_offset_loop.induct)
  case (2 segment rest index wanted off)
  show ?case
  proof (cases "index = wanted")
    case True
    with 2 show ?thesis by simp
  next
    case False
    from 2(2) False obtain off' where "checked_add 64 off (sg_memory_bytes segment) = Some off'"
      "segment_offset_loop rest (index + 1) wanted off' = Inr base" by (auto simp: result_simps)
    moreover have "off' = off + sg_memory_bytes segment" using calculation(1) by (auto simp: checked_simps)
    moreover have "wanted - index = Suc (wanted - (index + 1))" "index + 1 \<le> wanted" using 2(3) False by auto
    ultimately show ?thesis using 2(1) [OF False, of off'] by simp
  qed
qed simp

lemma segment_logical_offset_Inr:
  "segment_logical_offset plan i = Inr base \<Longrightarrow> i < length (ap_segments plan) \<and> base = segment_base plan i"
  using segment_offset_loop_Inr [of "ap_segments plan" 0 i 0 base]
  by (simp add: segment_logical_offset_def segment_base_def)

lemma segment_base_mono:
  assumes "i < j" and "j < length (ap_segments plan)"
  shows "segment_base plan i + sg_memory_bytes (ap_segments plan ! i) \<le> segment_base plan j"
proof -
  have "take j (ap_segments plan) =
      take i (ap_segments plan) @ ap_segments plan ! i # take (j - Suc i) (drop (Suc i) (ap_segments plan))"
  proof -
    have "j = Suc i + (j - Suc i)" using assms(1) by simp
    then have "take j (ap_segments plan) =
        take (Suc i) (ap_segments plan) @ take (j - Suc i) (drop (Suc i) (ap_segments plan))"
      by (metis take_add)
    with assms show ?thesis by (simp add: take_Suc_conv_app_nth)
  qed
  then show ?thesis by (simp add: segment_base_def)
qed

lemma distinct_slices:
  assumes "distinct xs" and "b + n \<le> c"
  shows "set (take n (drop b xs)) \<inter> set (take m (drop c xs)) = {}"
proof -
  have "take n (drop b xs) = drop b (take (b + n) xs)" by (simp add: drop_take)
  then have "set (take n (drop b xs)) \<subseteq> set (take c xs)"
    using assms(2) by (metis set_drop_subset set_take_subset_set_take subset_trans)
  moreover have "set (take m (drop c xs)) \<subseteq> set (drop c xs)" by (rule set_take_subset)
  ultimately show ?thesis using set_take_disj_set_drop_if_distinct [OF assms(1), of c c] by blast
qed

lemma slice_subset:
  assumes "o1 + n \<le> m"
  shows "set (take n (drop (b + o1) xs)) \<subseteq> set (take m (drop b xs))"
proof -
  have "take n (drop (b + o1) xs) = take n (drop o1 (take m (drop b xs)))"
    using assms by (simp add: drop_take min_def add.commute)
  then show ?thesis by (metis set_drop_subset set_take_subset subset_trans)
qed

lemma write_segment_confined:
  assumes x: "extents_copyable x" and a: "a \<notin> set (segment_addresses x plan i)"
  shows "snd (write_segment_bytes x plan i off bytes mem) a = mem a"
proof (cases "i < length (ap_segments plan) \<and> off + length bytes < 2 ^ 64 \<and>
    off + length bytes \<le> sg_memory_bytes (ap_segments plan ! i)")
  case False
  then show ?thesis by (auto simp: write_segment_bytes_def Let_def checked_add_def)
next
  case True
  show ?thesis
  proof (cases "rbind (segment_logical_offset plan i) (\<lambda>base. ok_or () (checked_add 64 base off))")
    case (Inl e)
    with True show ?thesis by (auto simp: write_segment_bytes_def Let_def checked_add_def)
  next
    case (Inr logical)
    then have "logical = segment_base plan i + off"
      by (auto simp: result_simps checked_simps dest!: segment_logical_offset_Inr)
    with slice_subset [of off "length bytes" "sg_memory_bytes (ap_segments plan ! i)" "segment_base plan i"
        "extents_addresses x"] True a
    have "a \<notin> set (take (length bytes) (drop logical (extents_addresses x)))"
      unfolding segment_addresses_def by blast
    with write_launch_bytes_outside [OF x this] True Inr show ?thesis
      by (auto simp: write_segment_bytes_def Let_def checked_add_def)
  qed
qed

section \<open>Relocations\<close>

definition le_value :: "8 word list \<Rightarrow> nat" where
  "le_value bytes = sum_list (map (\<lambda>i. unat (bytes ! i) * 2 ^ (8 * i)) [0..<length bytes])"

lemma length_to_le_bytes [simp]: "length (to_le_bytes v) = 8"
  by (simp add: to_le_bytes_def)

lemma to_le_bytes_Nil [simp]: "to_le_bytes v \<noteq> []"
  using length_to_le_bytes [of v] by (metis list.size(3) zero_neq_numeral)

lemma digits_sum: "sum_list (map (\<lambda>i. (v :: nat) div 2 ^ (8 * i) mod 256 * 2 ^ (8 * i)) [0..<n]) = v mod 2 ^ (8 * n)"
proof (induction n)
  case (Suc n)
  have "v mod 2 ^ (8 * Suc n) = v mod (2 ^ (8 * n) * 256)" by (simp add: power_add mult.commute)
  also have "\<dots> = 2 ^ (8 * n) * (v div 2 ^ (8 * n) mod 256) + v mod 2 ^ (8 * n)" by (rule mod_mult2_eq)
  finally show ?case using Suc by (simp add: mult.commute)
qed simp

lemma le_value_to_le_bytes:
  assumes "v < 2 ^ 64"
  shows "le_value (to_le_bytes v) = v"
proof -
  have "le_value (to_le_bytes v) = sum_list (map (\<lambda>i. v div 2 ^ (8 * i) mod 256 * 2 ^ (8 * i)) [0..<8])"
    unfolding le_value_def length_to_le_bytes
    by (intro arg_cong [where f = sum_list] map_cong) (auto simp: to_le_bytes_def unat_of_nat)
  also have "\<dots> = v mod 2 ^ (8 * 8)" by (rule digits_sum)
  finally show ?thesis using assms by simp
qed

lemma relocation_target_loop_Inr:
  assumes "relocation_target_loop plan reloc te segs k = Inr (Some logical)"
  shows "\<exists>i \<ge> k. i - k < length segs \<and> sg_image_offset (segs ! (i - k)) \<le> rl_target_offset reloc \<and>
    te \<le> sg_image_offset (segs ! (i - k)) + sg_memory_bytes (segs ! (i - k)) \<and>
    i < length (ap_segments plan) \<and>
    logical = segment_base plan i + (rl_target_offset reloc - sg_image_offset (segs ! (i - k)))"
  using assms
proof (induction segs arbitrary: k)
  case Nil
  then show ?case by simp
next
  case (Cons s segs)
  show ?case
  proof (cases "sg_image_offset s \<le> rl_target_offset reloc \<and> te \<le> sg_image_offset s + sg_memory_bytes s")
    case True
    with Cons.prems have "i = k \<Longrightarrow> i < length (ap_segments plan) \<and>
        logical = segment_base plan i + (rl_target_offset reloc - sg_image_offset s)" for i
      by (auto simp: result_simps checked_simps dest!: segment_logical_offset_Inr)
    with True show ?thesis by (intro exI [of _ k]) auto
  next
    case False
    with Cons.prems have "relocation_target_loop plan reloc te segs (k + 1) = Inr (Some logical)"
      by (auto simp: result_simps checked_simps split: if_splits)
    from Cons.IH [OF this] obtain i where i: "k + 1 \<le> i" "i - (k + 1) < length segs"
      "sg_image_offset (segs ! (i - (k + 1))) \<le> rl_target_offset reloc"
      "te \<le> sg_image_offset (segs ! (i - (k + 1))) + sg_memory_bytes (segs ! (i - (k + 1)))"
      "i < length (ap_segments plan)"
      "logical = segment_base plan i + (rl_target_offset reloc - sg_image_offset (segs ! (i - (k + 1))))" by blast
    moreover have "i - k = Suc (i - (k + 1))" using i(1) by simp
    ultimately show ?thesis by (intro exI [of _ i]) auto
  qed
qed

section \<open>Properties of the image writer\<close>

lemma extents_addresses_sample: "extents_copyable sample_extents" "length (extents_addresses sample_extents) = 12288"
proof -
  have "length (extents_addresses sample_extents) = px_page_count sample_extents * BASE_PAGE_SIZE"
    by (rule length_extents_addresses [OF sample_extents_ok(1)])
  then show "length (extents_addresses sample_extents) = 12288" by (simp add: sample_extents_def BASE_PAGE_SIZE_def)
  show "extents_copyable sample_extents"
    using sample_extents_ok(1)
    by (auto simp: extents_copyable_def extents_bytes_ok_def sample_extents_def extents_addresses_def
        range_addresses_def range_byte_count_def ISIZE_MAX_def BASE_PAGE_SIZE_def simp del: upt_rec_numeral)
qed

text \<open>
  A copy into a reservation lands at the logical offset whatever extent
  boundaries it crosses: byte \<open>i\<close> goes to the address of logical byte \<open>offset + i\<close>
  and no other byte changes. A copy that would leave the reservation is refused
  before anything is written.
\<close>

lemma write_launch_bytes_exact:
  assumes "extents_copyable x"
  shows "case write_launch_bytes x off bytes mem of
      (Inr _, mem') \<Rightarrow> (bytes = [] \<or> off + length bytes \<le> length (extents_addresses x)) \<and>
        (\<forall>i<length bytes. mem' (extents_addresses x ! (off + i)) = bytes ! i) \<and>
        (\<forall>a. a \<notin> set (take (length bytes) (drop off (extents_addresses x))) \<longrightarrow> mem' a = mem a)
    | (Inl _, mem') \<Rightarrow> mem' = mem \<and> length (extents_addresses x) < off + length bytes"
proof (cases "off + length bytes \<le> length (extents_addresses x)")
  case True
  let ?as = "take (length bytes) (drop off (extents_addresses x))"
  have "distinct ?as" "length ?as = length bytes"
    using assms True by (auto simp: extents_copyable_def)
  then have "scatter mem ?as bytes (extents_addresses x ! (off + i)) = bytes ! i" if "i < length bytes" for i
    using scatter_nth [of ?as bytes i mem] that True by simp
  with True scatter_other [of _ ?as mem bytes] write_launch_bytes_fit [OF assms True, of mem] show ?thesis by simp
next
  case False
  show ?thesis
  proof (cases "bytes = []")
    case True
    then show ?thesis by (simp add: write_launch_bytes_def write_launch_loop.simps)
  next
    case ne: False
    with False write_launch_bytes_unfit [OF assms ne, of off mem] show ?thesis by simp
  qed
qed

text \<open>
  Loading stays inside its segment: whatever offset and bytes a payload chunk
  carries, writing it for one segment changes no byte of any other segment of the
  image, and no byte outside the reservation.
\<close>

lemma write_segment_isolated:
  assumes "extents_copyable x" and "i < length (ap_segments plan)" and "j < length (ap_segments plan)" and "i \<noteq> j"
  shows "(\<forall>a \<in> set (segment_addresses x plan j). snd (write_segment_bytes x plan i off bytes mem) a = mem a) \<and>
    (\<forall>a. a \<notin> set (extents_addresses x) \<longrightarrow> snd (write_segment_bytes x plan i off bytes mem) a = mem a)"
proof -
  have dist: "distinct (extents_addresses x)" using assms(1) by (simp add: extents_copyable_def)
  have "set (segment_addresses x plan i) \<inter> set (segment_addresses x plan j) = {}"
  proof (cases "i < j")
    case True
    from distinct_slices [OF dist segment_base_mono [OF True assms(3)]] show ?thesis
      by (simp add: segment_addresses_def)
  next
    case False
    with assms(4) have "j < i" by simp
    from distinct_slices [OF dist segment_base_mono [OF this assms(2)]] show ?thesis
      by (simp add: segment_addresses_def Int_commute)
  qed
  moreover have "set (segment_addresses x plan i) \<subseteq> set (extents_addresses x)"
    unfolding segment_addresses_def by (metis set_drop_subset set_take_subset subset_trans)
  ultimately show ?thesis using write_segment_confined [OF assms(1)] by blast
qed

definition sample_application :: application_plan where
  "sample_application =
     \<lparr>ap_segments =
        [\<lparr>sg_image_base = 65536, sg_image_offset = 0, sg_memory_bytes = 4096, sg_file_offset = 512,
           sg_file_byte_count = 4000, sg_permissions = Seg_ReadExecute\<rparr>,
         \<lparr>sg_image_base = 65536, sg_image_offset = 4096, sg_memory_bytes = 4096, sg_file_offset = 4608,
           sg_file_byte_count = 100, sg_permissions = Seg_ReadWrite\<rparr>],
      ap_image_base = 65536, ap_startup_address = 131072, ap_heap_address = 262144, ap_stack_bottom = 524288\<rparr>"

text \<open>
  A relocation that succeeds stores \<open>image base + value offset\<close> as eight
  little-endian bytes at the logical address of its target, inside one segment of
  the image, even when the target straddles two extents, and changes nothing else.
\<close>

lemma apply_relocation_exact:
  assumes "extents_copyable x" and "apply_application_relocation x plan reloc mem = (Inr (), mem')"
  shows "\<exists>i logical. i < length (ap_segments plan) \<and>
    logical = segment_base plan i + (rl_target_offset reloc - sg_image_offset (ap_segments plan ! i)) \<and>
    sg_image_offset (ap_segments plan ! i) \<le> rl_target_offset reloc \<and>
    rl_target_offset reloc + 8 \<le> sg_image_offset (ap_segments plan ! i) + sg_memory_bytes (ap_segments plan ! i) \<and>
    le_value (map mem' (take 8 (drop logical (extents_addresses x)))) = ap_image_base plan + rl_value_offset reloc \<and>
    (\<forall>a. a \<notin> set (take 8 (drop logical (extents_addresses x))) \<longrightarrow> mem' a = mem a)"
proof -
  from assms(2) obtain logical where
    lt: "relocation_target_loop plan reloc (rl_target_offset reloc + 8) (ap_segments plan) 0 = Inr (Some logical)"
      "ap_image_base plan + rl_value_offset reloc < 2 ^ 64"
    and out: "write_launch_bytes x logical (to_le_bytes (ap_image_base plan + rl_value_offset reloc)) mem = (Inr (), mem')"
    by (auto simp: apply_application_relocation_def rbind_def ok_or_def checked_add_def
        split: sum.splits option.splits if_splits)
  let ?v = "to_le_bytes (ap_image_base plan + rl_value_offset reloc)"
  let ?as = "take 8 (drop logical (extents_addresses x))"
  have fit: "logical + 8 \<le> length (extents_addresses x)"
    using out write_launch_bytes_unfit [OF assms(1), of ?v logical mem] by (fastforce simp: not_less [symmetric])
  then have mem': "mem' = scatter mem ?as ?v"
    using out write_launch_bytes_fit [OF assms(1), of logical ?v mem] by simp
  have as: "distinct ?as" "length ?as = length ?v" using assms(1) fit by (auto simp: extents_copyable_def)
  have "map mem' ?as = ?v"
    using scatter_nth [OF as] as(2) unfolding mem' by (intro nth_equalityI) auto
  then have "le_value (map mem' ?as) = ap_image_base plan + rl_value_offset reloc"
    using le_value_to_le_bytes [OF lt(2)] by simp
  moreover have "\<forall>a. a \<notin> set ?as \<longrightarrow> mem' a = mem a" unfolding mem' using scatter_other by blast
  ultimately show ?thesis using relocation_target_loop_Inr [OF lt(1)] by auto
qed

end
