(* ===== verification/Launch_Mapping.thy ===== *)
theory Launch_Mapping
  imports Launch_Image
begin

text \<open>
  Correctness of the mapping half of \<open>kernel/src/memory/launch.rs\<close>: a region is
  mapped page by page in logical order across its extents, and the plan of one
  application reaches only its own reservation through user mappings.
\<close>

section \<open>Region mappings\<close>

definition user_mapping :: "nat \<Rightarrow> physical_range \<Rightarrow> mapping_permissions \<Rightarrow> mapping" where
  "user_mapping va pr perms =
     \<lparr>m_virtual = \<lparr>vr_start = va, vr_end = va + range_page_count pr * BASE_PAGE_SIZE\<rparr>, m_physical = pr,
      m_permissions = perms, m_memory_type = Mem_Normal, m_owner = Own_IsolatedTask,
      m_lifetime = Life_Task, m_remappable = False, m_privilege = Priv_User\<rparr>"

lemma insert_application_mapping_Inr:
  assumes ok: "plan_ok plan" and r: "range_ok pr" and ins: "insert_application_mapping grow plan va pr perms = Inr plan'"
  shows "plan_ok plan'" and "mapping_ok (user_mapping va pr perms)"
    and "set plan' = insert (user_mapping va pr perms) (set plan)"
    and "plan_translate plan' a = (if va \<le> a \<and> a < va + range_page_count pr * BASE_PAGE_SIZE
      then Some (pr_start pr + (a - va), user_mapping va pr perms) else plan_translate plan a)"
proof -
  let ?m = "user_mapping va pr perms"
  from ins obtain vr m where vr: "virtual_from_pages va (range_page_count pr) = Inr vr"
    and m: "mapping_user vr pr perms Own_IsolatedTask Life_Task = Inr m"
    and ins': "plan_insert (grow plan) plan m = Inr plan'"
    by (auto simp: insert_application_mapping_def rbind_def map_err_def split: sum.splits)
  have vr': "vr = \<lparr>vr_start = va, vr_end = va + range_page_count pr * BASE_PAGE_SIZE\<rparr>"
    "BASE_PAGE_SIZE dvd va" "va + range_page_count pr * BASE_PAGE_SIZE < 2 ^ 64" "0 < range_page_count pr"
    using vr by (auto simp: virtual_from_pages_Inr_iff)
  have mu: "m = ?m" and perms: "mp_read perms" "\<not> (mp_write perms \<and> mp_execute perms)"
    using m by (auto simp: mapping_user_def mapping_new_def user_mapping_def vr'(1) rbind_def split: if_splits)
  have "range_byte_count pr = range_page_count pr * BASE_PAGE_SIZE"
    using range_page_count_mult [OF r] by (simp add: range_byte_count_def)
  with vr' perms r show mok: "mapping_ok ?m"
    by (auto simp: mapping_ok_def user_mapping_def virtual_byte_count_def BASE_PAGE_SIZE_def)
  show "plan_ok plan'" "set plan' = insert ?m (set plan)"
    using plan_insert_Inr [OF ok mok] ins' unfolding mu by auto
  show "plan_translate plan' a = (if va \<le> a \<and> a < va + range_page_count pr * BASE_PAGE_SIZE
      then Some (pr_start pr + (a - va), ?m) else plan_translate plan a)"
    using plan_translate_insert [OF ok mok ins' [unfolded mu], of a]
    by (simp add: maps_address_def user_mapping_def)
qed

text \<open>The page of a logical page number, and the address a virtual address of the region reaches.\<close>

definition region_target :: "physical_extents \<Rightarrow> nat \<Rightarrow> nat \<Rightarrow> nat \<Rightarrow> nat" where
  "region_target x start_page va a =
     extents_pages x ! (start_page + (a - va) div BASE_PAGE_SIZE) + (a - va) mod BASE_PAGE_SIZE"

lemma run_offset_target:
  assumes r: "range_pages r = take (range_page_count r) (drop (s + k) (extents_pages x))"
    and le: "s + k + range_page_count r \<le> length (extents_pages x)"
    and a: "va + k * BASE_PAGE_SIZE \<le> a" "a < va + k * BASE_PAGE_SIZE + range_page_count r * BASE_PAGE_SIZE"
  shows "pr_start r + (a - (va + k * BASE_PAGE_SIZE)) = region_target x s va a"
proof -
  let ?d = "a - (va + k * BASE_PAGE_SIZE)"
  let ?j = "?d div BASE_PAGE_SIZE"
  have d: "a - va = k * BASE_PAGE_SIZE + ?d" using a(1) by simp
  have "?d < range_page_count r * BASE_PAGE_SIZE" using a by linarith
  then have j: "?j < range_page_count r" by (simp add: less_mult_imp_div_less)
  have "extents_pages x ! (s + (k + ?j)) = range_pages r ! ?j"
    using j le by (subst r) (simp add: add.assoc)
  also have "\<dots> = pr_start r + ?j * BASE_PAGE_SIZE" using j by (rule nth_range_pages)
  finally have "extents_pages x ! (s + (k + ?j)) = pr_start r + ?j * BASE_PAGE_SIZE" .
  moreover have "(a - va) div BASE_PAGE_SIZE = k + ?j" "(a - va) mod BASE_PAGE_SIZE = ?d mod BASE_PAGE_SIZE"
    unfolding d by (simp_all add: BASE_PAGE_SIZE_def)
  ultimately show ?thesis by (simp add: region_target_def)
qed

definition region_mapped ::
    "physical_extents \<Rightarrow> nat \<Rightarrow> nat \<Rightarrow> nat \<Rightarrow> nat \<Rightarrow> mapping_permissions \<Rightarrow> mapping_plan \<Rightarrow> mapping_plan \<Rightarrow> bool" where
  "region_mapped x s k n va perms plan plan' =
     (plan_ok plan' \<and>
      (\<forall>m \<in> set plan' - set plan. m_privilege m = Priv_User \<and> m_permissions m = perms \<and>
         set (range_pages (m_physical m)) \<subseteq> set (extents_pages x)) \<and> set plan \<subseteq> set plan' \<and>
      (\<forall>a. if va + k * BASE_PAGE_SIZE \<le> a \<and> a < va + n * BASE_PAGE_SIZE
         then \<exists>m. plan_translate plan' a = Some (region_target x s va a, m) \<and> m_privilege m = Priv_User \<and>
            m_permissions m = perms
         else plan_translate plan' a = plan_translate plan a))"

lemma region_address:
  "Option.bind (checked_mul 64 k BASE_PAGE_SIZE) (checked_add 64 va) = Some y \<Longrightarrow> y = va + k * BASE_PAGE_SIZE"
  by (auto simp: checked_mul_def checked_add_def split: Option.bind_splits if_splits)

lemma map_region_loop_spec:
  assumes x: "extents_ok x" and fit: "s + n \<le> length (extents_pages x)" and k: "k \<le> n"
  shows "\<forall>plan plan'. plan_ok plan \<longrightarrow> map_region_loop grow x s n va perms k plan = (Inr (), plan') \<longrightarrow>
    region_mapped x s k n va perms plan plan'"
proof (rule page_runs.run_loop_induct [OF x fit k])
  show "\<forall>plan plan'. plan_ok plan \<longrightarrow> map_region_loop grow x s n va perms n plan = (Inr (), plan') \<longrightarrow>
    region_mapped x s n n va perms plan plan'"
    by (auto simp: map_region_loop.simps region_mapped_def)
next
  fix k r
  assume lt: "k < n" and run: "extents_run_at x (s + k) (n - k) = Inr r"
    and ne: "0 < length (range_pages r)" and le: "k + length (range_pages r) \<le> n"
    and slice: "range_pages r = take (length (range_pages r)) (drop (s + k) (extents_pages x))"
    and IH: "\<forall>plan plan'. plan_ok plan \<longrightarrow>
      map_region_loop grow x s n va perms (k + length (range_pages r)) plan = (Inr (), plan') \<longrightarrow>
      region_mapped x s (k + length (range_pages r)) n va perms plan plan'"
  let ?P = "range_page_count r" and ?v = "va + k * BASE_PAGE_SIZE"
  have total: "length (extents_pages x) < 2 ^ 64" using x by (simp add: extents_ok_def)
  have rok: "range_ok r" using run by (auto simp: extents_run_at_def result_simps split: if_splits
      dest: run_at_loop_range_ok)
  have add: "checked_add 64 s k = Some (s + k)" "checked_add 64 k ?P = Some (k + ?P)"
    using fit lt le total by (auto simp: checked_add_def)
  show "\<forall>plan plan'. plan_ok plan \<longrightarrow> map_region_loop grow x s n va perms k plan = (Inr (), plan') \<longrightarrow>
    region_mapped x s k n va perms plan plan'"
  proof (intro allI impI)
    fix plan plan'
    assume ok: "plan_ok plan" and loop: "map_region_loop grow x s n va perms k plan = (Inr (), plan')"
    from loop lt add run obtain plan1 where
      ins: "insert_application_mapping grow plan ?v r perms = Inr plan1"
      and rest: "map_region_loop grow x s n va perms (k + ?P) plan1 = (Inr (), plan')"
      by (auto simp: map_region_loop.simps [of grow x s n va perms k] checked_simps
          split: option.splits sum.splits dest!: region_address)
    note m = insert_application_mapping_Inr [OF ok rok ins]
    from IH m(1) rest have rec: "region_mapped x s (k + ?P) n va perms plan1 plan'" by simp
    have sub: "set (range_pages r) \<subseteq> set (extents_pages x)"
      by (subst slice) (metis set_drop_subset set_take_subset subset_trans)
    have bound: "?v + ?P * BASE_PAGE_SIZE \<le> va + n * BASE_PAGE_SIZE"
    proof -
      have "(k + ?P) * BASE_PAGE_SIZE \<le> n * BASE_PAGE_SIZE" using le by (intro mult_le_mono1) simp
      then show ?thesis by (simp add: add_mult_distrib)
    qed
    have tr: "if ?v \<le> a \<and> a < va + n * BASE_PAGE_SIZE
         then \<exists>m. plan_translate plan' a = Some (region_target x s va a, m) \<and> m_privilege m = Priv_User \<and>
            m_permissions m = perms
         else plan_translate plan' a = plan_translate plan a" for a
    proof (cases "va + (k + ?P) * BASE_PAGE_SIZE \<le> a \<and> a < va + n * BASE_PAGE_SIZE")
      case True
      then have "?v \<le> a" by (simp add: add_mult_distrib)
      with True rec show ?thesis by (auto simp: region_mapped_def)
    next
      case False
      with rec have t: "plan_translate plan' a = plan_translate plan1 a" by (auto simp: region_mapped_def)
      show ?thesis
      proof (cases "?v \<le> a \<and> a < ?v + ?P * BASE_PAGE_SIZE")
        case True
        have "pr_start r + (a - ?v) = region_target x s va a"
        proof (rule run_offset_target)
          show "range_pages r = take ?P (drop (s + k) (extents_pages x))" using slice by simp
          show "s + k + ?P \<le> length (extents_pages x)" using le fit by simp
        qed (use True in auto)
        with True bound t m(4) [of a] show ?thesis by (simp add: user_mapping_def)
      next
        case outside: False
        with False bound t m(4) [of a] show ?thesis by (auto simp: add_mult_distrib)
      qed
    qed
    have "\<forall>m \<in> set plan' - set plan. m_privilege m = Priv_User \<and> m_permissions m = perms \<and>
         set (range_pages (m_physical m)) \<subseteq> set (extents_pages x)"
    proof
      fix q assume q: "q \<in> set plan' - set plan"
      then have "q = user_mapping ?v r perms \<or> q \<in> set plan' - set plan1" using m(3) by auto
      then show "m_privilege q = Priv_User \<and> m_permissions q = perms \<and>
          set (range_pages (m_physical q)) \<subseteq> set (extents_pages x)"
        using rec sub by (auto simp: region_mapped_def user_mapping_def)
    qed
    with tr rec m(3) show "region_mapped x s k n va perms plan plan'" by (auto simp: region_mapped_def)
  qed
qed

lemma map_launch_region_mapped:
  assumes x: "extents_ok x" and ok: "plan_ok plan"
    and out: "map_launch_region grow plan x s n va perms = (Inr (), plan')"
  shows "region_mapped x s 0 n va perms plan plan'"
proof (cases "s + n \<le> length (extents_pages x)")
  case True
  with map_region_loop_spec [OF x True, of 0 grow va perms] ok out show ?thesis
    by (simp add: map_launch_region_def)
next
  case False
  have "n = 0"
  proof (rule ccontr)
    assume "n \<noteq> 0"
    with False x have "extents_run_at x s n \<noteq> Inr r" for r
      by (auto simp: extents_run_at_def checked_add_def extents_ok_def)
    then obtain e where "extents_run_at x s n = Inl e" by (metis obj_sumE)
    with out \<open>n \<noteq> 0\<close> show False
      by (simp add: map_launch_region_def map_region_loop.simps checked_add_def split: if_splits)
  qed
  with out ok show ?thesis by (auto simp: map_launch_region_def map_region_loop.simps region_mapped_def)
qed

section \<open>The plan of one application\<close>

text \<open>Every user mapping of the plan is backed by the pages in \<open>S\<close>.\<close>

definition user_pages_in :: "nat set \<Rightarrow> mapping_plan \<Rightarrow> bool" where
  "user_pages_in S plan =
     (plan_ok plan \<and> (\<forall>m \<in> set plan. m_privilege m = Priv_User \<longrightarrow> set (range_pages (m_physical m)) \<subseteq> S))"

lemma region_user_pages:
  assumes x: "extents_ok x" and S: "set (extents_pages x) \<subseteq> S" and inv: "user_pages_in S plan"
    and out: "run_region (map_launch_region grow plan x s n va perms) = Inr plan'"
  shows "user_pages_in S plan'" and "set plan \<subseteq> set plan'"
    and "region_mapped x s 0 n va perms plan plan'"
proof -
  from out have "map_launch_region grow plan x s n va perms = (Inr (), plan')"
    by (auto simp: run_region_def split: prod.splits sum.splits)
  from map_launch_region_mapped [OF x _ this] inv
  show rm: "region_mapped x s 0 n va perms plan plan'" by (simp add: user_pages_in_def)
  then show "user_pages_in S plan'" "set plan \<subseteq> set plan'"
    using inv S unfolding region_mapped_def user_pages_in_def by blast+
qed

lemma kernel_mappings_loop_spec:
  assumes "\<forall>m \<in> set ms. mapping_ok m \<and> m_privilege m = Priv_Kernel" and "user_pages_in S plan"
    and "kernel_mappings_loop grow rt ms plan = Inr plan'"
  shows "user_pages_in S plan'"
  using assms
proof (induction grow rt ms plan rule: kernel_mappings_loop.induct)
  case (2 grow rt m rest plan)
  show ?case
  proof (cases "needed_while_isolated rt m")
    case True
    with "2.prems"(3) obtain plan1 where ins: "plan_insert (grow plan) plan m = Inr plan1"
      and rest: "kernel_mappings_loop grow rt rest plan1 = Inr plan'" by (auto simp: result_simps)
    have m: "mapping_ok m" "m_privilege m = Priv_Kernel" and ok: "plan_ok plan"
      using "2.prems"(1,2) by (auto simp: user_pages_in_def)
    have "user_pages_in S plan1"
      using plan_insert_Inr [OF ok m(1) ins] "2.prems"(2) m(2) by (auto simp: user_pages_in_def)
    with "2.IH"(1) [OF True _ this rest] "2.prems"(1) show ?thesis by simp
  next
    case False
    with 2 show ?thesis by simp
  qed
qed simp

text \<open>Region \<open>i\<close> of the image is visible at its virtual address with its permissions.\<close>

definition segment_visible ::
    "physical_extents \<Rightarrow> application_plan \<Rightarrow> load_segment \<Rightarrow> nat \<Rightarrow> mapping_plan \<Rightarrow> bool" where
  "segment_visible x app segment i plan =
     (\<forall>d < sg_memory_bytes segment div BASE_PAGE_SIZE * BASE_PAGE_SIZE.
        \<exists>m. plan_translate plan (sg_virtual_address segment + d) =
            Some (region_target x (segment_base app i div BASE_PAGE_SIZE) (sg_virtual_address segment)
              (sg_virtual_address segment + d), m) \<and>
          m_privilege m = Priv_User \<and> m_permissions m = mapping_permissions_of (sg_permissions segment))"

lemma translate_extends:
  "plan_ok plan \<Longrightarrow> plan_ok plan' \<Longrightarrow> set plan \<subseteq> set plan' \<Longrightarrow> plan_translate plan a = Some t \<Longrightarrow>
   plan_translate plan' a = Some t"
  by (cases t) (auto simp: plan_translate_Some_iff)

lemma segment_visible_extends:
  "segment_visible x app segment i plan \<Longrightarrow> plan_ok plan \<Longrightarrow> plan_ok plan' \<Longrightarrow> set plan \<subseteq> set plan' \<Longrightarrow>
   segment_visible x app segment i plan'"
  unfolding segment_visible_def using translate_extends by blast

lemma segment_mappings_loop_spec:
  assumes "extents_ok x" and "set (extents_pages x) \<subseteq> S" and "user_pages_in S plan"
    and "segment_mappings_loop grow app x segs k plan = Inr plan'"
  shows "user_pages_in S plan' \<and> set plan \<subseteq> set plan' \<and>
    (\<forall>j < length segs. segment_visible x app (segs ! j) (k + j) plan')"
  using assms(3,4)
proof (induction segs arbitrary: k plan)
  case Nil
  then show ?case by simp
next
  case (Cons s segs)
  from Cons.prems(2) obtain base plan1 where base: "segment_logical_offset app k = Inr base"
    and reg: "run_region (map_launch_region grow plan x (base div BASE_PAGE_SIZE)
      (sg_memory_bytes s div BASE_PAGE_SIZE) (sg_virtual_address s)
      (mapping_permissions_of (sg_permissions s))) = Inr plan1"
    and rest: "segment_mappings_loop grow app x segs (k + 1) plan1 = Inr plan'" by (auto simp: result_simps)
  note r = region_user_pages [OF assms(1,2) Cons.prems(1) reg]
  have base': "base = segment_base app k" using segment_logical_offset_Inr [OF base] by simp
  have vis: "segment_visible x app s k plan1"
    using r(3) unfolding segment_visible_def region_mapped_def base' by auto
  note IH = Cons.IH [OF r(1) rest]
  have "segment_visible x app s k plan'"
    using segment_visible_extends [OF vis] r(1) IH by (auto simp: user_pages_in_def)
  moreover have "segment_visible x app ((s # segs) ! j) (k + j) plan'" if "0 < j" "j < length (s # segs)" for j
    using that IH by (cases j) auto
  ultimately have "\<forall>j < length (s # segs). segment_visible x app ((s # segs) ! j) (k + j) plan'"
    by (metis add.right_neutral gr0I nth_Cons_0)
  with IH r(2) show ?case by blast
qed

lemma guard_Inr_iff: "(if \<not> b then Inl () else Inr y) = Inr z \<longleftrightarrow> b \<and> y = z"
  by auto

lemma build_application_plan_spec:
  assumes x: "extents_ok (pa_extents alloc)" and st: "range_ok (pa_startup alloc)"
    and ker: "\<forall>m \<in> set kernel_plan. mapping_ok m \<and> m_privilege m = Priv_Kernel"
    and out: "build_application_plan grow kernel_plan rt alloc app = Inr plan"
  shows "user_pages_in (set (extents_pages (pa_extents alloc)) \<union> set (range_pages (pa_startup alloc))) plan"
    and "enforces_global_w_xor_x plan"
    and "\<forall>i < length (ap_segments app). segment_visible (pa_extents alloc) app (ap_segments app ! i) i plan"
proof -
  let ?x = "pa_extents alloc"
  let ?S = "set (extents_pages ?x) \<union> set (range_pages (pa_startup alloc))"
  from out obtain p1 p2 p3 p4 hs ss where
    p1: "kernel_mappings_loop grow rt kernel_plan plan_new = Inr p1"
    and p2: "segment_mappings_loop grow app ?x (ap_segments app) 0 p1 = Inr p2"
    and p3: "insert_application_mapping grow p2 (ap_startup_address app) (pa_startup alloc) READ_ONLY = Inr p3"
    and p4: "(if pa_heap_pages alloc \<noteq> 0 then run_region (map_launch_region grow p3 ?x hs (pa_heap_pages alloc)
      (ap_heap_address app) READ_WRITE) else Inr p3) = Inr p4"
    and p5: "run_region (map_launch_region grow p4 ?x ss (pa_stack_pages alloc) (ap_stack_bottom app) READ_WRITE) = Inr plan"
    and wx: "enforces_global_w_xor_x plan"
    unfolding build_application_plan_def rbind_Inr_iff guard_Inr_iff by blast
  have S: "set (extents_pages ?x) \<subseteq> ?S" by simp
  have i0: "user_pages_in ?S plan_new" using plan_ok_new by (simp add: user_pages_in_def plan_new_def)
  have i1: "user_pages_in ?S p1" by (rule kernel_mappings_loop_spec [OF ker i0 p1])
  note i2 = segment_mappings_loop_spec [OF x S i1 p2]
  have ok2: "plan_ok p2" using i2 by (simp add: user_pages_in_def)
  note m3 = insert_application_mapping_Inr [OF ok2 st p3]
  have i3: "user_pages_in ?S p3" using i2 m3(1,3) by (auto simp: user_pages_in_def user_mapping_def)
  have i4: "user_pages_in ?S p4" "set p3 \<subseteq> set p4"
    using p4 region_user_pages(1,2) [OF x S i3] i3 by (auto split: if_splits)
  have i5: "user_pages_in ?S plan" "set p4 \<subseteq> set plan" using region_user_pages(1,2) [OF x S i4(1) p5] by auto
  show "user_pages_in ?S plan" by (rule i5(1))
  show "enforces_global_w_xor_x plan" by (rule wx)
  have "set p2 \<subseteq> set plan" using m3(3) i4(2) i5(2) by blast
  with i2 i5(1) show "\<forall>i < length (ap_segments app). segment_visible ?x app (ap_segments app ! i) i plan"
    using segment_visible_extends by (auto simp: user_pages_in_def)
qed

lemma dvd_sum_list_nat: "\<forall>x \<in> set xs. k dvd x \<Longrightarrow> k dvd sum_list (xs :: nat list)"
  by (induction xs) auto

lemma nth_range_address_page:
  assumes "range_ok r" and "p < range_page_count r" and "o1 < BASE_PAGE_SIZE"
  shows "range_addresses r ! (p * BASE_PAGE_SIZE + o1) = range_pages r ! p + o1"
proof -
  have "Suc p * BASE_PAGE_SIZE \<le> range_page_count r * BASE_PAGE_SIZE" using assms(2) by (intro mult_le_mono1) simp
  then have "pr_start r + (p * BASE_PAGE_SIZE + o1) < pr_end r"
    using range_ok_end [OF assms(1)] assms(3) by simp
  then show ?thesis using assms(2) by (simp add: range_addresses_def nth_range_pages)
qed

lemma nth_address_page:
  assumes "extents_ok x" and "p < length (extents_pages x)" and "o1 < BASE_PAGE_SIZE"
  shows "extents_addresses x ! (p * BASE_PAGE_SIZE + o1) = extents_pages x ! p + o1"
proof -
  have "concat (map range_addresses es) ! (p * BASE_PAGE_SIZE + o1) = concat (map range_pages es) ! p + o1"
    if "\<forall>r \<in> set es. range_ok r" "p < length (concat (map range_pages es))" for es p
    using that
  proof (induction es arbitrary: p)
    case (Cons r es)
    have r: "range_ok r" using Cons.prems(1) by simp
    have len: "length (range_addresses r) = range_page_count r * BASE_PAGE_SIZE"
      using range_page_count_mult [OF r] by (simp add: range_byte_count_def)
    show ?case
    proof (cases "p < range_page_count r")
      case True
      then have "Suc p * BASE_PAGE_SIZE \<le> range_page_count r * BASE_PAGE_SIZE" by (intro mult_le_mono1) simp
      then have "p * BASE_PAGE_SIZE + o1 < length (range_addresses r)" using assms(3) len by simp
      with True nth_range_address_page [OF r True assms(3)] show ?thesis by (simp add: nth_append)
    next
      case False
      then obtain q where q: "p = range_page_count r + q" by (metis le_add_diff_inverse not_less)
      then have "p * BASE_PAGE_SIZE + o1 = length (range_addresses r) + (q * BASE_PAGE_SIZE + o1)"
        using len by (simp add: add_mult_distrib)
      moreover have "q < length (concat (map range_pages es))" using Cons.prems(2) q by simp
      ultimately show ?thesis using Cons.IH [of q] Cons.prems(1) q by (simp add: nth_append del: length_range_addresses)
    qed
  qed simp
  with assms show ?thesis by (simp add: extents_ok_def extents_pages_def extents_addresses_def)
qed

lemma region_target_address:
  assumes "extents_ok x" and "base = s * BASE_PAGE_SIZE" and "base + d < length (extents_addresses x)"
  shows "region_target x s va (va + d) = extents_addresses x ! (base + d)"
proof -
  let ?p = "s + d div BASE_PAGE_SIZE"
  have eq: "base + d = ?p * BASE_PAGE_SIZE + d mod BASE_PAGE_SIZE"
    using assms(2) by (simp add: add_mult_distrib)
  then have "?p * BASE_PAGE_SIZE < px_page_count x * BASE_PAGE_SIZE"
    using assms(3) length_extents_addresses [OF assms(1)] by linarith
  then have "?p < length (extents_pages x)" using assms(1) by (simp add: extents_ok_def)
  moreover have "d mod BASE_PAGE_SIZE < BASE_PAGE_SIZE" by (simp add: BASE_PAGE_SIZE_def)
  ultimately show ?thesis using nth_address_page [OF assms(1)] by (simp add: region_target_def eq)
qed

section \<open>Properties\<close>

text \<open>
  Mapping a region is exact. When \<open>map_launch_region\<close> succeeds, page \<open>i\<close> of the
  virtual region translates to logical page \<open>start + i\<close> of the reservation with the
  requested permissions, whatever extents back it, the plan invariant holds, and
  every other address translates as before.
\<close>

lemma map_launch_region_exact:
  assumes "extents_ok x" and "plan_ok plan"
    and "map_launch_region grow plan x start n va perms = (Inr (), plan')"
  shows "plan_ok plan' \<and>
    (\<forall>a. if va \<le> a \<and> a < va + n * BASE_PAGE_SIZE
       then \<exists>m. plan_translate plan' a =
           Some (extents_pages x ! (start + (a - va) div BASE_PAGE_SIZE) + (a - va) mod BASE_PAGE_SIZE, m) \<and>
         m_privilege m = Priv_User \<and> m_permissions m = perms
       else plan_translate plan' a = plan_translate plan a)"
  using map_launch_region_mapped [OF assms]
  unfolding region_mapped_def region_target_def mult_0 add_0_right by blast

lemma sample_region:
  "map_launch_region (\<lambda>_. True) plan_new sample_extents 1 2 65536 READ_ONLY =
    (Inr (), [user_mapping 65536 \<lparr>pr_start = 8192, pr_end = 12288\<rparr> READ_ONLY,
      user_mapping 69632 \<lparr>pr_start = 32768, pr_end = 36864\<rparr> READ_ONLY])"
  by (simp add: map_launch_region_def map_region_loop.simps sample_extents_def extents_run_at_def
      range_page_count_def range_byte_count_def BASE_PAGE_SIZE_def checked_add_def checked_sub_def checked_mul_def
      range_from_pages_def insert_application_mapping_def virtual_from_pages_def mapping_user_def mapping_new_def
      virtual_byte_count_def plan_insert_def plan_new_def MAX_MAPPINGS_def READ_ONLY_def user_mapping_def
      ranges_overlap_def Let_def)

text \<open>
  C6. An application is isolated. In the plan built for it, write xor execute holds
  across all aliases and every address that user code can reach translates into the
  launch reservation or its startup page; kernel memory stays behind kernel
  mappings.
\<close>

theorem application_plan_isolated:
  assumes "extents_ok (pa_extents alloc)" and "range_ok (pa_startup alloc)"
    and "\<forall>m \<in> set kernel_plan. mapping_ok m \<and> m_privilege m = Priv_Kernel"
    and "build_application_plan grow kernel_plan rt alloc app = Inr plan"
  shows "plan_ok plan \<and> enforces_global_w_xor_x plan \<and>
    (\<forall>va pa m. plan_translate plan va = Some (pa, m) \<longrightarrow> m_privilege m = Priv_User \<longrightarrow>
       page_of pa \<in> set (extents_pages (pa_extents alloc)) \<union> set (range_pages (pa_startup alloc)))"
proof -
  note spec = build_application_plan_spec [OF assms]
  have ok: "plan_ok plan" using spec(1) by (simp add: user_pages_in_def)
  have "page_of pa \<in> set (extents_pages (pa_extents alloc)) \<union> set (range_pages (pa_startup alloc))"
    if "plan_translate plan va = Some (pa, m)" "m_privilege m = Priv_User" for va pa m
  proof -
    have m: "m \<in> set plan" "maps_address va m" "pa = pr_start (m_physical m) + (va - m_start m)"
      using that(1) plan_translate_Some_iff [OF ok] by auto
    then have mok: "mapping_ok m" using ok by (simp add: plan_ok_def)
    then have "range_contains (m_physical m) pa" using translate_in_physical m by simp
    moreover have "range_ok (m_physical m)" using mok by (simp add: mapping_ok_def)
    ultimately have "page_of pa \<in> set (range_pages (m_physical m))" using page_of_range by blast
    with spec(1) m(1) that(2) show ?thesis unfolding user_pages_in_def by blast
  qed
  with ok spec(2) show ?thesis by blast
qed

definition sample_allocation :: application_private_allocation where
  "sample_allocation =
     \<lparr>pa_extents = sample_extents, pa_image_pages = 2, pa_startup = \<lparr>pr_start = 32768, pr_end = 36864\<rparr>,
      pa_heap_pages = 0, pa_stack_pages = 0\<rparr>"

definition sample_application_plan :: mapping_plan where
  "sample_application_plan =
     [user_mapping 65536 \<lparr>pr_start = 4096, pr_end = 8192\<rparr> READ_EXECUTE,
      user_mapping 69632 \<lparr>pr_start = 8192, pr_end = 12288\<rparr> READ_WRITE,
      user_mapping 131072 \<lparr>pr_start = 32768, pr_end = 36864\<rparr> READ_ONLY]"

lemma sample_build_plan:
  "build_application_plan (\<lambda>_. True) [] \<lparr>pr_start = 0, pr_end = 4096\<rparr> sample_allocation sample_application =
    Inr sample_application_plan"
  by (simp add: build_application_plan_def sample_application_plan_def sample_allocation_def sample_application_def
      sg_virtual_address_def run_region_def segment_logical_offset_def mapping_permissions_of_def APPLICATION_STARTUP_PAGES_def
      map_launch_region_def map_region_loop.simps sample_extents_def extents_run_at_def
      range_page_count_def range_byte_count_def BASE_PAGE_SIZE_def checked_add_def checked_sub_def checked_mul_def
      range_from_pages_def insert_application_mapping_def virtual_from_pages_def mapping_user_def mapping_new_def
      virtual_byte_count_def plan_insert_def plan_new_def MAX_MAPPINGS_def READ_ONLY_def READ_WRITE_def
      READ_EXECUTE_def user_mapping_def ranges_overlap_def physical_alias_is_safe_def Let_def)

lemma sample_allocation_ok:
  "extents_ok (pa_extents sample_allocation)" "range_ok (pa_startup sample_allocation)"
  "extents_copyable (pa_extents sample_allocation)"
  using sample_extents_ok(1) extents_addresses_sample(1)
  by (simp_all add: sample_allocation_def range_ok_def BASE_PAGE_SIZE_def)

theorem application_plan_isolated_witness:
  "enforces_global_w_xor_x sample_application_plan"
  using application_plan_isolated [OF sample_allocation_ok(1,2) _ sample_build_plan] by simp

text \<open>
  C5. What is loaded is what runs. A payload chunk written for a segment appears,
  byte for byte, at the segment's virtual address in the plan built for the
  application, with the segment's permissions.
\<close>

theorem loaded_bytes_visible:
  assumes "extents_copyable (pa_extents alloc)" and "range_ok (pa_startup alloc)"
    and "\<forall>m \<in> set kernel_plan. mapping_ok m \<and> m_privilege m = Priv_Kernel"
    and "build_application_plan grow kernel_plan rt alloc app = Inr plan"
    and "\<forall>segment \<in> set (ap_segments app). BASE_PAGE_SIZE dvd sg_memory_bytes segment"
    and "write_segment_bytes (pa_extents alloc) app i off bytes mem = (Inr (), mem')"
  shows "\<forall>d < length bytes. \<exists>pa m.
    plan_translate plan (sg_virtual_address (ap_segments app ! i) + (off + d)) = Some (pa, m) \<and>
    m_privilege m = Priv_User \<and>
    m_permissions m = mapping_permissions_of (sg_permissions (ap_segments app ! i)) \<and> mem' pa = bytes ! d"
proof (intro allI impI)
  fix d assume d: "d < length bytes"
  let ?x = "pa_extents alloc" and ?s = "ap_segments app ! i" and ?A = "extents_addresses (pa_extents alloc)"
  have x: "extents_ok ?x" using assms(1) by (simp add: extents_copyable_def extents_bytes_ok_def)
  from assms(6) obtain base where i: "i < length (ap_segments app)" and last: "off + length bytes \<le> sg_memory_bytes ?s"
    and base: "segment_logical_offset app i = Inr base"
    and out: "write_launch_bytes ?x (base + off) bytes mem = (Inr (), mem')"
    by (auto simp: write_segment_bytes_def Let_def rbind_def ok_or_def checked_add_def
        split: if_splits sum.splits option.splits)
  have base': "base = segment_base app i" using segment_logical_offset_Inr [OF base] by simp
  have dvd: "BASE_PAGE_SIZE dvd base"
    using assms(5) unfolding base' segment_base_def by (intro dvd_sum_list_nat) (auto dest: in_set_takeD)
  have fit: "base + off + length bytes \<le> length ?A"
    using out write_launch_bytes_unfit [OF assms(1), of bytes "base + off" mem] d by (fastforce simp: not_less [symmetric])
  have "BASE_PAGE_SIZE dvd sg_memory_bytes ?s" using assms(5) i by simp
  then have "off + d < sg_memory_bytes ?s div BASE_PAGE_SIZE * BASE_PAGE_SIZE" using last d by simp
  with build_application_plan_spec(3) [OF x assms(2-4)] i obtain m where
    m: "plan_translate plan (sg_virtual_address ?s + (off + d)) =
        Some (region_target ?x (base div BASE_PAGE_SIZE) (sg_virtual_address ?s) (sg_virtual_address ?s + (off + d)), m)"
      "m_privilege m = Priv_User" "m_permissions m = mapping_permissions_of (sg_permissions ?s)"
    unfolding segment_visible_def base' by blast
  have "region_target ?x (base div BASE_PAGE_SIZE) (sg_virtual_address ?s) (sg_virtual_address ?s + (off + d)) =
      ?A ! (base + (off + d))"
    using x dvd fit d by (intro region_target_address) auto
  moreover have "mem' (?A ! (base + (off + d))) = bytes ! d"
  proof -
    let ?as = "take (length bytes) (drop (base + off) ?A)"
    have "mem' = scatter mem ?as bytes" using out write_launch_bytes_fit [OF assms(1) fit, of mem] by simp
    moreover have "distinct ?as" "length ?as = length bytes" using assms(1) fit by (auto simp: extents_copyable_def)
    ultimately show ?thesis using scatter_nth [of ?as bytes d mem] d fit by (simp add: add.assoc)
  qed
  ultimately show "\<exists>pa m. plan_translate plan (sg_virtual_address ?s + (off + d)) = Some (pa, m) \<and>
      m_privilege m = Priv_User \<and> m_permissions m = mapping_permissions_of (sg_permissions ?s) \<and> mem' pa = bytes ! d"
    using m by auto
qed

theorem loaded_bytes_visible_witness:
  "\<exists>mem' pa m. write_segment_bytes sample_extents sample_application 1 4094 [7, 9] (\<lambda>_. 0) = (Inr (), mem') \<and>
     plan_translate sample_application_plan 73727 = Some (pa, m) \<and> m_permissions m = READ_WRITE \<and> mem' pa = 9"
proof -
  have "\<exists>mem'. write_segment_bytes sample_extents sample_application 1 4094 [7, 9] (\<lambda>_. 0) = (Inr (), mem')"
    using write_launch_bytes_fit [OF extents_addresses_sample(1), of 8190 "[7, 9]" "\<lambda>_. 0"] extents_addresses_sample(2)
    by (simp add: write_segment_bytes_def sample_application_def checked_add_def segment_logical_offset_def Let_def)
  then obtain mem' where mem': "write_segment_bytes (pa_extents sample_allocation) sample_application 1 4094 [7, 9]
      (\<lambda>_. 0) = (Inr (), mem')" by (auto simp: sample_allocation_def)
  have "\<forall>segment \<in> set (ap_segments sample_application). BASE_PAGE_SIZE dvd sg_memory_bytes segment"
    by (simp add: sample_application_def BASE_PAGE_SIZE_def)
  from loaded_bytes_visible [OF sample_allocation_ok(3,2) _ sample_build_plan this mem', rule_format, of 1]
  obtain pa m where "plan_translate sample_application_plan 73727 = Some (pa, m)" "m_permissions m = READ_WRITE"
    "mem' pa = 9" by (auto simp: sample_application_def mapping_permissions_of_def sg_virtual_address_def)
  with mem' show ?thesis by (auto simp: sample_allocation_def)
qed

end
