(* ===== verification/Wire.thy ===== *)
theory Wire
  imports Prelude
begin

text \<open>
  Fixed-layout little-endian records. \<open>le_bytes\<close> and \<open>from_le_bytes\<close> are Rust's
  \<open>to_le_bytes\<close> and \<open>from_le_bytes\<close>; \<open>copy_at\<close> is \<open>bytes[a..b].copy_from_slice(x)\<close>;
  \<open>chunk\<close> is the slice \<open>bytes[a..a+n]\<close>. The lemmas give the algebra the record
  codecs are proved with: what a field read returns after field writes, and that a
  record of a known length is the concatenation of its fields.
\<close>

type_synonym byte = "8 word"
type_synonym u16 = "16 word"
type_synonym u32 = "32 word"
type_synonym u64 = "64 word"

named_theorems wire_simps \<open>field access on fixed-layout records\<close>

section \<open>Little-endian integers\<close>

definition le_bytes :: "nat \<Rightarrow> 'a::len word \<Rightarrow> byte list" where
  "le_bytes n w = map (\<lambda>i. ucast (drop_bit (8 * i) w)) [0..<n]"

fun from_le_bytes :: "byte list \<Rightarrow> 'a::len word" where
  "from_le_bytes [] = 0"
| "from_le_bytes (b # bs) = ucast b OR push_bit 8 (from_le_bytes bs)"

section \<open>Field access\<close>

definition copy_at :: "nat \<Rightarrow> 'a list \<Rightarrow> 'a list \<Rightarrow> 'a list" where
  "copy_at offset xs buffer = take offset buffer @ xs @ drop (offset + length xs) buffer"

definition chunk :: "nat \<Rightarrow> nat \<Rightarrow> 'a list \<Rightarrow> 'a list" where
  "chunk offset n xs = take n (drop offset xs)"

section \<open>Facts on packed words\<close>

lemma bit_nat_lt: "bit (b::nat) k \<Longrightarrow> b < 2 ^ n \<Longrightarrow> k < n"
  by (metis bit_take_bit_iff take_bit_nat_eq_self)

lemma unat_of_nat_small: "x < 2 ^ LENGTH('a::len) \<Longrightarrow> unat (of_nat x :: 'a word) = x"
  by (simp add: unat_of_nat)

lemma push_or_value:
  assumes "b < 2 ^ n"
  shows "(push_bit n (of_nat a) OR of_nat b :: 'a::len word) = of_nat (a * 2 ^ n + b)"
proof -
  have "(push_bit n (of_nat a) AND of_nat b :: 'a word) = 0"
    by (rule bit_eqI) (auto simp: bit_and_iff bit_push_bit_iff bit_of_nat_iff dest: bit_nat_lt [OF _ assms])
  then have "(push_bit n (of_nat a) OR of_nat b :: 'a word) = push_bit n (of_nat a) + of_nat b"
    by (simp add: disjunctive_add_eq_or)
  then show ?thesis by (simp add: push_bit_eq_mult)
qed

lemma unat_low_bits: "unat (v AND (2 ^ 32 - 1) :: u64) = unat v mod 2 ^ 32"
proof -
  have "v AND (2 ^ 32 - 1) = take_bit 32 v"
    by (simp add: take_bit_eq_mask mask_eq_exp_minus_1)
  moreover have "unat (take_bit 32 v) = take_bit 32 (unat v)" by (rule unsigned_take_bit_eq)
  ultimately show ?thesis by (simp only: take_bit_nat_def)
qed

lemma unat_high_bits: "unat (drop_bit n v) = unat v div 2 ^ n"
  using unsigned_drop_bit_eq [of n v, where 'a = nat] by (simp only: drop_bit_nat_def take_bit_nat_eq_self [OF unsigned_less])

lemma word_le_1:
  assumes "(b :: 'a::len word) \<le> 1"
  shows "b = 0 \<or> b = 1"
proof -
  from assms have "unat b \<le> 1" by (simp add: word_le_nat_alt)
  then have "unat b = 0 \<or> unat b = 1" by linarith
  then show ?thesis by (auto simp: word_unat_eq_iff)
qed

section \<open>Facts on little-endian integers\<close>

lemma length_le_bytes [simp]: "length (le_bytes n w) = n"
  by (simp add: le_bytes_def)

lemma le_bytes_zero: "le_bytes n (0 :: 'a::len word) = replicate n 0"
  by (simp add: le_bytes_def map_replicate_const)

lemma nth_le_bytes: "i < n \<Longrightarrow> le_bytes n w ! i = ucast (drop_bit (8 * i) w)"
  by (simp add: le_bytes_def)

lemma bit_from_le_bytes:
  "bit (from_le_bytes bs :: 'a::len word) k \<longleftrightarrow>
   k < LENGTH('a) \<and> k div 8 < length bs \<and> bit (bs ! (k div 8)) (k mod 8)"
proof (induction bs arbitrary: k)
  case Nil
  then show ?case by simp
next
  case (Cons b bs)
  show ?case
  proof (cases "k < 8")
    case True
    then show ?thesis by (auto simp: bit_or_iff bit_push_bit_iff bit_ucast_iff)
  next
    case False
    then have k: "k div 8 = Suc ((k - 8) div 8)" "k mod 8 = (k - 8) mod 8"
      by (simp_all add: le_div_geq le_mod_geq)
    have "\<not> bit b k" using False bit_imp_le_length [of b k] by auto
    with False show ?thesis
      unfolding k using Cons.IH [of "k - 8"]
      by (auto simp: bit_or_iff bit_push_bit_iff bit_ucast_iff k)
  qed
qed

lemma from_le_bytes_le_bytes [simp]:
  "LENGTH('a) \<le> 8 * n \<Longrightarrow> from_le_bytes (le_bytes n w) = (w :: 'a::len word)"
  by (rule bit_word_eqI)
    (auto simp: bit_from_le_bytes nth_le_bytes bit_ucast_iff bit_drop_bit_eq)

lemma le_bytes_from_le_bytes:
  assumes "length bs = n" "8 * n \<le> LENGTH('a)"
  shows "le_bytes n (from_le_bytes bs :: 'a::len word) = bs"
proof (rule nth_equalityI)
  fix i
  assume i: "i < length (le_bytes n (from_le_bytes bs :: 'a word))"
  show "le_bytes n (from_le_bytes bs :: 'a word) ! i = bs ! i"
  proof (rule bit_word_eqI)
    fix k
    assume "k < LENGTH(8)"
    moreover from this i assms have "8 * i + k < LENGTH('a)" by simp
    ultimately show "bit (le_bytes n (from_le_bytes bs :: 'a word) ! i) k = bit (bs ! i) k"
      using i assms by (simp add: nth_le_bytes bit_ucast_iff bit_drop_bit_eq bit_from_le_bytes)
  qed
qed (simp add: assms)

section \<open>Facts on field access\<close>

lemma length_copy_at [simp]:
  "offset + length xs \<le> length buffer \<Longrightarrow> length (copy_at offset xs buffer) = length buffer"
  by (simp add: copy_at_def)

lemma length_chunk [simp]: "offset + n \<le> length xs \<Longrightarrow> length (chunk offset n xs) = n"
  by (simp add: chunk_def)

lemma chunk_copy_same [wire_simps]:
  "offset + length xs \<le> length buffer \<Longrightarrow> n = length xs \<Longrightarrow>
   chunk offset n (copy_at offset xs buffer) = xs"
  by (simp add: chunk_def copy_at_def)

lemma chunk_copy_other [wire_simps]:
  "offset + length xs \<le> length buffer \<Longrightarrow> k + n \<le> offset \<or> offset + length xs \<le> k \<Longrightarrow>
   chunk k n (copy_at offset xs buffer) = chunk k n buffer"
proof (erule disjE)
  assume fits: "offset + length xs \<le> length buffer" and "k + n \<le> offset"
  then have "n \<le> offset - k" by simp
  then have "take n (drop k (take offset buffer @ ys)) = take n (drop k buffer)" for ys
    using fits by (simp add: drop_take take_append)
  then show ?thesis unfolding chunk_def copy_at_def by blast
next
  assume fits: "offset + length xs \<le> length buffer" and "offset + length xs \<le> k"
  then obtain m where k: "k = (offset + length xs) + m" using le_Suc_ex by blast
  have "drop (offset + length xs) (take offset buffer @ xs @ zs) = zs" for zs
    using fits by simp
  from this [of "drop (offset + length xs) buffer"]
  have "drop k (take offset buffer @ xs @ drop (offset + length xs) buffer) =
      drop m (drop (offset + length xs) buffer)"
    unfolding k by (metis add.commute drop_drop)
  also have "\<dots> = drop k buffer" unfolding k by (simp add: add.commute)
  finally show ?thesis unfolding chunk_def copy_at_def by simp
qed

lemma chunk_replicate [wire_simps]: "chunk k n (replicate m x) = replicate (min n (m - k)) x"
  by (simp add: chunk_def)

lemma chunk_append: "chunk a m xs @ chunk (a + m) n xs = chunk a (m + n) xs"
  by (simp add: chunk_def take_add add.commute)

lemma chunk_all: "length xs = n \<Longrightarrow> chunk 0 n xs = xs"
  by (simp add: chunk_def)

lemma chunk_chunk: "b + n \<le> m \<Longrightarrow> chunk b n (chunk a m xs) = chunk (a + b) n xs"
  by (simp add: chunk_def drop_take min_def add.commute)

lemma nth_chunk: "i < n \<Longrightarrow> offset + n \<le> length xs \<Longrightarrow> chunk offset n xs ! i = xs ! (offset + i)"
  by (simp add: chunk_def)

lemma le_bytes_inject:
  "LENGTH('a) \<le> 8 * n \<Longrightarrow> le_bytes n v = le_bytes n w \<longleftrightarrow> v = (w :: 'a::len word)"
  by (metis from_le_bytes_le_bytes)

lemma copy_at_prefix: "length pre = offset \<Longrightarrow> copy_at offset xs (pre @ rest) = pre @ xs @ drop (length xs) rest"
  by (simp add: copy_at_def)

lemma and_exp_word: "(w AND 2 ^ n :: 'a::len word) = (if bit w n then 2 ^ n else 0)"
  by (rule bit_eqI) (auto simp: bit_and_iff bit_exp_iff)

lemma chunk_prefix: "length pre = offset \<Longrightarrow> length xs = n \<Longrightarrow> chunk offset n (pre @ xs @ rest) = xs"
  by (simp add: chunk_def)

lemma from_le_bytes_eq_iff:
  "length c = n \<Longrightarrow> 8 * n = LENGTH('a) \<Longrightarrow> from_le_bytes c = (w :: 'a::len word) \<longleftrightarrow> c = le_bytes n w"
  by (metis from_le_bytes_le_bytes le_bytes_from_le_bytes order_refl)

section \<open>Records as lists of fields\<close>

fun chunks :: "nat \<Rightarrow> nat list \<Rightarrow> 'a list \<Rightarrow> 'a list list" where
  "chunks offset [] xs = []"
| "chunks offset (n # ns) xs = chunk offset n xs # chunks (offset + n) ns xs"

lemma chunk_drop: "chunk offset n xs @ drop (offset + n) xs = drop offset xs"
  using append_take_drop_id [of n "drop offset xs"] by (simp add: chunk_def add.commute)

lemma copy_at_chunk: "offset + n \<le> length xs \<Longrightarrow> copy_at offset (chunk offset n xs) xs = xs"
  by (simp add: copy_at_def chunk_drop)

lemma concat_chunks: "length xs = offset + sum_list ns \<Longrightarrow> concat (chunks offset ns xs) = drop offset xs"
proof (induction ns arbitrary: offset)
  case (Cons n ns)
  then have "concat (chunks (offset + n) ns xs) = drop (offset + n) xs" by simp
  then show ?case by (simp add: chunk_drop)
qed simp

lemma eq_by_chunks:
  assumes "length xs = sum_list ns" "length ys = sum_list ns" "chunks 0 ns xs = chunks 0 ns ys"
  shows "xs = ys"
proof -
  have "concat (chunks 0 ns xs) = xs" "concat (chunks 0 ns ys) = ys"
    using concat_chunks [of xs 0 ns] concat_chunks [of ys 0 ns] assms(1,2) by simp_all
  then show ?thesis unfolding assms(3) by simp
qed

end
