(* ===== verification/Interface.thy ===== *)
theory Interface
  imports Wire
begin

text \<open>
  The interface registry of the application ABI (\<open>troe-abi/src/interface.rs\<close>):
  interface identifiers, the rights bits, and the rights mask each interface allows.
  Rights stay at their 16-bit width and identifiers at their 32-bit width.
\<close>

section \<open>Interface identifiers\<close>

definition COMMAND :: u32 where "COMMAND = 1"

definition SERVER_ENDPOINT :: u32 where "SERVER_ENDPOINT = 15"

definition SHELL_SCRIPT :: u32 where "SHELL_SCRIPT = 16"

definition RANDOM :: u32 where "RANDOM = 23"

definition WAIT_SET :: u32 where "WAIT_SET = 24"

definition PACKET_DEVICE :: u32 where "PACKET_DEVICE = 25"

definition BLOCK_REGION :: u32 where "BLOCK_REGION = 26"

definition BOOT_BLOB :: u32 where "BOOT_BLOB = 27"

definition SERVICE_LIFECYCLE :: u32 where "SERVICE_LIFECYCLE = 28"

definition TCP_LISTEN :: u32 where "TCP_LISTEN = 29"

definition THREAD_CONTROL :: u32 where "THREAD_CONTROL = 30"

definition THREAD_SYNC :: u32 where "THREAD_SYNC = 31"

definition HIGHEST :: u32 where "HIGHEST = THREAD_SYNC"

lemmas interface_id_defs =
  COMMAND_def SERVER_ENDPOINT_def SHELL_SCRIPT_def RANDOM_def WAIT_SET_def PACKET_DEVICE_def
  BLOCK_REGION_def BOOT_BLOB_def SERVICE_LIFECYCLE_def TCP_LISTEN_def THREAD_CONTROL_def
  THREAD_SYNC_def HIGHEST_def

section \<open>Rights bits\<close>

definition right_CALL :: u16 where "right_CALL = push_bit 0 1"

definition right_RECEIVE :: u16 where "right_RECEIVE = push_bit 1 1"

definition right_REPLY :: u16 where "right_REPLY = push_bit 2 1"

definition right_WAIT :: u16 where "right_WAIT = push_bit 3 1"

definition right_READ :: u16 where "right_READ = push_bit 4 1"

definition right_WRITE :: u16 where "right_WRITE = push_bit 5 1"

definition right_FLUSH :: u16 where "right_FLUSH = push_bit 6 1"

definition right_DERIVE :: u16 where "right_DERIVE = push_bit 7 1"

definition right_RESET :: u16 where "right_RESET = push_bit 8 1"

definition right_THREAD_CREATE :: u16 where "right_THREAD_CREATE = push_bit 9 1"

definition right_THREAD_START :: u16 where "right_THREAD_START = push_bit 10 1"

definition right_THREAD_JOIN :: u16 where "right_THREAD_JOIN = push_bit 11 1"

definition right_THREAD_DETACH :: u16 where "right_THREAD_DETACH = push_bit 12 1"

definition right_THREAD_STOP :: u16 where "right_THREAD_STOP = push_bit 13 1"

definition right_THREAD_OBSERVE :: u16 where "right_THREAD_OBSERVE = push_bit 14 1"

definition right_THREAD_CONTROL :: u16 where
  "right_THREAD_CONTROL = right_THREAD_CREATE OR right_THREAD_START OR right_THREAD_JOIN
     OR right_THREAD_DETACH OR right_THREAD_STOP OR right_THREAD_OBSERVE"

definition right_ASSIGNED :: u16 where
  "right_ASSIGNED = right_CALL OR right_RECEIVE OR right_REPLY OR right_WAIT OR right_READ
     OR right_WRITE OR right_FLUSH OR right_DERIVE OR right_RESET OR right_THREAD_CONTROL"

lemmas right_defs =
  right_CALL_def right_RECEIVE_def right_REPLY_def right_WAIT_def right_READ_def right_WRITE_def
  right_FLUSH_def right_DERIVE_def right_RESET_def right_THREAD_CREATE_def right_THREAD_START_def
  right_THREAD_JOIN_def right_THREAD_DETACH_def right_THREAD_STOP_def right_THREAD_OBSERVE_def
  right_THREAD_CONTROL_def right_ASSIGNED_def

section \<open>Classification\<close>

definition is_threading :: "u32 \<Rightarrow> bool" where
  "is_threading interface = (interface = THREAD_CONTROL \<or> interface = THREAD_SYNC)"

definition is_boot_only :: "u32 \<Rightarrow> bool" where
  "is_boot_only interface =
     (interface = WAIT_SET \<or> interface = PACKET_DEVICE \<or> interface = BLOCK_REGION \<or>
      interface = BOOT_BLOB \<or> interface = SERVICE_LIFECYCLE)"

definition allowed_rights :: "u32 \<Rightarrow> u16" where
  "allowed_rights interface =
     (if interface = THREAD_CONTROL then right_CALL OR right_THREAD_CONTROL
      else if interface = THREAD_SYNC then right_CALL
      else if interface = SERVER_ENDPOINT then right_CALL OR right_RECEIVE OR right_REPLY
      else if interface = WAIT_SET then right_WAIT
      else if interface = PACKET_DEVICE then right_CALL OR right_READ OR right_WRITE OR right_RESET
      else if interface = BLOCK_REGION
        then right_CALL OR right_READ OR right_WRITE OR right_FLUSH OR right_DERIVE
      else if interface = BOOT_BLOB then right_CALL OR right_READ
      else if interface = SERVICE_LIFECYCLE \<or> interface = TCP_LISTEN
          \<or> (COMMAND \<le> interface \<and> interface \<le> SERVER_ENDPOINT)
          \<or> (SHELL_SCRIPT \<le> interface \<and> interface \<le> RANDOM)
        then right_CALL
      else 0)"

section \<open>The registry is dense and closed\<close>

lemma right_values:
  "right_CALL = 1" "right_RECEIVE = 2" "right_REPLY = 4" "right_WAIT = 8" "right_READ = 16"
  "right_WRITE = 32" "right_FLUSH = 64" "right_DERIVE = 128" "right_RESET = 256"
  "right_THREAD_CREATE = 512" "right_THREAD_START = 1024" "right_THREAD_JOIN = 2048"
  "right_THREAD_DETACH = 4096" "right_THREAD_STOP = 8192" "right_THREAD_OBSERVE = 16384"
  "right_THREAD_CONTROL = 0x7e00" "right_ASSIGNED = 0x7fff"
  by (simp_all add: right_defs)

lemma interface_cases:
  assumes "(1::u32) \<le> i" "i \<le> 31"
  shows "i \<in> {1,2,3,4,5,6,7,8,9,10,11,12,13,14,15,16,17,18,19,20,21,22,23,24,25,26,27,28,29,30,31}"
proof -
  have "unat i \<le> 31" "1 \<le> unat i" using assms by (simp_all add: word_le_nat_alt)
  moreover have "i = word_of_nat (unat i)" by simp
  ultimately have "i \<in> word_of_nat ` {1..31}" by (metis atLeastAtMost_iff imageI)
  moreover have "word_of_nat ` {1..31::nat} =
      {1,2,3,4,5,6,7,8,9,10,11,12,13,14,15,16,17,18,19,20,21,22,23,24,25,26,27,28,29,30,31::u32}"
    by (simp add: atLeastAtMost_insertL numeral_eq_Suc atLeastAtMostSuc_conv insert_commute)
  ultimately show ?thesis by simp
qed

lemma allowed_rights_eq_0_iff: "allowed_rights i = 0 \<longleftrightarrow> i = 0 \<or> HIGHEST < i"
proof
  assume none: "allowed_rights i = 0"
  show "i = 0 \<or> HIGHEST < i"
  proof (rule ccontr)
    assume "\<not> (i = 0 \<or> HIGHEST < i)"
    then have "1 \<le> i" "i \<le> 31"
      by (simp_all add: interface_id_defs word_le_nat_alt word_less_nat_alt unat_eq_0 Suc_le_eq unat_gt_0)
    from interface_cases [OF this] none show False
      by (auto simp: allowed_rights_def interface_id_defs right_values)
  qed
next
  assume "i = 0 \<or> HIGHEST < i"
  then show "allowed_rights i = 0"
    by (auto simp: allowed_rights_def interface_id_defs word_le_nat_alt word_less_nat_alt)
qed

lemma allowed_rights_assigned: "allowed_rights i AND NOT right_ASSIGNED = 0"
  by (simp add: allowed_rights_def right_values)

end
