(* ===== verification/Message.thy ===== *)
theory Message
  imports Interface
begin

text \<open>
  Handles, owners, rights, reply statuses and the request and reply values that cross
  the call gate (\<open>troe-dispatch/src/message.rs\<close>, with the error type and the hard
  ceilings of \<open>lib.rs\<close>). Slots and generations are naturals below \<open>2 ^ 32\<close>; tokens
  that cross the ABI are machine words.
\<close>

section \<open>Ceilings and errors\<close>

definition MAX_MESSAGE_BYTES :: nat where "MAX_MESSAGE_BYTES = 4 * 1024"

definition MAX_PORTS :: nat where "MAX_PORTS = 65536"

definition MAX_HANDLES :: nat where "MAX_HANDLES = 262144"

datatype dispatch_error =
    InvalidCapacity
  | InvalidOwner
  | MetadataExhausted
  | PortCapacityExhausted
  | HandleCapacityExhausted
  | MessageTooLarge
  | InvalidHandle
  | InvalidPort
  | PermissionDenied
  | InvalidRights
  | EndpointCapacityExhausted
  | InvalidEndpoint
  | InvalidInterface
  | BadgeCapacityExhausted
  | InvalidBadge
  | InvalidCall
  | InvalidDeadline
  | CallCapacityExhausted
  | QueueFull
  | RetainedBytesExhausted
  | AccountingOverflow

section \<open>Identities\<close>

record port_id =
  pi_slot :: nat
  pi_generation :: nat

record handle =
  h_slot :: nat
  h_generation :: nat

definition handle_abi_value :: "handle \<Rightarrow> u64" where
  "handle_abi_value h = (push_bit 32 (of_nat (h_generation h))) OR (of_nat (h_slot h) + 1)"

definition handle_from_abi_value :: "u64 \<Rightarrow> (dispatch_error, handle) result" where
  "handle_from_abi_value value =
     (let encoded_slot = value AND (2 ^ 32 - 1);
          generation = drop_bit 32 value
      in if encoded_slot = 0 \<or> encoded_slot > of_nat MAX_HANDLES \<or> generation = 0
         then Inl InvalidHandle
         else rbind (ok_or InvalidHandle (try_into 32 (unat encoded_slot)))
           (\<lambda>slot. rbind (ok_or InvalidHandle (try_into 32 (unat generation)))
             (\<lambda>generation. Inr \<lparr>h_slot = slot - 1, h_generation = generation\<rparr>)))"

datatype handle_owner = KernelOwner | IsolatedTask nat

definition owner_isolated :: "nat \<Rightarrow> (dispatch_error, handle_owner) result" where
  "owner_isolated task_id = (if task_id = 0 then Inl InvalidOwner else Inr (IsolatedTask task_id))"

text \<open>\<open>matches!(owner, HandleOwner::IsolatedTask(id) if id != 0)\<close>\<close>

fun live_task :: "handle_owner \<Rightarrow> bool" where
  "live_task KernelOwner = False"
| "live_task (IsolatedTask task_id) = (task_id \<noteq> 0)"

section \<open>Copied messages\<close>

definition copy_from_untrusted :: "bool \<Rightarrow> byte list \<Rightarrow> (dispatch_error, byte list) result" where
  "copy_from_untrusted reserve_ok bytes =
     (if length bytes > MAX_MESSAGE_BYTES then Inl MessageTooLarge
      else if \<not> reserve_ok then Inl MetadataExhausted
      else Inr bytes)"

section \<open>Rights\<close>

type_synonym rights = u16

definition rights_union :: "rights \<Rightarrow> rights \<Rightarrow> rights" where
  "rights_union a b = a OR b"

definition rights_contains :: "rights \<Rightarrow> rights \<Rightarrow> bool" where
  "rights_contains a requested = (a AND requested = requested)"

definition rights_is_empty :: "rights \<Rightarrow> bool" where
  "rights_is_empty a = (a = 0)"

definition rights_intersect :: "rights \<Rightarrow> rights \<Rightarrow> rights" where
  "rights_intersect a requested = a AND requested"

definition rights_bits :: "rights \<Rightarrow> u32" where
  "rights_bits a = ucast a"

definition rights_from_bits :: "u32 \<Rightarrow> (dispatch_error, rights) result" where
  "rights_from_bits bits =
     (if unat bits \<ge> 2 ^ 16 then Inl InvalidRights
      else let narrow = (ucast bits :: u16)
           in if narrow AND NOT right_ASSIGNED \<noteq> 0 then Inl InvalidRights else Inr narrow)"

definition rights_for_interface :: "rights \<Rightarrow> u32 \<Rightarrow> (dispatch_error, rights) result" where
  "rights_for_interface a interface =
     (let allowed = allowed_rights interface
      in if allowed = 0 \<or> a AND NOT allowed \<noteq> 0 then Inl InvalidRights else Inr a)"

section \<open>Reply statuses\<close>

datatype reply_status =
    Success | InvalidRequest | NotFound | Failure | Exhausted | NotConfigured | Cancelled | Timeout
  | Conflict | TooLarge | InvalidPath | WrongType | ReadOnly | NoSpace | Exists | Corrupt | Io
  | Unsupported | Overflow | NetworkProtocol | Denied | NotEmpty | CrossDevice | ResourceLimit

fun status_abi_value :: "reply_status \<Rightarrow> u32" where
  "status_abi_value Success = 0"
| "status_abi_value InvalidRequest = 1"
| "status_abi_value NotFound = 2"
| "status_abi_value Failure = 3"
| "status_abi_value Exhausted = 4"
| "status_abi_value NotConfigured = 5"
| "status_abi_value Cancelled = 6"
| "status_abi_value Timeout = 7"
| "status_abi_value Conflict = 8"
| "status_abi_value TooLarge = 9"
| "status_abi_value InvalidPath = 10"
| "status_abi_value WrongType = 11"
| "status_abi_value ReadOnly = 12"
| "status_abi_value NoSpace = 13"
| "status_abi_value Exists = 14"
| "status_abi_value Corrupt = 15"
| "status_abi_value Io = 16"
| "status_abi_value Unsupported = 17"
| "status_abi_value Overflow = 18"
| "status_abi_value NetworkProtocol = 19"
| "status_abi_value Denied = 20"
| "status_abi_value NotEmpty = 21"
| "status_abi_value CrossDevice = 22"
| "status_abi_value ResourceLimit = 23"

definition status_from_abi_value :: "u32 \<Rightarrow> reply_status option" where
  "status_from_abi_value value =
     (if value = 0 then Some Success
      else if value = 1 then Some InvalidRequest
      else if value = 2 then Some NotFound
      else if value = 3 then Some Failure
      else if value = 4 then Some Exhausted
      else if value = 5 then Some NotConfigured
      else if value = 6 then Some Cancelled
      else if value = 7 then Some Timeout
      else if value = 8 then Some Conflict
      else if value = 9 then Some TooLarge
      else if value = 10 then Some InvalidPath
      else if value = 11 then Some WrongType
      else if value = 12 then Some ReadOnly
      else if value = 13 then Some NoSpace
      else if value = 14 then Some Exists
      else if value = 15 then Some Corrupt
      else if value = 16 then Some Io
      else if value = 17 then Some Unsupported
      else if value = 18 then Some Overflow
      else if value = 19 then Some NetworkProtocol
      else if value = 20 then Some Denied
      else if value = 21 then Some NotEmpty
      else if value = 22 then Some CrossDevice
      else if value = 23 then Some ResourceLimit
      else None)"

section \<open>Requests and replies\<close>

record request =
  rq_id :: nat
  rq_opcode :: nat
  rq_payload :: "byte list"

record service_reply =
  sr_status :: reply_status
  sr_payload :: "byte list"

record service_reply_info =
  si_status :: reply_status
  si_payload_bytes :: nat
  si_payload_copies :: nat
  si_payload_allocations :: nat

record reply =
  rp_request_id :: nat
  rp_status :: reply_status
  rp_payload :: "byte list"

record reply_info =
  ri_request_id :: nat
  ri_status :: reply_status
  ri_payload_bytes :: nat

definition info_empty :: "reply_status \<Rightarrow> service_reply_info" where
  "info_empty status =
     \<lparr>si_status = status, si_payload_bytes = 0, si_payload_copies = 0, si_payload_allocations = 0\<rparr>"

definition info_copied :: "reply_status \<Rightarrow> nat \<Rightarrow> service_reply_info" where
  "info_copied status payload_bytes =
     \<lparr>si_status = status, si_payload_bytes = payload_bytes,
      si_payload_copies = (if payload_bytes = 0 then 0 else 1), si_payload_allocations = 0\<rparr>"

definition reply_empty :: "reply_status \<Rightarrow> service_reply" where
  "reply_empty status = \<lparr>sr_status = status, sr_payload = []\<rparr>"

definition reply_with_payload ::
    "bool \<Rightarrow> reply_status \<Rightarrow> byte list \<Rightarrow> (dispatch_error, service_reply) result" where
  "reply_with_payload reserve_ok status payload =
     (if length payload > MAX_MESSAGE_BYTES then Inl MessageTooLarge
      else if \<not> reserve_ok then Inl MetadataExhausted
      else Inr \<lparr>sr_status = status, sr_payload = payload\<rparr>)"

section \<open>Tokens round trip\<close>

text \<open>The identities the dispatcher can issue: what a token can carry.\<close>

definition handle_ok :: "handle \<Rightarrow> bool" where
  "handle_ok h = (h_slot h < MAX_HANDLES \<and> 0 < h_generation h \<and> h_generation h < 2 ^ 32)"

lemma handle_abi_value_unat:
  assumes "h_slot h < MAX_HANDLES" "h_generation h < 2 ^ 32"
  shows "unat (handle_abi_value h) = h_generation h * 2 ^ 32 + (h_slot h + 1)"
proof -
  have s: "h_slot h + 1 < 2 ^ 32" using assms by (simp add: MAX_HANDLES_def)
  have "h_generation h * 2 ^ 32 + (h_slot h + 1) < 2 ^ LENGTH(64)"
    using s assms(2) by simp
  from unat_of_nat_small [OF this] show ?thesis
    using push_or_value [OF s, of "h_generation h", where 'a = 64]
    by (simp only: handle_abi_value_def of_nat_add of_nat_1)
qed

lemma handle_from_abi_value_eq:
  "handle_from_abi_value v =
     (if unat v mod 2 ^ 32 = 0 \<or> MAX_HANDLES < unat v mod 2 ^ 32 \<or> unat v div 2 ^ 32 = 0
      then Inl InvalidHandle
      else Inr \<lparr>h_slot = unat v mod 2 ^ 32 - 1, h_generation = unat v div 2 ^ 32\<rparr>)"
proof -
  have "unat v div 2 ^ 32 < 2 ^ 32" using unsigned_less [of v, where 'a = nat] by simp
  moreover have "unat (of_nat MAX_HANDLES :: u64) = MAX_HANDLES" by (simp add: MAX_HANDLES_def)
  ultimately show ?thesis
    using unat_low_bits [of v] unat_high_bits [of 32 v]
    by (auto simp: handle_from_abi_value_def Let_def word_less_nat_alt try_into_def unat_eq_0 [symmetric])
qed

lemma handle_token_iff: "handle_from_abi_value v = Inr h \<longleftrightarrow> handle_ok h \<and> handle_abi_value h = v"
proof
  assume dec: "handle_from_abi_value v = Inr h"
  then have h: "h_slot h + 1 = unat v mod 2 ^ 32" "h_generation h = unat v div 2 ^ 32"
    and ok: "unat v mod 2 ^ 32 \<noteq> 0" "unat v mod 2 ^ 32 \<le> MAX_HANDLES" "unat v div 2 ^ 32 \<noteq> 0"
    by (auto simp: handle_from_abi_value_eq split: if_splits)
  have "unat v div 2 ^ 32 < 2 ^ 32" using unsigned_less [of v, where 'a = nat] by simp
  with h ok have hok: "handle_ok h" unfolding handle_ok_def by linarith
  then have "unat (handle_abi_value h) = h_generation h * 2 ^ 32 + (h_slot h + 1)"
    by (intro handle_abi_value_unat) (simp_all add: handle_ok_def)
  also have "\<dots> = unat v" unfolding h by simp
  finally show "handle_ok h \<and> handle_abi_value h = v" using hok by (simp add: word_unat_eq_iff)
next
  assume "handle_ok h \<and> handle_abi_value h = v"
  then have hok: "h_slot h + 1 \<le> MAX_HANDLES" "0 < h_generation h"
    and v: "unat v = h_generation h * 2 ^ 32 + (h_slot h + 1)"
    using handle_abi_value_unat [of h] by (auto simp: handle_ok_def)
  have "unat v mod 2 ^ 32 = h_slot h + 1" "unat v div 2 ^ 32 = h_generation h"
    using hok(1) unfolding v by (simp_all add: MAX_HANDLES_def)
  with hok show "handle_from_abi_value v = Inr h" by (simp add: handle_from_abi_value_eq)
qed

lemma status_token_iff: "status_from_abi_value v = Some s \<longleftrightarrow> status_abi_value s = v"
proof
  show "status_from_abi_value v = Some s \<Longrightarrow> status_abi_value s = v"
    by (auto simp: status_from_abi_value_def split: if_splits)
  show "status_abi_value s = v \<Longrightarrow> status_from_abi_value v = Some s"
    by (cases s) (simp_all add: status_from_abi_value_def)
qed

lemma rights_token_iff:
  "rights_from_bits b = Inr r \<longleftrightarrow> r AND NOT right_ASSIGNED = 0 \<and> rights_bits r = b"
proof -
  have "ucast (ucast b :: u16) = b" if "unat b < 2 ^ 16"
    using that by (simp add: word_unat_eq_iff unsigned_ucast_eq unsigned_take_bit_eq take_bit_nat_eq_self)
  moreover have "unat (ucast r :: u32) < 2 ^ 16"
    using unsigned_less [of r, where 'a = nat] by (simp add: unsigned_ucast_eq take_bit_nat_eq_self)
  moreover have "(ucast (ucast r :: u32) :: u16) = r"
    by (rule bit_word_eqI) (simp add: bit_ucast_iff)
  ultimately show ?thesis
    by (auto simp: rights_from_bits_def rights_bits_def Let_def split: if_splits)
qed

text \<open>
  C28. The tokens the application ABI exchanges decode canonically. A 64-bit value decodes
  to a handle exactly when the handle is one the dispatcher can issue and the value is
  its encoding, so no two values name one handle and no value is misread; reply
  statuses and rights masks have the same two-way property, and rights decode only when
  every bit is assigned.
\<close>

theorem abi_tokens_canonical:
  "(handle_from_abi_value v = Inr h \<longleftrightarrow> handle_ok h \<and> handle_abi_value h = v) \<and>
   (status_from_abi_value n = Some s \<longleftrightarrow> status_abi_value s = n) \<and>
   (rights_from_bits b = Inr r \<longleftrightarrow> r AND NOT right_ASSIGNED = 0 \<and> rights_bits r = b)"
  using handle_token_iff status_token_iff rights_token_iff by blast

end
