(* ===== verification/Generation_Table.thy ===== *)
theory Generation_Table
  imports Prelude
begin

text \<open>
  Slot tables whose identities are a slot index and a generation: service ports,
  capability handles, endpoints, client badges and pending calls. Each table reuses
  slots, and each must never let an identity that stopped resolving resolve again.
  \<open>floor_of\<close> is the least generation a slot can still answer now or later; the locale
  asks that live slots answer at or above it, that no step lowers it, and that a step
  that ends an identity raises it past that identity's generation. The result is that
  ended identities stay dead over any sequence of operations.
\<close>

section \<open>Advancing tables\<close>

definition slot_advances ::
    "('x \<Rightarrow> nat) \<Rightarrow> ('x \<Rightarrow> bool) \<Rightarrow> ('x \<Rightarrow> nat) \<Rightarrow> 'x \<Rightarrow> 'x \<Rightarrow> bool" where
  "slot_advances gen live floor_of x y \<longleftrightarrow>
     floor_of x \<le> floor_of y \<and> (live x \<and> \<not> (live y \<and> gen y = gen x) \<longrightarrow> gen x < floor_of y)"

definition table_advances ::
    "('x \<Rightarrow> nat) \<Rightarrow> ('x \<Rightarrow> bool) \<Rightarrow> ('x \<Rightarrow> nat) \<Rightarrow> 'x list \<Rightarrow> 'x list \<Rightarrow> bool" where
  "table_advances gen live floor_of xs ys \<longleftrightarrow>
     length xs \<le> length ys \<and> (\<forall>i<length xs. slot_advances gen live floor_of (xs ! i) (ys ! i))"

definition names_live :: "('x \<Rightarrow> nat) \<Rightarrow> ('x \<Rightarrow> bool) \<Rightarrow> 'x list \<Rightarrow> nat \<Rightarrow> nat \<Rightarrow> bool" where
  "names_live gen live xs i g \<longleftrightarrow> i < length xs \<and> live (xs ! i) \<and> gen (xs ! i) = g"

lemma slot_advances_refl [simp]: "slot_advances gen live floor_of x x"
  by (simp add: slot_advances_def)

lemma table_advances_refl [simp]: "table_advances gen live floor_of xs xs"
  by (simp add: table_advances_def)

lemma table_advances_update:
  "slot_advances gen live floor_of (xs ! i) y \<Longrightarrow> table_advances gen live floor_of xs (xs[i := y])"
  by (cases "i < length xs") (auto simp: table_advances_def nth_list_update)

lemma table_advances_append: "table_advances gen live floor_of xs (xs @ ys)"
  by (auto simp: table_advances_def nth_append)

lemma table_advances_map:
  "(\<And>x. x \<in> set xs \<Longrightarrow> slot_advances gen live floor_of x (f x)) \<Longrightarrow>
   table_advances gen live floor_of xs (map f xs)"
  by (auto simp: table_advances_def)

lemma table_advances_trans:
  assumes st: "table_advances gen live floor_of xs ys" and tu: "table_advances gen live floor_of ys zs"
  shows "table_advances gen live floor_of xs zs"
  unfolding table_advances_def
proof (intro conjI allI impI)
  show "length xs \<le> length zs" using st tu by (simp add: table_advances_def)
  fix i assume i: "i < length xs"
  then have j: "i < length ys" using st by (simp add: table_advances_def)
  have a: "slot_advances gen live floor_of (xs ! i) (ys ! i)" "slot_advances gen live floor_of (ys ! i) (zs ! i)"
    using st tu i j by (simp_all add: table_advances_def)
  then show "slot_advances gen live floor_of (xs ! i) (zs ! i)"
    by (auto simp: slot_advances_def)
qed

section \<open>Ended identities stay dead\<close>

locale generation_table =
  fixes slots :: "'s \<Rightarrow> 'x list"
    and gen :: "'x \<Rightarrow> nat"
    and live :: "'x \<Rightarrow> bool"
    and floor_of :: "'x \<Rightarrow> nat"
    and inv :: "'s \<Rightarrow> bool"
    and step :: "'s \<Rightarrow> 's \<Rightarrow> bool"
  assumes inv_step: "inv s \<Longrightarrow> step s t \<Longrightarrow> inv t"
    and live_floor: "inv s \<Longrightarrow> x \<in> set (slots s) \<Longrightarrow> live x \<Longrightarrow> floor_of x \<le> gen x"
    and step_advances: "inv s \<Longrightarrow> step s t \<Longrightarrow> table_advances gen live floor_of (slots s) (slots t)"
begin

lemma inv_steps: "step\<^sup>*\<^sup>* s t \<Longrightarrow> inv s \<Longrightarrow> inv t"
  by (induction rule: rtranclp_induct) (auto intro: inv_step)

lemma length_steps: "step\<^sup>*\<^sup>* s t \<Longrightarrow> inv s \<Longrightarrow> length (slots s) \<le> length (slots t)"
proof (induction rule: rtranclp_induct)
  case base
  then show ?case by simp
next
  case (step t u)
  then have "length (slots t) \<le> length (slots u)"
    using step_advances [OF inv_steps [OF step.hyps(1)] step.hyps(2)] by (simp add: table_advances_def)
  with step show ?case by simp
qed

lemma floor_steps:
  "step\<^sup>*\<^sup>* s t \<Longrightarrow> inv s \<Longrightarrow> i < length (slots s) \<Longrightarrow> floor_of (slots s ! i) \<le> floor_of (slots t ! i)"
proof (induction rule: rtranclp_induct)
  case base
  then show ?case by simp
next
  case (step t u)
  then have "i < length (slots t)" using length_steps [OF step.hyps(1)] by simp
  then have "floor_of (slots t ! i) \<le> floor_of (slots u ! i)"
    using step_advances [OF inv_steps [OF step.hyps(1)] step.hyps(2)] step.prems
    by (simp add: table_advances_def slot_advances_def)
  with step show ?case by simp
qed

lemma below_floor_dead:
  assumes "inv s" "step\<^sup>*\<^sup>* s t" "i < length (slots s)" "g < floor_of (slots s ! i)"
  shows "\<not> names_live gen live (slots t) i g"
proof
  assume live: "names_live gen live (slots t) i g"
  then have "floor_of (slots t ! i) \<le> g"
    using live_floor [OF inv_steps [OF assms(2,1)], of "slots t ! i"] by (auto simp: names_live_def)
  with floor_steps [OF assms(2,1,3)] assms(4) show False by simp
qed

lemma lost_below_floor:
  "step\<^sup>*\<^sup>* s t \<Longrightarrow> inv s \<Longrightarrow> names_live gen live (slots s) i g \<Longrightarrow> \<not> names_live gen live (slots t) i g \<Longrightarrow>
   i < length (slots t) \<and> g < floor_of (slots t ! i)"
proof (induction rule: rtranclp_induct)
  case base
  then show ?case by simp
next
  case (step t u)
  note inv = inv_steps [OF step.hyps(1) step.prems(1)]
  have adv: "table_advances gen live floor_of (slots t) (slots u)"
    by (rule step_advances [OF inv step.hyps(2)])
  have i: "i < length (slots t)"
    using length_steps [OF step.hyps(1) step.prems(1)] step.prems(2) by (simp add: names_live_def)
  show ?case
  proof (cases "names_live gen live (slots t) i g")
    case True
    with adv i step.prems(3) show ?thesis
      by (auto simp: table_advances_def slot_advances_def names_live_def)
  next
    case False
    with step have "g < floor_of (slots t ! i)" by blast
    with adv i show ?thesis
      by (force simp: table_advances_def slot_advances_def)
  qed
qed

lemma no_resurrection:
  assumes "inv s" "names_live gen live (slots s) i g"
    and "step\<^sup>*\<^sup>* s t" "\<not> names_live gen live (slots t) i g" "step\<^sup>*\<^sup>* t u"
  shows "\<not> names_live gen live (slots u) i g"
  using below_floor_dead [OF inv_steps [OF assms(3,1)] assms(5)] lost_below_floor [OF assms(3,1,2,4)]
  by blast

end

end
