(* ===== verification/Endpoint.thy ===== *)
theory Endpoint
  imports Message Generation_Table
begin

text \<open>
  Persistent service endpoints bound to one server incarnation
  (\<open>troe-dispatch/src/endpoint.rs\<close>): ceilings, the closed interface set, and the
  endpoint table with \<open>bind\<close>, \<open>rebind\<close>, \<open>close\<close> and the two resolutions. The table
  refines a finite map from live identities to bindings.
\<close>

section \<open>Ceilings\<close>

definition MAX_ENDPOINTS :: nat where "MAX_ENDPOINTS = 16"

definition MAX_QUEUED_CALLS_PER_ENDPOINT :: nat where "MAX_QUEUED_CALLS_PER_ENDPOINT = 8"

definition MAX_RETAINED_REQUEST_BYTES :: nat where "MAX_RETAINED_REQUEST_BYTES = 128 * 1024"

definition MAX_CALL_DEADLINE_MILLIS :: nat where "MAX_CALL_DEADLINE_MILLIS = 4000"

definition MAX_ENDPOINT_INTERFACES :: nat where "MAX_ENDPOINT_INTERFACES = 8"

record endpoint_id =
  ei_slot :: nat
  ei_generation :: nat

record endpoint_limits =
  el_queued_calls :: nat
  el_retained_bytes :: nat
  el_deadline_millis :: nat

definition limits_STANDARD :: endpoint_limits where
  "limits_STANDARD = \<lparr>el_queued_calls = MAX_QUEUED_CALLS_PER_ENDPOINT,
     el_retained_bytes = MAX_RETAINED_REQUEST_BYTES, el_deadline_millis = MAX_CALL_DEADLINE_MILLIS\<rparr>"

definition limits_new :: "nat \<Rightarrow> nat \<Rightarrow> nat \<Rightarrow> (dispatch_error, endpoint_limits) result" where
  "limits_new queued_calls retained_bytes deadline_millis =
     (if queued_calls = 0 \<or> queued_calls > MAX_QUEUED_CALLS_PER_ENDPOINT
         \<or> retained_bytes = 0 \<or> retained_bytes > MAX_RETAINED_REQUEST_BYTES
         \<or> deadline_millis = 0 \<or> deadline_millis > MAX_CALL_DEADLINE_MILLIS
      then Inl InvalidCapacity
      else Inr \<lparr>el_queued_calls = queued_calls, el_retained_bytes = retained_bytes,
             el_deadline_millis = deadline_millis\<rparr>)"

definition limits_narrow :: "endpoint_limits \<Rightarrow> endpoint_limits \<Rightarrow> endpoint_limits" where
  "limits_narrow self requested =
     \<lparr>el_queued_calls = (if el_queued_calls requested < el_queued_calls self
        then el_queued_calls requested else el_queued_calls self),
      el_retained_bytes = (if el_retained_bytes requested < el_retained_bytes self
        then el_retained_bytes requested else el_retained_bytes self),
      el_deadline_millis = (if el_deadline_millis requested < el_deadline_millis self
        then el_deadline_millis requested else el_deadline_millis self)\<rparr>"

definition admits_deadline :: "endpoint_limits \<Rightarrow> nat \<Rightarrow> bool" where
  "admits_deadline self requested_millis =
     (requested_millis \<noteq> 0 \<and> requested_millis \<le> el_deadline_millis self)"

section \<open>Interface sets\<close>

record interface_set =
  is_interfaces :: "u32 list"
  is_len :: nat

fun interface_set_loop ::
    "u32 list \<Rightarrow> nat \<Rightarrow> u32 list \<Rightarrow> u32 list \<Rightarrow> (dispatch_error, u32 list) result" where
  "interface_set_loop interfaces index [] stored = Inr stored"
| "interface_set_loop interfaces index (interface # rest) stored =
     (if allowed_rights interface = 0 then Inl InvalidInterface
      else if interface \<in> set (take index interfaces) then Inl InvalidInterface
      else interface_set_loop interfaces (Suc index) rest (stored[index := interface]))"

definition interface_set_new :: "u32 list \<Rightarrow> (dispatch_error, interface_set) result" where
  "interface_set_new interfaces =
     (if interfaces = [] \<or> length interfaces > MAX_ENDPOINT_INTERFACES then Inl InvalidCapacity
      else rbind (interface_set_loop interfaces 0 interfaces (replicate MAX_ENDPOINT_INTERFACES 0))
        (\<lambda>stored. rbind (ok_or InvalidCapacity (try_into 8 (length interfaces)))
          (\<lambda>len. Inr \<lparr>is_interfaces = stored, is_len = len\<rparr>)))"

definition interface_set_as_slice :: "interface_set \<Rightarrow> u32 list" where
  "interface_set_as_slice s = take (is_len s) (is_interfaces s)"

definition interface_set_accepts :: "interface_set \<Rightarrow> u32 \<Rightarrow> bool" where
  "interface_set_accepts s interface = (interface \<in> set (take (is_len s) (is_interfaces s)))"

section \<open>The endpoint table\<close>

record endpoint_binding =
  eb_server :: handle_owner
  eb_interfaces :: interface_set
  eb_limits :: endpoint_limits

record endpoint_slot =
  es_generation :: nat
  es_retired :: bool
  es_binding :: "endpoint_binding option"

record endpoint_table =
  et_slots :: "endpoint_slot list"
  et_live :: nat
  et_high_water :: nat
  et_retired :: nat
  et_incarnations :: nat

definition endpoint_new :: "bool \<Rightarrow> nat \<Rightarrow> (dispatch_error, endpoint_table) result" where
  "endpoint_new reserve_ok capacity =
     (if capacity = 0 \<or> capacity > MAX_ENDPOINTS then Inl InvalidCapacity
      else if \<not> reserve_ok then Inl MetadataExhausted
      else Inr \<lparr>et_slots = replicate capacity
                  \<lparr>es_generation = 0, es_retired = False, es_binding = None\<rparr>,
                et_live = 0, et_high_water = 0, et_retired = 0, et_incarnations = 0\<rparr>)"

definition endpoint_publish ::
    "endpoint_table \<Rightarrow> nat \<Rightarrow> handle_owner \<Rightarrow> interface_set \<Rightarrow> endpoint_limits \<Rightarrow>
     (dispatch_error, endpoint_id \<times> endpoint_table) result" where
  "endpoint_publish t slot server interfaces limits =
     rbind (ok_or AccountingOverflow (checked_add 64 (et_incarnations t) 1)) (\<lambda>incarnations.
     rbind (ok_or AccountingOverflow (checked_add 32 (et_live t) 1)) (\<lambda>live.
     if slot \<ge> length (et_slots t) then Inl InvalidEndpoint
     else let record = et_slots t ! slot in
     rbind (ok_or EndpointCapacityExhausted (checked_add 32 (es_generation record) 1)) (\<lambda>generation.
     Inr (\<lparr>ei_slot = slot, ei_generation = generation\<rparr>,
       t\<lparr>et_slots := (et_slots t)[slot := record\<lparr>es_generation := generation,
            es_binding := Some \<lparr>eb_server = server, eb_interfaces = interfaces, eb_limits = limits\<rparr>\<rparr>],
         et_incarnations := incarnations,
         et_live := live,
         et_high_water := max (et_high_water t) live\<rparr>))))"

definition endpoint_bind ::
    "endpoint_table \<Rightarrow> handle_owner \<Rightarrow> interface_set \<Rightarrow> endpoint_limits \<Rightarrow>
     (dispatch_error, endpoint_id \<times> endpoint_table) result" where
  "endpoint_bind t server interfaces limits =
     (case server of
        KernelOwner \<Rightarrow> Inl InvalidOwner
      | IsolatedTask _ \<Rightarrow>
          rbind (ok_or EndpointCapacityExhausted
                  (position (\<lambda>slot. \<not> es_retired slot \<and> es_binding slot = None) (et_slots t)))
            (\<lambda>slot. rbind (ok_or AccountingOverflow (try_into 32 slot))
              (\<lambda>index. endpoint_publish t index server interfaces limits)))"

definition endpoint_rebind ::
    "endpoint_table \<Rightarrow> nat \<Rightarrow> handle_owner \<Rightarrow> interface_set \<Rightarrow> endpoint_limits \<Rightarrow>
     (dispatch_error, endpoint_id \<times> endpoint_table) result" where
  "endpoint_rebind t slot server interfaces limits =
     (case server of
        KernelOwner \<Rightarrow> Inl InvalidOwner
      | IsolatedTask _ \<Rightarrow>
          if slot \<ge> length (et_slots t) then Inl InvalidEndpoint
          else if es_retired (et_slots t ! slot) \<or> es_binding (et_slots t ! slot) \<noteq> None
            then Inl InvalidEndpoint
          else endpoint_publish t slot server interfaces limits)"

definition endpoint_resolve ::
    "endpoint_table \<Rightarrow> endpoint_id \<Rightarrow> (dispatch_error, endpoint_binding) result" where
  "endpoint_resolve t endpoint =
     (if ei_slot endpoint \<ge> length (et_slots t) then Inl InvalidEndpoint
      else let record = et_slots t ! ei_slot endpoint in
        if es_retired record \<or> es_generation record \<noteq> ei_generation endpoint then Inl InvalidEndpoint
        else ok_or InvalidEndpoint (es_binding record))"

definition endpoint_resolve_for ::
    "endpoint_table \<Rightarrow> endpoint_id \<Rightarrow> u32 \<Rightarrow> rights \<Rightarrow> (dispatch_error, endpoint_binding) result" where
  "endpoint_resolve_for t endpoint interface rights =
     rbind (endpoint_resolve t endpoint) (\<lambda>binding.
       if \<not> interface_set_accepts (eb_interfaces binding) interface then Inl InvalidInterface
       else if rights_is_empty rights then Inl InvalidRights
       else rbind (rights_for_interface rights interface) (\<lambda>_. Inr binding))"

text \<open>
  \<open>close\<close> clears the binding before it counts the retirement, so its last check comes
  after a write; the model returns the table that a failure would leave.
\<close>

definition endpoint_close ::
    "endpoint_table \<Rightarrow> endpoint_id \<Rightarrow> (dispatch_error, unit) result \<times> endpoint_table" where
  "endpoint_close t endpoint =
     (case endpoint_resolve t endpoint of
        Inl e \<Rightarrow> (Inl e, t)
      | Inr _ \<Rightarrow>
         (case checked_sub (et_live t) 1 of
            None \<Rightarrow> (Inl AccountingOverflow, t)
          | Some live \<Rightarrow>
             (let i = ei_slot endpoint; record = (et_slots t ! i)\<lparr>es_binding := None\<rparr> in
              if es_generation record = 2 ^ 32 - 1 then
                let cleared = t\<lparr>et_slots := (et_slots t)[i := record\<lparr>es_retired := True\<rparr>]\<rparr> in
                (case checked_add 32 (et_retired t) 1 of
                   None \<Rightarrow> (Inl AccountingOverflow, cleared)
                 | Some retired \<Rightarrow> (Inr (), cleared\<lparr>et_retired := retired, et_live := live\<rparr>))
              else (Inr (), t\<lparr>et_slots := (et_slots t)[i := record], et_live := live\<rparr>))))"

text \<open>Every operation that changes the table.\<close>

inductive endpoint_step :: "endpoint_table \<Rightarrow> endpoint_table \<Rightarrow> bool" where
  step_bind: "endpoint_bind t server interfaces limits = Inr (endpoint, t') \<Longrightarrow> endpoint_step t t'"
| step_rebind: "endpoint_rebind t slot server interfaces limits = Inr (endpoint, t') \<Longrightarrow> endpoint_step t t'"
| step_close: "endpoint_close t endpoint = (r, t') \<Longrightarrow> endpoint_step t t'"

section \<open>Invariant\<close>

abbreviation es_bound :: "endpoint_slot \<Rightarrow> bool" where
  "es_bound x \<equiv> es_binding x \<noteq> None"

definition endpoint_slot_ok :: "endpoint_slot \<Rightarrow> bool" where
  "endpoint_slot_ok x \<longleftrightarrow> es_generation x < 2 ^ 32 \<and>
     (es_retired x \<longrightarrow> es_binding x = None) \<and>
     (es_binding x = None \<and> \<not> es_retired x \<longrightarrow> es_generation x < 2 ^ 32 - 1) \<and>
     (es_bound x \<longrightarrow> 0 < es_generation x)"

definition endpoint_ok :: "endpoint_table \<Rightarrow> bool" where
  "endpoint_ok t \<longleftrightarrow> 0 < length (et_slots t) \<and> length (et_slots t) \<le> MAX_ENDPOINTS \<and>
     (\<forall>x\<in>set (et_slots t). endpoint_slot_ok x) \<and>
     et_live t = count_if es_bound (et_slots t) \<and>
     et_retired t = count_if es_retired (et_slots t) \<and>
     et_incarnations t = sum_list (map es_generation (et_slots t)) \<and>
     et_live t \<le> et_high_water t \<and> et_high_water t \<le> length (et_slots t)"

lemma endpoint_new_ok: "endpoint_new reserve_ok capacity = Inr t \<Longrightarrow> endpoint_ok t"
  by (auto simp: endpoint_new_def endpoint_ok_def endpoint_slot_ok_def sum_list_replicate split: if_splits)

lemma endpoint_publish_eq:
  assumes ok: "endpoint_ok t" and i: "i < length (et_slots t)"
    and free: "\<not> es_retired (et_slots t ! i)" "es_binding (et_slots t ! i) = None"
  shows "\<exists>t'. endpoint_publish t i server interfaces limits =
      Inr (\<lparr>ei_slot = i, ei_generation = es_generation (et_slots t ! i) + 1\<rparr>, t') \<and>
    et_slots t' = (et_slots t)[i := \<lparr>es_generation = es_generation (et_slots t ! i) + 1, es_retired = False,
      es_binding = Some \<lparr>eb_server = server, eb_interfaces = interfaces, eb_limits = limits\<rparr>\<rparr>] \<and>
    endpoint_ok t'"
proof -
  let ?x = "et_slots t ! i"
  let ?y = "\<lparr>es_generation = es_generation ?x + 1, es_retired = False,
      es_binding = Some \<lparr>eb_server = server, eb_interfaces = interfaces, eb_limits = limits\<rparr>\<rparr>"
  let ?t = "t\<lparr>et_slots := (et_slots t)[i := ?y], et_incarnations := et_incarnations t + 1,
      et_live := et_live t + 1, et_high_water := max (et_high_water t) (et_live t + 1)\<rparr>"
  have x: "endpoint_slot_ok ?x" using ok i by (auto simp: endpoint_ok_def)
  have len: "length (et_slots t) \<le> 16" using ok by (simp add: endpoint_ok_def MAX_ENDPOINTS_def)
  have g: "es_generation ?x + 1 < 2 ^ 32" using x free by (simp add: endpoint_slot_ok_def)
  have live: "et_live t < length (et_slots t)"
    using count_if_less_length_nth [OF i, of es_bound] free ok by (simp add: endpoint_ok_def)
  have "es_generation y \<le> 2 ^ 32" if "y \<in> set (et_slots t)" for y
    using ok that by (auto simp: endpoint_ok_def endpoint_slot_ok_def)
  from sum_list_le_length_mult [OF this] have "et_incarnations t \<le> length (et_slots t) * 2 ^ 32"
    using ok by (simp add: endpoint_ok_def)
  then have inc: "et_incarnations t + 1 < 2 ^ 64" using len by simp
  have "?x\<lparr>es_generation := es_generation ?x + 1,
      es_binding := Some \<lparr>eb_server = server, eb_interfaces = interfaces, eb_limits = limits\<rparr>\<rparr> = ?y"
    using free(1) by simp
  then have pub: "endpoint_publish t i server interfaces limits =
      Inr (\<lparr>ei_slot = i, ei_generation = es_generation ?x + 1\<rparr>, ?t)"
    using g live len inc i by (simp add: endpoint_publish_def checked_add_def Let_def)
  have "endpoint_slot_ok ?y" using g by (simp add: endpoint_slot_ok_def)
  moreover have "count_if es_bound (et_slots ?t) = count_if es_bound (et_slots t) + 1"
    using count_if_update [OF i, of es_bound ?y] free by simp
  moreover have "count_if es_retired (et_slots ?t) = count_if es_retired (et_slots t)"
    using count_if_update [OF i, of es_retired ?y] free by simp
  moreover have "sum_list (map es_generation (et_slots ?t)) = sum_list (map es_generation (et_slots t)) + 1"
    using sum_list_update_nat [OF i, of es_generation ?y] by simp
  ultimately have "endpoint_ok ?t"
    using ok live by (auto simp: endpoint_ok_def dest!: set_update_subset_insert [THEN subsetD])
  with pub show ?thesis by (intro exI [of _ ?t]) simp
qed

lemma endpoint_close_eq:
  assumes ok: "endpoint_ok t" and res: "endpoint_resolve t endpoint = Inr b"
  defines "x \<equiv> et_slots t ! ei_slot endpoint"
  shows "\<exists>t'. endpoint_close t endpoint = (Inr (), t') \<and>
    et_slots t' = (et_slots t)[ei_slot endpoint := x\<lparr>es_binding := None,
      es_retired := (es_generation x = 2 ^ 32 - 1)\<rparr>] \<and> endpoint_ok t'"
proof -
  let ?i = "ei_slot endpoint"
  let ?y = "x\<lparr>es_binding := None, es_retired := (es_generation x = 2 ^ 32 - 1)\<rparr>"
  from res have i: "?i < length (et_slots t)" and bound: "es_bound x" and alive: "\<not> es_retired x"
    by (auto simp: endpoint_resolve_def Let_def x_def result_simps split: if_splits)
  have x: "endpoint_slot_ok x" using ok i by (auto simp: endpoint_ok_def x_def)
  have pos: "1 \<le> et_live t"
    using count_if_pos_nth [OF i, of es_bound] bound ok by (simp add: endpoint_ok_def x_def)
  have len: "length (et_slots t) \<le> 16" using ok by (simp add: endpoint_ok_def MAX_ENDPOINTS_def)
  have ret: "et_retired t + 1 < 2 ^ 32"
    using ok count_if_le_length [of es_retired "et_slots t"] len by (simp add: endpoint_ok_def)
  let ?t = "t\<lparr>et_slots := (et_slots t)[?i := ?y], et_live := et_live t - 1,
     et_retired := et_retired t + of_bool (es_generation x = 2 ^ 32 - 1)\<rparr>"
  have same: "x\<lparr>es_binding := None, es_retired := False\<rparr> = x\<lparr>es_binding := None\<rparr>"
    by (rule endpoint_slot.equality) (use alive in simp_all)
  have eq: "endpoint_close t endpoint = (Inr (), ?t)"
    using res pos ret same
    by (simp add: endpoint_close_def Let_def checked_sub_def checked_add_def flip: x_def)
  have "endpoint_slot_ok ?y" using x by (auto simp: endpoint_slot_ok_def)
  moreover have "count_if es_bound (et_slots ?t) + 1 = count_if es_bound (et_slots t)"
    using count_if_update [OF i, of es_bound ?y] bound by (simp add: x_def)
  moreover have "count_if es_retired (et_slots ?t) =
      count_if es_retired (et_slots t) + of_bool (es_generation x = 2 ^ 32 - 1)"
    using count_if_update [OF i, of es_retired ?y] alive by (simp add: x_def)
  moreover have "sum_list (map es_generation (et_slots ?t)) = sum_list (map es_generation (et_slots t))"
    using sum_list_update_nat [OF i, of es_generation ?y] by (simp add: x_def)
  ultimately have "endpoint_ok ?t"
    using ok pos by (auto simp: endpoint_ok_def dest!: set_update_subset_insert [THEN subsetD])
  with eq show ?thesis by (intro exI [of _ ?t]) simp
qed

section \<open>Steps keep the invariant\<close>

abbreviation es_available :: "endpoint_slot \<Rightarrow> bool" where
  "es_available x \<equiv> \<not> es_retired x \<and> es_binding x = None"

lemma endpoint_publish_at:
  assumes "endpoint_ok t" "i < length (et_slots t)" "es_available (et_slots t ! i)"
    and "endpoint_publish t i server interfaces limits = r"
  obtains t' where "r = Inr (\<lparr>ei_slot = i, ei_generation = es_generation (et_slots t ! i) + 1\<rparr>, t')"
    and "endpoint_ok t'"
    and "et_slots t' = (et_slots t)[i := \<lparr>es_generation = es_generation (et_slots t ! i) + 1, es_retired = False,
      es_binding = Some \<lparr>eb_server = server, eb_interfaces = interfaces, eb_limits = limits\<rparr>\<rparr>]"
  using endpoint_publish_eq [OF assms(1,2)] assms(3,4) by blast

lemma endpoint_bind_eq:
  assumes "endpoint_ok t"
  shows "endpoint_bind t (IsolatedTask task) interfaces limits =
    (case position es_available (et_slots t) of
       None \<Rightarrow> Inl EndpointCapacityExhausted
     | Some i \<Rightarrow> endpoint_publish t i (IsolatedTask task) interfaces limits)"
proof -
  have "i < 2 ^ 32" if "position es_available (et_slots t) = Some i" for i
    using position_SomeD [OF that] assms by (simp add: endpoint_ok_def MAX_ENDPOINTS_def)
  then show ?thesis by (auto simp: endpoint_bind_def try_into_def split: option.splits)
qed

definition endpoint_floor :: "endpoint_slot \<Rightarrow> nat" where
  "endpoint_floor x = es_generation x + of_bool (es_binding x = None)"

lemma endpoint_step_ok:
  assumes "endpoint_ok t" "endpoint_step t t'"
  shows "endpoint_ok t' \<and> table_advances es_generation es_bound endpoint_floor (et_slots t) (et_slots t')"
  using assms(2)
proof cases
  case (step_bind server interfaces limits endpoint)
  then obtain task i where i: "position es_available (et_slots t) = Some i"
    and pub: "endpoint_publish t i (IsolatedTask task) interfaces limits = Inr (endpoint, t')"
    using endpoint_bind_eq [OF assms(1)]
    by (cases server) (auto simp: endpoint_bind_def split: option.splits)
  from position_SomeD [OF i] obtain t1 where "endpoint_ok t'"
    "et_slots t' = (et_slots t)[i := \<lparr>es_generation = es_generation (et_slots t ! i) + 1, es_retired = False,
      es_binding = Some \<lparr>eb_server = IsolatedTask task, eb_interfaces = interfaces, eb_limits = limits\<rparr>\<rparr>]"
    using endpoint_publish_at [OF assms(1) _ _ pub] by (metis Inr_inject prod.inject)
  with position_SomeD [OF i] show ?thesis
    by (simp add: table_advances_update slot_advances_def endpoint_floor_def)
next
  case (step_rebind slot server interfaces limits endpoint)
  then obtain task where i: "slot < length (et_slots t)" "es_available (et_slots t ! slot)"
    and pub: "endpoint_publish t slot (IsolatedTask task) interfaces limits = Inr (endpoint, t')"
    by (cases server) (auto simp: endpoint_rebind_def split: if_splits)
  from endpoint_publish_at [OF assms(1) i pub] have "endpoint_ok t'"
    "et_slots t' = (et_slots t)[slot := \<lparr>es_generation = es_generation (et_slots t ! slot) + 1, es_retired = False,
      es_binding = Some \<lparr>eb_server = IsolatedTask task, eb_interfaces = interfaces, eb_limits = limits\<rparr>\<rparr>]"
    by (metis Inr_inject prod.inject)+
  with i show ?thesis
    by (simp add: table_advances_update slot_advances_def endpoint_floor_def)
next
  case (step_close endpoint r)
  show ?thesis
  proof (cases "endpoint_resolve t endpoint")
    case (Inl e)
    with step_close assms(1) show ?thesis by (simp add: endpoint_close_def)
  next
    case (Inr b)
    from endpoint_close_eq [OF assms(1) Inr] step_close show ?thesis
      by (auto intro!: table_advances_update simp: slot_advances_def endpoint_floor_def)
  qed
qed

lemma endpoint_resolve_iff_names:
  assumes "endpoint_ok t"
  shows "(\<exists>b. endpoint_resolve t endpoint = Inr b) \<longleftrightarrow>
    names_live es_generation es_bound (et_slots t) (ei_slot endpoint) (ei_generation endpoint)"
proof (cases "ei_slot endpoint < length (et_slots t)")
  case True
  then have "endpoint_slot_ok (et_slots t ! ei_slot endpoint)" using assms by (simp add: endpoint_ok_def)
  with True show ?thesis
    by (auto simp: endpoint_resolve_def names_live_def Let_def endpoint_slot_ok_def result_simps)
qed (simp add: endpoint_resolve_def names_live_def)

interpretation endpoints: generation_table et_slots es_generation es_bound endpoint_floor
  endpoint_ok endpoint_step
  by unfold_locales (use endpoint_step_ok in blast, simp add: endpoint_floor_def, use endpoint_step_ok in blast)

section \<open>The table refines a map of live identities\<close>

definition endpoint_view :: "endpoint_table \<Rightarrow> endpoint_id \<Rightarrow> endpoint_binding option" where
  "endpoint_view t endpoint =
     (case endpoint_resolve t endpoint of Inl _ \<Rightarrow> None | Inr b \<Rightarrow> Some b)"

lemma endpoint_view_slots:
  "endpoint_view t endpoint =
     (if ei_slot endpoint < length (et_slots t) \<and> \<not> es_retired (et_slots t ! ei_slot endpoint)
         \<and> es_generation (et_slots t ! ei_slot endpoint) = ei_generation endpoint
      then es_binding (et_slots t ! ei_slot endpoint) else None)"
  by (auto simp: endpoint_view_def endpoint_resolve_def Let_def ok_or_def split: option.splits)

lemma endpoint_publish_view:
  assumes "i < length (et_slots t)" "es_available (et_slots t ! i)"
    and "et_slots t' = (et_slots t)[i := \<lparr>es_generation = g + 1, es_retired = False, es_binding = Some b\<rparr>]"
  shows "endpoint_view t' = (endpoint_view t)(\<lparr>ei_slot = i, ei_generation = g + 1\<rparr> \<mapsto> b)"
proof
  fix endpoint :: endpoint_id
  show "endpoint_view t' endpoint = ((endpoint_view t)(\<lparr>ei_slot = i, ei_generation = g + 1\<rparr> \<mapsto> b)) endpoint"
    using assms by (cases endpoint; cases "ei_slot endpoint = i") (auto simp: endpoint_view_slots)
qed


lemma endpoint_close_view:
  assumes ok: "endpoint_ok t" and close: "endpoint_close t endpoint = (r, t')"
  shows "endpoint_ok t' \<and> endpoint_view t' = (endpoint_view t)(endpoint := None) \<and>
    r = (if endpoint_view t endpoint = None then Inl InvalidEndpoint else Inr ()) \<and>
    (endpoint_view t endpoint = None \<longrightarrow> t' = t)"
proof (cases "endpoint_resolve t endpoint")
  case (Inl e)
  then have "e = InvalidEndpoint"
    by (auto simp: endpoint_resolve_def Let_def result_simps split: if_splits)
  with Inl ok close show ?thesis by (auto simp: endpoint_close_def endpoint_view_def)
next
  case (Inr b)
  let ?i = "ei_slot endpoint"
  from Inr have i: "?i < length (et_slots t)" "es_generation (et_slots t ! ?i) = ei_generation endpoint"
    and some: "endpoint_view t endpoint = Some b"
    by (auto simp: endpoint_resolve_def endpoint_view_def Let_def split: if_splits)
  from endpoint_close_eq [OF ok Inr] close have r: "r = Inr ()" and ok': "endpoint_ok t'"
    and s: "et_slots t' = (et_slots t)[?i := (et_slots t ! ?i)\<lparr>es_binding := None,
      es_retired := (es_generation (et_slots t ! ?i) = 2 ^ 32 - 1)\<rparr>]"
    by auto
  have "endpoint_view t' e = ((endpoint_view t)(endpoint := None)) e" for e
  proof (cases "ei_slot e = ?i")
    case True
    then show ?thesis using i s by (cases e; cases endpoint) (auto simp: endpoint_view_slots)
  next
    case False
    then show ?thesis using s by (auto simp: endpoint_view_slots)
  qed
  with r ok' some show ?thesis by auto
qed

section \<open>Interface sets are closed, distinct and assigned\<close>

lemma interface_set_loop_eq:
  assumes "interfaces = xs @ rest" "length stored = MAX_ENDPOINT_INTERFACES"
    and "length interfaces \<le> MAX_ENDPOINT_INTERFACES" "take (length xs) stored = xs"
  shows "interface_set_loop interfaces (length xs) rest stored =
    (if distinct rest \<and> set xs \<inter> set rest = {} \<and> (\<forall>i\<in>set rest. allowed_rights i \<noteq> 0)
     then Inr (interfaces @ drop (length interfaces) stored) else Inl InvalidInterface)"
  using assms
proof (induction rest arbitrary: xs stored)
  case Nil
  then show ?case using append_take_drop_id [of "length xs" stored] by simp
next
  case (Cons i rest)
  have len: "length xs < length stored" using Cons.prems by simp
  have 1: "interfaces = (xs @ [i]) @ rest" "length (stored[length xs := i]) = MAX_ENDPOINT_INTERFACES"
    using Cons.prems by simp_all
  have 2: "take (length (xs @ [i])) (stored[length xs := i]) = xs @ [i]"
    using len Cons.prems(4) by (simp add: take_Suc_conv_app_nth)
  have 3: "drop (length interfaces) (stored[length xs := i]) = drop (length interfaces) stored"
    using Cons.prems(1) by simp
  have 4: "take (length xs) interfaces = xs" using Cons.prems(1) by simp
  show ?case
    using Cons.IH [OF 1 Cons.prems(3) 2] by (auto simp: 3 4)
qed

lemma interface_set_new_iff:
  "interface_set_new interfaces = Inr s \<longleftrightarrow>
   interfaces \<noteq> [] \<and> length interfaces \<le> MAX_ENDPOINT_INTERFACES \<and> distinct interfaces \<and>
   (\<forall>i\<in>set interfaces. 0 < i \<and> i \<le> HIGHEST) \<and>
   s = \<lparr>is_interfaces = interfaces @ replicate (MAX_ENDPOINT_INTERFACES - length interfaces) 0,
        is_len = length interfaces\<rparr>"
proof -
  have "allowed_rights i \<noteq> 0 \<longleftrightarrow> 0 < i \<and> i \<le> HIGHEST" for i
    by (auto simp: allowed_rights_eq_0_iff word_gt_0)
  then show ?thesis
    using interface_set_loop_eq [of interfaces "[]" interfaces "replicate MAX_ENDPOINT_INTERFACES 0"]
    by (auto simp: interface_set_new_def try_into_def MAX_ENDPOINT_INTERFACES_def)
qed

lemma interface_set_accepts_iff:
  "interface_set_new interfaces = Inr s \<Longrightarrow> interface_set_accepts s i \<longleftrightarrow> i \<in> set interfaces"
  by (auto simp: interface_set_new_iff interface_set_accepts_def)

section \<open>Contract\<close>

lemma endpoint_publish_refines:
  assumes "endpoint_ok t" "i < length (et_slots t)" "es_available (et_slots t ! i)"
  shows "\<exists>endpoint t'. endpoint_publish t i server interfaces limits = Inr (endpoint, t') \<and>
    ei_slot endpoint = i \<and> endpoint_ok t' \<and> endpoint_view t endpoint = None \<and>
    endpoint_view t' = (endpoint_view t)(endpoint \<mapsto>
      \<lparr>eb_server = server, eb_interfaces = interfaces, eb_limits = limits\<rparr>)"
proof -
  obtain t' where pub: "endpoint_publish t i server interfaces limits =
        Inr (\<lparr>ei_slot = i, ei_generation = es_generation (et_slots t ! i) + 1\<rparr>, t')"
    and ok: "endpoint_ok t'"
    and s: "et_slots t' = (et_slots t)[i := \<lparr>es_generation = es_generation (et_slots t ! i) + 1, es_retired = False,
      es_binding = Some \<lparr>eb_server = server, eb_interfaces = interfaces, eb_limits = limits\<rparr>\<rparr>]"
    by (rule endpoint_publish_at [OF assms refl])
  from endpoint_publish_view [OF assms(2,3) s] pub ok show ?thesis
    by (simp add: endpoint_view_slots)
qed

lemma endpoint_closed_for_good:
  assumes ok: "endpoint_ok t" and close: "endpoint_close t endpoint = (Inr (), t')" and run: "endpoint_step\<^sup>*\<^sup>* t' u"
  shows "endpoint_view u endpoint = None"
proof -
  note view = endpoint_close_view [OF ok close]
  have step: "endpoint_step\<^sup>*\<^sup>* t t'" using step_close [OF close] by blast
  have ok': "endpoint_ok t'" "endpoint_ok u"
    using endpoints.inv_steps [OF step ok] endpoints.inv_steps [OF run] by blast+
  have live: "endpoint_view s endpoint \<noteq> None \<longleftrightarrow>
      names_live es_generation es_bound (et_slots s) (ei_slot endpoint) (ei_generation endpoint)" if "endpoint_ok s" for s
    using endpoint_resolve_iff_names [OF that, of endpoint] by (auto simp: endpoint_view_def split: sum.splits)
  have "endpoint_view t endpoint \<noteq> None" "endpoint_view t' endpoint = None" using view by (auto split: if_splits)
  then show ?thesis using endpoints.no_resurrection [OF ok _ step _ run] live [OF ok] live [OF ok'(1)] live [OF ok'(2)] by blast
qed


definition sample_interfaces :: interface_set where
  "sample_interfaces = \<lparr>is_interfaces = [13, 0, 0, 0, 0, 0, 0, 0], is_len = 1\<rparr>"

definition sample_endpoint_table :: endpoint_table where
  "sample_endpoint_table = \<lparr>et_slots =
     [\<lparr>es_generation = 1, es_retired = False, es_binding = Some \<lparr>eb_server = IsolatedTask 7,
        eb_interfaces = sample_interfaces, eb_limits = limits_STANDARD\<rparr>\<rparr>,
      \<lparr>es_generation = 4, es_retired = False, es_binding = None\<rparr>],
     et_live = 1, et_high_water = 1, et_retired = 0, et_incarnations = 5\<rparr>"

lemma sample_endpoint_table_ok: "endpoint_ok sample_endpoint_table"
  by (simp add: endpoint_ok_def endpoint_slot_ok_def sample_endpoint_table_def MAX_ENDPOINTS_def)


end
