(* ===== verification/Badge.thy ===== *)
theory Badge
  imports Message Generation_Table
begin

text \<open>
  Endpoint-scoped client badges (\<open>troe-dispatch/src/badge.rs\<close>): one identity per
  endpoint and owner while any handle is open, and one \<open>client-closed\<close> event when the
  last handle closes. Operations whose last check follows a write return the table a
  failure would leave.
\<close>

section \<open>Identities and states\<close>

definition MAX_CLIENT_BADGES :: nat where "MAX_CLIENT_BADGES = 256"

definition MAX_BADGES_PER_ENDPOINT :: nat where "MAX_BADGES_PER_ENDPOINT = 32"

definition MAX_BADGE_GENERATION :: nat where "MAX_BADGE_GENERATION = 0x00ffffff"

record client_badge =
  cb_slot :: nat
  cb_generation :: nat

definition badge_none :: client_badge where
  "badge_none = \<lparr>cb_slot = 0, cb_generation = 0\<rparr>"

definition event_value :: "client_badge \<Rightarrow> u64" where
  "event_value b = push_bit 8 (of_nat (cb_generation b)) OR of_nat (cb_slot b)"

datatype badge_closure = ClosureRetained | ClosureClosed

datatype badge_state = BadgeFree | BadgeOpen nat | BadgeClosed

fun badge_is_open :: "badge_state \<Rightarrow> bool" where
  "badge_is_open (BadgeOpen handles) = True"
| "badge_is_open _ = False"

record badge_slot =
  bs_generation :: nat
  bs_retired :: bool
  bs_endpoint_slot :: nat
  bs_owner :: handle_owner
  bs_state :: badge_state

record badge_table =
  bt_slots :: "badge_slot list"
  bt_open :: nat
  bt_pending_closed :: nat
  bt_high_water :: nat
  bt_retired :: nat
  bt_created :: nat
  bt_closures_consumed :: nat

section \<open>Operations\<close>

definition badge_new :: "bool \<Rightarrow> nat \<Rightarrow> (dispatch_error, badge_table) result" where
  "badge_new reserve_ok capacity =
     (if capacity = 0 \<or> capacity > MAX_CLIENT_BADGES then Inl InvalidCapacity
      else if \<not> reserve_ok then Inl MetadataExhausted
      else Inr \<lparr>bt_slots = replicate capacity
                  \<lparr>bs_generation = 0, bs_retired = False, bs_endpoint_slot = 0,
                   bs_owner = KernelOwner, bs_state = BadgeFree\<rparr>,
                bt_open = 0, bt_pending_closed = 0, bt_high_water = 0, bt_retired = 0,
                bt_created = 0, bt_closures_consumed = 0\<rparr>)"

definition badge_find_open :: "badge_table \<Rightarrow> nat \<Rightarrow> handle_owner \<Rightarrow> nat option" where
  "badge_find_open t endpoint_slot owner =
     position (\<lambda>slot. bs_endpoint_slot slot = endpoint_slot \<and> bs_owner slot = owner
       \<and> badge_is_open (bs_state slot)) (bt_slots t)"

definition badge_occupied_at :: "badge_table \<Rightarrow> nat \<Rightarrow> nat" where
  "badge_occupied_at t endpoint_slot =
     count_if (\<lambda>slot. bs_endpoint_slot slot = endpoint_slot \<and> bs_state slot \<noteq> BadgeFree) (bt_slots t)"

definition badge_open_existing ::
    "badge_table \<Rightarrow> nat \<Rightarrow> (dispatch_error, client_badge) result \<times> badge_table" where
  "badge_open_existing t index =
     (let record = bt_slots t ! index in
      case bs_state record of
        BadgeOpen handles \<Rightarrow>
          (case checked_add 32 handles 1 of
             None \<Rightarrow> (Inl AccountingOverflow, t)
           | Some handles \<Rightarrow>
              (let t' = t\<lparr>bt_slots := (bt_slots t)[index := record\<lparr>bs_state := BadgeOpen handles\<rparr>]\<rparr> in
               case try_into 32 index of
                 None \<Rightarrow> (Inl AccountingOverflow, t')
               | Some slot \<Rightarrow> (Inr \<lparr>cb_slot = slot, cb_generation = bs_generation record\<rparr>, t')))
      | _ \<Rightarrow> (Inl InvalidBadge, t))"

definition badge_open_new ::
    "badge_table \<Rightarrow> nat \<Rightarrow> handle_owner \<Rightarrow> (dispatch_error, client_badge \<times> badge_table) result" where
  "badge_open_new t endpoint_slot owner =
     (if badge_occupied_at t endpoint_slot \<ge> MAX_BADGES_PER_ENDPOINT then Inl BadgeCapacityExhausted
      else rbind (ok_or BadgeCapacityExhausted
        (position (\<lambda>slot. \<not> bs_retired slot \<and> bs_state slot = BadgeFree) (bt_slots t))) (\<lambda>index.
      rbind (ok_or AccountingOverflow (try_into 32 index)) (\<lambda>slot.
      rbind (ok_or AccountingOverflow (checked_add 64 (bt_created t) 1)) (\<lambda>created.
      rbind (ok_or AccountingOverflow (checked_add 32 (bt_open t) 1)) (\<lambda>opened.
      let record = bt_slots t ! index in
      rbind (ok_or BadgeCapacityExhausted (checked_add 32 (bs_generation record) 1)) (\<lambda>generation.
      Inr (\<lparr>cb_slot = slot, cb_generation = generation\<rparr>,
        t\<lparr>bt_slots := (bt_slots t)[index := record\<lparr>bs_generation := generation,
             bs_endpoint_slot := endpoint_slot, bs_owner := owner, bs_state := BadgeOpen 1\<rparr>],
          bt_created := created,
          bt_open := opened,
          bt_high_water := max (bt_high_water t) (saturating_add 32 opened (bt_pending_closed t))\<rparr>)))))))"

definition badge_open ::
    "badge_table \<Rightarrow> nat \<Rightarrow> handle_owner \<Rightarrow> (dispatch_error, client_badge) result \<times> badge_table" where
  "badge_open t endpoint_slot owner =
     (case badge_find_open t endpoint_slot owner of
        Some index \<Rightarrow> badge_open_existing t index
      | None \<Rightarrow>
         (case badge_open_new t endpoint_slot owner of
            Inl e \<Rightarrow> (Inl e, t)
          | Inr (badge, t') \<Rightarrow> (Inr badge, t')))"

definition badge_open_index :: "badge_table \<Rightarrow> client_badge \<Rightarrow> (dispatch_error, nat) result" where
  "badge_open_index t badge =
     (let index = cb_slot badge in
      if index \<ge> length (bt_slots t) then Inl InvalidBadge
      else let record = bt_slots t ! index in
        if bs_retired record \<or> bs_generation record \<noteq> cb_generation badge
            \<or> \<not> badge_is_open (bs_state record)
        then Inl InvalidBadge
        else Inr index)"

definition badge_close_handle ::
    "badge_table \<Rightarrow> client_badge \<Rightarrow> (dispatch_error, badge_closure \<times> badge_table) result" where
  "badge_close_handle t badge =
     rbind (badge_open_index t badge) (\<lambda>index.
       let record = bt_slots t ! index in
       case bs_state record of
         BadgeOpen handles \<Rightarrow>
           rbind (ok_or AccountingOverflow (checked_sub handles 1)) (\<lambda>remaining.
           if remaining > 0 then
             Inr (ClosureRetained,
               t\<lparr>bt_slots := (bt_slots t)[index := record\<lparr>bs_state := BadgeOpen remaining\<rparr>]\<rparr>)
           else
             rbind (ok_or AccountingOverflow (checked_sub (bt_open t) 1)) (\<lambda>opened.
             rbind (ok_or AccountingOverflow (checked_add 32 (bt_pending_closed t) 1)) (\<lambda>pending.
             Inr (ClosureClosed,
               t\<lparr>bt_slots := (bt_slots t)[index := record\<lparr>bs_state := BadgeClosed\<rparr>],
                 bt_open := opened, bt_pending_closed := pending\<rparr>))))
       | _ \<Rightarrow> Inl InvalidBadge)"

definition badge_owned_open :: "handle_owner \<Rightarrow> badge_slot \<Rightarrow> bool" where
  "badge_owned_open owner slot = (bs_owner slot = owner \<and> badge_is_open (bs_state slot))"

definition badge_revoke_owner ::
    "badge_table \<Rightarrow> handle_owner \<Rightarrow> (dispatch_error, nat \<times> badge_table) result" where
  "badge_revoke_owner t owner =
     rbind (ok_or AccountingOverflow (try_into 32 (count_if (badge_owned_open owner) (bt_slots t)))) (\<lambda>closing.
     rbind (ok_or AccountingOverflow (checked_sub (bt_open t) closing)) (\<lambda>opened.
     rbind (ok_or AccountingOverflow (checked_add 32 (bt_pending_closed t) closing)) (\<lambda>pending.
     Inr (closing,
       t\<lparr>bt_slots := map (\<lambda>slot. if badge_owned_open owner slot then slot\<lparr>bs_state := BadgeClosed\<rparr> else slot)
            (bt_slots t),
         bt_open := opened, bt_pending_closed := pending\<rparr>))))"

definition badge_has_closed :: "badge_table \<Rightarrow> nat \<Rightarrow> bool" where
  "badge_has_closed t endpoint_slot =
     (if bt_pending_closed t = 0 then False
      else list_ex (\<lambda>slot. bs_endpoint_slot slot = endpoint_slot \<and> bs_state slot = BadgeClosed) (bt_slots t))"

definition badge_take_closed ::
    "badge_table \<Rightarrow> nat \<Rightarrow> (dispatch_error, client_badge option) result \<times> badge_table" where
  "badge_take_closed t endpoint_slot =
     (case position (\<lambda>slot. bs_endpoint_slot slot = endpoint_slot \<and> bs_state slot = BadgeClosed)
        (bt_slots t) of
        None \<Rightarrow> (Inr None, t)
      | Some index \<Rightarrow>
         (case try_into 32 index of None \<Rightarrow> (Inl AccountingOverflow, t) | Some slot \<Rightarrow>
         (case checked_sub (bt_pending_closed t) 1 of None \<Rightarrow> (Inl AccountingOverflow, t) | Some pending \<Rightarrow>
         (case checked_add 64 (bt_closures_consumed t) 1 of None \<Rightarrow> (Inl AccountingOverflow, t) | Some consumed \<Rightarrow>
          let generation = bs_generation (bt_slots t ! index);
              record = (bt_slots t ! index)\<lparr>bs_state := BadgeFree, bs_owner := KernelOwner, bs_endpoint_slot := 0\<rparr>;
              badge = \<lparr>cb_slot = slot, cb_generation = generation\<rparr>
          in if generation = MAX_BADGE_GENERATION then
               let freed = t\<lparr>bt_slots := (bt_slots t)[index := record\<lparr>bs_retired := True\<rparr>]\<rparr> in
               (case checked_add 32 (bt_retired t) 1 of
                  None \<Rightarrow> (Inl AccountingOverflow, freed)
                | Some retired \<Rightarrow>
                    (Inr (Some badge), freed\<lparr>bt_retired := retired, bt_pending_closed := pending,
                       bt_closures_consumed := consumed\<rparr>))
             else (Inr (Some badge), t\<lparr>bt_slots := (bt_slots t)[index := record],
                     bt_pending_closed := pending, bt_closures_consumed := consumed\<rparr>)))))"

definition badge_resolve :: "badge_table \<Rightarrow> client_badge \<Rightarrow> (dispatch_error, handle_owner) result" where
  "badge_resolve t badge =
     rbind (badge_open_index t badge) (\<lambda>index. Inr (bs_owner (bt_slots t ! index)))"

definition badge_endpoint_of :: "badge_table \<Rightarrow> client_badge \<Rightarrow> (dispatch_error, nat) result" where
  "badge_endpoint_of t badge =
     (if cb_slot badge \<ge> length (bt_slots t) then Inl InvalidBadge
      else let record = bt_slots t ! cb_slot badge in
        if bs_retired record \<or> bs_generation record \<noteq> cb_generation badge \<or> bs_state record = BadgeFree
        then Inl InvalidBadge
        else Inr (bs_endpoint_slot record))"

definition badge_handles :: "badge_table \<Rightarrow> client_badge \<Rightarrow> (dispatch_error, nat) result" where
  "badge_handles t badge =
     (if cb_slot badge \<ge> length (bt_slots t) then Inl InvalidBadge
      else let record = bt_slots t ! cb_slot badge in
        if bs_retired record \<or> bs_generation record \<noteq> cb_generation badge then Inl InvalidBadge
        else case bs_state record of
          BadgeOpen handles \<Rightarrow> Inr handles
        | BadgeClosed \<Rightarrow> Inr 0
        | BadgeFree \<Rightarrow> Inl InvalidBadge)"

section \<open>Invariant\<close>

abbreviation bs_live :: "badge_slot \<Rightarrow> bool" where
  "bs_live x \<equiv> bs_state x \<noteq> BadgeFree"

abbreviation bs_opened :: "badge_slot \<Rightarrow> bool" where
  "bs_opened x \<equiv> badge_is_open (bs_state x)"

abbreviation bs_pending :: "badge_slot \<Rightarrow> bool" where
  "bs_pending x \<equiv> bs_state x = BadgeClosed"

abbreviation bs_at :: "nat \<Rightarrow> badge_slot \<Rightarrow> bool" where
  "bs_at e x \<equiv> bs_endpoint_slot x = e \<and> bs_state x \<noteq> BadgeFree"

definition badge_slot_ok :: "badge_slot \<Rightarrow> bool" where
  "badge_slot_ok x \<longleftrightarrow> bs_generation x \<le> MAX_BADGE_GENERATION \<and>
     (bs_retired x \<longrightarrow> bs_state x = BadgeFree) \<and>
     (bs_state x = BadgeFree \<and> \<not> bs_retired x \<longrightarrow> bs_generation x < MAX_BADGE_GENERATION) \<and>
     (bs_live x \<longrightarrow> 0 < bs_generation x) \<and>
     (\<forall>h. bs_state x = BadgeOpen h \<longrightarrow> 0 < h \<and> h < 2 ^ 32)"

definition badge_pairs_distinct :: "badge_slot list \<Rightarrow> bool" where
  "badge_pairs_distinct xs \<longleftrightarrow> (\<forall>i<length xs. \<forall>j<length xs.
     bs_opened (xs ! i) \<and> bs_opened (xs ! j) \<and> bs_endpoint_slot (xs ! i) = bs_endpoint_slot (xs ! j) \<and>
     bs_owner (xs ! i) = bs_owner (xs ! j) \<longrightarrow> i = j)"

definition badge_ok :: "badge_table \<Rightarrow> bool" where
  "badge_ok t \<longleftrightarrow> 0 < length (bt_slots t) \<and> length (bt_slots t) \<le> MAX_CLIENT_BADGES \<and>
     (\<forall>x\<in>set (bt_slots t). badge_slot_ok x) \<and> badge_pairs_distinct (bt_slots t) \<and>
     (\<forall>e. count_if (bs_at e) (bt_slots t) \<le> MAX_BADGES_PER_ENDPOINT) \<and>
     bt_open t = count_if bs_opened (bt_slots t) \<and>
     bt_pending_closed t = count_if bs_pending (bt_slots t) \<and>
     bt_retired t = count_if bs_retired (bt_slots t) \<and>
     bt_created t = sum_list (map bs_generation (bt_slots t)) \<and>
     bt_created t = bt_open t + bt_pending_closed t + bt_closures_consumed t \<and>
     bt_open t + bt_pending_closed t \<le> bt_high_water t \<and> bt_high_water t \<le> length (bt_slots t)"

lemma badge_new_ok: "badge_new reserve_ok capacity = Inr t \<Longrightarrow> badge_ok t"
  by (auto simp: badge_new_def badge_ok_def badge_slot_ok_def badge_pairs_distinct_def sum_list_replicate
      MAX_BADGE_GENERATION_def split: if_splits)

lemma bs_opened_or_pending: "count_if bs_opened xs + count_if bs_pending xs = count_if bs_live xs"
proof (induction xs)
  case (Cons x xs)
  then show ?case by (cases "bs_state x") auto
qed simp

lemma badge_ok_facts:
  assumes "badge_ok t"
  shows "length (bt_slots t) \<le> 256" "bt_created t \<le> 256 * 2 ^ 24"
    "bt_open t + bt_pending_closed t = count_if bs_live (bt_slots t)"
    "bt_open t \<le> 256" "bt_pending_closed t \<le> 256" "bt_retired t \<le> 256"
    "bt_closures_consumed t \<le> bt_created t"
proof -
  show len: "length (bt_slots t) \<le> 256" using assms by (simp add: badge_ok_def MAX_CLIENT_BADGES_def)
  have "bs_generation y \<le> 2 ^ 24" if "y \<in> set (bt_slots t)" for y
    using assms that by (auto simp: badge_ok_def badge_slot_ok_def MAX_BADGE_GENERATION_def)
  from sum_list_le_length_mult [OF this] have "bt_created t \<le> length (bt_slots t) * 2 ^ 24"
    using assms by (simp add: badge_ok_def)
  also have "\<dots> \<le> 256 * 2 ^ 24" using len by simp
  finally show "bt_created t \<le> 256 * 2 ^ 24" .
  show "bt_open t + bt_pending_closed t = count_if bs_live (bt_slots t)"
    using assms bs_opened_or_pending by (simp add: badge_ok_def)
  show "bt_open t \<le> 256" "bt_pending_closed t \<le> 256" "bt_retired t \<le> 256"
    using assms len count_if_le_length [of bs_opened "bt_slots t"] count_if_le_length [of bs_pending "bt_slots t"]
      count_if_le_length [of bs_retired "bt_slots t"]
    by (simp_all add: badge_ok_def)
  show "bt_closures_consumed t \<le> bt_created t" using assms by (simp add: badge_ok_def)
qed

lemma badge_pairs_distinct_update:
  assumes "badge_pairs_distinct xs"
    and "bs_opened y \<Longrightarrow> i < length xs \<Longrightarrow>
      (\<And>j. j < length xs \<Longrightarrow> j \<noteq> i \<Longrightarrow> bs_opened (xs ! j) \<Longrightarrow> bs_endpoint_slot (xs ! j) = bs_endpoint_slot y \<Longrightarrow>
        bs_owner (xs ! j) \<noteq> bs_owner y)"
  shows "badge_pairs_distinct (xs[i := y])"
  unfolding badge_pairs_distinct_def
proof (intro allI impI)
  fix j k
  assume jk: "j < length (xs[i := y])" "k < length (xs[i := y])"
    and same: "bs_opened (xs[i := y] ! j) \<and> bs_opened (xs[i := y] ! k) \<and>
      bs_endpoint_slot (xs[i := y] ! j) = bs_endpoint_slot (xs[i := y] ! k) \<and>
      bs_owner (xs[i := y] ! j) = bs_owner (xs[i := y] ! k)"
  show "j = k"
    using jk same assms
    by (cases "j = i"; cases "k = i") (auto simp: badge_pairs_distinct_def)
qed

text \<open>One slot changes: what has to be checked for the invariant to survive.\<close>

lemma badge_ok_update:
  assumes ok: "badge_ok t" and i: "i < length (bt_slots t)" and y: "badge_slot_ok y"
    and pairs: "badge_pairs_distinct ((bt_slots t)[i := y])"
    and at: "bs_live y \<Longrightarrow> bs_at (bs_endpoint_slot y) (bt_slots t ! i) \<or>
      count_if (bs_at (bs_endpoint_slot y)) (bt_slots t) < MAX_BADGES_PER_ENDPOINT"
    and s': "bt_slots t' = (bt_slots t)[i := y]"
    and o': "bt_open t' + of_bool (bs_opened (bt_slots t ! i)) = bt_open t + of_bool (bs_opened y)"
    and p': "bt_pending_closed t' + of_bool (bs_pending (bt_slots t ! i)) = bt_pending_closed t + of_bool (bs_pending y)"
    and r': "bt_retired t' + of_bool (bs_retired (bt_slots t ! i)) = bt_retired t + of_bool (bs_retired y)"
    and c': "bt_created t' + bs_generation (bt_slots t ! i) = bt_created t + bs_generation y"
    and e': "bt_created t' = bt_open t' + bt_pending_closed t' + bt_closures_consumed t'"
    and h': "bt_high_water t' = max (bt_high_water t) (bt_open t' + bt_pending_closed t')"
  shows "badge_ok t'"
proof -
  have "count_if (bs_at e) (bt_slots t') \<le> MAX_BADGES_PER_ENDPOINT" for e
  proof -
    let ?c = "count_if (bs_at e) (bt_slots t)"
    have upd: "count_if (bs_at e) (bt_slots t') + of_bool (bs_at e (bt_slots t ! i)) = ?c + of_bool (bs_at e y)"
      unfolding s' by (rule count_if_update [OF i])
    have le: "?c \<le> MAX_BADGES_PER_ENDPOINT" using ok by (simp add: badge_ok_def)
    have "\<not> bs_at e y \<or> bs_at e (bt_slots t ! i) \<or> ?c < MAX_BADGES_PER_ENDPOINT" using at by blast
    then show ?thesis
    proof (elim disjE)
      assume "\<not> bs_at e y"
      then have "of_bool (bs_at e y) = (0::nat)" by simp
      with upd le show ?thesis by linarith
    next
      assume "bs_at e (bt_slots t ! i)"
      then have "of_bool (bs_at e (bt_slots t ! i)) = (1::nat)" by simp
      with upd le show ?thesis by (cases "bs_at e y") simp_all
    next
      assume "?c < MAX_BADGES_PER_ENDPOINT"
      with upd show ?thesis by (cases "bs_at e y") simp_all
    qed
  qed
  moreover have "bt_open t' = count_if bs_opened (bt_slots t')"
    using count_if_update [OF i, of bs_opened y] o' ok unfolding s' badge_ok_def by linarith
  moreover have "bt_pending_closed t' = count_if bs_pending (bt_slots t')"
    using count_if_update [OF i, of bs_pending y] p' ok unfolding s' badge_ok_def by linarith
  moreover have "bt_retired t' = count_if bs_retired (bt_slots t')"
    using count_if_update [OF i, of bs_retired y] r' ok unfolding s' badge_ok_def by linarith
  moreover have "bt_created t' = sum_list (map bs_generation (bt_slots t'))"
    using sum_list_update_nat [OF i, of bs_generation y] c' ok unfolding s' badge_ok_def by linarith
  moreover have "\<forall>x\<in>set (bt_slots t'). badge_slot_ok x"
    using ok y unfolding s' badge_ok_def by (auto dest!: set_update_subset_insert [THEN subsetD])
  moreover have "bt_open t' + bt_pending_closed t' \<le> length (bt_slots t')"
    using bs_opened_or_pending [of "bt_slots t'"] count_if_le_length [of bs_live "bt_slots t'"]
      calculation(2,3) by simp
  ultimately show ?thesis
    using ok pairs e' h' unfolding badge_ok_def by (simp add: s')
qed

section \<open>The clients a table records\<close>

text \<open>
  The abstract content: each live badge names its endpoint, its owner and the handles it
  still holds; a badge with no handle is one whose \<open>client-closed\<close> event is pending.
\<close>

fun handle_count :: "badge_state \<Rightarrow> nat" where
  "handle_count (BadgeOpen handles) = handles"
| "handle_count _ = 0"

definition badge_entry :: "badge_slot \<Rightarrow> (nat \<times> handle_owner \<times> nat) option" where
  "badge_entry x =
     (if bs_live x \<and> \<not> bs_retired x
      then Some (bs_endpoint_slot x, bs_owner x, handle_count (bs_state x)) else None)"

definition badge_view :: "badge_table \<Rightarrow> client_badge \<Rightarrow> (nat \<times> handle_owner \<times> nat) option" where
  "badge_view t b =
     (if cb_slot b < length (bt_slots t) \<and> bs_generation (bt_slots t ! cb_slot b) = cb_generation b
      then badge_entry (bt_slots t ! cb_slot b) else None)"

lemma badge_view_update:
  assumes "i < length (bt_slots t)" "bs_state (bt_slots t ! i) = BadgeFree \<or> bs_generation (bt_slots t ! i) = bs_generation y"
    and "bt_slots t' = (bt_slots t)[i := y]"
  shows "badge_view t' = (badge_view t)(\<lparr>cb_slot = i, cb_generation = bs_generation y\<rparr> := badge_entry y)"
proof
  fix b :: client_badge
  show "badge_view t' b = ((badge_view t)(\<lparr>cb_slot = i, cb_generation = bs_generation y\<rparr> := badge_entry y)) b"
    using assms by (cases b; cases "cb_slot b = i") (auto simp: badge_view_def badge_entry_def)
qed

lemma badge_slotD: "badge_ok t \<Longrightarrow> i < length (bt_slots t) \<Longrightarrow> badge_slot_ok (bt_slots t ! i)"
  by (auto simp: badge_ok_def)

lemma badge_is_open_iff: "badge_is_open s \<longleftrightarrow> (\<exists>h. s = BadgeOpen h)"
  by (cases s) auto

lemma badge_view_open_iff:
  assumes "badge_ok t"
  shows "badge_view t b = Some (e, owner, Suc h) \<longleftrightarrow>
    cb_slot b < length (bt_slots t) \<and> bs_generation (bt_slots t ! cb_slot b) = cb_generation b \<and>
    bs_state (bt_slots t ! cb_slot b) = BadgeOpen (Suc h) \<and>
    bs_endpoint_slot (bt_slots t ! cb_slot b) = e \<and> bs_owner (bt_slots t ! cb_slot b) = owner"
proof (cases "cb_slot b < length (bt_slots t)")
  case True
  from badge_slotD [OF assms True] show ?thesis
    by (cases "bs_state (bt_slots t ! cb_slot b)")
      (auto simp: badge_view_def badge_entry_def badge_slot_ok_def)
qed (simp add: badge_view_def)

lemma badge_view_closed_iff:
  assumes "badge_ok t"
  shows "badge_view t b = Some (e, owner, 0) \<longleftrightarrow>
    cb_slot b < length (bt_slots t) \<and> bs_generation (bt_slots t ! cb_slot b) = cb_generation b \<and>
    bs_state (bt_slots t ! cb_slot b) = BadgeClosed \<and>
    bs_endpoint_slot (bt_slots t ! cb_slot b) = e \<and> bs_owner (bt_slots t ! cb_slot b) = owner"
proof (cases "cb_slot b < length (bt_slots t)")
  case True
  from badge_slotD [OF assms True] show ?thesis
    by (cases "bs_state (bt_slots t ! cb_slot b)")
      (auto simp: badge_view_def badge_entry_def badge_slot_ok_def)
qed (simp add: badge_view_def)

lemma badge_find_open_Some:
  assumes ok: "badge_ok t" and f: "badge_find_open t e owner = Some i"
  obtains h where "i < length (bt_slots t)" "bs_state (bt_slots t ! i) = BadgeOpen (Suc h)" "Suc h < 2 ^ 32"
    "bs_endpoint_slot (bt_slots t ! i) = e" "bs_owner (bt_slots t ! i) = owner"
proof -
  from position_SomeD [OF f [unfolded badge_find_open_def]]
  have i: "i < length (bt_slots t)" "bs_endpoint_slot (bt_slots t ! i) = e" "bs_owner (bt_slots t ! i) = owner"
    and "badge_is_open (bs_state (bt_slots t ! i))" by auto
  then obtain h where "bs_state (bt_slots t ! i) = BadgeOpen h" by (auto simp: badge_is_open_iff)
  with badge_slotD [OF ok i(1)] i that [of "h - 1"] show ?thesis by (auto simp: badge_slot_ok_def)
qed

lemma badge_find_open_None:
  assumes ok: "badge_ok t" and f: "badge_find_open t e owner = None"
  shows "badge_view t b \<noteq> Some (e, owner, Suc h)"
  using f unfolding badge_view_open_iff [OF ok] badge_find_open_def position_None_iff
  by (metis badge_is_open.simps(1) nth_mem)

lemma badge_open_existing_refines:
  assumes ok: "badge_ok t" and f: "badge_find_open t e owner = Some i"
  defines "b \<equiv> \<lparr>cb_slot = i, cb_generation = bs_generation (bt_slots t ! i)\<rparr>"
  obtains h where "badge_view t b = Some (e, owner, Suc h)"
    "Suc (Suc h) < 2 ^ 32 \<Longrightarrow> \<exists>t'. badge_open t e owner = (Inr b, t') \<and> badge_ok t' \<and>
       badge_view t' = (badge_view t)(b \<mapsto> (e, owner, Suc (Suc h))) \<and> length (bt_slots t') = length (bt_slots t) \<and>
       bt_created t' = bt_created t \<and> bt_closures_consumed t' = bt_closures_consumed t \<and>
       map bs_generation (bt_slots t') = map bs_generation (bt_slots t)"
    "\<not> Suc (Suc h) < 2 ^ 32 \<Longrightarrow> badge_open t e owner = (Inl AccountingOverflow, t)"
proof -
  obtain h where i: "i < length (bt_slots t)" and st: "bs_state (bt_slots t ! i) = BadgeOpen (Suc h)"
    and eo: "bs_endpoint_slot (bt_slots t ! i) = e" "bs_owner (bt_slots t ! i) = owner"
    by (rule badge_find_open_Some [OF ok f])
  note x = badge_slotD [OF ok i]
  have i32: "i < 2 ^ 32" using i badge_ok_facts(1) [OF ok] by simp
  show thesis
  proof (rule that)
    show "badge_view t b = Some (e, owner, Suc h)"
      using i st eo by (simp add: badge_view_open_iff [OF ok] b_def)
    show "badge_open t e owner = (Inl AccountingOverflow, t)" if "\<not> Suc (Suc h) < 2 ^ 32"
      using that f st by (simp add: badge_open_def badge_open_existing_def checked_add_def)
    assume lt: "Suc (Suc h) < 2 ^ 32"
    let ?y = "(bt_slots t ! i)\<lparr>bs_state := BadgeOpen (Suc (Suc h))\<rparr>"
    let ?t = "t\<lparr>bt_slots := (bt_slots t)[i := ?y]\<rparr>"
    have eq: "badge_open t e owner = (Inr b, ?t)"
      using f st lt i32 by (simp add: badge_open_def badge_open_existing_def checked_add_def try_into_def b_def Let_def)
    have y: "badge_slot_ok ?y" using x st lt by (auto simp: badge_slot_ok_def)
    have "badge_pairs_distinct ((bt_slots t)[i := ?y])"
      using ok i st by (intro badge_pairs_distinct_update) (auto simp: badge_ok_def badge_pairs_distinct_def)
    then have "badge_ok ?t"
      by (rule badge_ok_update [OF ok i y]) (use ok st in \<open>auto simp: badge_ok_def\<close>)
    moreover have "badge_view ?t = (badge_view t)(b \<mapsto> (e, owner, Suc (Suc h)))"
      using badge_view_update [OF i, of ?y ?t] x st eo by (simp add: b_def badge_entry_def badge_slot_ok_def)
    moreover have "map bs_generation (bt_slots ?t) = map bs_generation (bt_slots t)"
      by (simp add: map_update_same)
    ultimately show "\<exists>t'. badge_open t e owner = (Inr b, t') \<and> badge_ok t' \<and>
       badge_view t' = (badge_view t)(b \<mapsto> (e, owner, Suc (Suc h))) \<and> length (bt_slots t') = length (bt_slots t) \<and>
       bt_created t' = bt_created t \<and> bt_closures_consumed t' = bt_closures_consumed t \<and>
       map bs_generation (bt_slots t') = map bs_generation (bt_slots t)"
      by (intro exI [of _ ?t]) (simp add: eq)
  qed
qed


abbreviation bs_available :: "badge_slot \<Rightarrow> bool" where
  "bs_available x \<equiv> \<not> bs_retired x \<and> bs_state x = BadgeFree"

lemma badge_open_new_refines:
  assumes ok: "badge_ok t" and f: "badge_find_open t e owner = None"
    and occ: "badge_occupied_at t e < MAX_BADGES_PER_ENDPOINT"
    and p: "position bs_available (bt_slots t) = Some i"
  defines "b \<equiv> \<lparr>cb_slot = i, cb_generation = bs_generation (bt_slots t ! i) + 1\<rparr>"
  shows "\<exists>t'. badge_open t e owner = (Inr b, t') \<and> badge_ok t' \<and> badge_view t b = None \<and>
     badge_view t' = (badge_view t)(b \<mapsto> (e, owner, 1)) \<and>
     bt_slots t' = (bt_slots t)[i := bt_slots t' ! i] \<and> bs_generation (bt_slots t' ! i) = cb_generation b \<and>
     bt_created t' = bt_created t + 1 \<and> bt_closures_consumed t' = bt_closures_consumed t"
proof -
  from position_SomeD [OF p] have i: "i < length (bt_slots t)"
    and av: "\<not> bs_retired (bt_slots t ! i)" "bs_state (bt_slots t ! i) = BadgeFree" by auto
  note x = badge_slotD [OF ok i] and facts = badge_ok_facts [OF ok]
  have g: "bs_generation (bt_slots t ! i) < MAX_BADGE_GENERATION" using x av by (simp add: badge_slot_ok_def)
  let ?y = "(bt_slots t ! i)\<lparr>bs_generation := bs_generation (bt_slots t ! i) + 1,
      bs_endpoint_slot := e, bs_owner := owner, bs_state := BadgeOpen 1\<rparr>"
  let ?t = "t\<lparr>bt_slots := (bt_slots t)[i := ?y], bt_created := bt_created t + 1, bt_open := bt_open t + 1,
      bt_high_water := max (bt_high_water t) (bt_open t + 1 + bt_pending_closed t)\<rparr>"
  have eq: "badge_open t e owner = (Inr b, ?t)"
    using f occ p i g facts
    by (simp add: badge_open_def badge_open_new_def checked_add_def saturating_add_def try_into_def b_def
        MAX_BADGE_GENERATION_def Let_def)
  have y: "badge_slot_ok ?y" using g av by (auto simp: badge_slot_ok_def)
  have "badge_pairs_distinct ((bt_slots t)[i := ?y])"
  proof (rule badge_pairs_distinct_update)
    show "badge_pairs_distinct (bt_slots t)" using ok by (simp add: badge_ok_def)
    show "bs_owner (bt_slots t ! j) \<noteq> bs_owner ?y"
      if "j < length (bt_slots t)" "bs_opened (bt_slots t ! j)" "bs_endpoint_slot (bt_slots t ! j) = bs_endpoint_slot ?y" for j
      using f that by (auto simp: badge_find_open_def position_None_iff)
  qed
  then have "badge_ok ?t"
    by (rule badge_ok_update [OF ok i y])
      (use ok av occ in \<open>auto simp: badge_ok_def badge_occupied_at_def\<close>)
  moreover have "badge_view ?t = (badge_view t)(b \<mapsto> (e, owner, 1))"
    using badge_view_update [OF i, of ?y ?t] av by (simp add: b_def badge_entry_def)
  moreover have "badge_view t b = None" by (simp add: badge_view_def b_def)
  ultimately show ?thesis
    using i by (intro exI [of _ ?t]) (simp add: eq b_def)
qed

lemma badge_open_refused:
  assumes ok: "badge_ok t" and f: "badge_find_open t e owner = None"
    and "badge_occupied_at t e \<ge> MAX_BADGES_PER_ENDPOINT \<or> position bs_available (bt_slots t) = None"
  shows "badge_open t e owner = (Inl BadgeCapacityExhausted, t)"
  using assms(3) f by (auto simp: badge_open_def badge_open_new_def)

lemma badge_open_index_iff:
  assumes "badge_ok t"
  shows "badge_open_index t b = Inr i \<longleftrightarrow> i = cb_slot b \<and> (\<exists>e owner h. badge_view t b = Some (e, owner, Suc h))"
proof (cases "cb_slot b < length (bt_slots t)")
  case True
  from badge_slotD [OF assms True] True show ?thesis
    by (cases "bs_state (bt_slots t ! cb_slot b)")
      (auto simp: badge_open_index_def badge_view_def badge_entry_def badge_slot_ok_def Let_def gr0_conv_Suc)
qed (auto simp: badge_open_index_def badge_view_def)

lemma badge_close_handle_refines:
  assumes ok: "badge_ok t" and v: "badge_view t b = Some (e, owner, Suc h)"
  shows "\<exists>t'. badge_close_handle t b = Inr (if h = 0 then ClosureClosed else ClosureRetained, t') \<and>
    badge_ok t' \<and> badge_view t' = (badge_view t)(b \<mapsto> (e, owner, h)) \<and>
    map bs_generation (bt_slots t') = map bs_generation (bt_slots t) \<and>
    bt_created t' = bt_created t \<and> bt_closures_consumed t' = bt_closures_consumed t"
proof -
  let ?i = "cb_slot b"
  from v have i: "?i < length (bt_slots t)" and st: "bs_state (bt_slots t ! ?i) = BadgeOpen (Suc h)"
    and g: "bs_generation (bt_slots t ! ?i) = cb_generation b"
    and eo: "bs_endpoint_slot (bt_slots t ! ?i) = e" "bs_owner (bt_slots t ! ?i) = owner"
    by (simp_all add: badge_view_open_iff [OF ok])
  note x = badge_slotD [OF ok i] and facts = badge_ok_facts [OF ok]
  have idx: "badge_open_index t b = Inr ?i" using v by (simp add: badge_open_index_iff [OF ok])
  have pos: "0 < bt_open t"
    using count_if_pos_nth [OF i, of bs_opened] st ok by (simp add: badge_ok_def)
  let ?s = "if h = 0 then BadgeClosed else BadgeOpen h"
  let ?y = "(bt_slots t ! ?i)\<lparr>bs_state := ?s\<rparr>"
  let ?t = "t\<lparr>bt_slots := (bt_slots t)[?i := ?y], bt_open := bt_open t - of_bool (h = 0),
      bt_pending_closed := bt_pending_closed t + of_bool (h = 0)\<rparr>"
  have eq: "badge_close_handle t b = Inr (if h = 0 then ClosureClosed else ClosureRetained, ?t)"
    using idx st pos facts by (simp add: badge_close_handle_def checked_add_def checked_sub_def Let_def)
  have y: "badge_slot_ok ?y" using x st by (auto simp: badge_slot_ok_def)
  have "badge_pairs_distinct ((bt_slots t)[?i := ?y])"
    using ok i st by (intro badge_pairs_distinct_update) (auto simp: badge_ok_def badge_pairs_distinct_def)
  then have "badge_ok ?t"
    by (rule badge_ok_update [OF ok i y]) (use ok st pos in \<open>auto simp: badge_ok_def\<close>)
  moreover have "badge_view ?t = (badge_view t)(b \<mapsto> (e, owner, h))"
    using badge_view_update [OF i, of ?y ?t] x st eo g by (cases b) (simp add: badge_entry_def badge_slot_ok_def)
  moreover have "map bs_generation (bt_slots ?t) = map bs_generation (bt_slots t)"
    by (simp add: map_update_same)
  ultimately show ?thesis by (intro exI [of _ ?t]) (simp add: eq)
qed

lemma badge_close_handle_refused:
  assumes ok: "badge_ok t" and v: "\<And>e owner h. badge_view t b \<noteq> Some (e, owner, Suc h)"
  shows "badge_close_handle t b = Inl InvalidBadge"
proof (cases "badge_open_index t b")
  case (Inl err)
  then have "err = InvalidBadge" by (auto simp: badge_open_index_def Let_def split: if_splits)
  with Inl show ?thesis by (simp add: badge_close_handle_def)
next
  case (Inr i)
  with v show ?thesis by (auto simp: badge_open_index_iff [OF ok])
qed


lemma badge_revoke_owner_refines:
  assumes ok: "badge_ok t"
  shows "\<exists>t'. badge_revoke_owner t owner = Inr (count_if (badge_owned_open owner) (bt_slots t), t') \<and>
    badge_ok t' \<and>
    badge_view t' = (\<lambda>b. map_option (\<lambda>(e, o', h). (e, o', if o' = owner then 0 else h)) (badge_view t b)) \<and>
    map bs_generation (bt_slots t') = map bs_generation (bt_slots t) \<and>
    bt_created t' = bt_created t \<and> bt_closures_consumed t' = bt_closures_consumed t"
proof -
  let ?n = "count_if (badge_owned_open owner) (bt_slots t)"
  let ?f = "\<lambda>slot. if badge_owned_open owner slot then slot\<lparr>bs_state := BadgeClosed\<rparr> else slot"
  let ?t = "t\<lparr>bt_slots := map ?f (bt_slots t), bt_open := bt_open t - ?n, bt_pending_closed := bt_pending_closed t + ?n\<rparr>"
  note facts = badge_ok_facts [OF ok]
  have own: "badge_owned_open owner = (\<lambda>x. bs_opened x \<and> bs_owner x = owner)"
    by (auto simp: badge_owned_open_def)
  have cnt: "count_if bs_opened (bt_slots t) = ?n + count_if (\<lambda>x. bs_opened x \<and> bs_owner x \<noteq> owner) (bt_slots t)"
    unfolding own by (rule count_if_split)
  have op: "bt_open t = count_if bs_opened (bt_slots t)" using ok by (simp add: badge_ok_def)
  have eq: "badge_revoke_owner t owner = Inr (?n, ?t)"
    using facts cnt op by (simp add: badge_revoke_owner_def try_into_def checked_add_def checked_sub_def)
  have "count_if bs_opened (map ?f (bt_slots t)) = count_if (\<lambda>x. bs_opened x \<and> bs_owner x \<noteq> owner) (bt_slots t)"
    by (auto simp: own intro!: count_if_cong)
  then have op': "bt_open ?t = count_if bs_opened (bt_slots ?t)" using cnt op by simp
  have live: "count_if bs_live (map ?f (bt_slots t)) = count_if bs_live (bt_slots t)"
    by (auto simp: own intro!: count_if_cong)
  have pc': "bt_pending_closed ?t = count_if bs_pending (bt_slots ?t)"
    using bs_opened_or_pending [of "bt_slots ?t"] op' live facts(3) cnt op by simp
  have "count_if (bs_at e) (map ?f (bt_slots t)) = count_if (bs_at e) (bt_slots t)" for e
    by (auto simp: own intro!: count_if_cong)
  moreover have "count_if bs_retired (map ?f (bt_slots t)) = count_if bs_retired (bt_slots t)"
    by (auto intro!: count_if_cong)
  moreover have gens: "map bs_generation (map ?f (bt_slots t)) = map bs_generation (bt_slots t)" by auto
  moreover from gens have "sum_list (map bs_generation (map ?f (bt_slots t))) = sum_list (map bs_generation (bt_slots t))"
    by (rule arg_cong)
  moreover have "\<forall>x\<in>set (map ?f (bt_slots t)). badge_slot_ok x"
    using ok by (auto simp: badge_ok_def badge_slot_ok_def own badge_is_open_iff)
  moreover have "badge_pairs_distinct (map ?f (bt_slots t))"
    using ok by (auto simp: badge_ok_def badge_pairs_distinct_def split: if_splits)
  moreover have "bt_open ?t + bt_pending_closed ?t = bt_open t + bt_pending_closed t"
    using cnt op by simp
  ultimately have "badge_ok ?t"
    using ok op' pc' unfolding badge_ok_def by (simp add: comp_def)
  moreover have "badge_view ?t b =
      map_option (\<lambda>(e, o', h). (e, o', if o' = owner then 0 else h)) (badge_view t b)" for b
    by (cases "bs_state (bt_slots t ! cb_slot b)") (auto simp: badge_view_def badge_entry_def own)
  ultimately show ?thesis using gens by (intro exI [of _ ?t]) (auto simp: eq)
qed

lemma badge_take_closed_refines:
  assumes ok: "badge_ok t"
    and p: "position (\<lambda>x. bs_endpoint_slot x = e \<and> bs_state x = BadgeClosed) (bt_slots t) = Some i"
  defines "b \<equiv> \<lparr>cb_slot = i, cb_generation = bs_generation (bt_slots t ! i)\<rparr>"
  shows "\<exists>t'. badge_take_closed t e = (Inr (Some b), t') \<and> badge_ok t' \<and>
    (\<exists>owner. badge_view t b = Some (e, owner, 0)) \<and> badge_view t' = (badge_view t)(b := None) \<and>
    (\<forall>b' owner. badge_view t b' = Some (e, owner, 0) \<longrightarrow> cb_slot b \<le> cb_slot b') \<and>
    map bs_generation (bt_slots t') = map bs_generation (bt_slots t) \<and>
    bt_created t' = bt_created t \<and> bt_closures_consumed t' = bt_closures_consumed t + 1"
proof -
  from position_SomeD [OF p] have i: "i < length (bt_slots t)" and e: "bs_endpoint_slot (bt_slots t ! i) = e"
    and st: "bs_state (bt_slots t ! i) = BadgeClosed"
    and least: "\<And>j. j < i \<Longrightarrow> \<not> (bs_endpoint_slot (bt_slots t ! j) = e \<and> bs_state (bt_slots t ! j) = BadgeClosed)"
    by auto
  note x = badge_slotD [OF ok i] and facts = badge_ok_facts [OF ok]
  let ?last = "bs_generation (bt_slots t ! i) = MAX_BADGE_GENERATION"
  let ?y = "(bt_slots t ! i)\<lparr>bs_state := BadgeFree, bs_owner := KernelOwner, bs_endpoint_slot := 0, bs_retired := ?last\<rparr>"
  let ?t = "t\<lparr>bt_slots := (bt_slots t)[i := ?y], bt_retired := bt_retired t + of_bool ?last,
      bt_pending_closed := bt_pending_closed t - 1, bt_closures_consumed := bt_closures_consumed t + 1\<rparr>"
  have nr: "\<not> bs_retired (bt_slots t ! i)" using x st by (auto simp: badge_slot_ok_def)
  have pos: "0 < bt_pending_closed t"
    using count_if_pos_nth [OF i, of bs_pending] st ok by (simp add: badge_ok_def)
  have same: "(bt_slots t ! i)\<lparr>bs_state := BadgeFree, bs_owner := KernelOwner, bs_endpoint_slot := 0, bs_retired := False\<rparr>
      = (bt_slots t ! i)\<lparr>bs_state := BadgeFree, bs_owner := KernelOwner, bs_endpoint_slot := 0\<rparr>"
    by (rule badge_slot.equality) (use nr in simp_all)
  have eq: "badge_take_closed t e = (Inr (Some b), ?t)"
    using p i pos facts
    by (simp add: badge_take_closed_def checked_add_def checked_sub_def try_into_def Let_def b_def same)
  have y: "badge_slot_ok ?y" using x by (auto simp: badge_slot_ok_def)
  have "badge_pairs_distinct ((bt_slots t)[i := ?y])"
    using ok by (intro badge_pairs_distinct_update) (auto simp: badge_ok_def)
  then have "badge_ok ?t"
    by (rule badge_ok_update [OF ok i y]) (use ok st nr pos in \<open>auto simp: badge_ok_def\<close>)
  moreover have "badge_view t b = Some (e, bs_owner (bt_slots t ! i), 0)"
    using i st e by (simp add: badge_view_closed_iff [OF ok] b_def)
  moreover have "badge_view ?t = (badge_view t)(b := None)"
    using badge_view_update [OF i, of ?y ?t] by (simp add: b_def badge_entry_def)
  moreover have "cb_slot b \<le> cb_slot b'" if "badge_view t b' = Some (e, owner, 0)" for b' owner
    using that least [of "cb_slot b'"] unfolding badge_view_closed_iff [OF ok] b_def
    by (metis client_badge.select_convs(1) not_le)
  ultimately show ?thesis by (intro exI [of _ ?t]) (auto simp: eq map_update_same)
qed

lemma badge_take_closed_none:
  assumes ok: "badge_ok t"
    and p: "position (\<lambda>x. bs_endpoint_slot x = e \<and> bs_state x = BadgeClosed) (bt_slots t) = None"
  shows "badge_take_closed t e = (Inr None, t)" "badge_view t b \<noteq> Some (e, owner, 0)"
proof -
  show "badge_take_closed t e = (Inr None, t)" using p by (simp add: badge_take_closed_def)
  show "badge_view t b \<noteq> Some (e, owner, 0)"
    using p by (auto simp: badge_view_closed_iff [OF ok] position_None_iff)
qed

lemma badge_has_closed_iff:
  assumes ok: "badge_ok t"
  shows "badge_has_closed t e \<longleftrightarrow> (\<exists>b owner. badge_view t b = Some (e, owner, 0))"
proof -
  let ?P = "\<lambda>x. bs_endpoint_slot x = e \<and> bs_state x = BadgeClosed"
  have "bt_pending_closed t = 0 \<Longrightarrow> \<not> list_ex ?P (bt_slots t)"
    using ok count_if_pos_iff [of bs_pending "bt_slots t"] by (auto simp: badge_ok_def list_ex_iff)
  then have "badge_has_closed t e \<longleftrightarrow> list_ex ?P (bt_slots t)" by (auto simp: badge_has_closed_def)
  also have "\<dots> \<longleftrightarrow> position ?P (bt_slots t) \<noteq> None" by (auto simp: position_None_iff list_ex_iff)
  also have "\<dots> \<longleftrightarrow> (\<exists>b owner. badge_view t b = Some (e, owner, 0))"
    using badge_take_closed_refines [OF ok, of e] badge_take_closed_none(2) [OF ok, of e] by blast
  finally show ?thesis .
qed

section \<open>Steps\<close>

inductive badge_step :: "badge_table \<Rightarrow> badge_table \<Rightarrow> bool" where
  badge_step_open: "badge_open t e owner = (r, t') \<Longrightarrow> badge_step t t'"
| badge_step_close: "badge_close_handle t b = Inr (c, t') \<Longrightarrow> badge_step t t'"
| badge_step_revoke: "badge_revoke_owner t owner = Inr (n, t') \<Longrightarrow> badge_step t t'"
| badge_step_take: "badge_take_closed t e = (r, t') \<Longrightarrow> badge_step t t'"

definition badge_floor :: "badge_slot \<Rightarrow> nat" where
  "badge_floor x = bs_generation x + of_bool (\<not> bs_opened x)"

abbreviation badge_advances :: "badge_slot list \<Rightarrow> badge_slot list \<Rightarrow> bool" where
  "badge_advances \<equiv> table_advances bs_generation bs_opened badge_floor"

lemma badge_open_advances:
  assumes "badge_open t e owner = (r, t')"
  shows "badge_advances (bt_slots t) (bt_slots t')"
proof (cases "badge_find_open t e owner")
  case None
  show ?thesis
  proof (cases "badge_open_new t e owner")
    case (Inl err)
    with None assms show ?thesis by (simp add: badge_open_def)
  next
    case (Inr bt)
    then show ?thesis
      using None assms
      by (auto simp: badge_open_def badge_open_new_def result_simps checked_simps Let_def split: if_splits
          dest!: position_SomeD intro!: table_advances_update simp: slot_advances_def badge_floor_def)
  qed
next
  case (Some i)
  with assms show ?thesis
    by (auto simp: badge_open_def badge_open_existing_def checked_simps Let_def split: badge_state.splits option.splits
        intro!: table_advances_update simp: slot_advances_def badge_floor_def)
qed

lemma badge_close_advances:
  assumes "badge_close_handle t b = Inr (c, t')"
  shows "badge_advances (bt_slots t) (bt_slots t')"
proof -
  from assms obtain i where idx: "badge_open_index t b = Inr i"
    by (cases "badge_open_index t b") (auto simp: badge_close_handle_def)
  then show ?thesis
    using assms
    by (cases "bs_state (bt_slots t ! i)")
      (auto simp: badge_close_handle_def result_simps checked_simps Let_def split: if_splits
        intro!: table_advances_update simp: slot_advances_def badge_floor_def)
qed

lemma badge_revoke_advances:
  "badge_revoke_owner t owner = Inr (n, t') \<Longrightarrow> badge_advances (bt_slots t) (bt_slots t')"
  by (auto simp: badge_revoke_owner_def result_simps checked_simps badge_owned_open_def
      intro!: table_advances_map simp: slot_advances_def badge_floor_def)

lemma badge_take_advances:
  assumes "badge_ok t" "badge_take_closed t e = (r, t')"
  shows "badge_advances (bt_slots t) (bt_slots t')"
proof (cases "position (\<lambda>x. bs_endpoint_slot x = e \<and> bs_state x = BadgeClosed) (bt_slots t)")
  case None
  with assms show ?thesis by (simp add: badge_take_closed_none(1))
next
  case (Some i)
  from position_SomeD [OF this] Some assms(2) show ?thesis
    by (auto simp: badge_take_closed_def checked_simps Let_def split: option.splits if_splits
        intro!: table_advances_update simp: slot_advances_def badge_floor_def)
qed

lemma badge_open_ok:
  assumes ok: "badge_ok t" and op: "badge_open t e owner = (r, t')"
  shows "badge_ok t'"
proof (cases "badge_find_open t e owner")
  case None
  show ?thesis
  proof (cases "badge_occupied_at t e < MAX_BADGES_PER_ENDPOINT \<and> position bs_available (bt_slots t) \<noteq> None")
    case True
    then obtain i where "position bs_available (bt_slots t) = Some i" by blast
    with badge_open_new_refines [OF ok None _ this] True op show ?thesis by auto
  next
    case False
    with badge_open_refused [OF ok None] op ok show ?thesis by auto
  qed
next
  case (Some i)
  show ?thesis
    by (rule badge_open_existing_refines [OF ok Some]) (use op ok in \<open>metis prod.inject\<close>)
qed

lemma badge_step_ok:
  assumes ok: "badge_ok t" and step: "badge_step t t'"
  shows "badge_ok t' \<and> badge_advances (bt_slots t) (bt_slots t')"
  using step
proof cases
  case (badge_step_open e owner r)
  with badge_open_ok [OF ok] badge_open_advances show ?thesis by blast
next
  case (badge_step_close b c)
  have "badge_ok t'"
  proof (cases "\<exists>e owner h. badge_view t b = Some (e, owner, Suc h)")
    case True
    with badge_close_handle_refines [OF ok] badge_step_close show ?thesis by fastforce
  next
    case False
    with badge_close_handle_refused [OF ok] badge_step_close show ?thesis by fastforce
  qed
  with badge_close_advances badge_step_close show ?thesis by blast
next
  case (badge_step_revoke owner n)
  with badge_revoke_owner_refines [OF ok, of owner] badge_revoke_advances show ?thesis by auto
next
  case (badge_step_take e r)
  have "badge_ok t'"
    using badge_take_closed_refines [OF ok, of e] badge_take_closed_none(1) [OF ok, of e] ok badge_step_take
    by (cases "position (\<lambda>x. bs_endpoint_slot x = e \<and> bs_state x = BadgeClosed) (bt_slots t)") auto
  with badge_take_advances [OF ok] badge_step_take show ?thesis by blast
qed

interpretation badges: generation_table bt_slots bs_generation bs_opened badge_floor badge_ok badge_step
  by unfold_locales (use badge_step_ok in blast, simp add: badge_floor_def, use badge_step_ok in blast)

lemma badge_resolve_iff_names:
  assumes "badge_ok t"
  shows "(\<exists>owner. badge_resolve t b = Inr owner) \<longleftrightarrow>
    names_live bs_generation bs_opened (bt_slots t) (cb_slot b) (cb_generation b)"
proof (cases "cb_slot b < length (bt_slots t)")
  case True
  with badge_slotD [OF assms True] show ?thesis
    by (auto simp: badge_resolve_def badge_open_index_def names_live_def badge_slot_ok_def Let_def result_simps)
qed (simp add: badge_resolve_def badge_open_index_def names_live_def)

section \<open>Every client ends once\<close>

text \<open>
  A history of a table carries a ledger that the operations do not see: the badges ever
  issued, each with the endpoint slot and the owner it was issued for; the number of handles
  on each badge, counted from the opens, closes and revocations alone; and the
  \<open>client-closed\<close> events delivered, latest first, each with the endpoint slot that asked
  for it and the number of handles its badge had then.
\<close>

inductive badge_history :: "(client_badge \<times> nat \<times> handle_owner) list \<Rightarrow> (client_badge \<Rightarrow> nat) \<Rightarrow>
    (client_badge \<times> nat \<times> nat) list \<Rightarrow> badge_table \<Rightarrow> bool" where
  history_new: "badge_new True capacity = Inr t \<Longrightarrow> badge_history [] (\<lambda>b. 0) [] t"
| history_open: "badge_history issued held events t \<Longrightarrow> badge_open t e owner = (Inr b, t') \<Longrightarrow>
    badge_history (List.insert (b, e, owner) issued) (held(b := held b + 1)) events t'"
| history_close: "badge_history issued held events t \<Longrightarrow> badge_close_handle t b = Inr (c, t') \<Longrightarrow>
    badge_history issued (held(b := held b - 1)) events t'"
| history_revoke: "badge_history issued held events t \<Longrightarrow> badge_revoke_owner t owner = Inr (n, t') \<Longrightarrow>
    badge_history issued (\<lambda>b. if \<exists>e. (b, e, owner) \<in> set issued then 0 else held b) events t'"
| history_take: "badge_history issued held events t \<Longrightarrow> badge_take_closed t e = (Inr (Some b), t') \<Longrightarrow>
    badge_history issued held ((b, e, held b) # events) t'"

definition badge_history_ok :: "client_badge list \<Rightarrow> client_badge list \<Rightarrow> badge_table \<Rightarrow> bool" where
  "badge_history_ok issued events t \<longleftrightarrow> badge_ok t \<and>
     distinct issued \<and> length issued = bt_created t \<and>
     distinct events \<and> length events = bt_closures_consumed t \<and>
     set events \<union> dom (badge_view t) = set issued \<and> set events \<inter> dom (badge_view t) = {} \<and>
     (\<forall>b\<in>set issued. 0 < cb_generation b \<and>
        cb_slot b < length (bt_slots t) \<and> cb_generation b \<le> bs_generation (bt_slots t ! cb_slot b))"

lemma badge_history_keep:
  assumes "badge_history_ok issued events t" "badge_ok t'" "dom (badge_view t') = dom (badge_view t)"
    and "bt_created t' = bt_created t" "bt_closures_consumed t' = bt_closures_consumed t"
    and gens: "map bs_generation (bt_slots t') = map bs_generation (bt_slots t)"
  shows "badge_history_ok issued events t'"
proof -
  have len: "length (bt_slots t') = length (bt_slots t)" using arg_cong [OF gens, of length] by simp
  have "bs_generation (bt_slots t' ! i) = bs_generation (bt_slots t ! i)" if "i < length (bt_slots t)" for i
    using arg_cong [OF gens, of "\<lambda>xs. xs ! i"] that len by simp
  with assms len show ?thesis by (auto simp: badge_history_ok_def)
qed

definition badge_ledger_ok :: "(client_badge \<times> nat \<times> handle_owner) list \<Rightarrow> (client_badge \<Rightarrow> nat) \<Rightarrow>
    (client_badge \<times> nat \<times> nat) list \<Rightarrow> badge_table \<Rightarrow> bool" where
  "badge_ledger_ok issued held events t \<longleftrightarrow>
     (\<forall>b e owner h. badge_view t b = Some (e, owner, h) \<longrightarrow> (b, e, owner) \<in> set issued \<and> held b = h) \<and>
     (\<forall>b. b \<notin> fst ` set issued \<longrightarrow> held b = 0) \<and>
     (\<forall>b e n. (b, e, n) \<in> set events \<longrightarrow> n = 0 \<and> (\<exists>owner. (b, e, owner) \<in> set issued))"

lemma badge_open_effect:
  assumes ok: "badge_ok t" and op: "badge_open t e owner = (Inr b, t')"
  obtains h where "badge_view t b = Some (e, owner, Suc h)" "badge_view t' = (badge_view t)(b \<mapsto> (e, owner, Suc (Suc h)))"
  | "bt_created t' = bt_created t + 1" "badge_view t' = (badge_view t)(b \<mapsto> (e, owner, 1))"
proof (cases "badge_find_open t e owner")
  case (Some i)
  show ?thesis
  proof (rule badge_open_existing_refines [OF ok Some], goal_cases)
    case (1 h)
    have "Suc (Suc h) < 2 ^ 32" using 1(3) op by (metis Inl_Inr_False prod.inject)
    from 1(2) [OF this] op 1(1) show ?thesis by (intro that(1) [of h]) auto
  qed
next
  case None
  then obtain i where "badge_occupied_at t e < MAX_BADGES_PER_ENDPOINT" "position bs_available (bt_slots t) = Some i"
    using badge_open_refused [OF ok None] op by fastforce
  from badge_open_new_refines [OF ok None this] op show ?thesis by (intro that(2)) auto
qed

lemma badge_history_open:
  assumes H: "badge_history_ok issued events t" and op: "badge_open t e owner = (Inr b, t')"
  shows "badge_history_ok (List.insert b issued) events t'"
proof -
  have ok: "badge_ok t" using H by (simp add: badge_history_ok_def)
  show ?thesis
  proof (cases "badge_find_open t e owner")
    case (Some i)
    show ?thesis
    proof (rule badge_open_existing_refines [OF ok Some])
      fix h
      let ?b = "\<lparr>cb_slot = i, cb_generation = bs_generation (bt_slots t ! i)\<rparr>"
      assume v: "badge_view t ?b = Some (e, owner, Suc h)"
        and good: "Suc (Suc h) < 2 ^ 32 \<Longrightarrow> \<exists>t'. badge_open t e owner = (Inr ?b, t') \<and> badge_ok t' \<and>
          badge_view t' = (badge_view t)(?b \<mapsto> (e, owner, Suc (Suc h))) \<and> length (bt_slots t') = length (bt_slots t) \<and>
          bt_created t' = bt_created t \<and> bt_closures_consumed t' = bt_closures_consumed t \<and>
          map bs_generation (bt_slots t') = map bs_generation (bt_slots t)"
        and bad: "\<not> Suc (Suc h) < 2 ^ 32 \<Longrightarrow> badge_open t e owner = (Inl AccountingOverflow, t)"
      have "Suc (Suc h) < 2 ^ 32" using bad op by (metis Inl_Inr_False prod.inject)
      from good [OF this] op have b: "b = ?b" and ok': "badge_ok t'"
        and view: "badge_view t' = (badge_view t)(?b \<mapsto> (e, owner, Suc (Suc h)))"
        and rest: "bt_created t' = bt_created t" "bt_closures_consumed t' = bt_closures_consumed t"
          "map bs_generation (bt_slots t') = map bs_generation (bt_slots t)" by auto
      have "dom (badge_view t') = dom (badge_view t)" using v by (auto simp: view)
      from badge_history_keep [OF H ok' this rest] show ?thesis
        using H v unfolding b by (simp add: badge_history_ok_def domI insert_absorb List.insert_def)
          (metis UnCI domI)
    qed
  next
    case None
    then obtain i where occ: "badge_occupied_at t e < MAX_BADGES_PER_ENDPOINT"
      and p: "position bs_available (bt_slots t) = Some i"
      using badge_open_refused [OF ok None] op by fastforce
    let ?b = "\<lparr>cb_slot = i, cb_generation = bs_generation (bt_slots t ! i) + 1\<rparr>"
    from badge_open_new_refines [OF ok None occ p] op have b: "b = ?b" and ok': "badge_ok t'"
      and view: "badge_view t' = (badge_view t)(?b \<mapsto> (e, owner, 1))"
      and s: "bt_slots t' = (bt_slots t)[i := bt_slots t' ! i]"
      and g: "bs_generation (bt_slots t' ! i) = bs_generation (bt_slots t ! i) + 1"
      and rest: "bt_created t' = bt_created t + 1" "bt_closures_consumed t' = bt_closures_consumed t" by auto
    have i: "i < length (bt_slots t)" using position_SomeD [OF p] by simp
    have fresh: "b \<notin> set issued" using H unfolding b by (auto simp: badge_history_ok_def)
    have len: "length (bt_slots t') = length (bt_slots t)" by (subst s) simp
    have "bs_generation (bt_slots t ! j) \<le> bs_generation (bt_slots t' ! j)" if "j < length (bt_slots t)" for j
      using that g i by (subst s) (cases "j = i"; simp)
    then have "\<forall>c\<in>set issued. 0 < cb_generation c \<and> cb_slot c < length (bt_slots t') \<and> cb_generation c \<le> bs_generation (bt_slots t' ! cb_slot c)"
      using H len by (fastforce simp: badge_history_ok_def intro: order_trans)
    moreover have "0 < cb_generation b \<and> cb_slot b < length (bt_slots t') \<and> cb_generation b \<le> bs_generation (bt_slots t' ! cb_slot b)"
      using i g len by (simp add: b)
    ultimately show ?thesis
      using H fresh ok' rest view unfolding b by (auto simp: badge_history_ok_def List.insert_def)
  qed
qed

lemma badge_ledger_open:
  assumes H: "badge_history_ok (map fst issued) events0 t" and L: "badge_ledger_ok issued held events t"
    and op: "badge_open t e owner = (Inr b, t')"
  shows "map fst (List.insert (b, e, owner) issued) = List.insert b (map fst issued) \<and>
    badge_ledger_ok (List.insert (b, e, owner) issued) (held(b := held b + 1)) events t'"
proof -
  have ok: "badge_ok t" using H by (simp add: badge_history_ok_def)
  from ok op show ?thesis
  proof (cases rule: badge_open_effect)
    case (1 h)
    with L have "(b, e, owner) \<in> set issued" "held b = Suc h" by (auto simp: badge_ledger_ok_def)
    moreover from this(1) have "b \<in> fst ` set issued" by force
    ultimately show ?thesis using L 1(2) by (auto simp: badge_ledger_ok_def split: if_splits)
  next
    case 2
    have "length (List.insert b (map fst issued)) = length (map fst issued) + 1"
      using badge_history_open [OF H op] H 2(1) by (simp add: badge_history_ok_def)
    then have b: "b \<notin> fst ` set issued" by (auto simp: List.insert_def split: if_splits)
    then have new: "(b, e, owner) \<notin> set issued" by force
    from L b have "held b = 0" by (simp add: badge_ledger_ok_def)
    moreover have "\<exists>o'. (c, e', o') \<in> set (List.insert (b, e, owner) issued)" if "(c, e', n) \<in> set events" for c e' n
      using L that by (fastforce simp: badge_ledger_ok_def)
    ultimately show ?thesis using L b new 2(2) by (auto simp: badge_ledger_ok_def split: if_splits)
  qed
qed

lemma badge_ledger_revoke:
  assumes L: "badge_ledger_ok issued held events t" and dist: "distinct (map fst issued)"
  shows "(\<forall>b e o' h. map_option (\<lambda>(e, o', h). (e, o', if o' = owner then 0 else h)) (badge_view t b) = Some (e, o', h) \<longrightarrow>
      (b, e, o') \<in> set issued \<and> (if \<exists>e. (b, e, owner) \<in> set issued then 0 else held b) = h) \<and>
    (\<forall>b. b \<notin> fst ` set issued \<longrightarrow> (if \<exists>e. (b, e, owner) \<in> set issued then 0 else held b) = 0) \<and>
    (\<forall>b e n. (b, e, n) \<in> set events \<longrightarrow> n = 0 \<and> (\<exists>owner. (b, e, owner) \<in> set issued))"
proof -
  have "(b, e, o') \<in> set issued \<and> (if \<exists>e. (b, e, owner) \<in> set issued then 0 else held b) = h"
    if v: "map_option (\<lambda>(e, o', h). (e, o', if o' = owner then 0 else h)) (badge_view t b) = Some (e, o', h)" for b e o' h
  proof -
    from v obtain h0 where "badge_view t b = Some (e, o', h0)" and h: "h = (if o' = owner then 0 else h0)" by auto
    with L have i: "(b, e, o') \<in> set issued" and "held b = h0" by (auto simp: badge_ledger_ok_def)
    moreover have "o' = owner" if "(b, e2, owner) \<in> set issued" for e2
      using eq_key_imp_eq_value [OF dist i that] by simp
    ultimately show ?thesis using h by auto
  qed
  with L show ?thesis unfolding badge_ledger_ok_def by auto
qed

lemma badge_history_take:
  assumes H: "badge_history_ok issued events t" and op: "badge_take_closed t e = (Inr (Some b), t')"
  shows "badge_history_ok issued (b # events) t' \<and> (\<exists>owner. badge_view t b = Some (e, owner, 0)) \<and>
    badge_view t' = (badge_view t)(b := None)"
proof -
  have ok: "badge_ok t" using H by (simp add: badge_history_ok_def)
  from op obtain i where
    p: "position (\<lambda>x. bs_endpoint_slot x = e \<and> bs_state x = BadgeClosed) (bt_slots t) = Some i"
    using badge_take_closed_none(1) [OF ok] by fastforce
  from badge_take_closed_refines [OF ok p] op obtain owner where
    ok': "badge_ok t'" and v: "badge_view t b = Some (e, owner, 0)" and view: "badge_view t' = (badge_view t)(b := None)"
    and gens: "map bs_generation (bt_slots t') = map bs_generation (bt_slots t)"
    and rest: "bt_created t' = bt_created t" "bt_closures_consumed t' = bt_closures_consumed t + 1" by auto
  have len: "length (bt_slots t') = length (bt_slots t)" using arg_cong [OF gens, of length] by simp
  have "bs_generation (bt_slots t' ! i) = bs_generation (bt_slots t ! i)" if "i < length (bt_slots t)" for i
    using arg_cong [OF gens, of "\<lambda>xs. xs ! i"] that len by simp
  with H ok' v view rest len show ?thesis by (auto simp: badge_history_ok_def)
qed

lemma badge_history_holds:
  "badge_history issued held events t \<Longrightarrow>
    badge_history_ok (map fst issued) (map fst events) t \<and> badge_ledger_ok issued held events t"
proof (induction rule: badge_history.induct)
  case (history_new capacity t)
  have "badge_view t = (\<lambda>b. None)" "bt_created t = 0" "bt_closures_consumed t = 0"
    using history_new by (auto simp: badge_new_def badge_view_def badge_entry_def split: if_splits)
  with badge_new_ok [OF history_new] show ?case by (simp add: badge_history_ok_def badge_ledger_ok_def)
next
  case (history_open issued held events t e owner b t')
  note H = conjunct1 [OF history_open(3)] and L = conjunct2 [OF history_open(3)]
  from badge_ledger_open [OF H L history_open(2)] badge_history_open [OF H history_open(2)] show ?case by metis
next
  case (history_close issued held events t b c t')
  then have ok: "badge_ok t" by (simp add: badge_history_ok_def)
  from history_close(2) obtain e owner h where v: "badge_view t b = Some (e, owner, Suc h)"
    using badge_close_handle_refused [OF ok, of b] by fastforce
  from badge_close_handle_refines [OF ok v] history_close(2) have t': "badge_ok t'"
    "badge_view t' = (badge_view t)(b \<mapsto> (e, owner, h))" "map bs_generation (bt_slots t') = map bs_generation (bt_slots t)"
    "bt_created t' = bt_created t" "bt_closures_consumed t' = bt_closures_consumed t" by auto
  have L: "badge_ledger_ok issued held events t" using history_close(3) by blast
  with v have "(b, e, owner) \<in> set issued" "held b = Suc h" by (auto simp: badge_ledger_ok_def)
  with L have "badge_ledger_ok issued (held(b := held b - 1)) events t'"
    by (auto simp: badge_ledger_ok_def t'(2) split: if_splits)
  moreover have "dom (badge_view t') = dom (badge_view t)" using v t'(2) by auto
  ultimately show ?case using badge_history_keep [OF conjunct1 [OF history_close(3)] t'(1) _ t'(4,5,3)] by blast
next
  case (history_revoke issued held events t owner n t')
  then have H: "badge_history_ok (map fst issued) (map fst events) t" and L: "badge_ledger_ok issued held events t" by auto
  from H have ok: "badge_ok t" and dist: "distinct (map fst issued)" by (auto simp: badge_history_ok_def)
  from badge_revoke_owner_refines [OF ok, of owner] history_revoke(2) have t': "badge_ok t'"
    "badge_view t' = (\<lambda>b. map_option (\<lambda>(e, o', h). (e, o', if o' = owner then 0 else h)) (badge_view t b))"
    "map bs_generation (bt_slots t') = map bs_generation (bt_slots t)"
    "bt_created t' = bt_created t" "bt_closures_consumed t' = bt_closures_consumed t" by auto
  have "badge_ledger_ok issued (\<lambda>b. if \<exists>e. (b, e, owner) \<in> set issued then 0 else held b) events t'"
    using badge_ledger_revoke [OF L dist] by (simp add: t'(2) badge_ledger_ok_def)
  moreover have "dom (badge_view t') = dom (badge_view t)" using t'(2) by (auto simp: dom_def)
  ultimately show ?case using badge_history_keep [OF H t'(1) _ t'(4,5,3)] by blast
next
  case (history_take issued held events t e b t')
  note H = conjunct1 [OF history_take(3)] and L = conjunct2 [OF history_take(3)]
  from badge_history_take [OF H history_take(2)] obtain owner where
    H': "badge_history_ok (map fst issued) (b # map fst events) t'" and v: "badge_view t b = Some (e, owner, 0)"
    and view: "badge_view t' = (badge_view t)(b := None)" by blast
  from L v have "(b, e, owner) \<in> set issued" "held b = 0" by (auto simp: badge_ledger_ok_def)
  with L have "badge_ledger_ok issued held ((b, e, held b) # events) t'"
    by (auto simp: badge_ledger_ok_def view split: if_splits)
  with H' show ?case by simp
qed

lemma event_value_unat:
  assumes "cb_slot b < 256" "cb_generation b \<le> MAX_BADGE_GENERATION"
  shows "unat (event_value b) = cb_generation b * 256 + cb_slot b"
proof -
  have s: "cb_slot b < 2 ^ 8" using assms by simp
  have "cb_generation b * 2 ^ 8 + cb_slot b < 2 ^ LENGTH(64)"
    using s assms(2) by (simp add: MAX_BADGE_GENERATION_def)
  from unat_of_nat_small [OF this] show ?thesis
    using push_or_value [OF s, of "cb_generation b", where 'a = 64] by (simp add: event_value_def)
qed

lemma badge_history_events:
  assumes "badge_history_ok issued events t"
  shows "inj_on event_value (set issued)"
    "b \<in> set issued \<Longrightarrow> 0 < unat (event_value b) \<and> unat (event_value b) < 2 ^ 32"
proof -
  have bounds: "cb_slot c < 256 \<and> 0 < cb_generation c \<and> cb_generation c \<le> MAX_BADGE_GENERATION"
    if "c \<in> set issued" for c
  proof -
    have ok: "badge_ok t" using assms by (simp add: badge_history_ok_def)
    from assms that have c: "cb_slot c < length (bt_slots t)" "0 < cb_generation c"
      "cb_generation c \<le> bs_generation (bt_slots t ! cb_slot c)" by (auto simp: badge_history_ok_def)
    with badge_slotD [OF ok c(1)] badge_ok_facts(1) [OF ok] show ?thesis
      by (simp add: badge_slot_ok_def)
  qed
  show "inj_on event_value (set issued)"
  proof (rule inj_onI)
    fix c d
    assume cd: "c \<in> set issued" "d \<in> set issued" and "event_value c = event_value d"
    then have eq: "cb_generation c * 256 + cb_slot c = cb_generation d * 256 + cb_slot d"
      using bounds [OF cd(1)] bounds [OF cd(2)] event_value_unat [of c] event_value_unat [of d] by simp
    have "cb_slot c < 256" "cb_slot d < 256" using bounds cd by auto
    with arg_cong [OF eq, of "\<lambda>n. n div 256"] arg_cong [OF eq, of "\<lambda>n. n mod 256"]
    have "cb_generation c = cb_generation d \<and> cb_slot c = cb_slot d" by simp
    then show "c = d" by (cases c; cases d) simp
  qed
  show "0 < unat (event_value b) \<and> unat (event_value b) < 2 ^ 32" if "b \<in> set issued"
    using bounds [OF that] event_value_unat [of b] by (simp add: MAX_BADGE_GENERATION_def)
qed

section \<open>Contract\<close>

text \<open>
  C23. The badge table implements a registry of clients. Opening a handle reuses the open
  badge of its endpoint and owner or, when there is none, issues a badge that was not in use;
  closing one removes one handle and reports the closure exactly on the last; revoking an
  owner drops all handles of that owner and of nobody else; consuming an event takes the
  pending closure of least slot at that endpoint and frees it; and the readiness test,
  which consults a counter first, agrees with the registry. Every refusal leaves the
  table as it was.
\<close>

theorem badge_table_refines:
  assumes ok: "badge_ok t"
  shows "(case badge_open t e owner of
       (Inr b, t') \<Rightarrow> badge_ok t' \<and>
         ((\<exists>h. badge_view t b = Some (e, owner, Suc h) \<and>
              badge_view t' = (badge_view t)(b \<mapsto> (e, owner, Suc (Suc h)))) \<or>
          ((\<forall>c h. badge_view t c \<noteq> Some (e, owner, Suc h)) \<and> badge_view t b = None \<and>
              badge_view t' = (badge_view t)(b \<mapsto> (e, owner, 1))))
     | (Inl err, t') \<Rightarrow> t' = t) \<and>
    (case badge_close_handle t b of
       Inr (closure, t') \<Rightarrow> badge_ok t' \<and> (\<exists>e' owner' h. badge_view t b = Some (e', owner', Suc h) \<and>
         closure = (if h = 0 then ClosureClosed else ClosureRetained) \<and>
         badge_view t' = (badge_view t)(b \<mapsto> (e', owner', h)))
     | Inl err \<Rightarrow> err = InvalidBadge \<and> (\<forall>e' owner' h. badge_view t b \<noteq> Some (e', owner', Suc h))) \<and>
    (\<exists>t'. badge_revoke_owner t owner = Inr (count_if (badge_owned_open owner) (bt_slots t), t') \<and> badge_ok t' \<and>
       badge_view t' = (\<lambda>b. map_option (\<lambda>(e', o', h). (e', o', if o' = owner then 0 else h)) (badge_view t b))) \<and>
    (case badge_take_closed t e of
       (Inr (Some b), t') \<Rightarrow> badge_ok t' \<and> (\<exists>o'. badge_view t b = Some (e, o', 0)) \<and>
         badge_view t' = (badge_view t)(b := None) \<and>
         (\<forall>b' o'. badge_view t b' = Some (e, o', 0) \<longrightarrow> cb_slot b \<le> cb_slot b')
     | (Inr None, t') \<Rightarrow> t' = t \<and> (\<forall>b o'. badge_view t b \<noteq> Some (e, o', 0))
     | (Inl _, t') \<Rightarrow> False) \<and>
    (badge_has_closed t e \<longleftrightarrow> (\<exists>b o'. badge_view t b = Some (e, o', 0)))"
    (is "?open \<and> ?close \<and> ?revoke \<and> ?take \<and> ?has")
proof (intro conjI)
  show ?open
  proof (cases "badge_find_open t e owner")
    case (Some i)
    show ?thesis
    proof (rule badge_open_existing_refines [OF ok Some], goal_cases)
      case (1 h)
      show ?thesis
      proof (cases "Suc (Suc h) < 2 ^ 32")
        case True
        from 1(2) [OF True] 1(1) show ?thesis by (elim exE conjE) simp
      next
        case False
        from 1(3) [OF False] show ?thesis by simp
      qed
    qed
  next
    case None
    show ?thesis
    proof (cases "badge_occupied_at t e < MAX_BADGES_PER_ENDPOINT \<and> position bs_available (bt_slots t) \<noteq> None")
      case True
      then obtain i where occ: "badge_occupied_at t e < MAX_BADGES_PER_ENDPOINT"
        and i: "position bs_available (bt_slots t) = Some i" by blast
      from badge_open_new_refines [OF ok None occ i] badge_find_open_None [OF ok None] show ?thesis
        by (elim exE conjE) simp
    next
      case False
      then have "badge_open t e owner = (Inl BadgeCapacityExhausted, t)"
        by (intro badge_open_refused [OF ok None]) auto
      then show ?thesis by simp
    qed
  qed
  show ?close
  proof (cases "\<exists>e' owner' h. badge_view t b = Some (e', owner', Suc h)")
    case True
    then obtain e' owner' h where v: "badge_view t b = Some (e', owner', Suc h)" by blast
    from badge_close_handle_refines [OF ok v] v show ?thesis by (elim exE conjE) simp
  next
    case False
    then show ?thesis using badge_close_handle_refused [OF ok, of b] by simp
  qed
  show ?revoke using badge_revoke_owner_refines [OF ok, of owner] by blast
  show ?take
  proof (cases "position (\<lambda>x. bs_endpoint_slot x = e \<and> bs_state x = BadgeClosed) (bt_slots t)")
    case None
    then show ?thesis using badge_take_closed_none [OF ok None] by simp
  next
    case (Some i)
    from badge_take_closed_refines [OF ok Some] show ?thesis by (elim exE conjE) simp
  qed
  show ?has by (rule badge_has_closed_iff [OF ok])
qed

definition sample_badge_table :: badge_table where
  "sample_badge_table = \<lparr>bt_slots =
     [\<lparr>bs_generation = 2, bs_retired = False, bs_endpoint_slot = 5, bs_owner = IsolatedTask 7, bs_state = BadgeOpen 1\<rparr>,
      \<lparr>bs_generation = 1, bs_retired = False, bs_endpoint_slot = 5, bs_owner = IsolatedTask 8, bs_state = BadgeClosed\<rparr>,
      \<lparr>bs_generation = 0, bs_retired = False, bs_endpoint_slot = 0, bs_owner = KernelOwner, bs_state = BadgeFree\<rparr>],
     bt_open = 1, bt_pending_closed = 1, bt_high_water = 2, bt_retired = 0, bt_created = 3, bt_closures_consumed = 1\<rparr>"

lemma sample_badge_table_ok: "badge_ok sample_badge_table"
proof -
  have "count_if (bs_at e) (bt_slots sample_badge_table) \<le> MAX_BADGES_PER_ENDPOINT" for e
    by (rule order_trans [OF count_if_le_length]) (simp add: sample_badge_table_def MAX_BADGES_PER_ENDPOINT_def)
  moreover have "badge_pairs_distinct (bt_slots sample_badge_table)"
    by (auto simp: badge_pairs_distinct_def sample_badge_table_def less_Suc_eq nth_Cons split: nat.splits)
  moreover have "\<forall>x\<in>set (bt_slots sample_badge_table). badge_slot_ok x"
    by (simp add: badge_slot_ok_def sample_badge_table_def MAX_BADGE_GENERATION_def)
  ultimately show ?thesis
    unfolding badge_ok_def by (simp add: sample_badge_table_def MAX_CLIENT_BADGES_def)
qed

theorem badge_table_refines_witness:
  "\<exists>t'. badge_close_handle sample_badge_table \<lparr>cb_slot = 0, cb_generation = 2\<rparr> = Inr (ClosureClosed, t') \<and>
     badge_view t' \<lparr>cb_slot = 0, cb_generation = 2\<rparr> = Some (5, IsolatedTask 7, 0)"
proof -
  obtain t' where eq: "badge_close_handle sample_badge_table \<lparr>cb_slot = 0, cb_generation = 2\<rparr> = Inr (ClosureClosed, t')"
    by (simp add: badge_close_handle_def badge_open_index_def sample_badge_table_def checked_sub_def checked_add_def
        Let_def)
  have "badge_view sample_badge_table \<lparr>cb_slot = 0, cb_generation = 2\<rparr> = Some (5, IsolatedTask 7, 1)"
    by (simp add: badge_view_def badge_entry_def sample_badge_table_def)
  with eq badge_table_refines [OF sample_badge_table_ok, where b = "\<lparr>cb_slot = 0, cb_generation = 2\<rparr>"] show ?thesis
    by auto
qed

text \<open>
  C21. Every client ends exactly once, where it belongs and not before its time. Over any
  history of a badge table, every \<open>client-closed\<close> event is delivered to the endpoint its
  badge was issued for, and only when no handle on the badge is left, the handles being
  counted from the opens, closes and revocations; the delivered events are about pairwise
  distinct badges; a badge that was ever issued either is still recorded, with its own
  endpoint, owner and number of handles, or has had its event delivered, never both; and the
  counters equal the numbers of badges issued and events delivered. The values carried by
  call events tell all the badges of a history apart, are nonzero, and fit in 32 bits.
\<close>

theorem badge_events_exactly_once:
  assumes "badge_history issued held events t"
  shows "(\<forall>b e n. (b, e, n) \<in> set events \<longrightarrow> n = 0 \<and> (\<exists>owner. (b, e, owner) \<in> set issued)) \<and>
    (\<forall>b e owner h. badge_view t b = Some (e, owner, h) \<longrightarrow> (b, e, owner) \<in> set issued \<and> held b = h) \<and>
    distinct (map fst issued) \<and> distinct (map fst events) \<and>
    fst ` set events \<union> dom (badge_view t) = fst ` set issued \<and>
    fst ` set events \<inter> dom (badge_view t) = {} \<and>
    length issued = bt_created t \<and> length events = bt_closures_consumed t \<and>
    bt_created t = bt_open t + bt_pending_closed t + bt_closures_consumed t \<and>
    inj_on event_value (fst ` set issued) \<and>
    (\<forall>b. b \<in> fst ` set issued \<longrightarrow> 0 < unat (event_value b) \<and> unat (event_value b) < 2 ^ 32)"
    (is "?events \<and> ?recorded \<and> ?rest")
proof (intro conjI)
  note H = conjunct1 [OF badge_history_holds [OF assms]] and L = conjunct2 [OF badge_history_holds [OF assms]]
  show ?events ?recorded using L unfolding badge_ledger_ok_def by blast+
  show "inj_on event_value (fst ` set issued)" using badge_history_events(1) [OF H] by simp
  show "\<forall>b. b \<in> fst ` set issued \<longrightarrow> 0 < unat (event_value b) \<and> unat (event_value b) < 2 ^ 32"
    using badge_history_events(2) [OF H] by simp
qed (use conjunct1 [OF badge_history_holds [OF assms]] in \<open>simp_all add: badge_history_ok_def badge_ok_def\<close>)

theorem badge_events_exactly_once_witness:
  "\<exists>t held. badge_history [(\<lparr>cb_slot = 0, cb_generation = 1\<rparr>, 5, IsolatedTask 7)] held
       [(\<lparr>cb_slot = 0, cb_generation = 1\<rparr>, 5, 0)] t \<and>
     bt_closures_consumed t = 1 \<and> badge_view t \<lparr>cb_slot = 0, cb_generation = 1\<rparr> = None"
proof -
  let ?b = "\<lparr>cb_slot = 0, cb_generation = 1\<rparr>"
  let ?x = "\<lparr>bs_generation = 0, bs_retired = False, bs_endpoint_slot = 0, bs_owner = KernelOwner, bs_state = BadgeFree\<rparr>"
  let ?t0 = "\<lparr>bt_slots = [?x], bt_open = 0, bt_pending_closed = 0, bt_high_water = 0, bt_retired = 0,
     bt_created = 0, bt_closures_consumed = 0\<rparr>"
  have 0: "badge_history [] (\<lambda>b. 0) [] ?t0"
    by (rule history_new [of 1]) (simp add: badge_new_def MAX_CLIENT_BADGES_def)
  have "badge_open ?t0 5 (IsolatedTask 7) = (Inr ?b, ?t0\<lparr>bt_slots := [?x\<lparr>bs_generation := 1, bs_endpoint_slot := 5,
      bs_owner := IsolatedTask 7, bs_state := BadgeOpen 1\<rparr>], bt_created := 1, bt_open := 1, bt_high_water := 1\<rparr>)"
    (is "_ = (_, ?t1)")
    by (simp add: badge_open_def badge_find_open_def badge_open_new_def badge_occupied_at_def Let_def
        checked_add_def try_into_def saturating_add_def MAX_BADGES_PER_ENDPOINT_def)
  from history_open [OF 0 this] have 1: "badge_history [(?b, 5, IsolatedTask 7)] ((\<lambda>b. 0)(?b := 1)) [] ?t1" by simp
  have "badge_close_handle ?t1 ?b = Inr (ClosureClosed, ?t1\<lparr>bt_slots := [?x\<lparr>bs_generation := 1, bs_endpoint_slot := 5,
      bs_owner := IsolatedTask 7, bs_state := BadgeClosed\<rparr>], bt_open := 0, bt_pending_closed := 1\<rparr>)"
    (is "_ = Inr (_, ?t2)")
    by (simp add: badge_close_handle_def badge_open_index_def Let_def checked_add_def checked_sub_def)
  from history_close [OF 1 this] have 2: "badge_history [(?b, 5, IsolatedTask 7)] (\<lambda>b. 0) [] ?t2"
    by (simp add: fun_upd_idem)
  have "badge_take_closed ?t2 5 = (Inr (Some ?b), ?t2\<lparr>bt_slots := [?x\<lparr>bs_generation := 1\<rparr>], bt_pending_closed := 0,
      bt_closures_consumed := 1\<rparr>)"
    (is "_ = (_, ?t3)")
    by (simp add: badge_take_closed_def Let_def checked_add_def checked_sub_def try_into_def MAX_BADGE_GENERATION_def)
  note 3 = history_take [OF 2 this]
  from badge_events_exactly_once [OF 3] have "badge_view ?t3 ?b = None" by auto
  with 3 show ?thesis by (intro exI [of _ ?t3] exI [of _ "\<lambda>b. 0"]) simp
qed

end
