(* ===== verification/Pending.thy ===== *)
theory Pending
  imports Endpoint Badge "HOL-Library.Product_Lexorder"
begin

text \<open>
  Pending synchronous calls and the endpoint queues (\<open>troe-dispatch/src/pending.rs\<close>).
  The table owns lengths, slot identities, deadlines and counters. Its \<open>u32\<close> queue
  counter uses plain \<open>+= 1\<close> and \<open>-= 1\<close>; the invariant shows that neither bound is
  ever met, so the model uses natural-number arithmetic for it.
\<close>

section \<open>Calls\<close>

definition MAX_PENDING_CALLS :: nat where "MAX_PENDING_CALLS = 32"

definition MAX_QUEUED_PER_ENDPOINT :: nat where "MAX_QUEUED_PER_ENDPOINT = 8"

record call_id =
  ci_slot :: nat
  ci_generation :: nat

type_synonym queue_slot_id = nat

datatype admission = Direct | Queued

datatype call_outcome = FateReplied | FateCancelled | FateTimedOut | FatePeerDied

datatype call_state = CallQueued | CallDelivered | CallEnded call_outcome

record delivery =
  dl_call :: call_id
  dl_payload :: "queue_slot_id option"

record call_slot =
  cs_generation :: nat
  cs_retired :: bool
  cs_occupied :: bool
  cs_endpoint_slot :: nat
  cs_badge :: client_badge
  cs_interface :: u32
  cs_opcode :: u16
  cs_request_bytes :: nat
  cs_reply_capacity :: nat
  cs_deadline_millis :: nat
  cs_sequence :: nat
  cs_payload :: "queue_slot_id option"
  cs_state :: call_state

record pending_stats =
  ps_live :: nat
  ps_high_water :: nat
  ps_retained_bytes :: nat
  ps_retained_high_water :: nat
  ps_direct_admissions :: nat
  ps_queued_admissions :: nat
  ps_request_payload_copies :: nat
  ps_reply_payload_copies :: nat
  ps_queue_slots_consumed :: nat
  ps_replied :: nat
  ps_cancelled :: nat
  ps_timed_out :: nat
  ps_peer_died :: nat

record pending_table =
  pt_queued_live :: nat
  pt_slots :: "call_slot list"
  pt_free_queue_slots :: "queue_slot_id list"
  pt_loaned_queue_slots :: nat
  pt_retained_ceiling :: nat
  pt_next_sequence :: nat
  pt_stats :: pending_stats

section \<open>Construction and queries\<close>

definition empty_call_slot :: call_slot where
  "empty_call_slot = \<lparr>cs_generation = 0, cs_retired = False, cs_occupied = False, cs_endpoint_slot = 0,
     cs_badge = badge_none, cs_interface = 0, cs_opcode = 0, cs_request_bytes = 0, cs_reply_capacity = 0,
     cs_deadline_millis = 0, cs_sequence = 0, cs_payload = None, cs_state = CallQueued\<rparr>"

definition pending_new :: "bool \<Rightarrow> bool \<Rightarrow> nat \<Rightarrow> nat \<Rightarrow> (dispatch_error, pending_table) result" where
  "pending_new slots_ok queue_ok capacity retained_ceiling =
     (if capacity = 0 \<or> capacity > MAX_PENDING_CALLS \<or> retained_ceiling = 0
         \<or> retained_ceiling > MAX_RETAINED_REQUEST_BYTES
      then Inl InvalidCapacity
      else if \<not> slots_ok then Inl MetadataExhausted
      else if \<not> queue_ok then Inl MetadataExhausted
      else Inr \<lparr>pt_queued_live = 0, pt_slots = replicate capacity empty_call_slot,
             pt_free_queue_slots = [0..<capacity], pt_loaned_queue_slots = 0,
             pt_retained_ceiling = retained_ceiling, pt_next_sequence = 0,
             pt_stats = \<lparr>ps_live = 0, ps_high_water = 0, ps_retained_bytes = 0, ps_retained_high_water = 0,
               ps_direct_admissions = 0, ps_queued_admissions = 0, ps_request_payload_copies = 0,
               ps_reply_payload_copies = 0, ps_queue_slots_consumed = 0, ps_replied = 0, ps_cancelled = 0,
               ps_timed_out = 0, ps_peer_died = 0\<rparr>\<rparr>)"

definition queued_for :: "nat \<Rightarrow> call_slot \<Rightarrow> bool" where
  "queued_for endpoint_slot slot =
     (cs_occupied slot \<and> cs_endpoint_slot slot = endpoint_slot \<and> cs_state slot = CallQueued)"

definition oldest_queued :: "pending_table \<Rightarrow> nat \<Rightarrow> nat option" where
  "oldest_queued t endpoint_slot =
     (if pt_queued_live t = 0 then None
      else min_index_by (queued_for endpoint_slot) cs_sequence (pt_slots t))"

definition queued_at :: "pending_table \<Rightarrow> nat \<Rightarrow> nat" where
  "queued_at t endpoint_slot =
     (if pt_queued_live t = 0 then 0 else count_if (queued_for endpoint_slot) (pt_slots t))"

definition live_index :: "pending_table \<Rightarrow> call_id \<Rightarrow> (dispatch_error, nat) result" where
  "live_index t call =
     (let index = ci_slot call in
      if index \<ge> length (pt_slots t) then Inl InvalidCall
      else let record = pt_slots t ! index in
        if cs_retired record \<or> \<not> cs_occupied record \<or> cs_generation record \<noteq> ci_generation call
        then Inl InvalidCall
        else Inr index)"

definition pending_payload_slot ::
    "pending_table \<Rightarrow> call_id \<Rightarrow> (dispatch_error, queue_slot_id option) result" where
  "pending_payload_slot t call = rbind (live_index t call) (\<lambda>i. Inr (cs_payload (pt_slots t ! i)))"

definition pending_state :: "pending_table \<Rightarrow> call_id \<Rightarrow> (dispatch_error, call_state) result" where
  "pending_state t call = rbind (live_index t call) (\<lambda>i. Inr (cs_state (pt_slots t ! i)))"

definition pending_badge :: "pending_table \<Rightarrow> call_id \<Rightarrow> (dispatch_error, client_badge) result" where
  "pending_badge t call = rbind (live_index t call) (\<lambda>i. Inr (cs_badge (pt_slots t ! i)))"

definition next_queued :: "pending_table \<Rightarrow> nat \<Rightarrow> call_id option" where
  "next_queued t endpoint_slot =
     (case oldest_queued t endpoint_slot of
        None \<Rightarrow> None
      | Some index \<Rightarrow>
         (case try_into 32 index of
            None \<Rightarrow> None
          | Some slot \<Rightarrow> Some \<lparr>ci_slot = slot, ci_generation = cs_generation (pt_slots t ! index)\<rparr>))"

definition pending_due :: "pending_table \<Rightarrow> nat \<Rightarrow> call_id option" where
  "pending_due t now_millis =
     (case min_index_by
        (\<lambda>slot. cs_occupied slot \<and> (case cs_state slot of CallEnded _ \<Rightarrow> False | _ \<Rightarrow> True)
           \<and> cs_deadline_millis slot \<le> now_millis)
        (\<lambda>slot. (cs_deadline_millis slot, cs_sequence slot)) (pt_slots t) of
        None \<Rightarrow> None
      | Some index \<Rightarrow>
         (case try_into 32 index of
            None \<Rightarrow> None
          | Some slot \<Rightarrow> Some \<lparr>ci_slot = slot, ci_generation = cs_generation (pt_slots t ! index)\<rparr>))"

section \<open>Admission\<close>

text \<open>The queue slot and the retained bytes a queued admission would take.\<close>

definition admit_reservation ::
    "pending_table \<Rightarrow> nat \<Rightarrow> bool \<Rightarrow> (dispatch_error, (queue_slot_id \<times> nat) option) result" where
  "admit_reservation t request_bytes direct =
     (if direct then Inr None
      else rbind (ok_or AccountingOverflow
          (checked_add 32 (ps_retained_bytes (pt_stats t)) request_bytes)) (\<lambda>retained.
        if retained > pt_retained_ceiling t then Inl RetainedBytesExhausted
        else if pt_free_queue_slots t = [] then Inl QueueFull
        else Inr (Some (last (pt_free_queue_slots t), retained))))"

definition admit_queued :: "pending_table \<Rightarrow> queue_slot_id \<Rightarrow> nat \<Rightarrow> nat \<Rightarrow> pending_table" where
  "admit_queued t slot retained nonempty_request =
     t\<lparr>pt_queued_live := pt_queued_live t + 1,
       pt_free_queue_slots := filter (\<lambda>free. free \<noteq> slot) (pt_free_queue_slots t),
       pt_loaned_queue_slots := saturating_add 32 (pt_loaned_queue_slots t) 1,
       pt_stats := (pt_stats t)\<lparr>ps_retained_bytes := retained,
         ps_retained_high_water := max (ps_retained_high_water (pt_stats t)) retained,
         ps_queued_admissions := saturating_add 64 (ps_queued_admissions (pt_stats t)) 1,
         ps_queue_slots_consumed := saturating_add 64 (ps_queue_slots_consumed (pt_stats t)) 1,
         ps_request_payload_copies :=
           saturating_add 64 (ps_request_payload_copies (pt_stats t)) (min (nonempty_request * 2) (2 ^ 64 - 1))\<rparr>\<rparr>"

definition admit_direct :: "pending_table \<Rightarrow> nat \<Rightarrow> pending_table" where
  "admit_direct t nonempty_request =
     t\<lparr>pt_stats := (pt_stats t)\<lparr>
         ps_direct_admissions := saturating_add 64 (ps_direct_admissions (pt_stats t)) 1,
         ps_request_payload_copies :=
           saturating_add 64 (ps_request_payload_copies (pt_stats t)) nonempty_request\<rparr>\<rparr>"

text \<open>The writes of \<open>admit\<close>, after every check has passed.\<close>

definition admit_commit ::
    "pending_table \<Rightarrow> nat \<Rightarrow> nat \<Rightarrow> nat \<Rightarrow> nat \<Rightarrow> (queue_slot_id \<times> nat) option \<Rightarrow>
     nat \<Rightarrow> client_badge \<Rightarrow> u32 \<Rightarrow> u16 \<Rightarrow> nat \<Rightarrow> nat \<Rightarrow> nat \<Rightarrow> admission \<times> pending_table" where
  "admit_commit t index generation sequence live reservation endpoint_slot badge interface opcode request_bytes
     reply_capacity deadline_millis =
     (let nonempty_request = of_bool (request_bytes \<noteq> 0);
          state = (case reservation of None \<Rightarrow> CallDelivered | Some _ \<Rightarrow> CallQueued);
          admission = (case reservation of None \<Rightarrow> Direct | Some _ \<Rightarrow> Queued);
          record' = (pt_slots t ! index)\<lparr>cs_generation := generation, cs_occupied := True,
            cs_endpoint_slot := endpoint_slot, cs_badge := badge, cs_interface := interface,
            cs_opcode := opcode, cs_request_bytes := request_bytes, cs_reply_capacity := reply_capacity,
            cs_deadline_millis := deadline_millis, cs_sequence := sequence,
            cs_state := state, cs_payload := map_option fst reservation\<rparr>;
          t1 = t\<lparr>pt_slots := (pt_slots t)[index := record']\<rparr>;
          t2 = (case reservation of
                  None \<Rightarrow> admit_direct t1 nonempty_request
                | Some (slot, retained) \<Rightarrow> admit_queued t1 slot retained nonempty_request)
      in (admission,
          t2\<lparr>pt_next_sequence := sequence,
             pt_stats := (pt_stats t2)\<lparr>ps_live := live,
               ps_high_water := max (ps_high_water (pt_stats t2)) live\<rparr>\<rparr>))"

definition pending_admit ::
    "pending_table \<Rightarrow> nat \<Rightarrow> client_badge \<Rightarrow> u32 \<Rightarrow> u16 \<Rightarrow> nat \<Rightarrow> nat \<Rightarrow> nat \<Rightarrow> bool \<Rightarrow>
     (dispatch_error, (call_id \<times> admission) \<times> pending_table) result" where
  "pending_admit t endpoint_slot badge interface opcode request_bytes reply_capacity deadline_millis server_waiting =
     (if request_bytes > MAX_MESSAGE_BYTES \<or> reply_capacity > MAX_MESSAGE_BYTES then Inl MessageTooLarge
      else if deadline_millis = 0 then Inl InvalidDeadline
      else
      rbind (ok_or MessageTooLarge (try_into 16 request_bytes)) (\<lambda>request_bytes.
      rbind (ok_or MessageTooLarge (try_into 16 reply_capacity)) (\<lambda>reply_capacity.
      let direct = (server_waiting \<and> oldest_queued t endpoint_slot = None) in
      if \<not> direct \<and> queued_at t endpoint_slot \<ge> MAX_QUEUED_PER_ENDPOINT then Inl QueueFull
      else
      rbind (ok_or CallCapacityExhausted
        (position (\<lambda>slot. \<not> cs_retired slot \<and> \<not> cs_occupied slot) (pt_slots t))) (\<lambda>index.
      rbind (admit_reservation t request_bytes direct) (\<lambda>reservation.
      rbind (ok_or AccountingOverflow (checked_add 64 (pt_next_sequence t) 1)) (\<lambda>sequence.
      rbind (ok_or AccountingOverflow (checked_add 32 (ps_live (pt_stats t)) 1)) (\<lambda>live.
      rbind (ok_or AccountingOverflow (try_into 32 index)) (\<lambda>slot_index.
      let record = pt_slots t ! index in
      rbind (ok_or CallCapacityExhausted (checked_add 32 (cs_generation record) 1)) (\<lambda>generation.
      let (admission, t') = admit_commit t index generation sequence live reservation endpoint_slot badge interface
            opcode request_bytes reply_capacity deadline_millis
      in Inr ((\<lparr>ci_slot = slot_index, ci_generation = generation\<rparr>, admission), t'))))))))))"

section \<open>Delivery, completion and recycling\<close>

definition deliver_next ::
    "pending_table \<Rightarrow> nat \<Rightarrow> (dispatch_error, delivery option \<times> pending_table) result" where
  "deliver_next t endpoint_slot =
     (case oldest_queued t endpoint_slot of
        None \<Rightarrow> Inr (None, t)
      | Some index \<Rightarrow>
         (let record = pt_slots t ! index in
          rbind (ok_or AccountingOverflow (try_into 32 index)) (\<lambda>slot.
          rbind (ok_or AccountingOverflow
            (checked_sub (ps_retained_bytes (pt_stats t)) (cs_request_bytes record))) (\<lambda>retained.
          Inr (Some \<lparr>dl_call = \<lparr>ci_slot = slot, ci_generation = cs_generation record\<rparr>,
                     dl_payload = cs_payload record\<rparr>,
            t\<lparr>pt_slots := (pt_slots t)[index := record\<lparr>cs_state := CallDelivered, cs_payload := None\<rparr>],
              pt_queued_live := pt_queued_live t - 1,
              pt_stats := (pt_stats t)\<lparr>ps_retained_bytes := retained\<rparr>\<rparr>)))))"

definition count_fate :: "call_outcome \<Rightarrow> pending_stats \<Rightarrow> pending_stats" where
  "count_fate outcome s =
     (case outcome of
        FateReplied \<Rightarrow> s\<lparr>ps_replied := saturating_add 64 (ps_replied s) 1\<rparr>
      | FateCancelled \<Rightarrow> s\<lparr>ps_cancelled := saturating_add 64 (ps_cancelled s) 1\<rparr>
      | FateTimedOut \<Rightarrow> s\<lparr>ps_timed_out := saturating_add 64 (ps_timed_out s) 1\<rparr>
      | FatePeerDied \<Rightarrow> s\<lparr>ps_peer_died := saturating_add 64 (ps_peer_died s) 1\<rparr>)"

definition pending_complete ::
    "pending_table \<Rightarrow> call_id \<Rightarrow> call_outcome \<Rightarrow>
     (dispatch_error, queue_slot_id option \<times> pending_table) result" where
  "pending_complete t call outcome =
     rbind (live_index t call) (\<lambda>index.
     let record = pt_slots t ! index in
     if outcome = FateReplied \<and> cs_state record \<noteq> CallDelivered then Inl InvalidCall
     else
     let released = (case cs_payload record of Some _ \<Rightarrow> cs_request_bytes record | None \<Rightarrow> 0) in
     rbind (ok_or AccountingOverflow (checked_sub (ps_retained_bytes (pt_stats t)) released)) (\<lambda>retained.
     rbind (ok_or AccountingOverflow (checked_sub (ps_live (pt_stats t)) 1)) (\<lambda>live.
     let nonempty_reply = of_bool (outcome = FateReplied \<and> cs_reply_capacity record > 0);
         record' = record\<lparr>cs_state := CallEnded outcome, cs_payload := None, cs_occupied := False,
           cs_retired := (cs_generation record = 2 ^ 32 - 1 \<or> cs_retired record)\<rparr>
     in Inr (cs_payload record,
       t\<lparr>pt_queued_live := (if cs_state record = CallQueued then pt_queued_live t - 1 else pt_queued_live t),
         pt_slots := (pt_slots t)[index := record'],
         pt_stats := count_fate outcome ((pt_stats t)\<lparr>ps_retained_bytes := retained, ps_live := live,
           ps_reply_payload_copies := saturating_add 64 (ps_reply_payload_copies (pt_stats t)) nonempty_reply\<rparr>)\<rparr>))))"

definition pending_recycle ::
    "pending_table \<Rightarrow> queue_slot_id \<Rightarrow> (dispatch_error, pending_table) result" where
  "pending_recycle t slot =
     (if slot \<ge> length (pt_slots t) then Inl InvalidCall
      else if slot \<in> set (pt_free_queue_slots t) \<or> pt_loaned_queue_slots t = 0 then Inl InvalidCall
      else Inr (t\<lparr>pt_free_queue_slots := pt_free_queue_slots t @ [slot],
                 pt_loaned_queue_slots := pt_loaned_queue_slots t - 1\<rparr>))"

end
