(* ===== verification/Pending_Invariant.thy ===== *)
theory Pending_Invariant
  imports Pending
begin

text \<open>
  The invariant of the pending-call table and that every operation keeps it: exact
  counters, exact retained bytes, bounded queues, distinct admission numbers and
  accounted queue storage. It makes every accounting failure of the module unreachable
  except the exhaustion of the 64-bit admission counter.
\<close>

section \<open>Invariant\<close>

abbreviation cs_queued :: "call_slot \<Rightarrow> bool" where
  "cs_queued x \<equiv> cs_occupied x \<and> cs_state x = CallQueued"

definition retained_by :: "call_slot \<Rightarrow> nat" where
  "retained_by x = (if cs_queued x then cs_request_bytes x else 0)"

definition call_slot_ok :: "nat \<Rightarrow> call_slot \<Rightarrow> bool" where
  "call_slot_ok n x \<longleftrightarrow> cs_generation x < 2 ^ 32 \<and>
     (cs_retired x \<longrightarrow> \<not> cs_occupied x) \<and>
     (\<not> cs_occupied x \<and> \<not> cs_retired x \<longrightarrow> cs_generation x < 2 ^ 32 - 1) \<and>
     (cs_payload x \<noteq> None \<longleftrightarrow> cs_queued x) \<and>
     (cs_occupied x \<longrightarrow> (cs_state x = CallQueued \<or> cs_state x = CallDelivered) \<and>
        0 < cs_generation x \<and> 0 < cs_sequence x \<and> cs_sequence x \<le> n \<and>
        cs_request_bytes x \<le> MAX_MESSAGE_BYTES \<and> 0 < cs_deadline_millis x)"

definition sequences_distinct :: "call_slot list \<Rightarrow> bool" where
  "sequences_distinct xs \<longleftrightarrow> (\<forall>i<length xs. \<forall>j<length xs.
     cs_occupied (xs ! i) \<and> cs_occupied (xs ! j) \<and> cs_sequence (xs ! i) = cs_sequence (xs ! j) \<longrightarrow> i = j)"

definition fates :: "pending_stats \<Rightarrow> nat" where
  "fates s = ps_replied s + ps_cancelled s + ps_timed_out s + ps_peer_died s"

definition pending_counts_ok :: "pending_table \<Rightarrow> bool" where
  "pending_counts_ok t \<longleftrightarrow>
     pt_next_sequence t < 2 ^ 64 \<and>
     pt_next_sequence t = ps_live (pt_stats t) + fates (pt_stats t) \<and>
     pt_next_sequence t = ps_direct_admissions (pt_stats t) + ps_queued_admissions (pt_stats t) \<and>
     ps_queue_slots_consumed (pt_stats t) = ps_queued_admissions (pt_stats t) \<and>
     ps_live (pt_stats t) \<le> ps_high_water (pt_stats t) \<and> ps_high_water (pt_stats t) \<le> length (pt_slots t)"

definition queue_storage_ok :: "pending_table \<Rightarrow> bool" where
  "queue_storage_ok t \<longleftrightarrow> distinct (pt_free_queue_slots t) \<and>
     (\<forall>q\<in>set (pt_free_queue_slots t). q < length (pt_slots t)) \<and>
     pt_loaned_queue_slots t + length (pt_free_queue_slots t) = length (pt_slots t)"

definition pending_ok :: "pending_table \<Rightarrow> bool" where
  "pending_ok t \<longleftrightarrow> 0 < length (pt_slots t) \<and> length (pt_slots t) \<le> MAX_PENDING_CALLS \<and>
     pt_retained_ceiling t \<le> MAX_RETAINED_REQUEST_BYTES \<and>
     (\<forall>x\<in>set (pt_slots t). call_slot_ok (pt_next_sequence t) x) \<and>
     sequences_distinct (pt_slots t) \<and>
     (\<forall>e. count_if (queued_for e) (pt_slots t) \<le> MAX_QUEUED_PER_ENDPOINT) \<and>
     pt_queued_live t = count_if cs_queued (pt_slots t) \<and>
     ps_live (pt_stats t) = count_if cs_occupied (pt_slots t) \<and>
     ps_retained_bytes (pt_stats t) = sum_list (map retained_by (pt_slots t)) \<and>
     ps_retained_bytes (pt_stats t) \<le> pt_retained_ceiling t \<and>
     pending_counts_ok t \<and> queue_storage_ok t"

lemma pending_new_ok: "pending_new slots_ok queue_ok capacity ceiling = Inr t \<Longrightarrow> pending_ok t"
  by (auto simp: pending_new_def pending_ok_def call_slot_ok_def sequences_distinct_def empty_call_slot_def
      pending_counts_ok_def queue_storage_ok_def fates_def retained_by_def queued_for_def sum_list_replicate
      split: if_splits)

lemma call_slotD: "pending_ok t \<Longrightarrow> i < length (pt_slots t) \<Longrightarrow> call_slot_ok (pt_next_sequence t) (pt_slots t ! i)"
  by (auto simp: pending_ok_def)

lemma call_slot_ok_mono: "call_slot_ok n x \<Longrightarrow> n \<le> m \<Longrightarrow> call_slot_ok m x"
  by (auto simp: call_slot_ok_def)

lemma sequences_distinct_update:
  assumes "sequences_distinct xs"
    and "\<And>j. cs_occupied y \<Longrightarrow> j < length xs \<Longrightarrow> j \<noteq> i \<Longrightarrow> cs_occupied (xs ! j) \<Longrightarrow> cs_sequence (xs ! j) \<noteq> cs_sequence y"
  shows "sequences_distinct (xs[i := y])"
  unfolding sequences_distinct_def
proof (intro allI impI)
  fix j k
  assume jk: "j < length (xs[i := y])" "k < length (xs[i := y])"
    and same: "cs_occupied (xs[i := y] ! j) \<and> cs_occupied (xs[i := y] ! k) \<and>
      cs_sequence (xs[i := y] ! j) = cs_sequence (xs[i := y] ! k)"
  show "j = k"
    using jk same assms by (cases "j = i"; cases "k = i") (auto simp: sequences_distinct_def)
qed

text \<open>One call slot changes: what has to be checked for the invariant to survive.\<close>

lemma pending_ok_update:
  assumes ok: "pending_ok t" and i: "i < length (pt_slots t)"
    and seq: "pt_next_sequence t \<le> pt_next_sequence t'"
    and y: "call_slot_ok (pt_next_sequence t') y"
    and dist: "\<And>j. cs_occupied y \<Longrightarrow> j < length (pt_slots t) \<Longrightarrow> j \<noteq> i \<Longrightarrow> cs_occupied (pt_slots t ! j) \<Longrightarrow>
      cs_sequence (pt_slots t ! j) \<noteq> cs_sequence y"
    and room: "cs_queued y \<Longrightarrow> count_if (queued_for (cs_endpoint_slot y)) (pt_slots t) < MAX_QUEUED_PER_ENDPOINT"
    and s': "pt_slots t' = (pt_slots t)[i := y]" and c': "pt_retained_ceiling t' = pt_retained_ceiling t"
    and q': "pt_queued_live t' + of_bool (cs_queued (pt_slots t ! i)) = pt_queued_live t + of_bool (cs_queued y)"
    and l': "ps_live (pt_stats t') + of_bool (cs_occupied (pt_slots t ! i)) = ps_live (pt_stats t) + of_bool (cs_occupied y)"
    and r': "ps_retained_bytes (pt_stats t') + retained_by (pt_slots t ! i) = ps_retained_bytes (pt_stats t) + retained_by y"
    and ceil: "ps_retained_bytes (pt_stats t') \<le> pt_retained_ceiling t"
    and counts: "pending_counts_ok t'" and storage: "queue_storage_ok t'"
  shows "pending_ok t'"
proof -
  have "count_if (queued_for e) (pt_slots t') \<le> MAX_QUEUED_PER_ENDPOINT" for e
  proof -
    let ?c = "count_if (queued_for e) (pt_slots t)"
    have upd: "count_if (queued_for e) (pt_slots t') + of_bool (queued_for e (pt_slots t ! i)) = ?c + of_bool (queued_for e y)"
      unfolding s' by (rule count_if_update [OF i])
    have le: "?c \<le> MAX_QUEUED_PER_ENDPOINT" using ok by (simp add: pending_ok_def)
    have "\<not> queued_for e y \<or> ?c < MAX_QUEUED_PER_ENDPOINT" using room by (auto simp: queued_for_def)
    then show ?thesis
    proof
      assume "\<not> queued_for e y"
      with upd le show ?thesis by simp
    next
      assume "?c < MAX_QUEUED_PER_ENDPOINT"
      with upd show ?thesis by (cases "queued_for e y") simp_all
    qed
  qed
  moreover have "pt_queued_live t' = count_if cs_queued (pt_slots t')"
    using count_if_update [OF i, of cs_queued y] q' ok unfolding s' pending_ok_def by linarith
  moreover have "ps_live (pt_stats t') = count_if cs_occupied (pt_slots t')"
    using count_if_update [OF i, of cs_occupied y] l' ok unfolding s' pending_ok_def by linarith
  moreover have "ps_retained_bytes (pt_stats t') = sum_list (map retained_by (pt_slots t'))"
    using sum_list_update_nat [OF i, of retained_by y] r' ok unfolding s' pending_ok_def by linarith
  moreover have "\<forall>x\<in>set (pt_slots t'). call_slot_ok (pt_next_sequence t') x"
    using ok y seq call_slot_ok_mono unfolding s' pending_ok_def by (auto dest!: set_update_subset_insert [THEN subsetD])
  moreover have "sequences_distinct (pt_slots t')"
    unfolding s' using ok dist by (intro sequences_distinct_update) (auto simp: pending_ok_def)
  ultimately show ?thesis
    using ok ceil counts storage unfolding pending_ok_def by (simp add: s' c')
qed

lemma queued_shortcuts:
  assumes "pending_ok t"
  shows "queued_at t e = count_if (queued_for e) (pt_slots t)"
    "oldest_queued t e = min_index_by (queued_for e) cs_sequence (pt_slots t)"
proof -
  have "\<not> queued_for e x" if "pt_queued_live t = 0" "x \<in> set (pt_slots t)" for x
    using assms that count_if_pos_iff [of cs_queued "pt_slots t"] by (auto simp: pending_ok_def queued_for_def)
  then show "queued_at t e = count_if (queued_for e) (pt_slots t)"
    "oldest_queued t e = min_index_by (queued_for e) cs_sequence (pt_slots t)"
    using count_if_pos_iff [of "queued_for e" "pt_slots t"]
    by (auto simp: queued_at_def oldest_queued_def min_index_by_None_iff eq_commute [of None])
qed

section \<open>Admission keeps the invariant\<close>

abbreviation cs_available :: "call_slot \<Rightarrow> bool" where
  "cs_available x \<equiv> \<not> cs_retired x \<and> \<not> cs_occupied x"

definition admitted_slot ::
    "call_slot \<Rightarrow> nat \<Rightarrow> client_badge \<Rightarrow> u32 \<Rightarrow> u16 \<Rightarrow> nat \<Rightarrow> nat \<Rightarrow> nat \<Rightarrow> nat \<Rightarrow> queue_slot_id option \<Rightarrow> call_slot" where
  "admitted_slot x e badge interface opcode request reply deadline sequence payload =
     x\<lparr>cs_generation := cs_generation x + 1, cs_occupied := True,
       cs_endpoint_slot := e, cs_badge := badge, cs_interface := interface, cs_opcode := opcode,
       cs_request_bytes := request, cs_reply_capacity := reply, cs_deadline_millis := deadline,
       cs_sequence := sequence,
       cs_state := (if payload = None then CallDelivered else CallQueued), cs_payload := payload\<rparr>"

lemma admit_commit_fields:
  assumes "admit_commit t i (cs_generation (pt_slots t ! i) + 1) (pt_next_sequence t + 1) (ps_live (pt_stats t) + 1) r
      e badge interface opcode request reply deadline = (adm, t')"
  shows "adm = (if r = None then Direct else Queued) \<and>
    pt_slots t' = (pt_slots t)[i := admitted_slot (pt_slots t ! i) e badge interface opcode request reply deadline
       (pt_next_sequence t + 1) (map_option fst r)] \<and>
    pt_next_sequence t' = pt_next_sequence t + 1 \<and>
    pt_retained_ceiling t' = pt_retained_ceiling t \<and>
    pt_queued_live t' = pt_queued_live t + of_bool (r \<noteq> None) \<and>
    pt_free_queue_slots t' = (case r of None \<Rightarrow> pt_free_queue_slots t
       | Some (q, _) \<Rightarrow> filter (\<lambda>free. free \<noteq> q) (pt_free_queue_slots t)) \<and>
    pt_loaned_queue_slots t' = (if r = None then pt_loaned_queue_slots t else saturating_add 32 (pt_loaned_queue_slots t) 1) \<and>
    ps_live (pt_stats t') = ps_live (pt_stats t) + 1 \<and>
    ps_high_water (pt_stats t') = max (ps_high_water (pt_stats t)) (ps_live (pt_stats t) + 1) \<and>
    ps_retained_bytes (pt_stats t') = (case r of None \<Rightarrow> ps_retained_bytes (pt_stats t) | Some (_, n) \<Rightarrow> n) \<and>
    ps_direct_admissions (pt_stats t') = (if r = None then saturating_add 64 (ps_direct_admissions (pt_stats t)) 1
       else ps_direct_admissions (pt_stats t)) \<and>
    ps_queued_admissions (pt_stats t') = (if r = None then ps_queued_admissions (pt_stats t)
       else saturating_add 64 (ps_queued_admissions (pt_stats t)) 1) \<and>
    ps_queue_slots_consumed (pt_stats t') = (if r = None then ps_queue_slots_consumed (pt_stats t)
       else saturating_add 64 (ps_queue_slots_consumed (pt_stats t)) 1) \<and>
    ps_request_payload_copies (pt_stats t') = saturating_add 64 (ps_request_payload_copies (pt_stats t))
       (of_bool (request \<noteq> 0) * (if r = None then 1 else 2)) \<and>
    fates (pt_stats t') = fates (pt_stats t) \<and>
    ps_reply_payload_copies (pt_stats t') = ps_reply_payload_copies (pt_stats t)"
  using assms
  by (cases r) (auto simp: Let_def admitted_slot_def admit_commit_def admit_direct_def admit_queued_def fates_def)

lemma pending_admit_Inr:
  assumes "pending_admit t e badge interface opcode request reply deadline waiting = Inr ((call, adm), t')"
  obtains i r where
    "request \<le> MAX_MESSAGE_BYTES" "reply \<le> MAX_MESSAGE_BYTES" "0 < deadline"
    "position cs_available (pt_slots t) = Some i"
    "admit_reservation t request (waiting \<and> oldest_queued t e = None) = Inr r"
    "\<not> (waiting \<and> oldest_queued t e = None) \<Longrightarrow> queued_at t e < MAX_QUEUED_PER_ENDPOINT"
    "pt_next_sequence t + 1 < 2 ^ 64"
    "call = \<lparr>ci_slot = i, ci_generation = cs_generation (pt_slots t ! i) + 1\<rparr>"
    "admit_commit t i (cs_generation (pt_slots t ! i) + 1) (pt_next_sequence t + 1) (ps_live (pt_stats t) + 1) r
       e badge interface opcode request reply deadline = (adm, t')"
proof -
  let ?direct = "waiting \<and> oldest_queued t e = None"
  from assms obtain i r where size: "request \<le> MAX_MESSAGE_BYTES" "reply \<le> MAX_MESSAGE_BYTES" "0 < deadline"
    and p: "position cs_available (pt_slots t) = Some i"
    and r: "admit_reservation t request ?direct = Inr r"
    and room: "\<not> ?direct \<Longrightarrow> queued_at t e < MAX_QUEUED_PER_ENDPOINT"
    and seq: "pt_next_sequence t + 1 < 2 ^ 64"
    and rest: "admit_commit t i (cs_generation (pt_slots t ! i) + 1) (pt_next_sequence t + 1) (ps_live (pt_stats t) + 1) r
        e badge interface opcode request reply deadline = (adm, t')"
    and call: "call = \<lparr>ci_slot = i, ci_generation = cs_generation (pt_slots t ! i) + 1\<rparr>"
    unfolding pending_admit_def
    by (auto simp: result_simps checked_simps Let_def not_less split_beta prod_eq_iff split: if_splits)
  show thesis by (rule that [OF size p r _ seq call rest]) (use room in blast)
qed

lemma admit_reservation_cases:
  assumes "pending_ok t" "admit_reservation t request direct = Inr r" "request \<le> MAX_MESSAGE_BYTES"
  obtains "direct" "r = None"
  | "\<not> direct" "r = Some (last (pt_free_queue_slots t), ps_retained_bytes (pt_stats t) + request)"
      "pt_free_queue_slots t \<noteq> []" "ps_retained_bytes (pt_stats t) + request \<le> pt_retained_ceiling t"
  using assms(2) by (auto simp: admit_reservation_def result_simps checked_simps split: if_splits)

lemma pending_admit_ok:
  assumes ok: "pending_ok t"
    and admit: "pending_admit t e badge interface opcode request reply deadline waiting = Inr ((call, adm), t')"
  shows "pending_ok t'"
proof -
  obtain i r where size: "request \<le> MAX_MESSAGE_BYTES" "reply \<le> MAX_MESSAGE_BYTES" "0 < deadline"
    and p: "position cs_available (pt_slots t) = Some i"
    and r: "admit_reservation t request (waiting \<and> oldest_queued t e = None) = Inr r"
    and room: "\<not> (waiting \<and> oldest_queued t e = None) \<Longrightarrow> queued_at t e < MAX_QUEUED_PER_ENDPOINT"
    and seq: "pt_next_sequence t + 1 < 2 ^ 64"
    and commit: "admit_commit t i (cs_generation (pt_slots t ! i) + 1) (pt_next_sequence t + 1) (ps_live (pt_stats t) + 1) r
       e badge interface opcode request reply deadline = (adm, t')"
    by (rule pending_admit_Inr [OF admit]) blast
  note f = admit_commit_fields [OF commit]
  from position_SomeD [OF p] have i: "i < length (pt_slots t)" and av: "cs_available (pt_slots t ! i)" by auto
  note x = call_slotD [OF ok i]
  have len: "length (pt_slots t) \<le> 32" using ok by (simp add: pending_ok_def MAX_PENDING_CALLS_def)
  let ?y = "admitted_slot (pt_slots t ! i) e badge interface opcode request reply deadline
       (pt_next_sequence t + 1) (map_option fst r)"
  have live: "ps_live (pt_stats t) < length (pt_slots t)"
    using count_if_less_length_nth [OF i, of cs_occupied] av ok by (simp add: pending_ok_def)
  have c: "pending_counts_ok t" and st: "queue_storage_ok t" using ok by (simp_all add: pending_ok_def)
  have y: "call_slot_ok (pt_next_sequence t') ?y"
    using x av size f by (auto simp: call_slot_ok_def admitted_slot_def)
  have dist: "cs_sequence (pt_slots t ! j) \<noteq> cs_sequence ?y" if "j < length (pt_slots t)" "cs_occupied (pt_slots t ! j)" for j
    using call_slotD [OF ok that(1)] that(2) by (simp add: call_slot_ok_def admitted_slot_def)
  have q: "cs_queued ?y \<longleftrightarrow> r \<noteq> None" by (auto simp: admitted_slot_def)
  show ?thesis
  proof (rule pending_ok_update [OF ok i _ y dist])
    show "count_if (queued_for (cs_endpoint_slot ?y)) (pt_slots t) < MAX_QUEUED_PER_ENDPOINT" if "cs_queued ?y"
      using that q r room queued_shortcuts(1) [OF ok, of e]
      by (auto simp: admitted_slot_def admit_reservation_def split: if_splits)
    show "pending_counts_ok t'"
      using c f seq live i unfolding pending_counts_ok_def
      by (cases r) (auto simp: saturating_add_exact)
    have sl: "Suc (a + (length (pt_free_queue_slots t) - Suc 0)) = a + length (pt_free_queue_slots t)"
      if "pt_free_queue_slots t \<noteq> []" for a using that by (cases "pt_free_queue_slots t") auto
    from admit_reservation_cases [OF ok r size(1)] show "queue_storage_ok t'"
      using st f len by cases (auto simp: sl queue_storage_ok_def filter_last_butlast saturating_add_exact distinct_butlast
        dest: in_set_butlastD)
    from admit_reservation_cases [OF ok r size(1)] show "ps_retained_bytes (pt_stats t') \<le> pt_retained_ceiling t"
      using ok f by cases (auto simp: pending_ok_def)
    from admit_reservation_cases [OF ok r size(1)]
    show "ps_retained_bytes (pt_stats t') + retained_by (pt_slots t ! i) = ps_retained_bytes (pt_stats t) + retained_by ?y"
      using av f by cases (auto simp: retained_by_def admitted_slot_def)
  qed (use f av q in \<open>auto simp: admitted_slot_def\<close>)
qed

section \<open>Delivery, completion and recycling keep the invariant\<close>

lemma oldest_queuedD:
  assumes ok: "pending_ok t" and o: "oldest_queued t e = Some i"
  shows "i < length (pt_slots t) \<and> cs_queued (pt_slots t ! i) \<and> cs_endpoint_slot (pt_slots t ! i) = e \<and>
    (\<forall>j<length (pt_slots t). queued_for e (pt_slots t ! j) \<longrightarrow> cs_sequence (pt_slots t ! i) \<le> cs_sequence (pt_slots t ! j))"
  using min_index_by_SomeD [OF o [unfolded queued_shortcuts [OF ok]]] by (auto simp: queued_for_def)

lemma retained_le:
  assumes ok: "pending_ok t" and i: "i < length (pt_slots t)"
  shows "retained_by (pt_slots t ! i) \<le> ps_retained_bytes (pt_stats t)"
  using ok member_le_sum_list [of "retained_by (pt_slots t ! i)" "map retained_by (pt_slots t)"] i
  by (simp add: pending_ok_def)

lemma retained_ceiling: "pending_ok t \<Longrightarrow> ps_retained_bytes (pt_stats t) \<le> pt_retained_ceiling t"
  by (simp add: pending_ok_def)

lemma deliver_next_Some:
  assumes ok: "pending_ok t" and o: "oldest_queued t e = Some i"
  shows "\<exists>t'. deliver_next t e = Inr (Some \<lparr>dl_call = \<lparr>ci_slot = i, ci_generation = cs_generation (pt_slots t ! i)\<rparr>,
      dl_payload = cs_payload (pt_slots t ! i)\<rparr>, t') \<and> pending_ok t' \<and>
    pt_slots t' = (pt_slots t)[i := (pt_slots t ! i)\<lparr>cs_state := CallDelivered, cs_payload := None\<rparr>] \<and>
    pt_free_queue_slots t' = pt_free_queue_slots t \<and> pt_next_sequence t' = pt_next_sequence t \<and>
    fates (pt_stats t') = fates (pt_stats t)"
proof -
  from oldest_queuedD [OF ok o] have i: "i < length (pt_slots t)" and q: "cs_queued (pt_slots t ! i)" by auto
  note x = call_slotD [OF ok i]
  have i32: "i < 2 ^ 32" using i ok by (simp add: pending_ok_def MAX_PENDING_CALLS_def)
  have rel: "cs_request_bytes (pt_slots t ! i) \<le> ps_retained_bytes (pt_stats t)"
    using retained_le [OF ok i] q by (simp add: retained_by_def)
  have pos: "0 < pt_queued_live t"
    using count_if_pos_nth [OF i, of cs_queued] q ok by (simp add: pending_ok_def)
  let ?y = "(pt_slots t ! i)\<lparr>cs_state := CallDelivered, cs_payload := None\<rparr>"
  let ?t = "t\<lparr>pt_slots := (pt_slots t)[i := ?y], pt_queued_live := pt_queued_live t - 1,
      pt_stats := (pt_stats t)\<lparr>ps_retained_bytes := ps_retained_bytes (pt_stats t) - cs_request_bytes (pt_slots t ! i)\<rparr>\<rparr>"
  have eq: "deliver_next t e = Inr (Some \<lparr>dl_call = \<lparr>ci_slot = i, ci_generation = cs_generation (pt_slots t ! i)\<rparr>,
      dl_payload = cs_payload (pt_slots t ! i)\<rparr>, ?t)"
    using o i32 rel by (simp add: deliver_next_def try_into_def checked_sub_def Let_def)
  have "pending_ok ?t"
  proof (rule pending_ok_update [OF ok i])
    show "call_slot_ok (pt_next_sequence ?t) ?y" using x q by (auto simp: call_slot_ok_def)
    show "ps_retained_bytes (pt_stats ?t) \<le> pt_retained_ceiling t"
      using retained_ceiling [OF ok] by simp
    show "pending_counts_ok ?t" using ok by (simp add: pending_ok_def pending_counts_ok_def fates_def)
    show "queue_storage_ok ?t" using ok by (simp add: pending_ok_def queue_storage_ok_def)
    show "cs_sequence (pt_slots t ! j) \<noteq> cs_sequence ?y"
      if "j < length (pt_slots t)" "j \<noteq> i" "cs_occupied (pt_slots t ! j)" for j
      using ok i that q by (auto simp: pending_ok_def sequences_distinct_def)
  qed (use q pos rel in \<open>auto simp: retained_by_def\<close>)
  with eq show ?thesis by (intro exI [of _ ?t]) (simp add: fates_def)
qed

lemma live_index_Inr_iff:
  "live_index t call = Inr i \<longleftrightarrow> i = ci_slot call \<and> i < length (pt_slots t) \<and> \<not> cs_retired (pt_slots t ! i) \<and>
     cs_occupied (pt_slots t ! i) \<and> cs_generation (pt_slots t ! i) = ci_generation call"
  by (auto simp: live_index_def Let_def)

lemma count_fate_fields [simp]:
  "ps_live (count_fate f s) = ps_live s" "ps_high_water (count_fate f s) = ps_high_water s"
  "ps_retained_bytes (count_fate f s) = ps_retained_bytes s"
  "ps_direct_admissions (count_fate f s) = ps_direct_admissions s"
  "ps_queued_admissions (count_fate f s) = ps_queued_admissions s"
  "ps_queue_slots_consumed (count_fate f s) = ps_queue_slots_consumed s"
  by (simp_all add: count_fate_def split: call_outcome.splits)

lemma fates_count_fate: "fates s + 1 < 2 ^ 64 \<Longrightarrow> fates (count_fate f s) = fates s + 1"
  by (cases f) (auto simp: count_fate_def fates_def saturating_add_def)

lemma pending_complete_Some:
  assumes ok: "pending_ok t" and live: "live_index t call = Inr i"
    and reply: "\<not> (outcome = FateReplied \<and> cs_state (pt_slots t ! i) \<noteq> CallDelivered)"
  shows "\<exists>t'. pending_complete t call outcome = Inr (cs_payload (pt_slots t ! i), t') \<and> pending_ok t' \<and>
    pt_slots t' = (pt_slots t)[i := (pt_slots t ! i)\<lparr>cs_state := CallEnded outcome, cs_payload := None,
      cs_occupied := False, cs_retired := (cs_generation (pt_slots t ! i) = 2 ^ 32 - 1)\<rparr>] \<and>
    pt_free_queue_slots t' = pt_free_queue_slots t \<and> pt_next_sequence t' = pt_next_sequence t \<and>
    fates (pt_stats t') = fates (pt_stats t) + 1"
proof -
  from live have i: "i < length (pt_slots t)" and occ: "cs_occupied (pt_slots t ! i)" "\<not> cs_retired (pt_slots t ! i)"
    by (auto simp: live_index_Inr_iff)
  note x = call_slotD [OF ok i]
  let ?x = "pt_slots t ! i"
  have payload: "(case cs_payload ?x of Some _ \<Rightarrow> cs_request_bytes ?x | None \<Rightarrow> 0) = retained_by ?x"
    using x by (auto simp: call_slot_ok_def retained_by_def split: option.splits)
  have rel: "retained_by ?x \<le> ps_retained_bytes (pt_stats t)" by (rule retained_le [OF ok i])
  have pos: "0 < ps_live (pt_stats t)"
    using count_if_pos_nth [OF i, of cs_occupied] occ ok by (simp add: pending_ok_def)
  have qpos: "0 < pt_queued_live t" if "cs_state ?x = CallQueued"
    using count_if_pos_nth [OF i, of cs_queued] that occ ok by (simp add: pending_ok_def)
  let ?y = "?x\<lparr>cs_state := CallEnded outcome, cs_payload := None, cs_occupied := False,
      cs_retired := (cs_generation ?x = 2 ^ 32 - 1)\<rparr>"
  let ?s = "(pt_stats t)\<lparr>ps_retained_bytes := ps_retained_bytes (pt_stats t) - retained_by ?x,
      ps_live := ps_live (pt_stats t) - 1, ps_reply_payload_copies := saturating_add 64
        (ps_reply_payload_copies (pt_stats t)) (of_bool (outcome = FateReplied \<and> cs_reply_capacity ?x > 0))\<rparr>"
  let ?t = "t\<lparr>pt_queued_live := (if cs_state ?x = CallQueued then pt_queued_live t - 1 else pt_queued_live t),
      pt_slots := (pt_slots t)[i := ?y], pt_stats := count_fate outcome ?s\<rparr>"
  have eq: "pending_complete t call outcome = Inr (cs_payload ?x, ?t)"
    using live reply rel pos occ by (simp add: pending_complete_def payload checked_sub_def Let_def)
  have "pt_next_sequence t = ps_live (pt_stats t) + fates (pt_stats t)" "pt_next_sequence t < 2 ^ 64"
    using ok by (simp_all add: pending_ok_def pending_counts_ok_def)
  then have f: "fates (pt_stats ?t) = fates (pt_stats t) + 1"
    using pos fates_count_fate [of ?s outcome] by (simp add: fates_def)
  have "pending_ok ?t"
  proof (rule pending_ok_update [OF ok i])
    show "call_slot_ok (pt_next_sequence ?t) ?y" using x by (auto simp: call_slot_ok_def)
    show "ps_retained_bytes (pt_stats ?t) \<le> pt_retained_ceiling t"
      using retained_ceiling [OF ok] by simp
    have "pending_counts_ok t" using ok by (simp add: pending_ok_def)
    then show "pending_counts_ok ?t" using pos f by (auto simp: pending_counts_ok_def)
    show "queue_storage_ok ?t" using ok by (simp add: pending_ok_def queue_storage_ok_def)
    show "ps_retained_bytes (pt_stats ?t) + retained_by ?x = ps_retained_bytes (pt_stats t) + retained_by ?y"
      using rel by (simp add: retained_by_def)
  qed (use occ pos qpos in auto)
  with eq f show ?thesis by (intro exI [of _ ?t]) simp
qed

lemma pending_complete_refused:
  assumes "pending_complete t call outcome = Inr r"
  obtains i where "live_index t call = Inr i" "\<not> (outcome = FateReplied \<and> cs_state (pt_slots t ! i) \<noteq> CallDelivered)"
  using assms by (cases "live_index t call") (auto simp: pending_complete_def Let_def split: if_splits)

lemma pending_recycle_ok:
  assumes ok: "pending_ok t" and r: "pending_recycle t q = Inr t'"
  shows "pending_ok t' \<and> pt_slots t' = pt_slots t"
proof -
  from r have q: "q < length (pt_slots t)" "q \<notin> set (pt_free_queue_slots t)" "pt_loaned_queue_slots t \<noteq> 0"
    and t': "t' = t\<lparr>pt_free_queue_slots := pt_free_queue_slots t @ [q], pt_loaned_queue_slots := pt_loaned_queue_slots t - 1\<rparr>"
    by (auto simp: pending_recycle_def split: if_splits)
  then have "queue_storage_ok t'" using ok by (auto simp: pending_ok_def queue_storage_ok_def)
  moreover have "pending_counts_ok t'" using ok by (simp add: pending_ok_def pending_counts_ok_def t')
  ultimately show ?thesis using ok by (simp add: pending_ok_def t')
qed

section \<open>Steps\<close>

inductive pending_step :: "pending_table \<Rightarrow> pending_table \<Rightarrow> bool" where
  pending_step_admit: "pending_admit t e badge interface opcode request reply deadline waiting = Inr (r, t') \<Longrightarrow>
    pending_step t t'"
| pending_step_deliver: "deliver_next t e = Inr (d, t') \<Longrightarrow> pending_step t t'"
| pending_step_complete: "pending_complete t call outcome = Inr (p, t') \<Longrightarrow> pending_step t t'"
| pending_step_recycle: "pending_recycle t q = Inr t' \<Longrightarrow> pending_step t t'"

definition call_floor :: "call_slot \<Rightarrow> nat" where
  "call_floor x = cs_generation x + of_bool (\<not> cs_occupied x)"

lemma admit_slots:
  assumes "pending_admit t e badge interface opcode request reply deadline waiting = Inr ((call, adm), t')"
  obtains i payload where "i < length (pt_slots t)" "cs_available (pt_slots t ! i)"
    "call = \<lparr>ci_slot = i, ci_generation = cs_generation (pt_slots t ! i) + 1\<rparr>"
    "pt_slots t' = (pt_slots t)[i := admitted_slot (pt_slots t ! i) e badge interface opcode request reply deadline
       (pt_next_sequence t + 1) payload]"
    "pt_next_sequence t' = pt_next_sequence t + 1" "fates (pt_stats t') = fates (pt_stats t)"
    "adm = Direct \<longleftrightarrow> payload = None" "adm = Direct \<longleftrightarrow> waiting \<and> oldest_queued t e = None"
proof (rule pending_admit_Inr [OF assms], goal_cases)
  case (1 i r)
  note f = admit_commit_fields [OF 1(10)]
  show thesis
  proof (rule that [of i "map_option fst r"])
    show "adm = Direct \<longleftrightarrow> waiting \<and> oldest_queued t e = None"
      using f 1(6) by (auto simp: admit_reservation_def result_simps split: if_splits)
  qed (use f 1 position_SomeD [OF 1(5)] in auto)
qed

lemma deliver_next_cases:
  assumes ok: "pending_ok t" and d: "deliver_next t e = Inr (d, t')"
  obtains "d = None" "t' = t" "oldest_queued t e = None"
  | i where "oldest_queued t e = Some i" "d = Some \<lparr>dl_call = \<lparr>ci_slot = i, ci_generation = cs_generation (pt_slots t ! i)\<rparr>,
      dl_payload = cs_payload (pt_slots t ! i)\<rparr>" "pending_ok t'"
      "pt_slots t' = (pt_slots t)[i := (pt_slots t ! i)\<lparr>cs_state := CallDelivered, cs_payload := None\<rparr>]"
      "pt_free_queue_slots t' = pt_free_queue_slots t"
      "pt_next_sequence t' = pt_next_sequence t" "fates (pt_stats t') = fates (pt_stats t)"
proof (cases "oldest_queued t e")
  case None
  with d that(1) show thesis by (simp add: deliver_next_def)
next
  case (Some i)
  from deliver_next_Some [OF ok Some] d show thesis by (auto intro!: that(2) [OF Some])
qed

lemma complete_cases:
  assumes ok: "pending_ok t" and c: "pending_complete t call outcome = Inr (p, t')"
  obtains i where "live_index t call = Inr i" "p = cs_payload (pt_slots t ! i)" "pending_ok t'"
    "outcome = FateReplied \<Longrightarrow> cs_state (pt_slots t ! i) = CallDelivered"
    "pt_slots t' = (pt_slots t)[i := (pt_slots t ! i)\<lparr>cs_state := CallEnded outcome, cs_payload := None,
      cs_occupied := False, cs_retired := (cs_generation (pt_slots t ! i) = 2 ^ 32 - 1)\<rparr>]"
    "pt_free_queue_slots t' = pt_free_queue_slots t"
    "pt_next_sequence t' = pt_next_sequence t" "fates (pt_stats t') = fates (pt_stats t) + 1"
proof (rule pending_complete_refused [OF c])
  fix i
  assume live: "live_index t call = Inr i"
    and reply: "\<not> (outcome = FateReplied \<and> cs_state (pt_slots t ! i) \<noteq> CallDelivered)"
  from pending_complete_Some [OF ok live reply] c reply show thesis by (auto intro!: that [OF live])
qed

lemma pending_step_ok:
  assumes ok: "pending_ok t" and step: "pending_step t t'"
  shows "pending_ok t' \<and> table_advances cs_generation cs_occupied call_floor (pt_slots t) (pt_slots t')"
  using step
proof cases
  case (pending_step_admit e badge interface opcode request reply deadline waiting r)
  obtain call adm where r: "r = (call, adm)" by (cases r)
  from pending_step_admit [unfolded r] have "pending_ok t'" by (rule pending_admit_ok [OF ok])
  moreover have "table_advances cs_generation cs_occupied call_floor (pt_slots t) (pt_slots t')"
    by (rule admit_slots [OF pending_step_admit [unfolded r]])
      (auto intro!: table_advances_update simp: slot_advances_def call_floor_def admitted_slot_def)
  ultimately show ?thesis by blast
next
  case (pending_step_deliver e d)
  from deliver_next_cases [OF ok this] show ?thesis
    by cases (use ok in \<open>auto intro!: table_advances_update simp: slot_advances_def call_floor_def\<close>)
next
  case (pending_step_complete call outcome p)
  from complete_cases [OF ok this] show ?thesis
    by cases (auto intro!: table_advances_update simp: slot_advances_def call_floor_def)
next
  case (pending_step_recycle q)
  with pending_recycle_ok [OF ok] show ?thesis by simp
qed

interpretation calls: generation_table pt_slots cs_generation cs_occupied call_floor pending_ok pending_step
  by unfold_locales (use pending_step_ok in blast, simp add: call_floor_def, use pending_step_ok in blast)

lemma live_index_iff_names:
  assumes "pending_ok t"
  shows "(\<exists>i. live_index t call = Inr i) \<longleftrightarrow>
    names_live cs_generation cs_occupied (pt_slots t) (ci_slot call) (ci_generation call)"
proof (cases "ci_slot call < length (pt_slots t)")
  case True
  from call_slotD [OF assms True] show ?thesis
    by (auto simp: live_index_Inr_iff names_live_def call_slot_ok_def)
qed (auto simp: live_index_Inr_iff names_live_def)

end
