(* ===== verification/Pending_Runs.thy ===== *)
theory Pending_Runs
  imports Pending_Invariant
begin

text \<open>
  Runs of the pending-call table: which calls were admitted, delivered and ended, in what
  order, and which queue storage is attached, free or handed back.
\<close>

section \<open>Runs\<close>

text \<open>
  A run of the table with the calls it admitted, the deliveries it made with their
  endpoint and admission number, and the fates it recorded, latest first.
\<close>

inductive pending_run ::
    "call_id list \<Rightarrow> (call_id \<times> nat \<times> nat) list \<Rightarrow> (call_id \<times> call_outcome) list \<Rightarrow> pending_table \<Rightarrow> bool" where
  run_new: "pending_new True True capacity ceiling = Inr t \<Longrightarrow> pending_run [] [] [] t"
| run_admit: "pending_run admitted delivered ended t \<Longrightarrow>
    pending_admit t e badge interface opcode request reply deadline waiting = Inr ((call, adm), t') \<Longrightarrow>
    pending_run (call # admitted)
      (if adm = Direct then (call, e, pt_next_sequence t') # delivered else delivered) ended t'"
| run_deliver: "pending_run admitted delivered ended t \<Longrightarrow> deliver_next t e = Inr (Some d, t') \<Longrightarrow>
    pending_run admitted ((dl_call d, e, cs_sequence (pt_slots t ! ci_slot (dl_call d))) # delivered) ended t'"
| run_complete: "pending_run admitted delivered ended t \<Longrightarrow> pending_complete t call outcome = Inr (p, t') \<Longrightarrow>
    pending_run admitted delivered ((call, outcome) # ended) t'"
| run_recycle: "pending_run admitted delivered ended t \<Longrightarrow> pending_recycle t q = Inr t' \<Longrightarrow>
    pending_run admitted delivered ended t'"

definition slot_id :: "call_slot list \<Rightarrow> nat \<Rightarrow> call_id" where
  "slot_id xs i = \<lparr>ci_slot = i, ci_generation = cs_generation (xs ! i)\<rparr>"

definition live_calls :: "pending_table \<Rightarrow> call_id set" where
  "live_calls t = {call. \<exists>i. live_index t call = Inr i}"

definition fifo_after :: "call_id \<times> nat \<times> nat \<Rightarrow> call_id \<times> nat \<times> nat \<Rightarrow> bool" where
  "fifo_after later earlier \<longleftrightarrow>
     (fst (snd later) = fst (snd earlier) \<longrightarrow> snd (snd earlier) < snd (snd later))"

definition run_identities_ok :: "call_id list \<Rightarrow> (call_id \<times> call_outcome) list \<Rightarrow> pending_table \<Rightarrow> bool" where
  "run_identities_ok admitted ended t \<longleftrightarrow>
     distinct admitted \<and> length admitted = pt_next_sequence t \<and>
     (\<forall>c\<in>set admitted. ci_slot c < length (pt_slots t) \<and> ci_generation c \<le> cs_generation (pt_slots t ! ci_slot c)) \<and>
     distinct (map fst ended) \<and> length ended = fates (pt_stats t) \<and>
     fst ` set ended \<union> live_calls t = set admitted \<and> fst ` set ended \<inter> live_calls t = {}"

definition run_deliveries_ok ::
    "call_id list \<Rightarrow> (call_id \<times> nat \<times> nat) list \<Rightarrow> (call_id \<times> call_outcome) list \<Rightarrow> pending_table \<Rightarrow> bool" where
  "run_deliveries_ok admitted delivered ended t \<longleftrightarrow>
     fst ` set delivered \<subseteq> set admitted \<and> distinct (map fst delivered) \<and> sorted_wrt fifo_after delivered \<and>
     (\<forall>d\<in>set delivered. snd (snd d) \<le> pt_next_sequence t) \<and>
     (\<forall>d\<in>set delivered. \<forall>x\<in>set (pt_slots t). queued_for (fst (snd d)) x \<longrightarrow> snd (snd d) < cs_sequence x) \<and>
     (\<forall>i<length (pt_slots t). cs_occupied (pt_slots t ! i) \<longrightarrow>
        (cs_state (pt_slots t ! i) = CallDelivered \<longleftrightarrow> slot_id (pt_slots t) i \<in> fst ` set delivered)) \<and>
     (\<forall>c. (c, FateReplied) \<in> set ended \<longrightarrow> c \<in> fst ` set delivered)"

lemma live_calls_eq:
  assumes "pending_ok t"
  shows "live_calls t = {slot_id (pt_slots t) i | i. i < length (pt_slots t) \<and> cs_occupied (pt_slots t ! i)}"
proof -
  have "(\<exists>i. live_index t c = Inr i) \<longleftrightarrow>
      (\<exists>i. c = slot_id (pt_slots t) i \<and> i < length (pt_slots t) \<and> cs_occupied (pt_slots t ! i))" for c
    using live_index_iff_names [OF assms, of c] by (cases c) (auto simp: names_live_def slot_id_def)
  then show ?thesis by (auto simp: live_calls_def)
qed

lemma slot_id_update: "slot_id (xs[i := y]) j = (if j = i \<and> i < length xs then \<lparr>ci_slot = i, ci_generation = cs_generation y\<rparr> else slot_id xs j)"
  by (cases "i < length xs") (auto simp: slot_id_def list_update_beyond)

lemma slot_id_eq_iff [simp]: "slot_id xs i = slot_id xs j \<longleftrightarrow> i = j"
  by (auto simp: slot_id_def)

lemma run_identities_admit:
  assumes ok: "pending_ok t" and I: "run_identities_ok admitted ended t"
    and admit: "pending_admit t e badge interface opcode request reply deadline waiting = Inr ((call, adm), t')"
  shows "run_identities_ok (call # admitted) ended t' \<and> call \<notin> set admitted"
proof (rule admit_slots [OF admit], goal_cases)
  case (1 i payload)
  let ?y = "admitted_slot (pt_slots t ! i) e badge interface opcode request reply deadline (pt_next_sequence t + 1) payload"
  note i = 1(1) and av = 1(2) and call = 1(3) and s = 1(4)
  have g: "cs_generation ?y = cs_generation (pt_slots t ! i) + 1" "cs_occupied ?y" by (simp_all add: admitted_slot_def)
  have fresh: "call \<notin> set admitted" using I unfolding call by (auto simp: run_identities_ok_def)
  have "live_calls t' = insert call (live_calls t)"
    unfolding live_calls_eq [OF ok] live_calls_eq [OF pending_admit_ok [OF ok admit]] s slot_id_update call
    using i av g by (auto simp: nth_list_update)
  moreover have "cs_generation (pt_slots t ! j) \<le> cs_generation (pt_slots t' ! j)" if "j < length (pt_slots t)" for j
    using that g i unfolding s by (cases "j = i") auto
  moreover have "ci_slot call < length (pt_slots t') \<and> ci_generation call \<le> cs_generation (pt_slots t' ! ci_slot call)"
    using i g by (simp add: s call)
  moreover have "call \<notin> fst ` set ended" using I fresh by (auto simp: run_identities_ok_def)
  moreover have "length (pt_slots t') = length (pt_slots t)" by (simp add: s)
  ultimately show ?thesis
    using I fresh 1(5,6) unfolding run_identities_ok_def by (auto intro: order_trans)
qed

lemma run_identities_deliver:
  assumes ok: "pending_ok t" and I: "run_identities_ok admitted ended t" and d: "deliver_next t e = Inr (Some d, t')"
  shows "run_identities_ok admitted ended t'"
  using deliver_next_cases [OF ok d]
proof cases
  case (2 i)
  from oldest_queuedD [OF ok 2(1)] have i: "i < length (pt_slots t)" "cs_occupied (pt_slots t ! i)" by auto
  have "live_calls t' = live_calls t"
    unfolding live_calls_eq [OF ok] live_calls_eq [OF 2(3)] 2(4) slot_id_update
    using i by (auto simp: nth_list_update slot_id_def)
  moreover have "cs_generation (pt_slots t' ! j) = cs_generation (pt_slots t ! j)" for j
    using i unfolding 2(4) by (cases "j = i") auto
  ultimately show ?thesis using I 2(6,7) by (simp add: run_identities_ok_def 2(4))
qed (use assms in simp)

lemma run_identities_complete:
  assumes ok: "pending_ok t" and I: "run_identities_ok admitted ended t"
    and c: "pending_complete t call outcome = Inr (p, t')"
  shows "run_identities_ok admitted ((call, outcome) # ended) t'"
  using complete_cases [OF ok c]
proof cases
  case (1 i)
  from 1(1) have i: "i < length (pt_slots t)" "cs_occupied (pt_slots t ! i)" and call: "call = slot_id (pt_slots t) i"
    by (cases call; auto simp: live_index_Inr_iff slot_id_def)+
  have "live_calls t' = live_calls t - {call}"
    unfolding live_calls_eq [OF ok] live_calls_eq [OF 1(3)] 1(5) slot_id_update call
    using i by (auto simp: nth_list_update)
  moreover have "call \<in> live_calls t" using 1(1) by (auto simp: live_calls_def)
  moreover have "cs_generation (pt_slots t' ! j) = cs_generation (pt_slots t ! j)" for j
    using i unfolding 1(5) by (cases "j = i") auto
  ultimately show ?thesis
    using I 1(7,8) unfolding run_identities_ok_def by (auto simp: 1(5))
qed

lemma ci_slot_slot_id [simp]: "ci_slot (slot_id xs i) = i"
  by (simp add: slot_id_def)

lemma run_deliveries_admit:
  assumes ok: "pending_ok t" and D: "run_deliveries_ok admitted delivered ended t"
    and admit: "pending_admit t e badge interface opcode request reply deadline waiting = Inr ((call, adm), t')"
    and fresh: "call \<notin> set admitted"
  shows "run_deliveries_ok (call # admitted)
      (if adm = Direct then (call, e, pt_next_sequence t') # delivered else delivered) ended t'"
proof (rule admit_slots [OF admit], goal_cases)
  case (1 i payload)
  let ?n = "pt_next_sequence t"
  let ?y = "admitted_slot (pt_slots t ! i) e badge interface opcode request reply deadline (?n + 1) payload"
  note i = 1(1) and av = 1(2) and call = 1(3) and s = 1(4) and n = 1(5) and direct = 1(7,8)
  have y: "cs_generation ?y = cs_generation (pt_slots t ! i) + 1" "cs_occupied ?y" "cs_sequence ?y = ?n + 1"
    "cs_state ?y = (if adm = Direct then CallDelivered else CallQueued)"
    using direct by (simp_all add: admitted_slot_def)
  let ?D = "if adm = Direct then (call, e, pt_next_sequence t') # delivered else delivered"
  have sub: "fst ` set delivered \<subseteq> set admitted" and bound: "\<forall>d\<in>set delivered. snd (snd d) \<le> ?n"
    and queue: "\<forall>d\<in>set delivered. \<forall>x\<in>set (pt_slots t). queued_for (fst (snd d)) x \<longrightarrow> snd (snd d) < cs_sequence x"
    and st: "\<And>j. j < length (pt_slots t) \<Longrightarrow> cs_occupied (pt_slots t ! j) \<Longrightarrow>
        (cs_state (pt_slots t ! j) = CallDelivered \<longleftrightarrow> slot_id (pt_slots t) j \<in> fst ` set delivered)"
    and sorted: "sorted_wrt fifo_after delivered"
    using D by (simp_all add: run_deliveries_ok_def)
  have new: "call \<notin> fst ` set delivered" using sub fresh by blast
  have idle: "\<not> queued_for e x" if "adm = Direct" "x \<in> set (pt_slots t)" for x
    using that direct(2) by (simp add: queued_shortcuts [OF ok] min_index_by_None_iff)
  have "sorted_wrt fifo_after ?D"
    using sorted bound n by (auto simp: fifo_after_def)
  moreover have "\<forall>d\<in>set ?D. \<forall>x\<in>set (pt_slots t'). queued_for (fst (snd d)) x \<longrightarrow> snd (snd d) < cs_sequence x"
  proof (intro ballI impI)
    fix d x
    assume d: "d \<in> set ?D" and x: "x \<in> set (pt_slots t')" and q: "queued_for (fst (snd d)) x"
    show "snd (snd d) < cs_sequence x"
    proof (cases "x \<in> set (pt_slots t)")
      case True
      show ?thesis
      proof (cases "d \<in> set delivered")
        case False
        with d have "adm = Direct" "fst (snd d) = e" by (auto split: if_splits)
        with idle [OF _ True] q show ?thesis by simp
      qed (use queue True q in blast)
    next
      case False
      with x have xy: "x = ?y" unfolding s by (blast dest: set_update_cases)
      with q y have "adm \<noteq> Direct" by (auto simp: queued_for_def split: if_splits)
      with d have "d \<in> set delivered" by simp
      with bound xy y show ?thesis by (auto simp: less_Suc_eq_le)
    qed
  qed
  moreover have "cs_state (pt_slots t' ! j) = CallDelivered \<longleftrightarrow> slot_id (pt_slots t') j \<in> fst ` set ?D"
    if j: "j < length (pt_slots t')" "cs_occupied (pt_slots t' ! j)" for j
  proof (cases "j = i")
    case True
    then have "slot_id (pt_slots t') j = call" using i y by (simp add: s slot_id_update call)
    with True new i y show ?thesis by (simp add: s)
  next
    case False
    then have "slot_id (pt_slots t') j = slot_id (pt_slots t) j" "pt_slots t' ! j = pt_slots t ! j"
      by (simp_all add: s slot_id_update)
    moreover have "slot_id (pt_slots t) j \<noteq> call" using False by (simp add: call slot_id_def)
    ultimately show ?thesis using st [of j] j by (simp add: s)
  qed
  ultimately show ?thesis
    using D new n unfolding run_deliveries_ok_def by (auto simp: le_Suc_eq)
qed

lemma run_deliveries_deliver:
  assumes ok: "pending_ok t" and I: "run_identities_ok admitted ended t"
    and D: "run_deliveries_ok admitted delivered ended t" and d: "deliver_next t e = Inr (Some d, t')"
  shows "run_deliveries_ok admitted ((dl_call d, e, cs_sequence (pt_slots t ! ci_slot (dl_call d))) # delivered) ended t'"
  using deliver_next_cases [OF ok d]
proof cases
  case (2 i)
  from oldest_queuedD [OF ok 2(1)] have i: "i < length (pt_slots t)" and q: "cs_queued (pt_slots t ! i)"
    and e: "cs_endpoint_slot (pt_slots t ! i) = e"
    and least: "\<And>j. j < length (pt_slots t) \<Longrightarrow> queued_for e (pt_slots t ! j) \<Longrightarrow>
      cs_sequence (pt_slots t ! i) \<le> cs_sequence (pt_slots t ! j)" by auto
  let ?x = "pt_slots t ! i"
  let ?y = "?x\<lparr>cs_state := CallDelivered, cs_payload := None\<rparr>"
  have id: "dl_call d = slot_id (pt_slots t) i" "ci_slot (dl_call d) = i" using 2(2) by (simp_all add: slot_id_def)
  have x: "call_slot_ok (pt_next_sequence t) ?x" by (rule call_slotD [OF ok i])
  have queue: "\<And>d x. d \<in> set delivered \<Longrightarrow> x \<in> set (pt_slots t) \<Longrightarrow> queued_for (fst (snd d)) x \<Longrightarrow> snd (snd d) < cs_sequence x"
    and st: "\<And>j. j < length (pt_slots t) \<Longrightarrow> cs_occupied (pt_slots t ! j) \<Longrightarrow>
        (cs_state (pt_slots t ! j) = CallDelivered \<longleftrightarrow> slot_id (pt_slots t) j \<in> fst ` set delivered)"
    and sorted: "sorted_wrt fifo_after delivered"
    using D by (auto simp: run_deliveries_ok_def)
  have qx: "queued_for e ?x" using q e by (simp add: queued_for_def)
  have "slot_id (pt_slots t) i \<in> live_calls t" using i q by (auto simp: live_calls_eq [OF ok])
  then have adm: "slot_id (pt_slots t) i \<in> set admitted" using I by (auto simp: run_identities_ok_def)
  have new: "slot_id (pt_slots t) i \<notin> fst ` set delivered" using st [OF i] q by simp
  have "sorted_wrt fifo_after ((slot_id (pt_slots t) i, e, cs_sequence ?x) # delivered)"
    using sorted queue [of _ ?x] i qx by (auto simp: fifo_after_def)
  moreover have "\<forall>d'\<in>set ((slot_id (pt_slots t) i, e, cs_sequence ?x) # delivered). \<forall>z\<in>set (pt_slots t').
      queued_for (fst (snd d')) z \<longrightarrow> snd (snd d') < cs_sequence z"
  proof (intro ballI impI)
    fix d' z
    assume d': "d' \<in> set ((slot_id (pt_slots t) i, e, cs_sequence ?x) # delivered)" and z: "z \<in> set (pt_slots t')"
      and qz: "queued_for (fst (snd d')) z"
    then obtain j where j: "j < length (pt_slots t)" "z = pt_slots t' ! j" by (auto simp: in_set_conv_nth 2(4))
    have ji: "j \<noteq> i" using qz j i by (auto simp: 2(4) queued_for_def)
    then have zj: "z = pt_slots t ! j" using j by (simp add: 2(4))
    show "snd (snd d') < cs_sequence z"
    proof (cases "d' \<in> set delivered")
      case True
      with queue [of d' z] qz zj j show ?thesis by simp
    next
      case False
      with d' have d'e: "d' = (slot_id (pt_slots t) i, e, cs_sequence ?x)" by simp
      then have "cs_sequence ?x \<le> cs_sequence z" using least [of j] qz zj j by simp
      moreover have "cs_sequence ?x \<noteq> cs_sequence z"
        using ok i j ji q qz zj by (auto simp: pending_ok_def sequences_distinct_def queued_for_def)
      ultimately show ?thesis using d'e by simp
    qed
  qed
  moreover have "cs_state (pt_slots t' ! j) = CallDelivered \<longleftrightarrow>
      slot_id (pt_slots t') j \<in> fst ` set ((slot_id (pt_slots t) i, e, cs_sequence ?x) # delivered)"
    if j: "j < length (pt_slots t')" "cs_occupied (pt_slots t' ! j)" for j
  proof (cases "j = i")
    case True
    then show ?thesis using i by (simp add: 2(4) slot_id_def)
  next
    case False
    then have "slot_id (pt_slots t') j = slot_id (pt_slots t) j" "pt_slots t' ! j = pt_slots t ! j"
      by (simp_all add: 2(4) slot_id_update)
    with st [of j] j False show ?thesis by (simp add: 2(4))
  qed
  moreover have "cs_sequence ?x \<le> pt_next_sequence t" using x q by (simp add: call_slot_ok_def)
  ultimately show ?thesis
    using D new adm unfolding run_deliveries_ok_def id by (simp add: 2(6))
qed (use assms in simp)

lemma run_deliveries_complete:
  assumes ok: "pending_ok t" and D: "run_deliveries_ok admitted delivered ended t"
    and c: "pending_complete t call outcome = Inr (p, t')"
  shows "run_deliveries_ok admitted delivered ((call, outcome) # ended) t'"
  using complete_cases [OF ok c]
proof cases
  case (1 i)
  from 1(1) have i: "i < length (pt_slots t)" "cs_occupied (pt_slots t ! i)" and call: "call = slot_id (pt_slots t) i"
    by (cases call; auto simp: live_index_Inr_iff slot_id_def)+
  let ?y = "(pt_slots t ! i)\<lparr>cs_state := CallEnded outcome, cs_payload := None, cs_occupied := False,
      cs_retired := (cs_generation (pt_slots t ! i) = 2 ^ 32 - 1)\<rparr>"
  have nq: "\<not> queued_for e ?y" for e by (simp add: queued_for_def)
  have "\<forall>d\<in>set delivered. \<forall>x\<in>set (pt_slots t'). queued_for (fst (snd d)) x \<longrightarrow> snd (snd d) < cs_sequence x"
    using D nq unfolding run_deliveries_ok_def 1(5) by (blast dest: set_update_cases)
  moreover have "cs_state (pt_slots t' ! j) = CallDelivered \<longleftrightarrow> slot_id (pt_slots t') j \<in> fst ` set delivered"
    if j: "j < length (pt_slots t')" "cs_occupied (pt_slots t' ! j)" for j
  proof -
    from j i have "j \<noteq> i" by (auto simp: 1(5))
    then have "slot_id (pt_slots t') j = slot_id (pt_slots t) j" "pt_slots t' ! j = pt_slots t ! j"
      by (simp_all add: 1(5) slot_id_update)
    with D j show ?thesis by (simp add: run_deliveries_ok_def 1(5))
  qed
  moreover have "call \<in> fst ` set delivered" if "outcome = FateReplied"
    using 1(4) [OF that] D i unfolding call run_deliveries_ok_def by simp
  ultimately show ?thesis
    using D unfolding run_deliveries_ok_def by (auto simp: 1(7))
qed

lemma pending_run_holds:
  "pending_run admitted delivered ended t \<Longrightarrow>
   pending_ok t \<and> run_identities_ok admitted ended t \<and> run_deliveries_ok admitted delivered ended t"
proof (induction rule: pending_run.induct)
  case (run_new capacity ceiling t)
  have ok: "pending_ok t" by (rule pending_new_ok [OF run_new])
  have t: "pt_next_sequence t = 0" "fates (pt_stats t) = 0" "\<forall>x\<in>set (pt_slots t). \<not> cs_occupied x"
    using run_new by (auto simp: pending_new_def fates_def empty_call_slot_def split: if_splits)
  then have "live_calls t = {}" by (simp add: live_calls_eq [OF ok])
  with ok t show ?case by (auto simp: run_identities_ok_def run_deliveries_ok_def)
next
  case (run_admit admitted delivered ended t e badge interface opcode request reply deadline waiting call adm t')
  then have ok: "pending_ok t" and I: "run_identities_ok admitted ended t"
    and D: "run_deliveries_ok admitted delivered ended t" by auto
  note ids = run_identities_admit [OF ok I run_admit(2)]
  from run_deliveries_admit [OF ok D run_admit(2)] ids pending_admit_ok [OF ok run_admit(2)]
  show ?case by blast
next
  case (run_deliver admitted delivered ended t e d t')
  then have "pending_ok t'" using pending_step_ok pending_step_deliver by blast
  with run_deliver show ?case using run_identities_deliver run_deliveries_deliver by blast
next
  case (run_complete admitted delivered ended t call outcome p t')
  then have "pending_ok t'" using pending_step_ok pending_step_complete by blast
  with run_complete show ?case using run_identities_complete run_deliveries_complete by blast
next
  case (run_recycle admitted delivered ended t q t')
  then have "pending_ok t'" "pt_slots t' = pt_slots t" using pending_recycle_ok by blast+
  moreover have "pt_next_sequence t' = pt_next_sequence t" "pt_stats t' = pt_stats t"
    using run_recycle(2) by (auto simp: pending_recycle_def split: if_splits)
  moreover have "live_calls t' = live_calls t"
    using calculation run_recycle by (simp add: live_calls_eq)
  ultimately show ?case using run_recycle by (simp add: run_identities_ok_def run_deliveries_ok_def)
qed

section \<open>Sequence numbers are admission order\<close>

definition run_order_ok :: "call_id list \<Rightarrow> (call_id \<times> nat \<times> nat) list \<Rightarrow> pending_table \<Rightarrow> bool" where
  "run_order_ok admitted delivered t \<longleftrightarrow>
     (\<forall>i<length (pt_slots t). cs_occupied (pt_slots t ! i) \<longrightarrow>
        rev admitted ! (cs_sequence (pt_slots t ! i) - 1) = slot_id (pt_slots t) i) \<and>
     (\<forall>d\<in>set delivered. 0 < snd (snd d) \<and> snd (snd d) \<le> length admitted \<and>
        rev admitted ! (snd (snd d) - 1) = fst d)"

lemma run_order_admit:
  assumes ok: "pending_ok t" and I: "run_identities_ok admitted ended t" and R: "run_order_ok admitted delivered t"
    and admit: "pending_admit t e badge interface opcode request reply deadline waiting = Inr ((call, adm), t')"
  shows "run_order_ok (call # admitted) (if adm = Direct then (call, e, pt_next_sequence t') # delivered else delivered) t'"
proof (rule admit_slots [OF admit], goal_cases)
  case (1 i payload)
  let ?n = "pt_next_sequence t"
  note i = 1(1) and call = 1(3) and s = 1(4) and n = 1(5)
  have len: "length admitted = ?n" using I by (simp add: run_identities_ok_def)
  have new: "rev (call # admitted) ! ?n = call" using len by (simp add: nth_append)
  have old: "rev (call # admitted) ! (k - 1) = rev admitted ! (k - 1)" if "0 < k" "k \<le> ?n" for k
    using that len rev_nth_Cons [of "k - 1" admitted call] by simp
  have "rev (call # admitted) ! (cs_sequence (pt_slots t' ! j) - 1) = slot_id (pt_slots t') j"
    if j: "j < length (pt_slots t')" "cs_occupied (pt_slots t' ! j)" for j
  proof (cases "j = i")
    case True
    then show ?thesis using new i by (simp add: s slot_id_update call admitted_slot_def)
  next
    case False
    then have same: "slot_id (pt_slots t') j = slot_id (pt_slots t) j" "pt_slots t' ! j = pt_slots t ! j"
      by (simp_all add: s slot_id_update)
    have "call_slot_ok ?n (pt_slots t ! j)" using j call_slotD [OF ok] by (simp add: s)
    with same j have "0 < cs_sequence (pt_slots t ! j)" "cs_sequence (pt_slots t ! j) \<le> ?n"
      by (simp_all add: call_slot_ok_def)
    with old same R j show ?thesis by (simp add: run_order_ok_def s)
  qed
  moreover have "0 < snd (snd d) \<and> snd (snd d) \<le> length (call # admitted) \<and>
      rev (call # admitted) ! (snd (snd d) - 1) = fst d"
    if "d \<in> set (if adm = Direct then (call, e, pt_next_sequence t') # delivered else delivered)" for d
  proof (cases "d \<in> set delivered")
    case True
    with R old [of "snd (snd d)"] len show ?thesis by (auto simp: run_order_ok_def)
  next
    case False
    with that have "d = (call, e, ?n + 1)" using n by (auto split: if_splits)
    with new len show ?thesis by simp
  qed
  ultimately show ?thesis unfolding run_order_ok_def by blast
qed

lemma run_order_holds:
  "pending_run admitted delivered ended t \<Longrightarrow> run_order_ok admitted delivered t"
proof (induction rule: pending_run.induct)
  case (run_new capacity ceiling t)
  then show ?case
    by (auto simp: run_order_ok_def pending_new_def empty_call_slot_def split: if_splits)
next
  case (run_admit admitted delivered ended t e badge interface opcode request reply deadline waiting call adm t')
  from pending_run_holds [OF run_admit(1)] run_order_admit [OF _ _ run_admit(3,2)] show ?case by blast
next
  case (run_deliver admitted delivered ended t e d t')
  from pending_run_holds [OF run_deliver(1)] have ok: "pending_ok t" and I: "run_identities_ok admitted ended t" by auto
  show ?case using deliver_next_cases [OF ok run_deliver(2)]
  proof cases
    case (2 i)
    from oldest_queuedD [OF ok 2(1)] have i: "i < length (pt_slots t)" and q: "cs_queued (pt_slots t ! i)" by auto
    from call_slotD [OF ok i] q have seq: "0 < cs_sequence (pt_slots t ! i)"
      "cs_sequence (pt_slots t ! i) \<le> pt_next_sequence t" by (simp_all add: call_slot_ok_def)
    have id: "dl_call d = slot_id (pt_slots t) i" "ci_slot (dl_call d) = i" using 2(2) by (simp_all add: slot_id_def)
    have "cs_sequence (pt_slots t' ! j) = cs_sequence (pt_slots t ! j) \<and> slot_id (pt_slots t') j = slot_id (pt_slots t) j \<and>
        cs_occupied (pt_slots t' ! j) = cs_occupied (pt_slots t ! j)" for j
      using i unfolding 2(4) by (cases "j = i") (auto simp: slot_id_def)
    with run_deliver(3) seq i q I show ?thesis unfolding run_order_ok_def id
      by (simp add: run_identities_ok_def 2(4))
  qed simp
next
  case (run_complete admitted delivered ended t call outcome p t')
  from pending_run_holds [OF run_complete(1)] have ok: "pending_ok t" by simp
  show ?case using complete_cases [OF ok run_complete(2)]
  proof cases
    case (1 i)
    have "cs_occupied (pt_slots t' ! j) \<Longrightarrow> pt_slots t' ! j = pt_slots t ! j \<and> slot_id (pt_slots t') j = slot_id (pt_slots t) j"
      if "j < length (pt_slots t)" for j
      using that unfolding 1(5) by (cases "j = i") (auto simp: slot_id_update)
    with run_complete(3) show ?thesis by (auto simp: run_order_ok_def 1(5))
  qed
next
  case (run_recycle admitted delivered ended t q t')
  then have "pt_slots t' = pt_slots t" by (auto simp: pending_recycle_def split: if_splits)
  with run_recycle(3) show ?case by (simp add: run_order_ok_def)
qed

section \<open>Queue storage\<close>

text \<open>
  The storage discipline the module's header asks of its composition: a queue slot is
  recycled only after a delivery or a terminal fate handed it back. The set component
  holds the slots handed back and not yet recycled.
\<close>

definition attached :: "pending_table \<Rightarrow> queue_slot_id set" where
  "attached t = {q. \<exists>x\<in>set (pt_slots t). cs_payload x = Some q}"

inductive storage_run :: "queue_slot_id set \<Rightarrow> pending_table \<Rightarrow> bool" where
  storage_new: "pending_new True True capacity ceiling = Inr t \<Longrightarrow> storage_run {} t"
| storage_admit: "storage_run handed t \<Longrightarrow>
    pending_admit t e badge interface opcode request reply deadline waiting = Inr (r, t') \<Longrightarrow> storage_run handed t'"
| storage_deliver: "storage_run handed t \<Longrightarrow> deliver_next t e = Inr (Some d, t') \<Longrightarrow>
    storage_run (handed \<union> set_option (dl_payload d)) t'"
| storage_complete: "storage_run handed t \<Longrightarrow> pending_complete t call outcome = Inr (p, t') \<Longrightarrow>
    storage_run (handed \<union> set_option p) t'"
| storage_recycle: "storage_run handed t \<Longrightarrow> q \<in> handed \<Longrightarrow> pending_recycle t q = Inr t' \<Longrightarrow>
    storage_run (handed - {q}) t'"

definition payloads_distinct :: "call_slot list \<Rightarrow> bool" where
  "payloads_distinct xs \<longleftrightarrow> (\<forall>i<length xs. \<forall>j<length xs.
     cs_payload (xs ! i) \<noteq> None \<and> cs_payload (xs ! i) = cs_payload (xs ! j) \<longrightarrow> i = j)"

definition storage_ok :: "queue_slot_id set \<Rightarrow> pending_table \<Rightarrow> bool" where
  "storage_ok handed t \<longleftrightarrow> pending_ok t \<and> payloads_distinct (pt_slots t) \<and>
     attached t \<inter> set (pt_free_queue_slots t) = {} \<and> handed \<inter> set (pt_free_queue_slots t) = {} \<and>
     handed \<inter> attached t = {} \<and> handed \<subseteq> {..<length (pt_slots t)} \<and> attached t \<subseteq> {..<length (pt_slots t)}"

lemma payloads_distinct_update:
  assumes "payloads_distinct xs"
    and "\<And>q j. cs_payload y = Some q \<Longrightarrow> j < length xs \<Longrightarrow> j \<noteq> i \<Longrightarrow> cs_payload (xs ! j) \<noteq> Some q"
  shows "payloads_distinct (xs[i := y])"
  unfolding payloads_distinct_def
proof (intro allI impI)
  fix j k
  assume jk: "j < length (xs[i := y])" "k < length (xs[i := y])"
    and same: "cs_payload (xs[i := y] ! j) \<noteq> None \<and> cs_payload (xs[i := y] ! j) = cs_payload (xs[i := y] ! k)"
  from same obtain q where q: "cs_payload (xs[i := y] ! j) = Some q" "cs_payload (xs[i := y] ! k) = Some q"
    by (metis not_None_eq)
  show "j = k"
  proof (cases "j = i \<or> k = i")
    case True
    with jk q assms(2) [of q j] assms(2) [of q k] show ?thesis
      by (cases "j = i"; cases "k = i") simp_all
  next
    case False
    with jk q assms(1) show ?thesis by (simp add: payloads_distinct_def)
  qed
qed

lemma attached_nth: "q \<in> attached t \<longleftrightarrow> (\<exists>i<length (pt_slots t). cs_payload (pt_slots t ! i) = Some q)"
proof
  assume "q \<in> attached t"
  then obtain x where "x \<in> set (pt_slots t)" "cs_payload x = Some q" by (auto simp: attached_def)
  then show "\<exists>i<length (pt_slots t). cs_payload (pt_slots t ! i) = Some q" by (auto simp: in_set_conv_nth)
next
  assume "\<exists>i<length (pt_slots t). cs_payload (pt_slots t ! i) = Some q"
  then show "q \<in> attached t" unfolding attached_def using nth_mem by blast
qed

lemma storage_release:
  assumes S: "storage_ok handed t" and i: "i < length (pt_slots t)" and ok': "pending_ok t'"
    and s: "pt_slots t' = (pt_slots t)[i := y]" and y: "cs_payload y = None"
    and free: "pt_free_queue_slots t' = pt_free_queue_slots t"
  shows "storage_ok (handed \<union> set_option (cs_payload (pt_slots t ! i))) t'"
proof -
  have att: "attached t' = attached t - set_option (cs_payload (pt_slots t ! i))"
  proof (intro set_eqI iffI)
    fix q
    assume "q \<in> attached t'"
    then obtain j where j: "j < length (pt_slots t)" "j \<noteq> i" "cs_payload (pt_slots t ! j) = Some q"
      using y i by (auto simp: attached_nth s nth_list_update split: if_splits)
    then show "q \<in> attached t - set_option (cs_payload (pt_slots t ! i))"
      using S i by (auto simp: attached_nth storage_ok_def payloads_distinct_def)
  next
    fix q
    assume "q \<in> attached t - set_option (cs_payload (pt_slots t ! i))"
    then obtain j where "j < length (pt_slots t)" "cs_payload (pt_slots t ! j) = Some q" "j \<noteq> i"
      by (auto simp: attached_nth)
    then show "q \<in> attached t'" by (auto simp: attached_nth s intro!: exI [of _ j])
  qed
  have sub: "set_option (cs_payload (pt_slots t ! i)) \<subseteq> attached t" using i by (auto simp: attached_nth)
  have "payloads_distinct (pt_slots t')"
    unfolding s using S y by (intro payloads_distinct_update) (auto simp: storage_ok_def)
  with S ok' sub show ?thesis unfolding storage_ok_def att free by (auto simp: s)
qed

lemma storage_admit_ok:
  assumes S: "storage_ok handed t"
    and admit: "pending_admit t e badge interface opcode request reply deadline waiting = Inr ((call, adm), t')"
  shows "storage_ok handed t'"
proof (rule pending_admit_Inr [OF admit], goal_cases)
  case (1 i r)
  have ok: "pending_ok t" using S by (simp add: storage_ok_def)
  note f = admit_commit_fields [OF 1(9)]
  from position_SomeD [OF 1(4)] have i: "i < length (pt_slots t)" and "\<not> cs_occupied (pt_slots t ! i)" by auto
  then have x: "cs_payload (pt_slots t ! i) = None" using call_slotD [OF ok i] by (auto simp: call_slot_ok_def)
  let ?y = "admitted_slot (pt_slots t ! i) e badge interface opcode request reply deadline
       (pt_next_sequence t + 1) (map_option fst r)"
  have s: "pt_slots t' = (pt_slots t)[i := ?y]" and y: "cs_payload ?y = map_option fst r"
    using f by (auto simp: admitted_slot_def)
  have att: "attached t' = attached t \<union> set_option (map_option fst r)"
  proof (intro set_eqI iffI)
    fix q
    assume "q \<in> attached t'"
    then show "q \<in> attached t \<union> set_option (map_option fst r)"
      using y i unfolding attached_nth s by (auto simp: nth_list_update attached_nth split: if_splits)
  next
    fix q
    assume "q \<in> attached t \<union> set_option (map_option fst r)"
    then consider j where "j < length (pt_slots t)" "cs_payload (pt_slots t ! j) = Some q" | "cs_payload ?y = Some q"
      using y by (auto simp: attached_nth)
    then show "q \<in> attached t'"
    proof cases
      case (1 j)
      then have "j \<noteq> i" using x by auto
      with 1 show ?thesis by (auto simp: attached_nth s intro!: exI [of _ j])
    next
      case 2
      with i show ?thesis by (auto simp: attached_nth s intro!: exI [of _ i])
    qed
  qed
  have ok': "pending_ok t'" by (rule pending_admit_ok [OF ok admit])
  show ?thesis
  proof (rule admit_reservation_cases [OF ok 1(5,1)])
    assume "r = None"
    then have "attached t' = attached t" "pt_free_queue_slots t' = pt_free_queue_slots t" using att f by auto
    moreover have "payloads_distinct (pt_slots t')"
      unfolding s using S y \<open>r = None\<close> by (intro payloads_distinct_update) (auto simp: storage_ok_def)
    ultimately show ?thesis using S ok' by (simp add: storage_ok_def s)
  next
    let ?q = "last (pt_free_queue_slots t)"
    assume r: "r = Some (?q, ps_retained_bytes (pt_stats t) + request)" and ne: "pt_free_queue_slots t \<noteq> []"
    then have q: "?q \<in> set (pt_free_queue_slots t)" by simp
    have free: "set (pt_free_queue_slots t') = set (pt_free_queue_slots t) - {?q}" using f r by auto
    have qb: "?q < length (pt_slots t)" using q ok by (auto simp: pending_ok_def queue_storage_ok_def)
    have "payloads_distinct (pt_slots t')"
      unfolding s
    proof (rule payloads_distinct_update)
      fix q' j
      assume "cs_payload ?y = Some q'" "j < length (pt_slots t)"
      with y r have "q' = ?q" by simp
      moreover have "?q \<notin> attached t" using S q by (auto simp: storage_ok_def)
      ultimately show "cs_payload (pt_slots t ! j) \<noteq> Some q'" using \<open>j < _\<close> by (auto simp: attached_nth)
    qed (use S in \<open>simp add: storage_ok_def\<close>)
    moreover have "attached t' = insert ?q (attached t)" using att r by auto
    ultimately show ?thesis using S ok' q qb free unfolding storage_ok_def by (auto simp: s)
  qed
qed

lemma storage_run_holds: "storage_run handed t \<Longrightarrow> storage_ok handed t"
proof (induction rule: storage_run.induct)
  case (storage_new capacity ceiling t)
  have "\<forall>x\<in>set (pt_slots t). cs_payload x = None"
    using storage_new by (auto simp: pending_new_def empty_call_slot_def split: if_splits)
  then have "attached t = {}" "payloads_distinct (pt_slots t)"
    by (auto simp: attached_def payloads_distinct_def)
  with pending_new_ok [OF storage_new] show ?case by (simp add: storage_ok_def)
next
  case (storage_admit handed t e badge interface opcode request reply deadline waiting r t')
  then show ?case using storage_admit_ok by (cases r) blast
next
  case (storage_deliver handed t e d t')
  then have ok: "pending_ok t" by (simp add: storage_ok_def)
  show ?case using deliver_next_cases [OF ok storage_deliver(2)]
  proof cases
    case (2 i)
    then show ?thesis
      using storage_release [OF storage_deliver(3) _ 2(3,4) _ 2(5)] oldest_queuedD [OF ok 2(1)] by simp
  qed simp
next
  case (storage_complete handed t call outcome p t')
  then have ok: "pending_ok t" by (simp add: storage_ok_def)
  show ?case using complete_cases [OF ok storage_complete(2)]
  proof cases
    case (1 i)
    then show ?thesis
      using storage_release [OF storage_complete(3) _ 1(3,5) _ 1(6)] by (simp add: live_index_Inr_iff)
  qed
next
  case (storage_recycle handed t q t')
  from storage_recycle(3,4) have "attached t' = attached t" "set (pt_free_queue_slots t') = insert q (set (pt_free_queue_slots t))"
    and "pt_slots t' = pt_slots t" by (auto simp: pending_recycle_def attached_def split: if_splits)
  with storage_recycle pending_recycle_ok [of t q t'] show ?case by (auto simp: storage_ok_def)
qed

end
