(* ===== verification/Pending_Contract.thy ===== *)
theory Pending_Contract
  imports Pending_Runs
begin

text \<open>
  What the pending-call table promises, over all of its runs, with a sample run.
\<close>

section \<open>Queries\<close>

lemma min_index_by_id:
  assumes ok: "pending_ok t" and "min_index_by P k (pt_slots t) = Some i"
  shows "try_into 32 i = Some i"
  using min_index_by_SomeD [OF assms(2)] ok by (simp add: try_into_def pending_ok_def MAX_PENDING_CALLS_def)

lemma pending_due_iff:
  assumes ok: "pending_ok t"
  shows "pending_due t now = None \<longleftrightarrow> (\<forall>x\<in>set (pt_slots t). cs_occupied x \<longrightarrow> now < cs_deadline_millis x)"
    "pending_due t now = Some call \<Longrightarrow> \<exists>i. live_index t call = Inr i \<and> cs_deadline_millis (pt_slots t ! i) \<le> now \<and>
       (\<forall>x\<in>set (pt_slots t). cs_occupied x \<longrightarrow> cs_deadline_millis (pt_slots t ! i) \<le> cs_deadline_millis x)"
proof -
  let ?P = "\<lambda>slot. cs_occupied slot \<and> (case cs_state slot of CallEnded _ \<Rightarrow> False | _ \<Rightarrow> True)
           \<and> cs_deadline_millis slot \<le> now"
  let ?k = "\<lambda>slot. (cs_deadline_millis slot, cs_sequence slot)"
  have P: "?P x \<longleftrightarrow> cs_occupied x \<and> cs_deadline_millis x \<le> now" if "x \<in> set (pt_slots t)" for x
    using ok that by (auto simp: pending_ok_def call_slot_ok_def split: call_state.splits)
  have none: "min_index_by ?P ?k (pt_slots t) = None \<longleftrightarrow>
      (\<forall>x\<in>set (pt_slots t). cs_occupied x \<longrightarrow> now < cs_deadline_millis x)"
    unfolding min_index_by_None_iff using P by (auto simp: not_le)
  show "pending_due t now = None \<longleftrightarrow> (\<forall>x\<in>set (pt_slots t). cs_occupied x \<longrightarrow> now < cs_deadline_millis x)"
    unfolding none [symmetric] using min_index_by_id [OF ok, of ?P ?k]
    by (auto simp: pending_due_def split: option.splits)
  assume "pending_due t now = Some call"
  then obtain i where m: "min_index_by ?P ?k (pt_slots t) = Some i"
    and call: "call = \<lparr>ci_slot = i, ci_generation = cs_generation (pt_slots t ! i)\<rparr>"
    using min_index_by_id [OF ok, of ?P ?k] by (auto simp: pending_due_def split: option.splits)
  from min_index_by_SomeD [OF m] have i: "i < length (pt_slots t)" "?P (pt_slots t ! i)"
    and least: "\<forall>j<length (pt_slots t). ?P (pt_slots t ! j) \<longrightarrow> ?k (pt_slots t ! i) \<le> ?k (pt_slots t ! j)" by auto
  have occ: "cs_occupied (pt_slots t ! i)" "cs_deadline_millis (pt_slots t ! i) \<le> now"
    using i P [of "pt_slots t ! i"] by auto
  have "live_index t call = Inr i"
    using i(1) occ call_slotD [OF ok i(1)] by (auto simp: live_index_Inr_iff call call_slot_ok_def)
  moreover have "cs_deadline_millis (pt_slots t ! i) \<le> cs_deadline_millis x"
    if "x \<in> set (pt_slots t)" "cs_occupied x" for x
  proof -
    from that(1) obtain j where j: "j < length (pt_slots t)" "x = pt_slots t ! j" by (auto simp: in_set_conv_nth)
    show ?thesis
    proof (cases "cs_deadline_millis x \<le> now")
      case True
      with P [OF that(1)] that(2) j have "?P (pt_slots t ! j)" by blast
      with least j(1) have "?k (pt_slots t ! i) \<le> ?k x" unfolding j(2) by blast
      then show ?thesis by (auto simp: less_eq_prod_def)
    next
      case False
      with occ show ?thesis by simp
    qed
  qed
  ultimately show "\<exists>i. live_index t call = Inr i \<and> cs_deadline_millis (pt_slots t ! i) \<le> now \<and>
       (\<forall>x\<in>set (pt_slots t). cs_occupied x \<longrightarrow> cs_deadline_millis (pt_slots t ! i) \<le> cs_deadline_millis x)"
    using occ by blast
qed

lemma card_live_calls:
  assumes ok: "pending_ok t"
  shows "card (live_calls t) = ps_live (pt_stats t)"
proof -
  have eq: "live_calls t = slot_id (pt_slots t) ` {i. i < length (pt_slots t) \<and> cs_occupied (pt_slots t ! i)}"
    by (auto simp: live_calls_eq [OF ok])
  have "card (live_calls t) = card {i. i < length (pt_slots t) \<and> cs_occupied (pt_slots t ! i)}"
    unfolding eq by (rule card_image) (auto simp: inj_on_def)
  also have "\<dots> = ps_live (pt_stats t)"
    using ok by (simp add: pending_ok_def count_if_def length_filter_conv_card)
  finally show ?thesis .
qed

section \<open>Contract\<close>

text \<open>
  C19. Every admitted call ends at most once, and only a delivered call is replied to. Over
  any run of the table, the calls ever admitted are pairwise distinct identities; each is
  either still live or has exactly one recorded fate; no call is delivered twice; every
  call whose fate is a reply had been delivered; and the counters are exactly the numbers
  of calls admitted, live, and ended.
\<close>

theorem pending_calls_end_once:
  assumes "pending_run admitted delivered ended t"
  shows "distinct admitted \<and> distinct (map fst delivered) \<and> distinct (map fst ended) \<and>
    fst ` set ended \<union> live_calls t = set admitted \<and> fst ` set ended \<inter> live_calls t = {} \<and>
    fst ` set delivered \<subseteq> set admitted \<and> {c. (c, FateReplied) \<in> set ended} \<subseteq> fst ` set delivered \<and>
    length admitted = ps_direct_admissions (pt_stats t) + ps_queued_admissions (pt_stats t) \<and>
    length ended = ps_replied (pt_stats t) + ps_cancelled (pt_stats t) + ps_timed_out (pt_stats t) + ps_peer_died (pt_stats t) \<and>
    card (live_calls t) = ps_live (pt_stats t)"
proof -
  from pending_run_holds [OF assms] have ok: "pending_ok t" and I: "run_identities_ok admitted ended t"
    and D: "run_deliveries_ok admitted delivered ended t" by auto
  from I D show ?thesis
    using card_live_calls [OF ok] ok
    by (auto simp: run_identities_ok_def run_deliveries_ok_def pending_ok_def pending_counts_ok_def fates_def)
qed

text \<open>
  C20. Delivery is first in, first out at each endpoint, direct handoffs included. When two
  calls are delivered at one endpoint, the call delivered first was admitted first: a
  direct handoff never overtakes an older queued call.
\<close>

theorem pending_fifo_delivery:
  assumes "pending_run admitted (later @ (c2, e, s2) # middle @ (c1, e, s1) # earlier) ended t"
  shows "\<exists>i j. i < j \<and> j < length admitted \<and> rev admitted ! i = c1 \<and> rev admitted ! j = c2"
proof -
  from pending_run_holds [OF assms] have "s1 < s2"
    by (auto simp: run_deliveries_ok_def sorted_wrt_append fifo_after_def)
  moreover from run_order_holds [OF assms]
  have "0 < s1" "0 < s2" "s2 \<le> length admitted" "rev admitted ! (s1 - 1) = c1" "rev admitted ! (s2 - 1) = c2"
    by (auto simp: run_order_ok_def)
  ultimately show ?thesis by (intro exI [of _ "s1 - 1"] exI [of _ "s2 - 1"]) linarith
qed

text \<open>
  The counter-guarded scans return what the full scans return, and the bounds the
  module advertises hold. In every state a run reaches, the queue length and the queue head
  at an endpoint are those of the whole table; at most eight calls are queued at an
  endpoint; the retained bytes are exactly those of the queued requests and within the
  ceiling; and the due call is a live call of least deadline, reported whenever some
  live deadline has passed.
\<close>

lemma pending_scans_exact:
  assumes "pending_run admitted delivered ended t"
  shows "queued_at t e = count_if (queued_for e) (pt_slots t) \<and> queued_at t e \<le> MAX_QUEUED_PER_ENDPOINT \<and>
    oldest_queued t e = min_index_by (queued_for e) cs_sequence (pt_slots t) \<and>
    ps_retained_bytes (pt_stats t) = sum_list (map retained_by (pt_slots t)) \<and>
    ps_retained_bytes (pt_stats t) \<le> MAX_RETAINED_REQUEST_BYTES \<and>
    (case pending_due t now of
       None \<Rightarrow> \<forall>x. x \<in> set (pt_slots t) \<and> cs_occupied x \<longrightarrow> now < cs_deadline_millis x
     | Some call \<Rightarrow> \<exists>i. live_index t call = Inr i \<and> cs_deadline_millis (pt_slots t ! i) \<le> now \<and>
         (\<forall>x. x \<in> set (pt_slots t) \<and> cs_occupied x \<longrightarrow> cs_deadline_millis (pt_slots t ! i) \<le> cs_deadline_millis x))"
proof -
  from pending_run_holds [OF assms] have ok: "pending_ok t" by simp
  have "(case pending_due t now of
       None \<Rightarrow> \<forall>x. x \<in> set (pt_slots t) \<and> cs_occupied x \<longrightarrow> now < cs_deadline_millis x
     | Some call \<Rightarrow> \<exists>i. live_index t call = Inr i \<and> cs_deadline_millis (pt_slots t ! i) \<le> now \<and>
         (\<forall>x. x \<in> set (pt_slots t) \<and> cs_occupied x \<longrightarrow> cs_deadline_millis (pt_slots t ! i) \<le> cs_deadline_millis x))"
  proof (cases "pending_due t now")
    case None
    then have "\<forall>x\<in>set (pt_slots t). cs_occupied x \<longrightarrow> now < cs_deadline_millis x"
      using pending_due_iff(1) [OF ok, of now] by blast
    then show ?thesis unfolding None by simp
  next
    case (Some call)
    with pending_due_iff(2) [OF ok Some] show ?thesis by auto
  qed
  moreover have "count_if (queued_for e) (pt_slots t) \<le> MAX_QUEUED_PER_ENDPOINT"
    "ps_retained_bytes (pt_stats t) = sum_list (map retained_by (pt_slots t))"
    "ps_retained_bytes (pt_stats t) \<le> MAX_RETAINED_REQUEST_BYTES"
    using ok by (auto simp: pending_ok_def)
  ultimately show ?thesis using queued_shortcuts [OF ok, of e] by simp
qed

text \<open>
  Under the storage discipline of the module's header, one queue slot never backs two
  requests: the slots attached to queued calls are pairwise distinct, none of them is free,
  and recycling a slot that was handed back is always accepted and makes it allocatable.
\<close>

lemma queue_slots_exclusive:
  assumes "storage_run handed t"
  shows "payloads_distinct (pt_slots t) \<and> attached t \<inter> set (pt_free_queue_slots t) = {} \<and>
    handed \<inter> (attached t \<union> set (pt_free_queue_slots t)) = {} \<and>
    (q \<in> handed \<longrightarrow> (\<exists>t'. pending_recycle t q = Inr t' \<and> q \<in> set (pt_free_queue_slots t')))"
proof -
  from storage_run_holds [OF assms] have S: "storage_ok handed t" .
  have "\<exists>t'. pending_recycle t q = Inr t' \<and> q \<in> set (pt_free_queue_slots t')" if q: "q \<in> handed"
  proof -
    from S q have b: "q < length (pt_slots t)" "q \<notin> set (pt_free_queue_slots t)" by (auto simp: storage_ok_def)
    have st: "queue_storage_ok t" using S by (simp add: storage_ok_def pending_ok_def)
    then have "set (pt_free_queue_slots t) \<subseteq> {..<length (pt_slots t)} - {q}"
      using b by (auto simp: queue_storage_ok_def)
    then have "card (set (pt_free_queue_slots t)) \<le> length (pt_slots t) - 1"
      using card_mono [of "{..<length (pt_slots t)} - {q}"] b by (simp add: card_Diff_singleton)
    then have "pt_loaned_queue_slots t \<noteq> 0"
      using st b by (auto simp: queue_storage_ok_def distinct_card)
    with b show ?thesis by (simp add: pending_recycle_def)
  qed
  with S show ?thesis by (auto simp: storage_ok_def)
qed

section \<open>A sample run\<close>

text \<open>
  Two calls at endpoint 1 of a table with two records: the first goes straight to the
  waiting server, the second is queued and then delivered, and the first is replied to.
\<close>

definition sample_call :: "nat \<Rightarrow> call_id" where
  "sample_call i = \<lparr>ci_slot = i, ci_generation = 1\<rparr>"

definition sample_record :: "nat \<Rightarrow> queue_slot_id option \<Rightarrow> call_state \<Rightarrow> call_slot" where
  "sample_record sequence payload state = empty_call_slot\<lparr>cs_generation := 1, cs_occupied := True,
     cs_endpoint_slot := 1, cs_interface := 13, cs_opcode := 1, cs_request_bytes := 10,
     cs_reply_capacity := 10, cs_deadline_millis := 100, cs_sequence := sequence, cs_payload := payload,
     cs_state := state\<rparr>"

definition sample_stats :: pending_stats where
  "sample_stats = \<lparr>ps_live = 0, ps_high_water = 0, ps_retained_bytes = 0, ps_retained_high_water = 0,
     ps_direct_admissions = 0, ps_queued_admissions = 0, ps_request_payload_copies = 0,
     ps_reply_payload_copies = 0, ps_queue_slots_consumed = 0, ps_replied = 0, ps_cancelled = 0,
     ps_timed_out = 0, ps_peer_died = 0\<rparr>"

definition sample_pending :: "call_slot list \<Rightarrow> nat \<Rightarrow> queue_slot_id list \<Rightarrow> nat \<Rightarrow> nat \<Rightarrow> pending_stats \<Rightarrow> pending_table" where
  "sample_pending slots queued free loaned sequence stats = \<lparr>pt_queued_live = queued, pt_slots = slots,
     pt_free_queue_slots = free, pt_loaned_queue_slots = loaned, pt_retained_ceiling = 4096,
     pt_next_sequence = sequence, pt_stats = stats\<rparr>"

lemmas sample_pending_defs = sample_call_def sample_record_def sample_stats_def sample_pending_def
  empty_call_slot_def pending_admit_def admit_commit_def admit_direct_def admit_queued_def
  admit_reservation_def oldest_queued_def queued_at_def queued_for_def checked_add_def checked_sub_def
  try_into_def saturating_add_def MAX_MESSAGE_BYTES_def MAX_QUEUED_PER_ENDPOINT_def Let_def

abbreviation sample_start :: pending_table where
  "sample_start \<equiv> sample_pending [empty_call_slot, empty_call_slot] 0 [0, 1] 0 0 sample_stats"

abbreviation sample_direct :: pending_table where
  "sample_direct \<equiv> sample_pending [sample_record 1 None CallDelivered, empty_call_slot] 0 [0, 1] 0 1
     (sample_stats\<lparr>ps_live := 1, ps_high_water := 1, ps_direct_admissions := 1, ps_request_payload_copies := 1\<rparr>)"

abbreviation sample_queued :: pending_table where
  "sample_queued \<equiv> sample_pending [sample_record 1 None CallDelivered, sample_record 2 (Some 1) CallQueued] 1 [0] 1 2
     (sample_stats\<lparr>ps_live := 2, ps_high_water := 2, ps_direct_admissions := 1, ps_queued_admissions := 1,
       ps_queue_slots_consumed := 1, ps_request_payload_copies := 3, ps_retained_bytes := 10, ps_retained_high_water := 10\<rparr>)"

abbreviation sample_delivered :: pending_table where
  "sample_delivered \<equiv> sample_pending [sample_record 1 None CallDelivered, sample_record 2 None CallDelivered] 0 [0] 1 2
     (sample_stats\<lparr>ps_live := 2, ps_high_water := 2, ps_direct_admissions := 1, ps_queued_admissions := 1,
       ps_queue_slots_consumed := 1, ps_request_payload_copies := 3, ps_retained_high_water := 10\<rparr>)"

lemma sample_new: "pending_new True True 2 4096 = Inr sample_start"
  by (simp add: pending_new_def MAX_PENDING_CALLS_def MAX_RETAINED_REQUEST_BYTES_def sample_pending_def
      sample_stats_def numeral_2_eq_2)

lemma sample_admit_direct:
  "pending_admit sample_start 1 badge_none 13 1 10 10 100 True = Inr ((sample_call 0, Direct), sample_direct)"
  by (simp add: sample_pending_defs)

lemma sample_admit_queued:
  "pending_admit sample_direct 1 badge_none 13 1 10 10 100 False = Inr ((sample_call 1, Queued), sample_queued)"
  by (simp add: sample_pending_defs)

lemma sample_deliver:
  "deliver_next sample_queued 1 = Inr (Some \<lparr>dl_call = sample_call 1, dl_payload = Some 1\<rparr>, sample_delivered)"
  by (simp add: sample_pending_defs deliver_next_def)

lemma sample_complete:
  "\<exists>t. pending_complete sample_delivered (sample_call 0) FateReplied = Inr (None, t) \<and> ps_replied (pt_stats t) = 1"
  by (simp add: sample_pending_defs pending_complete_def live_index_def count_fate_def)

lemma sample_direct_run: "pending_run [sample_call 0] [(sample_call 0, 1, 1)] [] sample_direct"
  using run_admit [OF run_new [OF sample_new] sample_admit_direct] by (simp add: sample_pending_def)

lemma sample_queued_run: "pending_run [sample_call 1, sample_call 0] [(sample_call 0, 1, 1)] [] sample_queued"
  using run_admit [OF sample_direct_run sample_admit_queued] by (simp only: admission.distinct if_False)

lemma sample_run:
  "\<exists>t. pending_run [sample_call 1, sample_call 0] [(sample_call 1, 1, 2), (sample_call 0, 1, 1)]
     [(sample_call 0, FateReplied)] t \<and> ps_replied (pt_stats t) = 1"
proof -
  have seq: "cs_sequence (pt_slots sample_queued ! ci_slot (dl_call \<lparr>dl_call = sample_call 1, dl_payload = Some 1\<rparr>)) = 2"
    by (simp add: sample_pending_def sample_call_def sample_record_def)
  from run_deliver [OF sample_queued_run sample_deliver, unfolded seq]
  have "pending_run [sample_call 1, sample_call 0] [(sample_call 1, 1, 2), (sample_call 0, 1, 1)] [] sample_delivered"
    by (simp only: delivery.select_convs)
  from run_complete [OF this] sample_complete show ?thesis by blast
qed

theorem pending_calls_end_once_witness:
  "\<exists>t. pending_run [sample_call 1, sample_call 0] [(sample_call 1, 1, 2), (sample_call 0, 1, 1)]
     [(sample_call 0, FateReplied)] t \<and> live_calls t = {sample_call 1}"
proof -
  obtain t where run: "pending_run [sample_call 1, sample_call 0] [(sample_call 1, 1, 2), (sample_call 0, 1, 1)]
     [(sample_call 0, FateReplied)] t" using sample_run by blast
  have "sample_call 1 \<noteq> sample_call 0" by (simp add: sample_call_def)
  moreover have "{sample_call 0} \<union> live_calls t = {sample_call 1, sample_call 0}" "{sample_call 0} \<inter> live_calls t = {}"
    using pending_calls_end_once [OF run] by (simp_all del: One_nat_def)
  ultimately have "live_calls t = {sample_call 1}" by blast
  with run show ?thesis by blast
qed

theorem pending_fifo_delivery_witness:
  "\<exists>i j. i < j \<and> j < length [sample_call 1, sample_call 0] \<and>
     rev [sample_call 1, sample_call 0] ! i = sample_call 0 \<and> rev [sample_call 1, sample_call 0] ! j = sample_call 1"
proof -
  obtain t where "pending_run [sample_call 1, sample_call 0]
      ([] @ (sample_call 1, 1, 2) # [] @ (sample_call 0, 1, 1) # []) [(sample_call 0, FateReplied)] t"
    using sample_run by auto
  from pending_fifo_delivery [OF this] show ?thesis .
qed

section \<open>Recycling without the discipline\<close>

text \<open>
  \<open>recycle\<close> checks that the slot is not free and that some slot is loaned, not that the slot
  itself was handed back. Recycling the slot of a call that is still queued is accepted,
  and the next queued admission then shares its storage: two live calls, one queue slot.
\<close>

lemma recycle_accepts_attached_slot:
  "\<exists>t1 t2 t3. pending_admit sample_start 1 badge_none 13 1 10 10 100 False = Inr ((sample_call 0, Queued), t1) \<and>
     pending_recycle t1 1 = Inr t2 \<and>
     pending_admit t2 1 badge_none 13 1 10 10 100 False = Inr ((sample_call 1, Queued), t3) \<and>
     pending_payload_slot t3 (sample_call 0) = Inr (Some 1) \<and> pending_payload_slot t3 (sample_call 1) = Inr (Some 1)"
  by (simp add: sample_pending_defs pending_recycle_def pending_payload_slot_def live_index_def)

end
