(* ===== verification/Threading.thy ===== *)
theory Threading
  imports Interface
begin

text \<open>
  The thread and synchronization wire contract (\<open>troe-abi/src/threading.rs\<close>): call
  registers, record tokens, wait modes and the checked helpers the record codecs share.
  Wire values are machine words; fixed-size arrays are lists of that length.
\<close>

datatype encoding_error = EncodingError

type_synonym 'a decoded = "(encoding_error, 'a) result"

definition thread_MAJOR :: u16 where "thread_MAJOR = 1"

definition thread_MINOR :: u16 where "thread_MINOR = 0"

definition REQUEST_BYTES :: nat where "REQUEST_BYTES = 64"

definition RESPONSE_BYTES :: nat where "RESPONSE_BYTES = 32"

definition STARTUP_BYTES :: nat where "STARTUP_BYTES = 128"

definition STARTUP_MAPPING_BYTES :: u64 where "STARTUP_MAPPING_BYTES = 4096"

definition PAGE_BYTES :: u64 where "PAGE_BYTES = 4096"

definition USER_END :: u64 where "USER_END = 0x0000800000000000"

section \<open>Call registers\<close>

record thread_call =
  tc_handle :: u64

datatype completion = CompletionResponse | CompletionRejected

definition completion_decode :: "u64 list \<Rightarrow> completion option" where
  "completion_decode words =
     (if words = [0, 32] then Some CompletionResponse
      else if words = [1, 0] then Some CompletionRejected
      else None)"

fun completion_encode :: "completion \<Rightarrow> u64 list" where
  "completion_encode CompletionResponse = [0, of_nat RESPONSE_BYTES]"
| "completion_encode CompletionRejected = [1, 0]"

definition call_decode :: "u64 list \<Rightarrow> thread_call option" where
  "call_decode words =
     (if words ! 0 \<noteq> 0 \<and> words ! 1 = of_nat REQUEST_BYTES \<and> words ! 2 = of_nat RESPONSE_BYTES
         \<and> drop 3 words = [0, 0, 0]
      then Some \<lparr>tc_handle = words ! 0\<rparr> else None)"

definition call_encode :: "thread_call \<Rightarrow> u64 list decoded" where
  "call_encode c =
     (if tc_handle c = 0 then Inl EncodingError
      else Inr [tc_handle c, of_nat REQUEST_BYTES, of_nat RESPONSE_BYTES, 0, 0, 0])"

section \<open>Tokens\<close>

datatype thread_kind = KindThread | KindMutex | KindCondition | KindPermit

fun kind_tag :: "thread_kind \<Rightarrow> u64" where
  "kind_tag KindThread = 1"
| "kind_tag KindMutex = 2"
| "kind_tag KindCondition = 3"
| "kind_tag KindPermit = 4"

datatype token = Token (token_bits: u64)

definition token_new :: "thread_kind \<Rightarrow> u32 \<Rightarrow> u32 \<Rightarrow> token decoded" where
  "token_new kind slot generation =
     (if slot \<ge> 0x00ffffff \<or> generation = 0 then Inl EncodingError
      else Inr (Token (push_bit 32 (ucast generation) OR push_bit 24 (kind_tag kind) OR (ucast slot + 1))))"

definition trailing_zeros :: "u64 \<Rightarrow> nat" where
  "trailing_zeros w = length (takeWhile (\<lambda>i. \<not> bit w i) [0..<64])"

definition token_decode :: "u64 \<Rightarrow> token decoded" where
  "token_decode bits =
     (if drop_bit 32 bits = 0 \<or> trailing_zeros bits \<ge> 24
         \<or> drop_bit 24 bits AND 0xff < 1 \<or> drop_bit 24 bits AND 0xff > 4
      then Inl EncodingError
      else Inr (Token bits))"

definition token_generation :: "token \<Rightarrow> u32" where
  "token_generation t = ucast (drop_bit 32 (token_bits t))"

definition token_slot :: "token \<Rightarrow> u32" where
  "token_slot t = ucast ((token_bits t AND 0x00ffffff) - 1)"

definition token_kind :: "token \<Rightarrow> thread_kind" where
  "token_kind t =
     (let tag = drop_bit 24 (token_bits t) AND 0xff in
      if tag = 1 then KindThread
      else if tag = 2 then KindMutex
      else if tag = 3 then KindCondition
      else KindPermit)"

definition token_of_kind :: "u64 \<Rightarrow> thread_kind \<Rightarrow> token decoded" where
  "token_of_kind bits kind =
     rbind (token_decode bits) (\<lambda>value.
       if token_kind value \<noteq> kind then Inl EncodingError else Inr value)"

section \<open>Waits\<close>

record thread_wait =
  tw_deadline :: "u64 option"
  tw_observe_stop :: bool

datatype wait_mode = Try | Wait thread_wait

fun wait_mode_words :: "wait_mode \<Rightarrow> u64 \<times> u64" where
  "wait_mode_words Try = (0, 0)"
| "wait_mode_words (Wait wait) =
     ((if tw_deadline wait \<noteq> None then 2 else 1) OR (if tw_observe_stop wait then 0x100 else 0),
      case tw_deadline wait of None \<Rightarrow> 0 | Some deadline \<Rightarrow> deadline)"

definition wait_mode_decode :: "u64 \<Rightarrow> u64 \<Rightarrow> wait_mode decoded" where
  "wait_mode_decode flags deadline =
     (if flags AND NOT 0x103 \<noteq> 0 then Inl EncodingError
      else if flags AND 3 = 0 \<and> flags = 0 \<and> deadline = 0 then Inr Try
      else if flags AND 3 = 1 \<and> deadline = 0
        then Inr (Wait \<lparr>tw_deadline = None, tw_observe_stop = (flags AND 0x100 \<noteq> 0)\<rparr>)
      else if flags AND 3 = 2
        then Inr (Wait \<lparr>tw_deadline = Some deadline, tw_observe_stop = (flags AND 0x100 \<noteq> 0)\<rparr>)
      else Inl EncodingError)"

fun wait_mode_waiting :: "wait_mode \<Rightarrow> thread_wait decoded" where
  "wait_mode_waiting (Wait wait) = Inr wait"
| "wait_mode_waiting Try = Inl EncodingError"

datatype owner_death = Poison | FailProcess

fun owner_death_value :: "owner_death \<Rightarrow> u64" where
  "owner_death_value Poison = 0"
| "owner_death_value FailProcess = 1"

section \<open>Checked helpers\<close>

definition thread_read :: "nat \<Rightarrow> byte list \<Rightarrow> nat \<Rightarrow> byte list decoded" where
  "thread_read n bytes offset =
     (if offset + n \<le> length bytes then Inr (chunk offset n bytes) else Inl EncodingError)"

definition user_range :: "u64 \<Rightarrow> u64 \<Rightarrow> u64 decoded" where
  "user_range start bytes =
     (if start < PAGE_BYTES \<or> start mod PAGE_BYTES \<noteq> 0 \<or> bytes = 0 \<or> bytes mod PAGE_BYTES \<noteq> 0
      then Inl EncodingError
      else case checked_add 64 (unat start) (unat bytes) of
        None \<Rightarrow> Inl EncodingError
      | Some upper \<Rightarrow> if of_nat upper \<le> USER_END then Inr (of_nat upper) else Inl EncodingError)"

end
