(* ===== verification/Threading_Request.thy ===== *)
theory Threading_Request
  imports Threading
begin

text \<open>
  Thread and synchronization requests (\<open>troe-abi/src/threading/request.rs\<close>): the closed
  set of operations, the rights each needs, and the 64-byte canonical record with its
  decoder and encoder. Decoding accepts exactly the records that encoding produces.
\<close>

datatype thread_request =
    Prepare (rq_entry_offset: u64) (rq_argument: u64) (rq_stack_pages: u64)
  | Start token
  | Abort token
  | Join token wait_mode
  | Detach token
  | RequestStop token
  | Observe token
  | Current
  | Exit u64
  | Sleep thread_wait
  | CreateMutex owner_death
  | CreateCondition
  | CreatePermit u32 u32
  | Lock token wait_mode
  | Unlock token
  | ConditionWait token token thread_wait
  | Notify token bool
  | AcquirePermit token wait_mode
  | ReleasePermit token u32
  | DestroyMutex token
  | DestroyCondition token
  | DestroyPermit token

fun request_interface :: "thread_request \<Rightarrow> u32" where
  "request_interface (Prepare _ _ _) = THREAD_CONTROL"
| "request_interface (Start _) = THREAD_CONTROL"
| "request_interface (Abort _) = THREAD_CONTROL"
| "request_interface (Join _ _) = THREAD_CONTROL"
| "request_interface (Detach _) = THREAD_CONTROL"
| "request_interface (RequestStop _) = THREAD_CONTROL"
| "request_interface (Observe _) = THREAD_CONTROL"
| "request_interface Current = THREAD_CONTROL"
| "request_interface (Exit _) = THREAD_CONTROL"
| "request_interface (Sleep _) = THREAD_CONTROL"
| "request_interface _ = THREAD_SYNC"

fun request_opcode :: "thread_request \<Rightarrow> u16" where
  "request_opcode (Prepare _ _ _) = 1"
| "request_opcode (CreateMutex _) = 1"
| "request_opcode (Start _) = 2"
| "request_opcode CreateCondition = 2"
| "request_opcode (Abort _) = 3"
| "request_opcode (CreatePermit _ _) = 3"
| "request_opcode (Join _ _) = 4"
| "request_opcode (Lock _ _) = 4"
| "request_opcode (Detach _) = 5"
| "request_opcode (Unlock _) = 5"
| "request_opcode (RequestStop _) = 6"
| "request_opcode (ConditionWait _ _ _) = 6"
| "request_opcode (Observe _) = 7"
| "request_opcode (Notify _ _) = 7"
| "request_opcode Current = 8"
| "request_opcode (AcquirePermit _ _) = 8"
| "request_opcode (Exit _) = 9"
| "request_opcode (ReleasePermit _ _) = 9"
| "request_opcode (Sleep _) = 10"
| "request_opcode (DestroyMutex _) = 10"
| "request_opcode (DestroyCondition _) = 11"
| "request_opcode (DestroyPermit _) = 12"

definition required_rights :: "thread_request \<Rightarrow> u16" where
  "required_rights r = right_CALL OR
     (case r of
        Prepare _ _ _ \<Rightarrow> right_THREAD_CREATE
      | Start _ \<Rightarrow> right_THREAD_START
      | Abort _ \<Rightarrow> right_THREAD_START
      | Join _ _ \<Rightarrow> right_THREAD_JOIN
      | Detach _ \<Rightarrow> right_THREAD_DETACH
      | RequestStop _ \<Rightarrow> right_THREAD_STOP
      | Observe _ \<Rightarrow> right_THREAD_OBSERVE
      | Current \<Rightarrow> right_THREAD_OBSERVE
      | _ \<Rightarrow> 0)"

definition request_wait :: "thread_request \<Rightarrow> wait_mode option" where
  "request_wait r =
     (case r of
        Join _ wait \<Rightarrow> Some wait
      | Lock _ wait \<Rightarrow> Some wait
      | AcquirePermit _ wait \<Rightarrow> Some wait
      | Sleep wait \<Rightarrow> Some (Wait wait)
      | ConditionWait _ _ wait \<Rightarrow> Some (Wait wait)
      | _ \<Rightarrow> None)"

section \<open>Decoding\<close>

text \<open>\<open>u32::try_from\<close> on a 64-bit word.\<close>

definition u32_try_from :: "u64 \<Rightarrow> u32 decoded" where
  "u32_try_from w = (if unat w < 2 ^ 32 then Inr (ucast w) else Inl EncodingError)"

text \<open>The match on interface and opcode: the request and the number of words it uses.\<close>

definition decode_control :: "u16 \<Rightarrow> u64 \<Rightarrow> u64 \<Rightarrow> u64 \<Rightarrow> (thread_request \<times> nat) decoded" where
  "decode_control opcode a b c =
     (if opcode = 1 \<and> a < push_bit 30 1 \<and> c > 0 \<and> c \<le> push_bit 32 1 then Inr (Prepare a b c, 3)
      else if opcode = 2 then rbind (token_of_kind a KindThread) (\<lambda>t. Inr (Start t, 1))
      else if opcode = 3 then rbind (token_of_kind a KindThread) (\<lambda>t. Inr (Abort t, 1))
      else if opcode = 4 then
        rbind (token_of_kind a KindThread) (\<lambda>t. rbind (wait_mode_decode b c) (\<lambda>w. Inr (Join t w, 3)))
      else if opcode = 5 then rbind (token_of_kind a KindThread) (\<lambda>t. Inr (Detach t, 1))
      else if opcode = 6 then rbind (token_of_kind a KindThread) (\<lambda>t. Inr (RequestStop t, 1))
      else if opcode = 7 then rbind (token_of_kind a KindThread) (\<lambda>t. Inr (Observe t, 1))
      else if opcode = 8 then Inr (Current, 0)
      else if opcode = 9 then Inr (Exit a, 1)
      else if opcode = 10 then
        rbind (rbind (wait_mode_decode a b) wait_mode_waiting) (\<lambda>w. Inr (Sleep w, 2))
      else Inl EncodingError)"

definition decode_sync :: "u16 \<Rightarrow> u64 \<Rightarrow> u64 \<Rightarrow> u64 \<Rightarrow> u64 \<Rightarrow> (thread_request \<times> nat) decoded" where
  "decode_sync opcode a b c d =
     (if opcode = 1 \<and> a \<le> 1 then Inr (CreateMutex (if a = 0 then Poison else FailProcess), 1)
      else if opcode = 2 then Inr (CreateCondition, 0)
      else if opcode = 3 \<and> b > 0 \<and> a \<le> b then
        rbind (u32_try_from a) (\<lambda>permits. rbind (u32_try_from b) (\<lambda>maximum. Inr (CreatePermit permits maximum, 2)))
      else if opcode = 4 then
        rbind (token_of_kind a KindMutex) (\<lambda>t. rbind (wait_mode_decode b c) (\<lambda>w. Inr (Lock t w, 3)))
      else if opcode = 5 then rbind (token_of_kind a KindMutex) (\<lambda>t. Inr (Unlock t, 1))
      else if opcode = 6 then
        rbind (token_of_kind a KindCondition) (\<lambda>condition.
        rbind (token_of_kind b KindMutex) (\<lambda>mutex.
        rbind (rbind (wait_mode_decode c d) wait_mode_waiting) (\<lambda>w. Inr (ConditionWait condition mutex w, 4))))
      else if opcode = 7 \<and> b \<le> 1 then
        rbind (token_of_kind a KindCondition) (\<lambda>condition. Inr (Notify condition (b = 1), 2))
      else if opcode = 8 then
        rbind (token_of_kind a KindPermit) (\<lambda>t. rbind (wait_mode_decode b c) (\<lambda>w. Inr (AcquirePermit t w, 3)))
      else if opcode = 9 \<and> b > 0 then
        rbind (token_of_kind a KindPermit) (\<lambda>t. rbind (u32_try_from b) (\<lambda>permits. Inr (ReleasePermit t permits, 2)))
      else if opcode = 10 then rbind (token_of_kind a KindMutex) (\<lambda>t. Inr (DestroyMutex t, 1))
      else if opcode = 11 then rbind (token_of_kind a KindCondition) (\<lambda>t. Inr (DestroyCondition t, 1))
      else if opcode = 12 then rbind (token_of_kind a KindPermit) (\<lambda>t. Inr (DestroyPermit t, 1))
      else Inl EncodingError)"

fun read_words :: "byte list \<Rightarrow> nat list \<Rightarrow> u64 list decoded" where
  "read_words bytes [] = Inr []"
| "read_words bytes (offset # rest) =
     rbind (thread_read 8 bytes offset) (\<lambda>w.
       rbind (read_words bytes rest) (\<lambda>ws. Inr (from_le_bytes w # ws)))"

definition request_decode :: "u32 \<Rightarrow> byte list \<Rightarrow> thread_request decoded" where
  "request_decode expected_interface bytes =
     (if length bytes \<noteq> REQUEST_BYTES then Inl EncodingError
      else rbind (thread_read 2 bytes 0) (\<lambda>major.
        if from_le_bytes major \<noteq> thread_MAJOR then Inl EncodingError
        else rbind (thread_read 4 bytes 4) (\<lambda>interface.
        if from_le_bytes interface \<noteq> expected_interface then Inl EncodingError
        else rbind (thread_read 2 bytes 2) (\<lambda>opcode.
        rbind (read_words bytes (map (\<lambda>index. 8 + index * 8) [0..<7])) (\<lambda>words.
        rbind (if expected_interface = THREAD_CONTROL
               then decode_control (from_le_bytes opcode) (words ! 0) (words ! 1) (words ! 2)
               else if expected_interface = THREAD_SYNC
               then decode_sync (from_le_bytes opcode) (words ! 0) (words ! 1) (words ! 2) (words ! 3)
               else Inl EncodingError) (\<lambda>(request, used).
        if list_ex (\<lambda>word. word \<noteq> 0) (drop used words) then Inl EncodingError
        else Inr request))))))"

section \<open>Encoding\<close>

definition request_words :: "thread_request \<Rightarrow> u64 list" where
  "request_words r =
     (let words = replicate 7 0 in
      case r of
        Prepare entry_offset argument stack_pages \<Rightarrow> copy_at 0 [entry_offset, argument, stack_pages] words
      | Start t \<Rightarrow> words[0 := token_bits t]
      | Abort t \<Rightarrow> words[0 := token_bits t]
      | Detach t \<Rightarrow> words[0 := token_bits t]
      | RequestStop t \<Rightarrow> words[0 := token_bits t]
      | Observe t \<Rightarrow> words[0 := token_bits t]
      | Unlock t \<Rightarrow> words[0 := token_bits t]
      | DestroyMutex t \<Rightarrow> words[0 := token_bits t]
      | DestroyCondition t \<Rightarrow> words[0 := token_bits t]
      | DestroyPermit t \<Rightarrow> words[0 := token_bits t]
      | Join t wait \<Rightarrow> (case wait_mode_words wait of (flags, deadline) \<Rightarrow>
          copy_at 0 [token_bits t, flags, deadline] words)
      | Lock t wait \<Rightarrow> (case wait_mode_words wait of (flags, deadline) \<Rightarrow>
          copy_at 0 [token_bits t, flags, deadline] words)
      | AcquirePermit t wait \<Rightarrow> (case wait_mode_words wait of (flags, deadline) \<Rightarrow>
          copy_at 0 [token_bits t, flags, deadline] words)
      | Exit value \<Rightarrow> words[0 := value]
      | Sleep wait \<Rightarrow> (case wait_mode_words (Wait wait) of (flags, deadline) \<Rightarrow>
          copy_at 0 [flags, deadline] words)
      | CreateMutex policy \<Rightarrow> words[0 := owner_death_value policy]
      | CreatePermit permits maximum \<Rightarrow> copy_at 0 [ucast permits, ucast maximum] words
      | ConditionWait condition mutex wait \<Rightarrow> (case wait_mode_words (Wait wait) of (flags, deadline) \<Rightarrow>
          copy_at 0 [token_bits condition, token_bits mutex, flags, deadline] words)
      | Notify condition all \<Rightarrow> copy_at 0 [token_bits condition, of_bool all] words
      | ReleasePermit permit permits \<Rightarrow> copy_at 0 [token_bits permit, ucast permits] words
      | Current \<Rightarrow> words
      | CreateCondition \<Rightarrow> words)"

fun write_words :: "nat \<Rightarrow> u64 list \<Rightarrow> byte list \<Rightarrow> byte list" where
  "write_words index [] bytes = bytes"
| "write_words index (word # rest) bytes =
     write_words (Suc index) rest (copy_at (8 + index * 8) (le_bytes 8 word) bytes)"

definition request_record :: "thread_request \<Rightarrow> byte list" where
  "request_record r =
     write_words 0 (request_words r)
       (copy_at 4 (le_bytes 4 (request_interface r))
         (copy_at 2 (le_bytes 2 (request_opcode r))
           (copy_at 0 (le_bytes 2 thread_MAJOR) (replicate REQUEST_BYTES 0))))"

definition request_encode :: "thread_request \<Rightarrow> byte list decoded" where
  "request_encode r =
     rbind (request_decode (request_interface r) (request_record r)) (\<lambda>_. Inr (request_record r))"

section \<open>Fields and words\<close>

lemma wait_flags_cases:
  assumes "(flags :: u64) AND NOT 0x103 = 0"
  shows "flags \<in> {0, 1, 2, 3, 0x100, 0x101, 0x102, 0x103}"
proof -
  have "flags = flags AND 0x103 OR (flags AND NOT 0x103)"
    by (metis bit.conj_disj_distrib bit.disj_cancel_right and.right_neutral)
  then have "flags = flags AND 0x103" using assms by simp
  also have "(0x103::u64) = 2 ^ 0 OR 2 ^ 1 OR 2 ^ 8" by simp
  also have "flags AND (2 ^ 0 OR 2 ^ 1 OR 2 ^ 8) =
      (if bit flags 0 then 2 ^ 0 else 0) OR (if bit flags 1 then 2 ^ 1 else 0) OR (if bit flags 8 then 2 ^ 8 else 0)"
    unfolding bit.conj_disj_distrib and_exp_word ..
  finally show ?thesis by (simp split: if_splits)
qed

lemma wait_mode_decode_iff: "wait_mode_decode flags deadline = Inr w \<longleftrightarrow> wait_mode_words w = (flags, deadline)"
proof
  assume dec: "wait_mode_decode flags deadline = Inr w"
  then have "flags AND NOT 0x103 = 0" by (auto simp: wait_mode_decode_def split: if_splits)
  from wait_flags_cases [OF this] dec show "wait_mode_words w = (flags, deadline)"
    by (auto simp: wait_mode_decode_def split: if_splits)
next
  assume w: "wait_mode_words w = (flags, deadline)"
  show "wait_mode_decode flags deadline = Inr w"
  proof (cases w)
    case Try
    with w show ?thesis by (auto simp: wait_mode_decode_def)
  next
    case (Wait x)
    with w show ?thesis
      by (cases x; cases "tw_deadline x"; cases "tw_observe_stop x") (auto simp: wait_mode_decode_def)
  qed
qed

lemma wait_waiting_iff:
  "rbind (wait_mode_decode flags deadline) wait_mode_waiting = Inr w \<longleftrightarrow> wait_mode_words (Wait w) = (flags, deadline)"
proof -
  have "wait_mode_waiting m = Inr w \<longleftrightarrow> m = Wait w" for m by (cases m) auto
  then show ?thesis by (auto simp: rbind_Inr_iff wait_mode_decode_iff simp del: wait_mode_words.simps)
qed

lemma token_of_kindD: "token_of_kind bits kind = Inr t \<Longrightarrow> t = Token bits"
  by (auto simp: token_of_kind_def token_decode_def result_simps split: if_splits)

lemma u32_try_from_iff: "u32_try_from w = Inr v \<longleftrightarrow> w = ucast v"
proof -
  have "ucast (ucast w :: u32) = w" if "unat w < 2 ^ 32"
    using that by (simp add: word_unat_eq_iff unsigned_ucast_eq unsigned_take_bit_eq take_bit_nat_eq_self)
  moreover have "unat (ucast v :: u64) < 2 ^ 32"
    using unsigned_less [of v, where 'a = nat] by (simp add: unsigned_ucast_eq take_bit_nat_eq_self)
  moreover have "(ucast (ucast v :: u64) :: u32) = v" by (rule bit_word_eqI) (simp add: bit_ucast_iff)
  ultimately show ?thesis by (auto simp: u32_try_from_def)
qed

lemma write_words_layout:
  "length pre = 8 + index * 8 \<Longrightarrow>
   write_words index ws (pre @ rest) = pre @ concat (map (le_bytes 8) ws) @ drop (8 * length ws) rest"
proof (induction ws arbitrary: index pre rest)
  case Nil
  then show ?case by simp
next
  case (Cons w ws)
  have "copy_at (8 + index * 8) (le_bytes 8 w) (pre @ rest) = (pre @ le_bytes 8 w) @ drop 8 rest"
    using copy_at_prefix [OF Cons.prems, of "le_bytes 8 w" rest] by simp
  moreover have "length (pre @ le_bytes 8 w) = 8 + Suc index * 8" using Cons.prems by simp
  ultimately show ?case using Cons.IH [of "pre @ le_bytes 8 w" "Suc index" "drop 8 rest"] by (simp add: add.commute)
qed

lemma read_words_layout:
  "off + 8 * k \<le> length bytes \<Longrightarrow>
   \<exists>ws. length ws = k \<and> read_words bytes (map (\<lambda>i. off + i * 8) [0..<k]) = Inr ws \<and>
     chunk off (8 * k) bytes = concat (map (le_bytes 8) ws)"
proof (induction k arbitrary: off)
  case 0
  then show ?case by (simp add: chunk_def)
next
  case (Suc k)
  from Suc.IH [of "off + 8"] Suc.prems obtain ws where ws: "length ws = k"
    "read_words bytes (map (\<lambda>i. off + 8 + i * 8) [0..<k]) = Inr ws"
    "chunk (off + 8) (8 * k) bytes = concat (map (le_bytes 8) ws)" by auto
  have offs: "map (\<lambda>i. off + i * 8) [0..<Suc k] = off # map (\<lambda>i. off + 8 + i * 8) [0..<k]"
    by (simp add: upt_conv_Cons map_Suc_upt [symmetric] del: upt_Suc)
  have "le_bytes 8 (from_le_bytes (chunk off 8 bytes) :: u64) = chunk off 8 bytes"
    using Suc.prems by (intro le_bytes_from_le_bytes) simp_all
  moreover have "chunk off (8 * Suc k) bytes = chunk off 8 bytes @ chunk (off + 8) (8 * k) bytes"
    using chunk_append [of off 8 bytes "8 * k"] by simp
  ultimately show ?case
    using ws Suc.prems unfolding offs by (intro exI [of _ "from_le_bytes (chunk off 8 bytes) # ws"]) (simp add: thread_read_def)
qed

lemma concat_le_bytes_inject:
  "length vs = length ws \<Longrightarrow> concat (map (le_bytes 8) vs) = concat (map (le_bytes 8) ws) \<longleftrightarrow> vs = (ws :: u64 list)"
proof (induction vs ws rule: list_induct2)
  case (Cons v vs w ws)
  then show ?case by (auto simp: le_bytes_inject)
qed simp

lemma length_concat_le_bytes [simp]: "length (concat (map (le_bytes 8) ws)) = 8 * length ws"
  by (induction ws) auto

section \<open>Records\<close>

definition record_bytes :: "u32 \<Rightarrow> u16 \<Rightarrow> u64 list \<Rightarrow> byte list" where
  "record_bytes interface opcode ws =
     le_bytes 2 thread_MAJOR @ le_bytes 2 opcode @ le_bytes 4 interface @ concat (map (le_bytes 8) ws)"

definition decode_words :: "u32 \<Rightarrow> u16 \<Rightarrow> u64 list \<Rightarrow> (thread_request \<times> nat) decoded" where
  "decode_words interface opcode words =
     (if interface = THREAD_CONTROL then decode_control opcode (words ! 0) (words ! 1) (words ! 2)
      else if interface = THREAD_SYNC then decode_sync opcode (words ! 0) (words ! 1) (words ! 2) (words ! 3)
      else Inl EncodingError)"

lemma record_bytes_inject:
  assumes "length vs = 7" "length ws = 7"
  shows "record_bytes i p vs = record_bytes j q ws \<longleftrightarrow> i = j \<and> p = q \<and> vs = ws"
  using assms by (auto simp: record_bytes_def le_bytes_inject concat_le_bytes_inject)

lemma length_request_words [simp]: "length (request_words r) = 7"
  by (cases r) (auto simp: request_words_def copy_at_def Let_def split: prod.splits)

lemma request_record_layout: "request_record r = record_bytes (request_interface r) (request_opcode r) (request_words r)"
proof -
  have 1: "copy_at 0 (le_bytes 2 thread_MAJOR) (replicate REQUEST_BYTES 0) =
      le_bytes 2 thread_MAJOR @ replicate 62 0"
    using copy_at_prefix [of "[]" 0 "le_bytes 2 thread_MAJOR" "replicate 64 0"] by (simp add: REQUEST_BYTES_def)
  have 2: "copy_at 2 (le_bytes 2 (request_opcode r)) (le_bytes 2 thread_MAJOR @ replicate 62 0) =
      (le_bytes 2 thread_MAJOR @ le_bytes 2 (request_opcode r)) @ replicate 60 0"
    using copy_at_prefix [of "le_bytes 2 thread_MAJOR" 2 "le_bytes 2 (request_opcode r)" "replicate 62 0"] by simp
  let ?h = "le_bytes 2 thread_MAJOR @ le_bytes 2 (request_opcode r) @ le_bytes 4 (request_interface r)"
  have 3: "copy_at 4 (le_bytes 4 (request_interface r))
      ((le_bytes 2 thread_MAJOR @ le_bytes 2 (request_opcode r)) @ replicate 60 0) = ?h @ replicate 56 0"
    using copy_at_prefix [of "le_bytes 2 thread_MAJOR @ le_bytes 2 (request_opcode r)" 4
      "le_bytes 4 (request_interface r)" "replicate 60 0"] by simp
  have "write_words 0 (request_words r) (?h @ replicate 56 0) =
      ?h @ concat (map (le_bytes 8) (request_words r)) @ drop (8 * length (request_words r)) (replicate 56 0)"
    by (rule write_words_layout) simp
  then show ?thesis unfolding request_record_def 1 2 3 record_bytes_def by simp
qed

lemma request_decode_iff:
  "request_decode i bytes = Inr r \<longleftrightarrow>
   (\<exists>op ws used. length ws = 7 \<and> bytes = record_bytes i op ws \<and> decode_words i op ws = Inr (r, used) \<and>
      (\<forall>w\<in>set (drop used ws). w = 0))"
proof (cases "length bytes = 64")
  case False
  then show ?thesis by (auto simp: request_decode_def REQUEST_BYTES_def record_bytes_def)
next
  case True
  then obtain ws where ws: "length ws = 7" "read_words bytes (map (\<lambda>i. 8 + i * 8) [0..<7]) = Inr ws"
    "chunk 8 56 bytes = concat (map (le_bytes 8) ws)"
    using read_words_layout [of 8 7 bytes] by auto
  obtain m p j where f: "(from_le_bytes (chunk 0 2 bytes) :: u16) = m" "(from_le_bytes (chunk 2 2 bytes) :: u16) = p"
    "(from_le_bytes (chunk 4 4 bytes) :: u32) = j" by blast
  have h: "le_bytes 2 m = chunk 0 2 bytes" "le_bytes 2 p = chunk 2 2 bytes" "le_bytes 4 j = chunk 4 4 bytes"
    unfolding f [symmetric] using True by (intro le_bytes_from_le_bytes; simp)+
  have "bytes = chunk 0 2 bytes @ chunk 2 2 bytes @ chunk 4 4 bytes @ chunk 8 56 bytes"
  proof -
    have "chunk 0 2 bytes @ chunk 2 2 bytes = chunk 0 4 bytes" "chunk 0 4 bytes @ chunk 4 4 bytes = chunk 0 8 bytes"
      "chunk 0 8 bytes @ chunk 8 56 bytes = bytes"
      using chunk_append [of 0 2 bytes 2] chunk_append [of 0 4 bytes 4] chunk_append [of 0 8 bytes 56] chunk_all [of bytes 64] True
      by (simp_all del: add_2_eq_Suc add_2_eq_Suc')
    then show ?thesis by (metis append.assoc)
  qed
  then have split: "bytes = le_bytes 2 m @ le_bytes 2 p @ le_bytes 4 j @ concat (map (le_bytes 8) ws)"
    unfolding h ws(3) .
  have dec: "request_decode i bytes = Inr r \<longleftrightarrow> m = thread_MAJOR \<and> j = i \<and>
      (\<exists>used. decode_words i p ws = Inr (r, used) \<and> (\<forall>w\<in>set (drop used ws). w = 0))"
    using True ws(2) by (auto simp: request_decode_def REQUEST_BYTES_def thread_read_def decode_words_def result_simps
      f list_ex_iff split: if_splits)
  have eq: "bytes = record_bytes i op vs \<longleftrightarrow> m = thread_MAJOR \<and> p = op \<and> j = i \<and> ws = vs" if "length vs = 7" for op vs
    using that ws(1) unfolding record_bytes_def split by (auto simp: le_bytes_inject concat_le_bytes_inject)
  show ?thesis
  proof
    assume "request_decode i bytes = Inr r"
    then obtain used where d: "m = thread_MAJOR" "j = i" "decode_words i p ws = Inr (r, used)"
      "\<forall>w\<in>set (drop used ws). w = 0" unfolding dec by blast
    with eq [OF ws(1), of p] ws(1) show "\<exists>op ws used. length ws = 7 \<and> bytes = record_bytes i op ws \<and>
        decode_words i op ws = Inr (r, used) \<and> (\<forall>w\<in>set (drop used ws). w = 0)" by blast
  next
    assume "\<exists>op ws used. length ws = 7 \<and> bytes = record_bytes i op ws \<and>
        decode_words i op ws = Inr (r, used) \<and> (\<forall>w\<in>set (drop used ws). w = 0)"
    then obtain op vs used where v: "length vs = 7" "bytes = record_bytes i op vs"
      "decode_words i op vs = Inr (r, used)" "\<forall>w\<in>set (drop used vs). w = 0" by blast
    from v(2) have e: "m = thread_MAJOR" "p = op" "j = i" "ws = vs" unfolding eq [OF v(1)] by blast+
    show "request_decode i bytes = Inr r" unfolding dec e using v(3,4) by blast
  qed
qed

section \<open>Decoding and encoding are inverse\<close>

lemma seven_words:
  assumes "length ws = 7"
  obtains a b c d e f g where "ws = [a, b, c, d, e, f, g]"
  using assms by (auto simp: numeral_eq_Suc length_Suc_conv)

lemma sync_control_differ [simp]: "THREAD_SYNC \<noteq> THREAD_CONTROL" "THREAD_CONTROL \<noteq> THREAD_SYNC"
  by (simp_all add: THREAD_SYNC_def THREAD_CONTROL_def)

lemma wait_mode_waiting_iff: "wait_mode_waiting m = Inr w \<longleftrightarrow> m = Wait w"
  by (cases m) auto

lemma zero_words: "replicate 7 (0::u64) = [0, 0, 0, 0, 0, 0, 0]"
  by (simp add: numeral_eq_Suc)

lemma copy_zero_words:
  "copy_at 0 [a, b] [0, 0, 0, 0, 0, 0, 0] = [a, b, 0, 0, 0, 0, 0 :: u64]"
  "copy_at 0 [a, b, c] [0, 0, 0, 0, 0, 0, 0] = [a, b, c, 0, 0, 0, 0 :: u64]"
  "copy_at 0 [a, b, c, d] [0, 0, 0, 0, 0, 0, 0] = [a, b, c, d, 0, 0, 0 :: u64]"
  by (simp_all add: copy_at_def)

lemma decode_control_sound:
  assumes dec: "decode_control op a b c = Inr (r, used)" and z: "\<forall>w\<in>set (drop used [a, b, c, d, e, f, g]). w = 0"
  shows "request_interface r = THREAD_CONTROL \<and> request_opcode r = op \<and> request_words r = [a, b, c, d, e, f, g]"
  using dec z
  by (auto simp: decode_control_def request_words_def copy_zero_words zero_words Let_def wait_mode_decode_iff wait_mode_waiting_iff
      result_simps simp del: wait_mode_words.simps dest!: token_of_kindD split: if_splits)

lemma of_bool_bit_word: "(b :: u64) \<le> 1 \<Longrightarrow> of_bool (b = 1) = b"
  using word_le_1 [of b] by auto

lemma decode_sync_sound:
  assumes dec: "decode_sync op a b c d = Inr (r, used)" and z: "\<forall>w\<in>set (drop used [a, b, c, d, e, f, g]). w = 0"
  shows "request_interface r = THREAD_SYNC \<and> request_opcode r = op \<and> request_words r = [a, b, c, d, e, f, g]"
proof -
  have one: "a = 1" if "a \<le> 1" "a \<noteq> 0" using word_le_1 [OF that(1)] that(2) by blast
  show ?thesis
    using dec z one
    by (auto simp: decode_sync_def request_words_def copy_zero_words zero_words Let_def wait_mode_decode_iff wait_mode_waiting_iff
        result_simps u32_try_from_iff of_bool_bit_word simp del: wait_mode_words.simps dest!: token_of_kindD split: if_splits)
qed

lemma decode_words_sound:
  assumes "length ws = 7" "decode_words i op ws = Inr (r, used)" "\<forall>w\<in>set (drop used ws). w = 0"
  shows "request_interface r = i \<and> request_opcode r = op \<and> request_words r = ws"
proof -
  obtain a b c d e f g where ws: "ws = [a, b, c, d, e, f, g]" by (rule seven_words [OF assms(1)])
  show ?thesis
  proof (cases "i = THREAD_CONTROL")
    case True
    with assms(2) have "decode_control op a b c = Inr (r, used)" by (simp add: decode_words_def ws)
    from decode_control_sound [OF this assms(3) [unfolded ws]] True show ?thesis by (simp add: ws)
  next
    case False
    with assms(2) have "decode_sync op a b c d = Inr (r, used)" and i: "i = THREAD_SYNC"
      by (auto simp: decode_words_def ws numeral_2_eq_2 numeral_3_eq_3 split: if_splits)
    from decode_sync_sound [OF this(1) assms(3) [unfolded ws]] i show ?thesis by (simp add: ws)
  qed
qed

lemma decode_words_complete:
  assumes "decode_words (request_interface r) (request_opcode r) (request_words r) = Inr (r', used)"
  shows "r' = r"
proof -
  have one: "a = 1" if "(a :: u64) \<le> 1" "a \<noteq> 0" for a using word_le_1 [OF that(1)] that(2) by blast
  have tok: "token_of_kind (token_bits t) k = Inr t' \<Longrightarrow> t' = t" for t t' k
    by (cases t) (auto dest: token_of_kindD)
  have inj: "wait_mode_words v = p \<Longrightarrow> wait_mode_words w = p \<Longrightarrow> v = w" for v w p
    by (metis Inr_inject prod.collapse wait_mode_decode_iff)
  have own: "owner_death_value p = 0 \<Longrightarrow> p = Poison" "owner_death_value p \<noteq> 0 \<Longrightarrow> p = FailProcess" for p
    by (cases p; simp)+
  have narrow: "u32_try_from (ucast v) = Inr v' \<longleftrightarrow> v' = v" for v v'
    using u32_try_from_iff [of "ucast v" v] u32_try_from_iff [of "ucast v" v'] by auto
  show ?thesis
    using assms
    by (cases r)
      (auto simp: decode_words_def decode_control_def decode_sync_def request_words_def copy_zero_words zero_words Let_def
        wait_mode_decode_iff wait_mode_waiting_iff result_simps narrow
        simp del: wait_mode_words.simps dest!: tok dest: inj own split: if_splits prod.splits)
qed

section \<open>Which requests can be sent\<close>

definition token_ok :: "thread_kind \<Rightarrow> token \<Rightarrow> bool" where
  "token_ok kind t \<longleftrightarrow> token_of_kind (token_bits t) kind = Inr t"

fun request_valid :: "thread_request \<Rightarrow> bool" where
  "request_valid (Prepare entry_offset argument stack_pages) \<longleftrightarrow>
     entry_offset < 2 ^ 30 \<and> 0 < stack_pages \<and> stack_pages \<le> 2 ^ 32"
| "request_valid (Start t) \<longleftrightarrow> token_ok KindThread t"
| "request_valid (Abort t) \<longleftrightarrow> token_ok KindThread t"
| "request_valid (Join t w) \<longleftrightarrow> token_ok KindThread t"
| "request_valid (Detach t) \<longleftrightarrow> token_ok KindThread t"
| "request_valid (RequestStop t) \<longleftrightarrow> token_ok KindThread t"
| "request_valid (Observe t) \<longleftrightarrow> token_ok KindThread t"
| "request_valid Current \<longleftrightarrow> True"
| "request_valid (Exit value) \<longleftrightarrow> True"
| "request_valid (Sleep w) \<longleftrightarrow> True"
| "request_valid (CreateMutex p) \<longleftrightarrow> True"
| "request_valid CreateCondition \<longleftrightarrow> True"
| "request_valid (CreatePermit permits maximum) \<longleftrightarrow> 0 < maximum \<and> permits \<le> maximum"
| "request_valid (Lock t w) \<longleftrightarrow> token_ok KindMutex t"
| "request_valid (Unlock t) \<longleftrightarrow> token_ok KindMutex t"
| "request_valid (ConditionWait c m w) \<longleftrightarrow> token_ok KindCondition c \<and> token_ok KindMutex m"
| "request_valid (Notify c b) \<longleftrightarrow> token_ok KindCondition c"
| "request_valid (AcquirePermit t w) \<longleftrightarrow> token_ok KindPermit t"
| "request_valid (ReleasePermit t permits) \<longleftrightarrow> token_ok KindPermit t \<and> 0 < permits"
| "request_valid (DestroyMutex t) \<longleftrightarrow> token_ok KindMutex t"
| "request_valid (DestroyCondition t) \<longleftrightarrow> token_ok KindCondition t"
| "request_valid (DestroyPermit t) \<longleftrightarrow> token_ok KindPermit t"

lemma ucast_order:
  "(ucast v :: u64) \<le> ucast w \<longleftrightarrow> v \<le> (w :: u32)" "0 < (ucast w :: u64) \<longleftrightarrow> 0 < w"
proof -
  have u: "unat (ucast x :: u64) = unat (x :: u32)" for x
    using unsigned_less [of x, where 'a = nat] by (simp add: unsigned_ucast_eq take_bit_nat_eq_self)
  show "(ucast v :: u64) \<le> ucast w \<longleftrightarrow> v \<le> w" by (simp add: word_le_nat_alt u)
  show "0 < (ucast w :: u64) \<longleftrightarrow> 0 < w" by (simp add: word_less_nat_alt u)
qed

lemma request_valid_decodes:
  "(\<exists>used. decode_words (request_interface r) (request_opcode r) (request_words r) = Inr (r, used) \<and>
      (\<forall>w\<in>set (drop used (request_words r)). w = 0)) \<longleftrightarrow> request_valid r"
proof -
  have tok: "token_of_kind (token_bits t) k = Inr t' \<longleftrightarrow> token_ok k t \<and> t' = t" for t t' k
    by (cases t) (auto simp: token_ok_def dest: token_of_kindD)
  have narrow: "u32_try_from (ucast v) = Inr v' \<longleftrightarrow> v' = v" for v v'
    using u32_try_from_iff [of "ucast v" v] u32_try_from_iff [of "ucast v" v'] by auto
  have own: "owner_death_value p \<le> 1" "owner_death_value p = 0 \<longleftrightarrow> p = Poison"
    "FailProcess = p \<longleftrightarrow> p \<noteq> Poison" for p by (cases p; simp)+
  have bool: "of_bool b \<le> (1::u64)" "of_bool b = (1::u64) \<longleftrightarrow> b" for b by (cases b; simp)+
  show ?thesis
    by (cases r)
      (auto simp: decode_words_def decode_control_def decode_sync_def request_words_def copy_zero_words zero_words Let_def
        wait_mode_decode_iff wait_mode_waiting_iff result_simps narrow tok own bool ucast_order
        simp del: wait_mode_words.simps split: if_splits prod.splits owner_death.splits)
qed

lemma request_decode_sound:
  assumes "request_decode i bytes = Inr r"
  shows "i = request_interface r \<and> bytes = request_record r"
proof -
  from assms obtain op ws used where d: "length ws = 7" "bytes = record_bytes i op ws" "decode_words i op ws = Inr (r, used)"
    "\<forall>w\<in>set (drop used ws). w = 0" unfolding request_decode_iff by blast
  with decode_words_sound [OF d(1,3,4)] show ?thesis by (simp add: request_record_layout)
qed

lemma request_record_decode:
  assumes "request_decode (request_interface r) (request_record r) = Inr r'"
  shows "r' = r"
proof -
  from assms obtain op ws used where d: "length ws = 7" "request_record r = record_bytes (request_interface r) op ws"
    "decode_words (request_interface r) op ws = Inr (r', used)" unfolding request_decode_iff by blast
  then have "op = request_opcode r" "ws = request_words r"
    by (simp_all add: request_record_layout record_bytes_inject)
  with d(3) show ?thesis by (simp add: decode_words_complete)
qed

lemma request_encode_iff:
  "request_encode r = Inr bytes \<longleftrightarrow>
   bytes = request_record r \<and> request_decode (request_interface r) (request_record r) = Inr r"
  using request_record_decode [of r] by (auto simp: request_encode_def result_simps)

lemma request_encode_valid: "(\<exists>bytes. request_encode r = Inr bytes) \<longleftrightarrow> request_valid r"
proof -
  have "request_decode (request_interface r) (request_record r) = Inr r \<longleftrightarrow> request_valid r"
  proof -
    have "length ws = 7 \<and> record_bytes i p (request_words r) = record_bytes i q ws \<longleftrightarrow> q = p \<and> ws = request_words r" for i p q ws
      using record_bytes_inject [of "request_words r" ws] length_request_words [of r] by metis
    then show ?thesis
      unfolding request_decode_iff request_record_layout request_valid_decodes [symmetric] conj_assoc [symmetric] by simp
  qed
  then show ?thesis by (simp add: request_encode_iff)
qed

lemma request_decode_iff_encode:
  "request_decode i bytes = Inr r \<longleftrightarrow> i = request_interface r \<and> request_encode r = Inr bytes"
  using request_decode_sound [of i bytes r] request_encode_iff [of r bytes] by auto

end
