(* ===== verification/Dispatcher.thy ===== *)
theory Dispatcher
  imports Message Threading_Request Generation_Table
begin

text \<open>
  The capability dispatcher (\<open>troe-dispatch/src/dispatcher.rs\<close> and \<open>scheduler.rs\<close>): service
  ports, owned client handles, built-in scheduler capabilities, and synchronous calls with
  their accounting. A service is a state of the type parameter \<open>'s\<close> with the two operations
  of the trait \<open>Service\<close>, which every definition that calls one takes as an argument; the
  default body of \<open>call_into\<close> is \<open>default_call_into\<close>. Table growth that can fail takes the
  outcome of its reservation as a boolean. Every operation on \<open>&mut self\<close> returns the state it
  leaves, on failure too.
\<close>

section \<open>Scheduler capabilities\<close>

datatype scheduler_interface = ControlV1 | SyncV1

fun scheduler_id :: "scheduler_interface \<Rightarrow> u32" where
  "scheduler_id ControlV1 = THREAD_CONTROL"
| "scheduler_id SyncV1 = THREAD_SYNC"

definition scheduler_version :: "scheduler_interface \<Rightarrow> u16 \<times> u16" where
  "scheduler_version i = (thread_MAJOR, thread_MINOR)"

record authorized_scheduler_call =
  ac_owner :: handle_owner
  ac_request :: thread_request

section \<open>Services\<close>

type_synonym 's service_call = "'s \<Rightarrow> request \<Rightarrow> (dispatch_error, service_reply) result \<times> 's"

type_synonym 's service_call_into =
  "'s \<Rightarrow> request \<Rightarrow> byte list \<Rightarrow> (dispatch_error, service_reply_info) result \<times> 's \<times> byte list"

definition default_call_into :: "'s service_call \<Rightarrow> 's service_call_into" where
  "default_call_into svc_call s request destination =
     (case svc_call s request of
        (Inl e, s') \<Rightarrow> (Inl e, s', destination)
      | (Inr reply, s') \<Rightarrow>
          if length (sr_payload reply) > length destination then (Inl MessageTooLarge, s', destination)
          else let payload_bytes = length (sr_payload reply);
                   written = copy_at 0 (sr_payload reply) destination;
                   nonempty = of_bool (payload_bytes \<noteq> 0)
               in (case checked_mul 64 nonempty 2 of
                     None \<Rightarrow> (Inl AccountingOverflow, s', written)
                   | Some copies \<Rightarrow>
                       (Inr \<lparr>si_status = sr_status reply, si_payload_bytes = payload_bytes,
                             si_payload_copies = copies, si_payload_allocations = nonempty\<rparr>, s', written)))"

section \<open>State\<close>

record 's port_slot =
  ps_generation :: nat
  ps_retired :: bool
  ps_service :: "'s option"

datatype handle_target = TargetService port_id | TargetScheduler scheduler_interface

record handle_binding =
  hb_target :: handle_target
  hb_rights :: rights
  hb_owner :: handle_owner

record handle_slot =
  hs_generation :: nat
  hs_retired :: bool
  hs_binding :: "handle_binding option"

record dispatch_stats =
  ds_live_ports :: nat
  ds_live_handles :: nat
  ds_calls :: nat
  ds_replies :: nat
  ds_request_bytes :: nat
  ds_request_payload_copies :: nat
  ds_request_payload_allocations :: nat
  ds_reply_bytes :: nat
  ds_reply_payload_copies :: nat
  ds_reply_payload_allocations :: nat

record 's dispatcher =
  dp_ports :: "'s port_slot list"
  dp_handles :: "handle_slot list"
  dp_port_capacity :: nat
  dp_handle_capacity :: nat
  dp_next_request_id :: nat
  dp_calls :: nat
  dp_replies :: nat
  dp_request_bytes :: nat
  dp_reply_bytes :: nat
  dp_reply_payload_copies :: nat
  dp_reply_payload_allocations :: nat

definition dispatcher_new :: "bool \<Rightarrow> bool \<Rightarrow> nat \<Rightarrow> nat \<Rightarrow> (dispatch_error, 's dispatcher) result" where
  "dispatcher_new ports_ok handles_ok port_capacity handle_capacity =
     (if port_capacity = 0 \<or> port_capacity > MAX_PORTS \<or> handle_capacity = 0 \<or> handle_capacity > MAX_HANDLES
      then Inl InvalidCapacity
      else if \<not> ports_ok then Inl MetadataExhausted
      else if \<not> handles_ok then Inl MetadataExhausted
      else Inr \<lparr>dp_ports = [], dp_handles = [], dp_port_capacity = port_capacity,
                dp_handle_capacity = handle_capacity, dp_next_request_id = 1, dp_calls = 0, dp_replies = 0,
                dp_request_bytes = 0, dp_reply_bytes = 0, dp_reply_payload_copies = 0,
                dp_reply_payload_allocations = 0\<rparr>)"

section \<open>Lookups\<close>

definition validate_port :: "'s dispatcher \<Rightarrow> port_id \<Rightarrow> (dispatch_error, unit) result" where
  "validate_port d port =
     (if pi_slot port \<ge> length (dp_ports d) then Inl InvalidPort
      else let slot = dp_ports d ! pi_slot port in
        if ps_generation slot \<noteq> pi_generation port \<or> ps_service slot = None then Inl InvalidPort
        else Inr ())"

definition binding_of :: "'s dispatcher \<Rightarrow> handle \<Rightarrow> (dispatch_error, handle_binding) result" where
  "binding_of d h =
     (if h_slot h \<ge> length (dp_handles d) then Inl InvalidHandle
      else let slot = dp_handles d ! h_slot h in
        if hs_generation slot \<noteq> h_generation h then Inl InvalidHandle
        else ok_or InvalidHandle (hs_binding slot))"

text \<open>\<open>handle_slot_mut\<close>: the index of the slot that the returned reference points to.\<close>

definition handle_slot_mut :: "'s dispatcher \<Rightarrow> handle \<Rightarrow> (dispatch_error, nat) result" where
  "handle_slot_mut d h =
     (if h_slot h \<ge> length (dp_handles d) then Inl InvalidHandle
      else let slot = dp_handles d ! h_slot h in
        if hs_generation slot \<noteq> h_generation h \<or> hs_binding slot = None then Inl InvalidHandle
        else Inr (h_slot h))"

section \<open>Opening and closing\<close>

definition allocate_handle ::
    "bool \<Rightarrow> 's dispatcher \<Rightarrow> handle_binding \<Rightarrow> (dispatch_error, handle) result \<times> 's dispatcher" where
  "allocate_handle reserve_ok d binding =
     (if hb_owner binding = IsolatedTask 0 then (Inl InvalidOwner, d)
      else case position (\<lambda>slot. hs_binding slot = None \<and> \<not> hs_retired slot) (dp_handles d) of
        Some index \<Rightarrow>
          (let slot = dp_handles d ! index;
               d' = d\<lparr>dp_handles := (dp_handles d)[index := slot\<lparr>hs_binding := Some binding\<rparr>]\<rparr>
           in (rbind (ok_or AccountingOverflow (try_into 32 index))
                 (\<lambda>i. Inr \<lparr>h_slot = i, h_generation = hs_generation slot\<rparr>), d'))
      | None \<Rightarrow>
          if length (dp_handles d) = dp_handle_capacity d then (Inl HandleCapacityExhausted, d)
          else if \<not> reserve_ok then (Inl MetadataExhausted, d)
          else (rbind (ok_or AccountingOverflow (try_into 32 (length (dp_handles d))))
                  (\<lambda>i. Inr \<lparr>h_slot = i, h_generation = 1\<rparr>),
                d\<lparr>dp_handles := dp_handles d @
                   [\<lparr>hs_generation = 1, hs_retired = False, hs_binding = Some binding\<rparr>]\<rparr>))"

definition open_owned ::
    "bool \<Rightarrow> 's dispatcher \<Rightarrow> port_id \<Rightarrow> rights \<Rightarrow> handle_owner \<Rightarrow>
     (dispatch_error, handle) result \<times> 's dispatcher" where
  "open_owned reserve_ok d port rights owner =
     (if owner = IsolatedTask 0 then (Inl InvalidOwner, d)
      else case validate_port d port of
        Inl e \<Rightarrow> (Inl e, d)
      | Inr _ \<Rightarrow> allocate_handle reserve_ok d
          \<lparr>hb_target = TargetService port, hb_rights = rights, hb_owner = owner\<rparr>)"

definition dispatcher_open ::
    "bool \<Rightarrow> 's dispatcher \<Rightarrow> port_id \<Rightarrow> rights \<Rightarrow> (dispatch_error, handle) result \<times> 's dispatcher" where
  "dispatcher_open reserve_ok d port rights = open_owned reserve_ok d port rights KernelOwner"

definition open_scheduler_owned ::
    "bool \<Rightarrow> 's dispatcher \<Rightarrow> scheduler_interface \<Rightarrow> rights \<Rightarrow> handle_owner \<Rightarrow>
     (dispatch_error, handle) result \<times> 's dispatcher" where
  "open_scheduler_owned reserve_ok d interface rights owner =
     (if \<not> live_task owner then (Inl InvalidOwner, d)
      else case rights_for_interface rights (scheduler_id interface) of
        Inl e \<Rightarrow> (Inl e, d)
      | Inr rights \<Rightarrow> allocate_handle reserve_ok d
          \<lparr>hb_target = TargetScheduler interface, hb_rights = rights, hb_owner = owner\<rparr>)"

definition allocate_port ::
    "bool \<Rightarrow> 's dispatcher \<Rightarrow> 's \<Rightarrow> (dispatch_error, port_id) result \<times> 's dispatcher" where
  "allocate_port reserve_ok d service =
     (case position (\<lambda>slot. ps_service slot = None \<and> \<not> ps_retired slot) (dp_ports d) of
        Some index \<Rightarrow>
          (let slot = dp_ports d ! index;
               d' = d\<lparr>dp_ports := (dp_ports d)[index := slot\<lparr>ps_service := Some service\<rparr>]\<rparr>
           in (rbind (ok_or AccountingOverflow (try_into 32 index))
                 (\<lambda>i. Inr \<lparr>pi_slot = i, pi_generation = ps_generation slot\<rparr>), d'))
      | None \<Rightarrow>
          if length (dp_ports d) = dp_port_capacity d then (Inl PortCapacityExhausted, d)
          else if \<not> reserve_ok then (Inl MetadataExhausted, d)
          else (rbind (ok_or AccountingOverflow (try_into 32 (length (dp_ports d))))
                  (\<lambda>i. Inr \<lparr>pi_slot = i, pi_generation = 1\<rparr>),
                d\<lparr>dp_ports := dp_ports d @
                   [\<lparr>ps_generation = 1, ps_retired = False, ps_service = Some service\<rparr>]\<rparr>))"

definition release_handle :: "handle_slot \<Rightarrow> handle_slot" where
  "release_handle slot =
     (case checked_add 32 (hs_generation slot) 1 of
        Some generation \<Rightarrow> slot\<lparr>hs_binding := None, hs_generation := generation\<rparr>
      | None \<Rightarrow> slot\<lparr>hs_binding := None, hs_retired := True\<rparr>)"

definition release_handles :: "(handle_binding \<Rightarrow> bool) \<Rightarrow> handle_slot list \<Rightarrow> handle_slot list" where
  "release_handles P slots =
     map (\<lambda>slot. case hs_binding slot of
            Some binding \<Rightarrow> if P binding then release_handle slot else slot
          | None \<Rightarrow> slot) slots"

definition dispatcher_close :: "'s dispatcher \<Rightarrow> handle \<Rightarrow> (dispatch_error, unit) result \<times> 's dispatcher" where
  "dispatcher_close d h =
     (case handle_slot_mut d h of
        Inl e \<Rightarrow> (Inl e, d)
      | Inr index \<Rightarrow>
          (Inr (), d\<lparr>dp_handles := (dp_handles d)[index := release_handle (dp_handles d ! index)]\<rparr>))"

definition close_owner :: "'s dispatcher \<Rightarrow> handle_owner \<Rightarrow> (dispatch_error, nat) result \<times> 's dispatcher" where
  "close_owner d owner =
     (if \<not> live_task owner then (Inl InvalidOwner, d)
      else let matching = count_if (\<lambda>slot. case hs_binding slot of
                 Some binding \<Rightarrow> hb_owner binding = owner | None \<Rightarrow> False) (dp_handles d)
      in case try_into 16 matching of
           None \<Rightarrow> (Inl AccountingOverflow, d)
         | Some matching \<Rightarrow>
             (Inr matching, d\<lparr>dp_handles := release_handles (\<lambda>b. hb_owner b = owner) (dp_handles d)\<rparr>))"

definition release_port :: "'s port_slot \<Rightarrow> 's port_slot" where
  "release_port slot =
     (case checked_add 32 (ps_generation slot) 1 of
        Some generation \<Rightarrow> slot\<lparr>ps_service := None, ps_generation := generation\<rparr>
      | None \<Rightarrow> slot\<lparr>ps_service := None, ps_retired := True\<rparr>)"

definition close_port :: "'s dispatcher \<Rightarrow> port_id \<Rightarrow> (dispatch_error, unit) result \<times> 's dispatcher" where
  "close_port d port =
     (case validate_port d port of
        Inl e \<Rightarrow> (Inl e, d)
      | Inr _ \<Rightarrow>
          (let d' = d\<lparr>dp_handles := release_handles (\<lambda>b. hb_target b = TargetService port) (dp_handles d)\<rparr>
           in if pi_slot port \<ge> length (dp_ports d') then (Inl InvalidPort, d')
              else (Inr (), d'\<lparr>dp_ports := (dp_ports d')[pi_slot port := release_port (dp_ports d' ! pi_slot port)]\<rparr>)))"

definition dispatcher_register ::
    "bool \<Rightarrow> bool \<Rightarrow> 's dispatcher \<Rightarrow> 's \<Rightarrow> rights \<Rightarrow>
     (dispatch_error, port_id \<times> handle) result \<times> 's dispatcher" where
  "dispatcher_register port_reserve handle_reserve d service rights =
     (case allocate_port port_reserve d service of
        (Inl e, d') \<Rightarrow> (Inl e, d')
      | (Inr port, d') \<Rightarrow>
          (case dispatcher_open handle_reserve d' port rights of
             (Inr h, d'') \<Rightarrow> (Inr (port, h), d'')
           | (Inl e, d'') \<Rightarrow> (Inl e, snd (close_port d'' port))))"

section \<open>Calls\<close>

text \<open>
  The checks and counters that \<open>call\<close> and \<open>call_into\<close> run before they reach the service, and
  those they run on its reply.
\<close>

definition admit_call ::
    "'s dispatcher \<Rightarrow> handle \<Rightarrow> nat \<Rightarrow> byte list \<Rightarrow> (dispatch_error, port_id \<times> request \<times> 's dispatcher) result" where
  "admit_call d h opcode payload =
     rbind (binding_of d h) (\<lambda>binding.
     if \<not> rights_contains (hb_rights binding) right_CALL then Inl PermissionDenied
     else case hb_target binding of
       TargetScheduler _ \<Rightarrow> Inl InvalidHandle
     | TargetService port \<Rightarrow>
         rbind (validate_port d port) (\<lambda>_.
         rbind (ok_or AccountingOverflow (checked_add 64 (dp_next_request_id d) 1)) (\<lambda>next_request_id.
         rbind (ok_or AccountingOverflow (checked_add 64 (dp_calls d) 1)) (\<lambda>calls.
         rbind (ok_or AccountingOverflow (try_into 64 (length payload))) (\<lambda>payload_bytes.
         rbind (ok_or AccountingOverflow (checked_add 64 (dp_request_bytes d) payload_bytes)) (\<lambda>request_bytes.
         Inr (port, \<lparr>rq_id = dp_next_request_id d, rq_opcode = opcode, rq_payload = payload\<rparr>,
              d\<lparr>dp_next_request_id := next_request_id, dp_calls := calls, dp_request_bytes := request_bytes\<rparr>)))))))"

definition service_of :: "'s dispatcher \<Rightarrow> port_id \<Rightarrow> 's option" where
  "service_of d port =
     (if pi_slot port < length (dp_ports d) then ps_service (dp_ports d ! pi_slot port) else None)"

definition set_service :: "'s dispatcher \<Rightarrow> port_id \<Rightarrow> 's \<Rightarrow> 's dispatcher" where
  "set_service d port s =
     d\<lparr>dp_ports := (dp_ports d)[pi_slot port := (dp_ports d ! pi_slot port)\<lparr>ps_service := Some s\<rparr>]\<rparr>"

definition count_reply :: "'s dispatcher \<Rightarrow> nat \<Rightarrow> nat \<Rightarrow> nat \<Rightarrow> (dispatch_error, 's dispatcher) result" where
  "count_reply d payload_bytes copies allocations =
     rbind (ok_or AccountingOverflow (checked_add 64 (dp_replies d) 1)) (\<lambda>replies.
     rbind (ok_or AccountingOverflow (try_into 64 payload_bytes)) (\<lambda>payload_bytes.
     rbind (ok_or AccountingOverflow (checked_add 64 (dp_reply_bytes d) payload_bytes)) (\<lambda>reply_bytes.
     rbind (ok_or AccountingOverflow (checked_add 64 (dp_reply_payload_copies d) copies)) (\<lambda>copies.
     rbind (ok_or AccountingOverflow (checked_add 64 (dp_reply_payload_allocations d) allocations)) (\<lambda>allocations.
     Inr (d\<lparr>dp_replies := replies, dp_reply_bytes := reply_bytes, dp_reply_payload_copies := copies,
            dp_reply_payload_allocations := allocations\<rparr>))))))"

definition dispatcher_call ::
    "'s service_call \<Rightarrow> 's dispatcher \<Rightarrow> handle \<Rightarrow> nat \<Rightarrow> byte list \<Rightarrow>
     (dispatch_error, reply) result \<times> 's dispatcher" where
  "dispatcher_call svc_call d h opcode payload =
     (if length payload > MAX_MESSAGE_BYTES then (Inl MessageTooLarge, d)
      else case admit_call d h opcode payload of
        Inl e \<Rightarrow> (Inl e, d)
      | Inr (port, request, d1) \<Rightarrow>
         (case service_of d1 port of
            None \<Rightarrow> (Inl InvalidPort, d1)
          | Some s \<Rightarrow>
             (case svc_call s request of
                (Inl e, s') \<Rightarrow> (Inl e, set_service d1 port s')
              | (Inr service_reply, s') \<Rightarrow>
                  let d2 = set_service d1 port s' in
                  if length (sr_payload service_reply) > MAX_MESSAGE_BYTES then (Inl MessageTooLarge, d2)
                  else let nonempty = of_bool (sr_payload service_reply \<noteq> []) in
                    (case count_reply d2 (length (sr_payload service_reply)) nonempty nonempty of
                       Inl e \<Rightarrow> (Inl e, d2)
                     | Inr d3 \<Rightarrow>
                         (Inr \<lparr>rp_request_id = rq_id request, rp_status = sr_status service_reply,
                               rp_payload = sr_payload service_reply\<rparr>, d3)))))"

definition dispatcher_call_into ::
    "'s service_call_into \<Rightarrow> 's dispatcher \<Rightarrow> handle \<Rightarrow> nat \<Rightarrow> byte list \<Rightarrow> byte list \<Rightarrow>
     (dispatch_error, reply_info) result \<times> 's dispatcher \<times> byte list" where
  "dispatcher_call_into svc_call_into d h opcode payload destination =
     (if length payload > MAX_MESSAGE_BYTES \<or> length destination > MAX_MESSAGE_BYTES
      then (Inl MessageTooLarge, d, destination)
      else case admit_call d h opcode payload of
        Inl e \<Rightarrow> (Inl e, d, destination)
      | Inr (port, request, d1) \<Rightarrow>
         (case service_of d1 port of
            None \<Rightarrow> (Inl InvalidPort, d1, destination)
          | Some s \<Rightarrow>
             (case svc_call_into s request destination of
                (Inl e, s', written) \<Rightarrow> (Inl e, set_service d1 port s', written)
              | (Inr info, s', written) \<Rightarrow>
                  let d2 = set_service d1 port s' in
                  if si_payload_bytes info > length destination \<or> si_payload_bytes info > MAX_MESSAGE_BYTES
                  then (Inl MessageTooLarge, d2, written)
                  else
                    (case count_reply d2 (si_payload_bytes info) (si_payload_copies info) (si_payload_allocations info) of
                       Inl e \<Rightarrow> (Inl e, d2, written)
                     | Inr d3 \<Rightarrow>
                         (Inr \<lparr>ri_request_id = rq_id request, ri_status = si_status info,
                               ri_payload_bytes = si_payload_bytes info\<rparr>, d3, written)))))"

text \<open>The owner check that every ABI entry point starts with.\<close>

definition owned_handle :: "'s dispatcher \<Rightarrow> handle_owner \<Rightarrow> u64 \<Rightarrow> (dispatch_error, handle \<times> handle_binding) result" where
  "owned_handle d owner value =
     (if \<not> live_task owner then Inl InvalidOwner
      else rbind (handle_from_abi_value value) (\<lambda>h.
        rbind (binding_of d h) (\<lambda>binding.
          if hb_owner binding \<noteq> owner then Inl InvalidHandle else Inr (h, binding))))"

definition call_owned_abi ::
    "'s service_call \<Rightarrow> 's dispatcher \<Rightarrow> handle_owner \<Rightarrow> u64 \<Rightarrow> nat \<Rightarrow> byte list \<Rightarrow>
     (dispatch_error, reply) result \<times> 's dispatcher" where
  "call_owned_abi svc_call d owner value opcode payload =
     (case owned_handle d owner value of
        Inl e \<Rightarrow> (Inl e, d)
      | Inr (h, _) \<Rightarrow> dispatcher_call svc_call d h opcode payload)"

definition call_owned_abi_into ::
    "'s service_call_into \<Rightarrow> 's dispatcher \<Rightarrow> handle_owner \<Rightarrow> u64 \<Rightarrow> nat \<Rightarrow> byte list \<Rightarrow> byte list \<Rightarrow>
     (dispatch_error, reply_info) result \<times> 's dispatcher \<times> byte list" where
  "call_owned_abi_into svc_call_into d owner value opcode payload destination =
     (case owned_handle d owner value of
        Inl e \<Rightarrow> (Inl e, d, destination)
      | Inr (h, _) \<Rightarrow> dispatcher_call_into svc_call_into d h opcode payload destination)"

definition authorize_scheduler_owned_abi ::
    "'s dispatcher \<Rightarrow> handle_owner \<Rightarrow> u64 \<Rightarrow> byte list \<Rightarrow> (dispatch_error, authorized_scheduler_call) result" where
  "authorize_scheduler_owned_abi d owner value bytes =
     rbind (owned_handle d owner value) (\<lambda>(h, binding).
     case hb_target binding of
       TargetService _ \<Rightarrow> Inl InvalidHandle
     | TargetScheduler interface \<Rightarrow>
         rbind (map_err (\<lambda>_. InvalidCall) (request_decode (scheduler_id interface) bytes)) (\<lambda>request.
         rbind (rights_from_bits (ucast (required_rights request))) (\<lambda>required.
         if \<not> rights_contains (hb_rights binding) required then Inl PermissionDenied
         else Inr \<lparr>ac_owner = owner, ac_request = request\<rparr>)))"

definition dispatcher_stats :: "'s dispatcher \<Rightarrow> dispatch_stats" where
  "dispatcher_stats d =
     \<lparr>ds_live_ports = (case try_into 32 (count_if (\<lambda>slot. ps_service slot \<noteq> None) (dp_ports d)) of
         None \<Rightarrow> 2 ^ 32 - 1 | Some n \<Rightarrow> n),
      ds_live_handles = (case try_into 32 (count_if (\<lambda>slot. hs_binding slot \<noteq> None) (dp_handles d)) of
         None \<Rightarrow> 2 ^ 32 - 1 | Some n \<Rightarrow> n),
      ds_calls = dp_calls d, ds_replies = dp_replies d, ds_request_bytes = dp_request_bytes d,
      ds_request_payload_copies = 0, ds_request_payload_allocations = 0, ds_reply_bytes = dp_reply_bytes d,
      ds_reply_payload_copies = dp_reply_payload_copies d,
      ds_reply_payload_allocations = dp_reply_payload_allocations d\<rparr>"

end
