(* ===== verification/Dispatcher_Invariant.thy ===== *)
theory Dispatcher_Invariant
  imports Dispatcher
begin

text \<open>
  What the dispatcher's tables mean and what every operation keeps. \<open>handle_view\<close> and
  \<open>port_view\<close> read the tables as partial maps from identities to bindings and services; the
  invariant says that no live handle names a dead port, that retired slots are empty, and
  that the counters agree. Each operation is then described by its effect on the two maps.
\<close>

section \<open>Tables as maps\<close>

definition slot_view :: "handle_slot list \<Rightarrow> handle \<Rightarrow> handle_binding option" where
  "slot_view slots h =
     (if h_slot h < length slots \<and> hs_generation (slots ! h_slot h) = h_generation h
      then hs_binding (slots ! h_slot h) else None)"

definition handle_view :: "'s dispatcher \<Rightarrow> handle \<Rightarrow> handle_binding option" where
  "handle_view d = slot_view (dp_handles d)"

definition ports_view :: "'s port_slot list \<Rightarrow> port_id \<Rightarrow> 's option" where
  "ports_view ports p =
     (if pi_slot p < length ports \<and> ps_generation (ports ! pi_slot p) = pi_generation p
      then ps_service (ports ! pi_slot p) else None)"

definition port_view :: "'s dispatcher \<Rightarrow> port_id \<Rightarrow> 's option" where
  "port_view d = ports_view (dp_ports d)"

lemma handle_eq_iff: "h = \<lparr>h_slot = i, h_generation = g\<rparr> \<longleftrightarrow> h_slot h = i \<and> h_generation h = g"
  by (cases h) auto

lemma port_eq_iff: "p = \<lparr>pi_slot = i, pi_generation = g\<rparr> \<longleftrightarrow> pi_slot p = i \<and> pi_generation p = g"
  by (cases p) auto

lemma binding_of_view: "binding_of d h = ok_or InvalidHandle (handle_view d h)"
  by (auto simp: binding_of_def handle_view_def slot_view_def Let_def)

lemma handle_slot_mut_view:
  "handle_slot_mut d h = (if handle_view d h = None then Inl InvalidHandle else Inr (h_slot h))"
  by (auto simp: handle_slot_mut_def handle_view_def slot_view_def Let_def)

lemma validate_port_view:
  "validate_port d p = (if port_view d p = None then Inl InvalidPort else Inr ())"
  by (auto simp: validate_port_def port_view_def ports_view_def Let_def)

lemma service_of_view: "port_view d p = Some s \<Longrightarrow> service_of d p = Some s \<and> pi_slot p < length (dp_ports d)"
  by (auto simp: service_of_def port_view_def ports_view_def split: if_splits)

lemma slot_view_bind:
  assumes "i < length slots" "hs_binding (slots ! i) = None"
  shows "slot_view (slots[i := (slots ! i)\<lparr>hs_binding := Some b\<rparr>]) =
    (slot_view slots)(\<lparr>h_slot = i, h_generation = hs_generation (slots ! i)\<rparr> \<mapsto> b)"
    and "slot_view slots \<lparr>h_slot = i, h_generation = g\<rparr> = None"
proof -
  show "slot_view (slots[i := (slots ! i)\<lparr>hs_binding := Some b\<rparr>]) =
    (slot_view slots)(\<lparr>h_slot = i, h_generation = hs_generation (slots ! i)\<rparr> \<mapsto> b)"
  proof
    fix h
    show "slot_view (slots[i := (slots ! i)\<lparr>hs_binding := Some b\<rparr>]) h =
      ((slot_view slots)(\<lparr>h_slot = i, h_generation = hs_generation (slots ! i)\<rparr> \<mapsto> b)) h"
      using assms by (cases "h_slot h = i") (auto simp: slot_view_def handle_eq_iff)
  qed
  show "slot_view slots \<lparr>h_slot = i, h_generation = g\<rparr> = None"
    using assms by (simp add: slot_view_def)
qed

lemma slot_view_append:
  "slot_view (slots @ [\<lparr>hs_generation = g, hs_retired = r, hs_binding = Some b\<rparr>]) =
    (slot_view slots)(\<lparr>h_slot = length slots, h_generation = g\<rparr> \<mapsto> b)"
  "slot_view slots \<lparr>h_slot = length slots, h_generation = g\<rparr> = None"
proof -
  show "slot_view (slots @ [\<lparr>hs_generation = g, hs_retired = r, hs_binding = Some b\<rparr>]) =
    (slot_view slots)(\<lparr>h_slot = length slots, h_generation = g\<rparr> \<mapsto> b)"
  proof
    fix h
    show "slot_view (slots @ [\<lparr>hs_generation = g, hs_retired = r, hs_binding = Some b\<rparr>]) h =
      ((slot_view slots)(\<lparr>h_slot = length slots, h_generation = g\<rparr> \<mapsto> b)) h"
      by (cases "h_slot h = length slots") (auto simp: slot_view_def handle_eq_iff nth_append)
  qed
qed (simp add: slot_view_def)

lemma release_handle_fields [simp]: "hs_binding (release_handle x) = None"
  by (simp add: release_handle_def split: option.split)

lemma slot_view_release:
  assumes "slot_view slots h = Some b"
  shows "slot_view (slots[h_slot h := release_handle (slots ! h_slot h)]) = (slot_view slots)(h := None)"
proof
  fix k
  show "slot_view (slots[h_slot h := release_handle (slots ! h_slot h)]) k = ((slot_view slots)(h := None)) k"
  proof (cases "h_slot k = h_slot h")
    case True
    have "k = h" if "h_generation k = h_generation h" using True that by (cases k; cases h) simp
    with True assms show ?thesis by (auto simp: slot_view_def split: if_splits)
  next
    case False
    then show ?thesis by (auto simp: slot_view_def)
  qed
qed

lemma slot_view_release_all:
  "slot_view (release_handles P slots) h =
     (case slot_view slots h of Some b \<Rightarrow> if P b then None else Some b | None \<Rightarrow> None)"
  by (auto simp: slot_view_def release_handles_def split: option.splits if_splits)

section \<open>Invariant\<close>

definition binding_ok :: "(port_id \<Rightarrow> bool) \<Rightarrow> handle_binding \<Rightarrow> bool" where
  "binding_ok alive b \<longleftrightarrow> hb_owner b \<noteq> IsolatedTask 0 \<and>
     (case hb_target b of
        TargetService p \<Rightarrow> alive p
      | TargetScheduler i \<Rightarrow> live_task (hb_owner b) \<and> hb_rights b AND NOT (allowed_rights (scheduler_id i)) = 0)"

definition handle_slot_ok :: "(port_id \<Rightarrow> bool) \<Rightarrow> handle_slot \<Rightarrow> bool" where
  "handle_slot_ok alive x \<longleftrightarrow> 0 < hs_generation x \<and> hs_generation x < 2 ^ 32 \<and>
     (hs_retired x \<longrightarrow> hs_binding x = None) \<and> (\<forall>b. hs_binding x = Some b \<longrightarrow> binding_ok alive b)"

definition port_slot_ok :: "'s port_slot \<Rightarrow> bool" where
  "port_slot_ok x \<longleftrightarrow> 0 < ps_generation x \<and> ps_generation x < 2 ^ 32 \<and> (ps_retired x \<longrightarrow> ps_service x = None)"

definition dispatcher_ok :: "'s dispatcher \<Rightarrow> bool" where
  "dispatcher_ok d \<longleftrightarrow>
     length (dp_ports d) \<le> dp_port_capacity d \<and> dp_port_capacity d \<le> MAX_PORTS \<and>
     length (dp_handles d) \<le> dp_handle_capacity d \<and> dp_handle_capacity d \<le> MAX_HANDLES \<and>
     (\<forall>x\<in>set (dp_ports d). port_slot_ok x) \<and>
     (\<forall>x\<in>set (dp_handles d). handle_slot_ok (\<lambda>p. port_view d p \<noteq> None) x) \<and>
     dp_next_request_id d = dp_calls d + 1 \<and> dp_next_request_id d < 2 ^ 64 \<and> dp_replies d \<le> dp_calls d"

lemma dispatcher_new_ok:
  "dispatcher_new ports_ok handles_ok port_capacity handle_capacity = Inr d \<Longrightarrow>
   dispatcher_ok d \<and> handle_view d = Map.empty \<and> port_view d = Map.empty"
  by (auto simp: dispatcher_new_def dispatcher_ok_def handle_view_def slot_view_def port_view_def ports_view_def
      fun_eq_iff split: if_splits)

lemma binding_ok_mono: "binding_ok A b \<Longrightarrow> (\<And>p. A p \<Longrightarrow> B p) \<Longrightarrow> binding_ok B b"
  by (auto simp: binding_ok_def split: handle_target.splits)

lemma handle_slot_ok_mono: "handle_slot_ok A x \<Longrightarrow> (\<And>p. A p \<Longrightarrow> B p) \<Longrightarrow> handle_slot_ok B x"
  unfolding handle_slot_ok_def using binding_ok_mono by blast

lemma release_handle_ok: "handle_slot_ok A x \<Longrightarrow> handle_slot_ok B (release_handle x)"
  by (auto simp: handle_slot_ok_def release_handle_def checked_simps split: option.splits)

lemma release_port_ok: "port_slot_ok x \<Longrightarrow> port_slot_ok (release_port x)"
  by (auto simp: port_slot_ok_def release_port_def checked_simps split: option.splits)

text \<open>A live handle names a live target, owned by a principal that may own it.\<close>

lemma handle_view_ok:
  assumes "dispatcher_ok d" "handle_view d h = Some b"
  shows "binding_ok (\<lambda>p. port_view d p \<noteq> None) b"
  using assms unfolding dispatcher_ok_def handle_slot_ok_def handle_view_def slot_view_def
  by (auto split: if_splits dest: nth_mem)

section \<open>Identities advance\<close>

abbreviation hs_live :: "handle_slot \<Rightarrow> bool" where
  "hs_live x \<equiv> hs_binding x \<noteq> None"

abbreviation port_bound :: "'s port_slot \<Rightarrow> bool" where
  "port_bound x \<equiv> ps_service x \<noteq> None"

definition handle_floor :: "handle_slot \<Rightarrow> nat" where
  "handle_floor x = hs_generation x + of_bool (hs_retired x)"

definition port_floor :: "'s port_slot \<Rightarrow> nat" where
  "port_floor x = ps_generation x + of_bool (ps_retired x)"

abbreviation handles_advance :: "handle_slot list \<Rightarrow> handle_slot list \<Rightarrow> bool" where
  "handles_advance \<equiv> table_advances hs_generation hs_live handle_floor"

abbreviation ports_advance :: "'s port_slot list \<Rightarrow> 's port_slot list \<Rightarrow> bool" where
  "ports_advance \<equiv> table_advances ps_generation port_bound port_floor"

lemma release_handle_advances:
  "\<not> (hs_retired x \<and> hs_live x) \<Longrightarrow> slot_advances hs_generation hs_live handle_floor x (release_handle x)"
  by (auto simp: slot_advances_def handle_floor_def release_handle_def checked_simps split: option.splits)

lemma release_port_advances:
  "\<not> (ps_retired x \<and> port_bound x) \<Longrightarrow> slot_advances ps_generation port_bound port_floor x (release_port x)"
  by (auto simp: slot_advances_def port_floor_def release_port_def checked_simps split: option.splits)

lemma names_live_handle: "names_live hs_generation hs_live (dp_handles d) i g \<longleftrightarrow> handle_view d \<lparr>h_slot = i, h_generation = g\<rparr> \<noteq> None"
  by (auto simp: names_live_def handle_view_def slot_view_def)

lemma names_live_port: "names_live ps_generation port_bound (dp_ports d) i g \<longleftrightarrow> port_view d \<lparr>pi_slot = i, pi_generation = g\<rparr> \<noteq> None"
  by (auto simp: names_live_def port_view_def ports_view_def)

section \<open>Opening\<close>

abbreviation hs_available :: "handle_slot \<Rightarrow> bool" where
  "hs_available x \<equiv> hs_binding x = None \<and> \<not> hs_retired x"

abbreviation ps_available :: "'s port_slot \<Rightarrow> bool" where
  "ps_available x \<equiv> ps_service x = None \<and> \<not> ps_retired x"

definition handles_full :: "'s dispatcher \<Rightarrow> bool" where
  "handles_full d \<longleftrightarrow> length (dp_handles d) = dp_handle_capacity d \<and> (\<forall>x\<in>set (dp_handles d). \<not> hs_available x)"

definition ports_full :: "'s dispatcher \<Rightarrow> bool" where
  "ports_full d \<longleftrightarrow> length (dp_ports d) = dp_port_capacity d \<and> (\<forall>x\<in>set (dp_ports d). \<not> ps_available x)"

lemma dispatcher_ok_handles:
  assumes "dispatcher_ok d" "length hs \<le> dp_handle_capacity d"
    and "\<And>x. x \<in> set hs \<Longrightarrow> handle_slot_ok (\<lambda>p. port_view d p \<noteq> None) x"
  shows "dispatcher_ok (d\<lparr>dp_handles := hs\<rparr>)"
  using assms by (simp add: dispatcher_ok_def port_view_def)

lemma allocate_handle_ok:
  assumes ok: "dispatcher_ok d" and b: "binding_ok (\<lambda>p. port_view d p \<noteq> None) b"
    and run: "allocate_handle reserve_ok d b = (r, d')"
  shows "dispatcher_ok d' \<and> dp_ports d' = dp_ports d \<and> handles_advance (dp_handles d) (dp_handles d') \<and>
    (case r of
       Inl e \<Rightarrow> d' = d \<and> (if e = HandleCapacityExhausted then handles_full d else e = MetadataExhausted \<and> \<not> reserve_ok)
     | Inr h \<Rightarrow> handle_ok h \<and> handle_view d h = None \<and> handle_view d' = (handle_view d)(h \<mapsto> b))"
proof (cases "position hs_available (dp_handles d)")
  case (Some i)
  let ?x = "dp_handles d ! i"
  let ?y = "?x\<lparr>hs_binding := Some b\<rparr>"
  from position_SomeD [OF Some] have i: "i < length (dp_handles d)" and free: "hs_binding ?x = None" "\<not> hs_retired ?x"
    by auto
  have small: "i < MAX_HANDLES" using i ok by (simp add: dispatcher_ok_def)
  then have run': "r = Inr \<lparr>h_slot = i, h_generation = hs_generation ?x\<rparr>"
      "d' = d\<lparr>dp_handles := (dp_handles d)[i := ?y]\<rparr>"
    using run b Some by (auto simp: allocate_handle_def binding_ok_def Let_def try_into_def MAX_HANDLES_def)
  have x: "handle_slot_ok (\<lambda>p. port_view d p \<noteq> None) ?x" using ok i by (simp add: dispatcher_ok_def)
  have "handle_slot_ok (\<lambda>p. port_view d p \<noteq> None) ?y" using x free b by (simp add: handle_slot_ok_def)
  then have "dispatcher_ok d'"
    unfolding run' using ok by (intro dispatcher_ok_handles [OF ok]) (auto simp: dispatcher_ok_def dest!: set_update_cases)
  moreover have "slot_advances hs_generation hs_live handle_floor ?x ?y"
    using free by (simp add: slot_advances_def handle_floor_def)
  ultimately show ?thesis
    using x small slot_view_bind [OF i free(1)] unfolding run'
    by (simp add: handle_view_def handle_ok_def handle_slot_ok_def table_advances_update)
next
  case None
  then have none: "\<forall>x\<in>set (dp_handles d). \<not> hs_available x" by (simp only: position_None_iff)
  let ?new = "\<lparr>hs_generation = 1, hs_retired = False, hs_binding = Some b\<rparr>"
  consider (full) "r = Inl HandleCapacityExhausted" "d' = d" "length (dp_handles d) = dp_handle_capacity d"
    | (reserve) "r = Inl MetadataExhausted" "d' = d" "\<not> reserve_ok"
    | (grow) "r = Inr \<lparr>h_slot = length (dp_handles d), h_generation = 1\<rparr>"
        "d' = d\<lparr>dp_handles := dp_handles d @ [?new]\<rparr>" "length (dp_handles d) < dp_handle_capacity d"
  proof -
    have bound: "length (dp_handles d) \<le> dp_handle_capacity d" "length (dp_handles d) < 2 ^ 32"
      using ok by (simp_all add: dispatcher_ok_def MAX_HANDLES_def)
    have "hb_owner b \<noteq> IsolatedTask 0" using b by (simp add: binding_ok_def)
    then have "allocate_handle reserve_ok d b =
        (if length (dp_handles d) = dp_handle_capacity d then (Inl HandleCapacityExhausted, d)
         else if \<not> reserve_ok then (Inl MetadataExhausted, d)
         else (Inr \<lparr>h_slot = length (dp_handles d), h_generation = 1\<rparr>, d\<lparr>dp_handles := dp_handles d @ [?new]\<rparr>))"
      using bound(2) by (simp add: allocate_handle_def None try_into_def)
    with run bound(1) that show thesis by (metis le_neq_implies_less prod.inject)
  qed
  then show ?thesis
  proof cases
    case full
    with ok none show ?thesis by (auto simp: handles_full_def)
  next
    case reserve
    with ok show ?thesis by simp
  next
    case grow
    have "handle_slot_ok (\<lambda>p. port_view d p \<noteq> None) ?new" using b by (simp add: handle_slot_ok_def)
    with grow(3) ok have "dispatcher_ok d'"
      unfolding grow(2) by (intro dispatcher_ok_handles [OF ok]) (auto simp: dispatcher_ok_def)
    then show ?thesis
      using grow ok slot_view_append by (simp add: handle_view_def handle_ok_def dispatcher_ok_def table_advances_append)
  qed
qed

lemma ports_view_bind:
  assumes "i < length ports" "ps_service (ports ! i) = None"
  shows "ports_view (ports[i := (ports ! i)\<lparr>ps_service := Some s\<rparr>]) =
    (ports_view ports)(\<lparr>pi_slot = i, pi_generation = ps_generation (ports ! i)\<rparr> \<mapsto> s)"
    and "ports_view ports \<lparr>pi_slot = i, pi_generation = g\<rparr> = None"
proof -
  show "ports_view (ports[i := (ports ! i)\<lparr>ps_service := Some s\<rparr>]) =
    (ports_view ports)(\<lparr>pi_slot = i, pi_generation = ps_generation (ports ! i)\<rparr> \<mapsto> s)"
  proof
    fix p
    show "ports_view (ports[i := (ports ! i)\<lparr>ps_service := Some s\<rparr>]) p =
      ((ports_view ports)(\<lparr>pi_slot = i, pi_generation = ps_generation (ports ! i)\<rparr> \<mapsto> s)) p"
      using assms by (cases "pi_slot p = i") (auto simp: ports_view_def port_eq_iff)
  qed
  show "ports_view ports \<lparr>pi_slot = i, pi_generation = g\<rparr> = None"
    using assms by (simp add: ports_view_def)
qed

lemma ports_view_append:
  "ports_view (ports @ [\<lparr>ps_generation = g, ps_retired = r, ps_service = Some s\<rparr>]) =
    (ports_view ports)(\<lparr>pi_slot = length ports, pi_generation = g\<rparr> \<mapsto> s)"
  "ports_view ports \<lparr>pi_slot = length ports, pi_generation = g\<rparr> = None"
proof -
  show "ports_view (ports @ [\<lparr>ps_generation = g, ps_retired = r, ps_service = Some s\<rparr>]) =
    (ports_view ports)(\<lparr>pi_slot = length ports, pi_generation = g\<rparr> \<mapsto> s)"
  proof
    fix p
    show "ports_view (ports @ [\<lparr>ps_generation = g, ps_retired = r, ps_service = Some s\<rparr>]) p =
      ((ports_view ports)(\<lparr>pi_slot = length ports, pi_generation = g\<rparr> \<mapsto> s)) p"
      by (cases "pi_slot p = length ports") (auto simp: ports_view_def port_eq_iff nth_append)
  qed
qed (simp add: ports_view_def)

lemma dispatcher_ok_ports:
  assumes "dispatcher_ok d" "length ps \<le> dp_port_capacity d" "\<And>x. x \<in> set ps \<Longrightarrow> port_slot_ok x"
    and "\<And>h b p. handle_view d h = Some b \<Longrightarrow> hb_target b = TargetService p \<Longrightarrow> ports_view ps p \<noteq> None"
  shows "dispatcher_ok (d\<lparr>dp_ports := ps\<rparr>)"
proof -
  have "handle_slot_ok (\<lambda>p. ports_view ps p \<noteq> None) x" if x: "x \<in> set (dp_handles d)" for x
  proof -
    from x obtain i where i: "i < length (dp_handles d)" "x = dp_handles d ! i" by (auto simp: in_set_conv_nth)
    have ok: "handle_slot_ok (\<lambda>p. port_view d p \<noteq> None) x" using assms(1) x by (simp add: dispatcher_ok_def)
    have "ports_view ps p \<noteq> None" if "hs_binding x = Some b" "hb_target b = TargetService p" for b p
      using assms(4) [of "\<lparr>h_slot = i, h_generation = hs_generation x\<rparr>" b p] that i
      by (simp add: handle_view_def slot_view_def)
    with ok show ?thesis by (auto simp: handle_slot_ok_def binding_ok_def split: handle_target.splits)
  qed
  with assms(1-3) show ?thesis by (simp add: dispatcher_ok_def port_view_def)
qed

lemma allocate_port_ok:
  assumes ok: "dispatcher_ok d" and run: "allocate_port reserve_ok d s = (r, d')"
  shows "dispatcher_ok d' \<and> dp_handles d' = dp_handles d \<and> ports_advance (dp_ports d) (dp_ports d') \<and>
    (case r of
       Inl e \<Rightarrow> d' = d \<and> (if e = PortCapacityExhausted then ports_full d else e = MetadataExhausted \<and> \<not> reserve_ok)
     | Inr p \<Rightarrow> port_view d p = None \<and> port_view d' = (port_view d)(p \<mapsto> s))"
proof -
  have live: "port_view d p \<noteq> None" if "handle_view d h = Some b" "hb_target b = TargetService p" for h b p
    using handle_view_ok [OF ok that(1)] that(2) by (simp add: binding_ok_def)
  show ?thesis
  proof (cases "position ps_available (dp_ports d)")
    case (Some i)
    let ?x = "dp_ports d ! i"
    let ?y = "?x\<lparr>ps_service := Some s\<rparr>"
    from position_SomeD [OF Some] have i: "i < length (dp_ports d)" and free: "ps_service ?x = None" "\<not> ps_retired ?x"
      by auto
    have "i < 2 ^ 32" using i ok by (simp add: dispatcher_ok_def MAX_PORTS_def)
    then have run': "r = Inr \<lparr>pi_slot = i, pi_generation = ps_generation ?x\<rparr>"
        "d' = d\<lparr>dp_ports := (dp_ports d)[i := ?y]\<rparr>"
      using run by (simp_all add: allocate_port_def Some Let_def try_into_def)
    have "port_slot_ok ?y" using ok i free by (simp add: dispatcher_ok_def port_slot_ok_def)
    moreover have "slot_advances ps_generation port_bound port_floor ?x ?y"
      using free by (simp add: slot_advances_def port_floor_def)
    moreover note view = ports_view_bind [OF i free(1)]
    have "ports_view ((dp_ports d)[i := ?y]) p \<noteq> None" if "handle_view d h = Some b" "hb_target b = TargetService p" for h b p
      using live [OF that] unfolding view port_view_def by simp
    ultimately have "dispatcher_ok d'"
      unfolding run'(2) using ok by (intro dispatcher_ok_ports [OF ok]) (auto simp: dispatcher_ok_def dest!: set_update_cases)
    with \<open>slot_advances ps_generation port_bound port_floor ?x ?y\<close> show ?thesis
      using view unfolding run' by (simp add: port_view_def table_advances_update)
  next
    case None
    then have none: "\<forall>x\<in>set (dp_ports d). \<not> ps_available x" by (simp only: position_None_iff)
    let ?new = "\<lparr>ps_generation = 1, ps_retired = False, ps_service = Some s\<rparr>"
    have bound: "length (dp_ports d) \<le> dp_port_capacity d" "length (dp_ports d) < 2 ^ 32"
      using ok by (simp_all add: dispatcher_ok_def MAX_PORTS_def)
    have "allocate_port reserve_ok d s =
        (if length (dp_ports d) = dp_port_capacity d then (Inl PortCapacityExhausted, d)
         else if \<not> reserve_ok then (Inl MetadataExhausted, d)
         else (Inr \<lparr>pi_slot = length (dp_ports d), pi_generation = 1\<rparr>, d\<lparr>dp_ports := dp_ports d @ [?new]\<rparr>))"
      using bound(2) by (simp add: allocate_port_def None try_into_def)
    with run bound(1) consider (full) "r = Inl PortCapacityExhausted" "d' = d" "length (dp_ports d) = dp_port_capacity d"
      | (reserve) "r = Inl MetadataExhausted" "d' = d" "\<not> reserve_ok"
      | (grow) "r = Inr \<lparr>pi_slot = length (dp_ports d), pi_generation = 1\<rparr>"
          "d' = d\<lparr>dp_ports := dp_ports d @ [?new]\<rparr>" "length (dp_ports d) < dp_port_capacity d"
      by (metis le_neq_implies_less prod.inject)
    then show ?thesis
    proof cases
      case full
      with ok none show ?thesis by (auto simp: ports_full_def)
    next
      case reserve
      with ok show ?thesis by simp
    next
      case grow
      have "port_slot_ok ?new" by (simp add: port_slot_ok_def)
      moreover have "ports_view (dp_ports d @ [?new]) p \<noteq> None"
        if "handle_view d h = Some b" "hb_target b = TargetService p" for h b p
        using live [OF that] unfolding ports_view_append port_view_def by simp
      ultimately have "dispatcher_ok d'"
        unfolding grow(2) using ok grow(3) by (intro dispatcher_ok_ports [OF ok]) (auto simp: dispatcher_ok_def)
      then show ?thesis
        using grow ports_view_append [of "dp_ports d"] by (simp add: port_view_def table_advances_append)
    qed
  qed
qed

lemma open_owned_ok:
  assumes ok: "dispatcher_ok d" and run: "open_owned reserve_ok d port rights owner = (r, d')"
  shows "dispatcher_ok d' \<and> dp_ports d' = dp_ports d \<and> handles_advance (dp_handles d) (dp_handles d') \<and>
    (case r of
       Inl e \<Rightarrow> d' = d \<and> e =
         (if owner = IsolatedTask 0 then InvalidOwner else if port_view d port = None then InvalidPort
          else if handles_full d then HandleCapacityExhausted else MetadataExhausted) \<and>
         (owner = IsolatedTask 0 \<or> port_view d port = None \<or> handles_full d \<or> \<not> reserve_ok)
     | Inr h \<Rightarrow> handle_ok h \<and> handle_view d h = None \<and> port_view d port \<noteq> None \<and>
         handle_view d' = (handle_view d)(h \<mapsto> \<lparr>hb_target = TargetService port, hb_rights = rights, hb_owner = owner\<rparr>))"
proof -
  consider (owner) "owner = IsolatedTask 0" | (port) "owner \<noteq> IsolatedTask 0" "port_view d port = None"
    | (alloc) "owner \<noteq> IsolatedTask 0" "port_view d port \<noteq> None" by blast
  then show ?thesis
  proof cases
    case alloc
    let ?b = "\<lparr>hb_target = TargetService port, hb_rights = rights, hb_owner = owner\<rparr>"
    have "binding_ok (\<lambda>p. port_view d p \<noteq> None) ?b" using alloc by (simp add: binding_ok_def)
    moreover have "allocate_handle reserve_ok d ?b = (r, d')"
      using run alloc by (simp add: open_owned_def validate_port_view)
    ultimately have a: "dispatcher_ok d' \<and> dp_ports d' = dp_ports d \<and> handles_advance (dp_handles d) (dp_handles d') \<and>
      (case r of
         Inl e \<Rightarrow> d' = d \<and> (if e = HandleCapacityExhausted then handles_full d else e = MetadataExhausted \<and> \<not> reserve_ok)
       | Inr h \<Rightarrow> handle_ok h \<and> handle_view d h = None \<and> handle_view d' = (handle_view d)(h \<mapsto> ?b))"
      by (rule allocate_handle_ok [OF ok])
    moreover have "r = Inl HandleCapacityExhausted" if "handles_full d"
    proof -
      have "position hs_available (dp_handles d) = None" using that unfolding handles_full_def position_None_iff by blast
      then show ?thesis
        using that \<open>allocate_handle reserve_ok d ?b = (r, d')\<close> alloc(1) by (simp add: allocate_handle_def handles_full_def)
    qed
    ultimately show ?thesis using alloc by (auto split: sum.splits if_splits)
  qed (use run ok in \<open>auto simp: open_owned_def validate_port_view\<close>)
qed

lemma open_scheduler_owned_ok:
  assumes ok: "dispatcher_ok d" and run: "open_scheduler_owned reserve_ok d interface rights owner = (r, d')"
  shows "dispatcher_ok d' \<and> dp_ports d' = dp_ports d \<and> handles_advance (dp_handles d) (dp_handles d') \<and>
    (case r of
       Inl e \<Rightarrow> d' = d
     | Inr h \<Rightarrow> handle_ok h \<and> handle_view d h = None \<and> live_task owner \<and>
         rights AND NOT (allowed_rights (scheduler_id interface)) = 0 \<and>
         handle_view d' = (handle_view d)(h \<mapsto> \<lparr>hb_target = TargetScheduler interface, hb_rights = rights, hb_owner = owner\<rparr>))"
proof (cases "live_task owner \<and> rights_for_interface rights (scheduler_id interface) = Inr rights")
  case True
  let ?b = "\<lparr>hb_target = TargetScheduler interface, hb_rights = rights, hb_owner = owner\<rparr>"
  from True have masked: "rights AND NOT (allowed_rights (scheduler_id interface)) = 0"
    by (auto simp: rights_for_interface_def Let_def split: if_splits)
  have "owner \<noteq> IsolatedTask 0" using True by auto
  with True masked have "binding_ok (\<lambda>p. port_view d p \<noteq> None) ?b" by (simp add: binding_ok_def)
  moreover have "allocate_handle reserve_ok d ?b = (r, d')"
    using run True by (simp add: open_scheduler_owned_def)
  ultimately have "dispatcher_ok d' \<and> dp_ports d' = dp_ports d \<and> handles_advance (dp_handles d) (dp_handles d') \<and>
      (case r of
         Inl e \<Rightarrow> d' = d \<and> (if e = HandleCapacityExhausted then handles_full d else e = MetadataExhausted \<and> \<not> reserve_ok)
       | Inr h \<Rightarrow> handle_ok h \<and> handle_view d h = None \<and> handle_view d' = (handle_view d)(h \<mapsto> ?b))"
    by (rule allocate_handle_ok [OF ok])
  with True masked show ?thesis by (auto split: sum.splits)
next
  case False
  then have "\<exists>e. r = Inl e" "d' = d"
    using run by (auto simp: open_scheduler_owned_def rights_for_interface_def Let_def split: if_splits)
  with ok show ?thesis by auto
qed

section \<open>Closing\<close>

lemma length_release_handles [simp]: "length (release_handles P hs) = length hs"
  by (simp add: release_handles_def)

lemma release_handles_ok:
  assumes "\<And>x. x \<in> set hs \<Longrightarrow> handle_slot_ok A x"
  shows "(\<forall>x\<in>set (release_handles P hs). handle_slot_ok A x) \<and> handles_advance hs (release_handles P hs)"
proof
  show "\<forall>x\<in>set (release_handles P hs). handle_slot_ok A x"
    using assms release_handle_ok by (fastforce simp: release_handles_def split: option.splits)
  show "handles_advance hs (release_handles P hs)"
    unfolding release_handles_def
  proof (intro table_advances_map)
    fix x assume "x \<in> set hs"
    with assms have "\<not> (hs_retired x \<and> hs_live x)" by (auto simp: handle_slot_ok_def)
    then show "slot_advances hs_generation hs_live handle_floor x
        (case hs_binding x of Some binding \<Rightarrow> if P binding then release_handle x else x | None \<Rightarrow> x)"
      using release_handle_advances [of x] by (cases "hs_binding x") simp_all
  qed
qed

lemma dispatcher_close_ok:
  assumes ok: "dispatcher_ok d" and run: "dispatcher_close d h = (r, d')"
  shows "dispatcher_ok d' \<and> dp_ports d' = dp_ports d \<and> handles_advance (dp_handles d) (dp_handles d') \<and>
    r = (if handle_view d h = None then Inl InvalidHandle else Inr ()) \<and> handle_view d' = (handle_view d)(h := None)"
proof (cases "handle_view d h")
  case None
  with run have "r = Inl InvalidHandle" "d' = d" by (simp_all add: dispatcher_close_def handle_slot_mut_view)
  with ok None show ?thesis by (auto simp: fun_eq_iff)
next
  case (Some b)
  let ?i = "h_slot h" and ?x = "dp_handles d ! h_slot h"
  have run': "r = Inr ()" "d' = d\<lparr>dp_handles := (dp_handles d)[?i := release_handle ?x]\<rparr>"
    using run Some by (simp_all add: dispatcher_close_def handle_slot_mut_view)
  have i: "?i < length (dp_handles d)" using Some by (auto simp: handle_view_def slot_view_def split: if_splits)
  then have x: "handle_slot_ok (\<lambda>p. port_view d p \<noteq> None) ?x" using ok by (simp add: dispatcher_ok_def)
  have "dispatcher_ok d'"
    unfolding run'(2) using ok release_handle_ok [OF x]
    by (intro dispatcher_ok_handles [OF ok]) (auto simp: dispatcher_ok_def dest!: set_update_cases)
  moreover have "slot_advances hs_generation hs_live handle_floor ?x (release_handle ?x)"
    using x by (intro release_handle_advances) (auto simp: handle_slot_ok_def)
  moreover have "handle_view d' = (handle_view d)(h := None)"
    using slot_view_release [OF Some [unfolded handle_view_def]] unfolding run'(2) handle_view_def by simp
  ultimately show ?thesis using Some run' by (simp add: table_advances_update)
qed

lemma close_owner_ok:
  assumes ok: "dispatcher_ok d" and run: "close_owner d owner = (r, d')"
  shows "dispatcher_ok d' \<and> dp_ports d' = dp_ports d \<and> handles_advance (dp_handles d) (dp_handles d') \<and>
    (case r of
       Inl e \<Rightarrow> d' = d \<and> (if live_task owner then e = AccountingOverflow \<and>
          2 ^ 16 \<le> count_if (\<lambda>x. \<exists>b. hs_binding x = Some b \<and> hb_owner b = owner) (dp_handles d) else e = InvalidOwner)
     | Inr n \<Rightarrow> live_task owner \<and> n < 2 ^ 16 \<and> n = count_if (\<lambda>x. \<exists>b. hs_binding x = Some b \<and> hb_owner b = owner) (dp_handles d) \<and>
         (\<forall>h. handle_view d' h = (case handle_view d h of Some b \<Rightarrow> if hb_owner b = owner then None else Some b | None \<Rightarrow> None)))"
proof -
  let ?own = "\<lambda>x. \<exists>b. hs_binding x = Some b \<and> hb_owner b = owner"
  let ?rel = "release_handles (\<lambda>b. hb_owner b = owner) (dp_handles d)"
  define n where "n = count_if ?own (dp_handles d)"
  have "count_if (\<lambda>slot. case hs_binding slot of Some binding \<Rightarrow> hb_owner binding = owner | None \<Rightarrow> False) (dp_handles d) = n"
    unfolding n_def by (intro count_if_cong) (auto split: option.splits)
  then have "close_owner d owner = (if \<not> live_task owner then (Inl InvalidOwner, d)
      else if n < 2 ^ 16 then (Inr n, d\<lparr>dp_handles := ?rel\<rparr>) else (Inl AccountingOverflow, d))"
    by (simp add: close_owner_def Let_def try_into_def)
  then consider (owner) "\<not> live_task owner" "r = Inl InvalidOwner" "d' = d"
    | (many) "live_task owner" "r = Inl AccountingOverflow" "d' = d" "2 ^ 16 \<le> n"
    | (revoked) "live_task owner" "r = Inr n" "d' = d\<lparr>dp_handles := ?rel\<rparr>" "n < 2 ^ 16"
    using run by (metis not_less prod.inject)
  then show ?thesis
  proof cases
    case revoked
    have "handle_slot_ok (\<lambda>p. port_view d p \<noteq> None) x" if "x \<in> set (dp_handles d)" for x
      using ok that by (simp add: dispatcher_ok_def)
    note rel = release_handles_ok [OF this, of "dp_handles d" "\<lambda>b. hb_owner b = owner"]
    then have "dispatcher_ok d'"
      unfolding revoked(3) using ok by (intro dispatcher_ok_handles [OF ok]) (auto simp: dispatcher_ok_def)
    then show ?thesis using revoked rel by (simp add: n_def handle_view_def slot_view_release_all)
  qed (use ok in \<open>simp_all add: n_def\<close>)
qed

lemma ports_view_release:
  assumes "ports_view ports p = Some s"
  shows "ports_view (ports[pi_slot p := release_port (ports ! pi_slot p)]) = (ports_view ports)(p := None)"
proof
  fix q
  have none: "ps_service (release_port (ports ! pi_slot p)) = None" by (simp add: release_port_def split: option.split)
  show "ports_view (ports[pi_slot p := release_port (ports ! pi_slot p)]) q = ((ports_view ports)(p := None)) q"
  proof (cases "pi_slot q = pi_slot p")
    case True
    have "q = p" if "pi_generation q = pi_generation p" using True that by (cases q; cases p) simp
    with True assms none show ?thesis by (auto simp: ports_view_def split: if_splits)
  next
    case False
    then show ?thesis by (auto simp: ports_view_def)
  qed
qed

lemma close_port_ok:
  assumes ok: "dispatcher_ok d" and run: "close_port d p = (r, d')"
  shows "dispatcher_ok d' \<and> handles_advance (dp_handles d) (dp_handles d') \<and> ports_advance (dp_ports d) (dp_ports d') \<and>
    r = (if port_view d p = None then Inl InvalidPort else Inr ()) \<and> port_view d' = (port_view d)(p := None) \<and>
    (\<forall>h. handle_view d' h = (case handle_view d h of
       Some b \<Rightarrow> if hb_target b = TargetService p then None else Some b | None \<Rightarrow> None))"
proof (cases "port_view d p")
  case None
  with run have "r = Inl InvalidPort" "d' = d" by (simp_all add: close_port_def validate_port_view)
  moreover have "hb_target b \<noteq> TargetService p" if "handle_view d h = Some b" for h b
    using handle_view_ok [OF ok that] None by (auto simp: binding_ok_def)
  ultimately show ?thesis using ok None by (auto simp: fun_eq_iff split: option.splits)
next
  case (Some s)
  let ?rel = "release_handles (\<lambda>b. hb_target b = TargetService p) (dp_handles d)"
  let ?x = "dp_ports d ! pi_slot p"
  let ?d1 = "d\<lparr>dp_handles := ?rel\<rparr>"
  have i: "pi_slot p < length (dp_ports d)" using service_of_view [OF Some] by simp
  have run': "r = Inr ()" "d' = ?d1\<lparr>dp_ports := (dp_ports d)[pi_slot p := release_port ?x]\<rparr>"
    using run Some i by (auto simp: close_port_def validate_port_view Let_def)
  have slot: "handle_slot_ok (\<lambda>p. port_view d p \<noteq> None) x" if "x \<in> set (dp_handles d)" for x
    using ok that by (simp add: dispatcher_ok_def)
  note rel = release_handles_ok [OF slot, of "dp_handles d" "\<lambda>b. hb_target b = TargetService p"]
  then have ok1: "dispatcher_ok ?d1"
    using ok by (intro dispatcher_ok_handles [OF ok]) (auto simp: dispatcher_ok_def)
  have x: "port_slot_ok ?x" using ok i by (simp add: dispatcher_ok_def)
  have view: "ports_view ((dp_ports d)[pi_slot p := release_port ?x]) = (port_view d)(p := None)"
    using ports_view_release [of "dp_ports d" p s] Some by (simp add: port_view_def)
  have hview: "handle_view ?d1 h = (case handle_view d h of
      Some b \<Rightarrow> if hb_target b = TargetService p then None else Some b | None \<Rightarrow> None)" for h
    by (simp add: handle_view_def slot_view_release_all)
  have "ports_view ((dp_ports d)[pi_slot p := release_port ?x]) q \<noteq> None"
    if "handle_view ?d1 h = Some b" "hb_target b = TargetService q" for h b q
  proof -
    have "handle_view d h = Some b" "q \<noteq> p" using that hview by (auto split: option.splits if_splits)
    moreover have "port_view d q \<noteq> None"
      using handle_view_ok [OF ok calculation(1)] that(2) by (simp add: binding_ok_def)
    ultimately show ?thesis unfolding view by simp
  qed
  then have "dispatcher_ok d'"
    unfolding run'(2) using ok x release_port_ok [OF x]
    by (intro dispatcher_ok_ports [OF ok1]) (auto simp: dispatcher_ok_def dest!: set_update_cases)
  moreover have "slot_advances ps_generation port_bound port_floor ?x (release_port ?x)"
    using x by (intro release_port_advances) (auto simp: port_slot_ok_def)
  moreover have "port_view d' = (port_view d)(p := None)" using view unfolding run'(2) by (simp add: port_view_def)
  moreover have "handle_view d' h = handle_view ?d1 h" for h unfolding run'(2) by (simp add: handle_view_def)
  ultimately show ?thesis using Some run' rel hview by (simp add: table_advances_update)
qed

section \<open>Registration\<close>

lemma dispatcher_register_ok:
  assumes ok: "dispatcher_ok d" and run: "dispatcher_register port_reserve handle_reserve d s rights = (r, d')"
  shows "dispatcher_ok d' \<and> handles_advance (dp_handles d) (dp_handles d') \<and> ports_advance (dp_ports d) (dp_ports d') \<and>
    (case r of
       Inl e \<Rightarrow> handle_view d' = handle_view d \<and> port_view d' = port_view d
     | Inr (p, h) \<Rightarrow> handle_ok h \<and> port_view d p = None \<and> handle_view d h = None \<and> port_view d' = (port_view d)(p \<mapsto> s) \<and>
         handle_view d' = (handle_view d)(h \<mapsto> \<lparr>hb_target = TargetService p, hb_rights = rights, hb_owner = KernelOwner\<rparr>))"
proof -
  obtain r1 d1 where a: "allocate_port port_reserve d s = (r1, d1)" by fastforce
  note a_ok = allocate_port_ok [OF ok a]
  show ?thesis
  proof (cases r1)
    case (Inl e)
    with a run have "r = Inl e" "d' = d1" by (simp_all add: dispatcher_register_def)
    with a_ok Inl show ?thesis by auto
  next
    case (Inr p)
    obtain r2 d2 where o: "open_owned handle_reserve d1 p rights KernelOwner = (r2, d2)" by fastforce
    have ok1: "dispatcher_ok d1" and h1: "dp_handles d1 = dp_handles d" and adv: "ports_advance (dp_ports d) (dp_ports d1)"
      and p: "port_view d p = None" "port_view d1 = (port_view d)(p \<mapsto> s)"
      using a_ok Inr by auto
    note o_ok = open_owned_ok [OF ok1 o]
    show ?thesis
    proof (cases r2)
      case (Inr h)
      with a o run \<open>r1 = Inr p\<close> have r: "r = Inr (p, h)" "d' = d2"
        by (simp_all add: dispatcher_register_def dispatcher_open_def)
      from o_ok Inr h1 adv p show ?thesis unfolding r by (simp add: handle_view_def port_view_def)
    next
      case (Inl e)
      obtain r3 d3 where c: "close_port d1 p = (r3, d3)" by fastforce
      have d2: "d2 = d1" using o_ok Inl by simp
      with a o run c \<open>r1 = Inr p\<close> Inl have r: "r = Inl e" "d' = d3"
        by (simp_all add: dispatcher_register_def dispatcher_open_def)
      note c_ok = close_port_ok [OF ok1 c]
      have "hb_target b \<noteq> TargetService p" if "handle_view d h = Some b" for h b
        using handle_view_ok [OF ok that] p(1) by (auto simp: binding_ok_def)
      then have "handle_view d3 = handle_view d"
        using c_ok h1 by (auto simp: handle_view_def fun_eq_iff split: option.splits)
      moreover have "port_view d3 = port_view d" using c_ok p by (auto simp: fun_eq_iff)
      moreover have "ports_advance (dp_ports d) (dp_ports d3)"
        using table_advances_trans [OF adv] c_ok by blast
      ultimately show ?thesis unfolding r using c_ok h1 by simp
    qed
  qed
qed

section \<open>Refusals\<close>

text \<open>
  The reason for which a table that needs one more handle, or one more port, refuses: no slot is free and
  the table is at its capacity, or none is free and the storage for another cannot be reserved.
\<close>

definition handle_refusal :: "bool \<Rightarrow> 's dispatcher \<Rightarrow> dispatch_error option" where
  "handle_refusal reserve_ok d =
     (if handles_full d then Some HandleCapacityExhausted
      else if (\<forall>x\<in>set (dp_handles d). \<not> hs_available x) \<and> \<not> reserve_ok then Some MetadataExhausted else None)"

definition port_refusal :: "bool \<Rightarrow> 's dispatcher \<Rightarrow> dispatch_error option" where
  "port_refusal reserve_ok d =
     (if ports_full d then Some PortCapacityExhausted
      else if (\<forall>x\<in>set (dp_ports d). \<not> ps_available x) \<and> \<not> reserve_ok then Some MetadataExhausted else None)"

definition refused_for :: "('e, 'a) result \<Rightarrow> 'e option" where
  "refused_for r = (case r of Inl e \<Rightarrow> Some e | Inr _ \<Rightarrow> None)"

lemma refused_for_simps [simp]: "refused_for (Inl e) = Some e" "refused_for (Inr x) = None"
  by (simp_all add: refused_for_def)

lemma allocate_handle_refusal:
  assumes "dispatcher_ok d" "hb_owner b \<noteq> IsolatedTask 0"
  shows "refused_for (fst (allocate_handle reserve_ok d b)) = handle_refusal reserve_ok d"
proof (cases "position hs_available (dp_handles d)")
  case (Some i)
  from position_SomeD [OF Some] have i: "i < length (dp_handles d)" "hs_available (dp_handles d ! i)" by auto
  then have "\<not> (\<forall>x\<in>set (dp_handles d). \<not> hs_available x)" using nth_mem by blast
  then have "handle_refusal reserve_ok d = None" unfolding handle_refusal_def handles_full_def by simp
  moreover have "i < 2 ^ 32" using i assms(1) by (simp add: dispatcher_ok_def MAX_HANDLES_def)
  ultimately show ?thesis using assms(2) by (simp add: allocate_handle_def Some Let_def try_into_def)
next
  case None
  then have none: "\<forall>x\<in>set (dp_handles d). \<not> hs_available x" by (simp only: position_None_iff)
  have "length (dp_handles d) < 2 ^ 32" using assms(1) by (simp add: dispatcher_ok_def MAX_HANDLES_def)
  then show ?thesis
    using assms(2) none by (auto simp: allocate_handle_def None try_into_def handle_refusal_def handles_full_def)
qed

lemma allocate_port_refusal:
  assumes "dispatcher_ok d"
  shows "refused_for (fst (allocate_port reserve_ok d s)) = port_refusal reserve_ok d"
proof (cases "position ps_available (dp_ports d)")
  case (Some i)
  from position_SomeD [OF Some] have i: "i < length (dp_ports d)" "ps_available (dp_ports d ! i)" by auto
  then have "\<not> (\<forall>x\<in>set (dp_ports d). \<not> ps_available x)" using nth_mem by blast
  then have "port_refusal reserve_ok d = None" unfolding port_refusal_def ports_full_def by simp
  moreover have "i < 2 ^ 32" using i assms(1) by (simp add: dispatcher_ok_def MAX_PORTS_def)
  ultimately show ?thesis by (simp add: allocate_port_def Some Let_def try_into_def)
next
  case None
  then have none: "\<forall>x\<in>set (dp_ports d). \<not> ps_available x" by (simp only: position_None_iff)
  have "length (dp_ports d) < 2 ^ 32" using assms(1) by (simp add: dispatcher_ok_def MAX_PORTS_def)
  then show ?thesis
    using none by (auto simp: allocate_port_def None try_into_def port_refusal_def ports_full_def)
qed

lemma open_owned_refusal:
  assumes "dispatcher_ok d"
  shows "refused_for (fst (open_owned reserve_ok d port rights owner)) =
    (if owner = IsolatedTask 0 then Some InvalidOwner else if port_view d port = None then Some InvalidPort
     else handle_refusal reserve_ok d)"
  using allocate_handle_refusal [OF assms] by (simp add: open_owned_def validate_port_view)

lemma open_scheduler_owned_refusal:
  assumes "dispatcher_ok d"
  shows "refused_for (fst (open_scheduler_owned reserve_ok d interface rights owner)) =
    (if \<not> live_task owner then Some InvalidOwner
     else if rights AND NOT (allowed_rights (scheduler_id interface)) \<noteq> 0 then Some InvalidRights
     else handle_refusal reserve_ok d)"
proof -
  have "allowed_rights (scheduler_id interface) \<noteq> 0"
    by (cases interface) (simp_all add: allowed_rights_eq_0_iff THREAD_CONTROL_def THREAD_SYNC_def HIGHEST_def)
  moreover have "owner \<noteq> IsolatedTask 0" if "live_task owner" using that by auto
  ultimately show ?thesis
    using allocate_handle_refusal [OF assms] by (simp add: open_scheduler_owned_def rights_for_interface_def Let_def)
qed

lemma dispatcher_register_refusal:
  assumes ok: "dispatcher_ok d"
  shows "refused_for (fst (dispatcher_register reserve_ok reserve_handle d s rights)) =
    (case port_refusal reserve_ok d of Some e \<Rightarrow> Some e | None \<Rightarrow> handle_refusal reserve_handle d)"
proof -
  obtain r d1 where a: "allocate_port reserve_ok d s = (r, d1)" by fastforce
  note a_ok = allocate_port_ok [OF ok a] and why = allocate_port_refusal [OF ok, of reserve_ok s, unfolded a fst_conv]
  show ?thesis
  proof (cases r)
    case (Inl e)
    with a why [symmetric] show ?thesis by (simp add: dispatcher_register_def)
  next
    case (Inr p)
    have "dp_handles d1 = dp_handles d" "dp_handle_capacity d1 = dp_handle_capacity d"
      using a by (auto simp: allocate_port_def Let_def split: option.splits if_splits)
    then have same: "handle_refusal reserve_handle d1 = handle_refusal reserve_handle d"
      by (simp add: handle_refusal_def handles_full_def)
    have "refused_for (fst (dispatcher_register reserve_ok reserve_handle d s rights)) =
        refused_for (fst (open_owned reserve_handle d1 p rights KernelOwner))"
      using a Inr by (simp add: dispatcher_register_def dispatcher_open_def split: prod.splits sum.splits)
    also have "\<dots> = handle_refusal reserve_handle d"
      using open_owned_refusal [of d1] a_ok Inr same by simp
    finally show ?thesis using why [symmetric] Inr by simp
  qed
qed

end
