(* ===== verification/Dispatcher_Contract.thy ===== *)
theory Dispatcher_Contract
  imports Dispatcher_Invariant
begin

text \<open>
  The dispatcher's contracts: exact effect of opening, closing and revoking on the maps of
  live handles and ports, the exact course of a call, the agreement of the two call paths, and
  the authorization of scheduler requests. The interpretations of \<open>generation_table\<close> give that
  closed handles and ports never resolve again.
\<close>

section \<open>Calls\<close>

text \<open>The counters cannot overflow on this call.\<close>

definition call_room :: "'s dispatcher \<Rightarrow> byte list \<Rightarrow> bool" where
  "call_room d payload \<longleftrightarrow> dp_calls d + 2 < 2 ^ 64 \<and> dp_request_bytes d + length payload < 2 ^ 64 \<and>
     dp_reply_bytes d + MAX_MESSAGE_BYTES < 2 ^ 64 \<and> dp_reply_payload_copies d + 2 < 2 ^ 64 \<and>
     dp_reply_payload_allocations d + 1 < 2 ^ 64"

definition call_counted :: "'s dispatcher \<Rightarrow> byte list \<Rightarrow> 's dispatcher" where
  "call_counted d payload = d\<lparr>dp_next_request_id := dp_next_request_id d + 1, dp_calls := dp_calls d + 1,
     dp_request_bytes := dp_request_bytes d + length payload\<rparr>"

definition reply_counted :: "'s dispatcher \<Rightarrow> nat \<Rightarrow> nat \<Rightarrow> nat \<Rightarrow> 's dispatcher" where
  "reply_counted d payload_bytes copies allocations = d\<lparr>dp_replies := dp_replies d + 1,
     dp_reply_bytes := dp_reply_bytes d + payload_bytes, dp_reply_payload_copies := dp_reply_payload_copies d + copies,
     dp_reply_payload_allocations := dp_reply_payload_allocations d + allocations\<rparr>"

definition call_request :: "'s dispatcher \<Rightarrow> nat \<Rightarrow> byte list \<Rightarrow> request" where
  "call_request d opcode payload = \<lparr>rq_id = dp_next_request_id d, rq_opcode = opcode, rq_payload = payload\<rparr>"

lemma count_reply_Inr:
  "count_reply d n c a = Inr d' \<Longrightarrow> d' = reply_counted d n c a"
  by (auto simp: count_reply_def reply_counted_def result_simps checked_simps)

lemma count_reply_room:
  assumes "dp_replies d + 1 < 2 ^ 64" "dp_reply_bytes d + n < 2 ^ 64" "dp_reply_payload_copies d + c < 2 ^ 64"
    "dp_reply_payload_allocations d + a < 2 ^ 64"
  shows "count_reply d n c a = Inr (reply_counted d n c a)"
  using assms by (simp add: count_reply_def reply_counted_def checked_add_def try_into_def)

lemma admit_call_Inr:
  assumes "admit_call d h opcode payload = Inr (p, request, d1)"
  shows "d1 = call_counted d payload \<and> request = call_request d opcode payload \<and> dp_next_request_id d + 1 < 2 ^ 64 \<and>
    (\<exists>b s. handle_view d h = Some b \<and> rights_contains (hb_rights b) right_CALL \<and> hb_target b = TargetService p \<and>
       port_view d p = Some s)"
  using assms
  by (auto simp: admit_call_def binding_of_view validate_port_view call_counted_def call_request_def result_simps
      checked_simps split: if_splits handle_target.splits)

lemma admit_call_room:
  assumes "dispatcher_ok d" "call_room d payload"
  shows "admit_call d h opcode payload =
    (case handle_view d h of
       None \<Rightarrow> Inl InvalidHandle
     | Some b \<Rightarrow>
        if \<not> rights_contains (hb_rights b) right_CALL then Inl PermissionDenied
        else case hb_target b of
          TargetScheduler _ \<Rightarrow> Inl InvalidHandle
        | TargetService p \<Rightarrow> Inr (p, call_request d opcode payload, call_counted d payload))"
proof (cases "handle_view d h")
  case None
  then show ?thesis by (simp add: admit_call_def binding_of_view)
next
  case (Some b)
  show ?thesis
  proof (cases "hb_target b")
    case (TargetService p)
    have "port_view d p \<noteq> None" using handle_view_ok [OF assms(1) Some] TargetService by (simp add: binding_ok_def)
    then have port: "validate_port d p = Inr ()" by (simp add: validate_port_view)
    have "dp_next_request_id d = dp_calls d + 1" using assms(1) by (simp add: dispatcher_ok_def)
    with assms(2) Some TargetService port show ?thesis
      by (simp add: admit_call_def binding_of_view call_room_def checked_add_def try_into_def call_request_def call_counted_def)
  next
    case (TargetScheduler i)
    with Some show ?thesis by (simp add: admit_call_def binding_of_view)
  qed
qed

lemma set_service_view:
  assumes "port_view d p = Some s"
  shows "port_view (set_service d p s') = (port_view d)(p \<mapsto> s')"
proof
  fix q
  have same: "q = p" if "pi_slot q = pi_slot p" "pi_generation q = pi_generation p" using that by (cases q; cases p) simp
  show "port_view (set_service d p s') q = ((port_view d)(p \<mapsto> s')) q"
    using assms same
    by (cases "pi_slot q = pi_slot p") (auto simp: port_view_def ports_view_def set_service_def split: if_splits)
qed

lemma call_counted_simps [simp]:
  "dp_ports (call_counted d payload) = dp_ports d" "dp_handles (call_counted d payload) = dp_handles d"
  "port_view (call_counted d payload) = port_view d" "handle_view (call_counted d payload) = handle_view d"
  "service_of (call_counted d payload) = service_of d"
  by (simp_all add: call_counted_def port_view_def handle_view_def service_of_def fun_eq_iff)

lemma reply_counted_simps [simp]:
  "dp_ports (reply_counted d n c a) = dp_ports d" "dp_handles (reply_counted d n c a) = dp_handles d"
  "port_view (reply_counted d n c a) = port_view d" "handle_view (reply_counted d n c a) = handle_view d"
  by (simp_all add: reply_counted_def port_view_def handle_view_def)

lemma set_service_simps [simp]:
  "dp_handles (set_service d p s) = dp_handles d" "handle_view (set_service d p s) = handle_view d"
  by (simp_all add: set_service_def handle_view_def)

lemma call_counted_ok:
  "dispatcher_ok d \<Longrightarrow> dp_next_request_id d + 1 < 2 ^ 64 \<Longrightarrow> dispatcher_ok (call_counted d payload)"
  by (simp add: dispatcher_ok_def call_counted_def port_view_def)

lemma set_service_ok:
  assumes "dispatcher_ok d" "port_view d p = Some s"
  shows "dispatcher_ok (set_service d p s') \<and> ports_advance (dp_ports d) (dp_ports (set_service d p s'))"
proof -
  let ?x = "dp_ports d ! pi_slot p"
  let ?y = "?x\<lparr>ps_service := Some s'\<rparr>"
  have i: "pi_slot p < length (dp_ports d)" "port_bound ?x"
    using service_of_view [OF assms(2)] by (auto simp: service_of_def)
  have x: "port_slot_ok ?x" using assms(1) i by (simp add: dispatcher_ok_def)
  have y: "port_slot_ok ?y" using x i by (auto simp: port_slot_ok_def)
  have "ports_view (dp_ports (set_service d p s')) q \<noteq> None" if "handle_view d h = Some b" "hb_target b = TargetService q" for h b q
    using handle_view_ok [OF assms(1) that(1)] that(2) set_service_view [OF assms(2), of s']
    by (auto simp: binding_ok_def port_view_def)
  then have "dispatcher_ok (d\<lparr>dp_ports := (dp_ports d)[pi_slot p := ?y]\<rparr>)"
    using assms(1) y by (intro dispatcher_ok_ports) (auto simp: dispatcher_ok_def set_service_def dest!: set_update_cases)
  moreover have "slot_advances ps_generation port_bound port_floor ?x ?y"
    using i by (auto simp: slot_advances_def port_floor_def)
  ultimately show ?thesis by (simp add: set_service_def table_advances_update)
qed

text \<open>Every outcome of a call, whatever the service does.\<close>

definition call_outcomes :: "'s dispatcher \<Rightarrow> byte list \<Rightarrow> 's dispatcher set" where
  "call_outcomes d payload = {d} \<union>
     {d'. dp_next_request_id d + 1 < 2 ^ 64 \<and> (\<exists>p s s'. port_view d p = Some s \<and>
        (d' = set_service (call_counted d payload) p s' \<or>
         (\<exists>n c a. d' = reply_counted (set_service (call_counted d payload) p s') n c a)))}"

lemma admitted_service:
  assumes "admit_call d h opcode payload = Inr (p, request, d1)"
  obtains s where "port_view d p = Some s" "service_of d1 p = Some s" "d1 = call_counted d payload"
    "dp_next_request_id d + 1 < 2 ^ 64" "request = call_request d opcode payload"
  using admit_call_Inr [OF assms] service_of_view [of d p] by auto

lemma dispatcher_call_outcome:
  assumes "dispatcher_call svc_call d h opcode payload = (r, d')"
  shows "d' \<in> call_outcomes d payload"
proof (cases "length payload > MAX_MESSAGE_BYTES \<or> (\<exists>e. admit_call d h opcode payload = Inl e)")
  case True
  with assms have "d' = d" by (auto simp: dispatcher_call_def split: if_splits sum.splits)
  then show ?thesis by (simp add: call_outcomes_def)
next
  case False
  then obtain p request d1 where a: "admit_call d h opcode payload = Inr (p, request, d1)"
    by (cases "admit_call d h opcode payload") auto
  from admitted_service [OF a] obtain s where s: "port_view d p = Some s" "service_of d1 p = Some s"
    "d1 = call_counted d payload" "dp_next_request_id d + 1 < 2 ^ 64" by blast
  obtain q s' where q: "svc_call s request = (q, s')" by fastforce
  let ?d2 = "set_service (call_counted d payload) p s'"
  have "d' = ?d2 \<or> (\<exists>n c a. d' = reply_counted ?d2 n c a)"
  proof (cases q)
    case (Inl e)
    with assms False a s q show ?thesis by (simp add: dispatcher_call_def)
  next
    case (Inr reply)
    show ?thesis
    proof (cases "count_reply ?d2 (length (sr_payload reply)) (of_bool (sr_payload reply \<noteq> [])) (of_bool (sr_payload reply \<noteq> []))")
      case (Inl e)
      with assms False a s q \<open>q = Inr reply\<close> show ?thesis by (simp add: dispatcher_call_def Let_def split: if_splits)
    next
      case (Inr d3)
      with assms False a s q \<open>q = Inr reply\<close> count_reply_Inr [OF Inr] show ?thesis
        by (auto simp: dispatcher_call_def Let_def split: if_splits)
    qed
  qed
  with s(1,4) show ?thesis unfolding call_outcomes_def by blast
qed

lemma dispatcher_call_into_outcome:
  assumes "dispatcher_call_into svc_call_into d h opcode payload destination = (r, d', out)"
  shows "d' \<in> call_outcomes d payload"
proof (cases "length payload > MAX_MESSAGE_BYTES \<or> length destination > MAX_MESSAGE_BYTES \<or>
    (\<exists>e. admit_call d h opcode payload = Inl e)")
  case True
  with assms have "d' = d" by (auto simp: dispatcher_call_into_def split: if_splits sum.splits)
  then show ?thesis by (simp add: call_outcomes_def)
next
  case False
  then obtain p request d1 where a: "admit_call d h opcode payload = Inr (p, request, d1)"
    by (cases "admit_call d h opcode payload") auto
  from admitted_service [OF a] obtain s where s: "port_view d p = Some s" "service_of d1 p = Some s"
    "d1 = call_counted d payload" "dp_next_request_id d + 1 < 2 ^ 64" by blast
  obtain q s' w where q: "svc_call_into s request destination = (q, s', w)" by (metis prod.exhaust)
  let ?d2 = "set_service (call_counted d payload) p s'"
  have "d' = ?d2 \<or> (\<exists>n c a. d' = reply_counted ?d2 n c a)"
  proof (cases q)
    case (Inl e)
    with assms False a s q show ?thesis by (simp add: dispatcher_call_into_def)
  next
    case (Inr info)
    show ?thesis
    proof (cases "count_reply ?d2 (si_payload_bytes info) (si_payload_copies info) (si_payload_allocations info)")
      case (Inl e)
      with assms False a s q \<open>q = Inr info\<close> show ?thesis by (simp add: dispatcher_call_into_def Let_def split: if_splits)
    next
      case (Inr d3)
      with assms False a s q \<open>q = Inr info\<close> count_reply_Inr [OF Inr] show ?thesis
        by (auto simp: dispatcher_call_into_def Let_def split: if_splits)
    qed
  qed
  with s(1,4) show ?thesis unfolding call_outcomes_def by blast
qed

lemma reply_counted_ok:
  "dispatcher_ok d \<Longrightarrow> dp_replies d < dp_calls d \<Longrightarrow> dispatcher_ok (reply_counted d n c a)"
  by (simp add: dispatcher_ok_def reply_counted_def port_view_def)

lemma call_outcomes_ok:
  assumes ok: "dispatcher_ok d" and "d' \<in> call_outcomes d payload"
  shows "dispatcher_ok d' \<and> dp_handles d' = dp_handles d \<and> ports_advance (dp_ports d) (dp_ports d') \<and>
    (\<forall>p. port_view d' p = None \<longleftrightarrow> port_view d p = None)"
proof (cases "d' = d")
  case True
  with ok show ?thesis by simp
next
  case False
  with assms(2) obtain p s s' where p: "dp_next_request_id d + 1 < 2 ^ 64" "port_view d p = Some s"
    and d': "d' = set_service (call_counted d payload) p s' \<or>
      (\<exists>n c a. d' = reply_counted (set_service (call_counted d payload) p s') n c a)"
    unfolding call_outcomes_def by blast
  have ok1: "dispatcher_ok (call_counted d payload)" by (rule call_counted_ok [OF ok p(1)])
  have view: "port_view (call_counted d payload) p = Some s" using p(2) by simp
  note s = set_service_ok [OF ok1 view, of s'] set_service_view [OF view, of s']
  have less: "dp_replies (set_service (call_counted d payload) p s') < dp_calls (set_service (call_counted d payload) p s')"
    using ok by (simp add: dispatcher_ok_def set_service_def call_counted_def)
  have "dispatcher_ok d'" using d' s(1) reply_counted_ok [OF _ less] by blast
  moreover have "dp_handles d' = dp_handles d" "ports_advance (dp_ports d) (dp_ports d')"
    "port_view d' = (port_view d)(p \<mapsto> s')"
    using d' s by auto
  ultimately show ?thesis using p(2) by simp
qed

section \<open>Steps\<close>

text \<open>
  Every operation that changes the dispatcher. \<open>open\<close> is \<open>open_owned\<close> for the kernel, and the ABI
  entry points either change nothing or are the two calls.
\<close>

inductive dispatcher_step :: "'s service_call \<Rightarrow> 's service_call_into \<Rightarrow> 's dispatcher \<Rightarrow> 's dispatcher \<Rightarrow> bool"
  for svc_call svc_call_into where
  step_register: "dispatcher_register port_reserve handle_reserve d s rights = (r, d') \<Longrightarrow>
    dispatcher_step svc_call svc_call_into d d'"
| step_open: "open_owned reserve_ok d port rights owner = (r, d') \<Longrightarrow> dispatcher_step svc_call svc_call_into d d'"
| step_open_scheduler: "open_scheduler_owned reserve_ok d interface rights owner = (r, d') \<Longrightarrow>
    dispatcher_step svc_call svc_call_into d d'"
| step_close: "dispatcher_close d h = (r, d') \<Longrightarrow> dispatcher_step svc_call svc_call_into d d'"
| step_close_owner: "close_owner d owner = (r, d') \<Longrightarrow> dispatcher_step svc_call svc_call_into d d'"
| step_close_port: "close_port d port = (r, d') \<Longrightarrow> dispatcher_step svc_call svc_call_into d d'"
| step_call: "dispatcher_call svc_call d h opcode payload = (r, d') \<Longrightarrow> dispatcher_step svc_call svc_call_into d d'"
| step_call_into: "dispatcher_call_into svc_call_into d h opcode payload destination = (r, d', out) \<Longrightarrow>
    dispatcher_step svc_call svc_call_into d d'"

lemma dispatcher_step_ok:
  assumes ok: "dispatcher_ok d" and step: "dispatcher_step svc_call svc_call_into d d'"
  shows "dispatcher_ok d' \<and> handles_advance (dp_handles d) (dp_handles d') \<and> ports_advance (dp_ports d) (dp_ports d')"
  using step
proof cases
  case step_register
  from dispatcher_register_ok [OF ok this] show ?thesis by blast
next
  case step_open
  from open_owned_ok [OF ok this] show ?thesis by simp
next
  case step_open_scheduler
  from open_scheduler_owned_ok [OF ok this] show ?thesis by simp
next
  case step_close
  from dispatcher_close_ok [OF ok this] show ?thesis by simp
next
  case step_close_owner
  from close_owner_ok [OF ok this] show ?thesis by simp
next
  case step_close_port
  from close_port_ok [OF ok this] show ?thesis by blast
next
  case step_call
  from call_outcomes_ok [OF ok dispatcher_call_outcome [OF this]] show ?thesis by simp
next
  case step_call_into
  from call_outcomes_ok [OF ok dispatcher_call_into_outcome [OF this]] show ?thesis by simp
qed

interpretation live_handles: generation_table dp_handles hs_generation "\<lambda>x. hs_binding x \<noteq> None" handle_floor
  dispatcher_ok "dispatcher_step svc_call svc_call_into" for svc_call svc_call_into
proof
  show "dispatcher_ok d \<Longrightarrow> dispatcher_step svc_call svc_call_into d d' \<Longrightarrow> dispatcher_ok d'" for d d' :: "'a dispatcher"
    using dispatcher_step_ok by blast
  show "dispatcher_ok d \<Longrightarrow> dispatcher_step svc_call svc_call_into d d' \<Longrightarrow>
      table_advances hs_generation (\<lambda>x. hs_binding x \<noteq> None) handle_floor (dp_handles d) (dp_handles d')" for d d' :: "'a dispatcher"
    using dispatcher_step_ok by blast
  show "handle_floor x \<le> hs_generation x" if "dispatcher_ok d" "x \<in> set (dp_handles d)" "hs_binding x \<noteq> None"
    for d :: "'a dispatcher" and x
    using that by (auto simp: dispatcher_ok_def handle_slot_ok_def handle_floor_def)
qed

interpretation live_ports: generation_table dp_ports ps_generation "\<lambda>x. ps_service x \<noteq> None" port_floor
  dispatcher_ok "dispatcher_step svc_call svc_call_into" for svc_call svc_call_into
proof
  show "dispatcher_ok d \<Longrightarrow> dispatcher_step svc_call svc_call_into d d' \<Longrightarrow> dispatcher_ok d'" for d d' :: "'a dispatcher"
    using dispatcher_step_ok by blast
  show "dispatcher_ok d \<Longrightarrow> dispatcher_step svc_call svc_call_into d d' \<Longrightarrow>
      table_advances ps_generation (\<lambda>x. ps_service x \<noteq> None) port_floor (dp_ports d) (dp_ports d')" for d d' :: "'a dispatcher"
    using dispatcher_step_ok by blast
  show "port_floor x \<le> ps_generation x" if "dispatcher_ok d" "x \<in> set (dp_ports d)" "ps_service x \<noteq> None"
    for d :: "'a dispatcher" and x
    using that by (auto simp: dispatcher_ok_def port_slot_ok_def port_floor_def)
qed

section \<open>Grants and revocation\<close>

lemma count_slots_view:
  "count_if (\<lambda>x. \<exists>b. hs_binding x = Some b \<and> P b) slots = card {h. \<exists>b. slot_view slots h = Some b \<and> P b}"
proof -
  let ?I = "{i. i < length slots \<and> (\<exists>b. hs_binding (slots ! i) = Some b \<and> P b)}"
  let ?f = "\<lambda>i. \<lparr>h_slot = i, h_generation = hs_generation (slots ! i)\<rparr>"
  have "{h. \<exists>b. slot_view slots h = Some b \<and> P b} = ?f ` ?I"
  proof
    show "{h. \<exists>b. slot_view slots h = Some b \<and> P b} \<subseteq> ?f ` ?I"
    proof
      fix h assume "h \<in> {h. \<exists>b. slot_view slots h = Some b \<and> P b}"
      then have "h_slot h \<in> ?I" "h = ?f (h_slot h)"
        by (auto simp: slot_view_def handle_eq_iff split: if_splits)
      then show "h \<in> ?f ` ?I" by blast
    qed
    show "?f ` ?I \<subseteq> {h. \<exists>b. slot_view slots h = Some b \<and> P b}" by (auto simp: slot_view_def)
  qed
  moreover have "inj_on ?f ?I" by (auto intro: inj_onI)
  ultimately show ?thesis by (simp add: card_image count_if_def length_filter_conv_card)
qed

definition sample_dispatcher :: "nat dispatcher" where
  "sample_dispatcher =
     \<lparr>dp_ports = [\<lparr>ps_generation = 1, ps_retired = False, ps_service = Some 7\<rparr>],
      dp_handles = [\<lparr>hs_generation = 3, hs_retired = False, hs_binding = Some
          \<lparr>hb_target = TargetService \<lparr>pi_slot = 0, pi_generation = 1\<rparr>, hb_rights = right_CALL, hb_owner = IsolatedTask 5\<rparr>\<rparr>,
        \<lparr>hs_generation = 2 ^ 32 - 1, hs_retired = False, hs_binding = Some
          \<lparr>hb_target = TargetScheduler SyncV1, hb_rights = right_CALL, hb_owner = IsolatedTask 9\<rparr>\<rparr>],
      dp_port_capacity = 2, dp_handle_capacity = 3, dp_next_request_id = 1, dp_calls = 0, dp_replies = 0,
      dp_request_bytes = 0, dp_reply_bytes = 0, dp_reply_payload_copies = 0, dp_reply_payload_allocations = 0\<rparr>"

lemma sample_dispatcher_ok: "dispatcher_ok sample_dispatcher"
  by (simp add: dispatcher_ok_def sample_dispatcher_def MAX_PORTS_def MAX_HANDLES_def port_slot_ok_def handle_slot_ok_def
      binding_ok_def port_view_def ports_view_def allowed_rights_def THREAD_SYNC_def THREAD_CONTROL_def right_values
      COMMAND_def HIGHEST_def PACKET_DEVICE_def BLOCK_REGION_def BOOT_BLOB_def SERVICE_LIFECYCLE_def WAIT_SET_def
      SERVER_ENDPOINT_def SHELL_SCRIPT_def RANDOM_def TCP_LISTEN_def)

text \<open>
  C30. Opening grants exactly one new authority, or refuses for exactly one reason. A service handle is
  minted for a live port and an owner other than task zero, a scheduler capability for an isolated task
  and rights its interface knows, and registration adds one port and one kernel handle to it; each
  identity granted did not resolve before, carries the target, rights and owner asked for, and no other
  handle or port changes. Each operation is refused exactly when its request is invalid, a table is
  full, or no slot is free and storage for a new one cannot be reserved, with the error of the first of
  these that applies; a refusal leaves the authorities as they were.
\<close>

theorem dispatcher_grants_exact:
  assumes "dispatcher_ok d"
  shows "(case open_owned reserve_ok d port rights owner of (r, d') \<Rightarrow>
      dispatcher_ok d' \<and> port_view d' = port_view d \<and>
      refused_for r = (if owner = IsolatedTask 0 then Some InvalidOwner
        else if port_view d port = None then Some InvalidPort else handle_refusal reserve_ok d) \<and>
      (case r of
         Inl e \<Rightarrow> d' = d
       | Inr h \<Rightarrow> handle_ok h \<and> handle_view d h = None \<and> port_view d port \<noteq> None \<and>
           handle_view d' = (handle_view d)(h \<mapsto> \<lparr>hb_target = TargetService port, hb_rights = rights, hb_owner = owner\<rparr>)))
    \<and> (case open_scheduler_owned reserve_ok d interface rights owner of (r, d') \<Rightarrow>
      dispatcher_ok d' \<and> port_view d' = port_view d \<and>
      refused_for r = (if \<not> live_task owner then Some InvalidOwner
        else if rights AND NOT (allowed_rights (scheduler_id interface)) \<noteq> 0 then Some InvalidRights
        else handle_refusal reserve_ok d) \<and>
      (case r of
         Inl e \<Rightarrow> d' = d
       | Inr h \<Rightarrow> handle_ok h \<and> handle_view d h = None \<and> live_task owner \<and>
           rights AND NOT (allowed_rights (scheduler_id interface)) = 0 \<and>
           handle_view d' = (handle_view d)(h \<mapsto> \<lparr>hb_target = TargetScheduler interface, hb_rights = rights, hb_owner = owner\<rparr>)))
    \<and> (case dispatcher_register reserve_ok reserve_handle d s rights of (r, d') \<Rightarrow>
      dispatcher_ok d' \<and>
      refused_for r = (case port_refusal reserve_ok d of Some e \<Rightarrow> Some e | None \<Rightarrow> handle_refusal reserve_handle d) \<and>
      (case r of
         Inl e \<Rightarrow> handle_view d' = handle_view d \<and> port_view d' = port_view d
       | Inr (p, h) \<Rightarrow> handle_ok h \<and> port_view d p = None \<and> handle_view d h = None \<and> port_view d' = (port_view d)(p \<mapsto> s) \<and>
           handle_view d' = (handle_view d)(h \<mapsto> \<lparr>hb_target = TargetService p, hb_rights = rights, hb_owner = KernelOwner\<rparr>)))"
    (is "?A \<and> ?B \<and> ?C")
proof (intro conjI)
  obtain r d' where run: "open_owned reserve_ok d port rights owner = (r, d')" by fastforce
  note eff = open_owned_ok [OF assms run] and why = open_owned_refusal [OF assms, of reserve_ok port rights owner, unfolded run fst_conv]
  from eff have "port_view d' = port_view d" by (simp add: port_view_def)
  with eff why assms show ?A unfolding run by (cases r) auto
next
  obtain r d' where run: "open_scheduler_owned reserve_ok d interface rights owner = (r, d')" by fastforce
  note eff = open_scheduler_owned_ok [OF assms run]
    and why = open_scheduler_owned_refusal [OF assms, of reserve_ok interface rights owner, unfolded run fst_conv]
  from eff have "port_view d' = port_view d" by (simp add: port_view_def)
  with eff why assms show ?B unfolding run by (cases r) auto
next
  obtain r d' where run: "dispatcher_register reserve_ok reserve_handle d s rights = (r, d')" by fastforce
  from dispatcher_register_ok [OF assms run]
    dispatcher_register_refusal [OF assms, of reserve_ok reserve_handle s rights, unfolded run fst_conv]
  show ?C unfolding run by (cases r) auto
qed

theorem dispatcher_grants_exact_witness:
  "\<exists>d'. open_owned True sample_dispatcher \<lparr>pi_slot = 0, pi_generation = 1\<rparr> right_CALL KernelOwner =
       (Inr \<lparr>h_slot = 2, h_generation = 1\<rparr>, d') \<and>
     handle_view d' \<lparr>h_slot = 2, h_generation = 1\<rparr> =
       Some \<lparr>hb_target = TargetService \<lparr>pi_slot = 0, pi_generation = 1\<rparr>, hb_rights = right_CALL, hb_owner = KernelOwner\<rparr> \<and>
     port_view d' = port_view sample_dispatcher"
proof -
  let ?p = "\<lparr>pi_slot = 0, pi_generation = 1\<rparr>"
  have "fst (open_owned True sample_dispatcher ?p right_CALL KernelOwner) = Inr \<lparr>h_slot = 2, h_generation = 1\<rparr>"
    by (simp add: open_owned_def validate_port_def allocate_handle_def sample_dispatcher_def try_into_def)
  then obtain d' where run: "open_owned True sample_dispatcher ?p right_CALL KernelOwner =
      (Inr \<lparr>h_slot = 2, h_generation = 1\<rparr>, d')"
    by (cases "open_owned True sample_dispatcher ?p right_CALL KernelOwner") auto
  then show ?thesis
    using conjunct1 [OF dispatcher_grants_exact [OF sample_dispatcher_ok, where reserve_ok = True and port = ?p and
      rights = right_CALL and owner = KernelOwner], unfolded run] by simp
qed

text \<open>
  C18. Revocation is exact. Closing a handle ends that identity and no other, and refuses an identity
  that is not live; closing a port ends the port and exactly the handles that name it; tearing down a
  task ends exactly the handles it owns and reports how many, unless they are 65536 or more, when
  it refuses and revokes none. Afterwards no live handle names a dead port.
\<close>

theorem dispatcher_revocation_exact:
  assumes "dispatcher_ok d"
  shows "(case dispatcher_close d h of (r, d') \<Rightarrow>
      dispatcher_ok d' \<and> port_view d' = port_view d \<and> handle_view d' = (handle_view d)(h := None) \<and>
      r = (if handle_view d h = None then Inl InvalidHandle else Inr ()))
    \<and> (case close_port d p of (r, d') \<Rightarrow>
      dispatcher_ok d' \<and> port_view d' = (port_view d)(p := None) \<and>
      handle_view d' = (\<lambda>h. case handle_view d h of
        Some b \<Rightarrow> if hb_target b = TargetService p then None else Some b | None \<Rightarrow> None) \<and>
      r = (if port_view d p = None then Inl InvalidPort else Inr ()))
    \<and> (case close_owner d owner of (r, d') \<Rightarrow>
      dispatcher_ok d' \<and> port_view d' = port_view d \<and>
      (let owned = {h. \<exists>b. handle_view d h = Some b \<and> hb_owner b = owner} in
       if \<not> live_task owner then r = Inl InvalidOwner \<and> d' = d
       else if card owned < 2 ^ 16 then r = Inr (card owned) \<and> handle_view d' = (\<lambda>h. if h \<in> owned then None else handle_view d h)
       else r = Inl AccountingOverflow \<and> d' = d))"
    (is "?A \<and> ?B \<and> ?C")
proof (intro conjI)
  obtain r d' where run: "dispatcher_close d h = (r, d')" by fastforce
  from dispatcher_close_ok [OF assms run] have "port_view d' = port_view d" by (simp add: port_view_def)
  with dispatcher_close_ok [OF assms run] show ?A unfolding run by simp
next
  obtain r d' where run: "close_port d p = (r, d')" by fastforce
  from close_port_ok [OF assms run] show ?B unfolding run by (simp add: fun_eq_iff)
next
  obtain r d' where run: "close_owner d owner = (r, d')" by fastforce
  let ?owned = "{h. \<exists>b. handle_view d h = Some b \<and> hb_owner b = owner}"
  let ?own = "\<lambda>x. \<exists>b. hs_binding x = Some b \<and> hb_owner b = owner"
  note o = close_owner_ok [OF assms run]
  have c: "count_if ?own (dp_handles d) = card ?owned"
    unfolding handle_view_def by (rule count_slots_view)
  have ports: "port_view d' = port_view d" using o by (simp add: port_view_def)
  show ?C
  proof (cases r)
    case (Inl e)
    with o c ports assms show ?thesis unfolding run by (simp add: Let_def split: if_splits)
  next
    case (Inr n)
    have "handle_view d' h = (if h \<in> ?owned then None else handle_view d h)" for h
      using o Inr by (auto split: option.splits)
    with o Inr c ports show ?thesis unfolding run by (simp add: Let_def fun_eq_iff)
  qed
qed

theorem dispatcher_revocation_exact_witness:
  "\<exists>d'. close_owner sample_dispatcher (IsolatedTask 5) = (Inr 1, d') \<and>
     handle_view d' \<lparr>h_slot = 0, h_generation = 3\<rparr> = None \<and>
     handle_view d' \<lparr>h_slot = 1, h_generation = 2 ^ 32 - 1\<rparr> = handle_view sample_dispatcher \<lparr>h_slot = 1, h_generation = 2 ^ 32 - 1\<rparr>"
proof -
  have "fst (close_owner sample_dispatcher (IsolatedTask 5)) = Inr 1"
    by (simp add: close_owner_def Let_def sample_dispatcher_def try_into_def)
  then obtain d' where run: "close_owner sample_dispatcher (IsolatedTask 5) = (Inr 1, d')"
    by (cases "close_owner sample_dispatcher (IsolatedTask 5)") auto
  have own: "\<lparr>h_slot = 0, h_generation = 3\<rparr> \<in> {h. \<exists>b. handle_view sample_dispatcher h = Some b \<and> hb_owner b = IsolatedTask 5}"
    "\<lparr>h_slot = 1, h_generation = 2 ^ 32 - 1\<rparr> \<notin> {h. \<exists>b. handle_view sample_dispatcher h = Some b \<and> hb_owner b = IsolatedTask 5}"
    by (simp_all add: handle_view_def slot_view_def sample_dispatcher_def)
  have "handle_view d' = (\<lambda>h. if h \<in> {h. \<exists>b. handle_view sample_dispatcher h = Some b \<and> hb_owner b = IsolatedTask 5}
      then None else handle_view sample_dispatcher h)" (is "_ = ?view")
    using dispatcher_revocation_exact [OF sample_dispatcher_ok, of "\<lparr>h_slot = 0, h_generation = 3\<rparr>"
      "\<lparr>pi_slot = 0, pi_generation = 1\<rparr>" "IsolatedTask 5", unfolded run]
    by (simp add: Let_def split: if_splits)
  then have "handle_view d' h = ?view h" for h by (rule fun_cong)
  then have "handle_view d' \<lparr>h_slot = 0, h_generation = 3\<rparr> = None"
    "handle_view d' \<lparr>h_slot = 1, h_generation = 2 ^ 32 - 1\<rparr> = handle_view sample_dispatcher \<lparr>h_slot = 1, h_generation = 2 ^ 32 - 1\<rparr>"
    using own by (simp_all only: if_True if_False)
  with run show ?thesis by blast
qed

section \<open>The course of a call\<close>

lemma dispatcher_call_served:
  assumes ok: "dispatcher_ok d" and room: "call_room d payload" and len: "length payload \<le> MAX_MESSAGE_BYTES"
    and h: "handle_view d h = Some b" "rights_contains (hb_rights b) right_CALL" "hb_target b = TargetService p"
    and q: "port_view d p = Some s" "svc_call s (call_request d opcode payload) = (q, s')"
  shows "dispatcher_call svc_call d h opcode payload =
    (let d2 = set_service (call_counted d payload) p s' in
     case q of
       Inl e \<Rightarrow> (Inl e, d2)
     | Inr reply \<Rightarrow>
        if MAX_MESSAGE_BYTES < length (sr_payload reply) then (Inl MessageTooLarge, d2)
        else (Inr \<lparr>rp_request_id = dp_next_request_id d, rp_status = sr_status reply, rp_payload = sr_payload reply\<rparr>,
              reply_counted d2 (length (sr_payload reply)) (of_bool (sr_payload reply \<noteq> [])) (of_bool (sr_payload reply \<noteq> []))))"
proof -
  let ?d2 = "set_service (call_counted d payload) p s'"
  have adm: "admit_call d h opcode payload = Inr (p, call_request d opcode payload, call_counted d payload)"
    using admit_call_room [OF ok room] h by simp
  have svc: "service_of (call_counted d payload) p = Some s" using service_of_view [OF q(1)] by simp
  have cnt: "count_reply ?d2 (length (sr_payload reply)) (of_bool (sr_payload reply \<noteq> [])) (of_bool (sr_payload reply \<noteq> [])) =
      Inr (reply_counted ?d2 (length (sr_payload reply)) (of_bool (sr_payload reply \<noteq> [])) (of_bool (sr_payload reply \<noteq> [])))"
    if "\<not> MAX_MESSAGE_BYTES < length (sr_payload reply)" for reply
    using room ok that by (intro count_reply_room) (simp_all add: call_room_def set_service_def call_counted_def dispatcher_ok_def)
  show ?thesis
  proof (cases q)
    case (Inl e)
    with adm svc q(2) len show ?thesis by (simp add: dispatcher_call_def)
  next
    case (Inr reply)
    with adm svc q(2) len cnt [of reply] show ?thesis
      by (cases "sr_payload reply = []") (simp_all add: dispatcher_call_def Let_def call_request_def)
  qed
qed

lemma dispatcher_call_refused:
  assumes "dispatcher_ok d" "call_room d payload"
  shows "MAX_MESSAGE_BYTES < length payload \<Longrightarrow> dispatcher_call svc_call d h opcode payload = (Inl MessageTooLarge, d)"
    and "length payload \<le> MAX_MESSAGE_BYTES \<Longrightarrow> handle_view d h = None \<Longrightarrow>
      dispatcher_call svc_call d h opcode payload = (Inl InvalidHandle, d)"
    and "length payload \<le> MAX_MESSAGE_BYTES \<Longrightarrow> handle_view d h = Some b \<Longrightarrow> \<not> rights_contains (hb_rights b) right_CALL \<Longrightarrow>
      dispatcher_call svc_call d h opcode payload = (Inl PermissionDenied, d)"
    and "length payload \<le> MAX_MESSAGE_BYTES \<Longrightarrow> handle_view d h = Some b \<Longrightarrow> rights_contains (hb_rights b) right_CALL \<Longrightarrow>
      hb_target b = TargetScheduler i \<Longrightarrow> dispatcher_call svc_call d h opcode payload = (Inl InvalidHandle, d)"
  using admit_call_room [OF assms] by (simp_all add: dispatcher_call_def)

lemma served_counts:
  "dp_calls (set_service (call_counted d payload) p s') = dp_calls d + 1"
  "dp_request_bytes (set_service (call_counted d payload) p s') = dp_request_bytes d + length payload"
  "dp_replies (set_service (call_counted d payload) p s') = dp_replies d"
  "dp_reply_bytes (set_service (call_counted d payload) p s') = dp_reply_bytes d"
  by (simp_all add: set_service_def call_counted_def)

lemma reply_counts:
  "dp_calls (reply_counted d n c a) = dp_calls d" "dp_request_bytes (reply_counted d n c a) = dp_request_bytes d"
  "dp_replies (reply_counted d n c a) = dp_replies d + 1" "dp_reply_bytes (reply_counted d n c a) = dp_reply_bytes d + n"
  by (simp_all add: reply_counted_def)

text \<open>
  C9. A call runs exactly the service its handle names, once. A payload over the ceiling, a handle that
  is not live, one without the call right, and a scheduler capability are refused and change nothing. Otherwise the
  service registered at the handle's port receives one request with the next identity and the caller's opcode
  and bytes, its new state is kept at that port and no other port or handle changes, one call is counted,
  and the caller gets the service's own error, or an error for a reply over the ceiling, or the service's reply
  under the request's identity, with the reply counted. Through the ABI nothing changes unless the
  value names a live callable handle of that very task.
\<close>

theorem dispatcher_call_exact:
  assumes "dispatcher_ok d" "call_room d payload"
  shows "(case dispatcher_call svc_call d h opcode payload of (r, d') \<Rightarrow>
      if MAX_MESSAGE_BYTES < length payload then r = Inl MessageTooLarge \<and> d' = d
      else case handle_view d h of
        None \<Rightarrow> r = Inl InvalidHandle \<and> d' = d
      | Some b \<Rightarrow>
          if \<not> rights_contains (hb_rights b) right_CALL then r = Inl PermissionDenied \<and> d' = d
          else case hb_target b of
            TargetScheduler _ \<Rightarrow> r = Inl InvalidHandle \<and> d' = d
          | TargetService p \<Rightarrow>
              \<exists>s q s'. port_view d p = Some s \<and> svc_call s (call_request d opcode payload) = (q, s') \<and>
                handle_view d' = handle_view d \<and> port_view d' = (port_view d)(p \<mapsto> s') \<and>
                dp_calls d' = dp_calls d + 1 \<and> dp_request_bytes d' = dp_request_bytes d + length payload \<and>
                (case q of
                   Inl e \<Rightarrow> r = Inl e \<and> dp_replies d' = dp_replies d
                 | Inr reply \<Rightarrow>
                     if MAX_MESSAGE_BYTES < length (sr_payload reply)
                     then r = Inl MessageTooLarge \<and> dp_replies d' = dp_replies d
                     else r = Inr \<lparr>rp_request_id = dp_next_request_id d, rp_status = sr_status reply,
                                    rp_payload = sr_payload reply\<rparr> \<and> dp_replies d' = dp_replies d + 1 \<and>
                          dp_reply_bytes d' = dp_reply_bytes d + length (sr_payload reply)))
    \<and> (snd (call_owned_abi svc_call d owner value opcode payload) \<noteq> d \<longrightarrow>
       (\<exists>h b p. handle_abi_value h = value \<and> handle_view d h = Some b \<and> hb_owner b = owner \<and> live_task owner \<and>
          rights_contains (hb_rights b) right_CALL \<and> hb_target b = TargetService p))"
    (is "?A \<and> ?B")
proof (intro conjI)
  consider (long) "MAX_MESSAGE_BYTES < length payload"
    | (dead) "length payload \<le> MAX_MESSAGE_BYTES" "handle_view d h = None"
    | (denied) b where "length payload \<le> MAX_MESSAGE_BYTES" "handle_view d h = Some b" "\<not> rights_contains (hb_rights b) right_CALL"
    | (scheduler) b i where "length payload \<le> MAX_MESSAGE_BYTES" "handle_view d h = Some b"
        "rights_contains (hb_rights b) right_CALL" "hb_target b = TargetScheduler i"
    | (served) b p where "length payload \<le> MAX_MESSAGE_BYTES" "handle_view d h = Some b"
        "rights_contains (hb_rights b) right_CALL" "hb_target b = TargetService p"
    by (metis handle_target.exhaust not_less option.exhaust)
  then show ?A
  proof cases
    case served
    then obtain s where s: "port_view d p = Some s"
      using handle_view_ok [OF assms(1) served(2)] by (auto simp: binding_ok_def)
    obtain q s' where q: "svc_call s (call_request d opcode payload) = (q, s')" by fastforce
    have view: "port_view (set_service (call_counted d payload) p s') = (port_view d)(p \<mapsto> s')"
      using set_service_view [of "call_counted d payload" p s] s by simp
    have fits: "\<not> MAX_MESSAGE_BYTES < length payload" using served(1) by simp
    show ?thesis
      unfolding dispatcher_call_served [where svc_call = svc_call and opcode = opcode, OF assms served s q]
      using served fits s q view by (cases q) (auto simp: Let_def served_counts reply_counts)
  qed (use dispatcher_call_refused [OF assms] in auto)
next
  show ?B
  proof
    assume "snd (call_owned_abi svc_call d owner value opcode payload) \<noteq> d"
    then obtain h b where h: "owned_handle d owner value = Inr (h, b)" "snd (dispatcher_call svc_call d h opcode payload) \<noteq> d"
      by (auto simp: call_owned_abi_def split: sum.splits)
    then have b: "live_task owner" "handle_abi_value h = value" "handle_view d h = Some b" "hb_owner b = owner"
      by (auto simp: owned_handle_def binding_of_view result_simps handle_token_iff split: if_splits)
    from h(2) have len: "length payload \<le> MAX_MESSAGE_BYTES" by (auto simp: dispatcher_call_def split: if_splits)
    with h(2) dispatcher_call_refused [OF assms] b(3) have "rights_contains (hb_rights b) right_CALL"
      "\<And>i. hb_target b \<noteq> TargetScheduler i" by (metis snd_conv)+
    with b show "\<exists>h b p. handle_abi_value h = value \<and> handle_view d h = Some b \<and> hb_owner b = owner \<and> live_task owner \<and>
        rights_contains (hb_rights b) right_CALL \<and> hb_target b = TargetService p"
      by (metis handle_target.exhaust)
  qed
qed

definition sample_service :: "nat service_call" where
  "sample_service s request = (Inr \<lparr>sr_status = Success, sr_payload = rq_payload request\<rparr>, s + rq_opcode request)"

lemma sample_call_room: "call_room sample_dispatcher [1, 2]"
  by (simp add: call_room_def sample_dispatcher_def MAX_MESSAGE_BYTES_def)

lemma sample_binding: "handle_view sample_dispatcher \<lparr>h_slot = 0, h_generation = 3\<rparr> =
    Some \<lparr>hb_target = TargetService \<lparr>pi_slot = 0, pi_generation = 1\<rparr>, hb_rights = right_CALL, hb_owner = IsolatedTask 5\<rparr>"
  by (simp add: handle_view_def slot_view_def sample_dispatcher_def)

theorem dispatcher_call_exact_witness:
  "case dispatcher_call sample_service sample_dispatcher \<lparr>h_slot = 0, h_generation = 3\<rparr> 4 [1, 2] of (r, d') \<Rightarrow>
     r = Inr \<lparr>rp_request_id = 1, rp_status = Success, rp_payload = [1, 2]\<rparr> \<and>
     port_view d' \<lparr>pi_slot = 0, pi_generation = 1\<rparr> = Some 11 \<and> dp_calls d' = 1 \<and> dp_replies d' = 1"
proof -
  have "port_view sample_dispatcher \<lparr>pi_slot = 0, pi_generation = 1\<rparr> = Some 7" "dp_next_request_id sample_dispatcher = 1"
    "dp_calls sample_dispatcher = 0" "dp_replies sample_dispatcher = 0"
    by (simp_all add: port_view_def ports_view_def sample_dispatcher_def)
  then show ?thesis
    using conjunct1 [OF dispatcher_call_exact [OF sample_dispatcher_ok sample_call_room, where svc_call = sample_service and
      h = "\<lparr>h_slot = 0, h_generation = 3\<rparr>" and opcode = 4]]
    by (auto simp: sample_binding MAX_MESSAGE_BYTES_def rights_contains_def sample_service_def call_request_def)
qed

text \<open>
  C31. The copying call and the owned-reply call agree. For a service that does not override \<open>call_into\<close>,
  a call into caller storage returns the same request identity, status and length as the
  owned call, writes exactly the reply's bytes at the front of the storage and leaves the rest, gives the same
  errors with the storage untouched, and leaves the same dispatcher except for the one extra copy it counts; a reply longer than the
  storage is refused without writing, after the service has run.
\<close>

theorem call_into_agrees:
  assumes ok: "dispatcher_ok d" and room: "call_room d payload" and dest: "length destination \<le> MAX_MESSAGE_BYTES"
  shows "case dispatcher_call svc_call d h opcode payload of (r, d1) \<Rightarrow>
     case dispatcher_call_into (default_call_into svc_call) d h opcode payload destination of (r', d2, out) \<Rightarrow>
       (case r of
          Inl e \<Rightarrow> r' = Inl e \<and> d2 = d1 \<and> out = destination
        | Inr reply \<Rightarrow>
            if length (rp_payload reply) \<le> length destination
            then r' = Inr \<lparr>ri_request_id = rp_request_id reply, ri_status = rp_status reply,
                           ri_payload_bytes = length (rp_payload reply)\<rparr> \<and>
                 out = rp_payload reply @ drop (length (rp_payload reply)) destination \<and>
                 d2 = d1\<lparr>dp_reply_payload_copies := dp_reply_payload_copies d1 + of_bool (rp_payload reply \<noteq> [])\<rparr>
            else r' = Inl MessageTooLarge \<and> out = destination \<and>
                 port_view d2 = port_view d1 \<and> handle_view d2 = handle_view d1)"
proof (cases "MAX_MESSAGE_BYTES < length payload")
  case True
  then show ?thesis by (simp add: dispatcher_call_def dispatcher_call_into_def)
next
  case False
  show ?thesis
  proof (cases "admit_call d h opcode payload")
    case (Inl e)
    with False dest show ?thesis by (simp add: dispatcher_call_def dispatcher_call_into_def)
  next
    case (Inr adm)
    obtain p request d1 where adm: "admit_call d h opcode payload = Inr (p, request, d1)"
      using Inr by (cases adm) auto
    from admitted_service [OF adm] obtain s where s: "service_of d1 p = Some s" "d1 = call_counted d payload" by blast
    obtain q s' where q: "svc_call s request = (q, s')" by fastforce
    let ?d2 = "set_service d1 p s'"
    show ?thesis
    proof (cases q)
      case (Inl e)
      with adm s q False dest show ?thesis by (simp add: dispatcher_call_def dispatcher_call_into_def default_call_into_def)
    next
      case (Inr reply)
      have cnt: "count_reply ?d2 (length (sr_payload reply)) c a = Inr (reply_counted ?d2 (length (sr_payload reply)) c a)"
        if "length (sr_payload reply) \<le> MAX_MESSAGE_BYTES" "c \<le> 2" "a \<le> 1" for c a
        using room ok that
        by (intro count_reply_room) (simp_all add: call_room_def s(2) set_service_def call_counted_def dispatcher_ok_def)
      have more: "reply_counted ?d2 n (2 * c) c =
          (reply_counted ?d2 n c c)\<lparr>dp_reply_payload_copies := dp_reply_payload_copies (reply_counted ?d2 n c c) + c\<rparr>" for n c
        by (simp add: reply_counted_def)
      consider (long) "MAX_MESSAGE_BYTES < length (sr_payload reply)"
        | (misfit) "length (sr_payload reply) \<le> MAX_MESSAGE_BYTES" "length destination < length (sr_payload reply)"
        | (fits) "length (sr_payload reply) \<le> MAX_MESSAGE_BYTES" "length (sr_payload reply) \<le> length destination" by linarith
      then show ?thesis
      proof cases
        case long
        with adm s q False dest Inr show ?thesis
          by (simp add: dispatcher_call_def dispatcher_call_into_def default_call_into_def Let_def)
      next
        case misfit
        with adm s q False dest Inr cnt [OF misfit(1), of 1 1] cnt [OF misfit(1), of 0 0] show ?thesis
          by (auto simp: dispatcher_call_def dispatcher_call_into_def default_call_into_def Let_def)
      next
        case fits
        with adm s q False dest Inr cnt [OF fits(1), of 1 1] cnt [OF fits(1), of 2 1] cnt [OF fits(1), of 0 0] more [of _ 1] show ?thesis
          by (cases "sr_payload reply = []")
            (simp_all add: dispatcher_call_def dispatcher_call_into_def default_call_into_def Let_def checked_mul_def copy_at_def)
      qed
    qed
  qed
qed

theorem call_into_agrees_witness:
  "case dispatcher_call_into (default_call_into sample_service) sample_dispatcher \<lparr>h_slot = 0, h_generation = 3\<rparr> 4 [1, 2] [9, 9, 9] of
     (r, d2, out) \<Rightarrow> r = Inr \<lparr>ri_request_id = 1, ri_status = Success, ri_payload_bytes = 2\<rparr> \<and> out = [1, 2, 9] \<and>
       dp_reply_payload_copies d2 = 2"
proof -
  let ?h = "\<lparr>h_slot = 0, h_generation = 3\<rparr>"
  have call: "dispatcher_call sample_service sample_dispatcher ?h 4 [1, 2] =
      (Inr \<lparr>rp_request_id = 1, rp_status = Success, rp_payload = [1, 2]\<rparr>,
       reply_counted (set_service (call_counted sample_dispatcher [1, 2]) \<lparr>pi_slot = 0, pi_generation = 1\<rparr> 11) 2 1 1)"
  proof -
    have "length ([1, 2] :: byte list) \<le> MAX_MESSAGE_BYTES" by (simp add: MAX_MESSAGE_BYTES_def)
    note served = dispatcher_call_served [where svc_call = sample_service and opcode = 4, OF sample_dispatcher_ok sample_call_room this
      sample_binding]
    have port: "port_view sample_dispatcher \<lparr>pi_slot = 0, pi_generation = 1\<rparr> = Some 7" and id: "dp_next_request_id sample_dispatcher = 1"
      by (simp_all add: port_view_def ports_view_def sample_dispatcher_def)
    have svc: "sample_service 7 (call_request sample_dispatcher 4 [1, 2]) = (Inr \<lparr>sr_status = Success, sr_payload = [1, 2]\<rparr>, 11)"
      by (simp add: sample_service_def call_request_def)
    show ?thesis using served [OF _ _ port svc] by (simp add: rights_contains_def MAX_MESSAGE_BYTES_def id Let_def numeral_2_eq_2)
  qed
  have "length ([9, 9, 9] :: byte list) \<le> MAX_MESSAGE_BYTES" by (simp add: MAX_MESSAGE_BYTES_def)
  from call_into_agrees [OF sample_dispatcher_ok sample_call_room this, of sample_service ?h 4, unfolded call]
  show ?thesis
    by (auto simp: reply_counted_def set_service_def call_counted_def sample_dispatcher_def split: prod.splits)
qed

section \<open>Scheduler requests\<close>

lemma required_rights_assigned: "required_rights r AND NOT right_ASSIGNED = 0"
  by (cases r) (simp_all add: required_rights_def right_values)

lemma required_rights_decode: "rights_from_bits (ucast (required_rights r)) = Inr (required_rights r)"
  using required_rights_assigned by (simp add: rights_token_iff rights_bits_def)

text \<open>
  A scheduler request is authorized exactly when an isolated task presents the token of a live scheduler
  capability of its own, the bytes are the canonical record of a request of that capability's interface, and
  the capability holds every right the operation needs. A service handle never authorizes one,
  whatever interface the bytes claim.
\<close>

lemma scheduler_authorization_exact:
  "authorize_scheduler_owned_abi d owner value bytes = Inr call \<longleftrightarrow>
     live_task owner \<and> ac_owner call = owner \<and>
     (\<exists>h b i. handle_ok h \<and> handle_abi_value h = value \<and> handle_view d h = Some b \<and> hb_owner b = owner \<and>
        hb_target b = TargetScheduler i \<and> scheduler_id i = request_interface (ac_request call) \<and>
        request_encode (ac_request call) = Inr bytes \<and> rights_contains (hb_rights b) (required_rights (ac_request call)))"
proof -
  have dec: "request_decode i bytes = Inr r \<longleftrightarrow> i = request_interface r \<and> request_encode r = Inr bytes" for i r
    using request_decode_sound [of i bytes r] request_encode_iff [of r bytes] by auto
  have own: "owned_handle d owner value = Inr (h, b) \<longleftrightarrow> live_task owner \<and> handle_ok h \<and> handle_abi_value h = value \<and>
      handle_view d h = Some b \<and> hb_owner b = owner" for h b
    by (auto simp: owned_handle_def result_simps handle_token_iff binding_of_view split: if_splits)
  have "authorize_scheduler_owned_abi d owner value bytes = Inr call \<longleftrightarrow>
      (\<exists>h b i r. owned_handle d owner value = Inr (h, b) \<and> hb_target b = TargetScheduler i \<and>
        request_decode (scheduler_id i) bytes = Inr r \<and> rights_contains (hb_rights b) (required_rights r) \<and>
        call = \<lparr>ac_owner = owner, ac_request = r\<rparr>)"
  proof (cases "owned_handle d owner value")
    case (Inl e)
    then show ?thesis by (simp add: authorize_scheduler_owned_abi_def)
  next
    case (Inr hb)
    then obtain h b where "owned_handle d owner value = Inr (h, b)" by (cases hb) auto
    then show ?thesis
      by (cases "hb_target b")
        (auto simp: authorize_scheduler_owned_abi_def result_simps required_rights_decode split: if_splits)
  qed
  moreover have "call = \<lparr>ac_owner = owner, ac_request = r\<rparr> \<longleftrightarrow> ac_owner call = owner \<and> ac_request call = r" for r
    by (cases call) auto
  ultimately show ?thesis unfolding own dec by auto
qed

end
