(* ===== verification/Threading_Response.thy ===== *)
theory Threading_Response
  imports Threading_Request
begin

text \<open>
  Thread and synchronization responses (\<open>troe-abi/src/threading/response.rs\<close>): outcomes,
  lifecycle snapshots, and the 32-byte record that answers one request. A response is valid only
  relative to its request, and the record carries the request's interface and opcode.
\<close>

section \<open>Outcomes and states\<close>

datatype outcome =
    OutSuccess | WouldBlock | TimedOut | Stopped | Poisoned | Busy | Deadlock | Stale | NotOwner | DifferentMutex
  | OutExhausted | InvalidState | Stopping | OutInvalidRequest | OutUnsupported | OutDenied | OutOverflow

fun outcome_value :: "outcome \<Rightarrow> u16" where
  "outcome_value OutSuccess = 0"
| "outcome_value WouldBlock = 1"
| "outcome_value TimedOut = 2"
| "outcome_value Stopped = 3"
| "outcome_value Poisoned = 4"
| "outcome_value Busy = 5"
| "outcome_value Deadlock = 6"
| "outcome_value Stale = 7"
| "outcome_value NotOwner = 8"
| "outcome_value DifferentMutex = 9"
| "outcome_value OutExhausted = 10"
| "outcome_value InvalidState = 11"
| "outcome_value Stopping = 12"
| "outcome_value OutInvalidRequest = 13"
| "outcome_value OutUnsupported = 14"
| "outcome_value OutDenied = 15"
| "outcome_value OutOverflow = 16"

definition outcome_decode :: "u16 \<Rightarrow> outcome decoded" where
  "outcome_decode v =
     (if v = 0 then Inr OutSuccess
      else if v = 1 then Inr WouldBlock
      else if v = 2 then Inr TimedOut
      else if v = 3 then Inr Stopped
      else if v = 4 then Inr Poisoned
      else if v = 5 then Inr Busy
      else if v = 6 then Inr Deadlock
      else if v = 7 then Inr Stale
      else if v = 8 then Inr NotOwner
      else if v = 9 then Inr DifferentMutex
      else if v = 10 then Inr OutExhausted
      else if v = 11 then Inr InvalidState
      else if v = 12 then Inr Stopping
      else if v = 13 then Inr OutInvalidRequest
      else if v = 14 then Inr OutUnsupported
      else if v = 15 then Inr OutDenied
      else if v = 16 then Inr OutOverflow
      else Inl EncodingError)"

datatype thread_state =
    StatePrepared | StateReady | StateRunning | StateBlocked | StateExiting | StateCompleted | StateRevoked

fun state_value :: "thread_state \<Rightarrow> byte" where
  "state_value StatePrepared = 1"
| "state_value StateReady = 2"
| "state_value StateRunning = 3"
| "state_value StateBlocked = 4"
| "state_value StateExiting = 5"
| "state_value StateCompleted = 6"
| "state_value StateRevoked = 7"

definition state_decode :: "byte \<Rightarrow> thread_state decoded" where
  "state_decode v =
     (if v = 1 then Inr StatePrepared
      else if v = 2 then Inr StateReady
      else if v = 3 then Inr StateRunning
      else if v = 4 then Inr StateBlocked
      else if v = 5 then Inr StateExiting
      else if v = 6 then Inr StateCompleted
      else if v = 7 then Inr StateRevoked
      else Inl EncodingError)"

record snapshot =
  sn_state :: thread_state
  sn_stop_requested :: bool
  sn_detached :: bool
  sn_resources_released :: bool

record response =
  rs_outcome :: outcome
  rs_value :: u64
  rs_snapshot :: "snapshot option"

section \<open>Validity\<close>

definition success_value_ok :: "thread_request \<Rightarrow> u64 \<Rightarrow> unit decoded" where
  "success_value_ok request v =
     (case request of
        Prepare _ _ _ \<Rightarrow> rbind (token_of_kind v KindThread) (\<lambda>_. Inr ())
      | Current \<Rightarrow> rbind (token_of_kind v KindThread) (\<lambda>_. Inr ())
      | CreateMutex _ \<Rightarrow> rbind (token_of_kind v KindMutex) (\<lambda>_. Inr ())
      | CreateCondition \<Rightarrow> rbind (token_of_kind v KindCondition) (\<lambda>_. Inr ())
      | CreatePermit _ _ \<Rightarrow> rbind (token_of_kind v KindPermit) (\<lambda>_. Inr ())
      | Join _ _ \<Rightarrow> Inr ()
      | Exit _ \<Rightarrow> Inl EncodingError
      | _ \<Rightarrow> if v \<noteq> 0 then Inl EncodingError else Inr ())"

definition is_observe :: "thread_request \<Rightarrow> bool" where
  "is_observe request = (case request of Observe _ \<Rightarrow> True | _ \<Rightarrow> False)"

definition released_early :: "snapshot \<Rightarrow> bool" where
  "released_early s \<longleftrightarrow> sn_resources_released s \<and> \<not> (sn_state s = StateCompleted \<or> sn_state s = StateRevoked)"

definition outcome_compatible :: "outcome \<Rightarrow> thread_request \<Rightarrow> bool" where
  "outcome_compatible outcome request =
     (case outcome of
        WouldBlock \<Rightarrow> request_wait request = Some Try
      | TimedOut \<Rightarrow> (case request_wait request of Some (Wait w) \<Rightarrow> tw_deadline w \<noteq> None | _ \<Rightarrow> False)
      | Stopped \<Rightarrow> (case request_wait request of Some (Wait w) \<Rightarrow> tw_observe_stop w | _ \<Rightarrow> False)
      | Poisoned \<Rightarrow> (case request of Lock _ _ \<Rightarrow> True | ConditionWait _ _ _ \<Rightarrow> True | _ \<Rightarrow> False)
      | Deadlock \<Rightarrow> (case request of Join _ _ \<Rightarrow> True | Lock _ _ \<Rightarrow> True | _ \<Rightarrow> False)
      | NotOwner \<Rightarrow> (case request of Unlock _ \<Rightarrow> True | ConditionWait _ _ _ \<Rightarrow> True | _ \<Rightarrow> False)
      | DifferentMutex \<Rightarrow> (case request of ConditionWait _ _ _ \<Rightarrow> True | _ \<Rightarrow> False)
      | OutOverflow \<Rightarrow> (case request of ReleasePermit _ _ \<Rightarrow> True | _ \<Rightarrow> False)
      | _ \<Rightarrow> True)"

definition response_validate :: "response \<Rightarrow> thread_request \<Rightarrow> unit decoded" where
  "response_validate r request =
     (if rs_outcome r = OutSuccess then
        rbind (success_value_ok request (rs_value r)) (\<lambda>_.
        if is_observe request \<noteq> (rs_snapshot r \<noteq> None) then Inl EncodingError
        else if (case rs_snapshot r of Some s \<Rightarrow> released_early s | None \<Rightarrow> False) then Inl EncodingError
        else Inr ())
      else if rs_value r \<noteq> 0 \<or> rs_snapshot r \<noteq> None then Inl EncodingError
      else if \<not> outcome_compatible (rs_outcome r) request then Inl EncodingError
      else Inr ())"

section \<open>Records\<close>

definition read_le :: "nat \<Rightarrow> byte list \<Rightarrow> nat \<Rightarrow> 'a::len word decoded" where
  "read_le n bytes offset = rbind (thread_read n bytes offset) (\<lambda>b. Inr (from_le_bytes b))"

definition snapshot_decode :: "byte \<Rightarrow> byte \<Rightarrow> snapshot option decoded" where
  "snapshot_decode state flags =
     (if state = 0 then if flags \<noteq> 0 then Inl EncodingError else Inr None
      else rbind (state_decode state) (\<lambda>s.
        Inr (Some \<lparr>sn_state = s, sn_stop_requested = (flags AND 1 \<noteq> 0), sn_detached = (flags AND 2 \<noteq> 0),
                   sn_resources_released = (flags AND 4 \<noteq> 0)\<rparr>)))"

definition response_decode :: "thread_request \<Rightarrow> byte list \<Rightarrow> response decoded" where
  "response_decode request bytes =
     rbind (request_encode request) (\<lambda>_.
     if length bytes \<noteq> RESPONSE_BYTES then Inl EncodingError
     else rbind (read_le 4 bytes 0) (\<lambda>interface.
     if interface \<noteq> request_interface request then Inl EncodingError
     else rbind (read_le 2 bytes 4) (\<lambda>major.
     if major \<noteq> thread_MAJOR then Inl EncodingError
     else rbind (read_le 2 bytes 6) (\<lambda>opcode.
     if opcode \<noteq> request_opcode request \<or> bytes ! 11 AND NOT 7 \<noteq> 0 \<or> chunk 12 4 bytes \<noteq> replicate 4 0 \<or>
        chunk 24 8 bytes \<noteq> replicate 8 0 then Inl EncodingError
     else rbind (snapshot_decode (bytes ! 10) (bytes ! 11)) (\<lambda>snapshot.
     rbind (read_le 2 bytes 8) (\<lambda>code.
     rbind (outcome_decode code) (\<lambda>outcome.
     rbind (read_le 8 bytes 16) (\<lambda>v.
     let result = \<lparr>rs_outcome = outcome, rs_value = v, rs_snapshot = snapshot\<rparr> in
     rbind (response_validate result request) (\<lambda>_. Inr result)))))))))"

definition write_snapshot :: "snapshot option \<Rightarrow> byte list \<Rightarrow> byte list" where
  "write_snapshot snapshot bytes =
     (case snapshot of
        None \<Rightarrow> bytes
      | Some s \<Rightarrow> copy_at 10 [state_value (sn_state s),
          of_bool (sn_stop_requested s) OR push_bit 1 (of_bool (sn_detached s)) OR
          push_bit 2 (of_bool (sn_resources_released s))] bytes)"

definition response_record :: "response \<Rightarrow> thread_request \<Rightarrow> byte list" where
  "response_record r request =
     copy_at 16 (le_bytes 8 (rs_value r))
       (write_snapshot (rs_snapshot r)
         (copy_at 8 (le_bytes 2 (outcome_value (rs_outcome r)))
           (copy_at 6 (le_bytes 2 (request_opcode request))
             (copy_at 4 (le_bytes 2 thread_MAJOR)
               (copy_at 0 (le_bytes 4 (request_interface request)) (replicate RESPONSE_BYTES 0))))))"

definition response_encode :: "response \<Rightarrow> thread_request \<Rightarrow> byte list decoded" where
  "response_encode r request =
     rbind (request_encode request) (\<lambda>_. rbind (response_validate r request) (\<lambda>_. Inr (response_record r request)))"

section \<open>Fields\<close>

lemma outcome_decode_iff: "outcome_decode v = Inr x \<longleftrightarrow> v = outcome_value x"
proof
  show "outcome_decode v = Inr x \<Longrightarrow> v = outcome_value x"
    by (auto simp: outcome_decode_def split: if_splits)
  show "v = outcome_value x \<Longrightarrow> outcome_decode v = Inr x"
    by (cases x) (simp_all add: outcome_decode_def)
qed

lemma state_decode_iff: "state_decode v = Inr x \<longleftrightarrow> v = state_value x"
proof
  show "state_decode v = Inr x \<Longrightarrow> v = state_value x"
    by (auto simp: state_decode_def split: if_splits)
  show "v = state_value x \<Longrightarrow> state_decode v = Inr x"
    by (cases x) (simp_all add: state_decode_def)
qed

definition snapshot_bytes :: "snapshot option \<Rightarrow> byte list" where
  "snapshot_bytes snapshot =
     (case snapshot of
        None \<Rightarrow> [0, 0]
      | Some s \<Rightarrow> [state_value (sn_state s),
          of_bool (sn_stop_requested s) OR push_bit 1 (of_bool (sn_detached s)) OR
          push_bit 2 (of_bool (sn_resources_released s))])"

lemma snapshot_flags_cases:
  assumes "(flags :: byte) AND NOT 7 = 0"
  shows "flags \<in> {0, 1, 2, 3, 4, 5, 6, 7}"
proof -
  have "flags = flags AND 7 OR (flags AND NOT 7)"
    by (metis bit.conj_disj_distrib bit.disj_cancel_right and.right_neutral)
  then have "flags = flags AND 7" using assms by simp
  also have "(7::byte) = 2 ^ 0 OR 2 ^ 1 OR 2 ^ 2" by simp
  also have "flags AND (2 ^ 0 OR 2 ^ 1 OR 2 ^ 2) =
      (if bit flags 0 then 2 ^ 0 else 0) OR (if bit flags 1 then 2 ^ 1 else 0) OR (if bit flags 2 then 2 ^ 2 else 0)"
    unfolding bit.conj_disj_distrib and_exp_word ..
  finally show ?thesis by (simp split: if_splits)
qed

lemma snapshot_decode_iff:
  "flags AND NOT 7 = 0 \<and> snapshot_decode state flags = Inr s \<longleftrightarrow> [state, flags] = snapshot_bytes s"
proof
  assume a: "flags AND NOT 7 = 0 \<and> snapshot_decode state flags = Inr s"
  from snapshot_flags_cases [of flags] a have "flags \<in> {0, 1, 2, 3, 4, 5, 6, 7}" by blast
  with a show "[state, flags] = snapshot_bytes s"
    by (auto simp: snapshot_decode_def snapshot_bytes_def result_simps state_decode_iff split: if_splits)
next
  assume b: "[state, flags] = snapshot_bytes s"
  show "flags AND NOT 7 = 0 \<and> snapshot_decode state flags = Inr s"
  proof (cases s)
    case None
    with b show ?thesis by (simp add: snapshot_decode_def snapshot_bytes_def)
  next
    case (Some x)
    have nz: "state_value st \<noteq> 0" for st by (cases st) simp_all
    obtain st a c e where x: "x = \<lparr>sn_state = st, sn_stop_requested = a, sn_detached = c, sn_resources_released = e\<rparr>" by (cases x)
    have "state_decode state = Inr st" using b Some x by (simp add: snapshot_bytes_def state_decode_iff)
    with b Some x nz [of st] show ?thesis
      by (cases a; cases c; cases e) (simp_all add: snapshot_decode_def snapshot_bytes_def)
  qed
qed

lemma write_snapshot_eq:
  "12 \<le> length bytes \<Longrightarrow> chunk 10 2 bytes = [0, 0] \<Longrightarrow> write_snapshot s bytes = copy_at 10 (snapshot_bytes s) bytes"
proof (cases s)
  case None
  assume "12 \<le> length bytes" "chunk 10 2 bytes = [0, 0]"
  then have "copy_at 10 (chunk 10 2 bytes) bytes = bytes"
    by (intro copy_at_chunk) simp
  with None \<open>chunk 10 2 bytes = [0, 0]\<close> show ?thesis by (simp add: write_snapshot_def snapshot_bytes_def)
next
  case (Some x)
  then show ?thesis by (simp add: write_snapshot_def snapshot_bytes_def)
qed

section \<open>Layout\<close>

lemma length_snapshot_bytes [simp]: "length (snapshot_bytes s) = 2"
  by (simp add: snapshot_bytes_def split: option.split)

definition response_layout :: "response \<Rightarrow> thread_request \<Rightarrow> byte list list" where
  "response_layout r request =
     [le_bytes 4 (request_interface request), le_bytes 2 thread_MAJOR, le_bytes 2 (request_opcode request),
      le_bytes 2 (outcome_value (rs_outcome r)), snapshot_bytes (rs_snapshot r), replicate 4 0, le_bytes 8 (rs_value r),
      replicate 8 0]"

abbreviation response_fields :: "nat list" where
  "response_fields \<equiv> [4, 2, 2, 2, 2, 4, 8, 8]"

lemma response_record_fields:
  "length (response_record r request) = 32 \<and> chunks 0 response_fields (response_record r request) = response_layout r request"
proof -
  let ?b = "copy_at 8 (le_bytes 2 (outcome_value (rs_outcome r))) (copy_at 6 (le_bytes 2 (request_opcode request))
     (copy_at 4 (le_bytes 2 thread_MAJOR) (copy_at 0 (le_bytes 4 (request_interface request)) (replicate 32 0))))"
  have len: "length ?b = 32" by simp
  have "chunk 10 2 ?b = [0, 0]" by (simp add: wire_simps numeral_2_eq_2)
  with len have "response_record r request = copy_at 16 (le_bytes 8 (rs_value r)) (copy_at 10 (snapshot_bytes (rs_snapshot r)) ?b)"
    by (simp add: response_record_def RESPONSE_BYTES_def write_snapshot_eq)
  then show ?thesis by (simp add: response_layout_def wire_simps)
qed

lemma pair_chunk: "Suc (Suc offset) \<le> length xs \<Longrightarrow> chunk offset 2 xs = [xs ! offset, xs ! Suc offset]"
  by (rule nth_equalityI) (auto simp: chunk_def less_Suc_eq numeral_2_eq_2)

lemma response_fields_decode:
  assumes "length bytes = 32" "request_encode request = Inr e"
  shows "response_decode request bytes = Inr r \<longleftrightarrow>
    chunks 0 response_fields bytes = response_layout r request \<and> response_validate r request = Inr ()"
proof -
  obtain i m p c v where f: "(from_le_bytes (chunk 0 4 bytes) :: u32) = i" "(from_le_bytes (chunk 4 2 bytes) :: u16) = m"
    "(from_le_bytes (chunk 6 2 bytes) :: u16) = p" "(from_le_bytes (chunk 8 2 bytes) :: u16) = c"
    "(from_le_bytes (chunk 16 8 bytes) :: u64) = v" by blast
  have g: "chunk 0 4 bytes = le_bytes 4 i" "chunk 4 2 bytes = le_bytes 2 m" "chunk 6 2 bytes = le_bytes 2 p"
    "chunk 8 2 bytes = le_bytes 2 c" "chunk 16 8 bytes = le_bytes 8 v"
    using assms(1) by (simp_all add: f [symmetric] le_bytes_from_le_bytes)
  have ten: "chunk 10 2 bytes = [bytes ! 10, bytes ! 11]" using pair_chunk [of 10 bytes] assms(1) by simp
  have reads: "read_le 4 bytes 0 = Inr i" "read_le 2 bytes 4 = Inr m" "read_le 2 bytes 6 = Inr p" "read_le 2 bytes 8 = Inr c"
    "read_le 8 bytes 16 = Inr v"
    using assms(1) by (simp_all add: read_le_def thread_read_def f)
  have "response_decode request bytes = Inr r \<longleftrightarrow>
      i = request_interface request \<and> m = thread_MAJOR \<and> p = request_opcode request \<and>
      (bytes ! 11 AND NOT 7 = 0 \<and> snapshot_decode (bytes ! 10) (bytes ! 11) = Inr (rs_snapshot r)) \<and>
      chunk 12 4 bytes = replicate 4 0 \<and> chunk 24 8 bytes = replicate 8 0 \<and>
      c = outcome_value (rs_outcome r) \<and> v = rs_value r \<and> response_validate r request = Inr ()"
    by (cases r) (auto simp: response_decode_def assms RESPONSE_BYTES_def reads outcome_decode_iff result_simps Let_def)
  then show ?thesis
    unfolding snapshot_decode_iff by (auto simp: response_layout_def g ten le_bytes_inject)
qed

lemma response_decode_iff_encode:
  "response_decode request bytes = Inr r \<longleftrightarrow> response_encode r request = Inr bytes"
proof (cases "request_encode request")
  case (Inl e)
  then show ?thesis by (simp add: response_decode_def response_encode_def)
next
  case (Inr e)
  show ?thesis
  proof (cases "length bytes = 32")
    case False
    then show ?thesis
      using response_record_fields [of r request]
      by (auto simp: response_decode_def response_encode_def Inr RESPONSE_BYTES_def result_simps)
  next
    case True
    have "chunks 0 response_fields bytes = response_layout r request \<longleftrightarrow> bytes = response_record r request"
      using response_record_fields [of r request] eq_by_chunks [of bytes response_fields "response_record r request"] True by auto
    then show ?thesis
      unfolding response_fields_decode [OF True Inr]
      by (cases "response_validate r request") (auto simp: response_encode_def Inr)
  qed
qed

text \<open>
  C24. Thread requests and responses are canonical on the wire. A byte string decodes to a request under an
  interface exactly when the interface is the request's own and the bytes are the record that encoding it
  produces, so decoding inverts encoding and every unused word, unknown tag, wrong token kind or reserved
  flag is refused; exactly the requests with tokens of the named kind and scalars in range
  encode. The same holds of a response relative to the request it answers, and a response decodes only for
  a request that itself encodes.
\<close>

theorem thread_messages_canonical:
  "(request_decode i bytes = Inr request \<longleftrightarrow> i = request_interface request \<and> request_encode request = Inr bytes) \<and>
   ((\<exists>bytes. request_encode request = Inr bytes) \<longleftrightarrow> request_valid request) \<and>
   (response_decode request answer = Inr r \<longleftrightarrow> response_encode r request = Inr answer) \<and>
   ((\<exists>answer. response_encode r request = Inr answer) \<longleftrightarrow> request_valid request \<and> response_validate r request = Inr ())"
proof -
  have "(\<exists>answer. response_encode r request = Inr answer) \<longleftrightarrow>
      (\<exists>bytes. request_encode request = Inr bytes) \<and> response_validate r request = Inr ()"
    by (auto simp: response_encode_def result_simps)
  then show ?thesis
    using request_decode_iff_encode request_encode_valid response_decode_iff_encode by simp
qed

end
