(* ===== verification/Threading_Startup.thy ===== *)
theory Threading_Startup
  imports Threading_Response
begin

text \<open>
  Thread startup descriptors (\<open>troe-abi/src/threading/startup.rs\<close>): the 16-byte reference in the process
  header, the 128-byte descriptor of one thread, the validation of its page geometry, and the
  full-page form. Addresses are 64-bit words.
\<close>

section \<open>Checked address arithmetic\<close>

definition word_checked_add :: "u64 \<Rightarrow> u64 \<Rightarrow> u64 option" where
  "word_checked_add a b = map_option of_nat (checked_add 64 (unat a) (unat b))"

definition word_checked_sub :: "u64 \<Rightarrow> u64 \<Rightarrow> u64 option" where
  "word_checked_sub a b = map_option of_nat (checked_sub (unat a) (unat b))"

section \<open>References\<close>

definition startup_MAGIC :: "byte list" where
  "startup_MAGIC = [0x54, 0x54, 0x48, 0x52, 0x76, 0x31, 0, 0]"

definition PREFIX_BYTES :: u32 where "PREFIX_BYTES = 128"

record startup_reference =
  sf_address :: u64

definition reference_decode :: "byte list \<Rightarrow> startup_reference decoded" where
  "reference_decode bytes =
     (if length bytes \<noteq> 16 then Inl EncodingError
      else rbind (read_le 8 bytes 8) (\<lambda>size.
      if size \<noteq> (of_nat STARTUP_BYTES :: u64) then Inl EncodingError
      else rbind (read_le 8 bytes 0) (\<lambda>address.
      rbind (user_range address STARTUP_MAPPING_BYTES) (\<lambda>_.
      Inr \<lparr>sf_address = address\<rparr>))))"

definition reference_encode :: "startup_reference \<Rightarrow> byte list decoded" where
  "reference_encode r =
     rbind (user_range (sf_address r) STARTUP_MAPPING_BYTES) (\<lambda>_.
     Inr (copy_at 8 (le_bytes 8 (of_nat STARTUP_BYTES :: u64))
           (copy_at 0 (le_bytes 8 (sf_address r)) (replicate 16 0))))"

section \<open>Descriptors\<close>

record startup_descriptor =
  sd_thread :: token
  sd_process_startup :: u64
  sd_stack_bottom :: u64
  sd_stack_top :: u64
  sd_tls_base :: u64
  sd_tls_bytes :: u64
  sd_thread_pointer :: u64
  sd_ipc_tx :: u64
  sd_entry :: u64
  sd_argument :: u64
  sd_initial :: bool
  sd_address :: u64

text \<open>The loop over the five ranges: every earlier range is disjoint, and a worker's entry is outside.\<close>

fun ranges_ok :: "startup_descriptor \<Rightarrow> (u64 \<times> u64) list \<Rightarrow> (u64 \<times> u64) list \<Rightarrow> bool" where
  "ranges_ok d earlier [] = True"
| "ranges_ok d earlier ((start, upper) # rest) =
     (if list_ex (\<lambda>(other_start, other_end). start < other_end \<and> other_start < upper) earlier then False
      else if \<not> sd_initial d \<and> start \<le> sd_entry d \<and> sd_entry d < upper then False
      else ranges_ok d (earlier @ [(start, upper)]) rest)"

definition startup_validate :: "startup_descriptor \<Rightarrow> unit decoded" where
  "startup_validate d =
     rbind (token_of_kind (token_bits (sd_thread d)) KindThread) (\<lambda>_.
     rbind (user_range (sd_process_startup d) PAGE_BYTES) (\<lambda>process_end.
     rbind (ok_or EncodingError (word_checked_sub (sd_stack_top d) (sd_stack_bottom d))) (\<lambda>stack_bytes.
     rbind (user_range (sd_stack_bottom d) stack_bytes) (\<lambda>_.
     rbind (ok_or EncodingError (word_checked_sub (sd_stack_bottom d) PAGE_BYTES)) (\<lambda>guard_start.
     rbind (ok_or EncodingError (word_checked_add stack_bytes (2 * PAGE_BYTES))) (\<lambda>guard_bytes.
     rbind (user_range guard_start guard_bytes) (\<lambda>guard_end.
     rbind (user_range (sd_tls_base d) (sd_tls_bytes d)) (\<lambda>tls_end.
     rbind (user_range (sd_ipc_tx d) (2 * PAGE_BYTES)) (\<lambda>ipc_end.
     rbind (user_range (sd_address d) STARTUP_MAPPING_BYTES) (\<lambda>descriptor_end.
     if sd_thread_pointer d < sd_tls_base d \<or> sd_thread_pointer d \<ge> tls_end \<or> sd_thread_pointer d mod 8 \<noteq> 0 \<or>
        (sd_initial d \<and> (sd_entry d \<noteq> 0 \<or> sd_argument d \<noteq> 0)) \<or>
        (\<not> sd_initial d \<and> \<not> (PAGE_BYTES \<le> sd_entry d \<and> sd_entry d < USER_END)) then Inl EncodingError
     else if \<not> ranges_ok d [] [(sd_process_startup d, process_end), (guard_start, guard_end), (sd_tls_base d, tls_end),
        (sd_ipc_tx d, ipc_end), (sd_address d, descriptor_end)] then Inl EncodingError
     else Inr ()))))))))))"

definition startup_decode :: "byte list \<Rightarrow> startup_descriptor decoded" where
  "startup_decode bytes =
     (if length bytes \<noteq> STARTUP_BYTES \<or> chunk 0 8 bytes \<noteq> startup_MAGIC then Inl EncodingError
      else rbind (read_le 2 bytes 8) (\<lambda>major.
      if major \<noteq> (1 :: u16) then Inl EncodingError
      else rbind (read_le 2 bytes 10) (\<lambda>minor.
      if minor \<noteq> (0 :: u16) then Inl EncodingError
      else rbind (read_le 4 bytes 12) (\<lambda>prefix.
      if prefix \<noteq> PREFIX_BYTES then Inl EncodingError
      else rbind (read_le 8 bytes 32) (\<lambda>page.
      if page \<noteq> PAGE_BYTES then Inl EncodingError
      else rbind (read_le 4 bytes 112) (\<lambda>flag.
      if flag > (1 :: u32) \<or> chunk 116 4 bytes \<noteq> replicate 4 0 then Inl EncodingError
      else rbind (read_le 8 bytes 16) (\<lambda>thread_bits. rbind (token_of_kind thread_bits KindThread) (\<lambda>thread.
      rbind (read_le 8 bytes 24) (\<lambda>process_startup.
      rbind (read_le 8 bytes 40) (\<lambda>stack_bottom.
      rbind (read_le 8 bytes 48) (\<lambda>stack_top.
      rbind (read_le 8 bytes 56) (\<lambda>tls_base.
      rbind (read_le 8 bytes 64) (\<lambda>tls_bytes.
      rbind (read_le 8 bytes 72) (\<lambda>thread_pointer.
      rbind (read_le 8 bytes 80) (\<lambda>ipc_tx.
      rbind (read_le 8 bytes 96) (\<lambda>entry.
      rbind (read_le 8 bytes 104) (\<lambda>argument.
      rbind (read_le 8 bytes 120) (\<lambda>address.
      let result = \<lparr>sd_thread = thread, sd_process_startup = process_startup, sd_stack_bottom = stack_bottom,
        sd_stack_top = stack_top, sd_tls_base = tls_base, sd_tls_bytes = tls_bytes, sd_thread_pointer = thread_pointer,
        sd_ipc_tx = ipc_tx, sd_entry = entry, sd_argument = argument, sd_initial = (bytes ! 112 = 1), sd_address = address\<rparr> in
      rbind (startup_validate result) (\<lambda>_.
      rbind (read_le 8 bytes 88) (\<lambda>ipc_rx.
      if ipc_rx \<noteq> ipc_tx + PAGE_BYTES then Inl EncodingError else Inr result))))))))))))))))))))"

definition startup_decode_page :: "byte list \<Rightarrow> startup_descriptor decoded" where
  "startup_decode_page bytes =
     (if length bytes \<noteq> unat STARTUP_MAPPING_BYTES \<or> list_ex (\<lambda>byte. byte \<noteq> 0) (drop STARTUP_BYTES bytes)
      then Inl EncodingError
      else startup_decode (take STARTUP_BYTES bytes))"

fun write_fields :: "(nat \<times> u64) list \<Rightarrow> byte list \<Rightarrow> byte list" where
  "write_fields [] bytes = bytes"
| "write_fields ((offset, v) # rest) bytes = write_fields rest (copy_at offset (le_bytes 8 v) bytes)"

definition startup_record :: "startup_descriptor \<Rightarrow> byte list" where
  "startup_record d =
     (write_fields
       [(16, token_bits (sd_thread d)), (24, sd_process_startup d), (32, PAGE_BYTES), (40, sd_stack_bottom d),
        (48, sd_stack_top d), (56, sd_tls_base d), (64, sd_tls_bytes d), (72, sd_thread_pointer d), (80, sd_ipc_tx d),
        (88, sd_ipc_tx d + PAGE_BYTES), (96, sd_entry d), (104, sd_argument d), (120, sd_address d)]
       (copy_at 12 (le_bytes 4 PREFIX_BYTES)
         (copy_at 8 (le_bytes 2 (1 :: u16))
           (copy_at 0 startup_MAGIC (replicate STARTUP_BYTES 0)))))[112 := of_bool (sd_initial d)]"

definition startup_encode :: "startup_descriptor \<Rightarrow> byte list decoded" where
  "startup_encode d = rbind (startup_validate d) (\<lambda>_. Inr (startup_record d))"

section \<open>Layout\<close>

lemma update_copy_at: "i < length xs \<Longrightarrow> xs[i := v] = copy_at i [v] xs"
  by (simp add: upd_conv_take_nth_drop copy_at_def)

lemma le_bytes_flag: "le_bytes 4 (of_bool b :: u32) = [of_bool b, 0, 0, 0]"
  by (cases b) (simp_all add: le_bytes_def numeral_eq_Suc)

abbreviation startup_fields :: "nat list" where
  "startup_fields \<equiv> [8, 2, 2, 4, 8, 8, 8, 8, 8, 8, 8, 8, 8, 8, 8, 8, 4, 4, 8]"

definition startup_layout :: "startup_descriptor \<Rightarrow> byte list list" where
  "startup_layout d =
     [startup_MAGIC, le_bytes 2 (1 :: u16), le_bytes 2 (0 :: u16), le_bytes 4 PREFIX_BYTES,
      le_bytes 8 (token_bits (sd_thread d)), le_bytes 8 (sd_process_startup d), le_bytes 8 PAGE_BYTES,
      le_bytes 8 (sd_stack_bottom d), le_bytes 8 (sd_stack_top d), le_bytes 8 (sd_tls_base d), le_bytes 8 (sd_tls_bytes d),
      le_bytes 8 (sd_thread_pointer d), le_bytes 8 (sd_ipc_tx d), le_bytes 8 (sd_ipc_tx d + PAGE_BYTES),
      le_bytes 8 (sd_entry d), le_bytes 8 (sd_argument d), le_bytes 4 (of_bool (sd_initial d) :: u32), replicate 4 0,
      le_bytes 8 (sd_address d)]"

lemma length_startup_MAGIC [simp]: "length startup_MAGIC = 8"
  by (simp add: startup_MAGIC_def)

lemma length_write_fields: "(\<forall>(offset, v)\<in>set fs. offset + 8 \<le> length bytes) \<Longrightarrow> length (write_fields fs bytes) = length bytes"
  by (induction fs arbitrary: bytes) auto

lemma chunk_write_other:
  "(\<forall>(offset, v)\<in>set fs. offset + 8 \<le> length bytes) \<Longrightarrow> (\<forall>(offset, v)\<in>set fs. k + n \<le> offset \<or> offset + 8 \<le> k) \<Longrightarrow>
   chunk k n (write_fields fs bytes) = chunk k n bytes"
proof (induction fs arbitrary: bytes)
  case (Cons f fs)
  obtain offset v where f: "f = (offset, v)" by fastforce
  have "chunk k n (write_fields fs (copy_at offset (le_bytes 8 v) bytes)) = chunk k n (copy_at offset (le_bytes 8 v) bytes)"
    using Cons.prems f by (intro Cons.IH) auto
  then show ?case using Cons.prems f by (auto simp: chunk_copy_other)
qed simp

lemma chunk_write_field:
  "(\<forall>(offset, v)\<in>set fs. offset + 8 \<le> length bytes) \<Longrightarrow>
   sorted_wrt (\<lambda>(a, _) (b, _). a + 8 \<le> b) fs \<Longrightarrow> (k, v) \<in> set fs \<Longrightarrow>
   chunk k 8 (write_fields fs bytes) = le_bytes 8 v"
proof (induction fs arbitrary: bytes)
  case (Cons f fs)
  obtain offset w where f: "f = (offset, w)" by fastforce
  show ?case
  proof (cases "(k, v) \<in> set fs")
    case True
    with Cons.prems f show ?thesis by (auto intro!: Cons.IH)
  next
    case False
    then have kv: "k = offset" "v = w" using Cons.prems f by auto
    have "chunk k 8 (write_fields fs (copy_at offset (le_bytes 8 w) bytes)) = chunk k 8 (copy_at offset (le_bytes 8 w) bytes)"
      using Cons.prems f kv by (intro chunk_write_other) auto
    then show ?thesis using Cons.prems f kv by (simp add: chunk_copy_same)
  qed
qed simp

lemma startup_record_fields:
  "length (startup_record d) = 128 \<and> chunks 0 startup_fields (startup_record d) = startup_layout d"
proof -
  define fs where "fs = [(16, token_bits (sd_thread d)), (24, sd_process_startup d), (32, PAGE_BYTES), (40, sd_stack_bottom d),
        (48, sd_stack_top d), (56, sd_tls_base d), (64, sd_tls_bytes d), (72, sd_thread_pointer d), (80, sd_ipc_tx d),
        (88, sd_ipc_tx d + PAGE_BYTES), (96, sd_entry d), (104, sd_argument d), (120 :: nat, sd_address d)]"
  define H where "H = copy_at 12 (le_bytes 4 PREFIX_BYTES)
    (copy_at 8 (le_bytes 2 (1 :: u16)) (copy_at 0 startup_MAGIC (replicate 128 0)))"
  define B where "B = write_fields fs H"
  have lenH: "length H = 128" by (simp add: H_def)
  have fit: "\<forall>(offset, v)\<in>set fs. offset + 8 \<le> length H" by (simp add: fs_def lenH)
  have apart: "sorted_wrt (\<lambda>(a, _) (b, _). a + 8 \<le> b) fs" by (simp add: fs_def)
  have len: "length B = 128" using length_write_fields [OF fit] lenH by (simp add: B_def)
  have R: "startup_record d = copy_at 112 [of_bool (sd_initial d)] B"
    unfolding startup_record_def STARTUP_BYTES_def fs_def [symmetric] H_def [symmetric] B_def [symmetric]
    by (rule update_copy_at) (simp add: len)
  have other: "chunk k n (startup_record d) = chunk k n B" if "k + n \<le> 112 \<or> 113 \<le> k" for k n
    unfolding R using len that by (intro chunk_copy_other) auto
  have field: "chunk k 8 (startup_record d) = le_bytes 8 v" if "(k, v) \<in> set fs" for k v
  proof -
    have "k + 8 \<le> 112 \<or> 113 \<le> k" using that by (auto simp: fs_def)
    from other [OF this] chunk_write_field [OF fit apart that] show ?thesis by (simp add: B_def)
  qed
  have head: "chunk k n (startup_record d) = chunk k n H" if "k + n \<le> 16" for k n
  proof -
    have "chunk k n B = chunk k n H"
      unfolding B_def using that by (intro chunk_write_other [OF fit]) (simp add: fs_def)
    then show ?thesis using other [of k n] that by simp
  qed
  have gap: "chunk k n (startup_record d) = chunk k n H" if "113 \<le> k" "k + n \<le> 120" for k n
  proof -
    have "chunk k n B = chunk k n H"
      unfolding B_def using that by (intro chunk_write_other [OF fit]) (simp add: fs_def)
    then show ?thesis using other [of k n] that by simp
  qed
  have flag: "chunk 112 4 (startup_record d) = le_bytes 4 (of_bool (sd_initial d) :: u32)"
  proof -
    have "chunk 112 4 (startup_record d) = chunk 112 1 (startup_record d) @ chunk 113 3 (startup_record d)"
      using chunk_append [of 112 1 "startup_record d" 3] by simp
    also have "chunk 112 1 (startup_record d) = [of_bool (sd_initial d)]"
      unfolding R using len by (intro chunk_copy_same) simp_all
    also have "chunk 113 3 (startup_record d) = replicate 3 0" by (simp add: gap H_def wire_simps)
    also have "replicate 3 (0 :: byte) = [0, 0, 0]" by (simp add: numeral_3_eq_3)
    finally show ?thesis by (simp only: le_bytes_flag append_Cons append_Nil)
  qed
  have heads: "chunk 0 8 (startup_record d) = startup_MAGIC" "chunk 8 2 (startup_record d) = le_bytes 2 (1 :: u16)"
    "chunk 10 2 (startup_record d) = le_bytes 2 (0 :: u16)" "chunk 12 4 (startup_record d) = le_bytes 4 PREFIX_BYTES"
    "chunk 116 4 (startup_record d) = replicate 4 0"
    by (simp_all add: head gap H_def wire_simps le_bytes_zero)
  have "length (startup_record d) = 128" using len by (simp add: R)
  moreover have "chunks 0 startup_fields (startup_record d) = startup_layout d"
    unfolding startup_layout_def chunks.simps
    using heads flag field [of _ "token_bits (sd_thread d)"] field [of _ "sd_process_startup d"] field [of _ PAGE_BYTES]
      field [of _ "sd_stack_bottom d"] field [of _ "sd_stack_top d"] field [of _ "sd_tls_base d"] field [of _ "sd_tls_bytes d"]
      field [of _ "sd_thread_pointer d"] field [of _ "sd_ipc_tx d"] field [of _ "sd_ipc_tx d + PAGE_BYTES"]
      field [of _ "sd_entry d"] field [of _ "sd_argument d"] field [of _ "sd_address d"]
    by (simp add: fs_def)
  ultimately show ?thesis by blast
qed

lemma read_le_chunk: "offset + n \<le> length bytes \<Longrightarrow> read_le n bytes offset = Inr (from_le_bytes (chunk offset n bytes))"
  by (simp add: read_le_def thread_read_def)

lemma startup_fields_decode:
  assumes len: "length bytes = 128"
  shows "startup_decode bytes = Inr d \<longleftrightarrow>
    chunks 0 startup_fields bytes = startup_layout d \<and> startup_validate d = Inr ()"
proof -
  obtain maj mnr pre pg flag where h: "(from_le_bytes (chunk 8 2 bytes) :: u16) = maj"
    "(from_le_bytes (chunk 10 2 bytes) :: u16) = mnr" "(from_le_bytes (chunk 12 4 bytes) :: u32) = pre"
    "(from_le_bytes (chunk 32 8 bytes) :: u64) = pg" "(from_le_bytes (chunk 112 4 bytes) :: u32) = flag" by blast
  obtain tb ps sb st tl tn tp tx rx en ar ad where w: "(from_le_bytes (chunk 16 8 bytes) :: u64) = tb"
    "(from_le_bytes (chunk 24 8 bytes) :: u64) = ps" "(from_le_bytes (chunk 40 8 bytes) :: u64) = sb"
    "(from_le_bytes (chunk 48 8 bytes) :: u64) = st" "(from_le_bytes (chunk 56 8 bytes) :: u64) = tl"
    "(from_le_bytes (chunk 64 8 bytes) :: u64) = tn" "(from_le_bytes (chunk 72 8 bytes) :: u64) = tp"
    "(from_le_bytes (chunk 80 8 bytes) :: u64) = tx" "(from_le_bytes (chunk 88 8 bytes) :: u64) = rx"
    "(from_le_bytes (chunk 96 8 bytes) :: u64) = en" "(from_le_bytes (chunk 104 8 bytes) :: u64) = ar"
    "(from_le_bytes (chunk 120 8 bytes) :: u64) = ad" by blast
  have hc: "chunk 8 2 bytes = le_bytes 2 maj" "chunk 10 2 bytes = le_bytes 2 mnr" "chunk 12 4 bytes = le_bytes 4 pre"
    "chunk 32 8 bytes = le_bytes 8 pg" "chunk 112 4 bytes = le_bytes 4 flag"
    using len by (simp_all add: h [symmetric] le_bytes_from_le_bytes)
  have wc: "chunk 16 8 bytes = le_bytes 8 tb" "chunk 24 8 bytes = le_bytes 8 ps" "chunk 40 8 bytes = le_bytes 8 sb"
    "chunk 48 8 bytes = le_bytes 8 st" "chunk 56 8 bytes = le_bytes 8 tl" "chunk 64 8 bytes = le_bytes 8 tn"
    "chunk 72 8 bytes = le_bytes 8 tp" "chunk 80 8 bytes = le_bytes 8 tx" "chunk 88 8 bytes = le_bytes 8 rx"
    "chunk 96 8 bytes = le_bytes 8 en" "chunk 104 8 bytes = le_bytes 8 ar" "chunk 120 8 bytes = le_bytes 8 ad"
    using len by (simp_all add: w [symmetric] le_bytes_from_le_bytes)
  have first: "bytes ! 112 = ucast flag"
    using nth_chunk [of 0 4 112 bytes] len hc(5) by (simp add: nth_le_bytes)
  have initial: "\<not> 1 < flag \<and> i = (bytes ! 112 = 1) \<longleftrightarrow> flag = of_bool i" for i
  proof -
    have "flag = 0 \<or> flag = 1" if "\<not> 1 < flag" using word_le_1 [of flag] that by simp
    then show ?thesis unfolding first by (cases i) auto
  qed
  have tok: "token_of_kind tb KindThread = Inr t \<longleftrightarrow> tb = token_bits t \<and> token_of_kind (token_bits t) KindThread = Inr t" for t
    using token_of_kindD [of tb KindThread t] by (cases t) auto
  have valid_tok: "token_of_kind (token_bits (sd_thread d)) KindThread = Inr (sd_thread d)" if "startup_validate d = Inr ()"
  proof -
    from that obtain t where "token_of_kind (token_bits (sd_thread d)) KindThread = Inr t"
      by (auto simp: startup_validate_def result_simps)
    with token_of_kindD [OF this] show ?thesis by simp
  qed
  have "startup_decode bytes = Inr d \<longleftrightarrow> chunk 0 8 bytes = startup_MAGIC \<and> maj = 1 \<and> mnr = 0 \<and> pre = PREFIX_BYTES \<and>
      pg = PAGE_BYTES \<and> chunk 116 4 bytes = replicate 4 0 \<and> (\<not> 1 < flag \<and> sd_initial d = (bytes ! 112 = 1)) \<and>
      token_of_kind tb KindThread = Inr (sd_thread d) \<and> sd_process_startup d = ps \<and> sd_stack_bottom d = sb \<and>
      sd_stack_top d = st \<and> sd_tls_base d = tl \<and> sd_tls_bytes d = tn \<and> sd_thread_pointer d = tp \<and> sd_ipc_tx d = tx \<and>
      sd_entry d = en \<and> sd_argument d = ar \<and> sd_address d = ad \<and> rx = tx + PAGE_BYTES \<and> startup_validate d = Inr ()"
    using len by (cases d) (auto simp: startup_decode_def STARTUP_BYTES_def read_le_chunk h w result_simps Let_def)
  then show ?thesis
    unfolding initial tok using valid_tok
    by (auto simp: startup_layout_def hc wc le_bytes_inject)
qed

lemma startup_decode_iff_encode: "startup_decode bytes = Inr d \<longleftrightarrow> startup_encode d = Inr bytes"
proof (cases "length bytes = 128")
  case False
  then show ?thesis
    using startup_record_fields [of d] by (auto simp: startup_decode_def startup_encode_def STARTUP_BYTES_def result_simps)
next
  case True
  have "chunks 0 startup_fields bytes = startup_layout d \<longleftrightarrow> bytes = startup_record d"
    using startup_record_fields [of d] eq_by_chunks [of bytes startup_fields "startup_record d"] True by auto
  then show ?thesis
    unfolding startup_fields_decode [OF True] by (auto simp: startup_encode_def result_simps)
qed

lemma reference_decode_iff_encode: "reference_decode bytes = Inr r \<longleftrightarrow> reference_encode r = Inr bytes"
proof -
  let ?rec = "copy_at 8 (le_bytes 8 (of_nat STARTUP_BYTES :: u64)) (copy_at 0 (le_bytes 8 (sf_address r)) (replicate 16 0))"
  have rec: "length ?rec = 16" "chunks 0 [8, 8] ?rec = [le_bytes 8 (sf_address r), le_bytes 8 (of_nat STARTUP_BYTES :: u64)]"
    by (simp_all add: wire_simps)
  show ?thesis
  proof (cases "length bytes = 16")
    case False
    then show ?thesis using rec(1) by (auto simp: reference_decode_def reference_encode_def result_simps)
  next
    case True
    obtain a n where f: "(from_le_bytes (chunk 0 8 bytes) :: u64) = a" "(from_le_bytes (chunk 8 8 bytes) :: u64) = n" by blast
    have c: "chunk 0 8 bytes = le_bytes 8 a" "chunk 8 8 bytes = le_bytes 8 n"
      using True by (simp_all add: f [symmetric] le_bytes_from_le_bytes)
    have "bytes = ?rec \<longleftrightarrow> chunks 0 [8, 8] bytes = chunks 0 [8, 8] ?rec"
      using eq_by_chunks [of bytes "[8, 8]" ?rec] True rec(1) by auto
    then have "bytes = ?rec \<longleftrightarrow> a = sf_address r \<and> n = of_nat STARTUP_BYTES"
      unfolding rec(2) by (simp add: c le_bytes_inject)
    then show ?thesis
      using True by (cases r) (auto simp: reference_decode_def reference_encode_def read_le_chunk f result_simps)
  qed
qed

section \<open>Geometry\<close>

lemma word_multiple_iff: "(a :: u64) mod b = 0 \<longleftrightarrow> unat b dvd unat a"
proof -
  have "unat (a mod b) = unat a mod unat b" by (rule unat_mod)
  then show ?thesis by (simp add: dvd_eq_mod_eq_0 flip: unat_eq_0)
qed

lemma page_unat [simp]: "unat PAGE_BYTES = 4096" "unat STARTUP_MAPPING_BYTES = 4096" "unat USER_END = 2 ^ 47"
  by (simp_all add: PAGE_BYTES_def STARTUP_MAPPING_BYTES_def USER_END_def)

lemma user_range_iff:
  "user_range start bytes = Inr e \<longleftrightarrow>
   4096 \<le> unat start \<and> 4096 dvd unat start \<and> 0 < unat bytes \<and> 4096 dvd unat bytes \<and>
   unat start + unat bytes \<le> 2 ^ 47 \<and> unat e = unat start + unat bytes"
proof -
  have val: "unat (of_nat (unat start + unat bytes) :: u64) = unat start + unat bytes" if "unat start + unat bytes < 2 ^ 64"
    using that by (intro unat_of_nat_small) simp
  have small: "start < PAGE_BYTES \<longleftrightarrow> unat start < 4096" by (simp add: word_less_nat_alt)
  have zero: "bytes = 0 \<longleftrightarrow> \<not> 0 < unat bytes" by (simp add: unat_gt_0)
  have mod: "start mod PAGE_BYTES = 0 \<longleftrightarrow> 4096 dvd unat start" "bytes mod PAGE_BYTES = 0 \<longleftrightarrow> 4096 dvd unat bytes"
    by (simp_all add: word_multiple_iff)
  consider (bad) "\<not> (4096 \<le> unat start \<and> 4096 dvd unat start \<and> 0 < unat bytes \<and> 4096 dvd unat bytes)"
    | (wrap) "4096 \<le> unat start \<and> 4096 dvd unat start \<and> 0 < unat bytes \<and> 4096 dvd unat bytes" "2 ^ 64 \<le> unat start + unat bytes"
    | (fits) "4096 \<le> unat start \<and> 4096 dvd unat start \<and> 0 < unat bytes \<and> 4096 dvd unat bytes" "unat start + unat bytes < 2 ^ 64"
    by linarith
  then show ?thesis
  proof cases
    case bad
    then have "user_range start bytes = Inl EncodingError" unfolding user_range_def small zero mod by auto
    with bad show ?thesis by auto
  next
    case wrap
    then have "user_range start bytes = Inl EncodingError"
      unfolding user_range_def small zero mod by (simp add: checked_add_def)
    with wrap show ?thesis by simp
  next
    case fits
    then have "user_range start bytes = (if of_nat (unat start + unat bytes) \<le> USER_END
        then Inr (of_nat (unat start + unat bytes)) else Inl EncodingError)"
      unfolding user_range_def small zero mod by (simp add: checked_add_def)
    moreover have "(of_nat (unat start + unat bytes) :: u64) \<le> USER_END \<longleftrightarrow> unat start + unat bytes \<le> 2 ^ 47"
      unfolding word_le_nat_alt val [OF fits(2)] by simp
    moreover have "of_nat (unat start + unat bytes) = e \<longleftrightarrow> unat e = unat start + unat bytes"
      using val [OF fits(2)] by (metis unsigned_of_nat word_unat_eq_iff)
    ultimately show ?thesis using fits(1) by auto
  qed
qed

lemma word_checked_sub_iff: "word_checked_sub a b = Some c \<longleftrightarrow> unat b \<le> unat a \<and> unat c = unat a - unat b"
proof -
  have "unat (of_nat (unat a - unat b) :: u64) = unat a - unat b"
    using unsigned_less [of a, where 'a = nat] by (intro unat_of_nat_small) (simp add: less_imp_diff_less)
  then have "of_nat (unat a - unat b) = c \<longleftrightarrow> unat c = unat a - unat b" by (metis word_unat_eq_iff)
  then show ?thesis by (auto simp: word_checked_sub_def checked_simps)
qed

lemma word_checked_add_iff: "word_checked_add a b = Some c \<longleftrightarrow> unat a + unat b < 2 ^ 64 \<and> unat c = unat a + unat b"
proof (cases "unat a + unat b < 2 ^ 64")
  case True
  then have "unat (of_nat (unat a + unat b) :: u64) = unat a + unat b" by (intro unat_of_nat_small) simp
  then have "of_nat (unat a + unat b) = c \<longleftrightarrow> unat c = unat a + unat b" by (metis word_unat_eq_iff)
  with True show ?thesis by (auto simp: word_checked_add_def checked_simps)
next
  case False
  then show ?thesis by (auto simp: word_checked_add_def checked_simps)
qed

text \<open>The five mapped ranges of a thread, the stack with its two guard pages, as intervals of addresses.\<close>

definition startup_ranges :: "startup_descriptor \<Rightarrow> (nat \<times> nat) list" where
  "startup_ranges d =
     [(unat (sd_process_startup d), unat (sd_process_startup d) + 4096),
      (unat (sd_stack_bottom d) - 4096, unat (sd_stack_top d) + 4096),
      (unat (sd_tls_base d), unat (sd_tls_base d) + unat (sd_tls_bytes d)),
      (unat (sd_ipc_tx d), unat (sd_ipc_tx d) + 8192),
      (unat (sd_address d), unat (sd_address d) + 4096)]"

definition range_paged :: "nat \<times> nat \<Rightarrow> bool" where
  "range_paged r \<longleftrightarrow> 4096 \<le> fst r \<and> fst r < snd r \<and> snd r \<le> 2 ^ 47 \<and> 4096 dvd fst r \<and> 4096 dvd snd r"

definition ranges_apart :: "nat \<times> nat \<Rightarrow> nat \<times> nat \<Rightarrow> bool" where
  "ranges_apart r s \<longleftrightarrow> snd r \<le> fst s \<or> snd s \<le> fst r"

definition startup_geometry :: "startup_descriptor \<Rightarrow> bool" where
  "startup_geometry d \<longleftrightarrow>
     (\<forall>r\<in>set (startup_ranges d). range_paged r) \<and> sorted_wrt ranges_apart (startup_ranges d) \<and>
     4096 < unat (sd_stack_bottom d) \<and> unat (sd_stack_bottom d) < unat (sd_stack_top d) \<and>
     unat (sd_tls_base d) \<le> unat (sd_thread_pointer d) \<and>
     unat (sd_thread_pointer d) < unat (sd_tls_base d) + unat (sd_tls_bytes d) \<and> 8 dvd unat (sd_thread_pointer d) \<and>
     (if sd_initial d then sd_entry d = 0 \<and> sd_argument d = 0
      else 4096 \<le> unat (sd_entry d) \<and> unat (sd_entry d) < 2 ^ 47 \<and>
        (\<forall>r\<in>set (startup_ranges d). unat (sd_entry d) \<notin> {fst r..<snd r}))"

lemma ranges_ok_iff:
  "ranges_ok d earlier rest \<longleftrightarrow>
   (\<forall>r\<in>set rest. \<forall>e\<in>set earlier. \<not> (fst r < snd e \<and> fst e < snd r)) \<and>
   sorted_wrt (\<lambda>e r. \<not> (fst r < snd e \<and> fst e < snd r)) rest \<and>
   (sd_initial d \<or> (\<forall>r\<in>set rest. \<not> (fst r \<le> sd_entry d \<and> sd_entry d < snd r)))"
proof (induction rest arbitrary: earlier)
  case Nil
  then show ?case by simp
next
  case (Cons r rest)
  obtain start upper where r: "r = (start, upper)" by fastforce
  have "list_ex (\<lambda>(other_start, other_end). start < other_end \<and> other_start < upper) earlier \<longleftrightarrow>
      \<not> (\<forall>e\<in>set earlier. \<not> (start < snd e \<and> fst e < upper))"
    by (simp add: list_ex_iff split_beta)
  then have "ranges_ok d earlier (r # rest) \<longleftrightarrow> (\<forall>e\<in>set earlier. \<not> (start < snd e \<and> fst e < upper)) \<and>
      (sd_initial d \<or> \<not> (start \<le> sd_entry d \<and> sd_entry d < upper)) \<and> ranges_ok d (earlier @ [(start, upper)]) rest"
    unfolding r ranges_ok.simps by (simp only: if_bool_eq_disj) blast
  then show ?case
    unfolding Cons.IH r sorted_wrt.simps set_append list.set by (simp only: ball_Un ball_simps fst_conv snd_conv) blast
qed

abbreviation unat_range :: "u64 \<times> u64 \<Rightarrow> nat \<times> nat" where
  "unat_range r \<equiv> (unat (fst r), unat (snd r))"

lemma ranges_ok_unat:
  "ranges_ok d [] rs \<longleftrightarrow> sorted_wrt ranges_apart (map unat_range rs) \<and>
   (sd_initial d \<or> (\<forall>r\<in>set (map unat_range rs). unat (sd_entry d) \<notin> {fst r..<snd r}))"
proof -
  have "(\<lambda>e r. \<not> (fst r < snd e \<and> fst e < snd r)) = (\<lambda>e r. ranges_apart (unat_range e) (unat_range r))"
    by (auto simp: fun_eq_iff ranges_apart_def word_less_nat_alt not_less)
  then show ?thesis
    unfolding ranges_ok_iff by (auto simp: sorted_wrt_map word_less_nat_alt word_le_nat_alt)
qed

lemma rbind_user_range:
  "rbind (user_range start bytes) f = Inr y \<longleftrightarrow>
   (4096 \<le> unat start \<and> 4096 dvd unat start \<and> 0 < unat bytes \<and> 4096 dvd unat bytes \<and> unat start + unat bytes \<le> 2 ^ 47) \<and>
   f (start + bytes) = Inr y"
proof -
  have "unat e = unat start + unat bytes \<longleftrightarrow> e = start + bytes" if "unat start + unat bytes \<le> 2 ^ 47" for e
  proof -
    have "unat (start + bytes) = unat start + unat bytes" using that by (simp add: unat_add_lem [THEN iffD1])
    then show ?thesis by (metis word_unat_eq_iff)
  qed
  then show ?thesis by (auto simp: result_simps user_range_iff)
qed

lemma unat_sum: "unat a + unat b < 2 ^ 64 \<Longrightarrow> unat (a + b :: u64) = unat a + unat b"
  by (simp add: unat_add_lem [THEN iffD1])

lemma unat_difference: "unat b \<le> unat a \<Longrightarrow> unat (a - b :: u64) = unat a - unat b"
  by (simp add: unat_sub word_le_nat_alt)

lemma rbind_checked_sub:
  "rbind (ok_or e (word_checked_sub a b)) f = Inr y \<longleftrightarrow> unat b \<le> unat a \<and> f (a - b) = Inr y"
proof -
  have "unat c = unat a - unat b \<longleftrightarrow> c = a - b" if "unat b \<le> unat a" for c
    using unat_difference [OF that] by (metis word_unat_eq_iff)
  then show ?thesis by (auto simp: result_simps word_checked_sub_iff)
qed

lemma rbind_checked_add:
  "rbind (ok_or e (word_checked_add a b)) f = Inr y \<longleftrightarrow> unat a + unat b < 2 ^ 64 \<and> f (a + b) = Inr y"
proof -
  have "unat c = unat a + unat b \<longleftrightarrow> c = a + b" if "unat a + unat b < 2 ^ 64" for c
    using unat_sum [OF that] by (metis word_unat_eq_iff)
  then show ?thesis by (auto simp: result_simps word_checked_add_iff)
qed

definition range_starts :: "nat \<Rightarrow> nat \<Rightarrow> bool" where
  "range_starts s n \<longleftrightarrow> 4096 \<le> s \<and> 4096 dvd s \<and> 0 < n \<and> 4096 dvd n \<and> s + n \<le> 2 ^ 47"

lemma range_starts_paged: "range_starts s n \<longleftrightarrow> range_paged (s, s + n)"
  by (auto simp: range_starts_def range_paged_def dvd_add_right_iff)

lemma dvd_difference: "(b :: nat) \<le> a \<Longrightarrow> k dvd b \<Longrightarrow> k dvd a - b \<longleftrightarrow> k dvd a"
  by (metis dvd_diffD dvd_diff_nat)

abbreviation stack_bytes :: "startup_descriptor \<Rightarrow> u64" where
  "stack_bytes d \<equiv> sd_stack_top d - sd_stack_bottom d"

abbreviation guard_start :: "startup_descriptor \<Rightarrow> u64" where
  "guard_start d \<equiv> sd_stack_bottom d - PAGE_BYTES"

lemma startup_validate_conditions:
  "startup_validate d = Inr () \<longleftrightarrow>
     token_ok KindThread (sd_thread d) \<and> range_starts (unat (sd_process_startup d)) 4096 \<and>
     unat (sd_stack_bottom d) \<le> unat (sd_stack_top d) \<and> range_starts (unat (sd_stack_bottom d)) (unat (stack_bytes d)) \<and>
     4096 \<le> unat (sd_stack_bottom d) \<and> unat (stack_bytes d) + 8192 < 2 ^ 64 \<and>
     range_starts (unat (guard_start d)) (unat (stack_bytes d + 2 * PAGE_BYTES)) \<and>
     range_starts (unat (sd_tls_base d)) (unat (sd_tls_bytes d)) \<and> range_starts (unat (sd_ipc_tx d)) 8192 \<and>
     range_starts (unat (sd_address d)) 4096 \<and>
     \<not> (sd_thread_pointer d < sd_tls_base d \<or> sd_thread_pointer d \<ge> sd_tls_base d + sd_tls_bytes d \<or> sd_thread_pointer d mod 8 \<noteq> 0 \<or>
        (sd_initial d \<and> (sd_entry d \<noteq> 0 \<or> sd_argument d \<noteq> 0)) \<or>
        (\<not> sd_initial d \<and> \<not> (PAGE_BYTES \<le> sd_entry d \<and> sd_entry d < USER_END))) \<and>
     ranges_ok d [] [(sd_process_startup d, sd_process_startup d + PAGE_BYTES),
        (guard_start d, guard_start d + (stack_bytes d + 2 * PAGE_BYTES)), (sd_tls_base d, sd_tls_base d + sd_tls_bytes d),
        (sd_ipc_tx d, sd_ipc_tx d + 2 * PAGE_BYTES), (sd_address d, sd_address d + STARTUP_MAPPING_BYTES)]"
proof -
  have tok: "rbind (token_of_kind (token_bits t) KindThread) (\<lambda>_. m) = Inr y \<longleftrightarrow> token_ok KindThread t \<and> m = Inr y" for t and m :: "unit decoded" and y
    by (cases t) (auto simp: token_ok_def result_simps dest: token_of_kindD)
  have two: "unat (2 * PAGE_BYTES) = 8192" by (simp add: PAGE_BYTES_def)
  have last: "(if b then Inl EncodingError else if \<not> c then Inl EncodingError else Inr ()) = Inr () \<longleftrightarrow> \<not> b \<and> c" for b c by simp
  show ?thesis
    unfolding startup_validate_def tok rbind_user_range rbind_checked_sub rbind_checked_add last two page_unat range_starts_def
    by simp
qed

lemma startup_range_values:
  assumes "unat (sd_stack_bottom d) \<le> unat (sd_stack_top d)" "4096 \<le> unat (sd_stack_bottom d)" "unat (sd_stack_top d) < 2 ^ 48"
    and "\<forall>a\<in>{unat (sd_process_startup d), unat (sd_tls_base d), unat (sd_tls_bytes d), unat (sd_ipc_tx d), unat (sd_address d)}. a < 2 ^ 48"
  shows "unat (stack_bytes d) = unat (sd_stack_top d) - unat (sd_stack_bottom d)"
    and "unat (guard_start d) = unat (sd_stack_bottom d) - 4096"
    and "unat (stack_bytes d + 2 * PAGE_BYTES) = unat (sd_stack_top d) - unat (sd_stack_bottom d) + 8192"
    and "unat (sd_tls_base d + sd_tls_bytes d) = unat (sd_tls_base d) + unat (sd_tls_bytes d)"
    and "map unat_range [(sd_process_startup d, sd_process_startup d + PAGE_BYTES),
        (guard_start d, guard_start d + (stack_bytes d + 2 * PAGE_BYTES)), (sd_tls_base d, sd_tls_base d + sd_tls_bytes d),
        (sd_ipc_tx d, sd_ipc_tx d + 2 * PAGE_BYTES), (sd_address d, sd_address d + STARTUP_MAPPING_BYTES)] = startup_ranges d"
proof -
  have page: "unat PAGE_BYTES = 4096" "unat (2 * PAGE_BYTES) = 8192" "unat STARTUP_MAPPING_BYTES = 4096"
    by (simp_all add: PAGE_BYTES_def STARTUP_MAPPING_BYTES_def)
  show bytes: "unat (stack_bytes d) = unat (sd_stack_top d) - unat (sd_stack_bottom d)"
    using assms by (simp add: unat_difference)
  show guard: "unat (guard_start d) = unat (sd_stack_bottom d) - 4096"
    using assms by (simp add: unat_difference page)
  show guards: "unat (stack_bytes d + 2 * PAGE_BYTES) = unat (sd_stack_top d) - unat (sd_stack_bottom d) + 8192"
    using assms bytes page by (subst unat_sum) auto
  show tls: "unat (sd_tls_base d + sd_tls_bytes d) = unat (sd_tls_base d) + unat (sd_tls_bytes d)"
    using assms(4) by (intro unat_sum) simp
  have "unat (guard_start d + (stack_bytes d + 2 * PAGE_BYTES)) = unat (sd_stack_top d) + 4096"
    using assms(1-3) guard guards by (subst unat_sum) auto
  moreover have "unat (sd_process_startup d + PAGE_BYTES) = unat (sd_process_startup d) + 4096"
    "unat (sd_ipc_tx d + 2 * PAGE_BYTES) = unat (sd_ipc_tx d) + 8192" "unat (sd_address d + STARTUP_MAPPING_BYTES) = unat (sd_address d) + 4096"
    using assms(4) by (simp_all add: unat_sum page)
  ultimately show "map unat_range [(sd_process_startup d, sd_process_startup d + PAGE_BYTES),
        (guard_start d, guard_start d + (stack_bytes d + 2 * PAGE_BYTES)), (sd_tls_base d, sd_tls_base d + sd_tls_bytes d),
        (sd_ipc_tx d, sd_ipc_tx d + 2 * PAGE_BYTES), (sd_address d, sd_address d + STARTUP_MAPPING_BYTES)] = startup_ranges d"
    using guard tls by (simp add: startup_ranges_def)
qed

lemma guarded_stack:
  assumes "(b :: nat) \<le> t" "4096 \<le> b"
  shows "range_starts b (t - b) \<and> range_starts (b - 4096) (t - b + 8192) \<longleftrightarrow> 4096 < b \<and> b < t \<and> range_paged (b - 4096, t + 4096)"
proof -
  have "range_starts (b - 4096) (t - b + 8192) \<longleftrightarrow> range_paged (b - 4096, t + 4096)"
    using assms by (simp add: range_starts_paged add.commute)
  moreover have "range_starts b (t - b)" if "range_paged (b - 4096, t + 4096)" "b < t"
    using that assms by (auto simp: range_starts_def range_paged_def dvd_difference dvd_add_left_iff)
  moreover have "4096 < b" "b < t" if "range_starts b (t - b)" "range_paged (b - 4096, t + 4096)"
    using that by (auto simp: range_starts_def range_paged_def)
  ultimately show ?thesis by blast
qed

lemma startup_validate_geometry:
  "startup_validate d = Inr () \<longleftrightarrow> token_ok KindThread (sd_thread d) \<and> startup_geometry d"
proof -
  let ?small = "unat (sd_stack_bottom d) \<le> unat (sd_stack_top d) \<and> 4096 \<le> unat (sd_stack_bottom d) \<and> unat (sd_stack_top d) < 2 ^ 48 \<and>
    (\<forall>a\<in>{unat (sd_process_startup d), unat (sd_tls_base d), unat (sd_tls_bytes d), unat (sd_ipc_tx d), unat (sd_address d)}. a < 2 ^ 48)"
  have 1: ?small if "startup_validate d = Inr ()"
  proof -
    have "unat (stack_bytes d) = unat (sd_stack_top d) - unat (sd_stack_bottom d)"
      using that unfolding startup_validate_conditions by (simp add: unat_difference)
    then show ?thesis using that unfolding startup_validate_conditions range_starts_def by auto
  qed
  have 2: ?small if "startup_geometry d"
    using that by (auto simp: startup_geometry_def startup_ranges_def range_paged_def)
  have 3: "startup_validate d = Inr () \<longleftrightarrow> token_ok KindThread (sd_thread d) \<and> startup_geometry d" if small: ?small
  proof -
    note nat_values = startup_range_values [OF small [THEN conjunct1] small [THEN conjunct2, THEN conjunct1]
        small [THEN conjunct2, THEN conjunct2, THEN conjunct1] small [THEN conjunct2, THEN conjunct2, THEN conjunct2]]
    have mod: "sd_thread_pointer d mod 8 \<noteq> 0 \<longleftrightarrow> \<not> 8 dvd unat (sd_thread_pointer d)"
      by (simp add: word_unat_eq_iff unat_mod dvd_eq_mod_eq_0)
    have entry: "PAGE_BYTES \<le> sd_entry d \<and> sd_entry d < USER_END \<longleftrightarrow> 4096 \<le> unat (sd_entry d) \<and> unat (sd_entry d) < 2 ^ 47"
      by (simp add: word_le_nat_alt word_less_nat_alt PAGE_BYTES_def USER_END_def)
    have fits: "unat (sd_stack_top d) - unat (sd_stack_bottom d) + 8192 < 2 ^ 64" using small by auto
    have ranges: "(\<forall>r\<in>set (startup_ranges d). range_paged r) \<longleftrightarrow>
        range_starts (unat (sd_process_startup d)) 4096 \<and> range_paged (unat (sd_stack_bottom d) - 4096, unat (sd_stack_top d) + 4096) \<and>
        range_starts (unat (sd_tls_base d)) (unat (sd_tls_bytes d)) \<and> range_starts (unat (sd_ipc_tx d)) 8192 \<and> range_starts (unat (sd_address d)) 4096"
      by (simp add: startup_ranges_def range_starts_paged)
    show ?thesis
      unfolding startup_validate_conditions ranges_ok_unat nat_values startup_geometry_def ranges entry mod word_less_nat_alt word_le_nat_alt
      using guarded_stack [OF small [THEN conjunct1] small [THEN conjunct2, THEN conjunct1]] small fits
      by (auto simp: not_less not_le)
  qed
  show ?thesis using 1 2 3 by blast
qed

lemma startup_page_iff:
  "startup_decode_page page = Inr d \<longleftrightarrow> (\<exists>bytes. startup_encode d = Inr bytes \<and> page = bytes @ replicate (4096 - 128) 0)"
proof -
  have len: "length bytes = 128" if "startup_encode d = Inr bytes" for bytes
    using that startup_record_fields [of d] by (auto simp: startup_encode_def result_simps)
  have slack: "list_ex (\<lambda>byte. byte \<noteq> 0) xs \<longleftrightarrow> xs \<noteq> replicate (length xs) 0" for xs :: "byte list"
    by (induction xs) auto
  have decode: "startup_decode_page page = Inr d \<longleftrightarrow> length page = 4096 \<and> drop 128 page = replicate (length page - 128) 0 \<and> startup_encode d = Inr (take 128 page)"
    unfolding startup_decode_page_def slack startup_decode_iff_encode [symmetric] by (simp add: STARTUP_BYTES_def STARTUP_MAPPING_BYTES_def PAGE_BYTES_def) auto
  show ?thesis
  proof
    assume "startup_decode_page page = Inr d"
    then show "\<exists>bytes. startup_encode d = Inr bytes \<and> page = bytes @ replicate (4096 - 128) 0"
      unfolding decode by (metis append_take_drop_id)
  next
    assume "\<exists>bytes. startup_encode d = Inr bytes \<and> page = bytes @ replicate (4096 - 128) 0"
    then show "startup_decode_page page = Inr d" unfolding decode using len by auto
  qed
qed

section \<open>The startup contract\<close>

text \<open>C29. A thread startup descriptor has one byte form: a 128-byte record decodes to a descriptor exactly when encoding
  that descriptor gives the record, and a startup page decodes exactly when it is that record followed by zeros.  A
  descriptor is encodable exactly when its thread token is a valid thread token and its geometry is sound over the
  unbounded integers: the process page, the stack with both of its guard pages, the thread-local block, the two message
  pages and the descriptor page are page-aligned, lie within the user address range and do not overlap, the thread pointer
  is an aligned address of the thread-local block, and the entry of a worker lies in none of those ranges while the initial
  thread has no entry and no argument.  The same holds of the reference to the page that a parent passes on.\<close>
theorem thread_startup_exact:
  "(startup_decode bytes = Inr d \<longleftrightarrow> startup_encode d = Inr bytes) \<and>
   (startup_decode_page page = Inr d \<longleftrightarrow> (\<exists>bytes. startup_encode d = Inr bytes \<and> page = bytes @ replicate (4096 - 128) 0)) \<and>
   ((\<exists>bytes. startup_encode d = Inr bytes) \<longleftrightarrow> token_ok KindThread (sd_thread d) \<and> startup_geometry d) \<and>
   (reference_decode short = Inr r \<longleftrightarrow> reference_encode r = Inr short)"
proof -
  have "(\<exists>bytes. startup_encode d = Inr bytes) \<longleftrightarrow> startup_validate d = Inr ()"
    by (auto simp: startup_encode_def result_simps)
  then show ?thesis
    using startup_decode_iff_encode startup_page_iff reference_decode_iff_encode startup_validate_geometry by simp
qed

end
