(* ===== verification/Call_Chain.thy ===== *)
theory Call_Chain
  imports Prelude
begin

text \<open>
  Synchronous call chains (\<open>troe-task/src/chain.rs\<close>): the bounded table of who donated to
  whom, with admission, unwinding and abandonment. The table refines a waiting relation
  between tasks: a caller waits on the callee it donated to. The lemmas show that the
  relation stays a set of disjoint simple paths, so that no task ever waits on itself.
\<close>

section \<open>State\<close>

type_synonym task_id = nat

definition MAX_CALL_CHAIN_MEMBERS :: nat where "MAX_CALL_CHAIN_MEMBERS = 4"

definition MAX_CALL_CHAINS :: nat where "MAX_CALL_CHAINS = 16"

datatype call_chain_error = ChainDeadlock | ChainExhausted | ChainBusy | ChainNotActive

record chain =
  ch_members :: "task_id list"
  ch_len :: nat

definition chain_members :: "chain \<Rightarrow> task_id list" where
  "chain_members c = take (ch_len c) (ch_members c)"

record call_chain_stats =
  cs_live :: nat
  cs_deepest :: nat
  cs_entries :: nat
  cs_deadlocks :: nat
  cs_exhaustions :: nat

record call_chain_table =
  cc_chains :: "chain option list"
  cc_stats :: call_chain_stats

definition call_chains_new :: "bool \<Rightarrow> nat \<Rightarrow> (call_chain_error, call_chain_table) result" where
  "call_chains_new reserved capacity =
     (if capacity = 0 \<or> capacity > MAX_CALL_CHAINS then Inl ChainExhausted
      else if \<not> reserved then Inl ChainExhausted
      else Inr \<lparr>cc_chains = replicate capacity None,
             cc_stats = \<lparr>cs_live = 0, cs_deepest = 0, cs_entries = 0, cs_deadlocks = 0, cs_exhaustions = 0\<rparr>\<rparr>)"

section \<open>Lookups\<close>

definition chain_of :: "call_chain_table \<Rightarrow> task_id \<Rightarrow> nat option" where
  "chain_of t task =
     (if cs_live (cc_stats t) = 0 then None
      else position (\<lambda>slot. case slot of Some chain \<Rightarrow> task \<in> set (chain_members chain) | None \<Rightarrow> False) (cc_chains t))"

definition chain_at :: "call_chain_table \<Rightarrow> nat \<Rightarrow> chain option" where
  "chain_at t index = (if index < length (cc_chains t) then cc_chains t ! index else None)"

definition last_member :: "chain \<Rightarrow> task_id option" where
  "last_member c = (if chain_members c = [] then None else Some (last (chain_members c)))"

definition chain_active :: "call_chain_table \<Rightarrow> task_id \<Rightarrow> task_id option" where
  "chain_active t member = Option.bind (Option.bind (chain_of t member) (chain_at t)) last_member"

definition chain_members_of :: "call_chain_table \<Rightarrow> task_id \<Rightarrow> task_id list option" where
  "chain_members_of t member = map_option chain_members (Option.bind (chain_of t member) (chain_at t))"

definition chain_depth :: "call_chain_table \<Rightarrow> task_id \<Rightarrow> nat" where
  "chain_depth t member = (case chain_members_of t member of None \<Rightarrow> 0 | Some members \<Rightarrow> length members)"

definition chain_is_engaged :: "call_chain_table \<Rightarrow> task_id \<Rightarrow> bool" where
  "chain_is_engaged t member = (chain_of t member \<noteq> None)"

section \<open>Admission\<close>

definition count_deadlock :: "call_chain_table \<Rightarrow> call_chain_table" where
  "count_deadlock t = t\<lparr>cc_stats := (cc_stats t)\<lparr>cs_deadlocks := saturating_add 64 (cs_deadlocks (cc_stats t)) 1\<rparr>\<rparr>"

definition count_exhaustion :: "call_chain_table \<Rightarrow> call_chain_table" where
  "count_exhaustion t =
     t\<lparr>cc_stats := (cc_stats t)\<lparr>cs_exhaustions := saturating_add 64 (cs_exhaustions (cc_stats t)) 1\<rparr>\<rparr>"

definition record_entry :: "nat \<Rightarrow> call_chain_table \<Rightarrow> call_chain_table" where
  "record_entry depth t =
     (let depth = (case try_into 32 depth of Some d \<Rightarrow> d | None \<Rightarrow> 2 ^ 32 - 1) in
      t\<lparr>cc_stats := (cc_stats t)\<lparr>cs_entries := saturating_add 64 (cs_entries (cc_stats t)) 1,
          cs_deepest := max (cs_deepest (cc_stats t)) depth\<rparr>\<rparr>)"

definition chain_extend ::
    "nat \<Rightarrow> task_id \<Rightarrow> task_id \<Rightarrow> call_chain_table \<Rightarrow> (call_chain_error, nat) result \<times> call_chain_table" where
  "chain_extend index caller target t =
     (case chain_at t index of
        None \<Rightarrow> (Inl ChainNotActive, t)
      | Some chain \<Rightarrow>
          if last_member chain \<noteq> Some caller then (Inl ChainBusy, t)
          else if ch_len chain \<ge> MAX_CALL_CHAIN_MEMBERS then (Inl ChainExhausted, count_exhaustion t)
          else
            let depth = ch_len chain + 1;
                chain' = chain\<lparr>ch_members := (ch_members chain)[ch_len chain := target], ch_len := depth\<rparr>
            in (Inr depth, record_entry depth (t\<lparr>cc_chains := (cc_chains t)[index := Some chain']\<rparr>)))"

definition chain_begin ::
    "task_id \<Rightarrow> task_id \<Rightarrow> call_chain_table \<Rightarrow> (call_chain_error, nat) result \<times> call_chain_table" where
  "chain_begin caller target t =
     (case position (\<lambda>slot. slot = None) (cc_chains t) of
        None \<Rightarrow> (Inl ChainExhausted, count_exhaustion t)
      | Some index \<Rightarrow>
          let members = (replicate MAX_CALL_CHAIN_MEMBERS caller)[1 := target];
              depth = 2;
              t' = t\<lparr>cc_chains := (cc_chains t)[index := Some \<lparr>ch_members = members, ch_len = depth\<rparr>],
                     cc_stats := (cc_stats t)\<lparr>cs_live := saturating_add 32 (cs_live (cc_stats t)) 1\<rparr>\<rparr>
          in (Inr depth, record_entry depth t'))"

definition chain_enter ::
    "task_id \<Rightarrow> task_id \<Rightarrow> call_chain_table \<Rightarrow> (call_chain_error, nat) result \<times> call_chain_table" where
  "chain_enter caller target t =
     (if caller = target then (Inl ChainDeadlock, count_deadlock t)
      else
        let caller_chain = chain_of t caller in
        case chain_of t target of
          Some target_chain \<Rightarrow>
            if Some target_chain = caller_chain then (Inl ChainDeadlock, count_deadlock t) else (Inl ChainBusy, t)
        | None \<Rightarrow>
            (case caller_chain of
               Some index \<Rightarrow> chain_extend index caller target t
             | None \<Rightarrow> chain_begin caller target t))"

section \<open>Completion\<close>

definition release_chain :: "nat \<Rightarrow> call_chain_table \<Rightarrow> call_chain_table" where
  "release_chain index t =
     t\<lparr>cc_chains := (cc_chains t)[index := None], cc_stats := (cc_stats t)\<lparr>cs_live := cs_live (cc_stats t) - 1\<rparr>\<rparr>"

definition chain_unwind ::
    "task_id \<Rightarrow> call_chain_table \<Rightarrow> (call_chain_error, task_id option) result \<times> call_chain_table" where
  "chain_unwind member t =
     (case chain_of t member of
        None \<Rightarrow> (Inl ChainNotActive, t)
      | Some index \<Rightarrow>
          (case chain_at t index of
             None \<Rightarrow> (Inl ChainNotActive, t)
           | Some chain \<Rightarrow>
               if last_member chain \<noteq> Some member then (Inl ChainNotActive, t)
               else
                 let chain' = chain\<lparr>ch_len := ch_len chain - 1\<rparr>;
                     t' = t\<lparr>cc_chains := (cc_chains t)[index := Some chain']\<rparr>
                 in (Inr (last_member chain'), if ch_len chain' \<le> 1 then release_chain index t' else t')))"

definition chain_detach :: "task_id \<Rightarrow> call_chain_table \<Rightarrow> (call_chain_error, unit) result \<times> call_chain_table" where
  "chain_detach member t =
     (case chain_of t member of
        None \<Rightarrow> (Inl ChainNotActive, t)
      | Some index \<Rightarrow> (Inr (), release_chain index t))"

definition chain_abandon ::
    "bool \<Rightarrow> task_id \<Rightarrow> call_chain_table \<Rightarrow> (call_chain_error, task_id list) result \<times> call_chain_table" where
  "chain_abandon reserved member t =
     (case chain_of t member of
        None \<Rightarrow> (Inl ChainNotActive, t)
      | Some index \<Rightarrow>
          (case chain_at t index of
             None \<Rightarrow> (Inl ChainNotActive, t)
           | Some chain \<Rightarrow>
               if \<not> reserved then (Inl ChainExhausted, t)
               else
                 (case chain_detach member t of
                    (Inl e, t') \<Rightarrow> (Inl e, t')
                  | (Inr _, t') \<Rightarrow> (Inr (chain_members chain), t'))))"

inductive call_chain_step :: "call_chain_table \<Rightarrow> call_chain_table \<Rightarrow> bool" where
  "call_chain_step t (snd (chain_enter caller target t))"
| "call_chain_step t (snd (chain_unwind member t))"
| "call_chain_step t (snd (chain_detach member t))"
| "call_chain_step t (snd (chain_abandon reserved member t))"

section \<open>Disjoint paths\<close>

text \<open>The waiting relation of a family of member lists: each member waits on the next one of its list.\<close>

definition waits :: "task_id list list \<Rightarrow> (task_id \<times> task_id) set" where
  "waits xss = {(xs ! i, xs ! Suc i) | xs i. xs \<in> set xss \<and> Suc i < length xs}"

definition precedes :: "task_id list list \<Rightarrow> task_id \<Rightarrow> task_id \<Rightarrow> bool" where
  "precedes xss a b \<longleftrightarrow> (\<exists>xs\<in>set xss. \<exists>i j. i < j \<and> j < length xs \<and> xs ! i = a \<and> xs ! j = b)"

lemma distinct_concat_memberD:
  assumes "distinct (concat xss)" "xs \<in> set xss" "ys \<in> set xss" "a \<in> set xs" "a \<in> set ys"
  shows "xs = ys"
proof (rule ccontr)
  assume "xs \<noteq> ys"
  then have "set xs \<inter> set ys = {}" using assms(1-3) by (auto simp: distinct_concat_iff)
  with assms(4,5) show False by blast
qed

lemma distinct_concat_indexD:
  assumes "distinct (concat xss)" "i < length xss" "j < length xss" "a \<in> set (xss ! i)" "a \<in> set (xss ! j)"
  shows "i = j"
  using assms
proof (induction xss arbitrary: i j)
  case Nil
  then show ?case by simp
next
  case (Cons ys xss)
  have "set ys \<inter> set (xss ! k) = {}" if "k < length xss" for k
    using Cons.prems(1) that by (auto dest!: nth_mem)
  then show ?case
    using Cons by (cases i; cases j) auto
qed

lemma precedes_trans:
  assumes "distinct (concat xss)" "precedes xss a b" "precedes xss b c"
  shows "precedes xss a c"
proof -
  obtain xs i j where x: "xs \<in> set xss" "i < j" "j < length xs" "xs ! i = a" "xs ! j = b" using assms(2) by (auto simp: precedes_def)
  obtain ys k l where y: "ys \<in> set xss" "k < l" "l < length ys" "ys ! k = b" "ys ! l = c" using assms(3) by (auto simp: precedes_def)
  have same: "xs = ys" using distinct_concat_memberD [OF assms(1) x(1) y(1), of b] x y by (metis nth_mem order.strict_trans)
  have "distinct xs" using assms(1) x(1) by (auto simp: distinct_concat_iff)
  then have "j = k" using x y same nth_eq_iff_index_eq [of xs j k] by simp
  then show ?thesis unfolding precedes_def using x y same by (intro bexI [of _ ys] exI [of _ i] exI [of _ l]) auto
qed

lemma waits_precedes: "(a, b) \<in> waits xss \<Longrightarrow> precedes xss a b"
  unfolding waits_def precedes_def by blast

lemma trancl_waits:
  assumes "distinct (concat xss)"
  shows "(a, b) \<in> (waits xss)\<^sup>+ \<longleftrightarrow> precedes xss a b"
proof
  show "(a, b) \<in> (waits xss)\<^sup>+ \<Longrightarrow> precedes xss a b"
    by (induction rule: trancl_induct) (auto intro: waits_precedes precedes_trans [OF assms])
next
  assume "precedes xss a b"
  then obtain xs i j where x: "xs \<in> set xss" "i < j" "j < length xs" "xs ! i = a" "xs ! j = b" by (auto simp: precedes_def)
  have "(xs ! i, xs ! (i + Suc d)) \<in> (waits xss)\<^sup>+" if "i + Suc d < length xs" for d
    using that
  proof (induction d)
    case 0
    then show ?case using x(1) by (auto simp: waits_def intro!: r_into_trancl)
  next
    case (Suc d)
    then have "(xs ! (i + Suc d), xs ! Suc (i + Suc d)) \<in> waits xss" using x(1) by (auto simp: waits_def)
    with Suc show ?case by (auto intro: trancl_into_trancl)
  qed
  moreover obtain d where "j = i + Suc d" using x(2) less_imp_Suc_add by auto
  ultimately show "(a, b) \<in> (waits xss)\<^sup>+" using x by auto
qed

lemma waits_facts:
  assumes "distinct (concat xss)"
  shows "acyclic (waits xss)" "single_valued (waits xss)" "single_valued ((waits xss)\<inverse>)"
proof -
  have idx: "i = j" if "xs \<in> set xss" "ys \<in> set xss" "i < length xs" "j < length ys" "xs ! i = ys ! j" for xs ys i j
  proof -
    have "xs = ys" by (metis distinct_concat_memberD [OF assms that(1,2)] nth_mem that(3,4,5))
    moreover have "distinct xs" using assms that(1) by (auto simp: distinct_concat_iff)
    ultimately show ?thesis using that by (simp add: nth_eq_iff_index_eq)
  qed
  have same: "xs = ys" if "xs \<in> set xss" "ys \<in> set xss" "i < length xs" "j < length ys" "xs ! i = ys ! j" for xs ys i j
    by (metis distinct_concat_memberD [OF assms that(1,2)] nth_mem that(3,4,5))
  have "\<not> precedes xss a a" for a
    unfolding precedes_def using idx by (metis less_irrefl order.strict_trans)
  then show "acyclic (waits xss)" by (simp add: acyclic_def trancl_waits [OF assms])
  show "single_valued (waits xss)"
  proof (rule single_valuedI)
    fix a b c assume "(a, b) \<in> waits xss" "(a, c) \<in> waits xss"
    then obtain xs i ys j where x: "xs \<in> set xss" "Suc i < length xs" "a = xs ! i" "b = xs ! Suc i"
      and y: "ys \<in> set xss" "Suc j < length ys" "a = ys ! j" "c = ys ! Suc j" unfolding waits_def by blast
    then show "b = c" using idx [of xs ys i j] same [of xs ys i j] by simp
  qed
  show "single_valued ((waits xss)\<inverse>)"
  proof (rule single_valuedI)
    fix a b c assume "(a, b) \<in> (waits xss)\<inverse>" "(a, c) \<in> (waits xss)\<inverse>"
    then obtain xs i ys j where x: "xs \<in> set xss" "Suc i < length xs" "a = xs ! Suc i" "b = xs ! i"
      and y: "ys \<in> set xss" "Suc j < length ys" "a = ys ! Suc j" "c = ys ! j" unfolding waits_def by blast
    then show "b = c" using idx [of xs ys "Suc i" "Suc j"] same [of xs ys "Suc i" "Suc j"] by simp
  qed
qed

lemma concat_update:
  assumes "i < length xss"
  shows "mset (concat (xss[i := ys])) + mset (xss ! i) = mset (concat xss) + mset ys"
proof -
  have "concat xss = concat (take i xss) @ xss ! i @ concat (drop (Suc i) xss)"
    by (subst id_take_nth_drop [OF assms]) simp
  moreover have "concat (xss[i := ys]) = concat (take i xss) @ ys @ concat (drop (Suc i) xss)"
    using assms by (simp add: upd_conv_take_nth_drop)
  ultimately show ?thesis by simp
qed

lemma waits_update:
  assumes "i < length xss"
  shows "waits (xss[i := ys]) = waits (take i xss @ drop (Suc i) xss) \<union> waits [ys]"
    and "waits xss = waits (take i xss @ drop (Suc i) xss) \<union> waits [xss ! i]"
proof -
  have union: "waits (as @ ys # bs) = waits (as @ bs) \<union> waits [ys]" for as bs ys
    unfolding waits_def by auto
  show "waits (xss[i := ys]) = waits (take i xss @ drop (Suc i) xss) \<union> waits [ys]"
    using assms by (simp add: upd_conv_take_nth_drop union)
  show "waits xss = waits (take i xss @ drop (Suc i) xss) \<union> waits [xss ! i]"
    by (subst id_take_nth_drop [OF assms]) (simp add: union)
qed

lemma waits_rest_apart:
  assumes "distinct (concat xss)" "i < length xss" "(a, b) \<in> waits (take i xss @ drop (Suc i) xss)"
  shows "a \<notin> set (xss ! i)" "b \<notin> set (xss ! i)"
proof -
  obtain xs k where xs: "xs \<in> set (take i xss @ drop (Suc i) xss)" "Suc k < length xs" "a = xs ! k" "b = xs ! Suc k"
    using assms(3) unfolding waits_def by blast
  have "concat xss = concat (take i xss) @ xss ! i @ concat (drop (Suc i) xss)"
    by (subst id_take_nth_drop [OF assms(2)]) simp
  then have "set xs \<inter> set (xss ! i) = {}" using assms(1) xs(1) by auto
  moreover have "a \<in> set xs" "b \<in> set xs" using xs(2-4) by simp_all
  ultimately show "a \<notin> set (xss ! i)" "b \<notin> set (xss ! i)" by blast+
qed

lemma waits_zip: "waits xss = (\<Union>xs\<in>set xss. set (zip xs (tl xs)))"
proof -
  have "(a, b) \<in> set (zip xs (tl xs)) \<longleftrightarrow> (\<exists>i. Suc i < length xs \<and> a = xs ! i \<and> b = xs ! Suc i)" for a b and xs :: "task_id list"
    by (auto simp: set_zip nth_tl less_diff_conv)
  then show ?thesis unfolding waits_def by (intro set_eqI) (auto simp only: UN_iff mem_Collect_eq split: prod.splits; blast)
qed

lemma waits_path: "waits [xs] = set (zip xs (tl xs))"
  by (simp add: waits_zip)

lemma waits_snoc: "xs \<noteq> [] \<Longrightarrow> waits [xs @ [x]] = insert (last xs, x) (waits [xs])"
  unfolding waits_path
proof (induction xs)
  case Nil
  then show ?case by simp
next
  case (Cons y xs)
  then show ?case by (cases xs) auto
qed

section \<open>Invariant\<close>

definition slot_members :: "chain option \<Rightarrow> task_id list" where
  "slot_members slot = (case slot of None \<Rightarrow> [] | Some chain \<Rightarrow> chain_members chain)"

definition member_lists :: "call_chain_table \<Rightarrow> task_id list list" where
  "member_lists t = map slot_members (cc_chains t)"

definition waits_on :: "call_chain_table \<Rightarrow> (task_id \<times> task_id) set" where
  "waits_on t = waits (member_lists t)"

definition chain_ok :: "chain option \<Rightarrow> bool" where
  "chain_ok slot = (case slot of None \<Rightarrow> True
     | Some chain \<Rightarrow> length (ch_members chain) = MAX_CALL_CHAIN_MEMBERS \<and> 2 \<le> ch_len chain \<and> ch_len chain \<le> MAX_CALL_CHAIN_MEMBERS)"

definition chains_ok :: "call_chain_table \<Rightarrow> bool" where
  "chains_ok t \<longleftrightarrow> length (cc_chains t) \<le> MAX_CALL_CHAINS \<and> (\<forall>slot\<in>set (cc_chains t). chain_ok slot) \<and>
     distinct (concat (member_lists t)) \<and> cs_live (cc_stats t) = count_if (\<lambda>slot. slot \<noteq> None) (cc_chains t)"

lemma slot_members_simps [simp]: "slot_members None = []" "slot_members (Some c) = chain_members c"
  by (simp_all add: slot_members_def)

lemma length_member_lists [simp]: "length (member_lists t) = length (cc_chains t)"
  by (simp add: member_lists_def)

lemma member_lists_nth: "i < length (cc_chains t) \<Longrightarrow> member_lists t ! i = slot_members (cc_chains t ! i)"
  by (simp add: member_lists_def)

lemma member_lists_update: "member_lists (t\<lparr>cc_chains := (cc_chains t)[i := slot]\<rparr>) = (member_lists t)[i := slot_members slot]"
  by (simp add: member_lists_def map_update)

lemma chain_of_Some:
  assumes "chains_ok t"
  shows "chain_of t m = Some i \<longleftrightarrow> i < length (cc_chains t) \<and> m \<in> set (member_lists t ! i)"
proof -
  let ?P = "\<lambda>slot. case slot of Some chain \<Rightarrow> m \<in> set (chain_members chain) | None \<Rightarrow> False"
  have P: "?P slot \<longleftrightarrow> m \<in> set (slot_members slot)" for slot by (cases slot) auto
  have "position ?P (cc_chains t) = Some i \<longleftrightarrow> i < length (cc_chains t) \<and> m \<in> set (member_lists t ! i)"
  proof
    assume "position ?P (cc_chains t) = Some i"
    then show "i < length (cc_chains t) \<and> m \<in> set (member_lists t ! i)"
      using position_SomeD [of ?P "cc_chains t" i] by (auto simp: P member_lists_nth)
  next
    assume i: "i < length (cc_chains t) \<and> m \<in> set (member_lists t ! i)"
    then have "?P (cc_chains t ! i)" using member_lists_nth [of i t] by (simp add: P)
    then obtain j where j: "position ?P (cc_chains t) = Some j"
      using i position_None_iff [of ?P "cc_chains t"] nth_mem by blast
    then have "j < length (cc_chains t)" "m \<in> set (member_lists t ! j)"
      using position_SomeD [OF j] by (auto simp: P member_lists_nth)
    then have "j = i" using i assms distinct_concat_indexD [of "member_lists t" j i m] by (simp add: chains_ok_def)
    with j show "position ?P (cc_chains t) = Some i" by simp
  qed
  moreover have "m \<notin> set (member_lists t ! i)" if "cs_live (cc_stats t) = 0" "i < length (cc_chains t)"
  proof -
    have "\<forall>slot\<in>set (cc_chains t). slot = None" using that assms count_if_pos_iff [of "\<lambda>slot. slot \<noteq> None" "cc_chains t"] by (auto simp: chains_ok_def)
    then have "cc_chains t ! i = None" using that nth_mem by blast
    then show ?thesis using that by (simp add: member_lists_nth)
  qed
  ultimately show ?thesis by (auto simp: chain_of_def)
qed

lemma chain_of_None:
  assumes "chains_ok t"
  shows "chain_of t m = None \<longleftrightarrow> m \<notin> set (concat (member_lists t))"
proof -
  have "(\<exists>i. chain_of t m = Some i) \<longleftrightarrow> m \<in> set (concat (member_lists t))"
    unfolding chain_of_Some [OF assms] length_member_lists [symmetric] by (metis UN_iff set_concat in_set_conv_nth)
  then show ?thesis by (metis option.exhaust option.distinct(1))
qed

lemma found_chain:
  assumes "chains_ok t" "chain_of t m = Some i"
  obtains c where "chain_at t i = Some c" "cc_chains t ! i = Some c" "i < length (cc_chains t)" "member_lists t ! i = chain_members c"
    "m \<in> set (chain_members c)" "length (ch_members c) = 4" "2 \<le> ch_len c" "ch_len c \<le> 4" "length (chain_members c) = ch_len c" "distinct (chain_members c)"
proof -
  have i: "i < length (cc_chains t)" "m \<in> set (slot_members (cc_chains t ! i))"
    using assms chain_of_Some by (auto simp: member_lists_nth)
  then obtain c where c: "cc_chains t ! i = Some c" by (cases "cc_chains t ! i") auto
  have "chain_ok (Some c)" using assms(1) i(1) c nth_mem [of i "cc_chains t"] by (simp add: chains_ok_def)
  moreover have "distinct (member_lists t ! i)" using assms(1) i(1) by (auto simp: chains_ok_def distinct_concat_iff)
  ultimately show thesis
    using that [of c] c i by (simp add: chain_at_def member_lists_nth chain_ok_def MAX_CALL_CHAIN_MEMBERS_def chain_members_def)
qed

lemma in_path: "2 \<le> length xs \<Longrightarrow> distinct xs \<Longrightarrow> m \<in> set xs \<Longrightarrow> (m \<in> Domain (waits [xs]) \<longleftrightarrow> m \<noteq> last xs) \<and> m \<in> Field (waits [xs])"
proof -
  assume xs: "2 \<le> length xs" "distinct xs" "m \<in> set xs"
  obtain k where k: "k < length xs" "m = xs ! k" using xs(3) by (auto simp: in_set_conv_nth)
  have last: "last xs = xs ! (length xs - 1)" using xs(1) by (cases xs rule: rev_cases) auto
  have dom: "(xs ! i, xs ! Suc i) \<in> waits [xs]" if "Suc i < length xs" for i using that by (auto simp: waits_def)
  have "m \<in> Domain (waits [xs]) \<longleftrightarrow> Suc k < length xs"
  proof
    assume "m \<in> Domain (waits [xs])"
    then obtain i where "Suc i < length xs" "m = xs ! i" by (auto simp: waits_def)
    then show "Suc k < length xs" using k xs(2) nth_eq_iff_index_eq [of xs i k] by simp
  qed (use dom k in auto)
  moreover have "m = last xs \<longleftrightarrow> k = length xs - 1" using k last xs(1,2) by (simp add: nth_eq_iff_index_eq)
  moreover have "m \<in> Field (waits [xs])"
  proof (cases "Suc k < length xs")
    case True
    then show ?thesis using dom [OF True] k by (auto simp: Field_def)
  next
    case False
    then obtain j where j: "k = Suc j" "Suc j < length xs" using k xs(1) by (cases k) auto
    then show ?thesis using dom [OF j(2)] k by (auto simp: Field_def)
  qed
  ultimately show ?thesis using k by auto
qed

section \<open>The waiting relation of a table\<close>

lemma ok_distinct: "chains_ok t \<Longrightarrow> distinct (concat (member_lists t))"
  by (simp add: chains_ok_def)

lemma waits_on_split:
  "i < length (cc_chains t) \<Longrightarrow>
   waits_on t = waits (take i (member_lists t) @ drop (Suc i) (member_lists t)) \<union> waits [member_lists t ! i]"
  unfolding waits_on_def by (rule waits_update) simp

lemma waits_on_replace:
  "i < length (cc_chains t) \<Longrightarrow> member_lists t' = (member_lists t)[i := ys] \<Longrightarrow>
   waits_on t' = waits (take i (member_lists t) @ drop (Suc i) (member_lists t)) \<union> waits [ys]"
  unfolding waits_on_def by (simp add: waits_update(1))

lemma engaged_Field:
  assumes "chains_ok t"
  shows "m \<in> Field (waits_on t) \<longleftrightarrow> chain_of t m \<noteq> None"
proof
  assume "m \<in> Field (waits_on t)"
  then obtain xs k where "xs \<in> set (member_lists t)" "k < length xs" "m = xs ! k"
    unfolding Field_def waits_on_def waits_def using Suc_lessD by blast
  then have "m \<in> set (concat (member_lists t))" using nth_mem by auto
  then show "chain_of t m \<noteq> None" using chain_of_None [OF assms] by simp
next
  assume "chain_of t m \<noteq> None"
  then obtain i where "chain_of t m = Some i" by blast
  with assms obtain c where c: "i < length (cc_chains t)" "member_lists t ! i = chain_members c" "m \<in> set (chain_members c)" "2 \<le> ch_len c"
    "length (chain_members c) = ch_len c" "distinct (chain_members c)" by (elim found_chain) blast
  then have "m \<in> Field (waits [member_lists t ! i])" using in_path [of "chain_members c" m] by simp
  then show "m \<in> Field (waits_on t)" by (simp add: waits_on_split [OF c(1)])
qed

lemma active_iff:
  assumes "chains_ok t" "chain_of t m = Some i" "chain_at t i = Some c"
  shows "last_member c = Some m \<longleftrightarrow> m \<notin> Domain (waits_on t)"
proof -
  have c: "i < length (cc_chains t)" "member_lists t ! i = chain_members c" "m \<in> set (chain_members c)" "2 \<le> ch_len c"
    "length (chain_members c) = ch_len c" "distinct (chain_members c)" using assms by (auto elim!: found_chain)
  have "m \<notin> Domain (waits (take i (member_lists t) @ drop (Suc i) (member_lists t)))"
    using waits_rest_apart [OF ok_distinct [OF assms(1)], of i m] c by auto
  then have "m \<in> Domain (waits_on t) \<longleftrightarrow> m \<in> Domain (waits [chain_members c])"
    by (auto simp: waits_on_split [OF c(1)] c(2))
  then show ?thesis using in_path [of "chain_members c" m] c by (auto simp: last_member_def)
qed

lemma same_chain:
  assumes "chains_ok t" "a \<noteq> b"
  shows "(a, b) \<in> (waits_on t)\<^sup>+ \<or> (b, a) \<in> (waits_on t)\<^sup>+ \<longleftrightarrow> (\<exists>i. chain_of t a = Some i \<and> chain_of t b = Some i)"
proof -
  have "precedes (member_lists t) a b \<or> precedes (member_lists t) b a \<longleftrightarrow> (\<exists>xs\<in>set (member_lists t). a \<in> set xs \<and> b \<in> set xs)"
  proof
    assume "\<exists>xs\<in>set (member_lists t). a \<in> set xs \<and> b \<in> set xs"
    then obtain xs i j where x: "xs \<in> set (member_lists t)" "i < length xs" "j < length xs" "a = xs ! i" "b = xs ! j" by (auto simp: in_set_conv_nth)
    with assms(2) have "i < j \<or> j < i" by (metis nat_neq_iff)
    with x show "precedes (member_lists t) a b \<or> precedes (member_lists t) b a" unfolding precedes_def by blast
  qed (unfold precedes_def, metis nth_mem order.strict_trans)
  also have "\<dots> \<longleftrightarrow> (\<exists>i<length (cc_chains t). a \<in> set (member_lists t ! i) \<and> b \<in> set (member_lists t ! i))"
    by (metis in_set_conv_nth length_member_lists)
  finally show ?thesis
    unfolding waits_on_def trancl_waits [OF ok_distinct [OF assms(1)]] by (auto simp: chain_of_Some [OF assms(1)])
qed

section \<open>Operations\<close>

lemma stats_only [simp]:
  "member_lists (t\<lparr>cc_stats := s\<rparr>) = member_lists t" "waits_on (t\<lparr>cc_stats := s\<rparr>) = waits_on t"
  "member_lists (count_deadlock t) = member_lists t" "member_lists (count_exhaustion t) = member_lists t"
  "cc_chains (count_deadlock t) = cc_chains t" "cc_chains (count_exhaustion t) = cc_chains t"
  "cc_chains (record_entry d t) = cc_chains t" "cs_live (cc_stats (record_entry d t)) = cs_live (cc_stats t)"
  "cs_live (cc_stats (count_deadlock t)) = cs_live (cc_stats t)" "cs_live (cc_stats (count_exhaustion t)) = cs_live (cc_stats t)"
  by (simp_all add: member_lists_def waits_on_def count_deadlock_def count_exhaustion_def record_entry_def Let_def)

lemma chains_ok_counted [simp]: "chains_ok (count_deadlock t) = chains_ok t" "chains_ok (count_exhaustion t) = chains_ok t"
  "chains_ok (record_entry d t) = chains_ok t" "waits_on (count_deadlock t) = waits_on t" "waits_on (count_exhaustion t) = waits_on t"
  "waits_on (record_entry d t) = waits_on t"
  by (simp_all add: chains_ok_def waits_on_def) (simp_all add: member_lists_def)

lemma chains_ok_replace:
  assumes "chains_ok t" "i < length (cc_chains t)" "cc_chains t' = (cc_chains t)[i := slot]" "chain_ok slot"
    and "distinct (concat ((member_lists t)[i := slot_members slot]))"
    and "cs_live (cc_stats t') + of_bool (cc_chains t ! i \<noteq> None) = cs_live (cc_stats t) + of_bool (slot \<noteq> None)"
  shows "chains_ok t' \<and> member_lists t' = (member_lists t)[i := slot_members slot]"
proof -
  have lists: "member_lists t' = (member_lists t)[i := slot_members slot]" by (simp add: member_lists_def assms(3) map_update)
  have "cs_live (cc_stats t') = count_if (\<lambda>slot. slot \<noteq> None) (cc_chains t')"
    using assms(1,6) count_if_update [OF assms(2), of "\<lambda>slot. slot \<noteq> None" slot] by (auto simp: chains_ok_def assms(3))
  then show ?thesis
    using assms(1,3,4,5) lists by (auto simp: chains_ok_def dest!: set_update_cases)
qed

lemma extend_exact:
  assumes ok: "chains_ok t" and i: "chain_of t caller = Some i" and free: "chain_of t target = None"
    and c: "chain_at t i = Some c" "last_member c = Some caller" "ch_len c < 4"
    and t': "cc_chains t' = (cc_chains t)[i := Some (c\<lparr>ch_members := (ch_members c)[ch_len c := target], ch_len := ch_len c + 1\<rparr>)]"
      "cs_live (cc_stats t') = cs_live (cc_stats t)"
  shows "chains_ok t' \<and> waits_on t' = insert (caller, target) (waits_on t) \<and> chain_depth t' target = ch_len c + 1"
proof -
  let ?d = "c\<lparr>ch_members := (ch_members c)[ch_len c := target], ch_len := ch_len c + 1\<rparr>"
  have facts: "cc_chains t ! i = Some c" "i < length (cc_chains t)" "member_lists t ! i = chain_members c" "length (ch_members c) = 4"
    "2 \<le> ch_len c" "length (chain_members c) = ch_len c" using ok i c(1) by (auto elim!: found_chain)
  have members: "chain_members ?d = chain_members c @ [target]"
    using facts(4) c(3) by (simp add: chain_members_def take_Suc_conv_app_nth)
  have "mset (concat ((member_lists t)[i := chain_members c @ [target]])) = mset (concat (member_lists t) @ [target])"
    using concat_update [of i "member_lists t" "chain_members c @ [target]"] facts(2,3) by simp
  moreover have "distinct (concat (member_lists t) @ [target])"
    using ok_distinct [OF ok] chain_of_None [OF ok] free by simp
  ultimately have "distinct (concat ((member_lists t)[i := chain_members c @ [target]]))"
    using mset_eq_imp_distinct_iff by metis
  then have t'_ok: "chains_ok t' \<and> member_lists t' = (member_lists t)[i := chain_members c @ [target]]"
    using chains_ok_replace [OF ok facts(2) t'(1)] facts c(3) t'(2) members by (simp add: chain_ok_def MAX_CALL_CHAIN_MEMBERS_def)
  have "chain_members c \<noteq> [] \<and> last (chain_members c) = caller" using c(2) by (auto simp: last_member_def split: if_splits)
  then have "waits_on t' = insert (caller, target) (waits_on t)"
    using waits_on_replace [OF facts(2)] t'_ok waits_on_split [OF facts(2)] facts(3) by (simp add: waits_snoc)
  moreover have "chain_of t' target = Some i"
    using t'_ok facts(2) t'(1) by (simp add: chain_of_Some)
  then have "chain_depth t' target = ch_len c + 1"
    using t'(1) facts members by (simp add: chain_depth_def chain_members_of_def chain_at_def)
  ultimately show ?thesis using t'_ok by simp
qed

lemma begin_exact:
  assumes ok: "chains_ok t" and engaged: "chain_of t caller = None" "chain_of t target = None" "caller \<noteq> target"
    and i: "i < length (cc_chains t)" "cc_chains t ! i = None"
    and t': "cc_chains t' = (cc_chains t)[i := Some \<lparr>ch_members = [caller, target, caller, caller], ch_len = 2\<rparr>]"
      "cs_live (cc_stats t') = cs_live (cc_stats t) + 1"
  shows "chains_ok t' \<and> waits_on t' = insert (caller, target) (waits_on t) \<and> chain_depth t' target = 2"
proof -
  let ?c = "\<lparr>ch_members = [caller, target, caller, caller], ch_len = 2\<rparr>"
  have members: "chain_members ?c = [caller, target]" by (simp add: chain_members_def)
  have empty: "member_lists t ! i = []" using i by (simp add: member_lists_nth)
  have "mset (concat ((member_lists t)[i := [caller, target]])) = mset (concat (member_lists t) @ [caller, target])"
    using concat_update [of i "member_lists t" "[caller, target]"] i empty by simp
  moreover have "distinct (concat (member_lists t) @ [caller, target])"
    using ok_distinct [OF ok] chain_of_None [OF ok] engaged by simp
  ultimately have "distinct (concat ((member_lists t)[i := [caller, target]]))"
    using mset_eq_imp_distinct_iff by metis
  then have t'_ok: "chains_ok t' \<and> member_lists t' = (member_lists t)[i := [caller, target]]"
    using chains_ok_replace [OF ok i(1) t'(1)] i t'(2) members by (simp add: chain_ok_def MAX_CALL_CHAIN_MEMBERS_def)
  then have "waits_on t' = insert (caller, target) (waits_on t)"
    using waits_on_replace [OF i(1)] waits_on_split [OF i(1)] empty by (simp add: waits_path)
  moreover have "chain_of t' target = Some i"
    using t'_ok i t'(1) by (simp add: chain_of_Some)
  then have "chain_depth t' target = 2"
    using t'(1) i members by (simp add: chain_depth_def chain_members_of_def chain_at_def)
  ultimately show ?thesis using t'_ok by simp
qed

lemma release_exact:
  assumes ok: "chains_ok t" and i: "chain_of t m = Some i"
    and t': "cc_chains t' = (cc_chains t)[i := None]" "cs_live (cc_stats t') = cs_live (cc_stats t) - 1"
  shows "chains_ok t' \<and> waits_on t' = {(a, b) \<in> waits_on t. a \<notin> set (member_lists t ! i)}"
proof -
  obtain c where c: "cc_chains t ! i = Some c" "i < length (cc_chains t)" using ok i by (elim found_chain)
  have pos: "0 < cs_live (cc_stats t)" using c ok count_if_pos_nth [OF c(2), of "\<lambda>slot. slot \<noteq> None"] by (simp add: chains_ok_def)
  have "mset (concat ((member_lists t)[i := []]) @ member_lists t ! i) = mset (concat (member_lists t))"
    using concat_update [of i "member_lists t" "[]"] c(2) by simp
  then have "distinct (concat ((member_lists t)[i := []]) @ member_lists t ! i)"
    using mset_eq_imp_distinct_iff ok_distinct [OF ok] by metis
  then have t'_ok: "chains_ok t' \<and> member_lists t' = (member_lists t)[i := []]"
    using chains_ok_replace [OF ok c(2) t'(1)] c t'(2) pos by (simp add: chain_ok_def)
  then have "waits_on t' = waits (take i (member_lists t) @ drop (Suc i) (member_lists t))"
    using waits_on_replace [OF c(2)] by (simp add: waits_path)
  moreover have "a \<in> set (member_lists t ! i)" if "(a, b) \<in> waits [member_lists t ! i]" for a b
    using that by (auto simp: waits_def)
  ultimately have "waits_on t' = {(a, b) \<in> waits_on t. a \<notin> set (member_lists t ! i)}"
    unfolding waits_on_split [OF c(2)] using waits_rest_apart [OF ok_distinct [OF ok], of i] c(2) by auto
  with t'_ok show ?thesis by simp
qed

lemma unwind_exact:
  assumes ok: "chains_ok t" and i: "chain_of t m = Some i" and c: "chain_at t i = Some c" "last_member c = Some m"
  defines "c' \<equiv> c\<lparr>ch_len := ch_len c - 1\<rparr>"
  assumes t': "t' = (if ch_len c' \<le> 1 then release_chain i (t\<lparr>cc_chains := (cc_chains t)[i := Some c']\<rparr>)
      else t\<lparr>cc_chains := (cc_chains t)[i := Some c']\<rparr>)"
  shows "chains_ok t' \<and> (\<exists>caller. last_member c' = Some caller \<and> (caller, m) \<in> waits_on t \<and> waits_on t' = waits_on t - {(caller, m)})"
proof -
  have facts: "cc_chains t ! i = Some c" "i < length (cc_chains t)" "member_lists t ! i = chain_members c" "length (ch_members c) = 4"
    "2 \<le> ch_len c" "ch_len c \<le> 4" "length (chain_members c) = ch_len c" "distinct (chain_members c)"
    using ok i c(1) by (auto elim!: found_chain)
  define ys where "ys = chain_members c'"
  have ys: "chain_members c = ys @ [m]" "ys \<noteq> []"
  proof -
    have "ys = butlast (chain_members c)" using facts(4,6) by (simp add: ys_def c'_def chain_members_def butlast_take)
    moreover have "chain_members c \<noteq> []" "last (chain_members c) = m" using c(2) by (auto simp: last_member_def split: if_splits)
    ultimately show "chain_members c = ys @ [m]" by (metis append_butlast_last_id)
    then show "ys \<noteq> []" using facts(5,7) by auto
  qed
  have len: "ch_len c' = length ys" using facts(7) ys by (simp add: c'_def)
  define kept where "kept = (if ch_len c' \<le> 1 then [] else ys)"
  have "mset (concat ((member_lists t)[i := kept]) @ chain_members c) = mset (concat (member_lists t) @ kept)"
    using concat_update [of i "member_lists t" kept] facts(2,3) by simp
  then have "mset (concat ((member_lists t)[i := kept]) @ (if ch_len c' \<le> 1 then ys @ [m] else [m])) = mset (concat (member_lists t))"
    by (auto simp: kept_def ys(1))
  then have "distinct (concat ((member_lists t)[i := kept]))"
    using mset_eq_imp_distinct_iff ok_distinct [OF ok] distinct_append by metis
  moreover have "cc_chains t' = (cc_chains t)[i := if ch_len c' \<le> 1 then None else Some c']"
    by (simp add: t' release_chain_def)
  moreover have "0 < cs_live (cc_stats t)" using facts ok count_if_pos_nth [OF facts(2), of "\<lambda>slot. slot \<noteq> None"] by (simp add: chains_ok_def)
  moreover have "chain_ok (if ch_len c' \<le> 1 then None else Some c')"
    using facts(4,6) by (auto simp: chain_ok_def c'_def MAX_CALL_CHAIN_MEMBERS_def)
  ultimately have t'_ok: "chains_ok t' \<and> member_lists t' = (member_lists t)[i := kept]"
    using chains_ok_replace [OF ok facts(2), of t' "if ch_len c' \<le> 1 then None else Some c'"] facts(1)
    by (auto simp: kept_def ys_def t' release_chain_def)
  have "waits [kept] = waits [ys]" using ys(2) len by (cases ys) (auto simp: kept_def waits_path)
  then have W': "waits_on t' = waits (take i (member_lists t) @ drop (Suc i) (member_lists t)) \<union> waits [ys]"
    using waits_on_replace [OF facts(2)] t'_ok by simp
  have W: "waits_on t = waits (take i (member_lists t) @ drop (Suc i) (member_lists t)) \<union> insert (last ys, m) (waits [ys])"
    using waits_on_split [OF facts(2)] facts(3) ys by (simp add: waits_snoc)
  have "(last ys, m) \<notin> waits [ys]" using facts(8) ys nth_mem by (fastforce simp: waits_def)
  moreover have "(last ys, m) \<notin> waits (take i (member_lists t) @ drop (Suc i) (member_lists t))"
    using waits_rest_apart(2) [OF ok_distinct [OF ok], of i "last ys" m] facts(2,3) ys by auto
  ultimately have "waits_on t' = waits_on t - {(last ys, m)}" using W W' by auto
  moreover have "last_member c' = Some (last ys)" using ys by (simp add: last_member_def ys_def)
  ultimately show ?thesis using t'_ok W by blast
qed

lemma begin_members: "(replicate MAX_CALL_CHAIN_MEMBERS caller)[Suc 0 := target] = [caller, target, caller, caller]"
  by (simp add: MAX_CALL_CHAIN_MEMBERS_def numeral_eq_Suc)

lemma enter_cases:
  assumes ok: "chains_ok t" and enter: "chain_enter caller target t = (r, t')"
  defines "related \<equiv> caller = target \<or> (caller, target) \<in> (waits_on t)\<^sup>+ \<or> (target, caller) \<in> (waits_on t)\<^sup>+"
  obtains
    (deadlock) "related" "r = Inl ChainDeadlock" "cc_chains t' = cc_chains t" "chains_ok t'"
  | (busy) "\<not> related" "target \<in> Field (waits_on t) \<or> caller \<in> Domain (waits_on t)" "r = Inl ChainBusy" "t' = t"
  | (deep) "\<not> related" "target \<notin> Field (waits_on t)" "caller \<notin> Domain (waits_on t)" "caller \<in> Field (waits_on t)" "chain_depth t caller = 4"
      "r = Inl ChainExhausted" "cc_chains t' = cc_chains t" "chains_ok t'"
  | (full) "\<not> related" "target \<notin> Field (waits_on t)" "caller \<notin> Domain (waits_on t)" "caller \<notin> Field (waits_on t)" "None \<notin> set (cc_chains t)"
      "r = Inl ChainExhausted" "cc_chains t' = cc_chains t" "chains_ok t'"
  | (entered) depth where "\<not> related" "target \<notin> Field (waits_on t)" "caller \<notin> Domain (waits_on t)"
      "if caller \<in> Field (waits_on t) then chain_depth t caller < 4 else None \<in> set (cc_chains t)"
      "r = Inr depth" "chains_ok t'" "waits_on t' = insert (caller, target) (waits_on t)" "depth = chain_depth t' target" "depth \<le> 4"
proof -
  note field = engaged_Field [OF ok]
  have rel: "related \<longleftrightarrow> caller = target \<or> (\<exists>i. chain_of t caller = Some i \<and> chain_of t target = Some i)"
    using same_chain [OF ok, of caller target] by (auto simp: related_def)
  consider (related) "related" | (engaged) i where "\<not> related" "chain_of t target = Some i"
    | (extend) i where "\<not> related" "chain_of t target = None" "chain_of t caller = Some i"
    | (fresh) "\<not> related" "chain_of t target = None" "chain_of t caller = None" by fastforce
  then show thesis
  proof cases
    case related
    then have "r = Inl ChainDeadlock \<and> t' = count_deadlock t" using enter by (auto simp: rel chain_enter_def split: if_splits)
    then show thesis using deadlock related ok by simp
  next
    case engaged
    then have "r = Inl ChainBusy \<and> t' = t" using enter by (auto simp: rel chain_enter_def)
    then show thesis using busy engaged field by simp
  next
    case (extend i)
    obtain c where c: "chain_at t i = Some c" "length (chain_members c) = ch_len c" "ch_len c \<le> 4" using ok extend(3) by (elim found_chain)
    have depth: "chain_depth t caller = ch_len c" using extend(3) c by (simp add: chain_depth_def chain_members_of_def)
    have eq: "chain_extend i caller target t = (r, t')" using extend enter by (auto simp: rel chain_enter_def)
    consider "last_member c \<noteq> Some caller" | "last_member c = Some caller" "ch_len c = 4" | "last_member c = Some caller" "ch_len c < 4"
      using c(3) by fastforce
    then show thesis
    proof cases
      case 1
      then show thesis using busy extend eq c active_iff [OF ok extend(3) c(1)] by (auto simp: chain_extend_def)
    next
      case 2
      then show thesis using deep extend eq c depth active_iff [OF ok extend(3) c(1)] field ok
        by (auto simp: chain_extend_def MAX_CALL_CHAIN_MEMBERS_def)
    next
      case 3
      let ?u = "t\<lparr>cc_chains := (cc_chains t)[i := Some (c\<lparr>ch_members := (ch_members c)[ch_len c := target], ch_len := ch_len c + 1\<rparr>)]\<rparr>"
      have new: "r = Inr (ch_len c + 1)" "t' = record_entry (ch_len c + 1) ?u"
        using 3 eq c by (auto simp: chain_extend_def MAX_CALL_CHAIN_MEMBERS_def Let_def)
      have "chains_ok t' \<and> waits_on t' = insert (caller, target) (waits_on t) \<and> chain_depth t' target = ch_len c + 1"
        using extend_exact [OF ok extend(3,2) c(1) 3, of t'] by (simp add: new)
      then show thesis
        using entered [of "ch_len c + 1"] new extend 3 c depth active_iff [OF ok extend(3) c(1)] field by simp
    qed
  next
    case fresh
    have eq: "chain_begin caller target t = (r, t')" using fresh enter by (auto simp: rel chain_enter_def)
    have out: "caller \<notin> Field (waits_on t)" "target \<notin> Field (waits_on t)" using fresh field by simp_all
    then have dom: "caller \<notin> Domain (waits_on t)" by (auto simp: Field_def)
    show thesis
    proof (cases "position (\<lambda>slot. slot = None) (cc_chains t)")
      case None
      then have "None \<notin> set (cc_chains t)" unfolding position_None_iff by auto
      with None show thesis using full fresh(1) eq out dom ok by (auto simp: chain_begin_def)
    next
      case (Some i)
      have i: "i < length (cc_chains t)" "cc_chains t ! i = None" using position_SomeD [OF Some] by simp_all
      have live: "cs_live (cc_stats t) < 16"
        using ok i count_if_less_length_nth [of i "cc_chains t" "\<lambda>slot. slot \<noteq> None"] by (auto simp: chains_ok_def MAX_CALL_CHAINS_def)
      have new: "r = Inr 2" "cc_chains t' = (cc_chains t)[i := Some \<lparr>ch_members = [caller, target, caller, caller], ch_len = 2\<rparr>]"
        "cs_live (cc_stats t') = cs_live (cc_stats t) + 1"
        using eq Some saturating_add_exact [of "cs_live (cc_stats t)" 1 32] live by (auto simp: chain_begin_def Let_def begin_members)
      have "caller \<noteq> target" using fresh(1) by (auto simp: related_def)
      then have "chains_ok t' \<and> waits_on t' = insert (caller, target) (waits_on t) \<and> chain_depth t' target = 2"
        using begin_exact [OF ok fresh(3,2) _ i new(2,3)] by simp
      moreover have "None \<in> set (cc_chains t)" using i nth_mem [OF i(1)] by metis
      ultimately show thesis using entered [OF fresh(1) out(2) dom _ new(1)] out(1) by simp
    qed
  qed
qed

lemma unwind_cases:
  assumes ok: "chains_ok t" and unwind: "chain_unwind m t = (r, t')"
  obtains
    (inactive) "m \<in> Domain (waits_on t) \<or> m \<notin> Field (waits_on t)" "r = Inl ChainNotActive" "t' = t"
  | (unwound) caller where "m \<notin> Domain (waits_on t)" "m \<in> Field (waits_on t)" "(caller, m) \<in> waits_on t" "r = Inr (Some caller)"
      "chains_ok t'" "waits_on t' = waits_on t - {(caller, m)}"
proof (cases "chain_of t m")
  case None
  then show thesis using inactive unwind engaged_Field [OF ok, of m] by (simp add: chain_unwind_def)
next
  case (Some i)
  obtain c where c: "chain_at t i = Some c" using ok Some by (elim found_chain)
  show thesis
  proof (cases "last_member c = Some m")
    case False
    then show thesis using inactive unwind Some c active_iff [OF ok Some c] by (simp add: chain_unwind_def)
  next
    case True
    have "r = Inr (last_member (c\<lparr>ch_len := ch_len c - 1\<rparr>))"
      "t' = (if ch_len (c\<lparr>ch_len := ch_len c - 1\<rparr>) \<le> 1 then release_chain i (t\<lparr>cc_chains := (cc_chains t)[i := Some (c\<lparr>ch_len := ch_len c - 1\<rparr>)]\<rparr>)
        else t\<lparr>cc_chains := (cc_chains t)[i := Some (c\<lparr>ch_len := ch_len c - 1\<rparr>)]\<rparr>)"
      using unwind Some c True by (auto simp: chain_unwind_def Let_def)
    then show thesis
      using unwound unwind_exact [OF ok Some c True, of t'] True active_iff [OF ok Some c] engaged_Field [OF ok, of m] Some by auto
  qed
qed

definition chain_around :: "(task_id \<times> task_id) set \<Rightarrow> task_id \<Rightarrow> task_id set" where
  "chain_around W m = {x. x = m \<or> (x, m) \<in> W\<^sup>+ \<or> (m, x) \<in> W\<^sup>+}"

lemma chain_around_members:
  assumes "chains_ok t" "chain_of t m = Some i"
  shows "chain_around (waits_on t) m = set (member_lists t ! i)"
proof -
  have "x \<in> chain_around (waits_on t) m \<longleftrightarrow> chain_of t x = Some i" for x
    using same_chain [OF assms(1), of x m] assms(2) by (cases "x = m") (auto simp: chain_around_def)
  then show ?thesis using assms chain_of_Some by (auto simp: set_eq_iff)
qed

lemma detach_cases:
  assumes ok: "chains_ok t" and detach: "chain_detach m t = (r, t')"
  obtains
    (free) "m \<notin> Field (waits_on t)" "r = Inl ChainNotActive" "t' = t"
  | (released) "m \<in> Field (waits_on t)" "r = Inr ()" "chains_ok t'"
      "waits_on t' = {(a, b) \<in> waits_on t. a \<notin> chain_around (waits_on t) m}"
proof (cases "chain_of t m")
  case None
  then show thesis using free detach engaged_Field [OF ok, of m] by (simp add: chain_detach_def)
next
  case (Some i)
  then have "r = Inr ()" "t' = release_chain i t" using detach by (auto simp: chain_detach_def)
  then show thesis
    using released release_exact [OF ok Some, of t'] engaged_Field [OF ok, of m] Some chain_around_members [OF ok Some] by (simp add: release_chain_def)
qed

lemma abandon_cases:
  assumes ok: "chains_ok t" and abandon: "chain_abandon reserved m t = (r, t')"
  obtains
    (free) "m \<notin> Field (waits_on t)" "r = Inl ChainNotActive" "t' = t"
  | (unreserved) "m \<in> Field (waits_on t)" "\<not> reserved" "r = Inl ChainExhausted" "t' = t"
  | (released) members where "m \<in> Field (waits_on t)" "reserved" "r = Inr members" "chains_ok t'"
      "waits_on t' = {(a, b) \<in> waits_on t. a \<notin> chain_around (waits_on t) m}"
      "set members = chain_around (waits_on t) m" "sorted_wrt (\<lambda>a b. (a, b) \<in> (waits_on t)\<^sup>+) members"
proof (cases "chain_of t m")
  case None
  then show thesis using free abandon engaged_Field [OF ok, of m] by (simp add: chain_abandon_def)
next
  case (Some i)
  obtain c where c: "chain_at t i = Some c" "i < length (cc_chains t)" "member_lists t ! i = chain_members c" using ok Some by (elim found_chain)
  have field: "m \<in> Field (waits_on t)" using engaged_Field [OF ok, of m] Some by simp
  have "chain_members c \<in> set (member_lists t)" using c(2,3) nth_mem [of i "member_lists t"] by simp
  then have sorted: "sorted_wrt (\<lambda>a b. (a, b) \<in> (waits_on t)\<^sup>+) (chain_members c)"
    unfolding waits_on_def trancl_waits [OF ok_distinct [OF ok]] by (auto simp: precedes_def sorted_wrt_iff_nth_less)
  obtain u where u: "chain_detach m t = (Inr (), u)" using Some by (simp add: chain_detach_def)
  show thesis
  proof (cases reserved)
    case False
    then show thesis using unreserved abandon Some c field by (simp add: chain_abandon_def)
  next
    case True
    then have "r = Inr (chain_members c)" "t' = u" using abandon Some c u by (auto simp: chain_abandon_def)
    moreover have "chains_ok u" "waits_on u = {(a, b) \<in> waits_on t. a \<notin> chain_around (waits_on t) m}"
      by (rule detach_cases [OF ok u]; simp)+
    moreover have "set (chain_members c) = chain_around (waits_on t) m" using chain_around_members [OF ok Some] c(3) by simp
    ultimately show thesis using released [OF field True] sorted by blast
  qed
qed

section \<open>Runs\<close>

lemma chains_ok_new: "call_chains_new reserved capacity = Inr t \<Longrightarrow> chains_ok t"
  by (auto simp: call_chains_new_def chains_ok_def member_lists_def chain_ok_def split: if_splits)

lemma chains_ok_step: "call_chain_step t t' \<Longrightarrow> chains_ok t \<Longrightarrow> chains_ok t'"
proof (induction rule: call_chain_step.induct)
  case (1 t caller target)
  obtain r u where e: "chain_enter caller target t = (r, u)" by fastforce
  have "chains_ok u" using 1 e by (cases rule: enter_cases) (use 1 in simp_all)
  then show ?case by (simp add: e)
next
  case (2 t member)
  obtain r u where e: "chain_unwind member t = (r, u)" by fastforce
  have "chains_ok u" using 2 e by (cases rule: unwind_cases) (use 2 in simp_all)
  then show ?case by (simp add: e)
next
  case (3 t member)
  obtain r u where e: "chain_detach member t = (r, u)" by fastforce
  have "chains_ok u" using 3 e by (cases rule: detach_cases) (use 3 in simp_all)
  then show ?case by (simp add: e)
next
  case (4 t reserved member)
  obtain r u where e: "chain_abandon reserved member t = (r, u)" by fastforce
  have "chains_ok u" using 4 e by (cases rule: abandon_cases) (use 4 in simp_all)
  then show ?case by (simp add: e)
qed

lemma chains_ok_run: "call_chain_step\<^sup>*\<^sup>* t t' \<Longrightarrow> chains_ok t \<Longrightarrow> chains_ok t'"
  by (induction rule: rtranclp_induct) (auto intro: chains_ok_step)

lemma chain_around_bound: "chains_ok t \<Longrightarrow> card (chain_around (waits_on t) m) \<le> 4"
proof -
  assume ok: "chains_ok t"
  show ?thesis
  proof (cases "chain_of t m")
    case None
    then have "m \<notin> Field (waits_on t)" using engaged_Field [OF ok, of m] by simp
    then have "chain_around (waits_on t) m = {m}"
      unfolding chain_around_def by (auto simp: Field_def dest: tranclD tranclD2)
    then show ?thesis by simp
  next
    case (Some i)
    with ok obtain c where "member_lists t ! i = chain_members c" "ch_len c \<le> 4" "length (chain_members c) = ch_len c" by (elim found_chain)
    then show ?thesis using chain_around_members [OF ok Some] card_length [of "chain_members c"] by simp
  qed
qed

text \<open>C16. Over any run of a fresh chain table the tasks that wait on each other form disjoint simple paths: nobody waits
  on itself through any number of donations, every caller waits on one callee, every callee serves one caller, and no
  path has more than four members.  The table invariant the other chain properties start from holds all along.\<close>
theorem call_waiting_acyclic:
  assumes "call_chains_new reserved capacity = Inr t0" "call_chain_step\<^sup>*\<^sup>* t0 t"
  shows "acyclic (waits_on t) \<and> single_valued (waits_on t) \<and> single_valued ((waits_on t)\<inverse>) \<and>
    (\<forall>m. card (chain_around (waits_on t) m) \<le> MAX_CALL_CHAIN_MEMBERS) \<and> chains_ok t"
proof -
  have ok: "chains_ok t" using chains_ok_run [OF assms(2) chains_ok_new [OF assms(1)]] .
  then show ?thesis
    using waits_facts [OF ok_distinct [OF ok]] chain_around_bound [OF ok] by (simp add: waits_on_def MAX_CALL_CHAIN_MEMBERS_def)
qed

text \<open>C32. A call is refused as a deadlock exactly when caller and target are the same task or one already waits on the
  other, directly or through others; as busy exactly when, short of that, the target takes part in any call or the caller
  already waits; and as exhausted exactly when, short of both, the caller's chain has four members or a new chain finds no
  record.  A refusal changes no chain.  An admitted call adds exactly the caller's wait on the target, reports the
  target's depth, and unwinding the target at once resumes the caller and restores the waiting relation.\<close>
theorem call_admission_exact:
  assumes "chains_ok t" "chain_enter caller target t = (r, t')"
  defines "related \<equiv> caller = target \<or> (caller, target) \<in> (waits_on t)\<^sup>+ \<or> (target, caller) \<in> (waits_on t)\<^sup>+"
    and "taken \<equiv> target \<in> Field (waits_on t) \<or> caller \<in> Domain (waits_on t)"
    and "full \<equiv> (if caller \<in> Field (waits_on t) then chain_depth t caller = MAX_CALL_CHAIN_MEMBERS else None \<notin> set (cc_chains t))"
  shows "(r = Inl ChainDeadlock \<longleftrightarrow> related) \<and> (r = Inl ChainBusy \<longleftrightarrow> \<not> related \<and> taken) \<and>
    (r = Inl ChainExhausted \<longleftrightarrow> \<not> related \<and> \<not> taken \<and> full) \<and> r \<noteq> Inl ChainNotActive \<and>
    (\<forall>e. r = Inl e \<longrightarrow> cc_chains t' = cc_chains t) \<and>
    (\<forall>d. r = Inr d \<longrightarrow> waits_on t' = insert (caller, target) (waits_on t) \<and> d = chain_depth t' target \<and>
       (\<exists>t''. chain_unwind target t' = (Inr (Some caller), t'') \<and> waits_on t'' = waits_on t))"
  using assms(1,2)
proof (cases rule: enter_cases)
  case (entered depth)
  have "target \<notin> Field (waits_on t)" "(caller, target) \<notin> waits_on t" using entered by (auto simp: Field_def)
  moreover have "\<exists>t''. chain_unwind target t' = (Inr (Some caller), t'') \<and> waits_on t'' = waits_on t"
  proof -
    obtain r'' t'' where u: "chain_unwind target t' = (r'', t'')" by fastforce
    from entered(6) u show ?thesis
    proof (cases rule: unwind_cases)
      case inactive
      then show ?thesis using entered \<open>target \<notin> Field (waits_on t)\<close> by (auto simp: Field_def)
    next
      case (unwound other)
      then have "other = caller" using entered(7) \<open>target \<notin> Field (waits_on t)\<close> by (auto simp: Field_def)
      with unwound u entered(7) \<open>(caller, target) \<notin> waits_on t\<close> show ?thesis by auto
    qed
  qed
  ultimately show ?thesis using entered by (auto simp: related_def taken_def full_def MAX_CALL_CHAIN_MEMBERS_def)
qed (auto simp: related_def taken_def full_def MAX_CALL_CHAIN_MEMBERS_def)

text \<open>C33. A reply is accepted exactly from a task that serves a call and waits on nobody; it resumes the caller of that
  call and ends exactly that wait, so it never finishes without resuming somebody.  Detaching or abandoning the chain of
  a task is accepted exactly when the task takes part in one; it ends exactly the waits of that chain, and abandoning
  reports its members in the order in which they wait on each other.  Every refusal leaves the table as it was.\<close>
theorem call_completion_exact:
  assumes "chains_ok t"
  defines "W \<equiv> waits_on t"
  shows "(case chain_unwind m t of
      (Inr resumed, t') \<Rightarrow> m \<in> Range W - Domain W \<and> (\<exists>caller. resumed = Some caller \<and> (caller, m) \<in> W \<and> waits_on t' = W - {(caller, m)})
    | (Inl e, t') \<Rightarrow> e = ChainNotActive \<and> t' = t \<and> m \<notin> Range W - Domain W) \<and>
    (case chain_detach m t of
      (Inr _, t') \<Rightarrow> m \<in> Field W \<and> waits_on t' = {(a, b) \<in> W. a \<notin> chain_around W m}
    | (Inl e, t') \<Rightarrow> e = ChainNotActive \<and> t' = t \<and> m \<notin> Field W) \<and>
    (case chain_abandon reserved m t of
      (Inr members, t') \<Rightarrow> reserved \<and> m \<in> Field W \<and> waits_on t' = {(a, b) \<in> W. a \<notin> chain_around W m} \<and>
        set members = chain_around W m \<and> sorted_wrt (\<lambda>a b. (a, b) \<in> W\<^sup>+) members
    | (Inl e, t') \<Rightarrow> t' = t \<and> (if m \<in> Field W then e = ChainExhausted \<and> \<not> reserved else e = ChainNotActive))"
proof (intro conjI)
  obtain r t' where e: "chain_unwind m t = (r, t')" by fastforce
  show "case chain_unwind m t of
      (Inr resumed, t') \<Rightarrow> m \<in> Range W - Domain W \<and> (\<exists>caller. resumed = Some caller \<and> (caller, m) \<in> W \<and> waits_on t' = W - {(caller, m)})
    | (Inl e, t') \<Rightarrow> e = ChainNotActive \<and> t' = t \<and> m \<notin> Range W - Domain W"
    by (rule unwind_cases [OF assms(1) e]) (auto simp: e W_def Field_def)
next
  obtain r t' where e: "chain_detach m t = (r, t')" by fastforce
  show "case chain_detach m t of
      (Inr _, t') \<Rightarrow> m \<in> Field W \<and> waits_on t' = {(a, b) \<in> W. a \<notin> chain_around W m}
    | (Inl e, t') \<Rightarrow> e = ChainNotActive \<and> t' = t \<and> m \<notin> Field W"
    by (rule detach_cases [OF assms(1) e]) (simp_all add: e W_def)
next
  obtain r t' where e: "chain_abandon reserved m t = (r, t')" by fastforce
  show "case chain_abandon reserved m t of
      (Inr members, t') \<Rightarrow> reserved \<and> m \<in> Field W \<and> waits_on t' = {(a, b) \<in> W. a \<notin> chain_around W m} \<and>
        set members = chain_around W m \<and> sorted_wrt (\<lambda>a b. (a, b) \<in> W\<^sup>+) members
    | (Inl e, t') \<Rightarrow> t' = t \<and> (if m \<in> Field W then e = ChainExhausted \<and> \<not> reserved else e = ChainNotActive)"
    unfolding e by (rule abandon_cases [OF assms(1) e]) (simp_all add: W_def)
qed

section \<open>Witnesses\<close>

definition two_calls :: call_chain_table where
  "two_calls = \<lparr>cc_chains = [Some \<lparr>ch_members = [7, 8, 9, 7], ch_len = 3\<rparr>, None],
     cc_stats = \<lparr>cs_live = 1, cs_deepest = 3, cs_entries = 2, cs_deadlocks = 0, cs_exhaustions = 0\<rparr>\<rparr>"

definition one_call :: call_chain_table where
  "one_call = \<lparr>cc_chains = [Some \<lparr>ch_members = [7, 8, 7, 7], ch_len = 2\<rparr>, None],
     cc_stats = \<lparr>cs_live = 1, cs_deepest = 2, cs_entries = 1, cs_deadlocks = 0, cs_exhaustions = 0\<rparr>\<rparr>"

lemmas chain_run_simps = chain_enter_def chain_unwind_def chain_of_def chain_begin_def chain_extend_def chain_at_def last_member_def
  chain_members_def record_entry_def saturating_add_def try_into_def Let_def

lemma two_calls_reached:
  "\<exists>t0. call_chains_new True 2 = Inr t0 \<and> call_chain_step\<^sup>*\<^sup>* t0 two_calls"
proof -
  have update: "[7, 8, 7, 7][2 := 9 :: nat] = [7, 8, 9, 7]" by (simp add: numeral_2_eq_2)
  have two: "replicate 2 (None :: chain option) = [None, None]" by (simp add: numeral_2_eq_2)
  define t0 where "t0 = projr (call_chains_new True 2)"
  have t0: "call_chains_new True 2 = Inr t0" unfolding t0_def by (simp add: call_chains_new_def MAX_CALL_CHAINS_def)
  moreover have "chain_enter 7 8 t0 = (Inr 2, one_call)"
    using two by (simp add: t0_def call_chains_new_def MAX_CALL_CHAINS_def one_call_def begin_members chain_run_simps)
  moreover have "chain_enter 8 9 one_call = (Inr 3, two_calls)"
    using update by (simp add: one_call_def two_calls_def chain_run_simps MAX_CALL_CHAIN_MEMBERS_def)
  ultimately have "call_chain_step\<^sup>*\<^sup>* t0 two_calls"
    using call_chain_step.intros(1) by (metis rtranclp.rtrancl_into_rtrancl rtranclp.rtrancl_refl snd_conv)
  with t0 show ?thesis by blast
qed

lemma two_calls_waits: "waits_on two_calls = {(7, 8), (8, 9)}"
proof -
  have "member_lists two_calls = [[7, 8, 9], []]" by (simp add: two_calls_def member_lists_def chain_members_def)
  then show ?thesis by (simp add: waits_on_def waits_zip)
qed

lemma two_calls_ok: "chains_ok two_calls"
  using two_calls_reached chains_ok_run chains_ok_new by blast

theorem call_waiting_acyclic_witness: "acyclic (waits_on two_calls) \<and> waits_on two_calls = {(7, 8), (8, 9)}"
  using two_calls_reached call_waiting_acyclic two_calls_waits by blast

theorem call_admission_exact_witness:
  "chain_enter 9 7 two_calls = (Inl ChainDeadlock, count_deadlock two_calls) \<and> (7 :: nat, 9 :: nat) \<in> {(7, 8), (8, 9)}\<^sup>+"
proof -
  have "chain_enter 9 7 two_calls = (Inl ChainDeadlock, count_deadlock two_calls)" by (simp add: two_calls_def chain_run_simps)
  moreover from this have "(9 :: nat, 7 :: nat) \<in> {(7, 8), (8, 9)}\<^sup>+ \<or> (7 :: nat, 9 :: nat) \<in> {(7, 8), (8, 9)}\<^sup>+"
    using call_admission_exact [OF two_calls_ok, of 9 7] by (simp add: two_calls_waits)
  moreover have "(9 :: nat, 7 :: nat) \<notin> {(7, 8), (8, 9)}\<^sup>+"
  proof
    assume "(9 :: nat, 7 :: nat) \<in> {(7, 8), (8, 9)}\<^sup>+"
    then obtain z where "(9 :: nat, z :: nat) \<in> {(7, 8), (8, 9)}" using tranclD by metis
    then show False by simp
  qed
  ultimately show ?thesis by simp
qed

theorem call_completion_exact_witness:
  "\<exists>t'. chain_unwind 9 two_calls = (Inr (Some 8), t') \<and> waits_on t' = {(7, 8)}"
proof -
  have "fst (chain_unwind 9 two_calls) = Inr (Some 8)" by (simp add: two_calls_def chain_run_simps)
  then obtain t' where t': "chain_unwind 9 two_calls = (Inr (Some 8), t')" by (metis prod.collapse)
  then have "waits_on t' = waits_on two_calls - {(8, 9)}"
    using conjunct1 [OF call_completion_exact [OF two_calls_ok, of 9 True]] by simp
  then have "waits_on t' = {(7, 8)}" unfolding two_calls_waits by (simp add: insert_Diff_if)
  with t' show ?thesis by blast
qed

end
