(* ===== verification/Rotation.thy ===== *)
theory Rotation
  imports Prelude
begin

text \<open>
  Rotating search: a cursor into a table, probed index by index and wrapping at its end,
  as wait sets and the task scheduler do it. The search finds the match that the fewest
  steps from the cursor reach, and moving the cursor past one match brings every later
  one strictly nearer. Both fairness results rest on these lemmas.
\<close>

definition steps_from :: "nat \<Rightarrow> nat \<Rightarrow> nat \<Rightarrow> nat" where
  "steps_from n c i = (i + n - c) mod n"

lemma steps_from_reached:
  assumes "c < n" "s < n"
  shows "steps_from n c ((c + s) mod n) = s"
proof (cases "c + s < n")
  case True
  then show ?thesis using assms(2) by (simp add: steps_from_def)
next
  case False
  then have "(c + s) mod n = c + s - n" using assms by (simp add: le_mod_geq)
  then show ?thesis using False assms by (simp add: steps_from_def)
qed

lemma steps_from_reaches:
  assumes "c < n" "i < n"
  shows "(c + steps_from n c i) mod n = i" "steps_from n c i < n"
proof -
  have "(c + steps_from n c i) mod n = (c + (i + n - c)) mod n" unfolding steps_from_def by (simp add: mod_add_right_eq)
  then show "(c + steps_from n c i) mod n = i" using assms by simp
  show "steps_from n c i < n" unfolding steps_from_def by (rule mod_less_divisor) (use assms in linarith)
qed

lemma steps_from_inj: "c < n \<Longrightarrow> i < n \<Longrightarrow> j < n \<Longrightarrow> steps_from n c i = steps_from n c j \<Longrightarrow> i = j"
  using steps_from_reaches(1) by metis

lemma steps_from_advance:
  assumes "c < n" "i < n" "k < n" "steps_from n c i < steps_from n c k"
  shows "steps_from n ((i + 1) mod n) k = steps_from n c k - steps_from n c i - 1"
proof -
  let ?s = "steps_from n c k - steps_from n c i - 1"
  have n: "0 < n" using assms(1) by simp
  have "((i + 1) mod n + ?s) mod n = ((c + steps_from n c i) mod n + (1 + ?s)) mod n"
    using steps_from_reaches(1) [OF assms(1,2)] by (simp add: mod_add_left_eq)
  also have "\<dots> = (c + steps_from n c k) mod n"
    using assms(4) mod_add_left_eq [of "c + steps_from n c i" n "1 + ?s"] by (simp add: ac_simps)
  also have "\<dots> = k" by (rule steps_from_reaches(1) [OF assms(1,3)])
  finally have k: "((i + 1) mod n + ?s) mod n = k" .
  have "?s < n" using steps_from_reaches(2) [OF assms(1,3)] by simp
  then show ?thesis using steps_from_reached [of "(i + 1) mod n" n ?s] n k by simp
qed

lemma steps_from_passed: "i < n \<Longrightarrow> steps_from n ((i + 1) mod n) i = n - 1"
  by (cases "i + 1 = n") (auto simp: steps_from_def)

definition probe :: "(nat \<Rightarrow> bool) \<Rightarrow> nat \<Rightarrow> nat \<Rightarrow> nat option" where
  "probe P n c = map_option (\<lambda>s. (c + s) mod n) (find (\<lambda>s. P ((c + s) mod n)) [0..<n])"

lemma probe_None:
  assumes "c < n"
  shows "probe P n c = None \<longleftrightarrow> (\<forall>i<n. \<not> P i)"
proof -
  have "(\<forall>s<n. \<not> P ((c + s) mod n)) \<longleftrightarrow> (\<forall>i<n. \<not> P i)"
    using steps_from_reaches [OF assms] assms by (metis gr_implies_not_zero mod_less_divisor not_gr_zero)
  then show ?thesis by (auto simp: probe_def find_None_iff)
qed

lemma probe_Some:
  assumes "c < n" "probe P n c = Some i"
  shows "i < n" "P i" "\<forall>j<n. P j \<longrightarrow> steps_from n c i \<le> steps_from n c j"
proof -
  obtain s where s: "find (\<lambda>s. P ((c + s) mod n)) [0..<n] = Some s" "i = (c + s) mod n"
    using assms(2) by (auto simp: probe_def)
  then have s': "s < n" "P ((c + s) mod n)" "\<forall>r. r < s \<longrightarrow> \<not> P ((c + r) mod n)"
    by (auto simp: find_Some_iff)
  show "i < n" using assms(1) s(2) by simp
  show "P i" using s s' by simp
  have "\<not> steps_from n c j < s" if "j < n" "P j" for j
    using s'(3) steps_from_reaches(1) [OF assms(1) that(1)] that(2) by metis
  then show "\<forall>j<n. P j \<longrightarrow> steps_from n c i \<le> steps_from n c j"
    using steps_from_reached [OF assms(1) s'(1)] s(2) not_less by simp blast
qed

end
