(* ===== verification/Wait_Set.thy ===== *)
theory Wait_Set
  imports Rotation
begin

text \<open>
  Immutable wait sets (\<open>troe-task/src/waitset.rs\<close>): construction, selection and the
  rotating cursor. Terminal sources outrank an expired deadline, which outranks ready
  sources; ready sources rotate from the one after the last that delivered. The lemmas
  give the selection exactly and show that a source that stays ready is served within
  one rotation.
\<close>

section \<open>State\<close>

definition MAX_WAIT_SET_SOURCES :: nat where "MAX_WAIT_SET_SOURCES = 4"

datatype wait_source_kind = EndpointSource | PacketReceiveSource | BlockCompletionSource

datatype wait_set_error =
    InvalidSource | InvalidSetCapacity | DuplicateSource | SetMetadataExhausted | ReadinessMismatch | UnknownSource

record wait_source =
  wo_kind :: wait_source_kind
  wo_identity :: nat
  wo_generation :: nat

definition wait_source_new :: "wait_source_kind \<Rightarrow> nat \<Rightarrow> nat \<Rightarrow> (wait_set_error, wait_source) result" where
  "wait_source_new kind identity generation =
     (if identity = 0 \<or> generation = 0 then Inl InvalidSource
      else Inr \<lparr>wo_kind = kind, wo_identity = identity, wo_generation = generation\<rparr>)"

datatype source_readiness = SourceIdle | SourceReady | SourceClosed | SourceRevoked

definition readiness_is_terminal :: "source_readiness \<Rightarrow> bool" where
  "readiness_is_terminal r = (case r of SourceClosed \<Rightarrow> True | SourceRevoked \<Rightarrow> True | _ \<Rightarrow> False)"

datatype wait_selection = SelectTerminal nat source_readiness | SelectDeadline | SelectReady nat

record wait_set =
  wset_sources :: "wait_source list"
  wset_cursor :: nat

section \<open>Operations\<close>

fun has_duplicate_source :: "wait_source list \<Rightarrow> wait_source list \<Rightarrow> bool" where
  "has_duplicate_source earlier [] = False"
| "has_duplicate_source earlier (source # rest) =
     (list_ex (\<lambda>e. wo_kind e = wo_kind source \<and> wo_identity e = wo_identity source) earlier \<or>
      has_duplicate_source (earlier @ [source]) rest)"

definition wait_set_new :: "bool \<Rightarrow> wait_source list \<Rightarrow> (wait_set_error, wait_set) result" where
  "wait_set_new reserved sources =
     (if sources = [] \<or> length sources > MAX_WAIT_SET_SOURCES then Inl InvalidSetCapacity
      else if has_duplicate_source [] sources then Inl DuplicateSource
      else if \<not> reserved then Inl SetMetadataExhausted
      else Inr \<lparr>wset_sources = sources, wset_cursor = 0\<rparr>)"

definition index_of :: "nat \<Rightarrow> (wait_set_error, nat) result" where
  "index_of index = ok_or InvalidSetCapacity (try_into 8 index)"

fun select_ready :: "wait_set \<Rightarrow> source_readiness list \<Rightarrow> nat list \<Rightarrow> (wait_set_error, wait_selection option) result" where
  "select_ready self readiness [] = Inr None"
| "select_ready self readiness (step # steps) =
     (let index = (wset_cursor self + step) mod length (wset_sources self) in
      if index < length readiness \<and> readiness ! index = SourceReady
      then rbind (index_of index) (\<lambda>i. Inr (Some (SelectReady i)))
      else select_ready self readiness steps)"

definition wait_set_select ::
    "wait_set \<Rightarrow> source_readiness list \<Rightarrow> bool \<Rightarrow> (wait_set_error, wait_selection option) result" where
  "wait_set_select self readiness deadline_expired =
     (if length readiness \<noteq> length (wset_sources self) then Inl ReadinessMismatch
      else case position readiness_is_terminal readiness of
        Some index \<Rightarrow> rbind (index_of index) (\<lambda>i. Inr (Some (SelectTerminal i (readiness ! index))))
      | None \<Rightarrow>
          if deadline_expired then Inr (Some SelectDeadline)
          else select_ready self readiness [0..<length (wset_sources self)])"

definition record_delivery :: "nat \<Rightarrow> wait_set \<Rightarrow> (wait_set_error, wait_set) result" where
  "record_delivery index self =
     (let len = length (wset_sources self) in
      if index \<ge> len then Inl UnknownSource
      else rbind (index_of ((index + 1) mod len)) (\<lambda>next_index. Inr (self\<lparr>wset_cursor := next_index\<rparr>)))"

section \<open>Well-formed sets\<close>

definition wait_set_ok :: "wait_set \<Rightarrow> bool" where
  "wait_set_ok self \<longleftrightarrow> wset_sources self \<noteq> [] \<and> length (wset_sources self) \<le> MAX_WAIT_SET_SOURCES \<and>
     wset_cursor self < length (wset_sources self) \<and>
     distinct (map (\<lambda>s. (wo_kind s, wo_identity s)) (wset_sources self))"

lemma has_duplicate_source_iff:
  "distinct (map (\<lambda>s. (wo_kind s, wo_identity s)) earlier) \<Longrightarrow>
   has_duplicate_source earlier rest \<longleftrightarrow> \<not> distinct (map (\<lambda>s. (wo_kind s, wo_identity s)) (earlier @ rest))"
proof (induction rest arbitrary: earlier)
  case Nil
  then show ?case by simp
next
  case (Cons source rest)
  let ?key = "\<lambda>s. (wo_kind s, wo_identity s)"
  have dup: "list_ex (\<lambda>e. wo_kind e = wo_kind source \<and> wo_identity e = wo_identity source) earlier \<longleftrightarrow> ?key source \<in> set (map ?key earlier)"
    by (induction earlier) auto
  show ?case
  proof (cases "?key source \<in> set (map ?key earlier)")
    case True
    then show ?thesis using dup by (auto simp: image_iff)
  next
    case False
    then have "distinct (map ?key (earlier @ [source]))" using Cons.prems by auto
    then show ?thesis using Cons.IH dup False by simp
  qed
qed

lemma wait_set_new_iff:
  "wait_set_new reserved sources = Inr self \<longleftrightarrow>
   reserved \<and> self = \<lparr>wset_sources = sources, wset_cursor = 0\<rparr> \<and> wait_set_ok self"
  using has_duplicate_source_iff [of "[]" sources] by (auto simp: wait_set_new_def wait_set_ok_def)

lemma index_of_small: "i < 4 \<Longrightarrow> index_of i = Inr i"
  by (simp add: index_of_def try_into_def)

lemma record_delivery_exact:
  assumes "wait_set_ok self" "i < length (wset_sources self)"
  shows "record_delivery i self = Inr (self\<lparr>wset_cursor := (i + 1) mod length (wset_sources self)\<rparr>)"
    and "wait_set_ok (self\<lparr>wset_cursor := (i + 1) mod length (wset_sources self)\<rparr>)"
proof -
  have "(i + 1) mod length (wset_sources self) < 4"
    using assms by (auto simp: wait_set_ok_def MAX_WAIT_SET_SOURCES_def intro: order.strict_trans2 [OF mod_less_divisor])
  then show "record_delivery i self = Inr (self\<lparr>wset_cursor := (i + 1) mod length (wset_sources self)\<rparr>)"
    using assms(2) by (simp add: record_delivery_def index_of_small Let_def)
  show "wait_set_ok (self\<lparr>wset_cursor := (i + 1) mod length (wset_sources self)\<rparr>)"
    using assms by (auto simp: wait_set_ok_def)
qed

section \<open>Selection\<close>

text \<open>The number of steps the rotation takes from the cursor to a source.\<close>

abbreviation rotation :: "wait_set \<Rightarrow> nat \<Rightarrow> nat" where
  "rotation self i \<equiv> steps_from (length (wset_sources self)) (wset_cursor self) i"

lemma ok_cursor: "wait_set_ok self \<Longrightarrow> wset_cursor self < length (wset_sources self)"
  by (simp add: wait_set_ok_def)

lemma select_ready_find:
  assumes "wait_set_ok self" "length readiness = length (wset_sources self)"
  shows "select_ready self readiness steps = Inr (map_option (\<lambda>s. SelectReady ((wset_cursor self + s) mod length (wset_sources self)))
    (find (\<lambda>s. readiness ! ((wset_cursor self + s) mod length (wset_sources self)) = SourceReady) steps))"
proof (induction steps)
  case Nil
  then show ?case by simp
next
  case (Cons s steps)
  let ?i = "(wset_cursor self + s) mod length (wset_sources self)"
  have "?i < length (wset_sources self)" using assms(1) by (simp add: wait_set_ok_def)
  moreover have "?i < 4" using calculation assms(1) unfolding wait_set_ok_def MAX_WAIT_SET_SOURCES_def by linarith
  ultimately show ?case using Cons assms(2) by (simp add: Let_def index_of_small)
qed

lemma select_ready_probe:
  assumes "wait_set_ok self" "length readiness = length (wset_sources self)"
  shows "select_ready self readiness [0..<length (wset_sources self)] =
    Inr (map_option SelectReady (probe (\<lambda>i. readiness ! i = SourceReady) (length (wset_sources self)) (wset_cursor self)))"
  by (simp add: select_ready_find [OF assms] probe_def option.map_comp comp_def)

lemma select_cases:
  assumes ok: "wait_set_ok self" and len: "length readiness = length (wset_sources self)"
  obtains
    (terminal) i where "i < length readiness" "readiness_is_terminal (readiness ! i)" "\<forall>j<i. \<not> readiness_is_terminal (readiness ! j)"
      "wait_set_select self readiness expired = Inr (Some (SelectTerminal i (readiness ! i)))"
  | (deadline) "\<forall>r\<in>set readiness. \<not> readiness_is_terminal r" "expired" "wait_set_select self readiness expired = Inr (Some SelectDeadline)"
  | (idle) "\<forall>r\<in>set readiness. \<not> readiness_is_terminal r" "\<not> expired" "SourceReady \<notin> set readiness" "wait_set_select self readiness expired = Inr None"
  | (ready) i where "\<forall>r\<in>set readiness. \<not> readiness_is_terminal r" "\<not> expired" "i < length readiness" "readiness ! i = SourceReady"
      "\<forall>j<length readiness. readiness ! j = SourceReady \<longrightarrow> rotation self i \<le> rotation self j"
      "wait_set_select self readiness expired = Inr (Some (SelectReady i))"
proof (cases "position readiness_is_terminal readiness")
  case (Some i)
  have i: "i < length readiness" "readiness_is_terminal (readiness ! i)" "\<forall>j<i. \<not> readiness_is_terminal (readiness ! j)"
    using position_SomeD [OF Some] by simp_all
  then have "i < 4" using ok len by (simp add: wait_set_ok_def MAX_WAIT_SET_SOURCES_def)
  then have "wait_set_select self readiness expired = Inr (Some (SelectTerminal i (readiness ! i)))"
    using Some len by (simp add: wait_set_select_def index_of_small)
  with i show thesis by (rule terminal)
next
  case None
  then have none: "\<forall>r\<in>set readiness. \<not> readiness_is_terminal r" by (simp only: position_None_iff)
  show thesis
  proof (cases expired)
    case True
    then show thesis using deadline none None len by (simp add: wait_set_select_def)
  next
    case False
    let ?n = "length (wset_sources self)"
    have eq: "wait_set_select self readiness expired = select_ready self readiness [0..<?n]"
      using None False len by (simp add: wait_set_select_def)
    note found = select_ready_probe [OF ok len] and cursor = ok_cursor [OF ok]
    show thesis
    proof (cases "probe (\<lambda>i. readiness ! i = SourceReady) ?n (wset_cursor self)")
      case p: None
      then have "\<forall>i<length readiness. readiness ! i \<noteq> SourceReady" using probe_None [OF cursor] len by simp
      then have "SourceReady \<notin> set readiness" by (auto simp: in_set_conv_nth)
      then show thesis using idle none False eq found p by simp
    next
      case p: (Some i)
      then show thesis using ready [of i] none False eq found len probe_Some [OF cursor p] by simp
    qed
  qed
qed

section \<open>The wait-set contract\<close>

text \<open>C34. A wait set built from one to four sources selects, whatever its cursor: the lowest source that closed or was
  revoked if there is one; otherwise the deadline if it has passed; otherwise the ready source that the fewest rotation
  steps from the cursor reach; and nothing exactly when no source is terminal or ready and the deadline has not passed,
  which is the only case in which a server may block.  A readiness list of another length is refused, and recording a
  delivery moves the cursor just past the source that delivered, keeping the set well formed.\<close>
theorem wait_set_selection_exact:
  assumes "wait_set_ok self"
  defines "n \<equiv> length (wset_sources self)"
  defines "quiet \<equiv> \<lambda>readiness. \<forall>r\<in>set readiness. \<not> readiness_is_terminal r"
  shows "(length readiness \<noteq> n \<longrightarrow> wait_set_select self readiness expired = Inl ReadinessMismatch) \<and>
    (length readiness = n \<longrightarrow>
      (\<exists>sel. wait_set_select self readiness expired = Inr sel \<and>
        (sel = None \<longleftrightarrow> quiet readiness \<and> \<not> expired \<and> SourceReady \<notin> set readiness) \<and>
        (sel = Some SelectDeadline \<longleftrightarrow> quiet readiness \<and> expired) \<and>
        (\<forall>i r. sel = Some (SelectTerminal i r) \<longleftrightarrow>
           i < n \<and> r = readiness ! i \<and> readiness_is_terminal r \<and> (\<forall>j<i. \<not> readiness_is_terminal (readiness ! j))) \<and>
        (\<forall>i. sel = Some (SelectReady i) \<longrightarrow> quiet readiness \<and> \<not> expired \<and> i < n \<and> readiness ! i = SourceReady \<and>
           (\<forall>j<n. readiness ! j = SourceReady \<longrightarrow> rotation self i \<le> rotation self j)))) \<and>
    (case record_delivery i self of
       Inl e \<Rightarrow> e = UnknownSource \<and> n \<le> i
     | Inr self' \<Rightarrow> i < n \<and> wait_set_ok self' \<and> wset_sources self' = wset_sources self \<and> rotation self' i = n - 1)"
proof (intro conjI impI)
  show "length readiness \<noteq> n \<Longrightarrow> wait_set_select self readiness expired = Inl ReadinessMismatch"
    by (simp add: wait_set_select_def n_def)
next
  assume len: "length readiness = n"
  have first: "i = j" if "\<forall>k<i. \<not> readiness_is_terminal (readiness ! k)" "\<forall>k<j. \<not> readiness_is_terminal (readiness ! k)"
    "readiness_is_terminal (readiness ! i)" "readiness_is_terminal (readiness ! j)" for i j
    using that by (meson linorder_neqE_nat)
  show "\<exists>sel. wait_set_select self readiness expired = Inr sel \<and>
        (sel = None \<longleftrightarrow> quiet readiness \<and> \<not> expired \<and> SourceReady \<notin> set readiness) \<and>
        (sel = Some SelectDeadline \<longleftrightarrow> quiet readiness \<and> expired) \<and>
        (\<forall>i r. sel = Some (SelectTerminal i r) \<longleftrightarrow>
           i < n \<and> r = readiness ! i \<and> readiness_is_terminal r \<and> (\<forall>j<i. \<not> readiness_is_terminal (readiness ! j))) \<and>
        (\<forall>i. sel = Some (SelectReady i) \<longrightarrow> quiet readiness \<and> \<not> expired \<and> i < n \<and> readiness ! i = SourceReady \<and>
           (\<forall>j<n. readiness ! j = SourceReady \<longrightarrow> rotation self i \<le> rotation self j))"
    using assms(1) len [unfolded n_def]
  proof (cases rule: select_cases [where expired = expired])
    case (terminal i)
    then show ?thesis using first len by (auto simp: quiet_def)
  qed (use len nth_mem in \<open>fastforce simp: quiet_def\<close>)+
next
  show "case record_delivery i self of Inl e \<Rightarrow> e = UnknownSource \<and> n \<le> i
     | Inr self' \<Rightarrow> i < n \<and> wait_set_ok self' \<and> wset_sources self' = wset_sources self \<and> rotation self' i = n - 1"
  proof (cases "i < n")
    case False
    then show ?thesis by (simp add: record_delivery_def n_def Let_def)
  next
    case True
    then show ?thesis using record_delivery_exact [OF assms(1), of i] steps_from_passed [of i n] by (simp add: n_def)
  qed
qed

section \<open>Fairness\<close>

text \<open>A server that waits on a sequence of observations and delivers whatever is selected.\<close>

fun deliveries :: "wait_set \<Rightarrow> source_readiness list list \<Rightarrow> nat list" where
  "deliveries self [] = []"
| "deliveries self (readiness # rest) =
     (case wait_set_select self readiness False of
        Inr (Some (SelectReady i)) \<Rightarrow>
          (case record_delivery i self of Inr self' \<Rightarrow> i # deliveries self' rest | Inl _ \<Rightarrow> deliveries self rest)
      | _ \<Rightarrow> deliveries self rest)"

lemma delivered_within_rotation:
  assumes "wait_set_ok self" "k < length (wset_sources self)" "rotation self k < length rounds"
    and "\<forall>r\<in>set rounds. length r = length (wset_sources self) \<and> (\<forall>x\<in>set r. \<not> readiness_is_terminal x) \<and> r ! k = SourceReady"
  shows "k \<in> set (deliveries self rounds)"
  using assms
proof (induction rounds arbitrary: self)
  case Nil
  then show ?case by simp
next
  case (Cons r rounds)
  have r: "length r = length (wset_sources self)" "\<forall>x\<in>set r. \<not> readiness_is_terminal x" "r ! k = SourceReady" using Cons.prems(4) by simp_all
  obtain i where i: "i < length r" "r ! i = SourceReady" "rotation self i \<le> rotation self k"
    "wait_set_select self r False = Inr (Some (SelectReady i))"
    using Cons.prems(1) r(1)
  proof (cases rule: select_cases [where expired = False])
    case (terminal i)
    then show thesis using r(2) nth_mem by blast
  next
    case idle
    then show thesis using r Cons.prems(2) nth_mem by metis
  next
    case (ready i)
    then show thesis using that r Cons.prems(2) by simp
  qed simp
  let ?self' = "self\<lparr>wset_cursor := (i + 1) mod length (wset_sources self)\<rparr>"
  have step: "deliveries self (r # rounds) = i # deliveries ?self' rounds" "wait_set_ok ?self'"
    using record_delivery_exact [OF Cons.prems(1)] i r(1) by simp_all
  show ?case
  proof (cases "i = k")
    case True
    then show ?thesis unfolding step(1) by simp
  next
    case False
    have "rotation self i \<noteq> rotation self k"
      using steps_from_inj [OF ok_cursor [OF Cons.prems(1)] _ Cons.prems(2)] False i(1) r(1) by metis
    then have "rotation ?self' k < length rounds"
      using steps_from_advance [OF ok_cursor [OF Cons.prems(1)] _ Cons.prems(2)] i r(1) Cons.prems(3) by simp
    then show ?thesis using Cons.IH [OF step(2)] Cons.prems(2,4) unfolding step(1) by simp
  qed
qed

text \<open>C35. No ready source starves: a source that is ready at every one of as many consecutive waits as the set has
  sources, none of which observes a terminal source, is delivered at one of them, whatever the other sources do and
  wherever the rotation starts.\<close>
theorem wait_set_fair:
  assumes "wait_set_ok self" "k < length (wset_sources self)" "length rounds = length (wset_sources self)"
    and "\<forall>r\<in>set rounds. length r = length (wset_sources self) \<and> (\<forall>x\<in>set r. \<not> readiness_is_terminal x) \<and> r ! k = SourceReady"
  shows "k \<in> set (deliveries self rounds)"
  using delivered_within_rotation [OF assms(1,2) _ assms(4)] steps_from_reaches(2) [OF ok_cursor [OF assms(1)] assms(2)] assms(3) by simp

section \<open>Witnesses\<close>

definition two_sources :: wait_set where
  "two_sources = \<lparr>wset_sources = [\<lparr>wo_kind = EndpointSource, wo_identity = 1, wo_generation = 1\<rparr>,
     \<lparr>wo_kind = PacketReceiveSource, wo_identity = 1, wo_generation = 1\<rparr>], wset_cursor = 0\<rparr>"

lemma two_sources_ok: "wait_set_ok two_sources"
  by (simp add: two_sources_def wait_set_ok_def MAX_WAIT_SET_SOURCES_def)

theorem wait_set_selection_exact_witness:
  "wait_set_select two_sources [SourceReady, SourceClosed] True = Inr (Some (SelectTerminal 1 SourceClosed)) \<and>
   (\<exists>self'. record_delivery 0 two_sources = Inr self' \<and> wait_set_ok self' \<and> rotation self' 0 = 1)"
proof -
  note exact = wait_set_selection_exact [OF two_sources_ok, where expired = True and i = 0 and readiness = "[SourceReady, SourceClosed]"]
  have "wait_set_select two_sources [SourceReady, SourceClosed] True = Inr (Some (SelectTerminal 1 SourceClosed))"
    using exact by (auto simp: two_sources_def readiness_is_terminal_def)
  moreover obtain self' where "record_delivery 0 two_sources = Inr self'"
    by (simp add: record_delivery_def two_sources_def index_of_def try_into_def)
  ultimately show ?thesis using exact by (auto simp: two_sources_def)
qed

theorem wait_set_fair_witness:
  "1 \<in> set (deliveries two_sources [[SourceReady, SourceReady], [SourceReady, SourceReady]])"
  using wait_set_fair [OF two_sources_ok, of 1 "[[SourceReady, SourceReady], [SourceReady, SourceReady]]"]
  by (simp add: two_sources_def readiness_is_terminal_def)

end
