(* ===== verification/Task_Scheduler.thy ===== *)
theory Task_Scheduler
  imports Call_Chain Rotation Wire
begin

unbundle bit_operations_syntax

text \<open>
  The cooperative task scheduler (\<open>troe-task/src/lib.rs\<close>, \<open>Scheduler\<close>): task records
  with their capabilities, stack and isolation resources, the single-CPU dispatch policy,
  every lifecycle transition, reaping and the transactional teardown. Operations that fail
  before writing return an error without a state; reaping and teardown can fail after a
  write and return both. A task record is its snapshot.
\<close>

section \<open>State\<close>

definition MAX_TASKS :: nat where "MAX_TASKS = 65536"

record wait_key =
  wk_slot :: nat
  wk_generation :: nat

definition capability_union :: "u32 \<Rightarrow> u32 \<Rightarrow> u32" where
  "capability_union a b = a OR b"

definition capability_contains :: "u32 \<Rightarrow> u32 \<Rightarrow> bool" where
  "capability_contains self requested \<longleftrightarrow> self AND requested = requested"

record stack_resource =
  st_slot :: nat
  st_mapped_pages :: nat

record isolation_resource =
  io_slot :: nat
  io_table_pages :: nat
  io_private_pages :: nat
  io_handles :: nat

datatype task_fault =
    FaultTranslation | FaultPermission | FaultIllegalInstruction | FaultInvalidCall | FaultExecutionLeaseExpired
  | FaultServiceCallLimitExceeded

datatype task_state = TaskReady | TaskRunning | TaskBlocked wait_key | TaskExited | TaskFaulted

datatype task_error =
    TaskInvalidCapacity | TaskMetadataExhausted | TaskCapacityExhausted | TaskIdentityExhausted | EmptyStack
  | EmptyAddressSpace | StackInUse | AddressSpaceInUse | UnknownTask | TaskAlreadyRunning | TaskInvalidState
  | TaskAccountingOverflow

definition stack_new :: "nat \<Rightarrow> nat \<Rightarrow> (task_error, stack_resource) result" where
  "stack_new slot mapped_pages =
     (if mapped_pages = 0 then Inl EmptyStack else Inr \<lparr>st_slot = slot, st_mapped_pages = mapped_pages\<rparr>)"

definition isolation_new :: "nat \<Rightarrow> nat \<Rightarrow> nat \<Rightarrow> nat \<Rightarrow> (task_error, isolation_resource) result" where
  "isolation_new slot table_pages private_pages handles =
     (if table_pages = 0 \<or> private_pages = 0 then Inl EmptyAddressSpace
      else Inr \<lparr>io_slot = slot, io_table_pages = table_pages, io_private_pages = private_pages, io_handles = handles\<rparr>)"

definition isolation_total_pages :: "isolation_resource \<Rightarrow> nat" where
  "isolation_total_pages self = saturating_add 64 (io_table_pages self) (io_private_pages self)"

record task_snapshot =
  tk_id :: task_id
  tk_state :: task_state
  tk_capabilities :: u32
  tk_stack :: stack_resource
  tk_dispatches :: nat
  tk_yields :: nat
  tk_preemptions :: nat
  tk_exit_status :: "nat option"
  tk_isolation :: "isolation_resource option"
  tk_fault :: "task_fault option"

record reaped_task =
  rp_id :: task_id
  rp_stack :: stack_resource
  rp_exit_status :: nat
  rp_isolation :: "isolation_resource option"
  rp_fault :: "task_fault option"

datatype 'r teardown_error = TeardownTask task_error | TeardownRevocation 'r

record scheduler =
  sc_records :: "task_snapshot list"
  sc_capacity :: nat
  sc_cursor :: nat
  sc_current :: "task_id option"
  sc_next_id :: nat
  sc_spawned :: nat
  sc_reaped :: nat
  sc_total_yields :: nat
  sc_total_preemptions :: nat
  sc_total_blocks :: nat
  sc_total_wakes :: nat
  sc_contained_faults :: nat

definition scheduler_new :: "bool \<Rightarrow> nat \<Rightarrow> (task_error, scheduler) result" where
  "scheduler_new reserved capacity =
     (if capacity = 0 \<or> capacity > MAX_TASKS then Inl TaskInvalidCapacity
      else if \<not> reserved then Inl TaskMetadataExhausted
      else Inr \<lparr>sc_records = [], sc_capacity = capacity, sc_cursor = 0, sc_current = None, sc_next_id = 1, sc_spawned = 0,
             sc_reaped = 0, sc_total_yields = 0, sc_total_preemptions = 0, sc_total_blocks = 0, sc_total_wakes = 0,
             sc_contained_faults = 0\<rparr>)"

section \<open>Admission\<close>

definition spawn_with_isolation ::
    "bool \<Rightarrow> u32 \<Rightarrow> stack_resource \<Rightarrow> isolation_resource option \<Rightarrow> scheduler \<Rightarrow> (task_error, task_id \<times> scheduler) result" where
  "spawn_with_isolation reserved capabilities stack isolation s =
     (if length (sc_records s) = sc_capacity s then Inl TaskCapacityExhausted
      else if list_ex (\<lambda>r. st_slot (tk_stack r) = st_slot stack) (sc_records s) then Inl StackInUse
      else if (case isolation of None \<Rightarrow> False
               | Some i \<Rightarrow> list_ex (\<lambda>r. case tk_isolation r of None \<Rightarrow> False | Some owned \<Rightarrow> io_slot owned = io_slot i) (sc_records s))
      then Inl AddressSpaceInUse
      else
        let tid = sc_next_id s in
        rbind (ok_or TaskIdentityExhausted (checked_add 32 (sc_next_id s) 1)) (\<lambda>next_id.
        rbind (ok_or TaskAccountingOverflow (checked_add 32 (sc_spawned s) 1)) (\<lambda>spawned.
        if \<not> reserved then Inl TaskMetadataExhausted
        else Inr (tid, s\<lparr>sc_records := sc_records s @
               [\<lparr>tk_id = tid, tk_state = TaskReady, tk_capabilities = capabilities, tk_stack = stack, tk_dispatches = 0,
                 tk_yields = 0, tk_preemptions = 0, tk_exit_status = None, tk_isolation = isolation, tk_fault = None\<rparr>],
               sc_next_id := next_id, sc_spawned := spawned\<rparr>))))"

definition task_spawn :: "bool \<Rightarrow> u32 \<Rightarrow> stack_resource \<Rightarrow> scheduler \<Rightarrow> (task_error, task_id \<times> scheduler) result" where
  "task_spawn reserved capabilities stack = spawn_with_isolation reserved capabilities stack None"

definition task_spawn_isolated ::
    "bool \<Rightarrow> u32 \<Rightarrow> stack_resource \<Rightarrow> isolation_resource \<Rightarrow> scheduler \<Rightarrow> (task_error, task_id \<times> scheduler) result" where
  "task_spawn_isolated reserved capabilities stack isolation = spawn_with_isolation reserved capabilities stack (Some isolation)"

section \<open>Dispatch\<close>

definition run_task :: "nat \<Rightarrow> nat \<Rightarrow> scheduler \<Rightarrow> scheduler" where
  "run_task index dispatches s =
     (let r = sc_records s ! index in
      s\<lparr>sc_records := (sc_records s)[index := r\<lparr>tk_dispatches := dispatches, tk_state := TaskRunning\<rparr>],
        sc_current := Some (tk_id r), sc_cursor := (index + 1) mod length (sc_records s)\<rparr>)"

definition dispatchable :: "u32 \<Rightarrow> task_snapshot \<Rightarrow> bool" where
  "dispatchable required r \<longleftrightarrow> tk_state r = TaskReady \<and> capability_contains (tk_capabilities r) required"

fun dispatch_loop :: "u32 \<Rightarrow> scheduler \<Rightarrow> nat list \<Rightarrow> (task_error, task_id option \<times> scheduler) result" where
  "dispatch_loop required s [] = Inr (None, s)"
| "dispatch_loop required s (offset # offsets) =
     (let index = (sc_cursor s + offset) mod length (sc_records s); r = sc_records s ! index in
      if \<not> dispatchable required r then dispatch_loop required s offsets
      else rbind (ok_or TaskAccountingOverflow (checked_add 32 (tk_dispatches r) 1)) (\<lambda>dispatches.
        Inr (Some (tk_id r), run_task index dispatches s)))"

definition dispatch_next :: "u32 \<Rightarrow> scheduler \<Rightarrow> (task_error, task_id option \<times> scheduler) result" where
  "dispatch_next required s =
     (if sc_current s \<noteq> None then Inl TaskAlreadyRunning
      else dispatch_loop required s [0..<length (sc_records s)])"

definition task_index :: "task_id \<Rightarrow> scheduler \<Rightarrow> nat option" where
  "task_index tid s = position (\<lambda>r. tk_id r = tid) (sc_records s)"

definition task_dispatch :: "task_id \<Rightarrow> u32 \<Rightarrow> scheduler \<Rightarrow> (task_error, task_id \<times> scheduler) result" where
  "task_dispatch tid required s =
     (if sc_current s \<noteq> None then Inl TaskAlreadyRunning
      else rbind (ok_or UnknownTask (task_index tid s)) (\<lambda>index.
        let r = sc_records s ! index in
        if \<not> dispatchable required r then Inl TaskInvalidState
        else rbind (ok_or TaskAccountingOverflow (checked_add 32 (tk_dispatches r) 1)) (\<lambda>dispatches.
          Inr (tid, run_task index dispatches s))))"

section \<open>Transitions\<close>

text \<open>\<open>record_mut\<close> followed by the caller's checks and writes on that one record.\<close>

definition with_record :: "task_id \<Rightarrow> (task_snapshot \<Rightarrow> (task_error, task_snapshot) result) \<Rightarrow> scheduler \<Rightarrow> (task_error, scheduler) result" where
  "with_record tid f s =
     rbind (ok_or UnknownTask (task_index tid s)) (\<lambda>index.
     rbind (f (sc_records s ! index)) (\<lambda>r. Inr (s\<lparr>sc_records := (sc_records s)[index := r]\<rparr>)))"

definition yield_current :: "task_id \<Rightarrow> scheduler \<Rightarrow> (task_error, scheduler) result" where
  "yield_current tid s =
     (if sc_current s \<noteq> Some tid then Inl TaskInvalidState
      else rbind (ok_or TaskAccountingOverflow (checked_add 32 (sc_total_yields s) 1)) (\<lambda>total_yields.
      rbind (with_record tid (\<lambda>r.
          if tk_state r \<noteq> TaskRunning then Inl TaskInvalidState
          else rbind (ok_or TaskAccountingOverflow (checked_add 32 (tk_yields r) 1)) (\<lambda>yields.
            Inr (r\<lparr>tk_yields := yields, tk_state := TaskReady\<rparr>))) s) (\<lambda>s.
      Inr (s\<lparr>sc_total_yields := total_yields, sc_current := None\<rparr>))))"

definition preempt_current :: "task_id \<Rightarrow> scheduler \<Rightarrow> (task_error, scheduler) result" where
  "preempt_current tid s =
     (if sc_current s \<noteq> Some tid then Inl TaskInvalidState
      else rbind (ok_or TaskAccountingOverflow (checked_add 32 (sc_total_preemptions s) 1)) (\<lambda>total_preemptions.
      rbind (with_record tid (\<lambda>r.
          if tk_state r \<noteq> TaskRunning then Inl TaskInvalidState
          else rbind (ok_or TaskAccountingOverflow (checked_add 32 (tk_preemptions r) 1)) (\<lambda>preemptions.
            Inr (r\<lparr>tk_preemptions := preemptions, tk_state := TaskReady\<rparr>))) s) (\<lambda>s.
      Inr (s\<lparr>sc_total_preemptions := total_preemptions, sc_current := None\<rparr>))))"

definition block_current :: "task_id \<Rightarrow> wait_key \<Rightarrow> scheduler \<Rightarrow> (task_error, scheduler) result" where
  "block_current tid wait s =
     (if sc_current s \<noteq> Some tid then Inl TaskInvalidState
      else rbind (ok_or TaskAccountingOverflow (checked_add 32 (sc_total_blocks s) 1)) (\<lambda>total_blocks.
      rbind (with_record tid (\<lambda>r.
          if tk_state r \<noteq> TaskRunning \<or> tk_isolation r = None then Inl TaskInvalidState
          else Inr (r\<lparr>tk_state := TaskBlocked wait\<rparr>)) s) (\<lambda>s.
      Inr (s\<lparr>sc_current := None, sc_total_blocks := total_blocks\<rparr>))))"

definition wake_blocked :: "task_id \<Rightarrow> wait_key \<Rightarrow> scheduler \<Rightarrow> (task_error, scheduler) result" where
  "wake_blocked tid wait s =
     rbind (ok_or TaskAccountingOverflow (checked_add 32 (sc_total_wakes s) 1)) (\<lambda>total_wakes.
     rbind (with_record tid (\<lambda>r.
         if tk_state r \<noteq> TaskBlocked wait then Inl TaskInvalidState else Inr (r\<lparr>tk_state := TaskReady\<rparr>)) s) (\<lambda>s.
     Inr (s\<lparr>sc_total_wakes := total_wakes\<rparr>)))"

definition resize_isolation :: "isolation_resource \<Rightarrow> task_snapshot \<Rightarrow> (task_error, task_snapshot) result" where
  "resize_isolation replacement r =
     (case tk_isolation r of
        None \<Rightarrow> Inl TaskInvalidState
      | Some current \<Rightarrow>
          if io_slot current \<noteq> io_slot replacement \<or> io_handles current \<noteq> io_handles replacement then Inl TaskInvalidState
          else Inr (r\<lparr>tk_isolation := Some replacement\<rparr>))"

definition resize_current_isolation :: "task_id \<Rightarrow> isolation_resource \<Rightarrow> scheduler \<Rightarrow> (task_error, scheduler) result" where
  "resize_current_isolation tid replacement s =
     (if sc_current s \<noteq> Some tid then Inl TaskInvalidState
      else with_record tid (\<lambda>r. if tk_state r \<noteq> TaskRunning then Inl TaskInvalidState else resize_isolation replacement r) s)"

definition resize_ready_isolation :: "task_id \<Rightarrow> isolation_resource \<Rightarrow> scheduler \<Rightarrow> (task_error, scheduler) result" where
  "resize_ready_isolation tid replacement s =
     (if sc_current s = Some tid then Inl TaskInvalidState
      else with_record tid (\<lambda>r. if tk_state r \<noteq> TaskReady then Inl TaskInvalidState else resize_isolation replacement r) s)"

definition exit_current :: "task_id \<Rightarrow> nat \<Rightarrow> scheduler \<Rightarrow> (task_error, scheduler) result" where
  "exit_current tid status s =
     (if sc_current s \<noteq> Some tid then Inl TaskInvalidState
      else rbind (with_record tid (\<lambda>r.
          if tk_state r \<noteq> TaskRunning then Inl TaskInvalidState
          else Inr (r\<lparr>tk_state := TaskExited, tk_exit_status := Some status\<rparr>)) s) (\<lambda>s.
      Inr (s\<lparr>sc_current := None\<rparr>)))"

definition cancel_ready :: "task_id \<Rightarrow> nat \<Rightarrow> scheduler \<Rightarrow> (task_error, scheduler) result" where
  "cancel_ready tid status = with_record tid (\<lambda>r.
     if tk_state r \<noteq> TaskReady \<or> tk_isolation r = None then Inl TaskInvalidState
     else Inr (r\<lparr>tk_state := TaskExited, tk_exit_status := Some status\<rparr>))"

definition is_blocked :: "task_snapshot \<Rightarrow> bool" where
  "is_blocked r = (case tk_state r of TaskBlocked _ \<Rightarrow> True | _ \<Rightarrow> False)"

definition cancel_blocked :: "task_id \<Rightarrow> nat \<Rightarrow> scheduler \<Rightarrow> (task_error, scheduler) result" where
  "cancel_blocked tid status = with_record tid (\<lambda>r.
     if \<not> is_blocked r \<or> tk_isolation r = None then Inl TaskInvalidState
     else Inr (r\<lparr>tk_state := TaskExited, tk_exit_status := Some status\<rparr>))"

definition fault_current :: "task_id \<Rightarrow> task_fault \<Rightarrow> scheduler \<Rightarrow> (task_error, scheduler) result" where
  "fault_current tid fault s =
     (if sc_current s \<noteq> Some tid then Inl TaskInvalidState
      else rbind (ok_or TaskAccountingOverflow (checked_add 32 (sc_contained_faults s) 1)) (\<lambda>contained_faults.
      rbind (with_record tid (\<lambda>r.
          if tk_state r \<noteq> TaskRunning \<or> tk_isolation r = None then Inl TaskInvalidState
          else Inr (r\<lparr>tk_state := TaskFaulted, tk_exit_status := Some 128, tk_fault := Some fault\<rparr>)) s) (\<lambda>s.
      Inr (s\<lparr>sc_current := None, sc_contained_faults := contained_faults\<rparr>))))"

definition fault_blocked :: "task_id \<Rightarrow> task_fault \<Rightarrow> scheduler \<Rightarrow> (task_error, scheduler) result" where
  "fault_blocked tid fault s =
     rbind (ok_or TaskAccountingOverflow (checked_add 32 (sc_contained_faults s) 1)) (\<lambda>contained_faults.
     rbind (with_record tid (\<lambda>r.
         if \<not> is_blocked r \<or> tk_isolation r = None then Inl TaskInvalidState
         else Inr (r\<lparr>tk_state := TaskFaulted, tk_exit_status := Some 128, tk_fault := Some fault\<rparr>)) s) (\<lambda>s.
     Inr (s\<lparr>sc_contained_faults := contained_faults\<rparr>)))"

section \<open>Reaping and teardown\<close>

definition task_reap :: "task_id \<Rightarrow> scheduler \<Rightarrow> (task_error, reaped_task) result \<times> scheduler" where
  "task_reap tid s =
     (case task_index tid s of
        None \<Rightarrow> (Inl UnknownTask, s)
      | Some index \<Rightarrow>
          let r = sc_records s ! index in
          if \<not> (tk_state r = TaskExited \<or> tk_state r = TaskFaulted) then (Inl TaskInvalidState, s)
          else case checked_add 32 (sc_reaped s) 1 of
            None \<Rightarrow> (Inl TaskAccountingOverflow, s)
          | Some reaped \<Rightarrow>
              let records = take index (sc_records s) @ drop (Suc index) (sc_records s);
                  cursor = (if records = [] then 0
                            else if index < sc_cursor s then sc_cursor s - 1
                            else if sc_cursor s \<ge> length records then 0 else sc_cursor s);
                  s' = s\<lparr>sc_records := records, sc_reaped := reaped, sc_cursor := cursor\<rparr>
              in case tk_exit_status r of
                None \<Rightarrow> (Inl TaskInvalidState, s')
              | Some status \<Rightarrow>
                  (Inr \<lparr>rp_id = tid, rp_stack = tk_stack r, rp_exit_status = status, rp_isolation = tk_isolation r,
                     rp_fault = tk_fault r\<rparr>, s'))"

definition task_snapshot_of :: "task_id \<Rightarrow> scheduler \<Rightarrow> (task_error, task_snapshot) result" where
  "task_snapshot_of tid s = ok_or UnknownTask (map_option (\<lambda>index. sc_records s ! index) (task_index tid s))"

definition terminalize :: "task_id \<Rightarrow> nat \<Rightarrow> task_snapshot \<Rightarrow> scheduler \<Rightarrow> (task_error, scheduler) result" where
  "terminalize tid rollback_status snapshot s =
     (case tk_state snapshot of
        TaskReady \<Rightarrow> cancel_ready tid rollback_status s
      | TaskRunning \<Rightarrow> exit_current tid rollback_status s
      | TaskBlocked _ \<Rightarrow> cancel_blocked tid rollback_status s
      | TaskExited \<Rightarrow> Inr s
      | TaskFaulted \<Rightarrow> Inr s)"

definition terminate_revoke_and_reap ::
    "task_id \<Rightarrow> nat \<Rightarrow> (task_snapshot \<Rightarrow> 'w \<Rightarrow> ('r, unit) result \<times> 'w) \<Rightarrow> scheduler \<Rightarrow> 'w \<Rightarrow>
     ('r teardown_error, reaped_task) result \<times> scheduler \<times> 'w" where
  "terminate_revoke_and_reap tid rollback_status revoke s w =
     (case task_snapshot_of tid s of
        Inl e \<Rightarrow> (Inl (TeardownTask e), s, w)
      | Inr snapshot \<Rightarrow>
          if tk_isolation snapshot = None then (Inl (TeardownTask TaskInvalidState), s, w)
          else (case terminalize tid rollback_status snapshot s of
            Inl e \<Rightarrow> (Inl (TeardownTask e), s, w)
          | Inr s \<Rightarrow>
              (case task_snapshot_of tid s of
                 Inl e \<Rightarrow> (Inl (TeardownTask e), s, w)
               | Inr terminal \<Rightarrow>
                   (case revoke terminal w of
                      (Inl e, w) \<Rightarrow> (Inl (TeardownRevocation e), s, w)
                    | (Inr _, w) \<Rightarrow>
                        (case task_reap tid s of (r, s) \<Rightarrow> (map_err TeardownTask r, s, w))))))"

definition first_available_isolation_slot :: "nat \<Rightarrow> nat \<Rightarrow> scheduler \<Rightarrow> nat option" where
  "first_available_isolation_slot start stop s =
     find (\<lambda>candidate. list_all (\<lambda>r. st_slot (tk_stack r) \<noteq> candidate \<and>
         (case tk_isolation r of None \<Rightarrow> True | Some isolation \<Rightarrow> io_slot isolation \<noteq> candidate)) (sc_records s)) [start..<stop]"

record task_stats =
  ts_spawned :: nat
  ts_live_records :: nat
  ts_reaped :: nat
  ts_yields :: nat
  ts_preemptions :: nat
  ts_blocks :: nat
  ts_wakes :: nat
  ts_blocked_tasks :: nat
  ts_owned_stack_pages :: nat
  ts_owned_address_spaces :: nat
  ts_owned_isolation_pages :: nat
  ts_owned_handles :: nat
  ts_contained_faults :: nat

definition saturating_into :: "nat \<Rightarrow> nat \<Rightarrow> nat" where
  "saturating_into w n = (case try_into w n of Some m \<Rightarrow> m | None \<Rightarrow> 2 ^ w - 1)"

definition isolation_sums :: "task_snapshot list \<Rightarrow> nat \<times> nat" where
  "isolation_sums records =
     fold (\<lambda>r (pages, handles). case tk_isolation r of
         Some resource \<Rightarrow> (saturating_add 64 pages (isolation_total_pages resource), saturating_add 32 handles (io_handles resource))
       | None \<Rightarrow> (pages, handles)) records (0, 0)"

definition scheduler_stats :: "scheduler \<Rightarrow> task_stats" where
  "scheduler_stats s =
     (let owned_stack_pages = fold (\<lambda>r total. saturating_add 64 total (st_mapped_pages (tk_stack r))) (sc_records s) 0;
          owned_address_spaces = count_if (\<lambda>r. tk_isolation r \<noteq> None) (sc_records s);
          blocked_tasks = count_if is_blocked (sc_records s);
          (owned_isolation_pages, owned_handles) = isolation_sums (sc_records s)
      in \<lparr>ts_spawned = sc_spawned s, ts_live_records = saturating_into 32 (length (sc_records s)), ts_reaped = sc_reaped s,
          ts_yields = sc_total_yields s, ts_preemptions = sc_total_preemptions s, ts_blocks = sc_total_blocks s,
          ts_wakes = sc_total_wakes s, ts_blocked_tasks = saturating_into 32 blocked_tasks,
          ts_owned_stack_pages = owned_stack_pages, ts_owned_address_spaces = saturating_into 32 owned_address_spaces,
          ts_owned_isolation_pages = owned_isolation_pages, ts_owned_handles = owned_handles,
          ts_contained_faults = sc_contained_faults s\<rparr>)"

end
