(* ===== verification/Task_Scheduler_Contract.thy ===== *)
theory Task_Scheduler_Contract
  imports Task_Scheduler
begin

text \<open>
  What the task scheduler promises: one running task at most, exclusive stack and
  address-space slots, exact record accounting, identities that are never reused, a closed
  lifecycle, round-robin service of ready tasks, and a teardown that revokes before it
  reaps. Every transition is one record update, so one lemma carries the invariant through
  all of them.
\<close>

section \<open>Invariant\<close>

definition task_view :: "scheduler \<Rightarrow> task_id \<Rightarrow> task_snapshot option" where
  "task_view s tid = map_of (map (\<lambda>r. (tk_id r, r)) (sc_records s)) tid"

definition task_terminal :: "task_snapshot \<Rightarrow> bool" where
  "task_terminal r \<longleftrightarrow> tk_state r = TaskExited \<or> tk_state r = TaskFaulted"

definition record_ok :: "task_snapshot \<Rightarrow> bool" where
  "record_ok r \<longleftrightarrow> (tk_exit_status r \<noteq> None \<longleftrightarrow> task_terminal r) \<and> (tk_fault r \<noteq> None \<longleftrightarrow> tk_state r = TaskFaulted) \<and>
     (is_blocked r \<or> tk_state r = TaskFaulted \<longrightarrow> tk_isolation r \<noteq> None)"

definition isolation_slot :: "task_snapshot \<Rightarrow> nat list" where
  "isolation_slot r = (case tk_isolation r of None \<Rightarrow> [] | Some i \<Rightarrow> [io_slot i])"

definition records_ok :: "task_snapshot list \<Rightarrow> bool" where
  "records_ok rs \<longleftrightarrow> distinct (map tk_id rs) \<and> distinct (map (\<lambda>r. st_slot (tk_stack r)) rs) \<and>
     distinct (concat (map isolation_slot rs)) \<and> (\<forall>r\<in>set rs. record_ok r)"

definition sched_ok :: "scheduler \<Rightarrow> bool" where
  "sched_ok s \<longleftrightarrow> records_ok (sc_records s) \<and> length (sc_records s) \<le> sc_capacity s \<and> sc_capacity s \<le> MAX_TASKS \<and>
     (\<forall>r\<in>set (sc_records s). tk_id r < sc_next_id s) \<and> sc_next_id s = sc_spawned s + 1 \<and> sc_next_id s < 2 ^ 32 \<and>
     sc_reaped s + length (sc_records s) = sc_spawned s \<and>
     (\<forall>r\<in>set (sc_records s). tk_state r = TaskRunning \<longleftrightarrow> sc_current s = Some (tk_id r)) \<and>
     (\<forall>tid. sc_current s = Some tid \<longrightarrow> tid \<in> tk_id ` set (sc_records s)) \<and>
     (if sc_records s = [] then sc_cursor s = 0 else sc_cursor s < length (sc_records s)) \<and>
     count_if is_blocked (sc_records s) + sc_total_wakes s \<le> sc_total_blocks s"

lemma sched_ok_records: "sched_ok s \<Longrightarrow> records_ok (sc_records s)"
  by (simp add: sched_ok_def)

lemma sched_ok_new: "scheduler_new reserved capacity = Inr s \<Longrightarrow> sched_ok s \<and> sc_records s = []"
  by (auto simp: scheduler_new_def sched_ok_def records_ok_def split: if_splits)

lemma task_view_Some:
  assumes "records_ok (sc_records s)"
  shows "task_view s tid = Some r \<longleftrightarrow> r \<in> set (sc_records s) \<and> tk_id r = tid"
proof -
  have "distinct (map fst (map (\<lambda>r. (tk_id r, r)) (sc_records s)))" using assms by (simp add: records_ok_def comp_def)
  then show ?thesis unfolding task_view_def by (auto simp: map_of_eq_Some_iff)
qed

lemma task_view_None: "task_view s tid = None \<longleftrightarrow> tid \<notin> tk_id ` set (sc_records s)"
  by (auto simp: task_view_def map_of_eq_None_iff image_image)

lemma task_index_Some:
  assumes "records_ok (sc_records s)"
  shows "task_index tid s = Some i \<longleftrightarrow> i < length (sc_records s) \<and> tk_id (sc_records s ! i) = tid"
proof
  assume "task_index tid s = Some i"
  then show "i < length (sc_records s) \<and> tk_id (sc_records s ! i) = tid"
    unfolding task_index_def by (auto dest: position_SomeD)
next
  assume i: "i < length (sc_records s) \<and> tk_id (sc_records s ! i) = tid"
  have "j = i" if "j < length (sc_records s)" "tk_id (sc_records s ! j) = tid" for j
    using assms i that nth_eq_iff_index_eq [of "map tk_id (sc_records s)" j i] by (simp add: records_ok_def)
  then have "tk_id (sc_records s ! j) \<noteq> tid" if "j < i" for j using that i by (metis less_irrefl order.strict_trans)
  then show "task_index tid s = Some i" unfolding task_index_def using i by (intro position_unique) auto
qed

lemma task_index_None: "task_index tid s = None \<longleftrightarrow> tid \<notin> tk_id ` set (sc_records s)"
  unfolding task_index_def by (simp only: position_None_iff) auto

lemma task_index_view:
  assumes "records_ok (sc_records s)" "task_index tid s = Some i"
  shows "task_view s tid = Some (sc_records s ! i)"
  using assms task_index_Some [OF assms(1)] task_view_Some [OF assms(1)] by auto

lemma view_index:
  assumes "records_ok (sc_records s)" "task_view s tid = Some r"
  obtains i where "task_index tid s = Some i" "sc_records s ! i = r" "i < length (sc_records s)"
  using assms task_index_Some [OF assms(1)] task_view_Some [OF assms(1)] by (metis in_set_conv_nth)

section \<open>One record at a time\<close>

lemma records_ok_update:
  assumes "records_ok rs" "i < length rs" "record_ok r'" "tk_id r' = tk_id (rs ! i)" "tk_stack r' = tk_stack (rs ! i)"
    and "isolation_slot r' = isolation_slot (rs ! i)"
  shows "records_ok (rs[i := r'])"
proof -
  have "map tk_id (rs[i := r']) = map tk_id rs" "map (\<lambda>r. st_slot (tk_stack r)) (rs[i := r']) = map (\<lambda>r. st_slot (tk_stack r)) rs"
    "map isolation_slot (rs[i := r']) = map isolation_slot rs"
    using assms by (simp_all add: map_update_same)
  then show ?thesis using assms(1,3) unfolding records_ok_def by (auto dest: set_update_cases)
qed

lemma task_view_update:
  assumes "records_ok (sc_records s)" "i < length (sc_records s)" "tk_id r' = tk_id (sc_records s ! i)"
    and "sc_records s' = (sc_records s)[i := r']"
  shows "task_view s' = (task_view s)(tk_id r' \<mapsto> r')"
proof
  fix tid
  let ?kv = "\<lambda>r. (tk_id r, r)"
  have "distinct (map tk_id (sc_records s))" using assms(1) by (simp add: records_ok_def)
  then have "map_of (map ?kv ((sc_records s)[i := r'])) = (map_of (map ?kv (sc_records s)))(tk_id r' \<mapsto> r')"
    using assms(2,3)
  proof (induction "sc_records s" arbitrary: i s rule: list.induct)
    case Nil
    then show ?case by simp
  next
    case (Cons x xs)
    have nin: "tk_id (xs ! j) \<noteq> tk_id x" if "j < length xs" for j using Cons.prems(1) Cons.hyps(2) [symmetric] that by (auto simp: image_iff) (metis nth_mem)
    show ?case
    proof (cases i)
      case 0
      then show ?thesis using Cons.prems Cons.hyps(2) [symmetric] by (simp add: fun_eq_iff)
    next
      case (Suc j)
      have xs: "sc_records s = x # xs" using Cons.hyps(2) by simp
      have "map_of (map ?kv (xs[j := r'])) = (map_of (map ?kv xs))(tk_id r' \<mapsto> r')"
        using Cons.hyps(1) [of "s\<lparr>sc_records := xs\<rparr>" j] Cons.prems Suc xs by simp
      moreover have "tk_id r' \<noteq> tk_id x" using nin [of j] Cons.prems Suc xs by simp
      ultimately show ?thesis using Suc xs by (simp add: fun_upd_twist)
    qed
  qed
  then show "task_view s' tid = ((task_view s)(tk_id r' \<mapsto> r')) tid" by (simp add: task_view_def assms(4))
qed

lemma sched_ok_update:
  assumes ok: "sched_ok s" and i: "i < length (sc_records s)" and r: "r = sc_records s ! i"
    and r': "record_ok r'" "tk_id r' = tk_id r" "tk_stack r' = tk_stack r" "isolation_slot r' = isolation_slot r"
    and s': "sc_records s' = (sc_records s)[i := r']" "sc_capacity s' = sc_capacity s" "sc_next_id s' = sc_next_id s"
      "sc_spawned s' = sc_spawned s" "sc_reaped s' = sc_reaped s" "sc_cursor s' < length (sc_records s)"
    and running: "tk_state r' = TaskRunning \<longleftrightarrow> sc_current s' = Some (tk_id r)"
      "\<And>x. x \<noteq> tk_id r \<Longrightarrow> sc_current s' = Some x \<longleftrightarrow> sc_current s = Some x"
    and blocks: "of_bool (is_blocked r') + sc_total_wakes s' + sc_total_blocks s \<le> of_bool (is_blocked r) + sc_total_wakes s + sc_total_blocks s'"
  shows "sched_ok s' \<and> task_view s' = (task_view s)(tk_id r \<mapsto> r')"
proof -
  have rs: "records_ok (sc_records s)" using ok by (simp add: sched_ok_def)
  have ids: "tk_id ` set (sc_records s') = tk_id ` set (sc_records s)"
    using map_update_same [of tk_id r' "sc_records s" i] r'(2) r s'(1) by (metis list.set_map)
  have member: "x = r' \<or> x \<in> set (sc_records s) \<and> tk_id x \<noteq> tk_id r" if "x \<in> set (sc_records s')" for x
  proof -
    note mem = that
    obtain j where j: "j < length (sc_records s)" "x = (sc_records s)[i := r'] ! j" using mem unfolding s'(1) in_set_conv_nth by auto
    show ?thesis
    proof (cases "j = i")
      case True
      then show ?thesis using j i by simp
    next
      case False
      then have "tk_id (sc_records s ! j) \<noteq> tk_id (sc_records s ! i)"
        using rs j(1) i nth_eq_iff_index_eq [of "map tk_id (sc_records s)" j i] by (simp add: records_ok_def)
      then show ?thesis using False j r by simp
    qed
  qed
  have "records_ok (sc_records s')" using records_ok_update [OF rs i] r' r s'(1) by simp
  moreover have "\<forall>x\<in>set (sc_records s'). tk_state x = TaskRunning \<longleftrightarrow> sc_current s' = Some (tk_id x)"
    using member running ok r'(2) by (fastforce simp: sched_ok_def)
  moreover have "tk_id r \<in> tk_id ` set (sc_records s)" using i r by simp
  then have "\<forall>x. sc_current s' = Some x \<longrightarrow> x \<in> tk_id ` set (sc_records s')"
    using ids running(2) ok unfolding sched_ok_def by metis
  moreover have "count_if is_blocked (sc_records s') + sc_total_wakes s' \<le> sc_total_blocks s'"
    using count_if_update [OF i, of is_blocked r'] blocks ok r s'(1) by (simp add: sched_ok_def)
  moreover have "\<forall>t\<in>tk_id ` set (sc_records s'). t < sc_next_id s'" unfolding ids s'(3) using ok unfolding sched_ok_def by blast
  moreover have "sc_records s' \<noteq> []" using s'(1) i by auto
  ultimately have "sched_ok s'" using ok s' by (simp add: sched_ok_def)
  moreover have "task_view s' = (task_view s)(tk_id r \<mapsto> r')"
    using task_view_update [OF rs i _ s'(1)] r'(2) r by simp
  ultimately show ?thesis by simp
qed

section \<open>Lifecycle\<close>

fun may_become :: "task_state \<Rightarrow> task_state \<Rightarrow> bool" where
  "may_become TaskReady t = (t = TaskReady \<or> t = TaskRunning \<or> t = TaskExited)"
| "may_become TaskRunning t = True"
| "may_become (TaskBlocked k) t = (t = TaskReady \<or> t = TaskExited \<or> t = TaskFaulted)"
| "may_become TaskExited t = False"
| "may_become TaskFaulted t = False"

definition moved :: "task_snapshot \<Rightarrow> task_snapshot \<Rightarrow> bool" where
  "moved r r' \<longleftrightarrow> may_become (tk_state r) (tk_state r') \<and> tk_id r' = tk_id r \<and> tk_capabilities r' = tk_capabilities r \<and>
     tk_stack r' = tk_stack r \<and>
     map_option (\<lambda>i. (io_slot i, io_handles i)) (tk_isolation r') = map_option (\<lambda>i. (io_slot i, io_handles i)) (tk_isolation r) \<and>
     tk_dispatches r' = tk_dispatches r + of_bool (tk_state r = TaskReady \<and> tk_state r' = TaskRunning) \<and>
     tk_yields r' + tk_preemptions r' = tk_yields r + tk_preemptions r + of_bool (tk_state r = TaskRunning \<and> tk_state r' = TaskReady)"

lemma moved_isolation_slot: "moved r r' \<Longrightarrow> isolation_slot r' = isolation_slot r"
  by (cases "tk_isolation r"; cases "tk_isolation r'") (auto simp: moved_def isolation_slot_def)

inductive scheduler_effect :: "scheduler \<Rightarrow> scheduler \<Rightarrow> bool" where
  admitted: "task_view s (sc_next_id s) = None \<Longrightarrow> tk_id r = sc_next_id s \<Longrightarrow> tk_state r = TaskReady \<Longrightarrow>
     task_view s' = (task_view s)(sc_next_id s \<mapsto> r) \<Longrightarrow> sc_next_id s' = sc_next_id s + 1 \<Longrightarrow> scheduler_effect s s'"
| moved: "task_view s tid = Some r \<Longrightarrow> moved r r' \<Longrightarrow> task_view s' = (task_view s)(tid \<mapsto> r') \<Longrightarrow> sc_next_id s' = sc_next_id s \<Longrightarrow>
     scheduler_effect s s'"
| reaped: "task_view s tid = Some r \<Longrightarrow> task_terminal r \<Longrightarrow> task_view s' = (task_view s)(tid := None) \<Longrightarrow> sc_next_id s' = sc_next_id s \<Longrightarrow>
     scheduler_effect s s'"
| unchanged: "scheduler_effect s s"

lemma moved_by_update:
  assumes "sched_ok s" "i < length (sc_records s)" "r = sc_records s ! i" "moved r r'" "record_ok r'"
    and "sc_records s' = (sc_records s)[i := r']" "sc_capacity s' = sc_capacity s" "sc_next_id s' = sc_next_id s"
      "sc_spawned s' = sc_spawned s" "sc_reaped s' = sc_reaped s" "sc_cursor s' < length (sc_records s)"
    and "tk_state r' = TaskRunning \<longleftrightarrow> sc_current s' = Some (tk_id r)"
      "\<And>x. x \<noteq> tk_id r \<Longrightarrow> sc_current s' = Some x \<longleftrightarrow> sc_current s = Some x"
    and "of_bool (is_blocked r') + sc_total_wakes s' + sc_total_blocks s \<le> of_bool (is_blocked r) + sc_total_wakes s + sc_total_blocks s'"
  shows "sched_ok s' \<and> task_view s' = (task_view s)(tk_id r \<mapsto> r') \<and> scheduler_effect s s'"
proof -
  have "tk_id r' = tk_id r" "tk_stack r' = tk_stack r" using assms(4) by (auto simp: moved_def)
  then have "sched_ok s' \<and> task_view s' = (task_view s)(tk_id r \<mapsto> r')"
    using sched_ok_update [OF assms(1-3,5) _ _ moved_isolation_slot [OF assms(4)] assms(6-14)] by simp
  moreover have "task_view s (tk_id r) = Some r"
    using assms(1-3) task_view_Some [of s "tk_id r" r] by (simp add: sched_ok_def)
  ultimately show ?thesis using assms(4,8) scheduler_effect.moved by blast
qed

lemma sched_ok_nth:
  assumes "sched_ok s" "i < length (sc_records s)"
  shows "record_ok (sc_records s ! i)" "tk_state (sc_records s ! i) = TaskRunning \<longleftrightarrow> sc_current s = Some (tk_id (sc_records s ! i))"
    "sc_cursor s < length (sc_records s)"
  using assms nth_mem [OF assms(2)] by (auto simp: sched_ok_def records_ok_def split: if_splits)

lemma with_record_cases:
  assumes "sched_ok s" "with_record tid f s = Inr u"
  obtains i r r' where "i < length (sc_records s)" "r = sc_records s ! i" "tk_id r = tid" "task_view s tid = Some r" "f r = Inr r'"
    "u = s\<lparr>sc_records := (sc_records s)[i := r']\<rparr>" "record_ok r" "tk_state r = TaskRunning \<longleftrightarrow> sc_current s = Some tid"
    "sc_cursor s < length (sc_records s)"
proof -
  obtain i r' where i: "task_index tid s = Some i" "f (sc_records s ! i) = Inr r'" "u = s\<lparr>sc_records := (sc_records s)[i := r']\<rparr>"
    using assms(2) by (auto simp: with_record_def result_simps)
  have "records_ok (sc_records s)" using assms(1) by (simp add: sched_ok_def)
  then have "i < length (sc_records s)" "tk_id (sc_records s ! i) = tid" "task_view s tid = Some (sc_records s ! i)"
    using i(1) task_index_Some task_index_view by blast+
  then show thesis using that [of i] i sched_ok_nth [OF assms(1)] by auto
qed

section \<open>Transitions keep the invariant\<close>

lemmas task_move_simps = moved_def record_ok_def task_terminal_def is_blocked_def

definition moves_to :: "scheduler \<Rightarrow> scheduler \<Rightarrow> task_id \<Rightarrow> task_snapshot \<Rightarrow> task_snapshot \<Rightarrow> bool" where
  "moves_to s s' tid r r' \<longleftrightarrow> sched_ok s' \<and> scheduler_effect s s' \<and> task_view s tid = Some r \<and>
     task_view s' = (task_view s)(tid \<mapsto> r') \<and> sc_cursor s' = sc_cursor s \<and> map tk_id (sc_records s') = map tk_id (sc_records s)"

lemma move_op:
  assumes ok: "sched_ok s" and w: "with_record tid f s = Inr u"
    and f: "\<And>r r'. f r = Inr r' \<Longrightarrow> record_ok r \<Longrightarrow> tk_state r = TaskRunning \<longleftrightarrow> sc_current s = Some tid \<Longrightarrow> tk_id r = tid \<Longrightarrow>
      moved r r' \<and> record_ok r' \<and> (tk_state r' = TaskRunning \<longleftrightarrow> sc_current s' = Some tid) \<and>
      of_bool (is_blocked r') + sc_total_wakes s' + sc_total_blocks s \<le> of_bool (is_blocked r) + sc_total_wakes s + sc_total_blocks s'"
    and cur: "\<And>x. x \<noteq> tid \<Longrightarrow> sc_current s' = Some x \<longleftrightarrow> sc_current s = Some x"
    and s': "sc_records s' = sc_records u" "sc_capacity s' = sc_capacity s" "sc_next_id s' = sc_next_id s" "sc_spawned s' = sc_spawned s"
      "sc_reaped s' = sc_reaped s" "sc_cursor s' = sc_cursor s"
  obtains r r' where "f r = Inr r'" "moves_to s s' tid r r'"
  using ok w
proof (rule with_record_cases)
  fix i r r'
  assume r: "i < length (sc_records s)" "r = sc_records s ! i" "tk_id r = tid" "task_view s tid = Some r" "f r = Inr r'"
    "u = s\<lparr>sc_records := (sc_records s)[i := r']\<rparr>" "record_ok r" "tk_state r = TaskRunning \<longleftrightarrow> sc_current s = Some tid"
    "sc_cursor s < length (sc_records s)"
  note f = f [OF r(5,7,8,3)]
  have "sched_ok s' \<and> task_view s' = (task_view s)(tk_id r \<mapsto> r') \<and> scheduler_effect s s'"
    by (rule moved_by_update [OF ok r(1,2)]) (use f r s' cur in auto)
  moreover have "map tk_id (sc_records s') = map tk_id (sc_records s)"
    using r s'(1) f by (simp add: map_update_same moved_def)
  ultimately show thesis using that [of r r'] r s' by (simp add: moves_to_def)
qed

lemma yield_step:
  assumes "sched_ok s" "yield_current tid s = Inr s'"
  obtains r where "tk_state r = TaskRunning" "moves_to s s' tid r (r\<lparr>tk_yields := tk_yields r + 1, tk_state := TaskReady\<rparr>)"
    "sc_current s' = None"
proof -
  obtain u where cur: "sc_current s = Some tid" and s': "s' = u\<lparr>sc_total_yields := sc_total_yields s + 1, sc_current := None\<rparr>"
    and w: "with_record tid (\<lambda>r. if tk_state r \<noteq> TaskRunning then Inl TaskInvalidState
          else rbind (ok_or TaskAccountingOverflow (checked_add 32 (tk_yields r) 1)) (\<lambda>yields.
            Inr (r\<lparr>tk_yields := yields, tk_state := TaskReady\<rparr>))) s = Inr u"
    using assms(2) by (auto simp: yield_current_def result_simps checked_simps split: if_splits)
  show thesis
    by (rule move_op [OF assms(1) w, of s'])
      (use that cur s' w in \<open>auto simp: task_move_simps with_record_def result_simps checked_simps split: if_splits\<close>)
qed

lemma preempt_step:
  assumes "sched_ok s" "preempt_current tid s = Inr s'"
  obtains r where "tk_state r = TaskRunning" "moves_to s s' tid r (r\<lparr>tk_preemptions := tk_preemptions r + 1, tk_state := TaskReady\<rparr>)"
    "sc_current s' = None"
proof -
  obtain u where cur: "sc_current s = Some tid" and s': "s' = u\<lparr>sc_total_preemptions := sc_total_preemptions s + 1, sc_current := None\<rparr>"
    and w: "with_record tid (\<lambda>r. if tk_state r \<noteq> TaskRunning then Inl TaskInvalidState
          else rbind (ok_or TaskAccountingOverflow (checked_add 32 (tk_preemptions r) 1)) (\<lambda>preemptions.
            Inr (r\<lparr>tk_preemptions := preemptions, tk_state := TaskReady\<rparr>))) s = Inr u"
    using assms(2) by (auto simp: preempt_current_def result_simps checked_simps split: if_splits)
  show thesis
    by (rule move_op [OF assms(1) w, of s'])
      (use that cur s' w in \<open>auto simp: task_move_simps with_record_def result_simps checked_simps split: if_splits\<close>)
qed

lemma block_step:
  assumes "sched_ok s" "block_current tid wait s = Inr s'"
  obtains r where "tk_state r = TaskRunning" "moves_to s s' tid r (r\<lparr>tk_state := TaskBlocked wait\<rparr>)" "sc_current s' = None"
proof -
  obtain u where cur: "sc_current s = Some tid" and s': "s' = u\<lparr>sc_current := None, sc_total_blocks := sc_total_blocks s + 1\<rparr>"
    and w: "with_record tid (\<lambda>r. if tk_state r \<noteq> TaskRunning \<or> tk_isolation r = None then Inl TaskInvalidState else Inr (r\<lparr>tk_state := TaskBlocked wait\<rparr>)) s = Inr u"
    using assms(2) by (auto simp: block_current_def result_simps checked_simps split: if_splits)
  show thesis
    by (rule move_op [OF assms(1) w, of s'])
      (use that cur s' w in \<open>auto simp: task_move_simps with_record_def result_simps checked_simps split: if_splits\<close>)
qed

lemma wake_step:
  assumes "sched_ok s" "wake_blocked tid wait s = Inr s'"
  obtains r where "tk_state r = TaskBlocked wait" "moves_to s s' tid r (r\<lparr>tk_state := TaskReady\<rparr>)" "sc_current s' = sc_current s"
proof -
  obtain u where s': "s' = u\<lparr>sc_total_wakes := sc_total_wakes s + 1\<rparr>"
    and w: "with_record tid (\<lambda>r. if tk_state r \<noteq> TaskBlocked wait then Inl TaskInvalidState else Inr (r\<lparr>tk_state := TaskReady\<rparr>)) s = Inr u"
    using assms(2) by (auto simp: wake_blocked_def result_simps checked_simps split: if_splits)
  show thesis
    by (rule move_op [OF assms(1) w, of s'])
      (use that s' w in \<open>auto simp: task_move_simps with_record_def result_simps checked_simps split: if_splits\<close>)
qed

lemma exit_step:
  assumes "sched_ok s" "exit_current tid status s = Inr s'"
  obtains r where "tk_state r = TaskRunning" "moves_to s s' tid r (r\<lparr>tk_state := TaskExited, tk_exit_status := Some status\<rparr>)" "sc_current s' = None"
proof -
  obtain u where cur: "sc_current s = Some tid" and s': "s' = u\<lparr>sc_current := None\<rparr>"
    and w: "with_record tid (\<lambda>r. if tk_state r \<noteq> TaskRunning then Inl TaskInvalidState else Inr (r\<lparr>tk_state := TaskExited, tk_exit_status := Some status\<rparr>)) s = Inr u"
    using assms(2) by (auto simp: exit_current_def result_simps checked_simps split: if_splits)
  show thesis
    by (rule move_op [OF assms(1) w, of s'])
      (use that cur s' w in \<open>auto simp: task_move_simps with_record_def result_simps checked_simps split: if_splits\<close>)
qed

lemma fault_step:
  assumes "sched_ok s" "fault_current tid fault s = Inr s'"
  obtains r where "tk_state r = TaskRunning"
    "moves_to s s' tid r (r\<lparr>tk_state := TaskFaulted, tk_exit_status := Some 128, tk_fault := Some fault\<rparr>)" "sc_current s' = None"
proof -
  obtain u where cur: "sc_current s = Some tid" and s': "s' = u\<lparr>sc_current := None, sc_contained_faults := sc_contained_faults s + 1\<rparr>"
    and w: "with_record tid (\<lambda>r. if tk_state r \<noteq> TaskRunning \<or> tk_isolation r = None then Inl TaskInvalidState
          else Inr (r\<lparr>tk_state := TaskFaulted, tk_exit_status := Some 128, tk_fault := Some fault\<rparr>)) s = Inr u"
    using assms(2) by (auto simp: fault_current_def result_simps checked_simps split: if_splits)
  show thesis
    by (rule move_op [OF assms(1) w, of s'])
      (use that cur s' w in \<open>auto simp: task_move_simps with_record_def result_simps checked_simps split: if_splits\<close>)
qed

lemma fault_blocked_step:
  assumes "sched_ok s" "fault_blocked tid fault s = Inr s'"
  obtains r k where "tk_state r = TaskBlocked k"
    "moves_to s s' tid r (r\<lparr>tk_state := TaskFaulted, tk_exit_status := Some 128, tk_fault := Some fault\<rparr>)" "sc_current s' = sc_current s"
proof -
  obtain u where s': "s' = u\<lparr>sc_contained_faults := sc_contained_faults s + 1\<rparr>"
    and w: "with_record tid (\<lambda>r. if \<not> is_blocked r \<or> tk_isolation r = None then Inl TaskInvalidState
         else Inr (r\<lparr>tk_state := TaskFaulted, tk_exit_status := Some 128, tk_fault := Some fault\<rparr>)) s = Inr u"
    using assms(2) by (auto simp: fault_blocked_def result_simps checked_simps split: if_splits)
  show thesis
    by (rule move_op [OF assms(1) w, of s'])
      (use that s' w in \<open>auto simp: task_move_simps with_record_def result_simps checked_simps split: if_splits task_state.splits\<close>)
qed

lemma cancel_ready_step:
  assumes "sched_ok s" "cancel_ready tid status s = Inr s'"
  obtains r where "tk_state r = TaskReady" "moves_to s s' tid r (r\<lparr>tk_state := TaskExited, tk_exit_status := Some status\<rparr>)" "sc_current s' = sc_current s"
proof -
  have w: "with_record tid (\<lambda>r. if tk_state r \<noteq> TaskReady \<or> tk_isolation r = None then Inl TaskInvalidState
     else Inr (r\<lparr>tk_state := TaskExited, tk_exit_status := Some status\<rparr>)) s = Inr s'"
    using assms(2) by (simp add: cancel_ready_def split: if_splits)
  show thesis
    by (rule move_op [OF assms(1) w, of s'])
      (use that assms(2) w in \<open>auto simp: task_move_simps with_record_def result_simps checked_simps split: if_splits\<close>)
qed

lemma cancel_blocked_step:
  assumes "sched_ok s" "cancel_blocked tid status s = Inr s'"
  obtains r k where "tk_state r = TaskBlocked k" "moves_to s s' tid r (r\<lparr>tk_state := TaskExited, tk_exit_status := Some status\<rparr>)" "sc_current s' = sc_current s"
proof -
  have w: "with_record tid (\<lambda>r. if \<not> is_blocked r \<or> tk_isolation r = None then Inl TaskInvalidState
     else Inr (r\<lparr>tk_state := TaskExited, tk_exit_status := Some status\<rparr>)) s = Inr s'"
    using assms(2) by (simp add: cancel_blocked_def split: if_splits)
  show thesis
    by (rule move_op [OF assms(1) w, of s'])
      (use that assms(2) w in \<open>auto simp: task_move_simps with_record_def result_simps checked_simps split: if_splits task_state.splits\<close>)
qed

lemma resize_current_step:
  assumes "sched_ok s" "resize_current_isolation tid replacement s = Inr s'"
  obtains r where "tk_state r = TaskRunning" "moves_to s s' tid r (r\<lparr>tk_isolation := Some replacement\<rparr>)" "sc_current s' = sc_current s"
proof -
  have w: "with_record tid (\<lambda>r. if tk_state r \<noteq> TaskRunning then Inl TaskInvalidState else resize_isolation replacement r) s = Inr s'"
    using assms(2) by (simp add: resize_current_isolation_def split: if_splits)
  show thesis
    by (rule move_op [OF assms(1) w, of s'])
      (use that assms(2) w in \<open>auto simp: task_move_simps with_record_def resize_isolation_def result_simps split: if_splits option.splits\<close>)
qed

lemma resize_ready_step:
  assumes "sched_ok s" "resize_ready_isolation tid replacement s = Inr s'"
  obtains r where "tk_state r = TaskReady" "moves_to s s' tid r (r\<lparr>tk_isolation := Some replacement\<rparr>)" "sc_current s' = sc_current s"
proof -
  have w: "with_record tid (\<lambda>r. if tk_state r \<noteq> TaskReady then Inl TaskInvalidState else resize_isolation replacement r) s = Inr s'"
    using assms(2) by (simp add: resize_ready_isolation_def split: if_splits)
  show thesis
    by (rule move_op [OF assms(1) w, of s'])
      (use that assms(2) w in \<open>auto simp: task_move_simps with_record_def resize_isolation_def result_simps split: if_splits option.splits\<close>)
qed

section \<open>Dispatch\<close>

lemma run_task_step:
  assumes ok: "sched_ok s" and i: "i < length (sc_records s)" and r: "r = sc_records s ! i" "tk_state r = TaskReady" and idle: "sc_current s = None"
    and s': "s' = run_task i (tk_dispatches r + 1) s"
  shows "sched_ok s'" "scheduler_effect s s'" "task_view s (tk_id r) = Some r"
    "task_view s' = (task_view s)(tk_id r \<mapsto> r\<lparr>tk_dispatches := tk_dispatches r + 1, tk_state := TaskRunning\<rparr>)"
    "sc_current s' = Some (tk_id r)" "sc_cursor s' = (i + 1) mod length (sc_records s)" "map tk_id (sc_records s') = map tk_id (sc_records s)"
    "sc_records s' = (sc_records s)[i := r\<lparr>tk_dispatches := tk_dispatches r + 1, tk_state := TaskRunning\<rparr>]"
proof -
  let ?r' = "r\<lparr>tk_dispatches := tk_dispatches r + 1, tk_state := TaskRunning\<rparr>"
  have eq: "s' = s\<lparr>sc_records := (sc_records s)[i := ?r'], sc_current := Some (tk_id r), sc_cursor := (i + 1) mod length (sc_records s)\<rparr>"
    by (simp add: s' run_task_def r(1) Let_def)
  have "(i + 1) mod length (sc_records s) < length (sc_records s)" by (rule mod_less_divisor) (use i in linarith)
  then have "sched_ok s' \<and> task_view s' = (task_view s)(tk_id r \<mapsto> ?r') \<and> scheduler_effect s s'"
    by (intro moved_by_update [OF ok i r(1)]) (use r idle eq sched_ok_nth(1) [OF ok i] in \<open>auto simp: task_move_simps\<close>)
  then show "sched_ok s'" "scheduler_effect s s'" "task_view s' = (task_view s)(tk_id r \<mapsto> ?r')" by auto
  show "task_view s (tk_id r) = Some r" using ok i r(1) task_view_Some [OF sched_ok_records [OF ok]] by simp
  show "sc_current s' = Some (tk_id r)" "sc_cursor s' = (i + 1) mod length (sc_records s)"
    "sc_records s' = (sc_records s)[i := ?r']" by (simp_all add: eq)
  show "map tk_id (sc_records s') = map tk_id (sc_records s)" using r(1) by (simp add: eq map_update_same)
qed

lemma dispatch_loop_find:
  "dispatch_loop required s offsets =
   (case find (\<lambda>offset. dispatchable required (sc_records s ! ((sc_cursor s + offset) mod length (sc_records s)))) offsets of
      None \<Rightarrow> Inr (None, s)
    | Some offset \<Rightarrow>
        let index = (sc_cursor s + offset) mod length (sc_records s); r = sc_records s ! index in
        rbind (ok_or TaskAccountingOverflow (checked_add 32 (tk_dispatches r) 1)) (\<lambda>dispatches.
          Inr (Some (tk_id r), run_task index dispatches s)))"
  by (induction offsets) (auto simp: Let_def)

lemma dispatch_next_probe:
  "dispatch_next required s =
   (if sc_current s \<noteq> None then Inl TaskAlreadyRunning
    else case probe (\<lambda>i. dispatchable required (sc_records s ! i)) (length (sc_records s)) (sc_cursor s) of
      None \<Rightarrow> Inr (None, s)
    | Some index \<Rightarrow>
        rbind (ok_or TaskAccountingOverflow (checked_add 32 (tk_dispatches (sc_records s ! index)) 1)) (\<lambda>dispatches.
          Inr (Some (tk_id (sc_records s ! index)), run_task index dispatches s)))"
  unfolding dispatch_next_def dispatch_loop_find probe_def by (auto simp: Let_def split: option.splits)

lemma dispatch_next_cases:
  assumes ok: "sched_ok s" and op: "dispatch_next required s = res"
  obtains
    (running) "sc_current s \<noteq> None" "res = Inl TaskAlreadyRunning"
  | (none) "sc_current s = None" "\<forall>r\<in>set (sc_records s). \<not> dispatchable required r" "res = Inr (None, s)"
  | (overflow) i where "sc_current s = None" "i < length (sc_records s)" "dispatchable required (sc_records s ! i)"
      "tk_dispatches (sc_records s ! i) + 1 \<ge> 2 ^ 32" "res = Inl TaskAccountingOverflow"
  | (dispatched) i where "sc_current s = None" "i < length (sc_records s)" "dispatchable required (sc_records s ! i)"
      "\<forall>j<length (sc_records s). dispatchable required (sc_records s ! j) \<longrightarrow>
         steps_from (length (sc_records s)) (sc_cursor s) i \<le> steps_from (length (sc_records s)) (sc_cursor s) j"
      "res = Inr (Some (tk_id (sc_records s ! i)), run_task i (tk_dispatches (sc_records s ! i) + 1) s)"
proof (cases "sc_current s")
  case (Some tid)
  then show thesis using running op by (simp add: dispatch_next_probe)
next
  case idle: None
  let ?P = "\<lambda>i. dispatchable required (sc_records s ! i)" and ?n = "length (sc_records s)"
  show thesis
  proof (cases "sc_records s = []")
    case True
    then show thesis using none idle op by (simp add: dispatch_next_probe probe_def)
  next
    case False
    then have cursor: "sc_cursor s < ?n" using ok by (simp add: sched_ok_def)
    show thesis
    proof (cases "probe ?P ?n (sc_cursor s)")
      case None
      then have "\<forall>r\<in>set (sc_records s). \<not> dispatchable required r" using probe_None [OF cursor, of ?P] by (auto simp: in_set_conv_nth)
      then show thesis using none idle op None by (simp add: dispatch_next_probe)
    next
      case (Some i)
      note i = probe_Some [OF cursor Some]
      show thesis
      proof (cases "tk_dispatches (sc_records s ! i) + 1 < 2 ^ 32")
        case True
        then show thesis using dispatched [OF idle i] op Some idle by (simp add: dispatch_next_probe checked_add_def)
      next
        case False
        then show thesis using overflow [OF idle i(1,2)] op Some idle by (simp add: dispatch_next_probe checked_add_def)
      qed
    qed
  qed
qed

end
