(* ===== verification/Task_Scheduler_Runs.thy ===== *)
theory Task_Scheduler_Runs
  imports Task_Scheduler_Contract
begin

text \<open>
  Runs of the task scheduler: admission and reaping change the set of retained tasks, every
  other operation changes one retained task. The theorems hold over any sequence of
  operations of a scheduler built by \<open>scheduler_new\<close>.
\<close>

section \<open>Admission\<close>

lemma task_view_append:
  assumes "tk_id r \<notin> tk_id ` set (sc_records s)" "sc_records s' = sc_records s @ [r]"
  shows "task_view s' = (task_view s)(tk_id r \<mapsto> r)"
proof
  fix tid
  show "task_view s' tid = ((task_view s)(tk_id r \<mapsto> r)) tid"
    using assms task_view_None [of s "tk_id r"] by (auto simp: task_view_def map_add_def split: option.splits)
qed

lemma isolation_slot_mem: "x \<in> set (isolation_slot r) \<longleftrightarrow> (\<exists>i. tk_isolation r = Some i \<and> io_slot i = x)"
  by (cases "tk_isolation r") (auto simp: isolation_slot_def)

definition fresh_task :: "task_id \<Rightarrow> u32 \<Rightarrow> stack_resource \<Rightarrow> isolation_resource option \<Rightarrow> task_snapshot" where
  "fresh_task tid capabilities stack isolation =
     \<lparr>tk_id = tid, tk_state = TaskReady, tk_capabilities = capabilities, tk_stack = stack, tk_dispatches = 0, tk_yields = 0,
      tk_preemptions = 0, tk_exit_status = None, tk_isolation = isolation, tk_fault = None\<rparr>"

lemma spawn_step:
  assumes ok: "sched_ok s" and op: "spawn_with_isolation reserved capabilities stack isolation s = Inr (tid, s')"
  shows "sched_ok s'" "scheduler_effect s s'" "tid = sc_next_id s" "task_view s tid = None"
    "task_view s' = (task_view s)(tid \<mapsto> fresh_task tid capabilities stack isolation)"
proof -
  let ?r = "fresh_task (sc_next_id s) capabilities stack isolation"
  have g: "length (sc_records s) \<noteq> sc_capacity s" "\<forall>r\<in>set (sc_records s). st_slot (tk_stack r) \<noteq> st_slot stack"
    "\<forall>i. isolation = Some i \<longrightarrow> (\<forall>r\<in>set (sc_records s). \<forall>owned. tk_isolation r = Some owned \<longrightarrow> io_slot owned \<noteq> io_slot i)"
    "sc_next_id s + 1 < 2 ^ 32" "tid = sc_next_id s"
    and s': "s' = s\<lparr>sc_records := sc_records s @ [?r], sc_next_id := sc_next_id s + 1, sc_spawned := sc_spawned s + 1\<rparr>"
    using op by (auto simp: spawn_with_isolation_def fresh_task_def Let_def result_simps checked_simps list_ex_iff split: if_splits option.splits)
  have new: "sc_next_id s \<notin> tk_id ` set (sc_records s)" using ok by (auto simp: sched_ok_def)
  have slots: "set (isolation_slot ?r) \<inter> set (concat (map isolation_slot (sc_records s))) = {}"
    using g(3) by (auto simp: isolation_slot_mem fresh_task_def)
  have "distinct (isolation_slot ?r)" by (simp add: isolation_slot_def split: option.splits)
  then have rs: "records_ok (sc_records s @ [?r])"
    using sched_ok_records [OF ok] new slots g(2)
    by (auto simp: records_ok_def record_ok_def task_terminal_def is_blocked_def) (auto simp: fresh_task_def)
  have "sc_current s \<noteq> Some (sc_next_id s)" using ok new by (auto simp: sched_ok_def)
  moreover have "length (sc_records s) + 1 \<le> sc_capacity s" using ok g(1) unfolding sched_ok_def by linarith
  moreover have "\<not> is_blocked ?r" "tk_state ?r = TaskReady" "tk_id ?r = sc_next_id s" by (simp_all add: is_blocked_def fresh_task_def)
  ultimately show "sched_ok s'"
    using ok rs g(4) unfolding sched_ok_def s' by (auto split: if_splits)
  have view: "task_view s' = (task_view s)(sc_next_id s \<mapsto> ?r)"
    using task_view_append [of ?r s s'] new s' by (simp add: fresh_task_def)
  then show "task_view s' = (task_view s)(tid \<mapsto> fresh_task tid capabilities stack isolation)" using g(5) by simp
  show "tid = sc_next_id s" "task_view s tid = None" using g(5) new task_view_None [of s tid] by simp_all
  show "scheduler_effect s s'"
    by (rule scheduler_effect.admitted [OF _ _ _ view]) (use new s' task_view_None [of s "sc_next_id s"] in \<open>simp_all add: fresh_task_def\<close>)
qed

section \<open>Reaping\<close>

lemma records_ok_remove:
  assumes "records_ok rs" "i < length rs"
  shows "records_ok (take i rs @ drop (Suc i) rs)" "rs ! i \<notin> set (take i rs @ drop (Suc i) rs)"
    "tk_id (rs ! i) \<notin> tk_id ` set (take i rs @ drop (Suc i) rs)"
proof -
  let ?a = "take i rs" and ?b = "drop (Suc i) rs"
  have split: "rs = ?a @ rs ! i # ?b" by (rule id_take_nth_drop [OF assms(2)])
  have parts: "distinct (map tk_id (?a @ rs ! i # ?b))" "distinct (map (\<lambda>r. st_slot (tk_stack r)) (?a @ rs ! i # ?b))"
    "distinct (concat (map isolation_slot (?a @ rs ! i # ?b)))" "\<forall>r\<in>set (?a @ rs ! i # ?b). record_ok r"
    using assms(1) split unfolding records_ok_def by metis+
  have "distinct (map tk_id (?a @ ?b))" using parts(1) by simp
  moreover have "distinct (map (\<lambda>r. st_slot (tk_stack r)) (?a @ ?b))" using parts(2) by simp
  moreover have "distinct (concat (map isolation_slot (?a @ ?b)))" using parts(3) by simp blast
  moreover have "\<forall>r\<in>set (?a @ ?b). record_ok r" using parts(4) by simp
  ultimately show "records_ok (?a @ ?b)" unfolding records_ok_def by blast
  show "tk_id (rs ! i) \<notin> tk_id ` set (?a @ ?b)" using parts(1) by (simp add: image_Un)
  then show "rs ! i \<notin> set (?a @ ?b)" by blast
qed

lemma reap_cases:
  assumes ok: "sched_ok s" and op: "task_reap tid s = (res, s')"
  obtains
    (unknown) "task_view s tid = None" "res = Inl UnknownTask" "s' = s"
  | (live) r where "task_view s tid = Some r" "\<not> task_terminal r" "res = Inl TaskInvalidState" "s' = s"
  | (overflow) r where "task_view s tid = Some r" "task_terminal r" "sc_reaped s + 1 \<ge> 2 ^ 32" "res = Inl TaskAccountingOverflow" "s' = s"
  | (reaped) r status where "task_view s tid = Some r" "task_terminal r" "tk_exit_status r = Some status" "sched_ok s'" "scheduler_effect s s'"
      "res = Inr \<lparr>rp_id = tid, rp_stack = tk_stack r, rp_exit_status = status, rp_isolation = tk_isolation r, rp_fault = tk_fault r\<rparr>"
      "task_view s' = (task_view s)(tid := None)"
proof (cases "task_index tid s")
  case None
  then show thesis using unknown op task_index_None [of tid s] task_view_None [of s tid] by (simp add: task_reap_def)
next
  case (Some i)
  note rs = sched_ok_records [OF ok]
  let ?r = "sc_records s ! i" and ?rest = "take i (sc_records s) @ drop (Suc i) (sc_records s)"
  have i: "i < length (sc_records s)" "tk_id ?r = tid" using task_index_Some [OF rs] Some by auto
  have view: "task_view s tid = Some ?r" using task_index_view [OF rs Some] .
  show thesis
  proof (cases "task_terminal ?r")
    case False
    then show thesis using live [OF view] op Some by (simp add: task_reap_def task_terminal_def Let_def)
  next
    case True
    show thesis
    proof (cases "sc_reaped s + 1 < 2 ^ 32")
      case False
      then have "checked_add 32 (sc_reaped s) 1 = None" by (simp add: checked_add_def)
      then show thesis using overflow [OF view True] False op Some True by (auto simp: task_reap_def task_terminal_def Let_def)
    next
      case fits: True
      obtain status where status: "tk_exit_status ?r = Some status"
        using sched_ok_nth(1) [OF ok i(1)] True by (auto simp: record_ok_def)
      have counted: "checked_add 32 (sc_reaped s) 1 = Some (sc_reaped s + 1)" using fits by (simp add: checked_add_def)
      let ?cursor = "if ?rest = [] then 0 else if i < sc_cursor s then sc_cursor s - 1 else if sc_cursor s \<ge> length ?rest then 0 else sc_cursor s"
      have "task_reap tid s =
          (Inr \<lparr>rp_id = tid, rp_stack = tk_stack ?r, rp_exit_status = status, rp_isolation = tk_isolation ?r, rp_fault = tk_fault ?r\<rparr>,
           s\<lparr>sc_records := ?rest, sc_reaped := sc_reaped s + 1, sc_cursor := ?cursor\<rparr>)"
        using True unfolding task_reap_def task_terminal_def Let_def Some counted status option.case by (simp only: if_False simp_thms)
      then have res: "res = Inr \<lparr>rp_id = tid, rp_stack = tk_stack ?r, rp_exit_status = status, rp_isolation = tk_isolation ?r, rp_fault = tk_fault ?r\<rparr>"
        and eq: "s' = s\<lparr>sc_records := ?rest, sc_reaped := sc_reaped s + 1, sc_cursor := ?cursor\<rparr>" using op by auto
      have s': "sc_records s' = ?rest" "sc_cursor s' = ?cursor" "sc_next_id s' = sc_next_id s" by (simp_all add: eq)
      have len: "length ?rest + 1 = length (sc_records s)" using i(1) by simp
      have sub: "set ?rest \<subseteq> set (sc_records s)" by (auto dest: in_set_takeD in_set_dropD)
      have blocked: "count_if is_blocked ?rest \<le> count_if is_blocked (sc_records s)"
        by (subst (3) id_take_nth_drop [OF i(1)]) (simp add: count_if_def)
      have idle: "sc_current s \<noteq> Some tid" using sched_ok_nth(2) [OF ok i(1)] True i(2) by (auto simp: task_terminal_def)
      have ids: "tk_id ` set (sc_records s) = insert tid (tk_id ` set ?rest)"
        by (subst (1) id_take_nth_drop [OF i(1)]) (simp add: i(2) insert_commute image_Un)
      have "sc_cursor s < length (sc_records s)" using sched_ok_nth(3) [OF ok i(1)] .
      then have "if ?rest = [] then sc_cursor s' = 0 else sc_cursor s' < length ?rest" using len s'(2) by auto
      moreover have "\<forall>x. sc_current s = Some x \<longrightarrow> x \<in> tk_id ` set ?rest" using ok ids idle by (auto simp: sched_ok_def)
      moreover have "\<forall>r\<in>set ?rest. tk_id r < sc_next_id s" "\<forall>r\<in>set ?rest. tk_state r = TaskRunning \<longleftrightarrow> sc_current s = Some (tk_id r)"
        using ok sub unfolding sched_ok_def by blast+
      moreover have "length ?rest \<le> sc_capacity s" "sc_capacity s \<le> MAX_TASKS" "sc_reaped s + 1 + length ?rest = sc_spawned s"
        "count_if is_blocked ?rest + sc_total_wakes s \<le> sc_total_blocks s" "sc_next_id s = sc_spawned s + 1" "sc_next_id s < 2 ^ 32"
        using ok len blocked unfolding sched_ok_def by linarith+
      ultimately have ok': "sched_ok s'"
        using records_ok_remove(1) [OF rs i(1)] unfolding sched_ok_def s' by (simp add: eq)
      have view': "task_view s' = (task_view s)(tid := None)"
      proof
        fix x
        have other: "tk_id y \<noteq> tid" if "y \<in> set ?rest" for y using records_ok_remove(3) [OF rs i(1)] i(2) that by (metis image_eqI)
        have "set (sc_records s) = insert ?r (set ?rest)"
          by (subst (1) id_take_nth_drop [OF i(1)]) auto
        then have "task_view s' x = Some y \<longleftrightarrow> task_view s x = Some y \<and> x \<noteq> tid" for y
          using task_view_Some [OF sched_ok_records [OF ok']] task_view_Some [OF rs] other i(2) s'(1) by auto
        then show "task_view s' x = ((task_view s)(tid := None)) x" by (cases "x = tid"; cases "task_view s x"; cases "task_view s' x") auto
      qed
      show thesis
        by (rule reaped [OF view True status ok' _ res view']) (rule scheduler_effect.reaped [OF view True view' s'(3)])
    qed
  qed
qed

section \<open>Steps\<close>

lemma dispatch_next_step:
  assumes ok: "sched_ok s" and op: "dispatch_next required s = Inr (found, s')"
  shows "sched_ok s' \<and> scheduler_effect s s'"
  using ok op
proof (cases rule: dispatch_next_cases)
  case none
  then show ?thesis using ok scheduler_effect.unchanged by simp
next
  case (dispatched i)
  then have "tk_state (sc_records s ! i) = TaskReady" "s' = run_task i (tk_dispatches (sc_records s ! i) + 1) s" by (auto simp: dispatchable_def)
  then show ?thesis using run_task_step(1,2) [OF ok dispatched(2) refl _ dispatched(1)] by simp
qed auto

lemma task_dispatch_step:
  assumes ok: "sched_ok s" and op: "task_dispatch tid required s = Inr (tid', s')"
  shows "sched_ok s' \<and> scheduler_effect s s' \<and> tid' = tid \<and> sc_current s' = Some tid"
proof -
  have idle: "sc_current s = None" using op by (simp add: task_dispatch_def split: if_splits)
  obtain i where index: "task_index tid s = Some i" using op idle by (cases "task_index tid s") (simp_all add: task_dispatch_def)
  have ready: "dispatchable required (sc_records s ! i)" using op idle index by (simp add: task_dispatch_def Let_def split: if_splits)
  define d where "d = checked_add 32 (tk_dispatches (sc_records s ! i)) 1"
  have eq: "rbind (ok_or TaskAccountingOverflow d) (\<lambda>dispatches. Inr (tid, run_task i dispatches s)) = Inr (tid', s')"
    using op unfolding task_dispatch_def by (simp add: idle index ready Let_def d_def)
  then obtain n where "d = Some n" "tid' = tid" "s' = run_task i n s" by (cases d) auto
  then have i: "tid' = tid" "s' = run_task i (tk_dispatches (sc_records s ! i) + 1) s" by (auto simp: d_def checked_add_Some_iff)
  have r: "i < length (sc_records s)" "tk_id (sc_records s ! i) = tid" using index task_index_Some [OF sched_ok_records [OF ok]] by auto
  have "tk_state (sc_records s ! i) = TaskReady" using ready by (simp add: dispatchable_def)
  then show ?thesis using run_task_step(1,2,5) [OF ok r(1) refl _ idle i(2)] i(1) unfolding r(2) by blast
qed

inductive scheduler_step :: "scheduler \<Rightarrow> scheduler \<Rightarrow> bool" where
  spawn: "spawn_with_isolation reserved capabilities stack isolation s = Inr (tid, s') \<Longrightarrow> scheduler_step s s'"
| dispatch_next: "dispatch_next required s = Inr (found, s') \<Longrightarrow> scheduler_step s s'"
| dispatch: "task_dispatch tid required s = Inr (tid', s') \<Longrightarrow> scheduler_step s s'"
| yield_op: "yield_current tid s = Inr s' \<Longrightarrow> scheduler_step s s'"
| preempt: "preempt_current tid s = Inr s' \<Longrightarrow> scheduler_step s s'"
| block: "block_current tid wait s = Inr s' \<Longrightarrow> scheduler_step s s'"
| wake: "wake_blocked tid wait s = Inr s' \<Longrightarrow> scheduler_step s s'"
| resize_current: "resize_current_isolation tid replacement s = Inr s' \<Longrightarrow> scheduler_step s s'"
| resize_ready: "resize_ready_isolation tid replacement s = Inr s' \<Longrightarrow> scheduler_step s s'"
| exit_op: "exit_current tid status s = Inr s' \<Longrightarrow> scheduler_step s s'"
| cancel_ready: "cancel_ready tid status s = Inr s' \<Longrightarrow> scheduler_step s s'"
| cancel_blocked: "cancel_blocked tid status s = Inr s' \<Longrightarrow> scheduler_step s s'"
| fault: "fault_current tid fault s = Inr s' \<Longrightarrow> scheduler_step s s'"
| fault_blocked: "fault_blocked tid fault s = Inr s' \<Longrightarrow> scheduler_step s s'"
| reap: "scheduler_step s (snd (task_reap tid s))"

lemma scheduler_step_effect:
  assumes "scheduler_step s s'" "sched_ok s"
  shows "sched_ok s' \<and> scheduler_effect s s'"
  using assms
proof (cases rule: scheduler_step.cases)
  case (spawn reserved capabilities stack isolation tid)
  then show ?thesis using spawn_step(1,2) assms(2) by blast
next
  case (dispatch_next required found)
  then show ?thesis using dispatch_next_step assms(2) by blast
next
  case (dispatch tid required tid')
  then show ?thesis using task_dispatch_step assms(2) by blast
next
  case (yield_op tid)
  then show ?thesis using yield_step [OF assms(2)] by (metis moves_to_def)
next
  case (preempt tid)
  then show ?thesis using preempt_step [OF assms(2)] by (metis moves_to_def)
next
  case (block tid wait)
  then show ?thesis using block_step [OF assms(2)] by (metis moves_to_def)
next
  case (wake tid wait)
  then show ?thesis using wake_step [OF assms(2)] by (metis moves_to_def)
next
  case (resize_current tid replacement)
  then show ?thesis using resize_current_step [OF assms(2)] by (metis moves_to_def)
next
  case (resize_ready tid replacement)
  then show ?thesis using resize_ready_step [OF assms(2)] by (metis moves_to_def)
next
  case (exit_op tid status)
  then show ?thesis using exit_step [OF assms(2)] by (metis moves_to_def)
next
  case (cancel_ready tid status)
  then show ?thesis using cancel_ready_step [OF assms(2)] by (metis moves_to_def)
next
  case (cancel_blocked tid status)
  then show ?thesis using cancel_blocked_step [OF assms(2)] by (metis moves_to_def)
next
  case (fault tid fault)
  then show ?thesis using fault_step [OF assms(2)] by (metis moves_to_def)
next
  case (fault_blocked tid fault)
  then show ?thesis using fault_blocked_step [OF assms(2)] by (metis moves_to_def)
next
  case (reap tid)
  obtain res u where u: "task_reap tid s = (res, u)" by fastforce
  from assms(2) u have "sched_ok u \<and> scheduler_effect s u"
    by (cases rule: reap_cases) (use assms(2) scheduler_effect.unchanged in auto)
  then show ?thesis using reap u by simp
qed

lemma scheduler_run_ok: "scheduler_step\<^sup>*\<^sup>* s t \<Longrightarrow> sched_ok s \<Longrightarrow> sched_ok t"
  by (induction rule: rtranclp_induct) (auto dest: scheduler_step_effect)

lemma effect_absent:
  assumes "scheduler_effect s t" "task_view s tid = None" "tid < sc_next_id s"
  shows "task_view t tid = None \<and> tid < sc_next_id t"
  using assms by (cases rule: scheduler_effect.cases) (auto simp: fun_upd_def)

lemma run_absent:
  "scheduler_step\<^sup>*\<^sup>* s t \<Longrightarrow> sched_ok s \<Longrightarrow> task_view s tid = None \<Longrightarrow> tid < sc_next_id s \<Longrightarrow> task_view t tid = None \<and> tid < sc_next_id t"
proof (induction rule: rtranclp_induct)
  case base
  then show ?case by simp
next
  case (step t u)
  then show ?case using effect_absent scheduler_step_effect scheduler_run_ok by blast
qed

end
