(* ===== verification/Task_Scheduler_Theorems.thy ===== *)
theory Task_Scheduler_Theorems
  imports Task_Scheduler_Runs
begin

text \<open>
  The properties of the task scheduler: exclusivity and accounting over any run, the closed
  lifecycle, round-robin service and the transactional teardown.
\<close>

section \<open>Exclusivity\<close>

text \<open>C10. Over any run of a fresh scheduler at most one task runs, namely the current one; no two retained tasks share an
  identity, a stack slot or an address-space slot; the table stays within its capacity; every task ever admitted is
  either retained or reaped, and counted so; and an identity that was issued and is no longer retained is never
  retained again.\<close>
theorem scheduler_exclusive:
  assumes "scheduler_new reserved capacity = Inr s0" "scheduler_step\<^sup>*\<^sup>* s0 s"
  shows "(\<forall>r\<in>set (sc_records s). tk_state r = TaskRunning \<longleftrightarrow> sc_current s = Some (tk_id r)) \<and>
    distinct (map tk_id (sc_records s)) \<and> distinct (map (\<lambda>r. st_slot (tk_stack r)) (sc_records s)) \<and>
    distinct (concat (map isolation_slot (sc_records s))) \<and> length (sc_records s) \<le> sc_capacity s \<and>
    sc_spawned s = sc_reaped s + length (sc_records s) \<and>
    (\<forall>t tid. scheduler_step\<^sup>*\<^sup>* s t \<longrightarrow> tid < sc_next_id s \<longrightarrow> task_view s tid = None \<longrightarrow> task_view t tid = None)"
proof -
  have ok: "sched_ok s" using scheduler_run_ok [OF assms(2)] sched_ok_new [OF assms(1)] by blast
  then have "\<forall>t tid. scheduler_step\<^sup>*\<^sup>* s t \<longrightarrow> tid < sc_next_id s \<longrightarrow> task_view s tid = None \<longrightarrow> task_view t tid = None"
    using run_absent by blast
  moreover have "sc_spawned s = sc_reaped s + length (sc_records s)" using ok by (simp add: sched_ok_def)
  ultimately show ?thesis using ok unfolding sched_ok_def records_ok_def by blast
qed

section \<open>Lifecycle\<close>

lemma wake_iff:
  assumes ok: "sched_ok s"
  shows "(\<exists>t. wake_blocked tid wait s = Inr t) \<longleftrightarrow>
    (\<exists>r. task_view s tid = Some r \<and> tk_state r = TaskBlocked wait) \<and> sc_total_wakes s + 1 < 2 ^ 32"
proof
  assume "\<exists>t. wake_blocked tid wait s = Inr t"
  then obtain t where t: "wake_blocked tid wait s = Inr t" by blast
  then have "sc_total_wakes s + 1 < 2 ^ 32" by (auto simp: wake_blocked_def result_simps checked_simps)
  moreover have "\<exists>r. task_view s tid = Some r \<and> tk_state r = TaskBlocked wait"
    by (rule wake_step [OF ok t]) (auto simp: moves_to_def)
  ultimately show "(\<exists>r. task_view s tid = Some r \<and> tk_state r = TaskBlocked wait) \<and> sc_total_wakes s + 1 < 2 ^ 32" by blast
next
  assume a: "(\<exists>r. task_view s tid = Some r \<and> tk_state r = TaskBlocked wait) \<and> sc_total_wakes s + 1 < 2 ^ 32"
  then obtain r where r: "task_view s tid = Some r" "tk_state r = TaskBlocked wait" by blast
  obtain i where "task_index tid s = Some i" "sc_records s ! i = r" using view_index [OF sched_ok_records [OF ok] r(1)] .
  then show "\<exists>t. wake_blocked tid wait s = Inr t"
    using a r(2) by (simp add: wake_blocked_def with_record_def checked_add_def)
qed

lemma reaped_for_good:
  assumes "sched_ok s" "scheduler_step s t" "task_view s tid = Some r" "task_view t tid = None" "scheduler_step\<^sup>*\<^sup>* t u"
  shows "task_view u tid = None"
proof -
  have "sched_ok t" and effect: "scheduler_effect s t" using scheduler_step_effect [OF assms(2,1)] by blast+
  have "r \<in> set (sc_records s) \<and> tk_id r = tid" using assms(3) task_view_Some [OF sched_ok_records [OF assms(1)]] by blast
  then have "tid < sc_next_id s" using assms(1) unfolding sched_ok_def by blast
  moreover from effect have "sc_next_id s \<le> sc_next_id t" by cases simp_all
  ultimately have "tid < sc_next_id t" by simp
  with \<open>sched_ok t\<close> show ?thesis using run_absent [OF assms(5) _ assms(4)] by blast
qed

text \<open>C36. One operation changes at most one task.  A task appears only with the next identity and ready; it disappears
  only when it has exited or faulted; and otherwise it is unchanged or makes one move of the lifecycle: ready to running
  or exited, running to anything, blocked to ready, exited or faulted, and nothing from the terminal states, keeping its
  identity, capabilities, stack, address-space slot and handles, with each dispatch and each return to readiness counted
  once.  An identity that has disappeared never names a task again, whatever operations follow.  A blocked task is woken exactly by the wait key it blocked on.\<close>
theorem task_lifecycle:
  assumes "sched_ok s" "scheduler_step s t"
  shows "(\<exists>tid. (\<forall>x. x \<noteq> tid \<longrightarrow> task_view t x = task_view s x) \<and>
      (case (task_view s tid, task_view t tid) of
         (None, None) \<Rightarrow> True
       | (None, Some r') \<Rightarrow> tid = sc_next_id s \<and> tk_state r' = TaskReady
       | (Some r, None) \<Rightarrow> task_terminal r
       | (Some r, Some r') \<Rightarrow> r' = r \<or> moved r r')) \<and>
    (\<forall>tid u. task_view s tid \<noteq> None \<and> task_view t tid = None \<and> scheduler_step\<^sup>*\<^sup>* t u \<longrightarrow> task_view u tid = None) \<and>
    ((\<exists>u. wake_blocked k wait s = Inr u) \<longleftrightarrow>
       (\<exists>r. task_view s k = Some r \<and> tk_state r = TaskBlocked wait) \<and> sc_total_wakes s + 1 < 2 ^ 32)"
proof -
  have "scheduler_effect s t" using scheduler_step_effect [OF assms(2,1)] by blast
  then have "\<exists>tid. (\<forall>x. x \<noteq> tid \<longrightarrow> task_view t x = task_view s x) \<and>
      (case (task_view s tid, task_view t tid) of
         (None, None) \<Rightarrow> True
       | (None, Some r') \<Rightarrow> tid = sc_next_id s \<and> tk_state r' = TaskReady
       | (Some r, None) \<Rightarrow> task_terminal r
       | (Some r, Some r') \<Rightarrow> r' = r \<or> moved r r')"
  proof cases
    case (admitted r)
    then show ?thesis by (intro exI [of _ "sc_next_id s"]) auto
  next
    case (moved tid r r')
    then show ?thesis by (intro exI [of _ tid]) auto
  next
    case (reaped tid r)
    then show ?thesis by (intro exI [of _ tid]) auto
  next
    case unchanged
    then show ?thesis by (intro exI [of _ 0]) (auto split: option.splits)
  qed
  moreover have "\<forall>tid u. task_view s tid \<noteq> None \<and> task_view t tid = None \<and> scheduler_step\<^sup>*\<^sup>* t u \<longrightarrow> task_view u tid = None"
    using reaped_for_good [OF assms] by blast
  ultimately show ?thesis using wake_iff [OF assms(1)] by blast
qed

section \<open>Round robin\<close>

text \<open>Operations of a turn: they neither admit, reap nor select.\<close>

definition within_turn :: "scheduler \<Rightarrow> scheduler \<Rightarrow> bool" where
  "within_turn s t \<longleftrightarrow> scheduler_step s t \<and> sc_cursor t = sc_cursor s \<and> map tk_id (sc_records t) = map tk_id (sc_records s)"

inductive turns :: "task_id \<Rightarrow> u32 \<Rightarrow> scheduler \<Rightarrow> task_id list \<Rightarrow> scheduler \<Rightarrow> bool" for k required where
  no_turn: "turns k required s [] s"
| turn: "task_view s k = Some r \<Longrightarrow> dispatchable required r \<Longrightarrow> dispatch_next required s = Inr (Some tid, u) \<Longrightarrow>
    within_turn\<^sup>*\<^sup>* u v \<Longrightarrow> sc_current v = None \<Longrightarrow> turns k required v tids w \<Longrightarrow> turns k required s (tid # tids) w"

lemma within_turns: "within_turn\<^sup>*\<^sup>* s t \<Longrightarrow> sched_ok s \<Longrightarrow> sched_ok t \<and> sc_cursor t = sc_cursor s \<and> map tk_id (sc_records t) = map tk_id (sc_records s)"
  by (induction rule: rtranclp_induct) (auto simp: within_turn_def dest: scheduler_step_effect)

lemma turn_advances:
  assumes ok: "sched_ok s" and k: "k < length (sc_records s)" "dispatchable required (sc_records s ! k)"
    and op: "dispatch_next required s = Inr (Some tid, u)"
  shows "sched_ok u" "map tk_id (sc_records u) = map tk_id (sc_records s)"
    "tid = tk_id (sc_records s ! k) \<or>
      steps_from (length (sc_records s)) (sc_cursor u) k < steps_from (length (sc_records s)) (sc_cursor s) k"
proof -
  show "sched_ok u" using dispatch_next_step [OF ok op] by blast
  from ok op obtain i where idle: "sc_current s = None" and i: "i < length (sc_records s)" "dispatchable required (sc_records s ! i)"
    "steps_from (length (sc_records s)) (sc_cursor s) i \<le> steps_from (length (sc_records s)) (sc_cursor s) k"
    and u: "tid = tk_id (sc_records s ! i)" "u = run_task i (tk_dispatches (sc_records s ! i) + 1) s"
    by (cases rule: dispatch_next_cases) (use k in auto)
  have "tk_state (sc_records s ! i) = TaskReady" using i(2) by (simp add: dispatchable_def)
  note run = run_task_step [OF ok i(1) refl this idle u(2)]
  show "map tk_id (sc_records u) = map tk_id (sc_records s)" by (rule run(7))
  have cursor: "sc_cursor s < length (sc_records s)" by (rule sched_ok_nth(3) [OF ok i(1)])
  show "tid = tk_id (sc_records s ! k) \<or>
      steps_from (length (sc_records s)) (sc_cursor u) k < steps_from (length (sc_records s)) (sc_cursor s) k"
  proof (cases "i = k")
    case True
    then show ?thesis using u(1) by simp
  next
    case False
    then have "steps_from (length (sc_records s)) (sc_cursor s) i < steps_from (length (sc_records s)) (sc_cursor s) k"
      using i(3) steps_from_inj [OF cursor i(1) k(1)] by fastforce
    then show ?thesis using steps_from_advance [OF cursor i(1) k(1)] run(6) by simp
  qed
qed

lemma turns_bound:
  assumes "turns k required s tids w" "sched_ok s" "i < length (sc_records s)" "tk_id (sc_records s ! i) = k" "k \<notin> set tids"
  shows "length tids \<le> steps_from (length (sc_records s)) (sc_cursor s) i"
  using assms
proof (induction arbitrary: i rule: turns.induct)
  case (no_turn s)
  then show ?case by simp
next
  case (turn s r tid u v tids w)
  have "task_view s k = Some (sc_records s ! i)"
    using turn.prems task_view_Some [OF sched_ok_records [OF turn.prems(1)]] by simp
  then have d: "dispatchable required (sc_records s ! i)" using turn.hyps(1,2) by simp
  note adv = turn_advances [OF turn.prems(1,2) d turn.hyps(3)]
  have v: "sched_ok v" "sc_cursor v = sc_cursor u" "map tk_id (sc_records v) = map tk_id (sc_records s)"
    using within_turns [OF turn.hyps(4) adv(1)] adv(2) by auto
  then have len: "length (sc_records v) = length (sc_records s)" using map_eq_imp_length_eq by blast
  then have "i < length (sc_records v)" "tk_id (sc_records v ! i) = k"
    using v(3) turn.prems(2,3) by (auto dest: arg_cong [where f = "\<lambda>xs. xs ! i"])
  then have "length tids \<le> steps_from (length (sc_records v)) (sc_cursor v) i"
    using turn.IH [OF v(1)] turn.prems(4) by simp
  then show ?case using adv(3) turn.prems v(2) len by auto
qed

text \<open>C11. No ready task starves while the set of retained tasks is stable: a task that is ready with the required
  capability at the start of every turn is selected in one of as many turns as there are tasks, however each turn
  proceeds between its selection and the next one.  And as long as it is ready an idle scheduler always has a task to
  select, unless the dispatch counter of the one it selects is exhausted.\<close>
theorem round_robin_fair:
  assumes "sched_ok s" "turns k required s tids w" "task_view s k = Some r" "dispatchable required r"
  shows "(length (sc_records s) \<le> length tids \<longrightarrow> k \<in> set tids) \<and>
    (sc_current s = None \<longrightarrow> dispatch_next required s = Inl TaskAccountingOverflow \<or>
       (\<exists>tid u. dispatch_next required s = Inr (Some tid, u) \<and> sc_current u = Some tid))"
proof (intro conjI impI)
  obtain i where i: "i < length (sc_records s)" "sc_records s ! i = r" using view_index [OF sched_ok_records [OF assms(1)] assms(3)] .
  have "tk_id (sc_records s ! i) = k" using i assms(3) task_view_Some [OF sched_ok_records [OF assms(1)]] by simp
  then have "k \<notin> set tids \<Longrightarrow> length tids \<le> steps_from (length (sc_records s)) (sc_cursor s) i"
    using turns_bound [OF assms(2,1) i(1)] by simp
  moreover have "steps_from (length (sc_records s)) (sc_cursor s) i < length (sc_records s)"
    by (rule steps_from_reaches(2) [OF sched_ok_nth(3) [OF assms(1) i(1)] i(1)])
  ultimately show "length (sc_records s) \<le> length tids \<Longrightarrow> k \<in> set tids" by fastforce
  assume idle: "sc_current s = None"
  have mem: "r \<in> set (sc_records s)" using i nth_mem by blast
  show "dispatch_next required s = Inl TaskAccountingOverflow \<or>
       (\<exists>tid u. dispatch_next required s = Inr (Some tid, u) \<and> sc_current u = Some tid)"
    using assms(1) refl [of "dispatch_next required s"]
  proof (cases rule: dispatch_next_cases)
    case (dispatched j)
    then show ?thesis by (simp add: run_task_def Let_def)
  qed (use idle assms(4) mem in auto)
qed

section \<open>Teardown\<close>

definition terminal_form :: "nat \<Rightarrow> task_snapshot \<Rightarrow> task_snapshot" where
  "terminal_form status r = (if task_terminal r then r else r\<lparr>tk_state := TaskExited, tk_exit_status := Some status\<rparr>)"

lemma with_record_found:
  "task_index tid s = Some i \<Longrightarrow> f (sc_records s ! i) = Inr r' \<Longrightarrow> with_record tid f s = Inr (s\<lparr>sc_records := (sc_records s)[i := r']\<rparr>)"
  by (simp add: with_record_def)

lemma terminalize_exact:
  assumes ok: "sched_ok s" and r: "task_view s tid = Some r" "tk_isolation r \<noteq> None"
  obtains u where "terminalize tid status r s = Inr u" "sched_ok u" "task_view u = (task_view s)(tid \<mapsto> terminal_form status r)"
    "sc_reaped u = sc_reaped s"
proof (cases "task_terminal r")
  case True
  then have "terminalize tid status r s = Inr s" by (auto simp: terminalize_def task_terminal_def)
  moreover have "task_view s = (task_view s)(tid \<mapsto> terminal_form status r)" using r(1) True by (auto simp: terminal_form_def)
  ultimately show thesis using that ok by simp
next
  case False
  let ?r' = "r\<lparr>tk_state := TaskExited, tk_exit_status := Some status\<rparr>"
  have form: "terminal_form status r = ?r'" using False by (simp add: terminal_form_def)
  obtain i where i: "task_index tid s = Some i" "sc_records s ! i = r" "i < length (sc_records s)"
    using view_index [OF sched_ok_records [OF ok] r(1)] .
  have tid: "tk_id r = tid" using r(1) task_view_Some [OF sched_ok_records [OF ok]] by simp
  note found = with_record_found [OF i(1)]
  show thesis
  proof (cases "tk_state r")
    case TaskReady
    then obtain u where u: "cancel_ready tid status s = Inr u" "sc_reaped u = sc_reaped s" using found r(2) i(2) by (simp add: cancel_ready_def)
    have "sched_ok u \<and> task_view u = (task_view s)(tid \<mapsto> ?r')"
      using cancel_ready_step [OF ok u(1)] r(1) by (metis moves_to_def option.inject)
    then show thesis using that u form TaskReady by (simp add: terminalize_def)
  next
    case TaskRunning
    then have "sc_current s = Some tid" using sched_ok_nth(2) [OF ok i(3)] i(2) tid by simp
    then obtain u where u: "exit_current tid status s = Inr u" "sc_reaped u = sc_reaped s" using found TaskRunning i(2) by (simp add: exit_current_def)
    have "sched_ok u \<and> task_view u = (task_view s)(tid \<mapsto> ?r')"
      using exit_step [OF ok u(1)] r(1) by (metis moves_to_def option.inject)
    then show thesis using that u form TaskRunning by (simp add: terminalize_def)
  next
    case (TaskBlocked wait)
    then obtain u where u: "cancel_blocked tid status s = Inr u" "sc_reaped u = sc_reaped s"
      using found r(2) i(2) by (simp add: cancel_blocked_def is_blocked_def)
    have "sched_ok u \<and> task_view u = (task_view s)(tid \<mapsto> ?r')"
      using cancel_blocked_step [OF ok u(1)] r(1) by (metis moves_to_def option.inject)
    then show thesis using that u form TaskBlocked by (simp add: terminalize_def)
  qed (use False in \<open>auto simp: task_terminal_def\<close>)
qed

lemma snapshot_of_view:
  assumes "sched_ok s"
  shows "task_snapshot_of tid s = ok_or UnknownTask (task_view s tid)"
proof (cases "task_index tid s")
  case None
  then show ?thesis using task_index_None [of tid s] task_view_None [of s tid] by (simp add: task_snapshot_of_def)
next
  case (Some i)
  then show ?thesis using task_index_view [OF sched_ok_records [OF assms] Some] by (simp add: task_snapshot_of_def)
qed

text \<open>C37. Tearing down an isolated task always brings it to a terminal state first, keeping the outcome of a task that
  already had one, and runs the revoker exactly once, on that terminal snapshot.  If revocation fails the task stays
  retained and terminal; if it succeeds the task is removed and exactly its stack, address space, status and fault are
  handed back, and reaping cannot fail any more.  An unknown or kernel task is refused
  before anything is revoked or changed.  No other task changes in any case.\<close>
theorem teardown_exact:
  assumes "sched_ok s" "terminate_revoke_and_reap tid status revoke s w = (res, s', w')"
  shows "sched_ok s' \<and>
    (case task_view s tid of
       None \<Rightarrow> res = Inl (TeardownTask UnknownTask) \<and> s' = s \<and> w' = w
     | Some r \<Rightarrow>
         if tk_isolation r = None then res = Inl (TeardownTask TaskInvalidState) \<and> s' = s \<and> w' = w
         else w' = snd (revoke (terminal_form status r) w) \<and>
           (case fst (revoke (terminal_form status r) w) of
              Inl e \<Rightarrow> res = Inl (TeardownRevocation e) \<and> task_view s' = (task_view s)(tid \<mapsto> terminal_form status r)
            | Inr _ \<Rightarrow>
                task_view s' = (task_view s)(tid := None) \<and>
                (\<exists>code. tk_exit_status (terminal_form status r) = Some code \<and>
                   res = Inr \<lparr>rp_id = tid, rp_stack = tk_stack r, rp_exit_status = code, rp_isolation = tk_isolation r, rp_fault = tk_fault r\<rparr>)))"
proof (cases "task_view s tid")
  case None
  then show ?thesis using assms snapshot_of_view [OF assms(1)] by (simp add: terminate_revoke_and_reap_def)
next
  case (Some r)
  show ?thesis
  proof (cases "tk_isolation r = None")
    case True
    then show ?thesis using assms Some snapshot_of_view [OF assms(1)] by (simp add: terminate_revoke_and_reap_def)
  next
    case False
    let ?t = "terminal_form status r"
    obtain u where u: "terminalize tid status r s = Inr u" "sched_ok u" "task_view u = (task_view s)(tid \<mapsto> ?t)" "sc_reaped u = sc_reaped s"
      using terminalize_exact [OF assms(1) Some False] .
    have t: "task_snapshot_of tid s = Inr r" "task_snapshot_of tid u = Inr ?t"
      using snapshot_of_view assms(1) u(2,3) Some by simp_all
    obtain rv w'' where rv: "revoke ?t w = (rv, w'')" by fastforce
    have keep: "tk_stack ?t = tk_stack r" "tk_isolation ?t = tk_isolation r" "tk_fault ?t = tk_fault r" "task_terminal ?t"
      by (simp_all add: terminal_form_def task_terminal_def)
    show ?thesis
    proof (cases rv)
      case (Inl e)
      then have "res = Inl (TeardownRevocation e)" "s' = u" "w' = w''"
        using assms(2) t u(1) False rv by (simp_all add: terminate_revoke_and_reap_def)
      then show ?thesis using Some False Inl rv u by simp
    next
      case (Inr x)
      obtain rr v where reap: "task_reap tid u = (rr, v)" by fastforce
      have eq: "res = map_err TeardownTask rr" "s' = v" "w' = w''"
        using assms(2) t u(1) False rv Inr reap by (simp_all add: terminate_revoke_and_reap_def)
      from u(2) reap show ?thesis
      proof (cases rule: reap_cases)
        case (overflow r')
        have "length (sc_records u) \<noteq> 0" using overflow(1) by (auto simp: task_view_def)
        then show ?thesis using u(2) overflow(3) unfolding sched_ok_def by linarith
      next
        case (reaped r' code)
        have "r' = ?t" using reaped(1) u(3) by simp
        moreover have "task_view s' = (task_view s)(tid := None)" using reaped(7) eq(2) u(3) by simp
        ultimately show ?thesis using Some False Inr rv eq reaped keep by simp
      qed (use u keep in auto)
    qed
  qed
qed

section \<open>Witnesses\<close>

definition a_stack :: "nat \<Rightarrow> stack_resource" where "a_stack slot = \<lparr>st_slot = slot, st_mapped_pages = 8\<rparr>"

definition a_space :: "nat \<Rightarrow> isolation_resource" where
  "a_space slot = \<lparr>io_slot = slot, io_table_pages = 4, io_private_pages = 16, io_handles = 2\<rparr>"

definition empty_scheduler :: scheduler where
  "empty_scheduler = \<lparr>sc_records = [], sc_capacity = 4, sc_cursor = 0, sc_current = None, sc_next_id = 1, sc_spawned = 0, sc_reaped = 0,
     sc_total_yields = 0, sc_total_preemptions = 0, sc_total_blocks = 0, sc_total_wakes = 0, sc_contained_faults = 0\<rparr>"

definition two_tasks :: scheduler where
  "two_tasks = empty_scheduler\<lparr>sc_records := [fresh_task 1 8 (a_stack 0) (Some (a_space 0)), fresh_task 2 8 (a_stack 1) (Some (a_space 1))],
     sc_next_id := 3, sc_spawned := 2\<rparr>"

lemmas spawn_run_simps = spawn_with_isolation_def empty_scheduler_def fresh_task_def a_stack_def a_space_def checked_add_def Let_def

lemma two_tasks_reached:
  "scheduler_new True 4 = Inr empty_scheduler" "scheduler_step\<^sup>*\<^sup>* empty_scheduler two_tasks"
proof -
  show "scheduler_new True 4 = Inr empty_scheduler" by (simp add: scheduler_new_def empty_scheduler_def MAX_TASKS_def)
  let ?one = "empty_scheduler\<lparr>sc_records := [fresh_task 1 8 (a_stack 0) (Some (a_space 0))], sc_next_id := 2, sc_spawned := 1\<rparr>"
  have "spawn_with_isolation True 8 (a_stack 0) (Some (a_space 0)) empty_scheduler = Inr (1, ?one)"
    by (simp add: spawn_run_simps)
  moreover have "spawn_with_isolation True 8 (a_stack 1) (Some (a_space 1)) ?one = Inr (2, two_tasks)"
    by (simp add: spawn_run_simps two_tasks_def)
  ultimately show "scheduler_step\<^sup>*\<^sup>* empty_scheduler two_tasks"
    by (meson rtranclp.rtrancl_into_rtrancl rtranclp.rtrancl_refl scheduler_step.spawn)
qed

lemma two_tasks_ok: "sched_ok two_tasks"
  using scheduler_run_ok [OF two_tasks_reached(2)] sched_ok_new [OF two_tasks_reached(1)] by blast

lemma two_tasks_view: "task_view two_tasks 1 = Some (fresh_task 1 8 (a_stack 0) (Some (a_space 0)))"
  "task_view two_tasks 2 = Some (fresh_task 2 8 (a_stack 1) (Some (a_space 1)))"
  by (simp_all add: task_view_def two_tasks_def fresh_task_def)

theorem scheduler_exclusive_witness: "sc_spawned two_tasks = 2 \<and> length (sc_records two_tasks) \<le> sc_capacity two_tasks"
  using scheduler_exclusive [OF two_tasks_reached] by (simp add: two_tasks_def)

lemma two_tasks_dispatch:
  "dispatch_next 8 two_tasks = Inr (Some 1, run_task 0 1 two_tasks)"
  by (simp add: dispatch_next_def two_tasks_def empty_scheduler_def fresh_task_def dispatchable_def capability_contains_def upt_rec checked_add_def)

theorem task_lifecycle_witness:
  "scheduler_step two_tasks (run_task 0 1 two_tasks) \<and> \<not> (\<exists>u. wake_blocked 1 \<lparr>wk_slot = 0, wk_generation = 1\<rparr> two_tasks = Inr u)"
proof -
  have step: "scheduler_step two_tasks (run_task 0 1 two_tasks)" using scheduler_step.dispatch_next [OF two_tasks_dispatch] .
  then show ?thesis
    using conjunct2 [OF task_lifecycle [OF two_tasks_ok step, of 1 "\<lparr>wk_slot = 0, wk_generation = 1\<rparr>"]]
    by (simp add: two_tasks_view [unfolded One_nat_def] fresh_task_def)
qed

definition first_yielded :: scheduler where
  "first_yielded = two_tasks\<lparr>sc_records := [(fresh_task 1 8 (a_stack 0) (Some (a_space 0)))\<lparr>tk_dispatches := 1, tk_yields := 1\<rparr>,
     fresh_task 2 8 (a_stack 1) (Some (a_space 1))], sc_cursor := 1, sc_total_yields := 1\<rparr>"

lemma first_turn: "yield_current 1 (run_task 0 1 two_tasks) = Inr first_yielded"
  by (simp add: yield_current_def with_record_def task_index_def run_task_def Let_def first_yielded_def two_tasks_def empty_scheduler_def
      fresh_task_def checked_add_def)

lemma second_turn: "\<exists>u v. dispatch_next 8 first_yielded = Inr (Some 2, u) \<and> within_turn\<^sup>*\<^sup>* u v \<and> sc_current v = None"
proof -
  have d: "dispatch_next 8 first_yielded = Inr (Some 2, run_task 1 1 first_yielded)"
    by (simp add: dispatch_next_def first_yielded_def two_tasks_def empty_scheduler_def fresh_task_def dispatchable_def
        capability_contains_def upt_rec checked_add_def)
  obtain v where v: "yield_current 2 (run_task 1 1 first_yielded) = Inr v" "sc_current v = None"
    "sc_cursor v = sc_cursor (run_task 1 1 first_yielded)" "map tk_id (sc_records v) = map tk_id (sc_records (run_task 1 1 first_yielded))"
    by (simp add: yield_current_def with_record_def task_index_def run_task_def Let_def first_yielded_def two_tasks_def empty_scheduler_def
        fresh_task_def checked_add_def)
  then have "within_turn\<^sup>*\<^sup>* (run_task 1 1 first_yielded) v"
    using scheduler_step.yield_op by (intro r_into_rtranclp) (auto simp: within_turn_def)
  with d v(2) show ?thesis by blast
qed

theorem round_robin_fair_witness: "\<exists>tids w. turns 2 8 two_tasks tids w \<and> length tids = 2 \<and> 2 \<in> set tids"
proof -
  let ?r = "fresh_task 2 8 (a_stack 1) (Some (a_space 1))"
  have r: "dispatchable 8 ?r" by (simp add: dispatchable_def fresh_task_def capability_contains_def)
  obtain u v where uv: "dispatch_next 8 first_yielded = Inr (Some 2, u)" "within_turn\<^sup>*\<^sup>* u v" "sc_current v = None" using second_turn by blast
  have "task_view first_yielded 2 = Some ?r" by (simp add: task_view_def first_yielded_def fresh_task_def)
  then have "turns 2 8 first_yielded [2] v" by (rule turns.turn [OF _ r uv turns.no_turn])
  moreover have "within_turn\<^sup>*\<^sup>* (run_task 0 1 two_tasks) first_yielded"
    using scheduler_step.yield_op [OF first_turn]
    by (intro r_into_rtranclp)
      (simp add: within_turn_def run_task_def Let_def first_yielded_def two_tasks_def empty_scheduler_def fresh_task_def)
  moreover have "sc_current first_yielded = None" by (simp add: first_yielded_def two_tasks_def empty_scheduler_def)
  ultimately have run: "turns 2 8 two_tasks [1, 2] v" using turns.turn [OF two_tasks_view(2) r two_tasks_dispatch] by blast
  have "2 \<in> set [1 :: nat, 2]" using conjunct1 [OF round_robin_fair [OF two_tasks_ok run two_tasks_view(2) r]] by (simp add: two_tasks_def)
  with run show ?thesis by (intro exI [of _ "[1, 2]"] exI [of _ v]) simp
qed

theorem teardown_exact_witness:
  "\<exists>s'. terminate_revoke_and_reap 1 7 (\<lambda>r w. (Inr (), w + 1)) two_tasks (0 :: nat) =
     (Inr \<lparr>rp_id = 1, rp_stack = a_stack 0, rp_exit_status = 7, rp_isolation = Some (a_space 0), rp_fault = None\<rparr> ::
       (nat teardown_error, reaped_task) result, s', 1) \<and> task_view s' 1 = None"
proof -
  obtain res s' w' where t: "terminate_revoke_and_reap 1 7 (\<lambda>r w. (Inr (), w + 1)) two_tasks (0 :: nat) =
      (res :: (nat teardown_error, reaped_task) result, s', w')" by (metis prod.exhaust)
  show ?thesis
    using teardown_exact [OF two_tasks_ok t] t two_tasks_view(1) by (auto simp: fresh_task_def terminal_form_def task_terminal_def)
qed

end
