(* ===== verification/Wait_Table.thy ===== *)
theory Wait_Table
  imports Task_Scheduler Generation_Table
begin

text \<open>
  Published wait registrations (\<open>troe-task/src/wait.rs\<close>, \<open>WaitTable\<close>): the lost-wakeup-safe
  observe-or-publish operation, single wakes by key, the batch wakes of a resource, of
  expired deadlines and of an owner, and their accounting. The outcomes of the fallible
  reservations are parameters: one for a new slot, and one per pushed completion.
\<close>

section \<open>Identities and specifications\<close>

definition MAX_WAIT_REGISTRATIONS :: nat where "MAX_WAIT_REGISTRATIONS = 65536"

record operation_id =
  op_slot :: nat
  op_generation :: nat

record wait_resource =
  wr_identity :: nat
  wr_generation :: nat

datatype wake_reason = WakeResourceReady | WakeDeadline | WakeCancelled | WakeClosed | WakeRevoked

datatype wait_observation =
    ObservePending | ObserveResourceReady | ObserveResourceClosed | ObserveCancelled | ObserveOwnerRevoked

datatype wait_error =
    WaitInvalidCapacity | WaitMetadataExhausted | WaitCapacityExhausted | WaitInvalidResource | WaitInvalidSpec
  | OwnerAlreadyWaiting | OperationAlreadyWaiting | StaleWait | UnexpectedWake | WaitAccountingOverflow

definition wait_resource_new :: "nat \<Rightarrow> nat \<Rightarrow> (wait_error, wait_resource) result" where
  "wait_resource_new identity generation =
     (if identity = 0 \<or> generation = 0 then Inl WaitInvalidResource
      else Inr \<lparr>wr_identity = identity, wr_generation = generation\<rparr>)"

definition INTEREST_RESOURCE_READY :: byte where "INTEREST_RESOURCE_READY = 1"

definition INTEREST_DEADLINE :: byte where "INTEREST_DEADLINE = 2"

definition interest_contains :: "byte \<Rightarrow> byte \<Rightarrow> bool" where
  "interest_contains self requested \<longleftrightarrow> self AND requested = requested"

definition reason_is_terminal :: "wake_reason \<Rightarrow> bool" where
  "reason_is_terminal reason = (case reason of WakeCancelled \<Rightarrow> True | WakeClosed \<Rightarrow> True | WakeRevoked \<Rightarrow> True | _ \<Rightarrow> False)"

record thread_id =
  td_process :: nat
  td_slot :: nat
  td_generation :: nat

record pending_caller =
  wc_task :: task_id
  wc_thread :: "thread_id option"

definition caller_task :: "task_id \<Rightarrow> pending_caller" where
  "caller_task task = \<lparr>wc_task = task, wc_thread = None\<rparr>"

definition caller_conflicts :: "pending_caller \<Rightarrow> pending_caller \<Rightarrow> bool" where
  "caller_conflicts self other \<longleftrightarrow> wc_task self = wc_task other \<and>
     (wc_thread self = None \<or> wc_thread other = None \<or> wc_thread self = wc_thread other)"

record wait_spec =
  sp_owner :: pending_caller
  sp_operation :: operation_id
  sp_resource :: "wait_resource option"
  sp_interests :: byte
  sp_deadline :: "nat option"

definition wait_spec_new ::
    "pending_caller \<Rightarrow> operation_id \<Rightarrow> wait_resource option \<Rightarrow> byte \<Rightarrow> nat option \<Rightarrow> (wait_error, wait_spec) result" where
  "wait_spec_new owner operation resource interests deadline =
     (if interests = 0 \<or> (interest_contains interests INTEREST_RESOURCE_READY \<and> resource = None) \<or>
         (interest_contains interests INTEREST_DEADLINE \<and> deadline = None)
      then Inl WaitInvalidSpec
      else Inr \<lparr>sp_owner = owner, sp_operation = operation, sp_resource = resource, sp_interests = interests,
             sp_deadline = deadline\<rparr>)"

definition spec_accepts :: "wait_spec \<Rightarrow> wake_reason \<Rightarrow> bool" where
  "spec_accepts self reason =
     (case reason of
        WakeResourceReady \<Rightarrow> sp_resource self \<noteq> None \<and> interest_contains (sp_interests self) INTEREST_RESOURCE_READY
      | WakeDeadline \<Rightarrow> sp_deadline self \<noteq> None \<and> interest_contains (sp_interests self) INTEREST_DEADLINE
      | WakeCancelled \<Rightarrow> True
      | WakeRevoked \<Rightarrow> True
      | WakeClosed \<Rightarrow> sp_resource self \<noteq> None)"

datatype wait_registration = RegistrationReady wake_reason | RegistrationBlocked wait_key

record wait_completion =
  cn_key :: wait_key
  cn_owner :: pending_caller
  cn_operation :: operation_id
  cn_reason :: wake_reason

section \<open>Table\<close>

record wait_stats =
  wts_live :: nat
  wts_high_water :: nat
  wts_wakes :: nat
  wts_immediate_wakes :: nat
  wts_resource_wakes :: nat
  wts_timeouts :: nat
  wts_cancellations :: nat
  wts_closes :: nat
  wts_revocations :: nat
  wts_stale_wakes :: nat

record wait_record =
  wrec_key :: wait_key
  wrec_spec :: wait_spec

record wait_slot =
  wsl_generation :: nat
  wsl_retired :: bool
  wsl_record :: "wait_record option"

record wait_table =
  wt_slots :: "wait_slot list"
  wt_capacity :: nat
  wt_stats :: wait_stats

definition wait_table_new :: "bool \<Rightarrow> nat \<Rightarrow> (wait_error, wait_table) result" where
  "wait_table_new reserved capacity =
     (if capacity = 0 \<or> capacity > MAX_WAIT_REGISTRATIONS then Inl WaitInvalidCapacity
      else if \<not> reserved then Inl WaitMetadataExhausted
      else Inr \<lparr>wt_slots = [], wt_capacity = capacity,
             wt_stats = \<lparr>wts_live = 0, wts_high_water = 0, wts_wakes = 0, wts_immediate_wakes = 0, wts_resource_wakes = 0,
               wts_timeouts = 0, wts_cancellations = 0, wts_closes = 0, wts_revocations = 0, wts_stale_wakes = 0\<rparr>\<rparr>)"

definition reason_counter :: "wake_reason \<Rightarrow> wait_stats \<Rightarrow> nat" where
  "reason_counter reason stats =
     (case reason of
        WakeResourceReady \<Rightarrow> wts_resource_wakes stats
      | WakeDeadline \<Rightarrow> wts_timeouts stats
      | WakeCancelled \<Rightarrow> wts_cancellations stats
      | WakeClosed \<Rightarrow> wts_closes stats
      | WakeRevoked \<Rightarrow> wts_revocations stats)"

definition set_reason_counter :: "wake_reason \<Rightarrow> nat \<Rightarrow> wait_stats \<Rightarrow> wait_stats" where
  "set_reason_counter reason n stats =
     (case reason of
        WakeResourceReady \<Rightarrow> stats\<lparr>wts_resource_wakes := n\<rparr>
      | WakeDeadline \<Rightarrow> stats\<lparr>wts_timeouts := n\<rparr>
      | WakeCancelled \<Rightarrow> stats\<lparr>wts_cancellations := n\<rparr>
      | WakeClosed \<Rightarrow> stats\<lparr>wts_closes := n\<rparr>
      | WakeRevoked \<Rightarrow> stats\<lparr>wts_revocations := n\<rparr>)"

definition record_reason :: "wake_reason \<Rightarrow> bool \<Rightarrow> wait_stats \<Rightarrow> (wait_error, wait_stats) result" where
  "record_reason reason immediate stats =
     rbind (if immediate then ok_or WaitAccountingOverflow (checked_add 64 (wts_immediate_wakes stats) 1)
            else Inr (wts_immediate_wakes stats)) (\<lambda>immediate_wakes.
     rbind (if immediate then Inr (wts_wakes stats)
            else ok_or WaitAccountingOverflow (checked_add 64 (wts_wakes stats) 1)) (\<lambda>wakes.
     rbind (ok_or WaitAccountingOverflow (checked_add 64 (reason_counter reason stats) 1)) (\<lambda>counter.
     Inr (set_reason_counter reason counter (stats\<lparr>wts_immediate_wakes := immediate_wakes, wts_wakes := wakes\<rparr>)))))"

definition observed_reason :: "wait_spec \<Rightarrow> wait_observation \<Rightarrow> nat \<Rightarrow> wake_reason option" where
  "observed_reason spec observation now =
     (case observation of
        ObservePending \<Rightarrow> (case sp_deadline spec of Some deadline \<Rightarrow> if deadline \<le> now then Some WakeDeadline else None | None \<Rightarrow> None)
      | ObserveResourceReady \<Rightarrow> Some WakeResourceReady
      | ObserveResourceClosed \<Rightarrow> Some WakeClosed
      | ObserveCancelled \<Rightarrow> Some WakeCancelled
      | ObserveOwnerRevoked \<Rightarrow> Some WakeRevoked)"

definition slot_spec :: "wait_slot \<Rightarrow> wait_spec option" where
  "slot_spec slot = map_option wrec_spec (wsl_record slot)"

definition slot_has :: "(wait_spec \<Rightarrow> bool) \<Rightarrow> wait_slot \<Rightarrow> bool" where
  "slot_has P slot = (case slot_spec slot of None \<Rightarrow> False | Some spec \<Rightarrow> P spec)"

section \<open>Registration\<close>

definition claim_slot :: "bool \<Rightarrow> wait_table \<Rightarrow> (wait_error, nat \<times> wait_table) result" where
  "claim_slot reserved t =
     (case position (\<lambda>slot. wsl_record slot = None \<and> \<not> wsl_retired slot) (wt_slots t) of
        Some index \<Rightarrow> Inr (index, t)
      | None \<Rightarrow>
          if length (wt_slots t) = wt_capacity t then Inl WaitCapacityExhausted
          else if \<not> reserved then Inl WaitMetadataExhausted
          else Inr (length (wt_slots t),
                 t\<lparr>wt_slots := wt_slots t @ [\<lparr>wsl_generation = 1, wsl_retired = False, wsl_record = None\<rparr>]\<rparr>))"

definition publish_at :: "wait_spec \<Rightarrow> nat \<Rightarrow> wait_table \<Rightarrow> (wait_error, wait_registration) result \<times> wait_table" where
  "publish_at spec index t =
     (case try_into 32 index of
        None \<Rightarrow> (Inl WaitAccountingOverflow, t)
      | Some slot \<Rightarrow>
          let key = \<lparr>wk_slot = slot, wk_generation = wsl_generation (wt_slots t ! index)\<rparr> in
          case checked_add 32 (wts_live (wt_stats t)) 1 of
            None \<Rightarrow> (Inl WaitAccountingOverflow, t)
          | Some live \<Rightarrow>
              (Inr (RegistrationBlocked key),
               t\<lparr>wt_slots := (wt_slots t)[index := (wt_slots t ! index)\<lparr>wsl_record := Some \<lparr>wrec_key = key, wrec_spec = spec\<rparr>\<rparr>],
                 wt_stats := (wt_stats t)\<lparr>wts_live := live, wts_high_water := max (wts_high_water (wt_stats t)) live\<rparr>\<rparr>))"

definition wait_register ::
    "bool \<Rightarrow> wait_spec \<Rightarrow> wait_observation \<Rightarrow> nat \<Rightarrow> wait_table \<Rightarrow> (wait_error, wait_registration) result \<times> wait_table" where
  "wait_register reserved spec observation now t =
     (if list_ex (slot_has (\<lambda>r. caller_conflicts (sp_owner r) (sp_owner spec))) (wt_slots t) then (Inl OwnerAlreadyWaiting, t)
      else if list_ex (slot_has (\<lambda>r. sp_operation r = sp_operation spec)) (wt_slots t) then (Inl OperationAlreadyWaiting, t)
      else case observed_reason spec observation now of
        Some reason \<Rightarrow>
          if \<not> spec_accepts spec reason then (Inl UnexpectedWake, t)
          else (case record_reason reason True (wt_stats t) of
            Inl e \<Rightarrow> (Inl e, t)
          | Inr stats \<Rightarrow> (Inr (RegistrationReady reason), t\<lparr>wt_stats := stats\<rparr>))
      | None \<Rightarrow>
          (case claim_slot reserved t of
             Inl e \<Rightarrow> (Inl e, t)
           | Inr (index, t') \<Rightarrow> publish_at spec index t'))"

section \<open>Completion\<close>

definition vacate :: "wait_slot \<Rightarrow> wait_slot" where
  "vacate slot =
     (case checked_add 32 (wsl_generation slot) 1 of
        Some generation \<Rightarrow> slot\<lparr>wsl_record := None, wsl_generation := generation\<rparr>
      | None \<Rightarrow> slot\<lparr>wsl_record := None, wsl_retired := True\<rparr>)"

definition resolve_index :: "nat \<Rightarrow> wake_reason \<Rightarrow> wait_table \<Rightarrow> (wait_error, wait_completion \<times> wait_table) result" where
  "resolve_index index reason t =
     rbind (ok_or StaleWait (wsl_record (wt_slots t ! index))) (\<lambda>r.
     rbind (ok_or WaitAccountingOverflow (checked_sub (wts_live (wt_stats t)) 1)) (\<lambda>live.
     rbind (record_reason reason False (wt_stats t)) (\<lambda>stats.
     Inr (\<lparr>cn_key = wrec_key r, cn_owner = sp_owner (wrec_spec r), cn_operation = sp_operation (wrec_spec r), cn_reason = reason\<rparr>,
          t\<lparr>wt_slots := (wt_slots t)[index := vacate (wt_slots t ! index)], wt_stats := stats\<lparr>wts_live := live\<rparr>\<rparr>))))"

text \<open>A fallible step on a table: an error leaves the table as it was.\<close>

definition on_table :: "(wait_error, 'a \<times> wait_table) result \<Rightarrow> wait_table \<Rightarrow> (wait_error, 'a) result \<times> wait_table" where
  "on_table r t = (case r of Inl e \<Rightarrow> (Inl e, t) | Inr (x, t') \<Rightarrow> (Inr x, t'))"

definition key_valid :: "wait_key \<Rightarrow> wait_table \<Rightarrow> bool" where
  "key_valid key t \<longleftrightarrow> wk_slot key < length (wt_slots t) \<and>
     wsl_generation (wt_slots t ! wk_slot key) = wk_generation key \<and>
     (case wsl_record (wt_slots t ! wk_slot key) of None \<Rightarrow> False | Some r \<Rightarrow> wrec_key r = key)"

definition count_stale :: "wait_table \<Rightarrow> (wait_error, wait_table) result" where
  "count_stale t =
     rbind (ok_or WaitAccountingOverflow (checked_add 64 (wts_stale_wakes (wt_stats t)) 1)) (\<lambda>stale_wakes.
     Inr (t\<lparr>wt_stats := (wt_stats t)\<lparr>wts_stale_wakes := stale_wakes\<rparr>\<rparr>))"

definition wait_wake :: "wait_key \<Rightarrow> wake_reason \<Rightarrow> wait_table \<Rightarrow> (wait_error, wait_completion) result \<times> wait_table" where
  "wait_wake key reason t =
     (if \<not> key_valid key t then
        (case count_stale t of Inl e \<Rightarrow> (Inl e, t) | Inr t' \<Rightarrow> (Inl StaleWait, t'))
      else
        (case wsl_record (wt_slots t ! wk_slot key) of
           None \<Rightarrow> (Inl StaleWait, t)
         | Some r \<Rightarrow>
             if \<not> spec_accepts (wrec_spec r) reason then (Inl UnexpectedWake, t)
             else on_table (resolve_index (wk_slot key) reason t) t))"

text \<open>The loop of the batch operations over all slots, resolving those whose specification satisfies \<open>P\<close>.\<close>

fun resolve_where ::
    "(wait_spec \<Rightarrow> bool) \<Rightarrow> wake_reason \<Rightarrow> (nat \<Rightarrow> bool) \<Rightarrow> nat list \<Rightarrow> wait_completion list \<Rightarrow> wait_table \<Rightarrow>
     (wait_error, wait_completion list) result \<times> wait_table" where
  "resolve_where P reason reserve [] batch t = (Inr batch, t)"
| "resolve_where P reason reserve (index # indexes) batch t =
     (if slot_has P (wt_slots t ! index) then
        (case resolve_index index reason t of
           Inl e \<Rightarrow> (Inl e, t)
         | Inr (completion, t') \<Rightarrow>
             if \<not> reserve (length batch) then (Inl WaitMetadataExhausted, t')
             else resolve_where P reason reserve indexes (batch @ [completion]) t')
      else resolve_where P reason reserve indexes batch t)"

definition wake_resource ::
    "(nat \<Rightarrow> bool) \<Rightarrow> wait_resource \<Rightarrow> wake_reason \<Rightarrow> wait_table \<Rightarrow> (wait_error, wait_completion list) result \<times> wait_table" where
  "wake_resource reserve resource reason t =
     (if \<not> (reason = WakeResourceReady \<or> reason = WakeClosed) then (Inl UnexpectedWake, t)
      else
        let stale_generation = list_ex (slot_has (\<lambda>spec. case sp_resource spec of None \<Rightarrow> False
              | Some retained \<Rightarrow> wr_identity retained = wr_identity resource \<and> wr_generation retained \<noteq> wr_generation resource))
              (wt_slots t)
        in case resolve_where (\<lambda>spec. sp_resource spec = Some resource \<and> spec_accepts spec reason) reason reserve
                  [0..<length (wt_slots t)] [] t of
             (Inl e, t') \<Rightarrow> (Inl e, t')
           | (Inr batch, t') \<Rightarrow>
               if batch = [] \<and> stale_generation
               then (case count_stale t' of Inl e \<Rightarrow> (Inl e, t') | Inr t'' \<Rightarrow> (Inr batch, t''))
               else (Inr batch, t'))"

definition observe_operation ::
    "operation_id \<Rightarrow> wait_resource option \<Rightarrow> wait_observation \<Rightarrow> nat \<Rightarrow> wait_table \<Rightarrow>
     (wait_error, wait_completion option) result \<times> wait_table" where
  "observe_operation operation resource observation now t =
     (case position (slot_has (\<lambda>spec. sp_operation spec = operation)) (wt_slots t) of
        None \<Rightarrow> (Inl StaleWait, t)
      | Some index \<Rightarrow>
          (case slot_spec (wt_slots t ! index) of
             None \<Rightarrow> (Inl StaleWait, t)
           | Some spec \<Rightarrow>
               if resource \<noteq> sp_resource spec then (Inl WaitInvalidResource, t)
               else (case observed_reason spec observation now of
                 None \<Rightarrow> (Inr None, t)
               | Some reason \<Rightarrow>
                   if \<not> spec_accepts spec reason then (Inl UnexpectedWake, t)
                   else on_table (map_sum (\<lambda>x. x) (map_prod Some (\<lambda>x. x)) (resolve_index index reason t)) t)))"

definition wait_expire :: "(nat \<Rightarrow> bool) \<Rightarrow> nat \<Rightarrow> wait_table \<Rightarrow> (wait_error, wait_completion list) result \<times> wait_table" where
  "wait_expire reserve now t =
     resolve_where (\<lambda>spec. interest_contains (sp_interests spec) INTEREST_DEADLINE \<and>
         (case sp_deadline spec of None \<Rightarrow> False | Some deadline \<Rightarrow> deadline \<le> now)) WakeDeadline reserve [0..<length (wt_slots t)] [] t"

definition cancel_operation ::
    "operation_id \<Rightarrow> wake_reason \<Rightarrow> wait_table \<Rightarrow> (wait_error, wait_completion option) result \<times> wait_table" where
  "cancel_operation operation reason t =
     (if \<not> reason_is_terminal reason then (Inl UnexpectedWake, t)
      else (case position (slot_has (\<lambda>spec. sp_operation spec = operation)) (wt_slots t) of
        None \<Rightarrow> (Inr None, t)
      | Some index \<Rightarrow> on_table (map_sum (\<lambda>x. x) (map_prod Some (\<lambda>x. x)) (resolve_index index reason t)) t))"

text \<open>\<open>discard_owner\<close> counts what it resolves and pushes nothing, so no reservation can fail.\<close>

definition discard_owner :: "task_id \<Rightarrow> wake_reason \<Rightarrow> wait_table \<Rightarrow> (wait_error, nat) result \<times> wait_table" where
  "discard_owner owner reason t =
     (if \<not> (reason = WakeCancelled \<or> reason = WakeRevoked) then (Inl UnexpectedWake, t)
      else map_prod (map_sum (\<lambda>e. e) length) (\<lambda>t. t)
        (resolve_where (\<lambda>spec. wc_task (sp_owner spec) = owner) reason (\<lambda>_. True) [0..<length (wt_slots t)] [] t))"

definition cancel_owner ::
    "(nat \<Rightarrow> bool) \<Rightarrow> task_id \<Rightarrow> wake_reason \<Rightarrow> wait_table \<Rightarrow> (wait_error, wait_completion list) result \<times> wait_table" where
  "cancel_owner reserve owner reason t =
     (if \<not> (reason = WakeCancelled \<or> reason = WakeRevoked) then (Inl UnexpectedWake, t)
      else (case position (slot_has (\<lambda>spec. wc_task (sp_owner spec) = owner)) (wt_slots t) of
        None \<Rightarrow> (Inr [], t)
      | Some index \<Rightarrow>
          (case resolve_index index reason t of
             Inl e \<Rightarrow> (Inl e, t)
           | Inr (completion, t') \<Rightarrow> if \<not> reserve 0 then (Inl WaitMetadataExhausted, t') else (Inr [completion], t'))))"

lemma caller_conflicts_sym: "caller_conflicts a b = caller_conflicts b a"
  by (auto simp: caller_conflicts_def)

end
