(* ===== verification/Deferred_Call.thy ===== *)
theory Deferred_Call
  imports Wait_Table
begin

text \<open>
  Copied pending calls of tasks (\<open>troe-task/src/wait.rs\<close>, \<open>PendingCallTable\<close>): requests copied
  into slot buffers, bound to a published wait, resolved by its completion, and zeroed when
  they are finished or torn down. Errors after the first write return the changed table.
\<close>

section \<open>Identities\<close>

definition MAX_RETAINED_CALLS :: nat where "MAX_RETAINED_CALLS = 65536"

definition MAX_PENDING_REQUEST_BYTES :: nat where "MAX_PENDING_REQUEST_BYTES = 4 * 1024"

datatype deferred_error =
    DeferredInvalidCaller | DeferredInvalidCapacity | DeferredMetadataExhausted | DeferredCapacityExhausted
  | ByteCapacityExhausted | MessageTooLarge | RequestIdentityNotMonotonic | OwnerAlreadyPending | StaleOperation
  | InvalidState | MismatchedWake | DeferredAccountingOverflow

definition operation_abi_value :: "operation_id \<Rightarrow> u64" where
  "operation_abi_value self = push_bit 32 (of_nat (op_generation self)) OR of_nat (op_slot self)"

definition operation_from_abi_value :: "u64 \<Rightarrow> (deferred_error, operation_id) result" where
  "operation_from_abi_value value =
     (let bytes = le_bytes 8 value;
          generation = from_le_bytes [bytes ! 4, bytes ! 5, bytes ! 6, bytes ! 7] :: u32
      in if generation = 0 then Inl StaleOperation
         else Inr \<lparr>op_slot = unat (from_le_bytes [bytes ! 0, bytes ! 1, bytes ! 2, bytes ! 3] :: u32),
                op_generation = unat generation\<rparr>)"

section \<open>Table\<close>

datatype deferred_state = DeferredNew | DeferredWaiting wait_key | DeferredReady wake_reason

record deferred_call =
  dc_id :: operation_id
  dc_owner :: pending_caller
  dc_request_id :: nat
  dc_handle :: u64
  dc_opcode :: u16
  dc_request_bytes :: nat
  dc_reply_capacity :: nat
  dc_state :: deferred_state

record deferred_stats =
  ds_live :: nat
  ds_high_water :: nat
  ds_retained_bytes :: nat
  ds_retained_bytes_high_water :: nat
  ds_completed :: nat
  ds_terminal_completions :: nat
  ds_zeroized_bytes :: nat

record deferred_slot =
  dsl_generation :: nat
  dsl_retired :: bool
  dsl_record :: "deferred_call option"
  dsl_request :: "byte list"

definition deferred_slot_empty :: deferred_slot where
  "deferred_slot_empty = \<lparr>dsl_generation = 1, dsl_retired = False, dsl_record = None,
     dsl_request = replicate MAX_PENDING_REQUEST_BYTES 0\<rparr>"

record deferred_table =
  dt_slots :: "deferred_slot list"
  dt_capacity :: nat
  dt_retained_byte_capacity :: nat
  dt_last_request_id :: nat
  dt_stats :: deferred_stats

definition deferred_new :: "bool \<Rightarrow> nat \<Rightarrow> nat \<Rightarrow> (deferred_error, deferred_table) result" where
  "deferred_new reserved capacity retained_byte_capacity =
     rbind (ok_or DeferredInvalidCapacity (checked_mul 64 capacity MAX_PENDING_REQUEST_BYTES)) (\<lambda>maximum_bytes.
     if capacity = 0 \<or> capacity > MAX_RETAINED_CALLS \<or> retained_byte_capacity > maximum_bytes \<or>
        retained_byte_capacity > 2 ^ 32 - 1
     then Inl DeferredInvalidCapacity
     else if \<not> reserved then Inl DeferredMetadataExhausted
     else rbind (ok_or DeferredInvalidCapacity (try_into 32 retained_byte_capacity)) (\<lambda>retained_byte_capacity.
       Inr \<lparr>dt_slots = [], dt_capacity = capacity, dt_retained_byte_capacity = retained_byte_capacity, dt_last_request_id = 0,
         dt_stats = \<lparr>ds_live = 0, ds_high_water = 0, ds_retained_bytes = 0, ds_retained_bytes_high_water = 0,
           ds_completed = 0, ds_terminal_completions = 0, ds_zeroized_bytes = 0\<rparr>\<rparr>))"

definition deferred_has :: "(deferred_call \<Rightarrow> bool) \<Rightarrow> deferred_slot \<Rightarrow> bool" where
  "deferred_has P slot = (case dsl_record slot of None \<Rightarrow> False | Some call \<Rightarrow> P call)"

section \<open>Admission\<close>

definition deferred_claim :: "bool \<Rightarrow> deferred_table \<Rightarrow> (deferred_error, nat \<times> deferred_table) result" where
  "deferred_claim reserved t =
     (case position (\<lambda>slot. dsl_record slot = None \<and> \<not> dsl_retired slot) (dt_slots t) of
        Some index \<Rightarrow> Inr (index, t)
      | None \<Rightarrow>
          if length (dt_slots t) = dt_capacity t then Inl DeferredCapacityExhausted
          else if \<not> reserved then Inl DeferredMetadataExhausted
          else Inr (length (dt_slots t), t\<lparr>dt_slots := dt_slots t @ [deferred_slot_empty]\<rparr>))"

definition deferred_retain ::
    "pending_caller \<Rightarrow> nat \<Rightarrow> u64 \<Rightarrow> u16 \<Rightarrow> byte list \<Rightarrow> nat \<Rightarrow> nat \<Rightarrow> nat \<Rightarrow> deferred_table \<Rightarrow>
     (deferred_error, operation_id) result \<times> deferred_table" where
  "deferred_retain owner request_id handle opcode req reply_capacity retained_bytes index t =
     (case checked_add 32 (ds_live (dt_stats t)) 1 of
        None \<Rightarrow> (Inl DeferredAccountingOverflow, t)
      | Some live \<Rightarrow>
     (case try_into 32 index of
        None \<Rightarrow> (Inl DeferredAccountingOverflow, t)
      | Some slot \<Rightarrow>
          let oid = \<lparr>op_slot = slot, op_generation = dsl_generation (dt_slots t ! index)\<rparr>;
              copied = (dt_slots t ! index)\<lparr>dsl_request := copy_at 0 req (dsl_request (dt_slots t ! index))\<rparr>;
              t' = t\<lparr>dt_slots := (dt_slots t)[index := copied]\<rparr>
          in case (try_into 16 (length req), try_into 16 reply_capacity) of
               (Some request_bytes, Some reply) \<Rightarrow>
                 (Inr oid,
                  t'\<lparr>dt_slots := (dt_slots t')[index := copied\<lparr>dsl_record := Some \<lparr>dc_id = oid, dc_owner = owner,
                       dc_request_id = request_id, dc_handle = handle, dc_opcode = opcode, dc_request_bytes = request_bytes,
                       dc_reply_capacity = reply, dc_state = DeferredNew\<rparr>\<rparr>],
                    dt_last_request_id := request_id,
                    dt_stats := (dt_stats t')\<lparr>ds_live := live, ds_high_water := max (ds_high_water (dt_stats t')) live,
                      ds_retained_bytes := retained_bytes,
                      ds_retained_bytes_high_water := max (ds_retained_bytes_high_water (dt_stats t')) retained_bytes\<rparr>\<rparr>)
             | _ \<Rightarrow> (Inl DeferredAccountingOverflow, t')))"

definition deferred_begin_for ::
    "bool \<Rightarrow> pending_caller \<Rightarrow> nat \<Rightarrow> u64 \<Rightarrow> u16 \<Rightarrow> byte list \<Rightarrow> nat \<Rightarrow> deferred_table \<Rightarrow>
     (deferred_error, operation_id) result \<times> deferred_table" where
  "deferred_begin_for reserved owner request_id handle opcode req reply_capacity t =
     (if length req > MAX_PENDING_REQUEST_BYTES \<or> reply_capacity > MAX_PENDING_REQUEST_BYTES then (Inl MessageTooLarge, t)
      else if request_id = 0 \<or> request_id \<le> dt_last_request_id t then (Inl RequestIdentityNotMonotonic, t)
      else if list_ex (deferred_has (\<lambda>call. caller_conflicts (dc_owner call) owner)) (dt_slots t) then (Inl OwnerAlreadyPending, t)
      else (case rbind (ok_or DeferredAccountingOverflow (try_into 32 (length req))) (\<lambda>request_bytes.
                 ok_or DeferredAccountingOverflow (checked_add 32 (ds_retained_bytes (dt_stats t)) request_bytes)) of
        Inl e \<Rightarrow> (Inl e, t)
      | Inr retained_bytes \<Rightarrow>
          if retained_bytes > dt_retained_byte_capacity t then (Inl ByteCapacityExhausted, t)
          else (case deferred_claim reserved t of
            Inl e \<Rightarrow> (Inl e, t)
          | Inr (index, t') \<Rightarrow>
              deferred_retain owner request_id handle opcode req reply_capacity retained_bytes index t')))"

definition deferred_begin ::
    "bool \<Rightarrow> task_id \<Rightarrow> nat \<Rightarrow> u64 \<Rightarrow> u16 \<Rightarrow> byte list \<Rightarrow> nat \<Rightarrow> deferred_table \<Rightarrow>
     (deferred_error, operation_id) result \<times> deferred_table" where
  "deferred_begin reserved owner = deferred_begin_for reserved (caller_task owner)"

section \<open>State changes\<close>

definition validate_operation :: "operation_id \<Rightarrow> deferred_table \<Rightarrow> (deferred_error, nat) result" where
  "validate_operation operation t =
     (if op_slot operation < length (dt_slots t) \<and>
         dsl_generation (dt_slots t ! op_slot operation) = op_generation operation \<and>
         deferred_has (\<lambda>call. dc_id call = operation) (dt_slots t ! op_slot operation)
      then Inr (op_slot operation) else Inl StaleOperation)"

definition deferred_record :: "operation_id \<Rightarrow> deferred_table \<Rightarrow> (deferred_error, deferred_call) result" where
  "deferred_record operation t =
     rbind (validate_operation operation t) (\<lambda>index. ok_or StaleOperation (dsl_record (dt_slots t ! index)))"

definition set_state :: "operation_id \<Rightarrow> deferred_state \<Rightarrow> deferred_table \<Rightarrow> deferred_table" where
  "set_state operation state t =
     t\<lparr>dt_slots := (dt_slots t)[op_slot operation := (dt_slots t ! op_slot operation)\<lparr>dsl_record :=
         map_option (\<lambda>call. call\<lparr>dc_state := state\<rparr>) (dsl_record (dt_slots t ! op_slot operation))\<rparr>]\<rparr>"

definition bind_wait :: "operation_id \<Rightarrow> wait_key \<Rightarrow> deferred_table \<Rightarrow> (deferred_error, deferred_table) result" where
  "bind_wait operation wait t =
     rbind (deferred_record operation t) (\<lambda>call.
     if dc_state call \<noteq> DeferredNew then Inl InvalidState
     else Inr (set_state operation (DeferredWaiting wait) t))"

definition mark_ready :: "operation_id \<Rightarrow> wake_reason \<Rightarrow> deferred_table \<Rightarrow> (deferred_error, deferred_table) result" where
  "mark_ready operation reason t =
     rbind (deferred_record operation t) (\<lambda>call.
     if dc_state call \<noteq> DeferredNew then Inl InvalidState
     else Inr (set_state operation (DeferredReady reason) t))"

definition deferred_resolve :: "wait_completion \<Rightarrow> deferred_table \<Rightarrow> (deferred_error, deferred_table) result" where
  "deferred_resolve completion t =
     rbind (deferred_record (cn_operation completion) t) (\<lambda>call.
     if dc_owner call \<noteq> cn_owner completion \<or> dc_state call \<noteq> DeferredWaiting (cn_key completion) then Inl MismatchedWake
     else Inr (set_state (cn_operation completion) (DeferredReady (cn_reason completion)) t))"

definition deferred_request :: "operation_id \<Rightarrow> deferred_table \<Rightarrow> (deferred_error, byte list) result" where
  "deferred_request operation t =
     rbind (validate_operation operation t) (\<lambda>index.
     rbind (ok_or StaleOperation (dsl_record (dt_slots t ! index))) (\<lambda>call.
     Inr (take (dc_request_bytes call) (dsl_request (dt_slots t ! index)))))"

section \<open>Release\<close>

definition deferred_vacate :: "nat \<Rightarrow> deferred_slot \<Rightarrow> deferred_slot" where
  "deferred_vacate n slot =
     (let cleared = slot\<lparr>dsl_request := copy_at 0 (replicate n 0) (dsl_request slot), dsl_record := None\<rparr>
      in case checked_add 32 (dsl_generation slot) 1 of
           Some generation \<Rightarrow> cleared\<lparr>dsl_generation := generation\<rparr>
         | None \<Rightarrow> cleared\<lparr>dsl_retired := True\<rparr>)"

definition release_index :: "nat \<Rightarrow> deferred_call \<Rightarrow> bool \<Rightarrow> deferred_table \<Rightarrow> (deferred_error, deferred_table) result" where
  "release_index index call terminal t =
     rbind (ok_or DeferredAccountingOverflow (checked_sub (ds_live (dt_stats t)) 1)) (\<lambda>live.
     rbind (ok_or DeferredAccountingOverflow (checked_sub (ds_retained_bytes (dt_stats t)) (dc_request_bytes call))) (\<lambda>retained_bytes.
     rbind (ok_or DeferredAccountingOverflow (checked_add 64 (ds_completed (dt_stats t)) 1)) (\<lambda>completed.
     rbind (if terminal then ok_or DeferredAccountingOverflow (checked_add 64 (ds_terminal_completions (dt_stats t)) 1)
            else Inr (ds_terminal_completions (dt_stats t))) (\<lambda>terminal_completions.
     rbind (ok_or DeferredAccountingOverflow (checked_add 64 (ds_zeroized_bytes (dt_stats t)) (dc_request_bytes call))) (\<lambda>zeroized_bytes.
     Inr (t\<lparr>dt_slots := (dt_slots t)[index := deferred_vacate (dc_request_bytes call) (dt_slots t ! index)],
            dt_stats := (dt_stats t)\<lparr>ds_live := live, ds_retained_bytes := retained_bytes, ds_completed := completed,
              ds_terminal_completions := terminal_completions, ds_zeroized_bytes := zeroized_bytes\<rparr>\<rparr>))))))"

definition deferred_finish :: "operation_id \<Rightarrow> deferred_table \<Rightarrow> (deferred_error, deferred_call \<times> deferred_table) result" where
  "deferred_finish operation t =
     rbind (validate_operation operation t) (\<lambda>index.
     rbind (ok_or StaleOperation (dsl_record (dt_slots t ! index))) (\<lambda>call.
     case dc_state call of
       DeferredReady reason \<Rightarrow>
         rbind (release_index index call (reason_is_terminal reason) t) (\<lambda>t'. Inr (call, t'))
     | _ \<Rightarrow> Inl InvalidState))"

fun teardown_totals :: "task_id \<Rightarrow> deferred_slot list \<Rightarrow> nat \<Rightarrow> nat \<Rightarrow> (deferred_error, nat \<times> nat) result" where
  "teardown_totals owner [] matching matching_bytes = Inr (matching, matching_bytes)"
| "teardown_totals owner (slot # slots) matching matching_bytes =
     (case dsl_record slot of
        None \<Rightarrow> teardown_totals owner slots matching matching_bytes
      | Some call \<Rightarrow>
          if wc_task (dc_owner call) \<noteq> owner then teardown_totals owner slots matching matching_bytes
          else rbind (ok_or DeferredAccountingOverflow (checked_add 32 matching 1)) (\<lambda>matching.
               rbind (ok_or DeferredAccountingOverflow (checked_add 32 matching_bytes (dc_request_bytes call))) (\<lambda>matching_bytes.
               teardown_totals owner slots matching matching_bytes)))"

fun teardown_loop :: "task_id \<Rightarrow> nat list \<Rightarrow> deferred_table \<Rightarrow> (deferred_error, unit) result \<times> deferred_table" where
  "teardown_loop owner [] t = (Inr (), t)"
| "teardown_loop owner (index # indexes) t =
     (case dsl_record (dt_slots t ! index) of
        None \<Rightarrow> teardown_loop owner indexes t
      | Some call \<Rightarrow>
          if wc_task (dc_owner call) \<noteq> owner then teardown_loop owner indexes t
          else (case release_index index call True t of
            Inl e \<Rightarrow> (Inl e, t)
          | Inr t' \<Rightarrow> teardown_loop owner indexes t'))"

definition teardown_owner ::
    "task_id \<Rightarrow> wake_reason \<Rightarrow> deferred_table \<Rightarrow> (deferred_error, nat) result \<times> deferred_table" where
  "teardown_owner owner reason t =
     (if \<not> reason_is_terminal reason then (Inl InvalidState, t)
      else (case teardown_totals owner (dt_slots t) 0 0 of
        Inl e \<Rightarrow> (Inl e, t)
      | Inr (matching, matching_bytes) \<Rightarrow>
          if checked_sub (ds_live (dt_stats t)) matching = None \<or>
             checked_sub (ds_retained_bytes (dt_stats t)) matching_bytes = None \<or>
             checked_add 64 (ds_completed (dt_stats t)) matching = None \<or>
             checked_add 64 (ds_terminal_completions (dt_stats t)) matching = None \<or>
             checked_add 64 (ds_zeroized_bytes (dt_stats t)) matching_bytes = None
          then (Inl DeferredAccountingOverflow, t)
          else (case teardown_loop owner [0..<length (dt_slots t)] t of
            (Inl e, t') \<Rightarrow> (Inl e, t')
          | (Inr _, t') \<Rightarrow> (Inr matching, t'))))"

end
