(* ===== verification/Deferred_Call_Contract.thy ===== *)
theory Deferred_Call_Contract
  imports Deferred_Call
begin

text \<open>
  The abstract content of the pending-call table, a partial map from operations to a call and
  the bytes of its request, and the effect of each operation on it. The invariant says that
  every byte of a buffer outside a retained request is zero.
\<close>

section \<open>Operation tokens\<close>

lemma token_halves:
  "from_le_bytes [le_bytes 8 v ! 0, le_bytes 8 v ! 1, le_bytes 8 v ! 2, le_bytes 8 v ! 3] = (ucast (v :: u64) :: u32)"
  "from_le_bytes [le_bytes 8 v ! 4, le_bytes 8 v ! 5, le_bytes 8 v ! 6, le_bytes 8 v ! 7] = (ucast (drop_bit 32 v) :: u32)"
proof -
  have cut: "from_le_bytes (map (\<lambda>i. le_bytes 8 v ! (n + i)) [0..<4]) = (ucast (drop_bit (8 * n) v) :: u32)" if n: "n \<le> 4" for n
  proof (rule bit_word_eqI)
    fix k assume "k < LENGTH(32)"
    then have k: "k < 32" "k div 8 < 4" by simp_all
    have "8 * (n + k div 8) + k mod 8 = 8 * n + k" by simp
    moreover have "k mod 8 < Suc (Suc (Suc (Suc (Suc (Suc (Suc (Suc 0)))))))" using mod_less_divisor [of 8 k] by simp
    ultimately show "bit (from_le_bytes (map (\<lambda>i. le_bytes 8 v ! (n + i)) [0..<4]) :: u32) k = bit (ucast (drop_bit (8 * n) v) :: u32) k"
      using k n by (simp add: bit_from_le_bytes nth_le_bytes bit_ucast_iff bit_drop_bit_eq add.commute)
  qed
  have four: "[0..<4] = [0, 1, 2, 3 :: nat]" by (simp add: upt_rec numeral_2_eq_2 numeral_3_eq_3)
  show "from_le_bytes [le_bytes 8 v ! 0, le_bytes 8 v ! 1, le_bytes 8 v ! 2, le_bytes 8 v ! 3] = (ucast (v :: u64) :: u32)"
    using cut [of 0] unfolding four list.map by (simp del: from_le_bytes.simps add: numeral_2_eq_2)
  show "from_le_bytes [le_bytes 8 v ! 4, le_bytes 8 v ! 5, le_bytes 8 v ! 6, le_bytes 8 v ! 7] = (ucast (drop_bit 32 v) :: u32)"
    using cut [of 4] unfolding four list.map by (simp del: from_le_bytes.simps add: numeral_2_eq_2)
qed

lemma operation_token_iff:
  "operation_from_abi_value v = Inr k \<longleftrightarrow>
   op_slot k < 2 ^ 32 \<and> 0 < op_generation k \<and> op_generation k < 2 ^ 32 \<and> operation_abi_value k = v"
proof -
  have lo: "unat (ucast v :: u32) = unat v mod 2 ^ 32" by (simp add: unsigned_ucast_eq take_bit_eq_mod)
  have lt: "unat v div 2 ^ 32 < 2 ^ 32" using unsigned_less [of v, where 'a = nat] by simp
  then have hi: "unat (ucast (drop_bit 32 v) :: u32) = unat v div 2 ^ 32"
    by (simp add: unsigned_ucast_eq take_bit_eq_mod unat_high_bits)
  have dec: "operation_from_abi_value v = (if unat v div 2 ^ 32 = 0 then Inl StaleOperation
      else Inr \<lparr>op_slot = unat v mod 2 ^ 32, op_generation = unat v div 2 ^ 32\<rparr>)"
    unfolding operation_from_abi_value_def Let_def token_halves lo hi unat_eq_0 [symmetric] by simp
  have enc: "operation_abi_value k = v \<longleftrightarrow> unat v = op_generation k * 2 ^ 32 + op_slot k"
    if "op_slot k < 2 ^ 32" "op_generation k < 2 ^ 32"
  proof -
    have "op_generation k * 2 ^ 32 + op_slot k < 2 ^ LENGTH(64)" using that by simp
    then have "unat (of_nat (op_generation k * 2 ^ 32 + op_slot k) :: u64) = op_generation k * 2 ^ 32 + op_slot k" by (rule unat_of_nat_small)
    then show ?thesis unfolding operation_abi_value_def push_or_value [OF that(1)] by (metis unsigned_word_eqI)
  qed
  show ?thesis
  proof
    assume "operation_from_abi_value v = Inr k"
    then have k: "op_slot k = unat v mod 2 ^ 32" "op_generation k = unat v div 2 ^ 32" "unat v div 2 ^ 32 \<noteq> 0" by (auto simp: dec split: if_splits)
    then show "op_slot k < 2 ^ 32 \<and> 0 < op_generation k \<and> op_generation k < 2 ^ 32 \<and> operation_abi_value k = v"
      using enc lt by (simp add: mult.commute)
  next
    assume k: "op_slot k < 2 ^ 32 \<and> 0 < op_generation k \<and> op_generation k < 2 ^ 32 \<and> operation_abi_value k = v"
    then have "unat v = op_generation k * 2 ^ 32 + op_slot k" using enc by blast
    then have "unat v mod 2 ^ 32 = op_slot k" "unat v div 2 ^ 32 = op_generation k" using k by simp_all
    then show "operation_from_abi_value v = Inr k" using k by (cases k) (simp add: dec)
  qed
qed

section \<open>Abstraction and invariant\<close>

definition deferred_id :: "nat \<Rightarrow> deferred_slot \<Rightarrow> operation_id" where
  "deferred_id i slot = \<lparr>op_slot = i, op_generation = dsl_generation slot\<rparr>"

definition slot_call :: "deferred_slot \<Rightarrow> (deferred_call \<times> byte list) option" where
  "slot_call slot = map_option (\<lambda>c. (c, take (dc_request_bytes c) (dsl_request slot))) (dsl_record slot)"

definition deferred_view :: "deferred_table \<Rightarrow> operation_id \<rightharpoonup> deferred_call \<times> byte list" where
  "deferred_view t k = (if op_slot k < length (dt_slots t) \<and> dsl_generation (dt_slots t ! op_slot k) = op_generation k
     then slot_call (dt_slots t ! op_slot k) else None)"

definition slot_bytes :: "deferred_slot \<Rightarrow> nat" where
  "slot_bytes slot = (case dsl_record slot of None \<Rightarrow> 0 | Some c \<Rightarrow> dc_request_bytes c)"

definition deferred_slot_ok :: "nat \<Rightarrow> deferred_slot \<Rightarrow> bool" where
  "deferred_slot_ok i slot \<longleftrightarrow> dsl_generation slot < 2 ^ 32 \<and> length (dsl_request slot) = MAX_PENDING_REQUEST_BYTES \<and>
     drop (slot_bytes slot) (dsl_request slot) = replicate (MAX_PENDING_REQUEST_BYTES - slot_bytes slot) 0 \<and>
     slot_bytes slot \<le> MAX_PENDING_REQUEST_BYTES \<and>
     (\<forall>c. dsl_record slot = Some c \<longrightarrow> dc_id c = deferred_id i slot \<and> \<not> dsl_retired slot)"

definition callers_compatible :: "(operation_id \<rightharpoonup> deferred_call \<times> byte list) \<Rightarrow> bool" where
  "callers_compatible v \<longleftrightarrow> (\<forall>k k' c c'. v k = Some c \<longrightarrow> v k' = Some c' \<longrightarrow> k \<noteq> k' \<longrightarrow>
     \<not> caller_conflicts (dc_owner (fst c)) (dc_owner (fst c')))"

definition deferred_ok :: "deferred_table \<Rightarrow> bool" where
  "deferred_ok t \<longleftrightarrow> length (dt_slots t) \<le> dt_capacity t \<and> dt_capacity t \<le> MAX_RETAINED_CALLS \<and>
     (\<forall>i<length (dt_slots t). deferred_slot_ok i (dt_slots t ! i)) \<and>
     ds_live (dt_stats t) = count_if (\<lambda>x. dsl_record x \<noteq> None) (dt_slots t) \<and>
     ds_retained_bytes (dt_stats t) = sum_list (map slot_bytes (dt_slots t)) \<and>
     ds_retained_bytes (dt_stats t) \<le> dt_retained_byte_capacity t \<and> dt_retained_byte_capacity t < 2 ^ 32 \<and>
     callers_compatible (deferred_view t)"

lemma deferred_okD:
  assumes "deferred_ok t"
  shows "length (dt_slots t) \<le> 65536" "\<And>i. i < length (dt_slots t) \<Longrightarrow> deferred_slot_ok i (dt_slots t ! i)"
    "callers_compatible (deferred_view t)" "ds_live (dt_stats t) = count_if (\<lambda>x. dsl_record x \<noteq> None) (dt_slots t)"
    "ds_live (dt_stats t) \<le> 65536" "ds_retained_bytes (dt_stats t) = sum_list (map slot_bytes (dt_slots t))"
    "ds_retained_bytes (dt_stats t) \<le> dt_retained_byte_capacity t" "dt_retained_byte_capacity t < 2 ^ 32"
  using assms count_if_le_length [of "\<lambda>x. dsl_record x \<noteq> None" "dt_slots t"]
  unfolding deferred_ok_def MAX_RETAINED_CALLS_def by - (linarith | blast)+

lemma deferred_view_SomeE:
  assumes "deferred_view t k = Some p"
  obtains c where "op_slot k < length (dt_slots t)" "dsl_record (dt_slots t ! op_slot k) = Some c"
    "dsl_generation (dt_slots t ! op_slot k) = op_generation k"
    "p = (c, take (dc_request_bytes c) (dsl_request (dt_slots t ! op_slot k)))"
    "deferred_id (op_slot k) (dt_slots t ! op_slot k) = k"
  using assms by (cases k) (auto simp: deferred_view_def slot_call_def deferred_id_def split: if_splits)

lemma deferred_slot_view:
  assumes "i < length (dt_slots t)"
  shows "deferred_view t (deferred_id i (dt_slots t ! i)) = slot_call (dt_slots t ! i)"
  using assms by (simp add: deferred_view_def deferred_id_def)

lemma deferred_has_view:
  "list_ex (deferred_has P) (dt_slots t) \<longleftrightarrow> (\<exists>k c r. deferred_view t k = Some (c, r) \<and> P c)"
proof
  assume "list_ex (deferred_has P) (dt_slots t)"
  then obtain i c where "i < length (dt_slots t)" "dsl_record (dt_slots t ! i) = Some c" "P c"
    by (auto simp: list_ex_length deferred_has_def split: option.splits)
  then have "deferred_view t (deferred_id i (dt_slots t ! i)) = Some (c, take (dc_request_bytes c) (dsl_request (dt_slots t ! i)))"
    using deferred_slot_view by (simp add: slot_call_def)
  then show "\<exists>k c r. deferred_view t k = Some (c, r) \<and> P c" using \<open>P c\<close> by blast
next
  assume "\<exists>k c r. deferred_view t k = Some (c, r) \<and> P c"
  then show "list_ex (deferred_has P) (dt_slots t)"
    by (auto elim!: deferred_view_SomeE simp: list_ex_length deferred_has_def)
qed

lemma deferred_view_update:
  assumes "i < length (dt_slots t)" "dt_slots t' = (dt_slots t)[i := y]"
  shows "deferred_view t' k =
    (if op_slot k = i then if dsl_generation y = op_generation k then slot_call y else None else deferred_view t k)"
  using assms by (auto simp: deferred_view_def)

lemma validate_view:
  assumes ok: "deferred_ok t"
  shows "validate_operation k t = (if deferred_view t k = None then Inl StaleOperation else Inr (op_slot k))"
proof (cases "op_slot k < length (dt_slots t)")
  case True
  show ?thesis
  proof (cases "dsl_record (dt_slots t ! op_slot k)")
    case None
    then show ?thesis by (simp add: validate_operation_def deferred_view_def slot_call_def deferred_has_def)
  next
    case (Some c)
    then have "dc_id c = deferred_id (op_slot k) (dt_slots t ! op_slot k)"
      using deferred_okD(2) [OF ok True] unfolding deferred_slot_ok_def by blast
    then show ?thesis using True Some
      by (cases k) (simp add: validate_operation_def deferred_view_def slot_call_def deferred_has_def deferred_id_def)
  qed
qed (simp add: validate_operation_def deferred_view_def)

lemma deferred_record_view:
  assumes ok: "deferred_ok t"
  shows "deferred_record k t = (case deferred_view t k of None \<Rightarrow> Inl StaleOperation | Some (c, r) \<Rightarrow> Inr c)"
    "deferred_request k t = (case deferred_view t k of None \<Rightarrow> Inl StaleOperation | Some (c, r) \<Rightarrow> Inr r)"
proof -
  have "deferred_record k t = (case deferred_view t k of None \<Rightarrow> Inl StaleOperation | Some (c, r) \<Rightarrow> Inr c) \<and>
    deferred_request k t = (case deferred_view t k of None \<Rightarrow> Inl StaleOperation | Some (c, r) \<Rightarrow> Inr r)"
  proof (cases "deferred_view t k")
    case None
    then show ?thesis by (simp add: deferred_record_def deferred_request_def validate_view [OF ok])
  next
    case (Some p)
    then show ?thesis
      by (auto elim!: deferred_view_SomeE simp: deferred_record_def deferred_request_def validate_view [OF ok])
  qed
  then show "deferred_record k t = (case deferred_view t k of None \<Rightarrow> Inl StaleOperation | Some (c, r) \<Rightarrow> Inr c)"
    "deferred_request k t = (case deferred_view t k of None \<Rightarrow> Inl StaleOperation | Some (c, r) \<Rightarrow> Inr r)" by blast+
qed

lemma callers_compatible_sub:
  assumes "callers_compatible v" "\<And>k c. v' k = Some c \<Longrightarrow> \<exists>c'. v k = Some c' \<and> dc_owner (fst c') = dc_owner (fst c)"
  shows "callers_compatible v'"
  unfolding callers_compatible_def
proof (intro allI impI)
  fix k k' c c' assume a: "v' k = Some c" "v' k' = Some c'" "k \<noteq> k'"
  from assms(2) [OF a(1)] assms(2) [OF a(2)] obtain d d' where d: "v k = Some d" "dc_owner (fst d) = dc_owner (fst c)"
    "v k' = Some d'" "dc_owner (fst d') = dc_owner (fst c')" by blast
  then have "\<not> caller_conflicts (dc_owner (fst d)) (dc_owner (fst d'))"
    using assms(1) a(3) unfolding callers_compatible_def by blast
  then show "\<not> caller_conflicts (dc_owner (fst c)) (dc_owner (fst c'))" using d by simp
qed

section \<open>Generations\<close>

definition deferred_floor :: "deferred_slot \<Rightarrow> nat" where
  "deferred_floor x = (if dsl_retired x then dsl_generation x + 1 else dsl_generation x)"

abbreviation deferred_advances :: "deferred_slot list \<Rightarrow> deferred_slot list \<Rightarrow> bool" where
  "deferred_advances \<equiv> table_advances dsl_generation (\<lambda>x. dsl_record x \<noteq> None) deferred_floor"

lemma slots_ok_update:
  assumes "\<forall>i<length xs. deferred_slot_ok i (xs ! i)" "deferred_slot_ok i y"
  shows "\<forall>j<length (xs[i := y]). deferred_slot_ok j (xs[i := y] ! j)"
proof (intro allI impI)
  fix j assume "j < length (xs[i := y])"
  then show "deferred_slot_ok j (xs[i := y] ! j)" using assms by (cases "j = i") simp_all
qed

section \<open>State changes\<close>

lemma set_state_effect:
  assumes ok: "deferred_ok t" and view: "deferred_view t k = Some (c, r)"
  shows "deferred_ok (set_state k st t)" "deferred_view (set_state k st t) = (deferred_view t)(k \<mapsto> (c\<lparr>dc_state := st\<rparr>, r))"
    "deferred_advances (dt_slots t) (dt_slots (set_state k st t))"
proof -
  let ?i = "op_slot k" let ?x = "dt_slots t ! ?i" let ?t = "set_state k st t"
  obtain i: "?i < length (dt_slots t)" and rc: "dsl_record ?x = Some c" and gen: "dsl_generation ?x = op_generation k"
    and r: "r = take (dc_request_bytes c) (dsl_request ?x)" and kid: "deferred_id ?i ?x = k"
    using deferred_view_SomeE [OF view] by blast
  let ?y = "?x\<lparr>dsl_record := Some (c\<lparr>dc_state := st\<rparr>)\<rparr>"
  have slots: "dt_slots ?t = (dt_slots t)[?i := ?y]" by (simp add: set_state_def rc)
  have bytes: "slot_bytes ?y = slot_bytes ?x" by (simp add: slot_bytes_def rc)
  have x: "deferred_slot_ok ?i ?x" by (rule deferred_okD(2) [OF ok i])
  then have y: "deferred_slot_ok ?i ?y" unfolding deferred_slot_ok_def bytes by (simp add: rc deferred_id_def)
  show v: "deferred_view ?t = (deferred_view t)(k \<mapsto> (c\<lparr>dc_state := st\<rparr>, r))"
  proof
    fix l
    show "deferred_view ?t l = ((deferred_view t)(k \<mapsto> (c\<lparr>dc_state := st\<rparr>, r))) l"
      using deferred_view_update [OF i slots, of l] gen r
      by (cases "l = k") (auto simp: slot_call_def deferred_view_def operation_id.equality)
  qed
  show "deferred_advances (dt_slots t) (dt_slots ?t)"
    unfolding slots by (rule table_advances_update) (simp add: slot_advances_def deferred_floor_def)
  have "count_if (\<lambda>x. dsl_record x \<noteq> None) (dt_slots ?t) = count_if (\<lambda>x. dsl_record x \<noteq> None) (dt_slots t)"
    using count_if_update [OF i, of "\<lambda>x. dsl_record x \<noteq> None" ?y] rc slots by simp
  moreover have "map slot_bytes (dt_slots ?t) = map slot_bytes (dt_slots t)" unfolding slots by (rule map_update_same) (rule bytes)
  moreover have "callers_compatible (deferred_view ?t)"
    by (rule callers_compatible_sub [OF deferred_okD(3) [OF ok]]) (use view in \<open>auto simp: v split: if_splits\<close>)
  moreover have "\<forall>j<length (dt_slots ?t). deferred_slot_ok j (dt_slots ?t ! j)"
    unfolding slots by (rule slots_ok_update [OF _ y]) (use deferred_okD(2) [OF ok] in blast)
  moreover have "dt_stats ?t = dt_stats t" "dt_capacity ?t = dt_capacity t" "dt_retained_byte_capacity ?t = dt_retained_byte_capacity t"
    "length (dt_slots ?t) = length (dt_slots t)" by (simp_all add: set_state_def)
  ultimately show "deferred_ok ?t" using ok unfolding deferred_ok_def by simp
qed

section \<open>Release\<close>

definition release_room :: "nat \<Rightarrow> nat \<Rightarrow> nat \<Rightarrow> deferred_stats \<Rightarrow> bool" where
  "release_room n terminal bytes st \<longleftrightarrow> ds_completed st + n < 2 ^ 64 \<and>
     (terminal = 0 \<or> ds_terminal_completions st + terminal < 2 ^ 64) \<and>
     ds_zeroized_bytes st + bytes < 2 ^ 64"

definition released :: "nat \<Rightarrow> nat \<Rightarrow> nat \<Rightarrow> deferred_stats \<Rightarrow> deferred_stats" where
  "released n terminal bytes st = st\<lparr>ds_live := ds_live st - n, ds_retained_bytes := ds_retained_bytes st - bytes,
     ds_completed := ds_completed st + n, ds_terminal_completions := ds_terminal_completions st + terminal,
     ds_zeroized_bytes := ds_zeroized_bytes st + bytes\<rparr>"

lemma slot_bytes_retained:
  assumes "deferred_ok t" "i < length (dt_slots t)"
  shows "slot_bytes (dt_slots t ! i) \<le> ds_retained_bytes (dt_stats t)"
  using sum_list_update_nat [OF assms(2), of slot_bytes deferred_slot_empty] deferred_okD(6) [OF assms(1)]
  by (simp add: slot_bytes_def deferred_slot_empty_def)

lemma zero_fill:
  assumes "deferred_slot_ok i x" "dsl_record x = Some c"
  shows "copy_at 0 (replicate (dc_request_bytes c) 0) (dsl_request x) = replicate MAX_PENDING_REQUEST_BYTES 0"
proof -
  have "drop (dc_request_bytes c) (dsl_request x) = replicate (MAX_PENDING_REQUEST_BYTES - dc_request_bytes c) 0"
    "dc_request_bytes c \<le> MAX_PENDING_REQUEST_BYTES"
    using assms by (auto simp: deferred_slot_ok_def slot_bytes_def)
  then show ?thesis by (simp add: copy_at_def replicate_add [symmetric])
qed

lemma vacated_ok:
  assumes x: "deferred_slot_ok i x" and c: "dsl_record x = Some c"
  shows "deferred_slot_ok i (deferred_vacate (dc_request_bytes c) x)" "dsl_record (deferred_vacate (dc_request_bytes c) x) = None"
    "slot_advances dsl_generation (\<lambda>x. dsl_record x \<noteq> None) deferred_floor x (deferred_vacate (dc_request_bytes c) x)"
proof -
  let ?y = "deferred_vacate (dc_request_bytes c) x"
  have zero: "dsl_request ?y = replicate MAX_PENDING_REQUEST_BYTES 0"
    using zero_fill [OF x c] by (simp add: deferred_vacate_def Let_def split: option.splits)
  show none: "dsl_record ?y = None" by (simp add: deferred_vacate_def Let_def split: option.splits)
  have "dsl_generation x < 2 ^ 32" "\<not> dsl_retired x" using x c by (auto simp: deferred_slot_ok_def)
  then have "dsl_generation ?y < 2 ^ 32" by (auto simp: deferred_vacate_def Let_def checked_add_def)
  then show "deferred_slot_ok i ?y" unfolding deferred_slot_ok_def using none zero by (simp add: slot_bytes_def)
  show "slot_advances dsl_generation (\<lambda>x. dsl_record x \<noteq> None) deferred_floor x ?y"
    using \<open>\<not> dsl_retired x\<close> by (auto simp: slot_advances_def deferred_floor_def deferred_vacate_def Let_def checked_add_def)
qed

lemma release_outcome:
  assumes ok: "deferred_ok t" and i: "i < length (dt_slots t)" and c: "dsl_record (dt_slots t ! i) = Some c"
  shows "release_index i c terminal t =
    (if release_room 1 (of_bool terminal) (dc_request_bytes c) (dt_stats t)
     then Inr (t\<lparr>dt_slots := (dt_slots t)[i := deferred_vacate (dc_request_bytes c) (dt_slots t ! i)],
            dt_stats := released 1 (of_bool terminal) (dc_request_bytes c) (dt_stats t)\<rparr>)
     else Inl DeferredAccountingOverflow)"
proof -
  have "0 < ds_live (dt_stats t)" using count_if_pos_nth [OF i, of "\<lambda>x. dsl_record x \<noteq> None"] c deferred_okD(4) [OF ok] by simp
  moreover have "dc_request_bytes c \<le> ds_retained_bytes (dt_stats t)" using slot_bytes_retained [OF ok i] c by (simp add: slot_bytes_def)
  ultimately have "checked_sub (ds_live (dt_stats t)) 1 = Some (ds_live (dt_stats t) - 1)"
    "checked_sub (ds_retained_bytes (dt_stats t)) (dc_request_bytes c) = Some (ds_retained_bytes (dt_stats t) - dc_request_bytes c)"
    by (simp_all add: checked_sub_def)
  then show ?thesis
    by (cases terminal) (simp_all add: release_index_def release_room_def released_def checked_add_def)
qed

lemma call_release_effect:
  assumes ok: "deferred_ok t" and i: "i < length (dt_slots t)" and c: "dsl_record (dt_slots t ! i) = Some c"
    and op: "release_index i c terminal t = Inr t'"
  shows "deferred_ok t'" "deferred_view t' = (deferred_view t)(deferred_id i (dt_slots t ! i) := None)"
    "deferred_advances (dt_slots t) (dt_slots t')" "dt_stats t' = released 1 (of_bool terminal) (dc_request_bytes c) (dt_stats t)"
    "dt_slots t' = (dt_slots t)[i := deferred_vacate (dc_request_bytes c) (dt_slots t ! i)]"
proof -
  let ?x = "dt_slots t ! i" let ?y = "deferred_vacate (dc_request_bytes c) ?x"
  from op release_outcome [OF ok i c, of terminal]
  have t': "t' = t\<lparr>dt_slots := (dt_slots t)[i := ?y], dt_stats := released 1 (of_bool terminal) (dc_request_bytes c) (dt_stats t)\<rparr>"
    by (metis (no_types, lifting) sum.inject(2) sum.distinct(1))
  note y = vacated_ok [OF deferred_okD(2) [OF ok i] c]
  show slots: "dt_slots t' = (dt_slots t)[i := ?y]"
    and stats: "dt_stats t' = released 1 (of_bool terminal) (dc_request_bytes c) (dt_stats t)" using t' by simp_all
  show view: "deferred_view t' = (deferred_view t)(deferred_id i ?x := None)"
  proof
    fix k show "deferred_view t' k = ((deferred_view t)(deferred_id i ?x := None)) k"
      using deferred_view_update [OF i slots, of k] y(2) by (auto simp: slot_call_def deferred_id_def deferred_view_def)
  qed
  show "deferred_advances (dt_slots t) (dt_slots t')" unfolding slots by (rule table_advances_update [OF y(3)])
  have cnt: "count_if (\<lambda>x. dsl_record x \<noteq> None) (dt_slots t') + 1 = count_if (\<lambda>x. dsl_record x \<noteq> None) (dt_slots t)"
    using count_if_update [OF i, of "\<lambda>x. dsl_record x \<noteq> None" ?y] c y(2) slots by simp
  have sum: "sum_list (map slot_bytes (dt_slots t')) + dc_request_bytes c = sum_list (map slot_bytes (dt_slots t))"
    using sum_list_update_nat [OF i, of slot_bytes ?y] c y(2) slots by (simp add: slot_bytes_def)
  have "callers_compatible (deferred_view t')"
    by (rule callers_compatible_sub [OF deferred_okD(3) [OF ok]]) (auto simp: view split: if_splits)
  moreover have "\<forall>j<length (dt_slots t'). deferred_slot_ok j (dt_slots t' ! j)"
    unfolding slots by (rule slots_ok_update [OF _ y(1)]) (use deferred_okD(2) [OF ok] in blast)
  moreover have "ds_live (dt_stats t') = count_if (\<lambda>x. dsl_record x \<noteq> None) (dt_slots t')"
    "ds_retained_bytes (dt_stats t') = sum_list (map slot_bytes (dt_slots t'))"
    using cnt sum deferred_okD(4,6) [OF ok] by (simp_all add: stats released_def)
  moreover have "dt_capacity t' = dt_capacity t" "dt_retained_byte_capacity t' = dt_retained_byte_capacity t"
    "length (dt_slots t') = length (dt_slots t)" using t' by simp_all
  moreover have "ds_retained_bytes (dt_stats t') \<le> ds_retained_bytes (dt_stats t)" by (simp add: stats released_def)
  ultimately show "deferred_ok t'" using ok unfolding deferred_ok_def by simp
qed

lemma finish_effect:
  assumes ok: "deferred_ok t"
  shows "case deferred_view t k of
      None \<Rightarrow> deferred_finish k t = Inl StaleOperation
    | Some (c, r) \<Rightarrow>
        (case dc_state c of
           DeferredReady reason \<Rightarrow>
             if release_room 1 (of_bool (reason_is_terminal reason)) (dc_request_bytes c) (dt_stats t)
             then \<exists>t'. deferred_finish k t = Inr (c, t') \<and> deferred_ok t' \<and> deferred_view t' = (deferred_view t)(k := None) \<and>
               deferred_advances (dt_slots t) (dt_slots t')
             else deferred_finish k t = Inl DeferredAccountingOverflow
         | _ \<Rightarrow> deferred_finish k t = Inl InvalidState)"
proof (cases "deferred_view t k")
  case None
  then show ?thesis by (simp add: deferred_finish_def validate_view [OF ok])
next
  case (Some p)
  obtain c r where p: "p = (c, r)" by (cases p)
  obtain i: "op_slot k < length (dt_slots t)" and rc: "dsl_record (dt_slots t ! op_slot k) = Some c" and kid: "deferred_id (op_slot k) (dt_slots t ! op_slot k) = k"
    using deferred_view_SomeE [OF Some] p by blast
  show ?thesis
  proof (cases "dc_state c")
    case (DeferredReady reason)
    let ?b = "reason_is_terminal reason"
    show ?thesis
    proof (cases "release_room 1 (of_bool ?b) (dc_request_bytes c) (dt_stats t)")
      case True
      then obtain t' where t': "release_index (op_slot k) c ?b t = Inr t'" using release_outcome [OF ok i rc] by simp
      then have "deferred_finish k t = Inr (c, t')" using Some rc DeferredReady by (simp add: deferred_finish_def validate_view [OF ok])
      then show ?thesis using call_release_effect(1-3) [OF ok i rc t'] Some p DeferredReady True kid by simp
    next
      case False
      then have "release_index (op_slot k) c ?b t = Inl DeferredAccountingOverflow" using release_outcome [OF ok i rc] by simp
      then show ?thesis using Some p rc DeferredReady False by (simp add: deferred_finish_def validate_view [OF ok])
    qed
  qed (use Some p rc in \<open>simp_all add: deferred_finish_def validate_view [OF ok]\<close>)
qed

end
