(* ===== verification/Deferred_Call_Runs.thy ===== *)
theory Deferred_Call_Runs
  imports Deferred_Call_Contract
begin

text \<open>Teardown and admission of pending calls, and runs of the table.\<close>

section \<open>Teardown\<close>

definition slot_owned :: "task_id \<Rightarrow> deferred_slot \<Rightarrow> bool" where
  "slot_owned owner = deferred_has (\<lambda>c. wc_task (dc_owner c) = owner)"

definition owned_bytes :: "task_id \<Rightarrow> deferred_slot \<Rightarrow> nat" where
  "owned_bytes owner x = (if slot_owned owner x then slot_bytes x else 0)"

lemma slot_owned_iff: "slot_owned owner x \<longleftrightarrow> (\<exists>c. dsl_record x = Some c \<and> wc_task (dc_owner c) = owner)"
  by (auto simp: slot_owned_def deferred_has_def split: option.splits)

lemma teardown_totals_exact:
  assumes "matching + count_if (slot_owned owner) xs < 2 ^ 32" "bytes + sum_list (map (owned_bytes owner) xs) < 2 ^ 32"
  shows "teardown_totals owner xs matching bytes =
    Inr (matching + count_if (slot_owned owner) xs, bytes + sum_list (map (owned_bytes owner) xs))"
  using assms
proof (induction xs arbitrary: matching bytes)
  case Nil
  then show ?case by simp
next
  case (Cons x xs)
  show ?case
  proof (cases "slot_owned owner x")
    case True
    then obtain c where c: "dsl_record x = Some c" "wc_task (dc_owner c) = owner" by (auto simp: slot_owned_iff)
    then have b: "owned_bytes owner x = dc_request_bytes c" using True by (simp add: owned_bytes_def slot_bytes_def)
    have "checked_add 32 matching 1 = Some (matching + 1)" "checked_add 32 bytes (dc_request_bytes c) = Some (bytes + dc_request_bytes c)"
      using Cons.prems True b by (simp_all add: checked_add_def)
    then show ?thesis using Cons.IH [of "matching + 1" "bytes + dc_request_bytes c"] Cons.prems True b c by simp
  next
    case False
    then have "teardown_totals owner (x # xs) matching bytes = teardown_totals owner xs matching bytes"
      by (auto simp: slot_owned_iff split: option.splits)
    moreover have "owned_bytes owner x = 0" using False by (simp add: owned_bytes_def)
    ultimately show ?thesis using Cons False by simp
  qed
qed

lemma owned_le:
  assumes "deferred_ok t"
  shows "count_if (slot_owned owner) (dt_slots t) \<le> ds_live (dt_stats t)"
    "sum_list (map (owned_bytes owner) (dt_slots t)) \<le> ds_retained_bytes (dt_stats t)"
proof -
  show "count_if (slot_owned owner) (dt_slots t) \<le> ds_live (dt_stats t)"
    unfolding deferred_okD(4) [OF assms] by (rule count_if_mono) (auto simp: slot_owned_iff)
  show "sum_list (map (owned_bytes owner) (dt_slots t)) \<le> ds_retained_bytes (dt_stats t)"
    unfolding deferred_okD(6) [OF assms] by (rule sum_list_mono) (simp add: owned_bytes_def)
qed

definition owned_at :: "task_id \<Rightarrow> deferred_table \<Rightarrow> nat list \<Rightarrow> nat" where
  "owned_at owner t is = count_if (\<lambda>i. slot_owned owner (dt_slots t ! i)) is"

definition owned_bytes_at :: "task_id \<Rightarrow> deferred_table \<Rightarrow> nat list \<Rightarrow> nat" where
  "owned_bytes_at owner t is = sum_list (map (\<lambda>i. owned_bytes owner (dt_slots t ! i)) is)"

lemma owned_at_all:
  "owned_at owner t [0..<length (dt_slots t)] = count_if (slot_owned owner) (dt_slots t)"
  "owned_bytes_at owner t [0..<length (dt_slots t)] = sum_list (map (owned_bytes owner) (dt_slots t))"
proof -
  have "map ((!) (dt_slots t)) [0..<length (dt_slots t)] = dt_slots t" by (rule map_nth)
  then show "owned_at owner t [0..<length (dt_slots t)] = count_if (slot_owned owner) (dt_slots t)"
    "owned_bytes_at owner t [0..<length (dt_slots t)] = sum_list (map (owned_bytes owner) (dt_slots t))"
    unfolding owned_at_def owned_bytes_at_def by (metis count_if_map, metis (no_types) map_map comp_def map_eq_conv)
qed

lemma owned_at_cong:
  assumes "\<And>j. j \<in> set is \<Longrightarrow> dt_slots u ! j = dt_slots t ! j"
  shows "owned_at owner u is = owned_at owner t is" "owned_bytes_at owner u is = owned_bytes_at owner t is"
  unfolding owned_at_def owned_bytes_at_def using assms by (auto intro!: count_if_cong arg_cong [of _ _ sum_list])

definition dropped :: "task_id \<Rightarrow> nat set \<Rightarrow> (operation_id \<rightharpoonup> deferred_call \<times> byte list) \<Rightarrow> operation_id \<rightharpoonup> deferred_call \<times> byte list" where
  "dropped owner S v = (\<lambda>k. case v k of None \<Rightarrow> None
     | Some (c, r) \<Rightarrow> if op_slot k \<in> S \<and> wc_task (dc_owner c) = owner then None else Some (c, r))"

lemma teardown_loop_exact:
  assumes "deferred_ok t" "distinct is" "\<forall>i\<in>set is. i < length (dt_slots t)"
    "release_room (owned_at owner t is) (owned_at owner t is) (owned_bytes_at owner t is) (dt_stats t)"
  shows "\<exists>t'. teardown_loop owner is t = (Inr (), t') \<and> deferred_ok t' \<and> deferred_advances (dt_slots t) (dt_slots t') \<and>
    deferred_view t' = dropped owner (set is) (deferred_view t) \<and>
    dt_stats t' = released (owned_at owner t is) (owned_at owner t is) (owned_bytes_at owner t is) (dt_stats t)"
  using assms
proof (induction "is" arbitrary: t)
  case Nil
  then show ?case by (auto simp: dropped_def released_def owned_at_def owned_bytes_at_def split: option.splits intro!: ext)
next
  case (Cons i js)
  let ?x = "dt_slots t ! i"
  have i: "i < length (dt_slots t)" and js: "i \<notin> set js" "distinct js" "\<forall>j\<in>set js. j < length (dt_slots t)"
    using Cons.prems(2,3) by auto
  show ?case
  proof (cases "slot_owned owner ?x")
    case False
    then have "teardown_loop owner (i # js) t = teardown_loop owner js t" by (auto simp: slot_owned_iff split: option.splits)
    moreover have eq: "owned_at owner t (i # js) = owned_at owner t js" "owned_bytes_at owner t (i # js) = owned_bytes_at owner t js"
      using False by (simp_all add: owned_at_def owned_bytes_at_def owned_bytes_def)
    moreover have "dropped owner (set (i # js)) (deferred_view t) = dropped owner (set js) (deferred_view t)"
      using False unfolding dropped_def slot_owned_iff by (intro ext) (auto elim!: deferred_view_SomeE split: option.splits)
    ultimately show ?thesis using Cons.IH [OF Cons.prems(1) js(2,3)] Cons.prems(4) by simp
  next
    case True
    then obtain c where c: "dsl_record ?x = Some c" "wc_task (dc_owner c) = owner" by (auto simp: slot_owned_iff)
    have eq: "owned_at owner t (i # js) = Suc (owned_at owner t js)"
      "owned_bytes_at owner t (i # js) = dc_request_bytes c + owned_bytes_at owner t js"
      using True c(1) by (simp_all add: owned_at_def owned_bytes_at_def owned_bytes_def slot_bytes_def)
    have "release_room 1 (of_bool True) (dc_request_bytes c) (dt_stats t)" using Cons.prems(4) unfolding eq by (simp add: release_room_def)
    then obtain u where u: "release_index i c True t = Inr u" using release_outcome [OF Cons.prems(1) i c(1), of True] by simp
    note eff = call_release_effect [OF Cons.prems(1) i c(1) u]
    have same: "\<And>j. j \<in> set js \<Longrightarrow> dt_slots u ! j = dt_slots t ! j" using js(1) eff(5) by (metis nth_list_update_neq)
    have cong: "owned_at owner u js = owned_at owner t js" "owned_bytes_at owner u js = owned_bytes_at owner t js"
      by (rule owned_at_cong, erule same)+
    have "release_room (owned_at owner u js) (owned_at owner u js) (owned_bytes_at owner u js) (dt_stats u)"
      using Cons.prems(4) unfolding eq cong eff(4) by (auto simp: release_room_def released_def)
    moreover have "\<forall>j\<in>set js. j < length (dt_slots u)" using js(3) eff(5) by simp
    ultimately obtain t' where t': "teardown_loop owner js u = (Inr (), t')" "deferred_ok t'" "deferred_advances (dt_slots u) (dt_slots t')"
      "deferred_view t' = dropped owner (set js) (deferred_view u)"
      "dt_stats t' = released (owned_at owner u js) (owned_at owner u js) (owned_bytes_at owner u js) (dt_stats u)"
      using Cons.IH [OF eff(1) js(2)] by blast
    have "teardown_loop owner (i # js) t = (Inr (), t')" using c u t'(1) by simp
    moreover have "deferred_advances (dt_slots t) (dt_slots t')" by (rule table_advances_trans [OF eff(3) t'(3)])
    moreover have "dropped owner (set js) (deferred_view u) = dropped owner (set (i # js)) (deferred_view t)"
    proof
      fix k
      show "dropped owner (set js) (deferred_view u) k = dropped owner (set (i # js)) (deferred_view t) k"
      proof (cases "op_slot k = i")
        case True
        then have "deferred_view t k = None \<or> k = deferred_id i ?x \<and> deferred_view t k = slot_call ?x"
          using i by (cases k) (auto simp: deferred_view_def deferred_id_def)
        then show ?thesis using c by (auto simp: eff(2) dropped_def slot_call_def deferred_id_def)
      next
        case False
        then have "deferred_view u k = deferred_view t k" by (auto simp: eff(2) deferred_id_def)
        then show ?thesis using False by (simp add: dropped_def split: option.splits)
      qed
    qed
    moreover have "dt_stats t' = released (owned_at owner t (i # js)) (owned_at owner t (i # js)) (owned_bytes_at owner t (i # js)) (dt_stats t)"
      unfolding t'(5) eff(4) cong eq by (simp add: released_def)
    ultimately show ?thesis using t'(2,4) by auto
  qed
qed

lemma teardown_effect:
  assumes ok: "deferred_ok t" and op: "teardown_owner owner reason t = (res, t')"
  shows "if \<not> reason_is_terminal reason then res = Inl InvalidState \<and> t' = t
    else if release_room (count_if (slot_owned owner) (dt_slots t)) (count_if (slot_owned owner) (dt_slots t))
        (sum_list (map (owned_bytes owner) (dt_slots t))) (dt_stats t)
      \<and> ds_terminal_completions (dt_stats t) + count_if (slot_owned owner) (dt_slots t) < 2 ^ 64
    then res = Inr (count_if (slot_owned owner) (dt_slots t)) \<and> deferred_ok t' \<and> deferred_advances (dt_slots t) (dt_slots t') \<and>
      deferred_view t' = (\<lambda>k. case deferred_view t k of None \<Rightarrow> None
        | Some (c, r) \<Rightarrow> if wc_task (dc_owner c) = owner then None else Some (c, r)) \<and>
      dt_stats t' = released (count_if (slot_owned owner) (dt_slots t)) (count_if (slot_owned owner) (dt_slots t))
        (sum_list (map (owned_bytes owner) (dt_slots t))) (dt_stats t)
    else res = Inl DeferredAccountingOverflow \<and> t' = t"
proof (cases "reason_is_terminal reason")
  case False
  then show ?thesis using op by (simp add: teardown_owner_def)
next
  case terminal: True
  let ?m = "count_if (slot_owned owner) (dt_slots t)" let ?b = "sum_list (map (owned_bytes owner) (dt_slots t))"
  note le = owned_le [OF ok, of owner]
  have "?m < 2 ^ 32" using le(1) deferred_okD(5) [OF ok] by simp
  moreover have "?b < 2 ^ 32" using le(2) deferred_okD(7,8) [OF ok] by linarith
  ultimately have tot: "teardown_totals owner (dt_slots t) 0 0 = Inr (?m, ?b)" using teardown_totals_exact [of 0 owner "dt_slots t" 0] by simp
  let ?room = "release_room ?m ?m ?b (dt_stats t) \<and> ds_terminal_completions (dt_stats t) + ?m < 2 ^ 64"
  have bad: "(checked_sub (ds_live (dt_stats t)) ?m = None \<or> checked_sub (ds_retained_bytes (dt_stats t)) ?b = None \<or>
      checked_add 64 (ds_completed (dt_stats t)) ?m = None \<or> checked_add 64 (ds_terminal_completions (dt_stats t)) ?m = None \<or>
      checked_add 64 (ds_zeroized_bytes (dt_stats t)) ?b = None) \<longleftrightarrow> \<not> ?room"
    using le by (auto simp: checked_sub_def checked_add_def release_room_def)
  show ?thesis
  proof (cases ?room)
    case False
    then have "teardown_owner owner reason t = (Inl DeferredAccountingOverflow, t)"
      unfolding teardown_owner_def tot using bad terminal by simp
    then show ?thesis unfolding if_not_P [OF False] using op terminal by simp
  next
    case True
    then obtain u where u: "teardown_loop owner [0..<length (dt_slots t)] t = (Inr (), u)" "deferred_ok u"
      "deferred_advances (dt_slots t) (dt_slots u)" "deferred_view u = dropped owner (set [0..<length (dt_slots t)]) (deferred_view t)"
      "dt_stats u = released ?m ?m ?b (dt_stats t)"
      using teardown_loop_exact [OF ok, of "[0..<length (dt_slots t)]" owner] unfolding owned_at_all by auto
    have "teardown_owner owner reason t = (Inr ?m, u)" unfolding teardown_owner_def tot using bad terminal True u(1) by simp
    moreover have "dropped owner (set [0..<length (dt_slots t)]) (deferred_view t) = (\<lambda>k. case deferred_view t k of None \<Rightarrow> None
        | Some (c, r) \<Rightarrow> if wc_task (dc_owner c) = owner then None else Some (c, r))"
      unfolding dropped_def by (intro ext) (auto elim!: deferred_view_SomeE split: option.splits)
    ultimately show ?thesis unfolding if_P [OF True] using op terminal u by simp
  qed
qed

section \<open>Admission\<close>

definition deferred_room :: "deferred_table \<Rightarrow> bool" where
  "deferred_room t \<longleftrightarrow> (\<exists>x\<in>set (dt_slots t). dsl_record x = None \<and> \<not> dsl_retired x) \<or> length (dt_slots t) < dt_capacity t"

lemma empty_slot_ok: "deferred_slot_ok i deferred_slot_empty"
  by (simp add: deferred_slot_ok_def deferred_slot_empty_def slot_bytes_def)

lemma deferred_claim_effect:
  assumes ok: "deferred_ok t" and op: "deferred_claim reserved t = Inr (i, t')"
  shows "deferred_ok t'" "i < length (dt_slots t')" "dsl_record (dt_slots t' ! i) = None" "\<not> dsl_retired (dt_slots t' ! i)"
    "deferred_view t' = deferred_view t" "deferred_advances (dt_slots t) (dt_slots t')" "deferred_room t"
    "dt_stats t' = dt_stats t" "dt_retained_byte_capacity t' = dt_retained_byte_capacity t"
proof -
  let ?free = "\<lambda>slot. dsl_record slot = None \<and> \<not> dsl_retired slot"
  have "deferred_ok t' \<and> i < length (dt_slots t') \<and> ?free (dt_slots t' ! i) \<and> deferred_view t' = deferred_view t \<and>
    deferred_advances (dt_slots t) (dt_slots t') \<and> deferred_room t \<and> dt_stats t' = dt_stats t \<and>
    dt_retained_byte_capacity t' = dt_retained_byte_capacity t"
  proof (cases "position ?free (dt_slots t)")
    case None
    from op None have room: "length (dt_slots t) \<noteq> dt_capacity t" and i: "i = length (dt_slots t)"
      and t': "t' = t\<lparr>dt_slots := dt_slots t @ [deferred_slot_empty]\<rparr>" by (auto simp: deferred_claim_def split: if_splits)
    have view: "deferred_view t' = deferred_view t"
      by (rule ext) (auto simp: t' deferred_view_def nth_append slot_call_def deferred_slot_empty_def)
    have "\<forall>j<length (dt_slots t'). deferred_slot_ok j (dt_slots t' ! j)"
      using deferred_okD(2) [OF ok] empty_slot_ok by (simp add: t' nth_append less_Suc_eq)
    moreover have "length (dt_slots t) < dt_capacity t" using ok room unfolding deferred_ok_def by linarith
    moreover have "slot_bytes deferred_slot_empty = 0" "dsl_record deferred_slot_empty = None" "\<not> dsl_retired deferred_slot_empty"
      by (simp_all add: slot_bytes_def deferred_slot_empty_def)
    moreover have "dt_stats t' = dt_stats t" "dt_capacity t' = dt_capacity t" "dt_retained_byte_capacity t' = dt_retained_byte_capacity t"
      "dt_slots t' = dt_slots t @ [deferred_slot_empty]" by (simp_all add: t')
    ultimately show ?thesis using ok view i unfolding deferred_ok_def deferred_room_def by (simp add: table_advances_append)
  next
    case (Some j)
    then have "t' = t" "i = j" using op by (simp_all add: deferred_claim_def)
    then show ?thesis using position_SomeD [OF Some] ok by (auto simp: deferred_room_def)
  qed
  then show "deferred_ok t'" "i < length (dt_slots t')" "dsl_record (dt_slots t' ! i) = None" "\<not> dsl_retired (dt_slots t' ! i)"
    "deferred_view t' = deferred_view t" "deferred_advances (dt_slots t) (dt_slots t')" "deferred_room t"
    "dt_stats t' = dt_stats t" "dt_retained_byte_capacity t' = dt_retained_byte_capacity t" by blast+
qed

lemma deferred_claim_refused:
  assumes "deferred_ok t" "deferred_claim reserved t = Inl e"
  shows "e = DeferredCapacityExhausted \<and> \<not> deferred_room t \<or> e = DeferredMetadataExhausted \<and> \<not> reserved \<and> deferred_room t"
proof (cases "position (\<lambda>slot. dsl_record slot = None \<and> \<not> dsl_retired slot) (dt_slots t)")
  case None
  then have "\<forall>x\<in>set (dt_slots t). \<not> (dsl_record x = None \<and> \<not> dsl_retired x)" by (simp only: position_None_iff)
  moreover have "length (dt_slots t) \<le> dt_capacity t" using assms(1) by (simp add: deferred_ok_def)
  ultimately show ?thesis using None assms(2) by (auto simp: deferred_claim_def deferred_room_def split: if_splits)
qed (use assms in \<open>simp add: deferred_claim_def\<close>)

definition new_call :: "operation_id \<Rightarrow> pending_caller \<Rightarrow> nat \<Rightarrow> u64 \<Rightarrow> u16 \<Rightarrow> byte list \<Rightarrow> nat \<Rightarrow> deferred_call" where
  "new_call oid owner request_id handle opcode req reply_capacity = \<lparr>dc_id = oid, dc_owner = owner, dc_request_id = request_id,
     dc_handle = handle, dc_opcode = opcode, dc_request_bytes = length req, dc_reply_capacity = reply_capacity, dc_state = DeferredNew\<rparr>"

lemma retain_effect:
  assumes ok: "deferred_ok t" and i: "i < length (dt_slots t)"
    and free: "dsl_record (dt_slots t ! i) = None" "\<not> dsl_retired (dt_slots t ! i)"
    and len: "length req \<le> MAX_PENDING_REQUEST_BYTES" "reply_capacity \<le> MAX_PENDING_REQUEST_BYTES"
    and bytes: "ds_retained_bytes (dt_stats t) + length req \<le> dt_retained_byte_capacity t"
    and new: "\<And>k c r. deferred_view t k = Some (c, r) \<Longrightarrow> \<not> caller_conflicts (dc_owner c) owner"
  obtains t' where "deferred_retain owner request_id handle opcode req reply_capacity (ds_retained_bytes (dt_stats t) + length req) i t =
      (Inr (deferred_id i (dt_slots t ! i)), t')" "deferred_ok t'" "deferred_view t (deferred_id i (dt_slots t ! i)) = None"
    "deferred_view t' = (deferred_view t)(deferred_id i (dt_slots t ! i) \<mapsto>
       (new_call (deferred_id i (dt_slots t ! i)) owner request_id handle opcode req reply_capacity, req))"
    "deferred_advances (dt_slots t) (dt_slots t')" "dt_last_request_id t' = request_id"
proof -
  let ?x = "dt_slots t ! i" let ?oid = "deferred_id i ?x"
  let ?c = "new_call ?oid owner request_id handle opcode req reply_capacity"
  let ?buf = "copy_at 0 req (dsl_request ?x)"
  let ?y = "?x\<lparr>dsl_request := ?buf, dsl_record := Some ?c\<rparr>"
  define t' where "t' = t\<lparr>dt_slots := (dt_slots t)[i := ?y], dt_last_request_id := request_id,
      dt_stats := (dt_stats t)\<lparr>ds_live := ds_live (dt_stats t) + 1, ds_high_water := max (ds_high_water (dt_stats t)) (ds_live (dt_stats t) + 1),
        ds_retained_bytes := ds_retained_bytes (dt_stats t) + length req,
        ds_retained_bytes_high_water := max (ds_retained_bytes_high_water (dt_stats t)) (ds_retained_bytes (dt_stats t) + length req)\<rparr>\<rparr>"
  have small: "length req < 2 ^ 16" "reply_capacity < 2 ^ 16" using len by (simp_all add: MAX_PENDING_REQUEST_BYTES_def)
  have "try_into 32 i = Some i" "checked_add 32 (ds_live (dt_stats t)) 1 = Some (ds_live (dt_stats t) + 1)"
    "try_into 16 (length req) = Some (length req)" "try_into 16 reply_capacity = Some reply_capacity"
    using deferred_okD(1,5) [OF ok] i small by (simp_all add: try_into_def checked_add_def)
  then have op: "deferred_retain owner request_id handle opcode req reply_capacity (ds_retained_bytes (dt_stats t) + length req) i t = (Inr ?oid, t')"
    by (simp add: deferred_retain_def Let_def t'_def new_call_def deferred_id_def)
  have x: "deferred_slot_ok i ?x" by (rule deferred_okD(2) [OF ok i])
  then have zero: "dsl_request ?x = replicate MAX_PENDING_REQUEST_BYTES 0" using free by (simp add: deferred_slot_ok_def slot_bytes_def)
  have buf: "?buf = req @ replicate (MAX_PENDING_REQUEST_BYTES - length req) 0" by (simp add: zero copy_at_def)
  have sb: "slot_bytes ?y = length req" by (simp add: slot_bytes_def new_call_def)
  have y: "deferred_slot_ok i ?y"
    using conjunct1 [OF x [unfolded deferred_slot_ok_def]] len(1) free(2)
    by (simp add: deferred_slot_ok_def buf slot_bytes_def new_call_def deferred_id_def)
  have slots: "dt_slots t' = (dt_slots t)[i := ?y]" by (simp add: t'_def)
  have old: "deferred_view t ?oid = None" using free by (simp add: deferred_view_def deferred_id_def slot_call_def)
  have view: "deferred_view t' = (deferred_view t)(?oid \<mapsto> (?c, req))"
  proof
    fix k
    show "deferred_view t' k = ((deferred_view t)(?oid \<mapsto> (?c, req))) k"
    proof (cases "op_slot k = i")
      case True
      have "k = ?oid \<longleftrightarrow> dsl_generation ?x = op_generation k" using True by (cases k) (auto simp: deferred_id_def)
      moreover have "deferred_view t k = None" using True free by (simp add: deferred_view_def slot_call_def)
      moreover have "slot_call ?y = Some (?c, req)" by (simp add: slot_call_def buf new_call_def)
      ultimately show ?thesis using True deferred_view_update [OF i slots] by simp
    next
      case False
      then have "k \<noteq> ?oid" by (auto simp: deferred_id_def)
      with False show ?thesis using deferred_view_update [OF i slots] by simp
    qed
  qed
  have "count_if (\<lambda>x. dsl_record x \<noteq> None) (dt_slots t') = count_if (\<lambda>x. dsl_record x \<noteq> None) (dt_slots t) + 1"
    using count_if_update [OF i, of "\<lambda>x. dsl_record x \<noteq> None" ?y] free slots by simp
  moreover have "sum_list (map slot_bytes (dt_slots t')) = sum_list (map slot_bytes (dt_slots t)) + length req"
    using sum_list_update_nat [OF i, of slot_bytes ?y] free slots sb by (simp add: slot_bytes_def)
  moreover have "callers_compatible (deferred_view t')"
    using deferred_okD(3) [OF ok] new unfolding view callers_compatible_def
    by (auto simp: new_call_def caller_conflicts_sym split: if_splits)
  moreover have "\<forall>j<length (dt_slots t'). deferred_slot_ok j (dt_slots t' ! j)"
    unfolding slots by (rule slots_ok_update [OF _ y]) (use deferred_okD(2) [OF ok] in blast)
  moreover have "length (dt_slots t') = length (dt_slots t)" "dt_capacity t' = dt_capacity t"
    "ds_live (dt_stats t') = ds_live (dt_stats t) + 1" "ds_retained_bytes (dt_stats t') = ds_retained_bytes (dt_stats t) + length req"
    "dt_retained_byte_capacity t' = dt_retained_byte_capacity t" by (simp_all add: t'_def)
  ultimately have "deferred_ok t'" using ok bytes unfolding deferred_ok_def by simp
  moreover have "deferred_advances (dt_slots t) (dt_slots t')"
    unfolding slots using free by (intro table_advances_update) (simp add: slot_advances_def deferred_floor_def)
  moreover have "dt_last_request_id t' = request_id" by (simp add: t'_def)
  ultimately show ?thesis by (intro that [OF op _ old view])
qed

end
