(* ===== verification/Wait_Table_Contract.thy ===== *)
theory Wait_Table_Contract
  imports Wait_Table
begin

text \<open>
  The abstract content of the wait table, a partial map from keys to specifications, and the
  effect of each operation on it. Published waits never conflict: two of them have different
  operations and different threads, and a task-wide wait excludes every other of its task.
\<close>

section \<open>Abstraction and invariant\<close>

definition slot_key :: "nat \<Rightarrow> wait_slot \<Rightarrow> wait_key" where
  "slot_key i slot = \<lparr>wk_slot = i, wk_generation = wsl_generation slot\<rparr>"

definition wait_view :: "wait_table \<Rightarrow> wait_key \<rightharpoonup> wait_spec" where
  "wait_view t k = (if wk_slot k < length (wt_slots t) \<and> wsl_generation (wt_slots t ! wk_slot k) = wk_generation k
     then slot_spec (wt_slots t ! wk_slot k) else None)"

definition wait_slots_ok :: "wait_slot list \<Rightarrow> bool" where
  "wait_slots_ok slots \<longleftrightarrow> (\<forall>i<length slots. wsl_generation (slots ! i) < 2 ^ 32 \<and>
     (\<forall>r. wsl_record (slots ! i) = Some r \<longrightarrow> wrec_key r = slot_key i (slots ! i) \<and> \<not> wsl_retired (slots ! i)))"

definition waits_compatible :: "wait_spec \<Rightarrow> wait_spec \<Rightarrow> bool" where
  "waits_compatible s s' \<longleftrightarrow> \<not> caller_conflicts (sp_owner s) (sp_owner s') \<and> sp_operation s \<noteq> sp_operation s'"

definition view_compatible :: "(wait_key \<rightharpoonup> wait_spec) \<Rightarrow> bool" where
  "view_compatible v \<longleftrightarrow> (\<forall>k k' s s'. v k = Some s \<longrightarrow> v k' = Some s' \<longrightarrow> k \<noteq> k' \<longrightarrow> waits_compatible s s')"

definition wait_ok :: "wait_table \<Rightarrow> bool" where
  "wait_ok t \<longleftrightarrow> length (wt_slots t) \<le> wt_capacity t \<and> wt_capacity t \<le> MAX_WAIT_REGISTRATIONS \<and>
     wait_slots_ok (wt_slots t) \<and> wts_live (wt_stats t) = count_if (\<lambda>x. wsl_record x \<noteq> None) (wt_slots t) \<and>
     view_compatible (wait_view t)"

lemma waits_compatible_sym: "waits_compatible a b = waits_compatible b a"
  by (auto simp: waits_compatible_def caller_conflicts_sym)

lemma view_compatible_sub: "view_compatible v \<Longrightarrow> v' \<subseteq>\<^sub>m v \<Longrightarrow> view_compatible v'"
  unfolding view_compatible_def map_le_def by (metis domI)

lemma view_compatible_upd:
  "view_compatible v \<Longrightarrow> (\<And>k s'. v k = Some s' \<Longrightarrow> waits_compatible s' s) \<Longrightarrow> view_compatible (v(key \<mapsto> s))"
  unfolding view_compatible_def by (auto simp: waits_compatible_sym split: if_splits)

lemma wait_view_SomeE:
  assumes "wait_view t k = Some s"
  obtains r where "wk_slot k < length (wt_slots t)" "wsl_record (wt_slots t ! wk_slot k) = Some r"
    "wsl_generation (wt_slots t ! wk_slot k) = wk_generation k" "wrec_spec r = s"
  using assms by (auto simp: wait_view_def slot_spec_def split: if_splits)

lemma wait_okD:
  assumes "wait_ok t"
  shows "length (wt_slots t) \<le> 65536" "wait_slots_ok (wt_slots t)" "view_compatible (wait_view t)"
    "wts_live (wt_stats t) = count_if (\<lambda>x. wsl_record x \<noteq> None) (wt_slots t)"
    "wts_live (wt_stats t) \<le> 65536"
  using assms count_if_le_length [of "\<lambda>x. wsl_record x \<noteq> None" "wt_slots t"]
  by (auto simp: wait_ok_def MAX_WAIT_REGISTRATIONS_def)

lemma slot_view:
  assumes "wait_ok t" "i < length (wt_slots t)" "wsl_record (wt_slots t ! i) = Some r"
  shows "wrec_key r = slot_key i (wt_slots t ! i)" "\<not> wsl_retired (wt_slots t ! i)"
    "wait_view t (slot_key i (wt_slots t ! i)) = Some (wrec_spec r)"
proof -
  show "wrec_key r = slot_key i (wt_slots t ! i)" "\<not> wsl_retired (wt_slots t ! i)"
    using wait_okD(2) [OF assms(1)] assms(2,3) unfolding wait_slots_ok_def by blast+
  show "wait_view t (slot_key i (wt_slots t ! i)) = Some (wrec_spec r)"
    using assms(2,3) by (simp add: wait_view_def slot_key_def slot_spec_def)
qed

lemma slot_has_view:
  assumes "i < length (wt_slots t)"
  shows "slot_has P (wt_slots t ! i) \<longleftrightarrow> (\<exists>s. wait_view t (slot_key i (wt_slots t ! i)) = Some s \<and> P s)"
  using assms by (auto simp: slot_has_def wait_view_def slot_key_def split: option.splits)

lemma list_ex_view: "list_ex (slot_has P) (wt_slots t) \<longleftrightarrow> (\<exists>k s. wait_view t k = Some s \<and> P s)"
proof
  assume "list_ex (slot_has P) (wt_slots t)"
  then obtain i where "i < length (wt_slots t)" "slot_has P (wt_slots t ! i)" by (auto simp: list_ex_length)
  then show "\<exists>k s. wait_view t k = Some s \<and> P s" using slot_has_view by blast
next
  assume "\<exists>k s. wait_view t k = Some s \<and> P s"
  then obtain k s where "wait_view t k = Some s" "P s" by blast
  then show "list_ex (slot_has P) (wt_slots t)"
    by (auto elim!: wait_view_SomeE simp: list_ex_length slot_has_def slot_spec_def)
qed

lemma key_valid_view:
  assumes ok: "wait_ok t"
  shows "key_valid k t \<longleftrightarrow> wait_view t k \<noteq> None"
proof (cases "wk_slot k < length (wt_slots t)")
  case True
  show ?thesis
  proof (cases "wsl_record (wt_slots t ! wk_slot k)")
    case None
    then show ?thesis by (simp add: key_valid_def wait_view_def slot_spec_def)
  next
    case (Some r)
    then show ?thesis using slot_view(1) [OF ok True Some] True
      by (auto simp: key_valid_def wait_view_def slot_spec_def slot_key_def)
  qed
qed (simp add: key_valid_def wait_view_def)

lemma wait_view_stats [simp]: "wait_view (t\<lparr>wt_stats := x\<rparr>) = wait_view t"
  by (rule ext) (simp add: wait_view_def)

lemma wait_ok_stats:
  "wait_ok t \<Longrightarrow> wts_live x = wts_live (wt_stats t) \<Longrightarrow> wait_ok (t\<lparr>wt_stats := x\<rparr>)"
  by (simp add: wait_ok_def)

section \<open>Slots that change\<close>

lemma wait_view_update:
  assumes "i < length (wt_slots t)"
  shows "wait_view (t\<lparr>wt_slots := (wt_slots t)[i := y]\<rparr>) k =
    (if wk_slot k = i then if wsl_generation y = wk_generation k then slot_spec y else None else wait_view t k)"
  using assms by (auto simp: wait_view_def)

lemma wait_slots_ok_update:
  assumes "wait_slots_ok xs" "i < length xs" "wsl_generation y < 2 ^ 32"
    and "\<And>r. wsl_record y = Some r \<Longrightarrow> wrec_key r = slot_key i y \<and> \<not> wsl_retired y"
  shows "wait_slots_ok (xs[i := y])"
  unfolding wait_slots_ok_def
proof (intro allI impI)
  fix j assume "j < length (xs[i := y])"
  then show "wsl_generation (xs[i := y] ! j) < 2 ^ 32 \<and> (\<forall>r. wsl_record (xs[i := y] ! j) = Some r \<longrightarrow>
      wrec_key r = slot_key j (xs[i := y] ! j) \<and> \<not> wsl_retired (xs[i := y] ! j))"
    using assms(1,2,3) assms(4) unfolding wait_slots_ok_def by (cases "j = i") (simp_all only: nth_list_update_eq nth_list_update_neq length_list_update, blast+)
qed

definition wait_floor :: "wait_slot \<Rightarrow> nat" where
  "wait_floor x = (if wsl_retired x then wsl_generation x + 1 else wsl_generation x)"

abbreviation wait_advances :: "wait_slot list \<Rightarrow> wait_slot list \<Rightarrow> bool" where
  "wait_advances \<equiv> table_advances wsl_generation (\<lambda>x. wsl_record x \<noteq> None) wait_floor"

lemma vacate_facts:
  assumes "wsl_generation x < 2 ^ 32"
  shows "wsl_record (vacate x) = None" "slot_spec (vacate x) = None" "wsl_generation (vacate x) < 2 ^ 32"
    "wsl_record x \<noteq> None \<Longrightarrow> slot_advances wsl_generation (\<lambda>x. wsl_record x \<noteq> None) wait_floor x (vacate x) \<or> wsl_retired x"
  using assms by (auto simp: vacate_def checked_add_def slot_spec_def slot_advances_def wait_floor_def split: option.splits)

lemma record_reason_live: "record_reason reason imm st = Inr st' \<Longrightarrow> wts_live st' = wts_live st"
  by (cases reason) (auto simp: record_reason_def set_reason_counter_def result_simps checked_simps split: if_splits)

definition completion_of :: "wake_reason \<Rightarrow> wait_key \<Rightarrow> wait_spec \<Rightarrow> wait_completion" where
  "completion_of reason k s = \<lparr>cn_key = k, cn_owner = sp_owner s, cn_operation = sp_operation s, cn_reason = reason\<rparr>"

definition reason_room :: "nat \<Rightarrow> wake_reason \<Rightarrow> wait_stats \<Rightarrow> bool" where
  "reason_room n reason st \<longleftrightarrow> wts_wakes st + n < 2 ^ 64 \<and> reason_counter reason st + n < 2 ^ 64"

lemma record_reason_outcome:
  "record_reason reason False st = (if reason_room 1 reason st
     then Inr (set_reason_counter reason (reason_counter reason st + 1) (st\<lparr>wts_wakes := wts_wakes st + 1\<rparr>))
     else Inl WaitAccountingOverflow)"
  by (simp add: record_reason_def reason_room_def checked_add_def)

lemma record_reason_room:
  "record_reason reason False st = Inr st' \<Longrightarrow> reason_room (Suc n) reason st \<Longrightarrow> reason_room n reason st'"
  by (cases reason) (auto simp: record_reason_def set_reason_counter_def reason_room_def reason_counter_def result_simps checked_simps split: if_splits)

lemma resolve_index_effect:
  assumes ok: "wait_ok t" and i: "i < length (wt_slots t)" and r: "wsl_record (wt_slots t ! i) = Some r"
    and op: "resolve_index i reason t = Inr (c, t')"
  shows "wait_ok t'" "c = completion_of reason (slot_key i (wt_slots t ! i)) (wrec_spec r)"
    "wait_view t' = (wait_view t)(slot_key i (wt_slots t ! i) := None)"
    "wt_slots t' = (wt_slots t)[i := vacate (wt_slots t ! i)]" "wait_advances (wt_slots t) (wt_slots t')"
    "\<And>n. reason_room (Suc n) reason (wt_stats t) \<Longrightarrow> reason_room n reason (wt_stats t')"
proof -
  let ?x = "wt_slots t ! i"
  from op r obtain st where st: "record_reason reason False (wt_stats t) = Inr st"
    and t': "t' = t\<lparr>wt_slots := (wt_slots t)[i := vacate ?x], wt_stats := st\<lparr>wts_live := wts_live (wt_stats t) - 1\<rparr>\<rparr>"
    and c: "c = \<lparr>cn_key = wrec_key r, cn_owner = sp_owner (wrec_spec r), cn_operation = sp_operation (wrec_spec r), cn_reason = reason\<rparr>"
    by (auto simp: resolve_index_def result_simps checked_simps)
  note sv = slot_view [OF ok i r]
  show "c = completion_of reason (slot_key i ?x) (wrec_spec r)" using c sv(1) by (simp add: completion_of_def)
  show slots: "wt_slots t' = (wt_slots t)[i := vacate ?x]" using t' by simp
  have gen: "wsl_generation ?x < 2 ^ 32" using wait_okD(2) [OF ok] i by (simp add: wait_slots_ok_def)
  note vf = vacate_facts [OF gen]
  show view: "wait_view t' = (wait_view t)(slot_key i ?x := None)"
  proof
    fix k
    have "wait_view t' k = wait_view (t\<lparr>wt_slots := (wt_slots t)[i := vacate ?x]\<rparr>) k" using t' by (simp add: wait_view_def)
    also have "\<dots> = ((wait_view t)(slot_key i ?x := None)) k"
      using wait_view_update [OF i] vf(2) by (auto simp: slot_key_def wait_view_def)
    finally show "wait_view t' k = ((wait_view t)(slot_key i ?x := None)) k" .
  qed
  show "wait_advances (wt_slots t) (wt_slots t')"
    unfolding slots using vf(4) sv(2) r by (auto intro!: table_advances_update)
  have cnt: "count_if (\<lambda>x. wsl_record x \<noteq> None) (wt_slots t') + 1 = count_if (\<lambda>x. wsl_record x \<noteq> None) (wt_slots t)"
    using count_if_update [OF i, of "\<lambda>x. wsl_record x \<noteq> None" "vacate ?x"] r vf(1) slots by simp
  have "wait_slots_ok (wt_slots t')"
    unfolding slots using vf(1,3) by (intro wait_slots_ok_update [OF wait_okD(2) [OF ok] i]) simp_all
  moreover have "view_compatible (wait_view t')"
    by (rule view_compatible_sub [OF wait_okD(3) [OF ok]]) (auto simp: view map_le_def)
  ultimately show "wait_ok t'" using ok cnt t' by (simp add: wait_ok_def)
  show "\<And>n. reason_room (Suc n) reason (wt_stats t) \<Longrightarrow> reason_room n reason (wt_stats t')"
    using record_reason_room [OF st] t' by (auto simp: reason_room_def reason_counter_def split: wake_reason.splits)
qed

lemma resolve_index_outcome:
  assumes ok: "wait_ok t" and i: "i < length (wt_slots t)" and r: "wsl_record (wt_slots t ! i) = Some r"
  shows "resolve_index i reason t = Inl e \<longleftrightarrow> e = WaitAccountingOverflow \<and> \<not> reason_room 1 reason (wt_stats t)"
proof -
  have "0 < wts_live (wt_stats t)"
    using count_if_pos_nth [OF i, of "\<lambda>x. wsl_record x \<noteq> None"] r wait_okD(4) [OF ok] by simp
  then show ?thesis using r by (auto simp: resolve_index_def record_reason_outcome checked_sub_def)
qed

section \<open>Registration\<close>

definition wait_room :: "wait_table \<Rightarrow> bool" where
  "wait_room t \<longleftrightarrow> (\<exists>x\<in>set (wt_slots t). wsl_record x = None \<and> \<not> wsl_retired x) \<or> length (wt_slots t) < wt_capacity t"

lemma wait_slots_ok_append:
  assumes "wait_slots_ok xs" "wsl_record y = None" "wsl_generation y < 2 ^ 32"
  shows "wait_slots_ok (xs @ [y])"
  unfolding wait_slots_ok_def
proof (intro allI impI)
  fix j assume j: "j < length (xs @ [y])"
  show "wsl_generation ((xs @ [y]) ! j) < 2 ^ 32 \<and> (\<forall>r. wsl_record ((xs @ [y]) ! j) = Some r \<longrightarrow>
      wrec_key r = slot_key j ((xs @ [y]) ! j) \<and> \<not> wsl_retired ((xs @ [y]) ! j))"
  proof (cases "j < length xs")
    case True
    then have eq: "(xs @ [y]) ! j = xs ! j" by (simp add: nth_append)
    show ?thesis unfolding eq using assms(1) True unfolding wait_slots_ok_def by blast
  next
    case False
    then have "(xs @ [y]) ! j = y" using j by (simp add: nth_append less_Suc_eq)
    then show ?thesis using assms(2,3) by simp
  qed
qed

lemma claim_slot_effect:
  assumes ok: "wait_ok t" and op: "claim_slot reserved t = Inr (i, t')"
  shows "wait_ok t'" "i < length (wt_slots t')" "wsl_record (wt_slots t' ! i) = None" "\<not> wsl_retired (wt_slots t' ! i)"
    "wait_view t' = wait_view t" "wt_stats t' = wt_stats t" "wait_advances (wt_slots t) (wt_slots t')" "wait_room t"
proof -
  let ?free = "\<lambda>slot. wsl_record slot = None \<and> \<not> wsl_retired slot"
  have "wait_ok t' \<and> i < length (wt_slots t') \<and> ?free (wt_slots t' ! i) \<and> wait_view t' = wait_view t \<and> wt_stats t' = wt_stats t \<and>
    wait_advances (wt_slots t) (wt_slots t') \<and> wait_room t"
  proof (cases "position ?free (wt_slots t)")
    case None
    let ?x = "\<lparr>wsl_generation = 1, wsl_retired = False, wsl_record = None\<rparr> :: wait_slot"
    from op None have room: "length (wt_slots t) \<noteq> wt_capacity t" and i: "i = length (wt_slots t)"
      and t': "t' = t\<lparr>wt_slots := wt_slots t @ [?x]\<rparr>" by (auto simp: claim_slot_def split: if_splits)
    have view: "wait_view t' = wait_view t" by (rule ext) (auto simp: t' wait_view_def nth_append slot_spec_def)
    have "wait_slots_ok (wt_slots t')" unfolding t' using wait_slots_ok_append [OF wait_okD(2) [OF ok], of ?x] by simp
    then have "wait_ok t'" using ok room view by (simp add: wait_ok_def t')
    then show ?thesis using view i ok room by (simp add: t' table_advances_append wait_room_def wait_ok_def)
  next
    case (Some j)
    then have "t' = t" "i = j" using op by (simp_all add: claim_slot_def)
    then show ?thesis using position_SomeD [OF Some] ok by (auto simp: wait_room_def)
  qed
  then show "wait_ok t'" "i < length (wt_slots t')" "wsl_record (wt_slots t' ! i) = None" "\<not> wsl_retired (wt_slots t' ! i)"
    "wait_view t' = wait_view t" "wt_stats t' = wt_stats t" "wait_advances (wt_slots t) (wt_slots t')" "wait_room t" by blast+
qed

lemma claim_slot_refused:
  assumes "wait_ok t" "claim_slot reserved t = Inl e"
  shows "e = WaitCapacityExhausted \<and> \<not> wait_room t \<or> e = WaitMetadataExhausted \<and> \<not> reserved \<and> wait_room t"
proof (cases "position (\<lambda>slot. wsl_record slot = None \<and> \<not> wsl_retired slot) (wt_slots t)")
  case None
  then have "\<forall>x\<in>set (wt_slots t). \<not> (wsl_record x = None \<and> \<not> wsl_retired x)" by (simp only: position_None_iff)
  with None show ?thesis using assms by (auto simp: claim_slot_def wait_room_def wait_ok_def split: if_splits)
qed (use assms in \<open>simp add: claim_slot_def\<close>)

lemma publish_at_effect:
  assumes ok: "wait_ok t" and i: "i < length (wt_slots t)" and free: "wsl_record (wt_slots t ! i) = None" "\<not> wsl_retired (wt_slots t ! i)"
    and new: "\<And>k s. wait_view t k = Some s \<Longrightarrow> waits_compatible s spec"
  obtains t' where "publish_at spec i t = (Inr (RegistrationBlocked (slot_key i (wt_slots t ! i))), t')" "wait_ok t'"
    "wait_view t (slot_key i (wt_slots t ! i)) = None" "wait_view t' = (wait_view t)(slot_key i (wt_slots t ! i) \<mapsto> spec)"
    "wait_advances (wt_slots t) (wt_slots t')"
proof -
  let ?x = "wt_slots t ! i" let ?k = "slot_key i ?x"
  let ?y = "?x\<lparr>wsl_record := Some \<lparr>wrec_key = ?k, wrec_spec = spec\<rparr>\<rparr>"
  define t' where "t' = t\<lparr>wt_slots := (wt_slots t)[i := ?y], wt_stats := (wt_stats t)\<lparr>wts_live := wts_live (wt_stats t) + 1,
      wts_high_water := max (wts_high_water (wt_stats t)) (wts_live (wt_stats t) + 1)\<rparr>\<rparr>"
  have "try_into 32 i = Some i" "checked_add 32 (wts_live (wt_stats t)) 1 = Some (wts_live (wt_stats t) + 1)"
    using wait_okD(1,5) [OF ok] i by (simp_all add: try_into_def checked_add_def)
  then have op: "publish_at spec i t = (Inr (RegistrationBlocked ?k), t')" by (simp add: publish_at_def Let_def t'_def slot_key_def)
  have old: "wait_view t ?k = None" using free by (simp add: wait_view_def slot_key_def slot_spec_def)
  have view: "wait_view t' = (wait_view t)(?k \<mapsto> spec)"
  proof
    fix k
    have "wait_view t' k = wait_view (t\<lparr>wt_slots := (wt_slots t)[i := ?y]\<rparr>) k" by (simp add: t'_def wait_view_def)
    also have "\<dots> = ((wait_view t)(?k \<mapsto> spec)) k"
    proof (cases "wk_slot k = i")
      case True
      have "k = ?k \<longleftrightarrow> wsl_generation ?x = wk_generation k" using True by (cases k) (auto simp: slot_key_def)
      moreover have "wait_view t k = None" using True free by (simp add: wait_view_def slot_spec_def)
      ultimately show ?thesis using True wait_view_update [OF i] by (simp add: slot_spec_def)
    next
      case False
      then have "k \<noteq> ?k" by (auto simp: slot_key_def)
      with False show ?thesis using wait_view_update [OF i] by simp
    qed
    finally show "wait_view t' k = ((wait_view t)(?k \<mapsto> spec)) k" .
  qed
  have gen: "wsl_generation ?x < 2 ^ 32" using wait_okD(2) [OF ok] i unfolding wait_slots_ok_def by blast
  have "wait_slots_ok ((wt_slots t)[i := ?y])"
    using free gen by (intro wait_slots_ok_update [OF wait_okD(2) [OF ok] i]) (auto simp: slot_key_def)
  moreover have "count_if (\<lambda>x. wsl_record x \<noteq> None) ((wt_slots t)[i := ?y]) = count_if (\<lambda>x. wsl_record x \<noteq> None) (wt_slots t) + 1"
    using count_if_update [OF i, of "\<lambda>x. wsl_record x \<noteq> None" ?y] free by simp
  moreover have "view_compatible (wait_view t')" unfolding view by (rule view_compatible_upd [OF wait_okD(3) [OF ok] new])
  ultimately have "wait_ok t'" using ok by (simp add: wait_ok_def t'_def)
  moreover have "wait_advances (wt_slots t) (wt_slots t')"
    unfolding t'_def using free by (auto intro!: table_advances_update simp: slot_advances_def wait_floor_def)
  ultimately show ?thesis by (intro that [OF op _ old view])
qed

lemma record_reason_immediate:
  "record_reason reason True st = Inl e \<longleftrightarrow> e = WaitAccountingOverflow \<and>
     (2 ^ 64 \<le> wts_immediate_wakes st + 1 \<or> 2 ^ 64 \<le> reason_counter reason st + 1)"
  by (auto simp: record_reason_def checked_add_def)

text \<open>The outcomes of a registration.\<close>

inductive register_outcome :: "bool \<Rightarrow> wait_spec \<Rightarrow> wake_reason option \<Rightarrow> wait_table \<Rightarrow>
    (wait_error, wait_registration) result \<Rightarrow> wait_table \<Rightarrow> bool" for reserved spec observed t where
  owner_waiting: "wait_view t k = Some s \<Longrightarrow> caller_conflicts (sp_owner s) (sp_owner spec) \<Longrightarrow>
    register_outcome reserved spec observed t (Inl OwnerAlreadyWaiting) t"
| operation_waiting: "wait_view t k = Some s \<Longrightarrow> sp_operation s = sp_operation spec \<Longrightarrow>
    \<forall>k s. wait_view t k = Some s \<longrightarrow> \<not> caller_conflicts (sp_owner s) (sp_owner spec) \<Longrightarrow>
    register_outcome reserved spec observed t (Inl OperationAlreadyWaiting) t"
| unexpected: "\<forall>k s. wait_view t k = Some s \<longrightarrow> waits_compatible s spec \<Longrightarrow> observed = Some reason \<Longrightarrow> \<not> spec_accepts spec reason \<Longrightarrow>
    register_outcome reserved spec observed t (Inl UnexpectedWake) t"
| uncounted: "\<forall>k s. wait_view t k = Some s \<longrightarrow> waits_compatible s spec \<Longrightarrow> observed = Some reason \<Longrightarrow> spec_accepts spec reason \<Longrightarrow>
    2 ^ 64 \<le> wts_immediate_wakes (wt_stats t) + 1 \<or> 2 ^ 64 \<le> reason_counter reason (wt_stats t) + 1 \<Longrightarrow>
    register_outcome reserved spec observed t (Inl WaitAccountingOverflow) t"
| immediate: "\<forall>k s. wait_view t k = Some s \<longrightarrow> waits_compatible s spec \<Longrightarrow> observed = Some reason \<Longrightarrow> spec_accepts spec reason \<Longrightarrow>
    wt_slots t' = wt_slots t \<Longrightarrow> register_outcome reserved spec observed t (Inr (RegistrationReady reason)) t'"
| full: "\<forall>k s. wait_view t k = Some s \<longrightarrow> waits_compatible s spec \<Longrightarrow> observed = None \<Longrightarrow> \<not> wait_room t \<Longrightarrow>
    register_outcome reserved spec observed t (Inl WaitCapacityExhausted) t"
| unreserved: "\<forall>k s. wait_view t k = Some s \<longrightarrow> waits_compatible s spec \<Longrightarrow> observed = None \<Longrightarrow> wait_room t \<Longrightarrow> \<not> reserved \<Longrightarrow>
    register_outcome reserved spec observed t (Inl WaitMetadataExhausted) t"
| published: "\<forall>k s. wait_view t k = Some s \<longrightarrow> waits_compatible s spec \<Longrightarrow> observed = None \<Longrightarrow> wait_room t \<Longrightarrow>
    wait_view t key = None \<Longrightarrow> wait_view t' = (wait_view t)(key \<mapsto> spec) \<Longrightarrow>
    register_outcome reserved spec observed t (Inr (RegistrationBlocked key)) t'"

lemma register_effect:
  assumes ok: "wait_ok t" and op: "wait_register reserved spec observation now t = (res, t')"
  shows "register_outcome reserved spec (observed_reason spec observation now) t res t' \<and> wait_ok t' \<and>
    wait_advances (wt_slots t) (wt_slots t')"
proof (cases "\<exists>k s. wait_view t k = Some s \<and> caller_conflicts (sp_owner s) (sp_owner spec)")
  case True
  then have "res = Inl OwnerAlreadyWaiting" "t' = t" using op by (auto simp: wait_register_def list_ex_view)
  then show ?thesis using True ok owner_waiting by auto
next
  case noconf: False
  show ?thesis
  proof (cases "\<exists>k s. wait_view t k = Some s \<and> sp_operation s = sp_operation spec")
    case True
    then have "res = Inl OperationAlreadyWaiting" "t' = t" using op noconf by (auto simp: wait_register_def list_ex_view)
    then show ?thesis using True noconf ok operation_waiting by auto
  next
    case False
    with noconf have new: "\<forall>k s. wait_view t k = Some s \<longrightarrow> waits_compatible s spec" by (auto simp: waits_compatible_def)
    have core: "(case observed_reason spec observation now of
        Some reason \<Rightarrow>
          if \<not> spec_accepts spec reason then (Inl UnexpectedWake, t)
          else (case record_reason reason True (wt_stats t) of
            Inl e \<Rightarrow> (Inl e, t)
          | Inr stats \<Rightarrow> (Inr (RegistrationReady reason), t\<lparr>wt_stats := stats\<rparr>))
      | None \<Rightarrow>
          (case claim_slot reserved t of
             Inl e \<Rightarrow> (Inl e, t)
           | Inr (index, t') \<Rightarrow> publish_at spec index t')) = (res, t')"
      using op noconf False unfolding wait_register_def list_ex_view by argo
    show ?thesis
    proof (cases "observed_reason spec observation now")
      case (Some reason)
      show ?thesis
      proof (cases "spec_accepts spec reason")
        case accepts: True
        show ?thesis
        proof (cases "record_reason reason True (wt_stats t)")
          case (Inl e)
          then have "res = Inl e" "t' = t"
            using core Some accepts Inl by simp_all
          then show ?thesis using Inl new Some accepts ok by (auto simp: record_reason_immediate intro: uncounted)
        next
          case (Inr st)
          then have "res = Inr (RegistrationReady reason)" "t' = t\<lparr>wt_stats := st\<rparr>"
            using core Some accepts by simp_all
          then show ?thesis using record_reason_live [OF Inr] new Some accepts ok by (auto intro!: immediate wait_ok_stats)
        qed
      next
        case refused: False
        then have "res = Inl UnexpectedWake" "t' = t" using core Some by simp_all
        then show ?thesis using refused new Some ok unexpected by auto
      qed
    next
      case None
      show ?thesis
      proof (cases "claim_slot reserved t")
        case (Inl e)
        then have "res = Inl e" "t' = t" using core None by simp_all
        then show ?thesis using claim_slot_refused [OF ok Inl] new None ok full unreserved by auto
      next
        case (Inr p)
        obtain i u where p: "p = (i, u)" by (cases p)
        note claim = claim_slot_effect [OF ok Inr [unfolded p]]
        have "\<And>k s. wait_view u k = Some s \<Longrightarrow> waits_compatible s spec" using new claim(5) by simp
        then obtain v where v: "publish_at spec i u = (Inr (RegistrationBlocked (slot_key i (wt_slots u ! i))), v)" "wait_ok v"
          "wait_view u (slot_key i (wt_slots u ! i)) = None" "wait_view v = (wait_view u)(slot_key i (wt_slots u ! i) \<mapsto> spec)"
          "wait_advances (wt_slots u) (wt_slots v)" using publish_at_effect [OF claim(1-4)] by blast
        have "res = Inr (RegistrationBlocked (slot_key i (wt_slots u ! i)))" "t' = v"
          using core None Inr p v(1) by simp_all
        then show ?thesis using published [OF new None claim(8)] v claim(5) table_advances_trans [OF claim(7) v(5)] by simp
      qed
    qed
  qed
qed

end
