(* ===== verification/Wait_Table_Runs.thy ===== *)
theory Wait_Table_Runs
  imports Wait_Table_Contract
begin

text \<open>
  Completions of published waits, one at a time and in batches, and runs of the wait table.
\<close>

section \<open>Single completions\<close>

text \<open>\<open>completes\<close>: one published wait ends with \<open>reason\<close>, unless the counters are full.\<close>

inductive completes :: "wait_table \<Rightarrow> wait_key \<Rightarrow> wait_spec \<Rightarrow> wake_reason \<Rightarrow> (wait_error, wait_completion) result \<Rightarrow> wait_table \<Rightarrow> bool"
  for t key s reason where
  completed: "wait_view t' = (wait_view t)(key := None) \<Longrightarrow> completes t key s reason (Inr (completion_of reason key s)) t'"
| overflowed: "\<not> reason_room 1 reason (wt_stats t) \<Longrightarrow> completes t key s reason (Inl WaitAccountingOverflow) t"

lemma slot_recordE:
  assumes "slot_spec (wt_slots t ! i) = Some s"
  obtains r where "wsl_record (wt_slots t ! i) = Some r" "wrec_spec r = s"
  using assms by (auto simp: slot_spec_def)

lemma resolve_completes:
  assumes ok: "wait_ok t" and i: "i < length (wt_slots t)" and s: "slot_spec (wt_slots t ! i) = Some s"
    and op: "on_table (resolve_index i reason t) t = (res, t')"
  shows "completes t (slot_key i (wt_slots t ! i)) s reason res t' \<and> wait_ok t' \<and> wait_advances (wt_slots t) (wt_slots t')"
proof -
  obtain r where r: "wsl_record (wt_slots t ! i) = Some r" "wrec_spec r = s" using slot_recordE [OF s] .
  show ?thesis
  proof (cases "resolve_index i reason t")
    case (Inl e)
    then have "res = Inl e" "t' = t" using op by (auto simp: on_table_def)
    then show ?thesis using resolve_index_outcome [OF ok i r(1), of reason e] Inl ok overflowed by simp
  next
    case (Inr p)
    obtain c u where p: "p = (c, u)" by (cases p)
    then have res: "res = Inr c" "t' = u" using op Inr by (auto simp: on_table_def)
    note eff = resolve_index_effect [OF ok i r(1) Inr [unfolded p]]
    show ?thesis unfolding res eff(2) r(2) by (intro conjI completed eff(1,3,5))
  qed
qed

lemma count_stale_effect:
  "count_stale t = Inr t' \<Longrightarrow> wait_ok t \<Longrightarrow> wait_ok t' \<and> wait_view t' = wait_view t \<and> wt_slots t' = wt_slots t"
  "count_stale t = Inl e \<Longrightarrow> e = WaitAccountingOverflow \<and> 2 ^ 64 \<le> wts_stale_wakes (wt_stats t) + 1"
  by (auto simp: count_stale_def result_simps checked_simps wait_ok_stats)

lemma wake_effect:
  assumes ok: "wait_ok t" and op: "wait_wake key reason t = (res, t')"
  shows "wait_ok t' \<and> wait_advances (wt_slots t) (wt_slots t') \<and>
    (case wait_view t key of
       None \<Rightarrow> wait_view t' = wait_view t \<and>
         (res = Inl StaleWait \<or> res = Inl WaitAccountingOverflow \<and> 2 ^ 64 \<le> wts_stale_wakes (wt_stats t) + 1)
     | Some s \<Rightarrow> if spec_accepts s reason then completes t key s reason res t' else res = Inl UnexpectedWake \<and> t' = t)"
proof (cases "wait_view t key")
  case None
  then have "\<not> key_valid key t" using key_valid_view [OF ok] by simp
  then have "(case count_stale t of Inl e \<Rightarrow> (Inl e, t) | Inr t' \<Rightarrow> (Inl StaleWait, t')) = (res, t')"
    using op by (simp add: wait_wake_def)
  then consider u where "count_stale t = Inr u" "res = Inl StaleWait" "t' = u" | e where "count_stale t = Inl e" "res = Inl e" "t' = t"
    by (cases "count_stale t") simp_all
  then show ?thesis
  proof cases
    case 1
    then show ?thesis using None count_stale_effect(1) [OF 1(1) ok] by simp
  next
    case 2
    then show ?thesis using None count_stale_effect(2) [OF 2(1)] ok by simp
  qed
next
  case (Some s)
  from wait_view_SomeE [OF Some] obtain r where r: "wk_slot key < length (wt_slots t)"
    "wsl_record (wt_slots t ! wk_slot key) = Some r" "wsl_generation (wt_slots t ! wk_slot key) = wk_generation key" "wrec_spec r = s" .
  have key: "slot_key (wk_slot key) (wt_slots t ! wk_slot key) = key" using r(3) by (cases key) (simp add: slot_key_def)
  have "key_valid key t" using key_valid_view [OF ok] Some by simp
  then have op': "(if \<not> spec_accepts s reason then (Inl UnexpectedWake, t) else on_table (resolve_index (wk_slot key) reason t) t) = (res, t')"
    using op r by (simp add: wait_wake_def)
  show ?thesis
  proof (cases "spec_accepts s reason")
    case True
    then have "on_table (resolve_index (wk_slot key) reason t) t = (res, t')" using op' by simp
    moreover have "slot_spec (wt_slots t ! wk_slot key) = Some s" using r by (simp add: slot_spec_def)
    ultimately have "completes t key s reason res t' \<and> wait_ok t' \<and> wait_advances (wt_slots t) (wt_slots t')"
      using resolve_completes [OF ok r(1)] key by metis
    then show ?thesis using Some True by simp
  next
    case False
    then show ?thesis using op' Some ok by simp
  qed
qed

lemma position_operation:
  assumes ok: "wait_ok t" and view: "wait_view t key = Some s"
  shows "position (slot_has (\<lambda>spec. sp_operation spec = sp_operation s)) (wt_slots t) = Some (wk_slot key)"
    "slot_key (wk_slot key) (wt_slots t ! wk_slot key) = key"
    "wk_slot key < length (wt_slots t)" "slot_spec (wt_slots t ! wk_slot key) = Some s"
proof -
  let ?P = "slot_has (\<lambda>spec. sp_operation spec = sp_operation s)"
  from wait_view_SomeE [OF view] obtain r where r: "wk_slot key < length (wt_slots t)"
    "wsl_record (wt_slots t ! wk_slot key) = Some r" "wsl_generation (wt_slots t ! wk_slot key) = wk_generation key" "wrec_spec r = s" .
  show "slot_key (wk_slot key) (wt_slots t ! wk_slot key) = key" using r(3) by (cases key) (simp add: slot_key_def)
  show has: "slot_spec (wt_slots t ! wk_slot key) = Some s" using r by (simp add: slot_spec_def)
  show "wk_slot key < length (wt_slots t)" by (rule r(1))
  show "position ?P (wt_slots t) = Some (wk_slot key)"
  proof (rule position_unique [OF r(1)])
    show "?P (wt_slots t ! wk_slot key)" using has by (simp add: slot_has_def)
    fix j assume j: "j < wk_slot key"
    show "\<not> ?P (wt_slots t ! j)"
    proof
      assume "?P (wt_slots t ! j)"
      then obtain s' where s': "wait_view t (slot_key j (wt_slots t ! j)) = Some s'" "sp_operation s' = sp_operation s"
        using slot_has_view [of j t] j r(1) by auto
      moreover have "slot_key j (wt_slots t ! j) \<noteq> key" using j by (auto simp: slot_key_def)
      ultimately show False using wait_okD(3) [OF ok] view unfolding view_compatible_def waits_compatible_def by blast
    qed
  qed
qed

lemma position_no_operation:
  assumes "\<And>k s. wait_view t k = Some s \<Longrightarrow> sp_operation s \<noteq> operation"
  shows "position (slot_has (\<lambda>spec. sp_operation spec = operation)) (wt_slots t) = None"
  using list_ex_view [of "\<lambda>spec. sp_operation spec = operation" t] assms
  by (simp only: position_None_iff list_ex_iff) blast

lemma on_table_Some:
  assumes "on_table (map_sum (\<lambda>x. x) (map_prod Some (\<lambda>x. x)) m) t = (res, t')"
  obtains res' where "on_table m t = (res', t')" "res = map_sum (\<lambda>x. x) Some res'"
  using assms by (cases m) (auto simp: on_table_def split: sum.splits)

lemma observe_effect:
  assumes ok: "wait_ok t" and op: "observe_operation operation resource observation now t = (res, t')"
  shows "wait_ok t' \<and> wait_advances (wt_slots t) (wt_slots t') \<and>
    ((\<forall>k s. wait_view t k = Some s \<longrightarrow> sp_operation s \<noteq> operation) \<and> res = Inl StaleWait \<and> t' = t \<or>
     (\<exists>k s. wait_view t k = Some s \<and> sp_operation s = operation \<and>
       (if resource \<noteq> sp_resource s then res = Inl WaitInvalidResource \<and> t' = t
        else case observed_reason s observation now of
          None \<Rightarrow> res = Inr None \<and> t' = t
        | Some reason \<Rightarrow>
            if spec_accepts s reason then \<exists>res'. completes t k s reason res' t' \<and> res = map_sum (\<lambda>x. x) Some res'
            else res = Inl UnexpectedWake \<and> t' = t)))"
proof (cases "\<exists>k s. wait_view t k = Some s \<and> sp_operation s = operation")
  case False
  then have "position (slot_has (\<lambda>spec. sp_operation spec = operation)) (wt_slots t) = None" by (intro position_no_operation) blast
  then have "res = Inl StaleWait" "t' = t" using op by (simp_all add: observe_operation_def)
  then show ?thesis using False ok by simp
next
  case True
  then obtain k s where s: "wait_view t k = Some s" "sp_operation s = operation" by blast
  note pos = position_operation [OF ok s(1), unfolded s(2)]
  have op': "(if resource \<noteq> sp_resource s then (Inl WaitInvalidResource, t)
     else case observed_reason s observation now of
       None \<Rightarrow> (Inr None, t)
     | Some reason \<Rightarrow>
         if \<not> spec_accepts s reason then (Inl UnexpectedWake, t)
         else on_table (map_sum (\<lambda>x. x) (map_prod Some (\<lambda>x. x)) (resolve_index (wk_slot k) reason t)) t) = (res, t')"
    using op pos(1,4) by (simp add: observe_operation_def)
  have "wait_ok t' \<and> wait_advances (wt_slots t) (wt_slots t') \<and>
       (if resource \<noteq> sp_resource s then res = Inl WaitInvalidResource \<and> t' = t
        else case observed_reason s observation now of
          None \<Rightarrow> res = Inr None \<and> t' = t
        | Some reason \<Rightarrow>
            if spec_accepts s reason then \<exists>res'. completes t k s reason res' t' \<and> res = map_sum (\<lambda>x. x) Some res'
            else res = Inl UnexpectedWake \<and> t' = t)"
  proof (cases "resource = sp_resource s \<and> (\<exists>reason. observed_reason s observation now = Some reason \<and> spec_accepts s reason)")
    case True
    then obtain reason where reason: "observed_reason s observation now = Some reason" "spec_accepts s reason" by blast
    then have "on_table (map_sum (\<lambda>x. x) (map_prod Some (\<lambda>x. x)) (resolve_index (wk_slot k) reason t)) t = (res, t')"
      using True op' by simp
    then obtain res' where res': "on_table (resolve_index (wk_slot k) reason t) t = (res', t')" "res = map_sum (\<lambda>x. x) Some res'"
      by (rule on_table_Some)
    from resolve_completes [OF ok pos(3,4) res'(1)] pos(2) res'(2) reason True show ?thesis by auto
  next
    case False
    then show ?thesis using op' ok by (auto split: option.splits if_splits)
  qed
  then show ?thesis using s by blast
qed

lemma cancel_operation_effect:
  assumes ok: "wait_ok t" and op: "cancel_operation operation reason t = (res, t')"
  shows "wait_ok t' \<and> wait_advances (wt_slots t) (wt_slots t') \<and>
    (if \<not> reason_is_terminal reason then res = Inl UnexpectedWake \<and> t' = t
     else (\<forall>k s. wait_view t k = Some s \<longrightarrow> sp_operation s \<noteq> operation) \<and> res = Inr None \<and> t' = t \<or>
       (\<exists>k s res'. wait_view t k = Some s \<and> sp_operation s = operation \<and> completes t k s reason res' t' \<and>
          res = map_sum (\<lambda>x. x) Some res'))"
proof (cases "reason_is_terminal reason")
  case False
  then show ?thesis using op ok by (simp add: cancel_operation_def)
next
  case terminal: True
  show ?thesis
  proof (cases "\<exists>k s. wait_view t k = Some s \<and> sp_operation s = operation")
    case False
    then have "position (slot_has (\<lambda>spec. sp_operation spec = operation)) (wt_slots t) = None" by (intro position_no_operation) blast
    then have "res = Inr None" "t' = t" using op terminal by (simp_all add: cancel_operation_def)
    then show ?thesis using False ok terminal by simp
  next
    case True
    then obtain k s where s: "wait_view t k = Some s" "sp_operation s = operation" by blast
    note pos = position_operation [OF ok s(1), unfolded s(2)]
    have "on_table (map_sum (\<lambda>x. x) (map_prod Some (\<lambda>x. x)) (resolve_index (wk_slot k) reason t)) t = (res, t')"
      using op pos(1) terminal by (simp add: cancel_operation_def)
    then obtain res' where res': "on_table (resolve_index (wk_slot k) reason t) t = (res', t')" "res = map_sum (\<lambda>x. x) Some res'"
      by (rule on_table_Some)
    from resolve_completes [OF ok pos(3,4) res'(1)] pos(2) res'(2) s terminal show ?thesis by auto
  qed
qed

section \<open>Batches\<close>

text \<open>The keys of published waits satisfying \<open>P\<close>, in slot order.\<close>

definition waits_where :: "(wait_spec \<Rightarrow> bool) \<Rightarrow> wait_table \<Rightarrow> nat list \<Rightarrow> (wait_key \<times> wait_spec) list" where
  "waits_where P t indexes = concat (map (\<lambda>i. case slot_spec (wt_slots t ! i) of
     None \<Rightarrow> [] | Some s \<Rightarrow> if P s then [(slot_key i (wt_slots t ! i), s)] else []) indexes)"

lemma waits_where_simps [simp]:
  "waits_where P t [] = []"
  "waits_where P t (i # is) = (case slot_spec (wt_slots t ! i) of
     None \<Rightarrow> [] | Some s \<Rightarrow> if P s then [(slot_key i (wt_slots t ! i), s)] else []) @ waits_where P t is"
  by (simp_all add: waits_where_def)

lemma waits_where_cong:
  "(\<And>i. i \<in> set is \<Longrightarrow> wt_slots t ! i = wt_slots t' ! i) \<Longrightarrow> waits_where P t is = waits_where P t' is"
  unfolding waits_where_def by (intro arg_cong [of _ _ concat] map_cong) (simp_all only:)

lemma waits_where_set:
  "set (waits_where P t [0..<length (wt_slots t)]) = {(k, s). wait_view t k = Some s \<and> P s}"
  (is "?L = ?R")
proof (rule set_eqI, clarify)
  fix k s
  have "(k, s) \<in> ?L \<longleftrightarrow> (\<exists>i<length (wt_slots t). slot_spec (wt_slots t ! i) = Some s \<and> P s \<and> k = slot_key i (wt_slots t ! i))"
    by (force simp: waits_where_def split: option.splits if_splits)
  also have "\<dots> \<longleftrightarrow> wait_view t k = Some s \<and> P s"
    by (cases k) (auto simp: wait_view_def slot_key_def split: if_splits)
  finally show "(k, s) \<in> ?L \<longleftrightarrow> (k, s) \<in> ?R" by simp
qed

lemma waits_where_slots:
  "map (wk_slot \<circ> fst) (waits_where P t is) = filter (\<lambda>i. slot_has P (wt_slots t ! i)) is"
  by (induction "is") (auto simp: slot_has_def slot_key_def split: option.splits)

lemma waits_where_distinct: "distinct is \<Longrightarrow> distinct (map fst (waits_where P t is))"
  using waits_where_slots [of P t "is"] distinct_filter [of "is"] by (metis distinct_map map_map)

definition removed_where :: "(wait_spec \<Rightarrow> bool) \<Rightarrow> wait_table \<Rightarrow> wait_table \<Rightarrow> bool" where
  "removed_where P t t' \<longleftrightarrow> wait_ok t' \<and> wait_advances (wt_slots t) (wt_slots t') \<and> length (wt_slots t') = length (wt_slots t) \<and>
     (\<forall>k. wait_view t' k = wait_view t k \<or> wait_view t' k = None \<and> (\<exists>s. wait_view t k = Some s \<and> P s))"

lemma removed_where_refl: "wait_ok t \<Longrightarrow> removed_where P t t"
  by (simp add: removed_where_def)

lemma removed_where_trans:
  "removed_where P t u \<Longrightarrow> removed_where P u v \<Longrightarrow> removed_where P t v"
  unfolding removed_where_def by (metis table_advances_trans)

lemma resolve_removed:
  assumes ok: "wait_ok t" and i: "i < length (wt_slots t)" and s: "slot_spec (wt_slots t ! i) = Some s" "P s"
    and op: "resolve_index i reason t = Inr (c, u)"
  shows "removed_where P t u" "c = completion_of reason (slot_key i (wt_slots t ! i)) s"
    "wait_view u = (wait_view t)(slot_key i (wt_slots t ! i) := None)"
    "\<And>j. j \<noteq> i \<Longrightarrow> wt_slots u ! j = wt_slots t ! j" "wait_view t (slot_key i (wt_slots t ! i)) = Some s"
    "\<And>n. reason_room (Suc n) reason (wt_stats t) \<Longrightarrow> reason_room n reason (wt_stats u)"
proof -
  obtain r where r: "wsl_record (wt_slots t ! i) = Some r" "wrec_spec r = s" using slot_recordE [OF s(1)] .
  note eff = resolve_index_effect [OF ok i r(1) op]
  show "c = completion_of reason (slot_key i (wt_slots t ! i)) s" using eff(2) r(2) by simp
  show view: "wait_view u = (wait_view t)(slot_key i (wt_slots t ! i) := None)" by (rule eff(3))
  show here: "wait_view t (slot_key i (wt_slots t ! i)) = Some s" using slot_view(3) [OF ok i r(1)] r(2) by simp
  show "\<And>j. j \<noteq> i \<Longrightarrow> wt_slots u ! j = wt_slots t ! j" using eff(4) by simp
  show "\<And>n. reason_room (Suc n) reason (wt_stats t) \<Longrightarrow> reason_room n reason (wt_stats u)" by (rule eff(6))
  have "\<forall>k. wait_view u k = wait_view t k \<or> wait_view u k = None \<and> (\<exists>s. wait_view t k = Some s \<and> P s)"
    using here s(2) by (auto simp: view)
  then show "removed_where P t u" using eff(1,4,5) unfolding removed_where_def by simp
qed

lemma reason_room_mono: "reason_room n reason st \<Longrightarrow> m \<le> n \<Longrightarrow> reason_room m reason st"
  by (auto simp: reason_room_def)

lemma resolve_where_effect:
  assumes "resolve_where P reason reserve is batch t = (res, t')" "wait_ok t" "distinct is" "\<forall>i\<in>set is. i < length (wt_slots t)"
  shows "removed_where P t t' \<and>
    (case res of
       Inr out \<Rightarrow> out = batch @ map (\<lambda>(k, s). completion_of reason k s) (waits_where P t is) \<and>
         (\<forall>k s. wk_slot k \<in> set is \<longrightarrow> wait_view t k = Some s \<longrightarrow> P s \<longrightarrow> wait_view t' k = None)
     | Inl e \<Rightarrow> e = WaitAccountingOverflow \<and> \<not> reason_room (length is) reason (wt_stats t) \<or>
         e = WaitMetadataExhausted \<and> (\<exists>n. \<not> reserve n))"
  using assms
proof (induction "is" arbitrary: batch t)
  case Nil
  then show ?case by (auto simp: removed_where_refl)
next
  case (Cons i js)
  let ?x = "wt_slots t ! i"
  have i: "i < length (wt_slots t)" and js: "i \<notin> set js" "distinct js" "\<forall>j\<in>set js. j < length (wt_slots t)"
    using Cons.prems(3,4) by auto
  show ?case
  proof (cases "slot_has P ?x")
    case False
    then have op: "resolve_where P reason reserve js batch t = (res, t')" using Cons.prems(1) by simp
    have none: "(case slot_spec ?x of None \<Rightarrow> [] | Some s \<Rightarrow> if P s then [(slot_key i ?x, s)] else []) = []"
      using False by (auto simp: slot_has_def split: option.splits)
    have "P s \<Longrightarrow> wait_view t k = Some s \<Longrightarrow> wk_slot k \<noteq> i" for k s
      using False by (auto simp: slot_has_def wait_view_def split: if_splits)
    moreover have "reason_room (Suc (length js)) reason (wt_stats t) \<Longrightarrow> reason_room (length js) reason (wt_stats t)"
      using reason_room_mono [of "Suc (length js)" reason "wt_stats t" "length js"] le_SucI [OF order_refl] by blast
    ultimately show ?thesis using Cons.IH [OF op Cons.prems(2) js(2,3)] none by (auto split: sum.splits)
  next
    case True
    then obtain s where s: "slot_spec ?x = Some s" "P s" by (auto simp: slot_has_def split: option.splits)
    obtain r where r: "wsl_record ?x = Some r" "wrec_spec r = s" using slot_recordE [OF s(1)] .
    show ?thesis
    proof (cases "resolve_index i reason t")
      case (Inl e)
      then have "res = Inl e" "t' = t" using Cons.prems(1) True by simp_all
      moreover have "e = WaitAccountingOverflow" "\<not> reason_room 1 reason (wt_stats t)"
        using resolve_index_outcome [OF Cons.prems(2) i r(1), of reason e] Inl by simp_all
      moreover from this have "\<not> reason_room (length (i # js)) reason (wt_stats t)" using reason_room_mono by fastforce
      ultimately show ?thesis using removed_where_refl [OF Cons.prems(2)] by simp
    next
      case (Inr p)
      obtain c u where p: "p = (c, u)" by (cases p)
      note rem = resolve_removed [where P = P, OF Cons.prems(2) i s Inr [unfolded p]]
      have u: "wait_ok u" "length (wt_slots u) = length (wt_slots t)" using rem(1) by (simp_all add: removed_where_def)
      show ?thesis
      proof (cases "reserve (length batch)")
        case False
        then have "res = Inl WaitMetadataExhausted" "t' = u" using Cons.prems(1) True Inr p by simp_all
        then show ?thesis using rem(1) False by auto
      next
        case reserved: True
        then have op: "resolve_where P reason reserve js (batch @ [c]) u = (res, t')" using Cons.prems(1) True Inr p by simp
        have eq: "waits_where P u js = waits_where P t js" by (rule waits_where_cong) (use rem(4) js(1) in metis)
        have js': "\<forall>j\<in>set js. j < length (wt_slots u)" using js(3) u(2) by simp
        note IH = Cons.IH [OF op u(1) js(2) js']
        have t': "removed_where P t t'" using IH removed_where_trans [OF rem(1)] by blast
        show ?thesis
        proof (cases res)
          case (Inl e)
          then show ?thesis using IH t' rem(6) by auto
        next
          case (Inr out)
          then have out: "out = (batch @ [c]) @ map (\<lambda>(k, s). completion_of reason k s) (waits_where P t js)"
            and gone: "\<forall>k s. wk_slot k \<in> set js \<longrightarrow> wait_view u k = Some s \<longrightarrow> P s \<longrightarrow> wait_view t' k = None"
            using IH eq by simp_all
          have "wait_view t' k = None" if k: "wk_slot k \<in> set (i # js)" "wait_view t k = Some s'" "P s'" for k s'
          proof (cases "wk_slot k = i")
            case True
            then have "wait_view u k = None" using k(2) by (auto simp: rem(3) wait_view_def slot_key_def split: if_splits)
            then show ?thesis using IH unfolding removed_where_def by metis
          next
            case False
            then have "wait_view u k = Some s'" using k(2) by (simp add: rem(3) slot_key_def) (metis wait_key.select_convs(1))
            then show ?thesis using gone k False by simp
          qed
          then show ?thesis using t' Inr out s rem(2) by auto
        qed
      qed
    qed
  qed
qed

text \<open>A batch over all slots: the completions of exactly the waits satisfying \<open>P\<close>, in slot order, and the rest untouched.\<close>

definition batch_outcome :: "(wait_spec \<Rightarrow> bool) \<Rightarrow> wake_reason \<Rightarrow> wait_table \<Rightarrow> wait_completion list \<Rightarrow> wait_table \<Rightarrow> bool" where
  "batch_outcome P reason t out t' \<longleftrightarrow>
     set out = {completion_of reason k s |k s. wait_view t k = Some s \<and> P s} \<and>
     sorted_wrt (\<lambda>c d. wk_slot (cn_key c) < wk_slot (cn_key d)) out \<and>
     wait_view t' = (\<lambda>k. case wait_view t k of None \<Rightarrow> None | Some s \<Rightarrow> if P s then None else Some s)"

lemma resolve_all_effect:
  assumes op: "resolve_where P reason reserve [0..<length (wt_slots t)] [] t = (res, t')" and ok: "wait_ok t"
  shows "removed_where P t t' \<and>
    (case res of
       Inr out \<Rightarrow> batch_outcome P reason t out t'
     | Inl e \<Rightarrow> e = WaitAccountingOverflow \<and> \<not> reason_room (length (wt_slots t)) reason (wt_stats t) \<or>
         e = WaitMetadataExhausted \<and> (\<exists>n. \<not> reserve n))"
proof -
  let ?is = "[0..<length (wt_slots t)]"
  note eff = resolve_where_effect [OF op ok]
  show ?thesis
  proof (cases res)
    case (Inl e)
    then show ?thesis using eff by simp
  next
    case (Inr out)
    have out: "out = map (\<lambda>(k, s). completion_of reason k s) (waits_where P t ?is)"
      and gone: "\<And>k s. wk_slot k < length (wt_slots t) \<Longrightarrow> wait_view t k = Some s \<Longrightarrow> P s \<Longrightarrow> wait_view t' k = None"
      and rem: "removed_where P t t'" using eff Inr by auto
    have "set out = {completion_of reason k s |k s. wait_view t k = Some s \<and> P s}"
      unfolding out set_map waits_where_set by auto
    moreover have "map (\<lambda>c. wk_slot (cn_key c)) out = filter (\<lambda>i. slot_has P (wt_slots t ! i)) ?is"
      unfolding out waits_where_slots [symmetric] by (simp add: completion_of_def case_prod_beta comp_def)
    then have "sorted_wrt (<) (map (\<lambda>c. wk_slot (cn_key c)) out)" by (simp add: sorted_wrt_filter)
    then have "sorted_wrt (\<lambda>c d. wk_slot (cn_key c) < wk_slot (cn_key d)) out" by (simp add: sorted_wrt_map)
    moreover have "wait_view t' k = (case wait_view t k of None \<Rightarrow> None | Some s \<Rightarrow> if P s then None else Some s)" for k
    proof -
      have or: "wait_view t' k = wait_view t k \<or> wait_view t' k = None \<and> (\<exists>s. wait_view t k = Some s \<and> P s)"
        using rem unfolding removed_where_def by blast
      show ?thesis
      proof (cases "wait_view t k")
        case None
        then show ?thesis using or by simp
      next
        case (Some s)
        then have "wk_slot k < length (wt_slots t)" by (rule wait_view_SomeE)
        then show ?thesis using or Some gone [OF _ Some] by (cases "P s") simp_all
      qed
    qed
    ultimately have "batch_outcome P reason t out t'" unfolding batch_outcome_def by blast
    then show ?thesis using rem Inr by simp
  qed
qed

end
