(* ===== verification/Wait_Table_Theorems.thy ===== *)
theory Wait_Table_Theorems
  imports Wait_Table_Runs
begin

text \<open>
  The properties of the wait table: exact registration without lost wakeups, completions that
  happen once and never return, and exact batches.
\<close>

section \<open>Batch operations\<close>

definition resource_accepted :: "wait_resource \<Rightarrow> wake_reason \<Rightarrow> wait_spec \<Rightarrow> bool" where
  "resource_accepted resource reason spec \<longleftrightarrow> sp_resource spec = Some resource \<and> spec_accepts spec reason"

definition deadline_passed :: "nat \<Rightarrow> wait_spec \<Rightarrow> bool" where
  "deadline_passed now spec \<longleftrightarrow> interest_contains (sp_interests spec) INTEREST_DEADLINE \<and>
     (\<exists>deadline\<le>now. sp_deadline spec = Some deadline)"

definition owned_by :: "task_id \<Rightarrow> wait_spec \<Rightarrow> bool" where
  "owned_by owner spec \<longleftrightarrow> wc_task (sp_owner spec) = owner"

definition batch_fails :: "(nat \<Rightarrow> bool) \<Rightarrow> wake_reason \<Rightarrow> wait_table \<Rightarrow> wait_error \<Rightarrow> bool" where
  "batch_fails reserve reason t e \<longleftrightarrow>
     e = WaitAccountingOverflow \<and> \<not> reason_room (length (wt_slots t)) reason (wt_stats t) \<or>
     e = WaitMetadataExhausted \<and> (\<exists>n. \<not> reserve n)"

text \<open>An operation that only ends waits.\<close>

definition waits_shrink :: "wait_table \<Rightarrow> wait_table \<Rightarrow> bool" where
  "waits_shrink t t' \<longleftrightarrow> (\<forall>k. wait_view t' k = wait_view t k \<or> wait_view t' k = None)"

lemma waits_shrink_refl [simp]: "waits_shrink t t"
  by (simp add: waits_shrink_def)

lemma completes_shrink:
  assumes "completes t key s reason res t'"
  shows "waits_shrink t t'"
  using assms by cases (simp_all add: waits_shrink_def)

lemma removed_shrink:
  assumes "removed_where P t t'"
  shows "waits_shrink t t'"
  unfolding waits_shrink_def
proof
  fix k
  have "wait_view t' k = wait_view t k \<or> wait_view t' k = None \<and> (\<exists>s. wait_view t k = Some s \<and> P s)"
    using assms by (simp add: removed_where_def)
  then show "wait_view t' k = wait_view t k \<or> wait_view t' k = None" by (elim disjE conjE) simp_all
qed

lemma expire_effect:
  assumes "wait_ok t" "wait_expire reserve now t = (res, t')"
  shows "removed_where (deadline_passed now) t t' \<and>
    (case res of Inr out \<Rightarrow> batch_outcome (deadline_passed now) WakeDeadline t out t' | Inl e \<Rightarrow> batch_fails reserve WakeDeadline t e)"
proof -
  have eq: "deadline_passed now = (\<lambda>spec. interest_contains (sp_interests spec) INTEREST_DEADLINE \<and>
      (case sp_deadline spec of None \<Rightarrow> False | Some deadline \<Rightarrow> deadline \<le> now))"
    by (rule ext) (auto simp: deadline_passed_def split: option.splits)
  from assms(2) have "resolve_where (deadline_passed now) WakeDeadline reserve [0..<length (wt_slots t)] [] t = (res, t')"
    unfolding wait_expire_def eq .
  from resolve_all_effect [OF this assms(1), folded batch_fails_def] show ?thesis .
qed

lemma resource_effect:
  assumes ok: "wait_ok t" and op: "wake_resource reserve resource reason t = (res, t')"
  shows "wait_ok t' \<and> wait_advances (wt_slots t) (wt_slots t') \<and> waits_shrink t t' \<and>
    (if reason \<noteq> WakeResourceReady \<and> reason \<noteq> WakeClosed then res = Inl UnexpectedWake \<and> t' = t
     else case res of
       Inr out \<Rightarrow> batch_outcome (resource_accepted resource reason) reason t out t'
     | Inl e \<Rightarrow> batch_fails reserve reason t e \<or> e = WaitAccountingOverflow \<and> wait_view t' = wait_view t)"
proof (cases "reason \<noteq> WakeResourceReady \<and> reason \<noteq> WakeClosed")
  case True
  then show ?thesis using op ok by (simp add: wake_resource_def)
next
  case False
  let ?P = "resource_accepted resource reason"
  have eq: "(\<lambda>spec. sp_resource spec = Some resource \<and> spec_accepts spec reason) = ?P" by (rule ext) (simp add: resource_accepted_def)
  obtain r u where ru: "resolve_where ?P reason reserve [0..<length (wt_slots t)] [] t = (r, u)" by fastforce
  note eff = resolve_all_effect [OF ru ok, folded batch_fails_def]
  have u: "wait_ok u" "wait_advances (wt_slots t) (wt_slots u)" "waits_shrink t u"
    using eff removed_shrink unfolding removed_where_def by blast+
  show ?thesis
  proof (cases r)
    case (Inl e)
    then have "res = Inl e" "t' = u" using op False ru by (auto simp: wake_resource_def Let_def eq)
    then show ?thesis unfolding if_not_P [OF False] using Inl eff u by simp
  next
    case (Inr out)
    then have out: "batch_outcome ?P reason t out u" using eff by simp
    obtain stale where "(if out = [] \<and> stale then (case count_stale u of Inl e \<Rightarrow> (Inl e, u) | Inr t'' \<Rightarrow> (Inr out, t'')) else (Inr out, u)) = (res, t')"
      using op False unfolding wake_resource_def Let_def eq ru Inr prod.case sum.case by (metis (no_types, lifting))
    then consider "res = Inr out" "t' = u"
      | v where "count_stale u = Inr v" "res = Inr out" "t' = v" | e where "out = []" "count_stale u = Inl e" "res = Inl e" "t' = u"
      by (cases "count_stale u") (auto split: if_splits)
    then show ?thesis
    proof cases
      case 1
      then show ?thesis unfolding if_not_P [OF False] using out u by simp
    next
      case 2
      note st = count_stale_effect(1) [OF 2(1) u(1)]
      have "batch_outcome ?P reason t out v" using out st unfolding batch_outcome_def by simp
      then show ?thesis unfolding if_not_P [OF False] using 2 st u by (simp add: waits_shrink_def)
    next
      case 3
      have "wait_view u = wait_view t" using out 3(1) unfolding batch_outcome_def by (auto split: option.splits)
      then show ?thesis unfolding if_not_P [OF False] using 3 count_stale_effect(2) [OF 3(2)] u by simp
    qed
  qed
qed

lemma discard_effect:
  assumes ok: "wait_ok t" and op: "discard_owner owner reason t = (res, t')"
  shows "wait_ok t' \<and> wait_advances (wt_slots t) (wt_slots t') \<and> waits_shrink t t' \<and>
    (if reason \<noteq> WakeCancelled \<and> reason \<noteq> WakeRevoked then res = Inl UnexpectedWake \<and> t' = t
     else case res of
       Inr n \<Rightarrow> \<exists>out. n = length out \<and> batch_outcome (owned_by owner) reason t out t'
     | Inl e \<Rightarrow> batch_fails (\<lambda>_. True) reason t e)"
proof (cases "reason \<noteq> WakeCancelled \<and> reason \<noteq> WakeRevoked")
  case True
  then show ?thesis using op ok by (simp add: discard_owner_def)
next
  case False
  let ?P = "owned_by owner"
  have eq: "(\<lambda>spec. wc_task (sp_owner spec) = owner) = ?P" by (rule ext) (simp add: owned_by_def)
  obtain r u where ru: "resolve_where ?P reason (\<lambda>_. True) [0..<length (wt_slots t)] [] t = (r, u)" by fastforce
  note eff = resolve_all_effect [OF ru ok, folded batch_fails_def]
  have u: "wait_ok u" "wait_advances (wt_slots t) (wt_slots u)" "waits_shrink t u"
    using eff removed_shrink unfolding removed_where_def by blast+
  have "res = map_sum (\<lambda>e. e) length r" "t' = u" using op False ru by (auto simp: discard_owner_def eq)
  then show ?thesis using eff u False by (cases r) auto
qed

lemma cancel_owner_effect:
  assumes ok: "wait_ok t" and op: "cancel_owner reserve owner reason t = (res, t')"
  shows "wait_ok t' \<and> wait_advances (wt_slots t) (wt_slots t') \<and>
    (if reason \<noteq> WakeCancelled \<and> reason \<noteq> WakeRevoked then res = Inl UnexpectedWake \<and> t' = t
     else (\<forall>k s. wait_view t k = Some s \<longrightarrow> \<not> owned_by owner s) \<and> res = Inr [] \<and> t' = t \<or>
       (\<exists>k s. wait_view t k = Some s \<and> owned_by owner s \<and>
         (res = Inl WaitAccountingOverflow \<and> \<not> reason_room 1 reason (wt_stats t) \<and> t' = t \<or>
          wait_view t' = (wait_view t)(k := None) \<and>
            res = (if reserve 0 then Inr [completion_of reason k s] else Inl WaitMetadataExhausted))))"
proof (cases "reason \<noteq> WakeCancelled \<and> reason \<noteq> WakeRevoked")
  case True
  then show ?thesis using op ok by (simp add: cancel_owner_def)
next
  case reason: False
  have eq: "(\<lambda>spec. wc_task (sp_owner spec) = owner) = owned_by owner" by (rule ext) (simp add: owned_by_def)
  show ?thesis
  proof (cases "position (slot_has (owned_by owner)) (wt_slots t)")
    case None
    then have "\<not> list_ex (slot_has (owned_by owner)) (wt_slots t)" by (simp only: position_None_iff list_ex_iff) blast
    moreover have "res = Inr []" "t' = t" using op reason None by (simp_all add: cancel_owner_def eq)
    ultimately show ?thesis using reason ok by (auto simp: list_ex_view)
  next
    case (Some i)
    note pos = position_SomeD [OF Some]
    then obtain s where s: "slot_spec (wt_slots t ! i) = Some s" "owned_by owner s" by (auto simp: slot_has_def split: option.splits)
    have i: "i < length (wt_slots t)" using pos by simp
    obtain r where r: "wsl_record (wt_slots t ! i) = Some r" "wrec_spec r = s" using slot_recordE [OF s(1)] .
    let ?k = "slot_key i (wt_slots t ! i)"
    have view: "wait_view t ?k = Some s" using slot_view(3) [OF ok i r(1)] r(2) by simp
    show ?thesis
    proof (cases "resolve_index i reason t")
      case (Inl e)
      then have "res = Inl e" "t' = t" using op reason Some by (simp_all add: cancel_owner_def eq)
      then show ?thesis using resolve_index_outcome [OF ok i r(1), of reason e] Inl reason ok view s(2) by auto
    next
      case (Inr p)
      obtain c u where p: "p = (c, u)" by (cases p)
      note rem = resolve_index_effect [OF ok i r(1) Inr [unfolded p]]
      have "t' = u" "res = (if reserve 0 then Inr [c] else Inl WaitMetadataExhausted)"
        using op reason Some Inr p by (auto simp: cancel_owner_def eq split: if_splits)
      then show ?thesis using rem(1,2,3,5) r(2) reason view s(2) by auto
    qed
  qed
qed

section \<open>Runs\<close>

inductive wait_step :: "wait_table \<Rightarrow> wait_table \<Rightarrow> bool" where
  registers: "wait_register reserved spec observation now t = (res, t') \<Longrightarrow> wait_step t t'"
| wakes: "wait_wake key reason t = (res, t') \<Longrightarrow> wait_step t t'"
| wakes_resource: "wake_resource reserve resource reason t = (res, t') \<Longrightarrow> wait_step t t'"
| observes: "observe_operation operation resource' observation now t = (res, t') \<Longrightarrow> wait_step t t'"
| expires: "wait_expire reserve now t = (res, t') \<Longrightarrow> wait_step t t'"
| cancels: "cancel_operation operation reason t = (res, t') \<Longrightarrow> wait_step t t'"
| discards: "discard_owner owner reason t = (res, t') \<Longrightarrow> wait_step t t'"
| cancels_owner: "cancel_owner reserve owner reason t = (res, t') \<Longrightarrow> wait_step t t'"

lemma wait_step_ok: "wait_step t t' \<Longrightarrow> wait_ok t \<Longrightarrow> wait_ok t' \<and> wait_advances (wt_slots t) (wt_slots t')"
proof (induction rule: wait_step.induct)
  case (registers reserved spec observation now t res t')
  then show ?case using register_effect by blast
next
  case (wakes key reason t res t')
  note eff = wake_effect [OF wakes.prems wakes.hyps]
  show ?case by (intro conjI conjunct1 [OF eff] conjunct1 [OF conjunct2 [OF eff]])
next
  case (wakes_resource reserve resource reason t res t')
  then show ?case using resource_effect by blast
next
  case (observes operation resource' observation now t res t')
  then show ?case using observe_effect by blast
next
  case (expires reserve now t res t')
  then show ?case using expire_effect unfolding removed_where_def by blast
next
  case (cancels operation reason t res t')
  then show ?case using cancel_operation_effect by blast
next
  case (discards owner reason t res t')
  then show ?case using discard_effect by blast
next
  case (cancels_owner reserve owner reason t res t')
  then show ?case using cancel_owner_effect by blast
qed

interpretation waits: generation_table wt_slots wsl_generation "\<lambda>x. wsl_record x \<noteq> None" wait_floor wait_ok wait_step
proof
  fix t t' assume "wait_ok t" "wait_step t t'"
  then show "wait_ok t'" "wait_advances (wt_slots t) (wt_slots t')" using wait_step_ok by blast+
next
  fix t x assume "wait_ok t" "x \<in> set (wt_slots t)" "wsl_record x \<noteq> None"
  then show "wait_floor x \<le> wsl_generation x" using slot_view(2) by (fastforce simp: in_set_conv_nth wait_floor_def)
qed

lemma names_live_view:
  "names_live wsl_generation (\<lambda>x. wsl_record x \<noteq> None) (wt_slots t) (wk_slot k) (wk_generation k) \<longleftrightarrow> wait_view t k \<noteq> None"
  by (auto simp: names_live_def wait_view_def slot_spec_def)

lemma wait_step_shrinks:
  "wait_step t t' \<Longrightarrow> wait_ok t \<Longrightarrow>
   waits_shrink t t' \<or> (\<exists>key spec. wait_view t key = None \<and> wait_view t' = (wait_view t)(key \<mapsto> spec))"
proof (induction rule: wait_step.induct)
  case (registers reserved spec observation now t res t')
  from conjunct1 [OF register_effect [OF registers.prems registers.hyps]] show ?case
  proof cases
    case immediate
    then have "wait_view t' k = wait_view t k" for k by (simp add: wait_view_def)
    then show ?thesis by (simp add: waits_shrink_def)
  next
    case (published key)
    then show ?thesis by blast
  qed simp_all
next
  case (wakes key reason t res t')
  note eff = conjunct2 [OF conjunct2 [OF wake_effect [OF wakes.prems wakes.hyps]]]
  have "waits_shrink t t'"
  proof (cases "wait_view t key")
    case None
    then show ?thesis using eff by (simp add: waits_shrink_def)
  next
    case (Some s)
    then show ?thesis using eff completes_shrink by (cases "spec_accepts s reason") simp_all
  qed
  then show ?case ..
next
  case (wakes_resource reserve resource reason t res t')
  show ?case using conjunct1 [OF conjunct2 [OF conjunct2 [OF resource_effect [OF wakes_resource.prems wakes_resource.hyps]]]] ..
next
  case (observes operation resource' observation now t res t')
  have "t' = t \<or> (\<exists>k s reason res'. completes t k s reason res' t')"
    using conjunct2 [OF conjunct2 [OF observe_effect [OF observes.prems observes.hyps]]]
    by (elim disjE conjE exE) (auto split: if_splits option.splits)
  then show ?case using completes_shrink by auto
next
  case (expires reserve now t res t')
  show ?case using removed_shrink [OF conjunct1 [OF expire_effect [OF expires.prems expires.hyps]]] ..
next
  case (cancels operation reason t res t')
  have "t' = t \<or> (\<exists>k s reason res'. completes t k s reason res' t')"
    using conjunct2 [OF conjunct2 [OF cancel_operation_effect [OF cancels.prems cancels.hyps]]] by (auto split: if_splits)
  then show ?case using completes_shrink by auto
next
  case (discards owner reason t res t')
  show ?case using conjunct1 [OF conjunct2 [OF conjunct2 [OF discard_effect [OF discards.prems discards.hyps]]]] ..
next
  case (cancels_owner reserve owner reason t res t')
  have "t' = t \<or> (\<exists>k. wait_view t' = (wait_view t)(k := None))"
    using conjunct2 [OF conjunct2 [OF cancel_owner_effect [OF cancels_owner.prems cancels_owner.hyps]]] by (auto split: if_splits)
  then have "waits_shrink t t'" by (auto simp: waits_shrink_def split: if_splits)
  then show ?case ..
qed

lemma wait_step_view:
  assumes "wait_step t t'" "wait_ok t" "wait_view t k = Some s"
  shows "wait_view t' k = Some s \<or> wait_view t' k = None"
  using wait_step_shrinks [OF assms(1,2)]
proof
  assume "waits_shrink t t'"
  then have "wait_view t' k = wait_view t k \<or> wait_view t' k = None" by (simp add: waits_shrink_def)
  then show ?thesis using assms(3) by simp
next
  assume "\<exists>key spec. wait_view t key = None \<and> wait_view t' = (wait_view t)(key \<mapsto> spec)"
  then show ?thesis using assms(3) by (auto split: if_splits)
qed

lemma wait_run_view:
  "wait_step\<^sup>*\<^sup>* t u \<Longrightarrow> wait_ok t \<Longrightarrow> wait_view t k = Some s \<Longrightarrow> wait_view u k = Some s \<or> wait_view u k = None"
proof (induction rule: rtranclp_induct)
  case base
  then show ?case by blast
next
  case (step u v)
  have ok: "wait_ok u" by (rule waits.inv_steps [OF step.hyps(1) step.prems(1)])
  show ?case
  proof (cases "wait_view u k")
    case None
    then have "\<not> names_live wsl_generation (\<lambda>x. wsl_record x \<noteq> None) (wt_slots v) (wk_slot k) (wk_generation k)"
      using waits.no_resurrection [OF step.prems(1) _ step.hyps(1) _ r_into_rtranclp [of wait_step, OF step.hyps(2)], of "wk_slot k" "wk_generation k"]
        step.prems(2) unfolding names_live_view by blast
    then show ?thesis unfolding names_live_view by simp
  next
    case (Some s')
    then have "wait_view u k = Some s" using step.IH step.prems by simp
    then show ?thesis by (rule wait_step_view [OF step.hyps(2) ok])
  qed
qed

lemma completed_stays:
  assumes "wait_ok t" "wait_view t k \<noteq> None" "wait_step t t'" "wait_view t' k = None" "wait_step\<^sup>*\<^sup>* t' u"
  shows "wait_view u k = None"
proof -
  have "\<not> names_live wsl_generation (\<lambda>x. wsl_record x \<noteq> None) (wt_slots u) (wk_slot k) (wk_generation k)"
    by (rule waits.no_resurrection [where s = t and t = t'])
      (use assms in \<open>simp_all only: names_live_view, auto\<close>)
  then show ?thesis unfolding names_live_view by simp
qed

lemma wait_ok_new: "wait_table_new reserved capacity = Inr t \<Longrightarrow> wait_ok t \<and> wait_view t = Map.empty"
  by (auto simp: wait_table_new_def wait_ok_def wait_slots_ok_def wait_view_def view_compatible_def split: if_splits)

section \<open>Properties\<close>

definition sample_wait :: wait_spec where
  "sample_wait = \<lparr>sp_owner = caller_task 7, sp_operation = \<lparr>op_slot = 0, op_generation = 1\<rparr>, sp_resource = None,
     sp_interests = INTEREST_DEADLINE, sp_deadline = Some 10\<rparr>"

definition sample_waits :: wait_table where
  "sample_waits = \<lparr>wt_slots = [], wt_capacity = 2,
     wt_stats = \<lparr>wts_live = 0, wts_high_water = 0, wts_wakes = 0, wts_immediate_wakes = 0, wts_resource_wakes = 0,
       wts_timeouts = 0, wts_cancellations = 0, wts_closes = 0, wts_revocations = 0, wts_stale_wakes = 0\<rparr>\<rparr>"

lemma sample_waits_ok: "wait_ok sample_waits"
  using wait_ok_new [of True 2 sample_waits] by (simp add: wait_table_new_def sample_waits_def MAX_WAIT_REGISTRATIONS_def)

abbreviation "sample_key \<equiv> \<lparr>wk_slot = 0, wk_generation = 1\<rparr> :: wait_key"

lemma sample_published: "fst (wait_register True sample_wait ObservePending 5 sample_waits) = Inr (RegistrationBlocked sample_key)"
  by (simp add: wait_register_def sample_waits_def sample_wait_def observed_reason_def claim_slot_def publish_at_def
      try_into_def checked_add_def Let_def)

lemma observed_reason_iff:
  "observed_reason spec observation now = Some reason \<longleftrightarrow>
     (observation, reason) \<in> {(ObserveResourceReady, WakeResourceReady), (ObserveResourceClosed, WakeClosed),
       (ObserveCancelled, WakeCancelled), (ObserveOwnerRevoked, WakeRevoked)} \<or>
     observation = ObservePending \<and> reason = WakeDeadline \<and> (\<exists>deadline\<le>now. sp_deadline spec = Some deadline)"
  by (cases observation) (auto simp: observed_reason_def split: option.splits if_splits)

text \<open>C14. Registration observes before it publishes. A wait that conflicts with a published one, by owner or by
  operation, is refused. Otherwise a condition that already holds completes the wait at once if the wait accepts it and
  is refused if not, and in both cases nothing is published; only when nothing is observable is the wait published,
  under a key that was not live, leaving every other wait as it was, and only a table without a usable slot or a failed
  reservation refuses it. So no wakeup that happened before registration is lost.\<close>
theorem wait_registration_exact:
  assumes "wait_ok t" "wait_register reserved spec observation now t = (res, t')"
  shows "register_outcome reserved spec (observed_reason spec observation now) t res t' \<and> wait_ok t' \<and>
    (\<forall>reason. observed_reason spec observation now = Some reason \<longleftrightarrow>
      (observation, reason) \<in> {(ObserveResourceReady, WakeResourceReady), (ObserveResourceClosed, WakeClosed),
        (ObserveCancelled, WakeCancelled), (ObserveOwnerRevoked, WakeRevoked)} \<or>
      observation = ObservePending \<and> reason = WakeDeadline \<and> (\<exists>deadline\<le>now. sp_deadline spec = Some deadline))"
  using register_effect [OF assms] observed_reason_iff by blast

theorem wait_registration_exact_witness:
  "\<exists>t'. wait_ok t' \<and> wait_view t' = (wait_view sample_waits)(sample_key \<mapsto> sample_wait)"
proof -
  obtain t' where t': "wait_register True sample_wait ObservePending 5 sample_waits = (Inr (RegistrationBlocked sample_key), t')"
    using sample_published by (metis prod.collapse)
  note w = wait_registration_exact [OF sample_waits_ok t']
  from conjunct1 [OF w] have "wait_view t' = (wait_view sample_waits)(sample_key \<mapsto> sample_wait)" by cases simp_all
  with w show ?thesis by blast
qed

definition sample_live :: wait_table where
  "sample_live = snd (wait_register True sample_wait ObservePending 5 sample_waits)"

lemma sample_live_facts:
  shows "wait_ok sample_live" "wait_view sample_live = [sample_key \<mapsto> sample_wait]"
    "reason_room 1 WakeDeadline (wt_stats sample_live)" "reason_room (length (wt_slots sample_live)) WakeDeadline (wt_stats sample_live)"
proof -
  have op: "wait_register True sample_wait ObservePending 5 sample_waits = (Inr (RegistrationBlocked sample_key), sample_live)"
    using sample_published by (simp add: sample_live_def prod_eq_iff)
  note eff = register_effect [OF sample_waits_ok op]
  show "wait_ok sample_live" using eff by blast
  have empty: "wait_view sample_waits = Map.empty" by (rule ext) (simp add: wait_view_def sample_waits_def)
  from conjunct1 [OF eff] show "wait_view sample_live = [sample_key \<mapsto> sample_wait]" by cases (simp add: empty)
  have live: "wt_slots sample_live = [\<lparr>wsl_generation = 1, wsl_retired = False, wsl_record = Some \<lparr>wrec_key = sample_key, wrec_spec = sample_wait\<rparr>\<rparr>]"
    "wts_wakes (wt_stats sample_live) = 0" "wts_timeouts (wt_stats sample_live) = 0"
    by (simp_all add: sample_live_def wait_register_def sample_waits_def sample_wait_def observed_reason_def claim_slot_def publish_at_def
      try_into_def checked_add_def Let_def)
  then show "reason_room 1 WakeDeadline (wt_stats sample_live)" "reason_room (length (wt_slots sample_live)) WakeDeadline (wt_stats sample_live)"
    by (simp_all add: reason_room_def reason_counter_def)
qed

lemma completes_ends: "completes t key s reason (Inr c) t' \<Longrightarrow> wait_view t' key = None"
  by (auto elim: completes.cases)

text \<open>C13. A wake by key completes exactly the published wait of that key, with its owner and operation, provided the wait
  accepts the reason; an unaccepted reason changes nothing and a key that is not live is counted as stale. A wait that was
  completed stays gone over every later sequence of operations, so no wait completes twice and a reused slot never
  answers an old key.\<close>
theorem wait_completes_once:
  assumes "wait_ok t" "wait_wake key reason t = (res, t')"
  shows "wait_ok t' \<and>
    (case wait_view t key of
       None \<Rightarrow> wait_view t' = wait_view t \<and>
         (res = Inl StaleWait \<or> res = Inl WaitAccountingOverflow \<and> 2 ^ 64 \<le> wts_stale_wakes (wt_stats t) + 1)
     | Some s \<Rightarrow> if spec_accepts s reason then completes t key s reason res t' else res = Inl UnexpectedWake \<and> t' = t) \<and>
    (\<forall>c u. res = Inr c \<longrightarrow> wait_step\<^sup>*\<^sup>* t' u \<longrightarrow> wait_view u key = None)"
proof -
  note eff = wake_effect [OF assms]
  have "wait_view u key = None" if c: "res = Inr c" and run: "wait_step\<^sup>*\<^sup>* t' u" for c u
  proof -
    have "wait_view t key \<noteq> None \<and> wait_view t' key = None"
      using eff c completes_ends by (cases "wait_view t key") (auto split: if_splits)
    then show ?thesis using completed_stays [OF assms(1) _ wakes [OF assms(2)] _ run] by blast
  qed
  then show ?thesis using eff by blast
qed

theorem wait_completes_once_witness:
  "\<exists>t'. wait_wake sample_key WakeDeadline sample_live = (Inr (completion_of WakeDeadline sample_key sample_wait), t') \<and>
     wait_view t' = Map.empty \<and> (\<forall>u. wait_step\<^sup>*\<^sup>* t' u \<longrightarrow> wait_view u sample_key = None)"
proof -
  obtain res t' where op: "wait_wake sample_key WakeDeadline sample_live = (res, t')" by fastforce
  note w = wait_completes_once [OF sample_live_facts(1) op]
  have "spec_accepts sample_wait WakeDeadline" by (simp add: spec_accepts_def sample_wait_def interest_contains_def)
  then have "completes sample_live sample_key sample_wait WakeDeadline res t'"
    using conjunct1 [OF conjunct2 [OF w]] sample_live_facts(2) by simp
  then have "res = Inr (completion_of WakeDeadline sample_key sample_wait) \<and> wait_view t' = (wait_view sample_live)(sample_key := None)"
    by cases (use sample_live_facts(3) in blast)+
  then show ?thesis using op conjunct2 [OF conjunct2 [OF w]] sample_live_facts(2) by auto
qed

text \<open>C38. Expiry, a resource event and the discarding of an owner complete exactly the waits they name and no other.
  Expiry completes those with deadline interest whose deadline has passed; a resource event those that accept it for that
  identity and generation; discarding an owner all waits of its task. Expiry and the resource event report each completion
  once, in slot order, and discarding reports how many there were; the rest stays. A failure is a full counter or a failed
  reservation of the report.\<close>
theorem wait_batches_exact:
  assumes "wait_ok t"
  shows "(\<forall>reserve now res t'. wait_expire reserve now t = (res, t') \<longrightarrow>
      removed_where (deadline_passed now) t t' \<and>
      (case res of Inr out \<Rightarrow> batch_outcome (deadline_passed now) WakeDeadline t out t' | Inl e \<Rightarrow> batch_fails reserve WakeDeadline t e)) \<and>
    (\<forall>reserve resource reason res t'. reason \<in> {WakeResourceReady, WakeClosed} \<longrightarrow> wake_resource reserve resource reason t = (res, t') \<longrightarrow>
      (case res of
         Inr out \<Rightarrow> batch_outcome (resource_accepted resource reason) reason t out t'
       | Inl e \<Rightarrow> batch_fails reserve reason t e \<or> e = WaitAccountingOverflow \<and> wait_view t' = wait_view t)) \<and>
    (\<forall>owner reason res t'. reason \<in> {WakeCancelled, WakeRevoked} \<longrightarrow> discard_owner owner reason t = (res, t') \<longrightarrow>
      (case res of
         Inr n \<Rightarrow> \<exists>out. n = length out \<and> batch_outcome (owned_by owner) reason t out t'
       | Inl e \<Rightarrow> batch_fails (\<lambda>_. True) reason t e))"
proof (intro conjI allI impI)
  fix reserve now res t' assume "wait_expire reserve now t = (res, t')"
  note eff = expire_effect [OF assms this]
  show "removed_where (deadline_passed now) t t'"
    "case res of Inr out \<Rightarrow> batch_outcome (deadline_passed now) WakeDeadline t out t' | Inl e \<Rightarrow> batch_fails reserve WakeDeadline t e"
    by (rule conjunct1 [OF eff] conjunct2 [OF eff])+
next
  fix reserve resource reason res t'
  assume r: "reason \<in> {WakeResourceReady, WakeClosed}" and op: "wake_resource reserve resource reason t = (res, t')"
  from r have "\<not> (reason \<noteq> WakeResourceReady \<and> reason \<noteq> WakeClosed)" by auto
  note eff = resource_effect [OF assms op, unfolded if_not_P [OF this]]
  show "case res of
         Inr out \<Rightarrow> batch_outcome (resource_accepted resource reason) reason t out t'
       | Inl e \<Rightarrow> batch_fails reserve reason t e \<or> e = WaitAccountingOverflow \<and> wait_view t' = wait_view t"
    by (rule conjunct2 [OF conjunct2 [OF conjunct2 [OF eff]]])
next
  fix owner reason res t'
  assume r: "reason \<in> {WakeCancelled, WakeRevoked}" and op: "discard_owner owner reason t = (res, t')"
  from r have "\<not> (reason \<noteq> WakeCancelled \<and> reason \<noteq> WakeRevoked)" by auto
  note eff = discard_effect [OF assms op, unfolded if_not_P [OF this]]
  show "case res of
         Inr n \<Rightarrow> \<exists>out. n = length out \<and> batch_outcome (owned_by owner) reason t out t'
       | Inl e \<Rightarrow> batch_fails (\<lambda>_. True) reason t e"
    by (rule conjunct2 [OF conjunct2 [OF conjunct2 [OF eff]]])
qed

theorem wait_batches_exact_witness:
  "\<exists>out t'. wait_expire (\<lambda>_. True) 10 sample_live = (Inr out, t') \<and>
     out = [completion_of WakeDeadline sample_key sample_wait] \<and> wait_view t' = Map.empty"
proof -
  obtain res t' where op: "wait_expire (\<lambda>_. True) 10 sample_live = (res, t')" by fastforce
  from conjunct1 [OF wait_batches_exact [OF sample_live_facts(1)]] op
  have w: "case res of Inr out \<Rightarrow> batch_outcome (deadline_passed 10) WakeDeadline sample_live out t'
      | Inl e \<Rightarrow> batch_fails (\<lambda>_. True) WakeDeadline sample_live e" by blast
  have P: "deadline_passed 10 sample_wait" by (simp add: deadline_passed_def sample_wait_def interest_contains_def)
  show ?thesis
  proof (cases res)
    case (Inl e)
    then show ?thesis using w sample_live_facts(4) by (simp add: batch_fails_def)
  next
    case (Inr out)
    then have b: "batch_outcome (deadline_passed 10) WakeDeadline sample_live out t'" using w by simp
    then have set: "set out = {completion_of WakeDeadline sample_key sample_wait}"
      using P unfolding batch_outcome_def sample_live_facts(2) by (auto split: if_splits)
    then obtain c rest where out: "out = c # rest" by (cases out) auto
    moreover have "rest = []" using b set out unfolding batch_outcome_def by (cases rest) auto
    ultimately have "out = [completion_of WakeDeadline sample_key sample_wait]" using set by simp
    moreover have "wait_view t' = Map.empty" using b P unfolding batch_outcome_def sample_live_facts(2) by (auto split: option.splits)
    ultimately show ?thesis using op Inr by blast
  qed
qed

end
