(* ===== verification/Deferred_Call_Theorems.thy ===== *)
theory Deferred_Call_Theorems
  imports Deferred_Call_Runs Wait_Table_Theorems
begin

text \<open>
  The properties of copied pending calls: exact admission, requests that stay as they were
  copied and leave no byte behind, exact release, and the path from a published wait through
  its completion to the resumed call.
\<close>

section \<open>Admission\<close>

inductive begin_outcome :: "bool \<Rightarrow> pending_caller \<Rightarrow> nat \<Rightarrow> u64 \<Rightarrow> u16 \<Rightarrow> byte list \<Rightarrow> nat \<Rightarrow> deferred_table \<Rightarrow>
    (deferred_error, operation_id) result \<Rightarrow> deferred_table \<Rightarrow> bool"
  for reserved owner request_id handle opcode req reply_capacity t where
  too_large: "MAX_PENDING_REQUEST_BYTES < length req \<or> MAX_PENDING_REQUEST_BYTES < reply_capacity \<Longrightarrow>
    begin_outcome reserved owner request_id handle opcode req reply_capacity t (Inl MessageTooLarge) t"
| not_monotonic: "request_id \<le> dt_last_request_id t \<Longrightarrow>
    begin_outcome reserved owner request_id handle opcode req reply_capacity t (Inl RequestIdentityNotMonotonic) t"
| owner_pending: "deferred_view t k = Some (c, r) \<Longrightarrow> caller_conflicts (dc_owner c) owner \<Longrightarrow>
    begin_outcome reserved owner request_id handle opcode req reply_capacity t (Inl OwnerAlreadyPending) t"
| over_budget: "dt_retained_byte_capacity t < ds_retained_bytes (dt_stats t) + length req \<Longrightarrow>
    e = (if ds_retained_bytes (dt_stats t) + length req < 2 ^ 32 then ByteCapacityExhausted else DeferredAccountingOverflow) \<Longrightarrow>
    begin_outcome reserved owner request_id handle opcode req reply_capacity t (Inl e) t"
| no_slot: "\<not> deferred_room t \<Longrightarrow>
    begin_outcome reserved owner request_id handle opcode req reply_capacity t (Inl DeferredCapacityExhausted) t"
| no_memory: "\<not> reserved \<Longrightarrow>
    begin_outcome reserved owner request_id handle opcode req reply_capacity t (Inl DeferredMetadataExhausted) t"
| retained: "length req \<le> MAX_PENDING_REQUEST_BYTES \<Longrightarrow> reply_capacity \<le> MAX_PENDING_REQUEST_BYTES \<Longrightarrow> dt_last_request_id t < request_id \<Longrightarrow>
    \<forall>k c r. deferred_view t k = Some (c, r) \<longrightarrow> \<not> caller_conflicts (dc_owner c) owner \<Longrightarrow>
    ds_retained_bytes (dt_stats t) + length req \<le> dt_retained_byte_capacity t \<Longrightarrow> deferred_view t oid = None \<Longrightarrow>
    deferred_view t' = (deferred_view t)(oid \<mapsto> (new_call oid owner request_id handle opcode req reply_capacity, req)) \<Longrightarrow>
    dt_last_request_id t' = request_id \<Longrightarrow>
    begin_outcome reserved owner request_id handle opcode req reply_capacity t (Inr oid) t'"

lemma begin_effect:
  assumes ok: "deferred_ok t" and op: "deferred_begin_for reserved owner request_id handle opcode req reply_capacity t = (res, t')"
  shows "begin_outcome reserved owner request_id handle opcode req reply_capacity t res t' \<and> deferred_ok t' \<and>
    deferred_advances (dt_slots t) (dt_slots t')"
proof -
  consider "MAX_PENDING_REQUEST_BYTES < length req \<or> MAX_PENDING_REQUEST_BYTES < reply_capacity"
    | "\<not> (MAX_PENDING_REQUEST_BYTES < length req \<or> MAX_PENDING_REQUEST_BYTES < reply_capacity)" "request_id = 0 \<or> request_id \<le> dt_last_request_id t"
    | "\<not> (MAX_PENDING_REQUEST_BYTES < length req \<or> MAX_PENDING_REQUEST_BYTES < reply_capacity)" "\<not> (request_id = 0 \<or> request_id \<le> dt_last_request_id t)"
      "\<exists>k c r. deferred_view t k = Some (c, r) \<and> caller_conflicts (dc_owner c) owner"
    | "\<not> (MAX_PENDING_REQUEST_BYTES < length req \<or> MAX_PENDING_REQUEST_BYTES < reply_capacity)" "\<not> (request_id = 0 \<or> request_id \<le> dt_last_request_id t)"
      "\<not> (\<exists>k c r. deferred_view t k = Some (c, r) \<and> caller_conflicts (dc_owner c) owner)" by blast
  then show ?thesis
  proof cases
    case 1
    then have "res = Inl MessageTooLarge" "t' = t" using op by (simp_all add: deferred_begin_for_def)
    then show ?thesis using too_large [OF 1] ok by simp
  next
    case 2
    then have "res = Inl RequestIdentityNotMonotonic" "t' = t" using op by (auto simp: deferred_begin_for_def)
    moreover have "request_id \<le> dt_last_request_id t" using 2(2) by auto
    ultimately show ?thesis using not_monotonic ok by simp
  next
    case 3
    then have "res = Inl OwnerAlreadyPending" "t' = t" using op unfolding deferred_begin_for_def deferred_has_view by (auto split: if_splits)
    then show ?thesis using 3(3) owner_pending ok by auto
  next
    case 4
    let ?sum = "ds_retained_bytes (dt_stats t) + length req"
    have "try_into 32 (length req) = Some (length req)" using 4(1) by (simp add: try_into_def MAX_PENDING_REQUEST_BYTES_def)
    then have core: "(case ok_or DeferredAccountingOverflow (checked_add 32 (ds_retained_bytes (dt_stats t)) (length req)) of
        Inl e \<Rightarrow> (Inl e, t)
      | Inr retained_bytes \<Rightarrow>
          if retained_bytes > dt_retained_byte_capacity t then (Inl ByteCapacityExhausted, t)
          else (case deferred_claim reserved t of
            Inl e \<Rightarrow> (Inl e, t)
          | Inr (index, t') \<Rightarrow>
              deferred_retain owner request_id handle opcode req reply_capacity retained_bytes index t')) = (res, t')"
      using op unfolding deferred_begin_for_def deferred_has_view if_not_P [OF 4(1)] if_not_P [OF 4(2)] if_not_P [OF 4(3)] by simp
    show ?thesis
    proof (cases "?sum \<le> dt_retained_byte_capacity t")
      case False
      then have "res = Inl (if ?sum < 2 ^ 32 then ByteCapacityExhausted else DeferredAccountingOverflow)" "t' = t"
        using core by (auto simp: checked_add_def split: if_splits)
      then show ?thesis using over_budget [OF _ refl] False ok by simp
    next
      case True
      then have "checked_add 32 (ds_retained_bytes (dt_stats t)) (length req) = Some ?sum"
        using deferred_okD(8) [OF ok] by (simp add: checked_add_def)
      then have core': "(case deferred_claim reserved t of Inl e \<Rightarrow> (Inl e, t)
          | Inr (index, t') \<Rightarrow> deferred_retain owner request_id handle opcode req reply_capacity ?sum index t') = (res, t')"
        using core True by simp
      show ?thesis
      proof (cases "deferred_claim reserved t")
        case (Inl e)
        then have "res = Inl e" "t' = t" using core' by simp_all
        then show ?thesis using deferred_claim_refused [OF ok Inl] ok no_slot no_memory by auto
      next
        case (Inr p)
        obtain i u where p: "p = (i, u)" by (cases p)
        note claim = deferred_claim_effect [OF ok Inr [unfolded p]]
        have len: "length req \<le> MAX_PENDING_REQUEST_BYTES" "reply_capacity \<le> MAX_PENDING_REQUEST_BYTES" using 4(1) by auto
        have bytes: "ds_retained_bytes (dt_stats u) + length req \<le> dt_retained_byte_capacity u" using True claim(8,9) by simp
        have new: "\<And>k c r. deferred_view u k = Some (c, r) \<Longrightarrow> \<not> caller_conflicts (dc_owner c) owner" using 4(3) claim(5) by auto
        let ?oid = "deferred_id i (dt_slots u ! i)"
        obtain v where v: "deferred_retain owner request_id handle opcode req reply_capacity (ds_retained_bytes (dt_stats u) + length req) i u = (Inr ?oid, v)"
          "deferred_ok v" "deferred_view u ?oid = None"
          "deferred_view v = (deferred_view u)(?oid \<mapsto> (new_call ?oid owner request_id handle opcode req reply_capacity, req))"
          "deferred_advances (dt_slots u) (dt_slots v)" "dt_last_request_id v = request_id"
          by (rule retain_effect [OF claim(1-4) len bytes new])
        have r: "res = Inr ?oid" "t' = v" using core' Inr p v(1) claim(8) by simp_all
        have "dt_last_request_id t < request_id" using 4(2) by auto
        then have "begin_outcome reserved owner request_id handle opcode req reply_capacity t (Inr ?oid) v"
          using len 4(3) True v(3,4,6) claim(5) by (intro retained) auto
        then show ?thesis unfolding r using v(2) table_advances_trans [OF claim(6) v(5)] by blast
      qed
    qed
  qed
qed

section \<open>Runs\<close>

inductive deferred_step :: "deferred_table \<Rightarrow> deferred_table \<Rightarrow> bool" where
  begins: "deferred_begin_for reserved owner request_id handle opcode req reply_capacity t = (res, t') \<Longrightarrow> deferred_step t t'"
| binds: "bind_wait operation wait t = Inr t' \<Longrightarrow> deferred_step t t'"
| marks: "mark_ready operation reason t = Inr t' \<Longrightarrow> deferred_step t t'"
| resolves: "deferred_resolve completion t = Inr t' \<Longrightarrow> deferred_step t t'"
| finishes: "deferred_finish operation t = Inr (c, t') \<Longrightarrow> deferred_step t t'"
| tears_down: "teardown_owner owner reason t = (res, t') \<Longrightarrow> deferred_step t t'"

text \<open>The moves of one call: bound or ready once, resolved once after it was bound.\<close>

definition call_moves :: "deferred_call \<Rightarrow> deferred_call \<Rightarrow> bool" where
  "call_moves c c' \<longleftrightarrow> c' = c \<or> (\<exists>st. c' = c\<lparr>dc_state := st\<rparr> \<and>
     (dc_state c = DeferredNew \<and> st \<noteq> DeferredNew \<or> (\<exists>k reason. dc_state c = DeferredWaiting k \<and> st = DeferredReady reason)))"

definition deferred_effect :: "deferred_table \<Rightarrow> deferred_table \<Rightarrow> bool" where
  "deferred_effect t t' \<longleftrightarrow> deferred_ok t' \<and> deferred_advances (dt_slots t) (dt_slots t') \<and>
     (\<forall>k c r. deferred_view t k = Some (c, r) \<longrightarrow>
        deferred_view t' k = None \<or> (\<exists>c'. deferred_view t' k = Some (c', r) \<and> call_moves c c'))"

lemma bind_iff:
  assumes ok: "deferred_ok t"
  shows "bind_wait k w t = (case deferred_view t k of None \<Rightarrow> Inl StaleOperation
    | Some (c, r) \<Rightarrow> if dc_state c = DeferredNew then Inr (set_state k (DeferredWaiting w) t) else Inl InvalidState)"
  "mark_ready k reason t = (case deferred_view t k of None \<Rightarrow> Inl StaleOperation
    | Some (c, r) \<Rightarrow> if dc_state c = DeferredNew then Inr (set_state k (DeferredReady reason) t) else Inl InvalidState)"
  by (auto simp: bind_wait_def mark_ready_def deferred_record_view [OF ok] split: option.splits)

lemma resolve_iff:
  assumes ok: "deferred_ok t"
  shows "deferred_resolve completion t = (case deferred_view t (cn_operation completion) of None \<Rightarrow> Inl StaleOperation
    | Some (c, r) \<Rightarrow> if dc_owner c = cn_owner completion \<and> dc_state c = DeferredWaiting (cn_key completion)
        then Inr (set_state (cn_operation completion) (DeferredReady (cn_reason completion)) t) else Inl MismatchedWake)"
  by (auto simp: deferred_resolve_def deferred_record_view [OF ok] split: option.splits)

lemma set_state_step:
  assumes ok: "deferred_ok t" and view: "deferred_view t k = Some (c, r)" and moves: "call_moves c (c\<lparr>dc_state := st\<rparr>)"
  shows "deferred_effect t (set_state k st t)"
  using set_state_effect [OF ok view, of st] view moves unfolding deferred_effect_def by (auto simp: call_moves_def)

lemma deferred_step_effect: "deferred_step t t' \<Longrightarrow> deferred_ok t \<Longrightarrow> deferred_effect t t'"
proof (induction rule: deferred_step.induct)
  case (begins reserved owner request_id handle opcode req reply_capacity t res t')
  note eff = begin_effect [OF begins.prems begins.hyps]
  from conjunct1 [OF eff] have "deferred_view t' k = deferred_view t k" if "deferred_view t k = Some (c, r)" for k c r
    by cases (use that in auto)
  then show ?case using eff unfolding deferred_effect_def call_moves_def by auto
next
  case (binds operation wait t t')
  then obtain c r where c: "deferred_view t operation = Some (c, r)" "dc_state c = DeferredNew" "t' = set_state operation (DeferredWaiting wait) t"
    by (auto simp: bind_iff split: option.splits if_splits)
  then show ?case using set_state_step [OF binds.prems c(1)] by (auto simp: call_moves_def)
next
  case (marks operation reason t t')
  then obtain c r where c: "deferred_view t operation = Some (c, r)" "dc_state c = DeferredNew" "t' = set_state operation (DeferredReady reason) t"
    by (auto simp: bind_iff split: option.splits if_splits)
  then show ?case using set_state_step [OF marks.prems c(1)] by (auto simp: call_moves_def)
next
  case (resolves completion t t')
  then obtain c r where c: "deferred_view t (cn_operation completion) = Some (c, r)" "dc_state c = DeferredWaiting (cn_key completion)"
    "t' = set_state (cn_operation completion) (DeferredReady (cn_reason completion)) t"
    by (auto simp: resolve_iff split: option.splits if_splits)
  then show ?case using set_state_step [OF resolves.prems c(1)] by (auto simp: call_moves_def)
next
  case (finishes operation t c t')
  have "deferred_ok t' \<and> deferred_view t' = (deferred_view t)(operation := None) \<and> deferred_advances (dt_slots t) (dt_slots t')"
    using finish_effect [OF finishes.prems, of operation] finishes.hyps by (auto split: option.splits deferred_state.splits if_splits)
  then show ?case unfolding deferred_effect_def call_moves_def by auto
next
  case (tears_down owner reason t res t')
  consider "t' = t" | "deferred_ok t'" "deferred_advances (dt_slots t) (dt_slots t')"
      "deferred_view t' = (\<lambda>k. case deferred_view t k of None \<Rightarrow> None
        | Some (c, r) \<Rightarrow> if wc_task (dc_owner c) = owner then None else Some (c, r))"
    using teardown_effect [OF tears_down.prems tears_down.hyps] by (metis (no_types, lifting))
  then show ?case
    by cases (use tears_down.prems in \<open>auto simp: deferred_effect_def call_moves_def split: option.splits\<close>)
qed

interpretation deferred: generation_table dt_slots dsl_generation "\<lambda>x. dsl_record x \<noteq> None" deferred_floor deferred_ok deferred_step
proof
  fix t t' assume "deferred_ok t" "deferred_step t t'"
  then show "deferred_ok t'" "deferred_advances (dt_slots t) (dt_slots t')"
    using deferred_step_effect unfolding deferred_effect_def by blast+
next
  fix t x assume ok: "deferred_ok t" and x: "x \<in> set (dt_slots t)" "dsl_record x \<noteq> None"
  then obtain i where "i < length (dt_slots t)" "x = dt_slots t ! i" by (auto simp: in_set_conv_nth)
  then show "deferred_floor x \<le> dsl_generation x" using deferred_okD(2) [OF ok] x(2) by (auto simp: deferred_slot_ok_def deferred_floor_def)
qed

lemma deferred_names_view:
  "names_live dsl_generation (\<lambda>x. dsl_record x \<noteq> None) (dt_slots t) (op_slot k) (op_generation k) \<longleftrightarrow> deferred_view t k \<noteq> None"
  by (auto simp: names_live_def deferred_view_def slot_call_def)

lemma request_run:
  "deferred_step\<^sup>*\<^sup>* t u \<Longrightarrow> deferred_ok t \<Longrightarrow> deferred_view t k = Some (c, r) \<Longrightarrow> deferred_view u k = None \<or> (\<exists>c'. deferred_view u k = Some (c', r))"
proof (induction rule: rtranclp_induct)
  case base
  then show ?case by blast
next
  case (step u v)
  have ok: "deferred_ok u" by (rule deferred.inv_steps [OF step.hyps(1) step.prems(1)])
  show ?case
  proof (cases "deferred_view u k")
    case None
    have "deferred_view v k = None"
      using deferred.no_resurrection [OF step.prems(1) _ step.hyps(1) _ r_into_rtranclp [of deferred_step, OF step.hyps(2)], of "op_slot k" "op_generation k"]
        None step.prems(2) unfolding deferred_names_view by (cases "deferred_view v k") simp_all
    then show ?thesis by simp
  next
    case (Some p)
    then show ?thesis using step.IH step.prems deferred_step_effect [OF step.hyps(2) ok] unfolding deferred_effect_def by fastforce
  qed
qed

lemma gone_run:
  assumes "deferred_ok t" "deferred_view t k \<noteq> None" "deferred_step\<^sup>*\<^sup>* t u" "deferred_view u k = None" "deferred_step\<^sup>*\<^sup>* u v"
  shows "deferred_view v k = None"
  using deferred.no_resurrection [OF assms(1) _ assms(3) _ assms(5), of "op_slot k" "op_generation k"] assms(2,4)
  unfolding deferred_names_view by blast

lemma free_buffer_zero:
  assumes "deferred_ok t" "x \<in> set (dt_slots t)" "dsl_record x = None"
  shows "dsl_request x = replicate MAX_PENDING_REQUEST_BYTES 0"
proof -
  from assms(2) obtain i where i: "i < length (dt_slots t)" "x = dt_slots t ! i" by (auto simp: in_set_conv_nth)
  then have "deferred_slot_ok i x" using deferred_okD(2) [OF assms(1)] by simp
  then show ?thesis using assms(3) by (simp add: deferred_slot_ok_def slot_bytes_def)
qed

lemma deferred_ok_new: "deferred_new reserved capacity bytes = Inr t \<Longrightarrow> deferred_ok t \<and> deferred_view t = Map.empty"
  by (auto simp: deferred_new_def deferred_ok_def deferred_view_def callers_compatible_def result_simps checked_simps split: if_splits)

section \<open>Properties\<close>

definition sample_deferred :: deferred_table where
  "sample_deferred = \<lparr>dt_slots = [], dt_capacity = 2, dt_retained_byte_capacity = 16, dt_last_request_id = 0,
     dt_stats = \<lparr>ds_live = 0, ds_high_water = 0, ds_retained_bytes = 0, ds_retained_bytes_high_water = 0,
       ds_completed = 0, ds_terminal_completions = 0, ds_zeroized_bytes = 0\<rparr>\<rparr>"

abbreviation "sample_operation \<equiv> \<lparr>op_slot = 0, op_generation = 1\<rparr> :: operation_id"

lemma sample_deferred_facts: "deferred_ok sample_deferred" "deferred_view sample_deferred = Map.empty"
  using deferred_ok_new [of True 2 16 sample_deferred]
  by (simp_all add: deferred_new_def sample_deferred_def checked_mul_def try_into_def MAX_PENDING_REQUEST_BYTES_def MAX_RETAINED_CALLS_def)

lemma sample_begins:
  obtains t where "deferred_begin_for True (caller_task 7) 1 5 2 [1, 2, 3] 64 sample_deferred = (Inr sample_operation, t)"
    "deferred_ok t" "deferred_view t = [sample_operation \<mapsto> (new_call sample_operation (caller_task 7) 1 5 2 [1, 2, 3] 64, [1, 2, 3])]"
    "release_room 1 0 3 (dt_stats t)"
proof -
  have room: "release_room 1 0 3 (dt_stats (snd (deferred_begin_for True (caller_task 7) 1 5 2 [1, 2, 3] 64 sample_deferred)))"
    by (simp add: deferred_begin_for_def sample_deferred_def deferred_claim_def deferred_retain_def deferred_slot_empty_def
        MAX_PENDING_REQUEST_BYTES_def try_into_def checked_add_def Let_def release_room_def)
  have op: "fst (deferred_begin_for True (caller_task 7) 1 5 2 [1, 2, 3] 64 sample_deferred) = Inr sample_operation"
    by (simp add: deferred_begin_for_def sample_deferred_def deferred_claim_def deferred_retain_def deferred_slot_empty_def
        MAX_PENDING_REQUEST_BYTES_def try_into_def checked_add_def Let_def)
  then obtain t where t: "deferred_begin_for True (caller_task 7) 1 5 2 [1, 2, 3] 64 sample_deferred = (Inr sample_operation, t)"
    by (metis prod.collapse)
  note eff = begin_effect [OF sample_deferred_facts(1) t]
  from conjunct1 [OF eff] have "deferred_view t = [sample_operation \<mapsto> (new_call sample_operation (caller_task 7) 1 5 2 [1, 2, 3] 64, [1, 2, 3])]"
    by cases (simp_all add: sample_deferred_facts(2))
  then show ?thesis using that t eff room by simp
qed

text \<open>A call is retained exactly when its message fits, its identity is new, its caller has no conflicting call and its
  bytes fit the system-wide budget, and a slot is available; each refusal names its cause and changes nothing. A retained call
  adds one operation that was not live, with the copied request, and leaves every other call as it was.\<close>
lemma deferred_admission_exact:
  assumes "deferred_ok t" "deferred_begin_for reserved owner request_id handle opcode req reply_capacity t = (res, t')"
  shows "begin_outcome reserved owner request_id handle opcode req reply_capacity t res t' \<and> deferred_ok t'"
  using begin_effect [OF assms] by blast

text \<open>C15. Whatever the table does after a request was copied, reading it back gives exactly the copied bytes until the
  operation is finished or torn down, and from then on the operation is stale for ever. Every slot without a call holds
  only zero bytes, so no byte of an ended request reaches a later call.\<close>
theorem deferred_request_integrity:
  assumes "deferred_ok t" "deferred_begin_for reserved owner request_id handle opcode req reply_capacity t = (Inr oid, t')"
    and "deferred_step\<^sup>*\<^sup>* t' u"
  shows "(deferred_request oid u = Inr req \<or>
      (\<forall>v. deferred_step\<^sup>*\<^sup>* u v \<longrightarrow> deferred_request oid v = Inl StaleOperation)) \<and>
    (\<forall>x\<in>set (dt_slots u). dsl_record x = None \<longrightarrow> dsl_request x = replicate MAX_PENDING_REQUEST_BYTES 0)"
proof -
  note eff = begin_effect [OF assms(1,2)]
  have ok': "deferred_ok t'" using eff by blast
  from conjunct1 [OF eff] obtain c where view: "deferred_view t' oid = Some (c, req)" by cases simp_all
  have ok: "deferred_ok u" by (rule deferred.inv_steps [OF assms(3) ok'])
  have "deferred_request oid v = Inl StaleOperation" if gone: "deferred_view u oid = None" and run: "deferred_step\<^sup>*\<^sup>* u v" for v
    using gone_run [OF ok' _ assms(3) gone run] view deferred_record_view(2) [OF deferred.inv_steps [OF run ok], of oid] by simp
  moreover have "deferred_request oid u = Inr req" if "deferred_view u oid = Some (c', req)" for c'
    using that deferred_record_view(2) [OF ok] by simp
  ultimately show ?thesis using request_run [OF assms(3) ok' view] free_buffer_zero [OF ok] by blast
qed

theorem deferred_request_integrity_witness:
  "\<exists>t oid. deferred_request oid t = Inr [1, 2, 3]"
proof -
  obtain t where t: "deferred_begin_for True (caller_task 7) 1 5 2 [1, 2, 3] 64 sample_deferred = (Inr sample_operation, t)"
    and ok: "deferred_ok t" and view: "deferred_view t = [sample_operation \<mapsto> (new_call sample_operation (caller_task 7) 1 5 2 [1, 2, 3] 64, [1, 2, 3])]"
    by (rule sample_begins)
  note w = deferred_request_integrity [OF sample_deferred_facts(1) t rtranclp.rtrancl_refl]
  have "deferred_request sample_operation t \<noteq> Inl StaleOperation" using deferred_record_view(2) [OF ok] view by simp
  then have "deferred_request sample_operation t = Inr [1, 2, 3]" using w by blast
  then show ?thesis by blast
qed

text \<open>C39. Finishing returns the call and removes exactly it, and only a ready call can be finished; tearing a task down
  removes exactly the calls of that task, or nothing at all. Both count what they remove and zero every byte of it.\<close>
theorem deferred_release_exact:
  assumes "deferred_ok t"
  shows "(\<forall>c u. deferred_finish k t = Inr (c, u) \<longleftrightarrow>
      (\<exists>r reason. deferred_view t k = Some (c, r) \<and> dc_state c = DeferredReady reason \<and>
         release_index (op_slot k) c (reason_is_terminal reason) t = Inr u)) \<and>
    (\<forall>c u. deferred_finish k t = Inr (c, u) \<longrightarrow> deferred_ok u \<and> deferred_view u = (deferred_view t)(k := None) \<and>
      dsl_request (dt_slots u ! op_slot k) = replicate MAX_PENDING_REQUEST_BYTES 0) \<and>
    (\<forall>n u. teardown_owner owner reason t = (Inr n, u) \<longrightarrow>
      deferred_ok u \<and> deferred_view u = (\<lambda>k. case deferred_view t k of None \<Rightarrow> None
        | Some (c, r) \<Rightarrow> if wc_task (dc_owner c) = owner then None else Some (c, r)) \<and>
      dt_stats u = released n n (sum_list (map (owned_bytes owner) (dt_slots t))) (dt_stats t)) \<and>
    (\<forall>e u. teardown_owner owner reason t = (Inl e, u) \<longrightarrow> u = t)"
proof (intro conjI allI)
  have view: "deferred_finish k t = Inr (c, u) \<longleftrightarrow>
      (\<exists>r reason. deferred_view t k = Some (c, r) \<and> dc_state c = DeferredReady reason \<and>
         release_index (op_slot k) c (reason_is_terminal reason) t = Inr u)" for c u
  proof (cases "deferred_view t k")
    case None
    then show ?thesis by (simp add: deferred_finish_def validate_view [OF assms])
  next
    case (Some p)
    obtain d r where p: "p = (d, r)" "dsl_record (dt_slots t ! op_slot k) = Some d" using deferred_view_SomeE [OF Some] by blast
    then show ?thesis using Some
      by (cases "dc_state d") (auto simp: deferred_finish_def validate_view [OF assms] result_simps)
  qed
  show "deferred_finish k t = Inr (c, u) \<longleftrightarrow>
      (\<exists>r reason. deferred_view t k = Some (c, r) \<and> dc_state c = DeferredReady reason \<and>
         release_index (op_slot k) c (reason_is_terminal reason) t = Inr u)" for c u by (rule view)
  show "deferred_finish k t = Inr (c, u) \<longrightarrow> deferred_ok u \<and> deferred_view u = (deferred_view t)(k := None) \<and>
      dsl_request (dt_slots u ! op_slot k) = replicate MAX_PENDING_REQUEST_BYTES 0" for c u
  proof
    assume "deferred_finish k t = Inr (c, u)"
    then obtain r reason' where r: "deferred_view t k = Some (c, r)" "release_index (op_slot k) c (reason_is_terminal reason') t = Inr u"
      using view by blast
    obtain i: "op_slot k < length (dt_slots t)" and rc: "dsl_record (dt_slots t ! op_slot k) = Some c"
      and kid: "deferred_id (op_slot k) (dt_slots t ! op_slot k) = k" using deferred_view_SomeE [OF r(1)] by blast
    note eff = call_release_effect [OF assms i rc r(2)]
    have "dt_slots u ! op_slot k \<in> set (dt_slots u)" "dsl_record (dt_slots u ! op_slot k) = None"
      using eff(5) i vacated_ok(2) [OF deferred_okD(2) [OF assms i] rc] by (simp_all add: set_update_memI)
    then have "dsl_request (dt_slots u ! op_slot k) = replicate MAX_PENDING_REQUEST_BYTES 0" by (rule free_buffer_zero [OF eff(1)])
    then show "deferred_ok u \<and> deferred_view u = (deferred_view t)(k := None) \<and>
      dsl_request (dt_slots u ! op_slot k) = replicate MAX_PENDING_REQUEST_BYTES 0" using eff(1,2) kid by simp
  qed
  show "teardown_owner owner reason t = (Inr n, u) \<longrightarrow>
      deferred_ok u \<and> deferred_view u = (\<lambda>k. case deferred_view t k of None \<Rightarrow> None
        | Some (c, r) \<Rightarrow> if wc_task (dc_owner c) = owner then None else Some (c, r)) \<and>
      dt_stats u = released n n (sum_list (map (owned_bytes owner) (dt_slots t))) (dt_stats t)" for n u
    using teardown_effect [OF assms, of owner reason "Inr n" u] by (auto split: if_splits)
  show "teardown_owner owner reason t = (Inl e, u) \<longrightarrow> u = t" for e u
    using teardown_effect [OF assms, of owner reason "Inl e" u] by (auto split: if_splits)
qed

lemma sample_ready:
  obtains t u where "deferred_ok t" "mark_ready sample_operation WakeDeadline t = Inr u" "deferred_ok u"
    "deferred_view u = [sample_operation \<mapsto> ((new_call sample_operation (caller_task 7) 1 5 2 [1, 2, 3] 64)\<lparr>dc_state := DeferredReady WakeDeadline\<rparr>, [1, 2, 3])]"
    "release_room 1 0 3 (dt_stats u)"
proof -
  let ?c = "new_call sample_operation (caller_task 7) 1 5 2 [1, 2, 3] 64"
  obtain t where ok: "deferred_ok t" and view: "deferred_view t = [sample_operation \<mapsto> (?c, [1, 2, 3])]"
    and room: "release_room 1 0 3 (dt_stats t)" by (rule sample_begins)
  have "deferred_view t sample_operation = Some (?c, [1, 2, 3])" using view by simp
  note eff = set_state_effect [OF ok this, of "DeferredReady WakeDeadline"]
  have "mark_ready sample_operation WakeDeadline t = Inr (set_state sample_operation (DeferredReady WakeDeadline) t)"
    by (simp add: bind_iff [OF ok] view new_call_def)
  moreover have "dt_stats (set_state sample_operation (DeferredReady WakeDeadline) t) = dt_stats t" by (simp add: set_state_def)
  ultimately show ?thesis using that [OF ok] eff(1,2) room view by simp
qed

theorem deferred_release_exact_witness:
  "\<exists>t c u. deferred_finish sample_operation t = Inr (c, u) \<and> deferred_view t \<noteq> Map.empty \<and> deferred_view u = Map.empty"
proof -
  let ?c = "(new_call sample_operation (caller_task 7) 1 5 2 [1, 2, 3] 64)\<lparr>dc_state := DeferredReady WakeDeadline\<rparr>"
  obtain s t where t: "deferred_ok t" "deferred_view t = [sample_operation \<mapsto> (?c, [1, 2, 3])]" "release_room 1 0 3 (dt_stats t)"
    by (rule sample_ready)
  have "\<exists>u. deferred_finish sample_operation t = Inr (?c, u)"
    using finish_effect [OF t(1), of sample_operation] t(2,3) by (auto simp: new_call_def reason_is_terminal_def numeral_3_eq_3)
  then obtain u where u: "deferred_finish sample_operation t = Inr (?c, u)" by blast
  with conjunct1 [OF conjunct2 [OF deferred_release_exact [OF t(1), of sample_operation]]]
  have "deferred_view u = (deferred_view t)(sample_operation := None)" by blast
  then show ?thesis using u t(2) by (intro exI [of _ t] exI [of _ ?c] exI [of _ u]) auto
qed

section \<open>From the wait to the resumed call\<close>

lemma ready_run:
  "deferred_step\<^sup>*\<^sup>* t u \<Longrightarrow> deferred_ok t \<Longrightarrow> deferred_view t k = Some (c, r) \<Longrightarrow> dc_state c = DeferredReady reason \<Longrightarrow>
   deferred_view u k = None \<or> deferred_view u k = Some (c, r)"
proof (induction rule: rtranclp_induct)
  case base
  then show ?case by blast
next
  case (step u v)
  have ok: "deferred_ok u" by (rule deferred.inv_steps [OF step.hyps(1) step.prems(1)])
  from step.IH [OF step.prems] show ?case
  proof
    assume "deferred_view u k = None"
    then have "deferred_view v k = None"
      using gone_run [OF step.prems(1) _ step.hyps(1) _ r_into_rtranclp [of deferred_step, OF step.hyps(2)]] step.prems(2) by simp
    then show ?thesis ..
  next
    assume "deferred_view u k = Some (c, r)"
    then show ?thesis using deferred_step_effect [OF step.hyps(2) ok] step.prems(3) unfolding deferred_effect_def call_moves_def by fastforce
  qed
qed

text \<open>C12. A call whose wait was published resumes by exactly the completion of that wait. When the call was bound to the
  published key and any run of the wait table follows, a wake of that key yields a completion that the pending call accepts
  as long as it is still waiting; the call becomes ready with that reason, its request is still the copied one, and the same
  completion is refused ever after.\<close>
theorem wake_resumes_call:
  assumes "wait_ok w" "wait_register reserved spec observation now w = (Inr (RegistrationBlocked key), w1)" "wait_step\<^sup>*\<^sup>* w1 w2"
    and "deferred_ok d" "deferred_view d (sp_operation spec) = Some (c, req)" "dc_owner c = sp_owner spec" "dc_state c = DeferredWaiting key"
    and "wait_wake key reason w2 = (Inr completion, w3)"
  shows "\<exists>d'. deferred_resolve completion d = Inr d' \<and>
    deferred_view d' = (deferred_view d)(sp_operation spec \<mapsto> (c\<lparr>dc_state := DeferredReady reason\<rparr>, req)) \<and>
    (\<forall>u d''. deferred_step\<^sup>*\<^sup>* d' u \<longrightarrow> deferred_resolve completion u \<noteq> Inr d'')"
proof -
  note reg = register_effect [OF assms(1,2)]
  have ok1: "wait_ok w1" using reg by blast
  from conjunct1 [OF reg] have "wait_view w1 key = Some spec" by cases simp_all
  then have "wait_view w2 key = Some spec \<or> wait_view w2 key = None" by (rule wait_run_view [OF assms(3) ok1])
  moreover note eff = conjunct2 [OF conjunct2 [OF wake_effect [OF waits.inv_steps [OF assms(3) ok1] assms(8)]]]
  ultimately have "completes w2 key spec reason (Inr completion) w3" by (auto split: if_splits)
  then have comp: "completion = completion_of reason key spec" by cases simp
  have op: "cn_operation completion = sp_operation spec" "cn_owner completion = sp_owner spec" "cn_key completion = key" "cn_reason completion = reason"
    by (simp_all add: comp completion_of_def)
  let ?d = "set_state (sp_operation spec) (DeferredReady reason) d"
  have res: "deferred_resolve completion d = Inr ?d" using assms(5-7) by (simp add: resolve_iff [OF assms(4)] op)
  note st = set_state_effect [OF assms(4,5), of "DeferredReady reason"]
  have "deferred_resolve completion u \<noteq> Inr d''" if run: "deferred_step\<^sup>*\<^sup>* ?d u" for u d''
  proof -
    have view: "deferred_view ?d (sp_operation spec) = Some (c\<lparr>dc_state := DeferredReady reason\<rparr>, req)" by (simp add: st(2))
    have ok: "deferred_ok u" by (rule deferred.inv_steps [OF run st(1)])
    from ready_run [OF run st(1) view, of reason]
    have "deferred_view u (sp_operation spec) = None \<or> deferred_view u (sp_operation spec) = Some (c\<lparr>dc_state := DeferredReady reason\<rparr>, req)" by simp
    then show ?thesis by (auto simp: resolve_iff [OF ok] op)
  qed
  then show ?thesis using res st(2) by blast
qed

theorem wake_resumes_call_witness:
  "\<exists>d completion d'. deferred_resolve completion d = Inr d' \<and> cn_reason completion = WakeDeadline \<and>
     (\<forall>u d''. deferred_step\<^sup>*\<^sup>* d' u \<longrightarrow> deferred_resolve completion u \<noteq> Inr d'')"
proof -
  let ?c = "new_call sample_operation (caller_task 7) 1 5 2 [1, 2, 3] 64"
  let ?w = "?c\<lparr>dc_state := DeferredWaiting sample_key\<rparr>"
  obtain t where ok: "deferred_ok t" and view: "deferred_view t = [sample_operation \<mapsto> (?c, [1, 2, 3])]" by (rule sample_begins)
  then have "deferred_view t sample_operation = Some (?c, [1, 2, 3])" by simp
  note st = set_state_effect [OF ok this, of "DeferredWaiting sample_key"]
  have op: "sp_operation sample_wait = sample_operation" "sp_owner sample_wait = caller_task 7" by (simp_all add: sample_wait_def)
  have d: "deferred_view (set_state sample_operation (DeferredWaiting sample_key) t) (sp_operation sample_wait) = Some (?w, [1, 2, 3])"
    unfolding op st(2) by simp
  have reg: "wait_register True sample_wait ObservePending 5 sample_waits = (Inr (RegistrationBlocked sample_key), sample_live)"
    using sample_published by (simp add: sample_live_def prod_eq_iff)
  obtain res w3 where wake: "wait_wake sample_key WakeDeadline sample_live = (res, w3)" by fastforce
  have "spec_accepts sample_wait WakeDeadline" by (simp add: spec_accepts_def sample_wait_def interest_contains_def)
  then have "completes sample_live sample_key sample_wait WakeDeadline res w3"
    using conjunct2 [OF conjunct2 [OF wake_effect [OF sample_live_facts(1) wake]]] sample_live_facts(2) by simp
  then have res: "res = Inr (completion_of WakeDeadline sample_key sample_wait)" by cases (use sample_live_facts(3) in blast)+
  have "dc_owner ?w = sp_owner sample_wait" "dc_state ?w = DeferredWaiting sample_key" by (simp_all add: new_call_def op)
  from wake_resumes_call [OF sample_waits_ok reg rtranclp.rtrancl_refl st(1) d this wake [unfolded res]]
  show ?thesis by (metis completion_of_def wait_completion.select_convs(4))
qed

end
