(* ===== verification/Streams.thy ===== *)
theory Streams
  imports Wire
begin

text \<open>
  Byte streams (\<open>troe-core/src/lib.rs\<close>) and cooperative sleeping (\<open>troe-task/src/lib.rs\<close>). A sink
  and a runtime are traits in the source; here they are parameters, and what the code relies on
  is a locale for sinks and named hypotheses for the clock. \<open>write_all\<close> ends for every sink because it
  gives up on a sink that makes no progress; \<open>sleep_until\<close> ends when the clock it reads advances.
\<close>

section \<open>Streams\<close>

datatype stream_error = StreamNoSpace | StreamUnsupported | StreamDevice

type_synonym 'o sink = "byte list \<Rightarrow> 'o \<Rightarrow> (stream_error, nat) result \<times> 'o"

function write_all :: "'o sink \<Rightarrow> byte list \<Rightarrow> 'o \<Rightarrow> (stream_error, unit) result \<times> 'o" where
  "write_all put bytes out =
     (if bytes = [] then (Inr (), out)
      else case put bytes out of
        (Inl e, out') \<Rightarrow> (Inl e, out')
      | (Inr n, out') \<Rightarrow>
          if n = 0 \<or> n > length bytes then (Inl StreamDevice, out')
          else write_all put (drop n bytes) out')"
  by pat_completeness auto
termination
  by (relation "measure (\<lambda>(put, bytes, out). length bytes)") auto

declare write_all.simps [simp del]

record slice_input =
  si_bytes :: "byte list"
  si_offset :: nat
  si_max_chunk :: nat

definition slice_new :: "byte list \<Rightarrow> slice_input" where
  "slice_new bytes = \<lparr>si_bytes = bytes, si_offset = 0, si_max_chunk = 2 ^ 64 - 1\<rparr>"

definition slice_with_max_chunk :: "byte list \<Rightarrow> nat \<Rightarrow> slice_input" where
  "slice_with_max_chunk bytes max_chunk = \<lparr>si_bytes = bytes, si_offset = 0, si_max_chunk = max_chunk\<rparr>"

definition slice_read :: "byte list \<Rightarrow> slice_input \<Rightarrow> (stream_error, nat) result \<times> byte list \<times> slice_input" where
  "slice_read destination self =
     (let remaining = length (si_bytes self) - si_offset self;
          n = min (min remaining (length destination)) (si_max_chunk self)
      in if n = 0 then (Inr 0, destination, self)
         else (Inr n, copy_at 0 (chunk (si_offset self) n (si_bytes self)) destination,
               self\<lparr>si_offset := si_offset self + n\<rparr>))"

record bounded_output =
  bo_bytes :: "byte list"
  bo_limit :: nat

definition bounded_new :: "nat \<Rightarrow> bounded_output" where
  "bounded_new limit = \<lparr>bo_bytes = [], bo_limit = limit\<rparr>"

text \<open>\<open>reserve\<close> is the outcome of the fallible reservation for that many bytes.\<close>

definition bounded_write :: "(nat \<Rightarrow> bool) \<Rightarrow> bounded_output sink" where
  "bounded_write reserve bytes self =
     (case checked_add 64 (length (bo_bytes self)) (length bytes) of
        None \<Rightarrow> (Inl StreamNoSpace, self)
      | Some new_len \<Rightarrow>
          if new_len > bo_limit self then (Inl StreamNoSpace, self)
          else if \<not> reserve (length bytes) then (Inl StreamNoSpace, self)
          else (Inr (length bytes), self\<lparr>bo_bytes := bo_bytes self @ bytes\<rparr>))"

section \<open>Sinks\<close>

text \<open>What a sink promises: it accepts a prefix of what it is given, and nothing when it fails.\<close>

locale output_sink =
  fixes put :: "'o sink" and accepted :: "'o \<Rightarrow> byte list"
  assumes write_accepts: "put bytes out = (Inr n, out') \<Longrightarrow> n \<le> length bytes \<and> accepted out' = accepted out @ take n bytes"
    and write_refuses: "put bytes out = (Inl e, out') \<Longrightarrow> accepted out' = accepted out"
begin

lemma write_all_prefix:
  "write_all put bytes out = (res, out') \<Longrightarrow>
   \<exists>n\<le>length bytes. accepted out' = accepted out @ take n bytes \<and> (res = Inr () \<longrightarrow> n = length bytes)"
proof (induction bytes arbitrary: out rule: length_induct)
  case (1 bytes)
  note unfolded = 1(2) [unfolded write_all.simps [of put bytes out]]
  show ?case
  proof (cases "bytes = []")
    case True
    then show ?thesis using unfolded by (intro exI [of _ 0]) simp
  next
    case False
    obtain r u where w: "put bytes out = (r, u)" by fastforce
    show ?thesis
    proof (cases r)
      case (Inl e)
      then have "res = Inl e" "out' = u" using unfolded False w by simp_all
      then show ?thesis using write_refuses w Inl by (intro exI [of _ 0]) simp
    next
      case (Inr n)
      have acc: "n \<le> length bytes" "accepted u = accepted out @ take n bytes" using write_accepts w Inr by blast+
      show ?thesis
      proof (cases "n = 0")
        case True
        then have "res = Inl StreamDevice" "out' = u" using unfolded False w Inr by simp_all
        then show ?thesis using acc by (intro exI [of _ n]) simp
      next
        case pos: False
        then have "write_all put (drop n bytes) u = (res, out')" using unfolded False w Inr acc(1) by simp
        moreover have "length (drop n bytes) < length bytes" using pos False acc(1) by simp
        ultimately obtain m where m: "m \<le> length (drop n bytes)" "accepted out' = accepted u @ take m (drop n bytes)"
          "res = Inr () \<longrightarrow> m = length (drop n bytes)" using 1(1) by blast
        have "take n bytes @ take m (drop n bytes) = take (n + m) bytes" by (simp add: take_add)
        then show ?thesis using m acc by (intro exI [of _ "n + m"]) auto
      qed
    qed
  qed
qed

end

interpretation bounded_sink: output_sink "bounded_write reserve" bo_bytes for reserve
  by unfold_locales (auto simp: bounded_write_def split: option.splits if_splits)

section \<open>Cooperative sleeping\<close>

text \<open>
  \<open>CooperativeRuntime\<close>: reading the clock and the checkpoint are the operations of the runtime, both of
  which may change it; a reading and a deadline are the 64-bit words of \<open>MonotonicMillis\<close>. The loop need not end for an arbitrary runtime, so not ending is \<open>None\<close>.
\<close>

partial_function (option) sleep_until ::
    "('r \<Rightarrow> 64 word \<times> 'r) \<Rightarrow> ('r \<Rightarrow> (unit, unit) result \<times> 'r) \<Rightarrow> 64 word \<Rightarrow> 'r \<Rightarrow> ((unit, unit) result \<times> 'r) option" where
  "sleep_until now checkpoint deadline self =
     (case now self of (t, self') \<Rightarrow>
        if t < deadline
        then (case checkpoint self' of
                (Inl cancelled, self'') \<Rightarrow> Some (Inl cancelled, self'')
              | (Inr _, self'') \<Rightarrow> sleep_until now checkpoint deadline self'')
        else Some (Inr (), self'))"

definition cooperative_sleep ::
    "('r \<Rightarrow> 64 word \<times> 'r) \<Rightarrow> ('r \<Rightarrow> (unit, unit) result \<times> 'r) \<Rightarrow> 64 word \<Rightarrow> 'r \<Rightarrow> ((unit, unit) result \<times> 'r) option" where
  "cooperative_sleep now checkpoint milliseconds self =
     (case now self of (t, self') \<Rightarrow> sleep_until now checkpoint (of_nat (saturating_add 64 (unat t) (unat milliseconds))) self')"

text \<open>One round of the loop, and the clock reading after some rounds.\<close>

definition sleep_round :: "('r \<Rightarrow> 64 word \<times> 'r) \<Rightarrow> ('r \<Rightarrow> (unit, unit) result \<times> 'r) \<Rightarrow> 'r \<Rightarrow> 'r" where
  "sleep_round now checkpoint r = snd (checkpoint (snd (now r)))"

definition clock_after :: "('r \<Rightarrow> 64 word \<times> 'r) \<Rightarrow> ('r \<Rightarrow> (unit, unit) result \<times> 'r) \<Rightarrow> nat \<Rightarrow> 'r \<Rightarrow> 64 word" where
  "clock_after now checkpoint k r = fst (now ((sleep_round now checkpoint ^^ k) r))"

definition cancelled_in :: "('r \<Rightarrow> 64 word \<times> 'r) \<Rightarrow> ('r \<Rightarrow> (unit, unit) result \<times> 'r) \<Rightarrow> nat \<Rightarrow> 'r \<Rightarrow> bool" where
  "cancelled_in now checkpoint k r \<longleftrightarrow> isl (fst (checkpoint (snd (now ((sleep_round now checkpoint ^^ k) r)))))"

lemma sleep_first_event:
  assumes "clock_after now checkpoint k r \<ge> deadline \<or> cancelled_in now checkpoint k r"
    and "\<And>j. j < k \<Longrightarrow> clock_after now checkpoint j r < deadline \<and> \<not> cancelled_in now checkpoint j r"
  shows "sleep_until now checkpoint deadline r =
    Some (if clock_after now checkpoint k r \<ge> deadline then (Inr (), snd (now ((sleep_round now checkpoint ^^ k) r)))
          else (Inl (), (sleep_round now checkpoint ^^ Suc k) r))"
  using assms
proof (induction k arbitrary: r)
  case 0
  then show ?case
    by (subst sleep_until.simps)
      (auto simp: clock_after_def cancelled_in_def sleep_round_def split: prod.splits sum.splits)
next
  case (Suc k)
  let ?r = "sleep_round now checkpoint r"
  have shift: "(sleep_round now checkpoint ^^ Suc j) r = (sleep_round now checkpoint ^^ j) ?r" for j by (simp add: funpow_swap1)
  have "clock_after now checkpoint k ?r \<ge> deadline \<or> cancelled_in now checkpoint k ?r"
    using Suc.prems(1) unfolding clock_after_def cancelled_in_def shift .
  moreover have "clock_after now checkpoint j ?r < deadline \<and> \<not> cancelled_in now checkpoint j ?r" if "j < k" for j
    using Suc.prems(2) [of "Suc j"] that unfolding clock_after_def cancelled_in_def shift by simp
  ultimately have IH: "sleep_until now checkpoint deadline ?r =
      Some (if clock_after now checkpoint k ?r \<ge> deadline then (Inr (), snd (now ((sleep_round now checkpoint ^^ k) ?r)))
          else (Inl (), (sleep_round now checkpoint ^^ Suc k) ?r))" by (rule Suc.IH)
  have now: "fst (now r) < deadline" "\<not> isl (fst (checkpoint (snd (now r))))"
    using Suc.prems(2) [of 0] by (simp_all add: clock_after_def cancelled_in_def)
  then have "sleep_until now checkpoint deadline r = sleep_until now checkpoint deadline ?r"
    by (subst sleep_until.simps) (auto simp: sleep_round_def split: prod.splits sum.splits)
  then show ?case unfolding IH clock_after_def shift by simp
qed

text \<open>A 64-bit reading that keeps growing while it is below the deadline does not stay below it.\<close>

lemma clock_reaches:
  fixes clock :: "nat \<Rightarrow> 64 word"
  assumes grows: "\<And>k. clock k < deadline \<Longrightarrow> \<exists>j>k. clock k < clock j"
  shows "\<exists>k. deadline \<le> clock k"
proof (rule ccontr)
  assume "\<not> ?thesis"
  then have below: "clock k < deadline" for k by (simp add: not_le)
  have "\<exists>k. n \<le> unat (clock k)" for n
  proof (induction n)
    case (Suc n)
    then obtain k where k: "n \<le> unat (clock k)" by blast
    from grows [OF below] obtain j where "clock k < clock j" by blast
    with k have "Suc n \<le> unat (clock j)" by (simp add: word_less_nat_alt)
    then show ?case by blast
  qed simp
  then obtain k where "unat deadline \<le> unat (clock k)" by blast
  with below [of k] show False by (simp add: word_less_nat_alt)
qed

lemma sleep_deadline_value:
  "unat (of_nat (saturating_add 64 (unat t) (unat ms)) :: 64 word) = min (unat (t :: 64 word) + unat (ms :: 64 word)) (2 ^ 64 - 1)"
  by (simp add: saturating_add_def unat_of_nat)

text \<open>C40. Sleeping ends when the clock advances. Suppose that along the rounds of this sleep, as long as the deadline is
  not reached and no cancellation is observed, some later reading of the 64-bit clock exceeds the present one. Then the sleep
  returns, and it returns at the first round in which the deadline is reached or the checkpoint reports cancellation, with
  success exactly in the first case. A relative sleep is a sleep until the reading at its start plus the interval, or until
  the greatest 64-bit value where that sum does not fit.\<close>
theorem sleep_terminates:
  assumes "\<And>k. (\<forall>j\<le>k. clock_after now checkpoint j r < deadline \<and> \<not> cancelled_in now checkpoint j r) \<Longrightarrow>
    \<exists>j>k. clock_after now checkpoint k r < clock_after now checkpoint j r"
  shows "(\<exists>k. (\<forall>j<k. clock_after now checkpoint j r < deadline \<and> \<not> cancelled_in now checkpoint j r) \<and>
      sleep_until now checkpoint deadline r =
        (if deadline \<le> clock_after now checkpoint k r then Some (Inr (), snd (now ((sleep_round now checkpoint ^^ k) r)))
         else Some (Inl (), (sleep_round now checkpoint ^^ Suc k) r)) \<and>
      (deadline \<le> clock_after now checkpoint k r \<or> cancelled_in now checkpoint k r)) \<and>
    (\<exists>d. unat d = min (unat (fst (now r)) + unat milliseconds) (2 ^ 64 - 1) \<and>
      cooperative_sleep now checkpoint milliseconds r = sleep_until now checkpoint d (snd (now r)))"
proof -
  let ?P = "\<lambda>k. deadline \<le> clock_after now checkpoint k r \<or> cancelled_in now checkpoint k r"
  have "\<exists>k. ?P k"
  proof (rule ccontr)
    assume "\<not> ?thesis"
    then have none: "clock_after now checkpoint j r < deadline \<and> \<not> cancelled_in now checkpoint j r" for j by (simp add: not_le)
    then have "\<exists>j>k. clock_after now checkpoint k r < clock_after now checkpoint j r" for k using assms by blast
    then show False using clock_reaches [of "\<lambda>k. clock_after now checkpoint k r" deadline] none not_le by blast
  qed
  then obtain k where k: "?P k" "\<forall>j<k. \<not> ?P j" unfolding exists_least_iff [of ?P] by blast
  have before: "clock_after now checkpoint j r < deadline \<and> \<not> cancelled_in now checkpoint j r" if "j < k" for j
    using k(2) that by (simp add: not_le)
  have "cooperative_sleep now checkpoint milliseconds r =
      sleep_until now checkpoint (of_nat (saturating_add 64 (unat (fst (now r))) (unat milliseconds))) (snd (now r))"
    by (simp add: cooperative_sleep_def case_prod_beta)
  with sleep_deadline_value have "\<exists>d. unat d = min (unat (fst (now r)) + unat milliseconds) (2 ^ 64 - 1) \<and>
      cooperative_sleep now checkpoint milliseconds r = sleep_until now checkpoint d (snd (now r))" by blast
  then show ?thesis
    by (intro conjI exI [of _ k] k(1)) (use before sleep_first_event [OF k(1) before] in \<open>simp_all split: if_splits\<close>)
qed

theorem sleep_terminates_witness:
  "\<exists>res. sleep_until (\<lambda>r. (r, r)) (\<lambda>r. (Inr (), r + 1)) 5 (2 :: 64 word) = Some (Inr (), res) \<and> 5 \<le> res"
proof -
  let ?now = "\<lambda>r :: 64 word. (r, r)" and ?checkpoint = "\<lambda>r :: 64 word. (Inr (), r + 1) :: (unit, unit) result \<times> 64 word"
  have round: "clock_after ?now ?checkpoint (Suc k) 2 = clock_after ?now ?checkpoint k 2 + 1" for k
    by (simp add: clock_after_def sleep_round_def)
  have alive: "\<not> cancelled_in ?now ?checkpoint k 2" for k by (simp add: cancelled_in_def)
  have step: "x < x + 1" if "x < 5" for x :: "64 word"
    using that by (simp add: word_less_nat_alt unat_word_ariths)
  have "\<exists>j>k. clock_after ?now ?checkpoint k 2 < clock_after ?now ?checkpoint j 2"
    if "\<forall>j\<le>k. clock_after ?now ?checkpoint j 2 < 5 \<and> \<not> cancelled_in ?now ?checkpoint j 2" for k
    using that step by (intro exI [of _ "Suc k"]) (simp add: round)
  from conjunct1 [OF sleep_terminates [where deadline = 5, OF this]] alive show ?thesis
    by (auto simp: clock_after_def)
qed

section \<open>Accepted bytes\<close>

lemma write_all_bounded:
  "write_all (bounded_write reserve) bytes self =
     (if bytes = [] then (Inr (), self)
      else case bounded_write reserve bytes self of (Inl e, self') \<Rightarrow> (Inl e, self') | (Inr _, self') \<Rightarrow> (Inr (), self'))"
proof -
  have full: "n = length bytes" if "bounded_write reserve bytes self = (Inr n, self')" for n self'
    using that by (auto simp: bounded_write_def split: option.splits if_splits)
  obtain r self' where w: "bounded_write reserve bytes self = (r, self')" by fastforce
  have empty: "write_all (bounded_write reserve) [] self' = (Inr (), self')" by (subst write_all.simps) simp
  have unfolded: "write_all (bounded_write reserve) bytes self =
     (if bytes = [] then (Inr (), self)
      else case bounded_write reserve bytes self of
        (Inl e, out') \<Rightarrow> (Inl e, out')
      | (Inr n, out') \<Rightarrow>
          if n = 0 \<or> n > length bytes then (Inl StreamDevice, out')
          else write_all (bounded_write reserve) (drop n bytes) out')" by (rule write_all.simps)
  show ?thesis using w full [of _ self'] empty by (cases r) (simp_all add: unfolded)
qed

lemma write_all_bounded_prefix:
  "write_all (bounded_write reserve) bytes self = (res, self') \<Longrightarrow>
   \<exists>n\<le>length bytes. bo_bytes self' = bo_bytes self @ take n bytes \<and> (res = Inr () \<longrightarrow> n = length bytes)"
  by (rule bounded_sink.write_all_prefix)

end
