(* ===== verification/Spec2Isabelle.thy ===== *)
theory Spec2Isabelle
  imports Memory_Map_Correct Boot_Allocator Launch_Mapping Pending_Contract Dispatcher_Contract Threading_Response Threading_Startup
    Call_Chain Wait_Set Task_Scheduler_Theorems Deferred_Call_Theorems Streams
begin

text \<open>
  A verification library for the kernel runtime of troe. The program is a small operating system in
  Rust; this library covers the part every other part rests on: who owns physical memory, how an
  application is placed into it, who may call which service, how calls, waits and tasks proceed, and
  the wire records by which isolated threads ask for these things.

  \<^bold>\<open>Conventions\<close> (\<open>Prelude\<close>, \<open>Wire\<close>). A struct is a record, an enum a datatype, \<open>Result\<close> a sum whose
  \<open>Inl\<close> is the error, and \<open>?\<close> is \<open>rbind\<close>. Table indexes, identities and counters are naturals with the
  width written at each checked operation (\<open>checked_add 64\<close>, \<open>try_into 32\<close>); values that cross the ABI
  are machine words. An operation that checks before it writes returns its state inside the result; one
  that can fail after a write returns the state beside it. Outcomes of fallible reservations
  (\<open>try_reserve\<close>) are boolean parameters, and a theorem that depends on an outcome names it. Loops are recursion
  over the list they iterate; halving loops and \<open>write_all\<close> have termination proofs, the only loop that
  may run for ever (\<open>sleep_until\<close>) is a partial function whose return is a theorem. No fuel is used.

  \<^bold>\<open>Physical memory\<close> (\<open>troe-memory\<close>). \<open>Physical_Range\<close> and \<open>Memory_Map\<close> follow \<open>range.rs\<close> and \<open>map.rs\<close>:
  normalisation of the firmware map, overlay of reservations, coverage and statistics;
  \<open>Memory_Map_Correct\<close> shows that the result is exactly the overlay and that the build fails for exactly
  the documented reasons. \<open>Extents\<close> follows \<open>extents.rs\<close>. \<open>Frames\<close> follows \<open>frames.rs\<close> with its bitmaps at
  64-bit words; \<open>Frames_Correct\<close>, \<open>Frame_Pool\<close> and \<open>Frame_Contract\<close> relate them to the set of free
  addresses: exact first fit, and no frame live twice over any run. \<open>Boot_Allocator\<close> follows \<open>boot.rs\<close>.
  \<open>Mapping_Plan\<close> follows \<open>mapping.rs\<close>: the neighbour test of \<open>insert\<close> decides overlap with the whole plan,
  and no page is writable and executable through any two mappings.

  \<^bold>\<open>Launching\<close> (\<open>kernel/src/memory/launch.rs\<close>). \<open>Launch\<close> models the reservation of zeroed frames,
  \<open>Launch_Image\<close> the copy of segments, relocations and the application plan, \<open>Launch_Mapping\<close> the
  composition: what was loaded is what user code sees, only its own frames are reachable, a failed
  reservation restores the allocator, and fragmentation never refuses one within its bound: only too few
  free frames or a failed metadata reservation do. The load plan is an input, the heap and physical memory are part of the state.

  \<^bold>\<open>Authority\<close> (\<open>troe-abi\<close>, \<open>troe-dispatch\<close>). \<open>Interface\<close> and \<open>Message\<close> model the registry of rights and the
  ABI tokens. \<open>Generation_Table\<close> is the contract of every slot table whose identities carry a generation:
  an ended identity never lives again. It is interpreted on endpoints (\<open>Endpoint\<close>), client badges
  (\<open>Badge\<close>), pending calls (\<open>Pending\<close> and its companions), handles and ports (\<open>Dispatcher\<close> and its
  companions), wait keys and copied calls. \<open>Endpoint\<close> and \<open>Badge\<close> refine partial maps, and each
  badge is reported closed exactly once, to its own endpoint and after its last handle; \<open>Pending_Contract\<close> shows that calls end once and in order; the dispatcher
  theorems say which service a handle reaches, what opening adds or why it refuses, and what closing
  takes away. Services
  are parameters of the dispatcher.

  \<^bold>\<open>Wire records\<close> (\<open>troe-abi/src/threading*\<close>). \<open>Threading\<close>, \<open>Threading_Request\<close>, \<open>Threading_Response\<close> and
  \<open>Threading_Startup\<close> model the fixed-layout records byte by byte; decoding accepts exactly what encoding
  produces, and the geometry checks at 64 bits agree with unbounded arithmetic.

  \<^bold>\<open>Tasks and waiting\<close> (\<open>troe-task\<close>). \<open>Call_Chain\<close> follows \<open>chain.rs\<close>: waiting never forms a cycle.
  \<open>Wait_Set\<close> follows \<open>waitset.rs\<close> and \<open>Task_Scheduler\<close> the scheduler of \<open>lib.rs\<close>; \<open>Rotation\<close> holds the cursor
  arithmetic both use, and each serves what stays ready within one rotation. For the scheduler that
  statement is about a fixed set of tasks: admission and reaping between turns can move the cursor.
  \<open>Task_Scheduler_Theorems\<close> adds exclusivity, the closed lifecycle and the transactional teardown.
  \<open>Wait_Table\<close> and \<open>Deferred_Call\<close> follow the two tables of \<open>wait.rs\<close>. Their \<open>Contract\<close>, \<open>Runs\<close> and
  \<open>Theorems\<close> theories show that registration loses no wakeup, that a wait completes once, that expiry,
  resource events and the discarding of an owner are exact, that copied requests are neither changed nor left behind, and, over both tables, that the
  completion of a wait resumes the call that waits on it. \<open>Streams\<close> models the byte streams of
  \<open>troe-core\<close> and the cooperative sleep, which returns whenever the 64-bit clock it reads advances.

  \<^bold>\<open>This theory\<close> holds what spans components: the allocator built from a built map offers exactly the
  unreserved usable frames, and no identity of the dispatch tables is resurrected.

  \<^bold>\<open>Not modelled.\<close> The machine mechanisms (\<open>troe-machine\<close>) act on hardware by register access and
  assembly. The process table, the native thread subsystem (\<open>troe-task/src/thread*\<close>), the built-in
  services, supervision and the kernel composition are clients of the tables above. Executable parsing
  produces the load plan taken as input here. Devices, networking, storage formats, filesystems, the
  shell, applications and tools are independent of this part. Functions that only report heap capacity
  or print text are left out of the modelled files.
\<close>

text \<open>
  C1. An allocator built from a freshly normalised memory map starts with exactly the
  page frames that firmware calls usable and that no reservation covers, none of them
  allocated or reserved.
\<close>

theorem frames_from_built_map:
  assumes "map_inputs_ok firmware reservations"
    and "memory_map_build firmware reservations = Inr m"
  shows "\<exists>fa. frames_from_map True True True m = Inr fa \<and> frames_ok fa \<and>
    used_addrs fa = {} \<and> reserved_addrs fa = {} \<and>
    free_addrs fa = {a \<in> kind_bytes firmware Usable - ranges_bytes reservations. BASE_PAGE_SIZE dvd a}"
proof -
  note m = memory_map_build_Inr [OF assms]
  have "map_canonical m" using m by (simp add: map_canonical_def)
  moreover have "kind_bytes (nm_regions m) Usable = kind_bytes firmware Usable - ranges_bytes reservations"
    using m(1,6) overlay_kind_covered by simp
  ultimately show ?thesis using frames_from_map_ok [of m] by simp
qed

theorem frames_from_built_map_witness:
  "\<exists>fa. frames_from_map True True True sample_map = Inr fa \<and> frames_ok fa \<and>
    12288 \<in> free_addrs fa \<and> 4096 \<notin> free_addrs fa"
proof -
  have free: "12288 \<in> {a \<in> kind_bytes sample_firmware Usable - ranges_bytes sample_reservations. BASE_PAGE_SIZE dvd a}"
    and taken: "4096 \<in> ranges_bytes sample_reservations"
    by (auto simp: kind_bytes_def ranges_bytes_def range_contains_def sample_firmware_def sample_reservations_def
        range_bytes_def BASE_PAGE_SIZE_def)
  obtain fa where fa: "frames_from_map True True True sample_map = Inr fa" "frames_ok fa"
    "free_addrs fa = {a \<in> kind_bytes sample_firmware Usable - ranges_bytes sample_reservations. BASE_PAGE_SIZE dvd a}"
    using frames_from_built_map [OF sample_inputs_ok sample_build] by blast
  have "4096 \<notin> free_addrs fa" unfolding fa(3) using taken by blast
  moreover have "12288 \<in> free_addrs fa" unfolding fa(3) by (rule free)
  ultimately show ?thesis using fa(1,2) by blast
qed

text \<open>
  C17. No identity is ever resurrected. In each table the runtime issues identities from -- service
  endpoints, client badges, pending calls, capability handles and service ports -- an identity
  that resolved in a reachable state and stopped resolving never resolves again, whatever operations
  follow, although its slot is reused.
\<close>

theorem identities_never_resurrected:
  "(endpoint_ok e0 \<and> endpoint_step\<^sup>*\<^sup>* e0 e1 \<and> endpoint_step\<^sup>*\<^sup>* e1 e2 \<and>
      (\<exists>b. endpoint_resolve e0 endpoint = Inr b) \<and> \<not> (\<exists>b. endpoint_resolve e1 endpoint = Inr b) \<longrightarrow>
      \<not> (\<exists>b. endpoint_resolve e2 endpoint = Inr b)) \<and>
   (badge_ok b0 \<and> badge_step\<^sup>*\<^sup>* b0 b1 \<and> badge_step\<^sup>*\<^sup>* b1 b2 \<and>
      (\<exists>o'. badge_resolve b0 badge = Inr o') \<and> \<not> (\<exists>o'. badge_resolve b1 badge = Inr o') \<longrightarrow>
      \<not> (\<exists>o'. badge_resolve b2 badge = Inr o')) \<and>
   (pending_ok p0 \<and> pending_step\<^sup>*\<^sup>* p0 p1 \<and> pending_step\<^sup>*\<^sup>* p1 p2 \<and>
      (\<exists>i. live_index p0 call = Inr i) \<and> \<not> (\<exists>i. live_index p1 call = Inr i) \<longrightarrow>
      \<not> (\<exists>i. live_index p2 call = Inr i)) \<and>
   (dispatcher_ok d0 \<and> (dispatcher_step svc_call svc_call_into)\<^sup>*\<^sup>* d0 d1 \<and> (dispatcher_step svc_call svc_call_into)\<^sup>*\<^sup>* d1 d2 \<longrightarrow>
      (handle_view d0 h \<noteq> None \<and> handle_view d1 h = None \<longrightarrow> handle_view d2 h = None) \<and>
      (port_view d0 port \<noteq> None \<and> port_view d1 port = None \<longrightarrow> port_view d2 port = None))"
proof (intro conjI impI; (elim conjE)?)
  assume a: "endpoint_ok e0" "endpoint_step\<^sup>*\<^sup>* e0 e1" "endpoint_step\<^sup>*\<^sup>* e1 e2"
    and r: "\<exists>b. endpoint_resolve e0 endpoint = Inr b" "\<not> (\<exists>b. endpoint_resolve e1 endpoint = Inr b)"
  note ok = endpoints.inv_steps [OF a(2,1)]
  from r show "\<not> (\<exists>b. endpoint_resolve e2 endpoint = Inr b)"
    unfolding endpoint_resolve_iff_names [OF a(1)] endpoint_resolve_iff_names [OF ok]
      endpoint_resolve_iff_names [OF endpoints.inv_steps [OF a(3) ok]]
    using endpoints.no_resurrection [OF a(1) _ a(2) _ a(3)] by blast
next
  assume a: "badge_ok b0" "badge_step\<^sup>*\<^sup>* b0 b1" "badge_step\<^sup>*\<^sup>* b1 b2"
    and r: "\<exists>o'. badge_resolve b0 badge = Inr o'" "\<not> (\<exists>o'. badge_resolve b1 badge = Inr o')"
  note ok = badges.inv_steps [OF a(2,1)]
  from r show "\<not> (\<exists>o'. badge_resolve b2 badge = Inr o')"
    unfolding badge_resolve_iff_names [OF a(1)] badge_resolve_iff_names [OF ok]
      badge_resolve_iff_names [OF badges.inv_steps [OF a(3) ok]]
    using badges.no_resurrection [OF a(1) _ a(2) _ a(3)] by blast
next
  assume a: "pending_ok p0" "pending_step\<^sup>*\<^sup>* p0 p1" "pending_step\<^sup>*\<^sup>* p1 p2"
    and r: "\<exists>i. live_index p0 call = Inr i" "\<not> (\<exists>i. live_index p1 call = Inr i)"
  note ok = calls.inv_steps [OF a(2,1)]
  from r show "\<not> (\<exists>i. live_index p2 call = Inr i)"
    unfolding live_index_iff_names [OF a(1)] live_index_iff_names [OF ok]
      live_index_iff_names [OF calls.inv_steps [OF a(3) ok]]
    using calls.no_resurrection [OF a(1) _ a(2) _ a(3)] by blast
next
  assume a: "dispatcher_ok d0" "(dispatcher_step svc_call svc_call_into)\<^sup>*\<^sup>* d0 d1"
    "(dispatcher_step svc_call svc_call_into)\<^sup>*\<^sup>* d1 d2" and r: "handle_view d0 h \<noteq> None" "handle_view d1 h = None"
  then show "handle_view d2 h = None"
    using live_handles.no_resurrection [OF a(1) _ a(2) _ a(3), of "h_slot h" "h_generation h"]
    unfolding names_live_handle by (cases h) simp
next
  assume a: "dispatcher_ok d0" "(dispatcher_step svc_call svc_call_into)\<^sup>*\<^sup>* d0 d1"
    "(dispatcher_step svc_call svc_call_into)\<^sup>*\<^sup>* d1 d2" and r: "port_view d0 port \<noteq> None" "port_view d1 port = None"
  then show "port_view d2 port = None"
    using live_ports.no_resurrection [OF a(1) _ a(2) _ a(3), of "pi_slot port" "pi_generation port"]
    unfolding names_live_port by (cases port) simp
qed

definition sample_reopened :: "nat dispatcher" where
  "sample_reopened = snd (open_owned True (snd (dispatcher_close sample_dispatcher \<lparr>h_slot = 0, h_generation = 3\<rparr>))
     \<lparr>pi_slot = 0, pi_generation = 1\<rparr> right_CALL (IsolatedTask 6))"

lemma sample_reopened_slot:
  "dp_handles sample_reopened ! 0 = \<lparr>hs_generation = 4, hs_retired = False, hs_binding = Some
     \<lparr>hb_target = TargetService \<lparr>pi_slot = 0, pi_generation = 1\<rparr>, hb_rights = right_CALL, hb_owner = IsolatedTask 6\<rparr>\<rparr>"
  by (simp add: sample_reopened_def open_owned_def validate_port_def allocate_handle_def dispatcher_close_def handle_slot_mut_def
      release_handle_def sample_dispatcher_def checked_add_def try_into_def Let_def)

theorem identities_never_resurrected_witness:
  "hs_binding (dp_handles sample_reopened ! 0) \<noteq> None \<and> handle_view sample_reopened \<lparr>h_slot = 0, h_generation = 3\<rparr> = None \<and>
   (\<exists>e1. endpoint_close sample_endpoint_table \<lparr>ei_slot = 0, ei_generation = 1\<rparr> = (Inr (), e1) \<and>
      \<not> (\<exists>b. endpoint_resolve e1 \<lparr>ei_slot = 0, ei_generation = 1\<rparr> = Inr b)) \<and>
   (\<exists>b1. badge_close_handle sample_badge_table \<lparr>cb_slot = 0, cb_generation = 2\<rparr> = Inr (ClosureClosed, b1) \<and>
      \<not> (\<exists>o'. badge_resolve b1 \<lparr>cb_slot = 0, cb_generation = 2\<rparr> = Inr o')) \<and>
   (\<exists>p1. pending_complete sample_delivered (sample_call 0) FateReplied = Inr (None, p1) \<and> \<not> (\<exists>i. live_index p1 (sample_call 0) = Inr i))"
proof -
  let ?h = "\<lparr>h_slot = 0, h_generation = 3\<rparr>" and ?p = "\<lparr>pi_slot = 0, pi_generation = 1\<rparr>"
  let ?e = "\<lparr>ei_slot = 0, ei_generation = 1\<rparr>" and ?b = "\<lparr>cb_slot = 0, cb_generation = 2\<rparr>"
  let ?step = "dispatcher_step sample_service (default_call_into sample_service)"
  obtain r1 d1 where close: "dispatcher_close sample_dispatcher ?h = (r1, d1)" by fastforce
  obtain r2 where reopen: "open_owned True d1 ?p right_CALL (IsolatedTask 6) = (r2, sample_reopened)"
    by (metis close prod.collapse sample_reopened_def snd_conv)
  have h: "handle_view sample_dispatcher ?h \<noteq> None" by (simp add: sample_binding)
  have h1: "handle_view d1 ?h = None" using dispatcher_close_ok [OF sample_dispatcher_ok close] by simp
  have d: "?step\<^sup>*\<^sup>* sample_dispatcher d1" "?step\<^sup>*\<^sup>* d1 sample_reopened"
    using dispatcher_step.step_close [OF close] dispatcher_step.step_open [OF reopen] by auto
  obtain e1 where e1: "endpoint_close sample_endpoint_table ?e = (Inr (), e1)" "\<not> (\<exists>b. endpoint_resolve e1 ?e = Inr b)"
    by (simp add: endpoint_close_def endpoint_resolve_def sample_endpoint_table_def checked_sub_def Let_def)
  have e: "\<exists>b. endpoint_resolve sample_endpoint_table ?e = Inr b" by (simp add: endpoint_resolve_def sample_endpoint_table_def Let_def)
  have e01: "endpoint_step\<^sup>*\<^sup>* sample_endpoint_table e1" using endpoint_step.step_close [OF e1(1)] by blast
  obtain b1 where b1: "badge_close_handle sample_badge_table ?b = Inr (ClosureClosed, b1)" "\<not> (\<exists>o'. badge_resolve b1 ?b = Inr o')"
    by (simp add: badge_close_handle_def badge_open_index_def badge_resolve_def sample_badge_table_def checked_sub_def
        checked_add_def Let_def)
  have b: "\<exists>o'. badge_resolve sample_badge_table ?b = Inr o'"
    by (simp add: badge_resolve_def badge_open_index_def sample_badge_table_def Let_def)
  have b01: "badge_step\<^sup>*\<^sup>* sample_badge_table b1" using badge_step_close [OF b1(1)] by blast
  obtain p1 where p1: "pending_complete sample_delivered (sample_call 0) FateReplied = Inr (None, p1)"
    "\<not> (\<exists>i. live_index p1 (sample_call 0) = Inr i)"
    by (simp add: sample_pending_defs pending_complete_def live_index_def count_fate_def)
  have p: "\<exists>i. live_index sample_delivered (sample_call 0) = Inr i"
    by (simp add: sample_pending_defs live_index_def)
  have p01: "pending_step\<^sup>*\<^sup>* sample_delivered p1" using pending_step_complete [OF p1(1)] by blast
  have pok: "pending_ok sample_delivered"
    using pending_run_holds [OF run_deliver [OF sample_queued_run sample_deliver]] by blast
  from identities_never_resurrected [of sample_endpoint_table e1 e1 ?e sample_badge_table b1 b1 ?b sample_delivered p1 p1 "sample_call 0"
      sample_dispatcher sample_service "default_call_into sample_service" d1 sample_reopened ?h ?p]
  show ?thesis
    using sample_endpoint_table_ok sample_badge_table_ok pok sample_dispatcher_ok e e01 e1 b b01 b1 p p01 p1 d h h1 sample_reopened_slot
    by auto
qed

end
